(* ===== verification/Prelude.thy ===== *)
theory Prelude
  imports Main "HOL-Library.Word" "HOL-Library.Signed_Division"
begin

text \<open>
  Shared vocabulary of the development: machine words and byte strings, the faults a C++
  operation can run into and the result type that carries them, bounded memory copies
  (\<open>memcpy\<close> with the bounds of both blocks checked), little-endian encodings, and the
  generic lemmas about circular buffers that the ring buffer and the receive path share.
\<close>

unbundle bit_operations_syntax

section \<open>Machine words and byte strings\<close>

type_synonym u8 = "8 word"
type_synonym u16 = "16 word"
type_synonym u32 = "32 word"
type_synonym u64 = "64 word"
type_synonym bytes = "u8 list"

named_theorems fault_simps \<open>evaluation of operations that may fault\<close>

section \<open>Faults and results\<close>

text \<open>
  \<open>OutOfBounds\<close> is a read or write outside a memory block, \<open>DebugBreak\<close> a call of
  \<open>__debugbreak\<close> (which ends the process), \<open>NullDeref\<close> a use of a null pointer,
  \<open>BadPointer\<close> a use of a pointer to no live object, \<open>Deadlock\<close> a wait for a lock that its
  holder never gives back, \<open>LockMisuse\<close> the release of a lock that is not held. \<open>OutOfFuel\<close> is no behaviour of the
  code: it says that the bound the model puts on a loop was reached.
\<close>

datatype fault = OutOfBounds | DebugBreak | NullDeref | BadPointer | Deadlock | LockMisuse | OutOfFuel

type_synonym 'a result = "fault + 'a"

definition and_then :: "'a result \<Rightarrow> ('a \<Rightarrow> 'b result) \<Rightarrow> 'b result" where
  "and_then r f = (case r of Inl e \<Rightarrow> Inl e | Inr x \<Rightarrow> f x)"

lemma and_then_Inl [simp, fault_simps]: "and_then (Inl e) f = Inl e"
  by (simp add: and_then_def)

lemma and_then_Inr [simp, fault_simps]: "and_then (Inr x) f = f x"
  by (simp add: and_then_def)

lemma and_then_eq_Inr: "and_then r f = Inr y \<longleftrightarrow> (\<exists>x. r = Inr x \<and> f x = Inr y)"
  by (cases r) auto

lemma and_then_InrE:
  assumes "and_then r f = Inr y"
  obtains x where "r = Inr x" "f x = Inr y"
  using assms by (auto simp: and_then_eq_Inr)

lemma and_then_assoc: "and_then (and_then r f) g = and_then r (\<lambda>x. and_then (f x) g)"
  by (cases r) auto

lemma and_then_cong [fundef_cong]:
  "r = r' \<Longrightarrow> (\<And>x. r' = Inr x \<Longrightarrow> f x = f' x) \<Longrightarrow> and_then r f = and_then r' f'"
  by (auto simp: and_then_def split: sum.split)

section \<open>Blocks of memory\<close>

definition splice :: "'a list \<Rightarrow> nat \<Rightarrow> 'a list \<Rightarrow> 'a list" where
  "splice buf off bs = take off buf @ bs @ drop (off + length bs) buf"

lemma length_splice [simp]: "off + length bs \<le> length buf \<Longrightarrow> length (splice buf off bs) = length buf"
  by (simp add: splice_def)

lemma nth_splice:
  "off + length bs \<le> length buf \<Longrightarrow> i < length buf \<Longrightarrow>
   splice buf off bs ! i =
     (if i < off then buf ! i else if i < off + length bs then bs ! (i - off) else buf ! i)"
  by (auto simp: splice_def nth_append min_def)

lemma splice_Nil [simp]: "splice buf off [] = buf"
  by (simp add: splice_def)

lemma take_splice_before: "n \<le> off \<Longrightarrow> off \<le> length buf \<Longrightarrow> take n (splice buf off bs) = take n buf"
  by (simp add: splice_def min_def)

lemma read_splice_same [simp]:
  "off + length bs \<le> length buf \<Longrightarrow> take (length bs) (drop off (splice buf off bs)) = bs"
  by (simp add: splice_def min_def)

text \<open>A pointer into a block is the block and an offset; a null pointer is \<open>None\<close>.\<close>

definition mem_read :: "'a list \<Rightarrow> int \<Rightarrow> int \<Rightarrow> 'a list result" where
  "mem_read buf off n =
     (if 0 \<le> off \<and> 0 \<le> n \<and> off + n \<le> int (length buf)
      then Inr (take (nat n) (drop (nat off) buf)) else Inl OutOfBounds)"

definition mem_write :: "'a list \<Rightarrow> int \<Rightarrow> 'a list \<Rightarrow> 'a list result" where
  "mem_write buf off bs =
     (if 0 \<le> off \<and> off + int (length bs) \<le> int (length buf)
      then Inr (splice buf (nat off) bs) else Inl OutOfBounds)"

text \<open>Access to one cell.\<close>

definition mem_get :: "'a list \<Rightarrow> nat \<Rightarrow> 'a result" where
  "mem_get buf i = (if i < length buf then Inr (buf ! i) else Inl OutOfBounds)"

definition mem_set :: "'a list \<Rightarrow> nat \<Rightarrow> 'a \<Rightarrow> 'a list result" where
  "mem_set buf i b = (if i < length buf then Inr (buf[i := b]) else Inl OutOfBounds)"

lemma mem_get_ok [fault_simps]: "i < length buf \<Longrightarrow> mem_get buf i = Inr (buf ! i)"
  by (simp add: mem_get_def)

lemma mem_set_ok [fault_simps]: "i < length buf \<Longrightarrow> mem_set buf i b = Inr (buf[i := b])"
  by (simp add: mem_set_def)

text \<open>\<open>memcpy(dst + doff, src + soff, n)\<close>: the block \<open>dst\<close> afterwards.\<close>

definition mem_copy :: "'a list \<Rightarrow> int \<Rightarrow> 'a list \<Rightarrow> int \<Rightarrow> int \<Rightarrow> 'a list result" where
  "mem_copy dst doff src soff n =
     and_then (mem_read src soff n) (\<lambda>bs. mem_write dst doff bs)"

lemma mem_read_ok [fault_simps]:
  "0 \<le> off \<Longrightarrow> 0 \<le> n \<Longrightarrow> off + n \<le> int (length buf) \<Longrightarrow>
   mem_read buf off n = Inr (take (nat n) (drop (nat off) buf))"
  by (simp add: mem_read_def)

lemma mem_write_ok [fault_simps]:
  "0 \<le> off \<Longrightarrow> off + int (length bs) \<le> int (length buf) \<Longrightarrow>
   mem_write buf off bs = Inr (splice buf (nat off) bs)"
  by (simp add: mem_write_def)

lemma mem_copy_ok [fault_simps]:
  "0 \<le> soff \<Longrightarrow> 0 \<le> doff \<Longrightarrow> 0 \<le> n \<Longrightarrow> soff + n \<le> int (length src) \<Longrightarrow>
   doff + n \<le> int (length dst) \<Longrightarrow>
   mem_copy dst doff src soff n = Inr (splice dst (nat doff) (take (nat n) (drop (nat soff) src)))"
  by (simp add: mem_copy_def mem_read_def mem_write_def nat_le_iff)

lemma mem_copy_overflow:
  "0 \<le> n \<Longrightarrow> int (length dst) < doff + n \<Longrightarrow> mem_copy dst doff src soff n = Inl OutOfBounds"
  by (auto simp: mem_copy_def mem_read_def mem_write_def nat_le_iff min_def)

lemma mem_write_length: "mem_write buf off bs = Inr buf' \<Longrightarrow> length buf' = length buf"
  by (auto simp: mem_write_def nat_le_iff split: if_splits)

lemma mem_copy_length: "mem_copy dst doff src soff n = Inr dst' \<Longrightarrow> length dst' = length dst"
  by (auto simp: mem_copy_def elim!: and_then_InrE dest: mem_write_length)

section \<open>Little-endian encodings\<close>

fun le_encode :: "nat \<Rightarrow> 'a::len word \<Rightarrow> bytes" where
  "le_encode 0 w = []"
| "le_encode (Suc n) w = ucast w # le_encode n (drop_bit 8 w)"

fun le_decode :: "bytes \<Rightarrow> 'a::len word" where
  "le_decode [] = 0"
| "le_decode (b # bs) = ucast b OR push_bit 8 (le_decode bs)"

lemma length_le_encode [simp]: "length (le_encode n w) = n"
  by (induction n w rule: le_encode.induct) auto

lemma le_decode_encode_take: "le_decode (le_encode n w) = take_bit (8 * n) (w :: 'a::len word)"
proof (induction n w rule: le_encode.induct)
  case (1 w)
  then show ?case by simp
next
  case (2 n w)
  show ?case
    by (rule bit_word_eqI)
      (auto simp: 2 bit_or_iff bit_push_bit_iff bit_take_bit_iff bit_drop_bit_eq bit_ucast_iff
        not_le le_add_diff_inverse)
qed

lemma le_decode_encode [simp]:
  "LENGTH('a) \<le> 8 * n \<Longrightarrow> le_decode (le_encode n w) = (w :: 'a::len word)"
  by (simp add: le_decode_encode_take take_bit_word_eq_self)

lemma le_encode_decode [simp]:
  "8 * length bs \<le> LENGTH('a) \<Longrightarrow> le_encode (length bs) (le_decode bs :: 'a::len word) = bs"
proof (induction bs)
  case Nil
  then show ?case by simp
next
  case (Cons b bs)
  let ?w = "le_decode bs :: 'a word"
  have low: "ucast (ucast b OR push_bit 8 ?w) = b"
    using Cons.prems
    by (intro bit_word_eqI) (auto simp: bit_or_iff bit_push_bit_iff bit_ucast_iff dest: bit_imp_le_length)
  have small: "take_bit (8 * length bs) ?w = ?w"
    using Cons le_decode_encode_take [of "length bs" ?w] by simp
  have high: "drop_bit 8 (ucast b OR push_bit 8 ?w) = ?w"
  proof (rule bit_word_eqI)
    fix n
    assume n: "n < LENGTH('a)"
    have "\<not> bit ?w n" if "8 * length bs \<le> n"
      using that small bit_take_bit_iff [of "8 * length bs" ?w n] by auto
    then show "bit (drop_bit 8 (ucast b OR push_bit 8 ?w)) n = bit ?w n"
      using Cons.prems n
      by (cases "n + 8 < LENGTH('a)")
        (auto simp: bit_or_iff bit_push_bit_iff bit_drop_bit_eq bit_ucast_iff dest: bit_imp_le_length)
  qed
  from Cons low high show ?case by simp
qed

section \<open>Circular reads and writes\<close>

text \<open>
  \<open>circ_get buf f n\<close> reads \<open>n\<close> cells from index \<open>f\<close> on, wrapping at the end of the
  block; \<open>circ_put buf r bs\<close> writes \<open>bs\<close> from index \<open>r\<close> on, first to the end of the
  block and the rest from its start.
\<close>

definition circ_get :: "'a list \<Rightarrow> nat \<Rightarrow> nat \<Rightarrow> 'a list" where
  "circ_get buf f n = map (\<lambda>i. buf ! ((f + i) mod length buf)) [0..<n]"

definition circ_put :: "'a list \<Rightarrow> nat \<Rightarrow> 'a list \<Rightarrow> 'a list" where
  "circ_put buf r bs =
     (let k = min (length bs) (length buf - r)
      in splice (splice buf r (take k bs)) 0 (drop k bs))"

lemma length_circ_get [simp]: "length (circ_get buf f n) = n"
  by (simp add: circ_get_def)

lemma circ_get_0 [simp]: "circ_get buf f 0 = []"
  by (simp add: circ_get_def)

lemma nth_circ_get [simp]: "i < n \<Longrightarrow> circ_get buf f n ! i = buf ! ((f + i) mod length buf)"
  by (simp add: circ_get_def)

lemma length_circ_put [simp]:
  "r < length buf \<Longrightarrow> length bs \<le> length buf \<Longrightarrow> length (circ_put buf r bs) = length buf"
  by (simp add: circ_put_def Let_def min_def)

lemma circ_get_append:
  "circ_get buf f (m + n) = circ_get buf f m @ circ_get buf ((f + m) mod length buf) n"
proof (rule nth_equalityI)
  fix i
  assume "i < length (circ_get buf f (m + n))"
  then have i: "i < m + n" by simp
  show "circ_get buf f (m + n) ! i =
      (circ_get buf f m @ circ_get buf ((f + m) mod length buf) n) ! i"
  proof (cases "i < m")
    case True
    then show ?thesis by (simp add: nth_append)
  next
    case False
    then obtain k where k: "i = m + k" by (metis le_add_diff_inverse not_less)
    with i show ?thesis by (simp add: nth_append mod_add_left_eq add.assoc)
  qed
qed simp

lemma take_circ_get: "m \<le> n \<Longrightarrow> take m (circ_get buf f n) = circ_get buf f m"
  by (rule nth_equalityI) auto

lemma drop_circ_get:
  "m \<le> n \<Longrightarrow> drop m (circ_get buf f n) = circ_get buf ((f + m) mod length buf) (n - m)"
  by (rule nth_equalityI) (auto simp: mod_add_left_eq add.assoc)

lemma circ_get_straight:
  assumes "f + n \<le> length buf"
  shows "circ_get buf f n = take n (drop f buf)"
  using assms by (intro nth_equalityI) auto

lemma circ_get_wrapped:
  assumes "f < length buf" "length buf \<le> f + n" "n \<le> length buf"
  shows "circ_get buf f n = drop f buf @ take (f + n - length buf) buf"
proof -
  have "circ_get buf f n = circ_get buf f ((length buf - f) + (f + n - length buf))"
    using assms by simp
  also have "\<dots> = drop f buf @ take (f + n - length buf) buf"
    using assms by (subst circ_get_append) (simp add: circ_get_straight)
  finally show ?thesis .
qed

lemma nth_circ_put:
  assumes "r < length buf" "length bs \<le> length buf" "j < length buf"
  shows "circ_put buf r bs ! j =
    (let d = (if r \<le> j then j - r else j + length buf - r)
     in if d < length bs then bs ! d else buf ! j)"
  using assms
  by (auto simp: circ_put_def Let_def nth_splice min_def le_diff_conv intro!: arg_cong [of _ _ "nth bs"])

lemma circ_get_put_same:
  assumes "r < length buf" "length bs \<le> length buf"
  shows "circ_get (circ_put buf r bs) r (length bs) = bs"
proof (rule nth_equalityI)
  fix i
  assume "i < length (circ_get (circ_put buf r bs) r (length bs))"
  then have i: "i < length bs" by simp
  with assms show "circ_get (circ_put buf r bs) r (length bs) ! i = bs ! i"
    by (cases "r + i < length buf") (auto simp: nth_circ_put Let_def mod_if)
qed simp

lemma circ_get_put_other:
  assumes "f < length buf" "n + length bs \<le> length buf"
  shows "circ_get (circ_put buf ((f + n) mod length buf) bs) f n = circ_get buf f n"
proof (rule nth_equalityI)
  fix i
  assume "i < length (circ_get (circ_put buf ((f + n) mod length buf) bs) f n)"
  then have i: "i < n" by simp
  have r: "(f + n) mod length buf = (if f + n < length buf then f + n else f + n - length buf)"
    using assms by (auto simp: mod_if)
  have j: "(f + i) mod length buf = (if f + i < length buf then f + i else f + i - length buf)"
    using assms i by (auto simp: mod_if)
  show "circ_get (circ_put buf ((f + n) mod length buf) bs) f n ! i = circ_get buf f n ! i"
    using assms i by (auto simp: nth_circ_put Let_def r j)
qed simp

text \<open>Writing behind a circular run of \<open>n\<close> cells extends it by what was written.\<close>

lemma circ_get_put_append:
  assumes "f < length buf" "n + length bs \<le> length buf"
  shows "circ_get (circ_put buf ((f + n) mod length buf) bs) f (n + length bs) =
    circ_get buf f n @ bs"
proof -
  have pos: "(f + n) mod length buf < length buf"
    using assms(1) by (intro mod_less_divisor) auto
  then have len: "length (circ_put buf ((f + n) mod length buf) bs) = length buf"
    using assms(2) by (intro length_circ_put) auto
  show ?thesis
    by (subst circ_get_append)
      (use assms(2) in \<open>simp add: len circ_get_put_other [OF assms] circ_get_put_same [OF pos]\<close>)
qed

lemma of_nat_u32_inj: "a < 2 ^ 32 \<Longrightarrow> b < 2 ^ 32 \<Longrightarrow> (of_nat a :: u32) = of_nat b \<longleftrightarrow> a = b"
  by (simp add: word_of_nat_eq_iff take_bit_nat_eq_self)

lemma unat_u32_less: "unat (w :: u32) < 2 ^ 32"
  using unsigned_less[of w, where ?'a = nat] by simp

lemma sint_u32: "sint (w :: u32) = (if unat w < 2 ^ 31 then int (unat w) else int (unat w) - 2 ^ 32)"
proof -
  define u where "u = uint w"
  have u: "u < 2 ^ 32" "0 \<le> u" using uint_lt2p[of w] by (simp_all add: u_def)
  have un: "int (unat w) = u" by (simp add: u_def)
  have "sint w = (u + 2 ^ 31) mod 2 ^ 32 - 2 ^ 31"
    by (simp add: sint_uint signed_take_bit_eq_take_bit_shift take_bit_eq_mod u_def)
  moreover have "(u + 2 ^ 31) mod 2 ^ 32 = (if u < 2 ^ 31 then u + 2 ^ 31 else u - 2 ^ 31)"
  proof (cases "u < 2 ^ 31")
    case True
    then show ?thesis using u by (simp add: mod_pos_pos_trivial)
  next
    case False
    have "u + 2 ^ 31 = (u - 2 ^ 31) + 2 ^ 32" by simp
    then have "(u + 2 ^ 31) mod 2 ^ 32 = ((u - 2 ^ 31) + 2 ^ 32) mod 2 ^ 32" by (rule arg_cong)
    also have "\<dots> = (u - 2 ^ 31) mod 2 ^ 32" by (rule mod_add_self2)
    also have "\<dots> = u - 2 ^ 31" using False u by (intro mod_pos_pos_trivial) auto
    finally show ?thesis using False by simp
  qed
  ultimately have "sint w = (if u < 2 ^ 31 then u else u - 2 ^ 32)" by simp
  moreover define n where "n = unat w"
  have "int n = u" using un by (simp add: n_def)
  ultimately show ?thesis unfolding n_def[symmetric] by auto
qed

lemma sint_u32_pos: "0 < sint (w :: u32) \<longleftrightarrow> 0 < unat w \<and> unat w < 2 ^ 31"
proof -
  define n where "n = unat w"
  have "n < 2 ^ 32" using unat_u32_less[of w] by (simp add: n_def)
  then show ?thesis unfolding sint_u32 n_def[symmetric] by auto
qed

section \<open>Loops over a list\<close>

text \<open>\<open>for\<close> loops whose body may fault: the first fault ends the loop.\<close>

fun for_each :: "('p \<Rightarrow> 's \<Rightarrow> 's result) \<Rightarrow> 'p list \<Rightarrow> 's \<Rightarrow> 's result" where
  "for_each f [] s = Inr s"
| "for_each f (p # ps) s = and_then (f p s) (\<lambda>s. for_each f ps s)"

lemma for_each_append: "for_each f (ps @ qs) s = and_then (for_each f ps s) (for_each f qs)"
proof (induction ps arbitrary: s)
  case (Cons p ps)
  show ?case by (cases "f p s") (simp_all add: Cons.IH)
qed simp

lemma for_each_inv:
  "(\<And>p s s'. p \<in> set ps \<Longrightarrow> I s \<Longrightarrow> f p s = Inr s' \<Longrightarrow> I s') \<Longrightarrow> I s \<Longrightarrow> for_each f ps s = Inr s' \<Longrightarrow> I s'"
  by (induction ps arbitrary: s) (auto elim!: and_then_InrE)

section \<open>Safety of a result\<close>

text \<open>
  \<open>safe_if B Q r\<close>: the operation ends with a value that satisfies \<open>Q\<close> or, where \<open>B\<close> allows it, in
  \<open>__debugbreak\<close>. No other fault is allowed, so memory safety is part of it; with \<open>B\<close> false the
  operation returns.
\<close>

definition safe_if :: "bool \<Rightarrow> ('a \<Rightarrow> bool) \<Rightarrow> 'a result \<Rightarrow> bool" where
  "safe_if B Q r \<longleftrightarrow> (case r of Inl e \<Rightarrow> B \<and> e = DebugBreak | Inr x \<Rightarrow> Q x)"

abbreviation safe :: "('a \<Rightarrow> bool) \<Rightarrow> 'a result \<Rightarrow> bool" where
  "safe \<equiv> safe_if True"

lemma safe_Inr [simp]: "safe_if B Q (Inr x) = Q x"
  and safe_Inl [simp]: "safe_if B Q (Inl e) = (B \<and> e = DebugBreak)"
  by (simp_all add: safe_if_def)

lemma safe_and_then:
  assumes "safe_if B Q r" and "\<And>x. r = Inr x \<Longrightarrow> Q x \<Longrightarrow> safe_if B R (f x)"
  shows "safe_if B R (and_then r f)"
  using assms by (cases r) auto

lemma safe_mono: "safe_if B Q r \<Longrightarrow> (\<And>x. Q x \<Longrightarrow> R x) \<Longrightarrow> safe_if B R r"
  by (auto simp: safe_if_def split: sum.splits)

lemma safe_strengthen: "safe_if B Q r \<Longrightarrow> (\<And>x. r = Inr x \<Longrightarrow> Q x \<Longrightarrow> R x) \<Longrightarrow> safe_if B R r"
  by (auto simp: safe_if_def split: sum.splits)

lemma and_then_Inr_right [simp]: "and_then r Inr = r"
  by (cases r) simp_all

lemma safe_weaken: "safe_if B Q r \<Longrightarrow> safe Q r"
  by (auto simp: safe_if_def split: sum.splits)

lemma safe_returns: "safe_if False Q r \<longleftrightarrow> (\<exists>x. r = Inr x \<and> Q x)"
  by (auto simp: safe_if_def split: sum.splits)

lemma safe_InrD: "safe_if B Q r \<Longrightarrow> r = Inr x \<Longrightarrow> Q x"
  by simp

lemma safe_ex: "\<exists>x. r = Inr x \<and> Q x \<Longrightarrow> safe_if B Q r"
  by auto

lemma safe_for_each:
  "(\<And>p s. p \<in> set ps \<Longrightarrow> I s \<Longrightarrow> safe_if B I (f p s)) \<Longrightarrow> I s \<Longrightarrow> safe_if B I (for_each f ps s)"
  by (induction ps arbitrary: s) (auto intro!: safe_and_then)

lemma sum_list_update:
  fixes f :: "'b \<Rightarrow> nat"
  shows "i < length xs \<Longrightarrow> sum_list (map f (xs[i := y])) + f (xs ! i) = sum_list (map f xs) + f y"
  by (induction xs arbitrary: i) (auto split: nat.splits)

end
