(* ===== verification/RingBuffer.thy ===== *)
theory RingBuffer
  imports Prelude
begin

text \<open>
  \<open>MyLibrary/RingBuffer.cpp\<close>: the byte ring buffer every session receives into. The
  block \<open>m_pBuffer\<close> has one cell more than the buffer can hold, so that a full and an
  empty buffer differ. The C++ \<open>int\<close> fields are HOL integers with C's truncating \<open>%\<close>
  (\<open>smod\<close>); \<open>ring_ints_bounded\<close> shows that no intermediate value leaves twice the
  capacity. A pointer argument is a block and an offset, \<open>None\<close> for \<open>nullptr\<close>, and a
  copy outside a block is a fault. The critical section \<open>m_cs\<close> is not modelled: no
  operation of the class takes it.
\<close>

section \<open>State and operations\<close>

record ring =
  m_pBuffer :: bytes
  m_capacity :: int
  m_front :: int
  m_rear :: int

type_synonym ptr = "(bytes \<times> int) option"

definition BUFSIZE :: int where
  "BUFSIZE = 10000"

text \<open>\<open>mem\<close> is the block that \<open>new char[m_capacity]\<close> returns, its contents unspecified.\<close>

definition RingBuffer_default :: "bytes \<Rightarrow> ring" where
  "RingBuffer_default mem =
     \<lparr>m_pBuffer = mem, m_capacity = BUFSIZE + 1, m_front = 0, m_rear = 0\<rparr>"

definition RingBuffer_sized :: "bytes \<Rightarrow> int \<Rightarrow> ring" where
  "RingBuffer_sized mem iBufferSize =
     \<lparr>m_pBuffer = mem, m_capacity = iBufferSize + 1, m_front = 0, m_rear = 0\<rparr>"

definition RingBuffer_GetBufferSize :: "ring \<Rightarrow> int" where
  "RingBuffer_GetBufferSize r = m_capacity r - 1"

definition RingBuffer_GetUseSize :: "ring \<Rightarrow> int" where
  "RingBuffer_GetUseSize r =
     (let f = m_front r; rr = m_rear r
      in if rr \<ge> f then rr - f else m_capacity r - (f - rr))"

definition RingBuffer_GetFreeSize :: "ring \<Rightarrow> int" where
  "RingBuffer_GetFreeSize r = (m_capacity r - 1) - RingBuffer_GetUseSize r"

definition RingBuffer_Enqueue :: "ring \<Rightarrow> ptr \<Rightarrow> int \<Rightarrow> (ring \<times> int) result" where
  "RingBuffer_Enqueue r chpData iSize =
     (case chpData of None \<Rightarrow> Inr (r, 0) | Some (src, off) \<Rightarrow>
      if iSize \<le> 0 then Inr (r, 0)
      else let freeSize = RingBuffer_GetFreeSize r in
      if freeSize \<le> 0 then Inr (r, 0)
      else let iSize = (if freeSize < iSize then freeSize else iSize);
               firstWriteSize = m_capacity r - m_rear r;
               firstWriteSize = (if firstWriteSize > iSize then iSize else firstWriteSize) in
      and_then (mem_copy (m_pBuffer r) (m_rear r) src off firstWriteSize) (\<lambda>buf.
      let remain = iSize - firstWriteSize in
      and_then (if remain > 0 then mem_copy buf 0 src (off + firstWriteSize) remain else Inr buf) (\<lambda>buf.
      Inr (r\<lparr>m_pBuffer := buf, m_rear := (m_rear r + iSize) smod m_capacity r\<rparr>, iSize))))"

definition RingBuffer_Dequeue :: "ring \<Rightarrow> ptr \<Rightarrow> int \<Rightarrow> (ring \<times> ptr \<times> int) result" where
  "RingBuffer_Dequeue r chpDest iSize =
     (case chpDest of None \<Rightarrow> Inr (r, chpDest, 0) | Some (dst, off) \<Rightarrow>
      if iSize \<le> 0 then Inr (r, chpDest, 0)
      else if RingBuffer_GetUseSize r < iSize then Inr (r, chpDest, 0)
      else let firstReadSize = m_capacity r - m_front r;
               firstReadSize = (if firstReadSize > iSize then iSize else firstReadSize) in
      and_then (mem_copy dst off (m_pBuffer r) (m_front r) firstReadSize) (\<lambda>dst.
      let remain = iSize - firstReadSize in
      and_then (if remain > 0 then mem_copy dst (off + firstReadSize) (m_pBuffer r) 0 remain else Inr dst) (\<lambda>dst.
      Inr (r\<lparr>m_front := (m_front r + iSize) smod m_capacity r\<rparr>, Some (dst, off), iSize))))"

definition RingBuffer_Peek :: "ring \<Rightarrow> ptr \<Rightarrow> int \<Rightarrow> (ptr \<times> int) result" where
  "RingBuffer_Peek r chpDest iSize =
     (case chpDest of None \<Rightarrow> Inr (chpDest, 0) | Some (dst, off) \<Rightarrow>
      if iSize \<le> 0 then Inr (chpDest, 0)
      else if RingBuffer_GetUseSize r < iSize then Inr (chpDest, 0)
      else let firstReadSize = m_capacity r - m_front r;
               firstReadSize = (if firstReadSize > iSize then iSize else firstReadSize) in
      and_then (mem_copy dst off (m_pBuffer r) (m_front r) firstReadSize) (\<lambda>dst.
      let remain = iSize - firstReadSize in
      and_then (if remain > 0 then mem_copy dst (off + firstReadSize) (m_pBuffer r) 0 remain else Inr dst) (\<lambda>dst.
      Inr (Some (dst, off), iSize))))"

definition RingBuffer_ClearBuffer :: "ring \<Rightarrow> ring" where
  "RingBuffer_ClearBuffer r = r\<lparr>m_front := 0, m_rear := 0\<rparr>"

definition RingBuffer_DirectEnqueueSize :: "ring \<Rightarrow> int" where
  "RingBuffer_DirectEnqueueSize r =
     (let freeSize = RingBuffer_GetFreeSize r in
      if freeSize \<le> 0 then 0
      else if m_front r \<le> m_rear r then min (m_capacity r - m_rear r) freeSize
      else m_front r - m_rear r - 1)"

definition RingBuffer_DirectDequeueSize :: "ring \<Rightarrow> int" where
  "RingBuffer_DirectDequeueSize r =
     (let useSize = RingBuffer_GetUseSize r in
      if useSize \<le> 0 then 0
      else if m_front r < m_rear r then useSize
      else m_capacity r - m_front r)"

definition RingBuffer_MoveFront :: "ring \<Rightarrow> int \<Rightarrow> ring \<times> int" where
  "RingBuffer_MoveFront r iSize =
     (let useSize = RingBuffer_GetUseSize r;
          iSize = (if useSize < iSize then useSize else iSize)
      in (r\<lparr>m_front := (m_front r + iSize) smod m_capacity r\<rparr>, iSize))"

definition RingBuffer_MoveRear :: "ring \<Rightarrow> int \<Rightarrow> ring \<times> int" where
  "RingBuffer_MoveRear r iSize =
     (let freeSize = RingBuffer_GetFreeSize r;
          iSize = (if freeSize < iSize then freeSize else iSize)
      in (r\<lparr>m_rear := (m_rear r + iSize) smod m_capacity r\<rparr>, iSize))"

text \<open>The three pointer getters, as offsets into the block \<open>m_pBuffer\<close>.\<close>

definition RingBuffer_GetFrontBufferPtr :: "ring \<Rightarrow> int" where
  "RingBuffer_GetFrontBufferPtr r = m_front r"

definition RingBuffer_GetRearBufferPtr :: "ring \<Rightarrow> int" where
  "RingBuffer_GetRearBufferPtr r = m_rear r"

definition RingBuffer_GetBufferPtr :: "ring \<Rightarrow> int" where
  "RingBuffer_GetBufferPtr r = 0"

section \<open>Invariant and abstraction\<close>

definition ring_inv :: "ring \<Rightarrow> bool" where
  "ring_inv r \<longleftrightarrow>
     int (length (m_pBuffer r)) = m_capacity r \<and>
     0 \<le> m_front r \<and> m_front r < m_capacity r \<and>
     0 \<le> m_rear r \<and> m_rear r < m_capacity r"

text \<open>The bytes stored in the buffer, oldest first.\<close>

definition ring_contents :: "ring \<Rightarrow> bytes" where
  "ring_contents r = circ_get (m_pBuffer r) (nat (m_front r)) (nat (RingBuffer_GetUseSize r))"

lemma smod_nonneg: "0 \<le> a \<Longrightarrow> 0 < b \<Longrightarrow> a smod b = a mod (b::int)"
  by (simp add: smod_int_alt_def sgn_if)

lemma nat_capacity: "ring_inv r \<Longrightarrow> nat (m_capacity r) = length (m_pBuffer r)"
  unfolding ring_inv_def by (metis nat_int)

lemma use_size_bounds:
  "ring_inv r \<Longrightarrow> 0 \<le> RingBuffer_GetUseSize r"
  "ring_inv r \<Longrightarrow> RingBuffer_GetUseSize r < m_capacity r"
  by (auto simp: ring_inv_def RingBuffer_GetUseSize_def Let_def)

lemma free_size_nonneg: "ring_inv r \<Longrightarrow> 0 \<le> RingBuffer_GetFreeSize r"
  using use_size_bounds [of r] by (simp add: RingBuffer_GetFreeSize_def)

lemma length_ring_contents [simp]:
  "length (ring_contents r) = nat (RingBuffer_GetUseSize r)"
  by (simp add: ring_contents_def)

lemma use_size_contents:
  "ring_inv r \<Longrightarrow> RingBuffer_GetUseSize r = int (length (ring_contents r))"
  using use_size_bounds(1) [of r] by simp

lemma le_contents_iff:
  "ring_inv r \<Longrightarrow> n \<le> length (ring_contents r) \<longleftrightarrow> int n \<le> RingBuffer_GetUseSize r"
  using use_size_bounds(1) [of r] by (simp add: le_nat_iff)

lemma advance_index:
  assumes "0 \<le> a" "a < c" "0 \<le> k" "k \<le> c"
  shows "(a + k) smod c = (if a + k < c then a + k else a + k - (c::int))"
proof (cases "a + k < c")
  case True
  with assms show ?thesis by (simp add: smod_nonneg)
next
  case False
  with assms have "(a + k) mod c = (a + k - c) mod c" by (simp add: mod_diff_eq [symmetric])
  also have "\<dots> = a + k - c" using assms False by (intro mod_pos_pos_trivial) auto
  finally show ?thesis using assms False by (simp add: smod_nonneg)
qed

text \<open>The rear index is the front index advanced by the used size.\<close>

lemma rear_index:
  assumes "ring_inv r"
  shows "nat (m_rear r) =
    (nat (m_front r) + nat (RingBuffer_GetUseSize r)) mod length (m_pBuffer r)"
proof (cases "m_front r \<le> m_rear r")
  case True
  with assms have "nat (m_front r) + nat (RingBuffer_GetUseSize r) = nat (m_rear r)"
    by (simp add: ring_inv_def RingBuffer_GetUseSize_def nat_diff_distrib)
  moreover have "nat (m_rear r) < length (m_pBuffer r)"
    using assms by (simp add: ring_inv_def nat_less_iff)
  ultimately show ?thesis by simp
next
  case False
  with assms have "nat (m_front r) + nat (RingBuffer_GetUseSize r) =
      nat (m_rear r) + length (m_pBuffer r)"
    by (simp add: ring_inv_def RingBuffer_GetUseSize_def) arith
  moreover have "nat (m_rear r) < length (m_pBuffer r)"
    using assms by (simp add: ring_inv_def nat_less_iff)
  ultimately show ?thesis by simp
qed

section \<open>The two-part copies\<close>

lemma splice_splice:
  "off + length xs + length ys \<le> length buf \<Longrightarrow>
   splice (splice buf off xs) (off + length xs) ys = splice buf off (xs @ ys)"
  by (simp add: splice_def min_absorb2 add.commute add.left_commute)

lemma mem_copy_nat:
  "soff + n \<le> length src \<Longrightarrow> doff + n \<le> length dst \<Longrightarrow>
   mem_copy dst (int doff) src (int soff) (int n) = Inr (splice dst doff (take n (drop soff src)))"
  by (simp add: mem_copy_ok)

text \<open>Copying in, to the end of the block and then from its start, is one circular write.\<close>

lemma copy_in_circular:
  assumes "k \<le> length buf" "pos < length buf" "off + k \<le> length src"
  shows "(let h = (if int (length buf) - int pos > int k then int k else int (length buf) - int pos) in
      and_then (mem_copy buf (int pos) src (int off) h) (\<lambda>buf. let rest = int k - h in
      and_then (if rest > 0 then mem_copy buf 0 src (int off + h) rest else Inr buf) f)) =
    f (circ_put buf pos (take k (drop off src)))"
proof (cases "k \<le> length buf - pos")
  case True
  then have h: "(if int (length buf) - int pos > int k then int k else int (length buf) - int pos) = int k"
    using assms by auto
  have "mem_copy buf (int pos) src (int off) (int k) = Inr (splice buf pos (take k (drop off src)))"
    using assms True by (intro mem_copy_nat) auto
  moreover have "circ_put buf pos (take k (drop off src)) = splice buf pos (take k (drop off src))"
    using assms True by (simp add: circ_put_def min_absorb1 min_absorb2)
  ultimately show ?thesis unfolding h Let_def by simp
next
  case False
  define n where "n = length buf - pos"
  have h: "(if int (length buf) - int pos > int k then int k else int (length buf) - int pos) = int n"
    and less: "n < k" "k - n \<le> length buf" "pos + n = length buf"
    using assms False by (auto simp: n_def)
  have 1: "mem_copy buf (int pos) src (int off) (int n) = Inr (splice buf pos (take n (drop off src)))"
    using assms False by (intro mem_copy_nat) (auto simp: n_def)
  have 2: "mem_copy (splice buf pos (take n (drop off src))) 0 src (int off + int n) (int k - int n) =
      Inr (splice (splice buf pos (take n (drop off src))) 0 (take (k - n) (drop (off + n) src)))"
    using assms less mem_copy_nat [of "off + n" "k - n" src 0 "splice buf pos (take n (drop off src))"]
    by simp
  have "circ_put buf pos (take k (drop off src)) =
      splice (splice buf pos (take n (drop off src))) 0 (take (k - n) (drop (off + n) src))"
    using assms False by (simp add: circ_put_def n_def min_absorb1 min_absorb2 drop_take add.commute)
  with 1 2 less show ?thesis unfolding h Let_def by simp
qed

text \<open>Copying out, from an index to the end of the block and then from its start, is one
  circular read.\<close>

lemma copy_out_circular:
  assumes "k \<le> length buf" "pos < length buf" "off + k \<le> length dst"
  shows "(let h = (if int (length buf) - int pos > int k then int k else int (length buf) - int pos) in
      and_then (mem_copy dst (int off) buf (int pos) h) (\<lambda>dst. let rest = int k - h in
      and_then (if rest > 0 then mem_copy dst (int off + h) buf 0 rest else Inr dst) f)) =
    f (splice dst off (circ_get buf pos k))"
proof (cases "k \<le> length buf - pos")
  case True
  then have h: "(if int (length buf) - int pos > int k then int k else int (length buf) - int pos) = int k"
    using assms by auto
  have "mem_copy dst (int off) buf (int pos) (int k) = Inr (splice dst off (take k (drop pos buf)))"
    using assms True by (intro mem_copy_nat) auto
  moreover have "circ_get buf pos k = take k (drop pos buf)"
    using assms True by (intro circ_get_straight) auto
  ultimately show ?thesis unfolding h Let_def by simp
next
  case False
  define n where "n = length buf - pos"
  have h: "(if int (length buf) - int pos > int k then int k else int (length buf) - int pos) = int n"
    and less: "n < k" "k - n \<le> length buf" "pos + n = length buf"
    using assms False by (auto simp: n_def)
  have 1: "mem_copy dst (int off) buf (int pos) (int n) = Inr (splice dst off (drop pos buf))"
    using assms False by (subst mem_copy_nat) (auto simp: n_def)
  have 2: "mem_copy (splice dst off (drop pos buf)) (int off + int n) buf 0 (int k - int n) =
      Inr (splice (splice dst off (drop pos buf)) (off + n) (take (k - n) buf))"
    using assms less mem_copy_nat [of 0 "k - n" buf "off + n" "splice dst off (drop pos buf)"]
    by simp
  have "splice (splice dst off (drop pos buf)) (off + n) (take (k - n) buf) =
      splice dst off (drop pos buf @ take (k - n) buf)"
    using splice_splice [of off "drop pos buf" "take (k - n) buf" dst] assms False
    by (simp add: n_def)
  moreover have "circ_get buf pos k = drop pos buf @ take (k - n) buf"
    using circ_get_wrapped [of pos buf k] assms False
    by (simp add: n_def Nat.diff_diff_right add.commute)
  ultimately show ?thesis using 1 2 less unfolding h Let_def by simp
qed

section \<open>What the operations do to the contents\<close>

lemma use_size_advance_rear:
  assumes "ring_inv r" "0 \<le> k" "k \<le> RingBuffer_GetFreeSize r"
  shows "RingBuffer_GetUseSize (r\<lparr>m_rear := (m_rear r + k) smod m_capacity r\<rparr>) =
      RingBuffer_GetUseSize r + k"
    and "ring_inv (r\<lparr>m_rear := (m_rear r + k) smod m_capacity r\<rparr>)"
  using assms
  by (auto simp: ring_inv_def RingBuffer_GetUseSize_def RingBuffer_GetFreeSize_def Let_def
      advance_index split: if_splits)

lemma use_size_advance_front:
  assumes "ring_inv r" "0 \<le> k" "k \<le> RingBuffer_GetUseSize r"
  shows "RingBuffer_GetUseSize (r\<lparr>m_front := (m_front r + k) smod m_capacity r\<rparr>) =
      RingBuffer_GetUseSize r - k"
    and "ring_inv (r\<lparr>m_front := (m_front r + k) smod m_capacity r\<rparr>)"
  using assms
  by (auto simp: ring_inv_def RingBuffer_GetUseSize_def Let_def
      advance_index split: if_splits)

lemma contents_advance_front:
  assumes "ring_inv r" "0 \<le> k" "k \<le> RingBuffer_GetUseSize r"
  shows "ring_contents (r\<lparr>m_front := (m_front r + k) smod m_capacity r\<rparr>) =
    drop (nat k) (ring_contents r)"
proof -
  have "nat ((m_front r + k) smod m_capacity r) = (nat (m_front r) + nat k) mod length (m_pBuffer r)"
    using assms use_size_bounds [of r] nat_capacity [OF assms(1)]
    by (auto simp: ring_inv_def smod_nonneg nat_mod_distrib nat_add_distrib)
  moreover have "nat k \<le> nat (RingBuffer_GetUseSize r)" using assms by simp
  ultimately show ?thesis
    using use_size_advance_front(1) [OF assms] assms
    by (simp add: ring_contents_def drop_circ_get nat_diff_distrib)
qed

text \<open>
  New bytes in the free cells behind \<open>m_rear\<close>, however they got there, become part of the
  contents when \<open>m_rear\<close> is advanced over them.
\<close>

lemma contents_put:
  assumes "ring_inv r" "int (length bs) \<le> RingBuffer_GetFreeSize r"
  defines "r' \<equiv> r\<lparr>m_pBuffer := circ_put (m_pBuffer r) (nat (m_rear r)) bs,
      m_rear := (m_rear r + int (length bs)) smod m_capacity r\<rparr>"
  shows "ring_inv r'" and "ring_contents r' = ring_contents r @ bs"
    and "RingBuffer_GetUseSize r' = RingBuffer_GetUseSize r + int (length bs)"
proof -
  let ?rear = "(m_rear r + int (length bs)) smod m_capacity r"
  have len: "nat (RingBuffer_GetUseSize r) + length bs \<le> length (m_pBuffer r)"
    using assms(1,2) use_size_bounds [of r]
    by (simp add: ring_inv_def RingBuffer_GetFreeSize_def) linarith
  have f: "nat (m_front r) < length (m_pBuffer r)" and "nat (m_rear r) < length (m_pBuffer r)"
    using assms(1) by (auto simp: ring_inv_def nat_less_iff)
  then have blen: "length (circ_put (m_pBuffer r) (nat (m_rear r)) bs) = length (m_pBuffer r)"
    using len by simp
  have adv: "ring_inv (r\<lparr>m_rear := ?rear\<rparr>)"
      "RingBuffer_GetUseSize (r\<lparr>m_rear := ?rear\<rparr>) = RingBuffer_GetUseSize r + int (length bs)"
    using use_size_advance_rear [OF assms(1), of "int (length bs)"] assms(2) by auto
  have use: "RingBuffer_GetUseSize r' = RingBuffer_GetUseSize (r\<lparr>m_rear := ?rear\<rparr>)"
    by (simp add: r'_def RingBuffer_GetUseSize_def Let_def)
  from adv(1) blen show "ring_inv r'" by (simp add: r'_def ring_inv_def)
  from use adv(2) show "RingBuffer_GetUseSize r' = RingBuffer_GetUseSize r + int (length bs)"
    by simp
  then show "ring_contents r' = ring_contents r @ bs"
    using circ_get_put_append [OF f len] use_size_bounds(1) [OF assms(1)]
    by (simp add: ring_contents_def r'_def rear_index [OF assms(1)] nat_add_distrib)
qed

lemma RingBuffer_Enqueue_eq:
  assumes "ring_inv r" and k: "k = min n (nat (RingBuffer_GetFreeSize r))" and "off + k \<le> length src"
  shows "RingBuffer_Enqueue r (Some (src, int off)) (int n) =
    Inr (r\<lparr>m_pBuffer := circ_put (m_pBuffer r) (nat (m_rear r)) (take k (drop off src)),
          m_rear := (m_rear r + int k) smod m_capacity r\<rparr>, int k)"
proof (cases "k = 0")
  case True
  with k free_size_nonneg [OF assms(1)] have "n = 0 \<or> RingBuffer_GetFreeSize r = 0"
    by (auto simp: min_def split: if_splits)
  moreover have "(m_rear r + 0) smod m_capacity r = m_rear r"
    using assms(1) by (simp add: ring_inv_def smod_nonneg)
  ultimately show ?thesis
    using True by (auto simp: RingBuffer_Enqueue_def circ_put_def)
next
  case False
  let ?cap = "length (m_pBuffer r)"
  have c: "m_capacity r = int ?cap" "m_rear r = int (nat (m_rear r))" "nat (m_rear r) < ?cap"
    using assms(1) by (auto simp: ring_inv_def nat_less_iff)
  have clip: "(if RingBuffer_GetFreeSize r < int n then RingBuffer_GetFreeSize r else int n) = int k"
    and pos: "0 < n" "0 < RingBuffer_GetFreeSize r" and kc: "k \<le> ?cap"
    using False k free_size_nonneg [OF assms(1)] use_size_bounds(1) [OF assms(1)] assms(1)
    by (auto simp: min_def RingBuffer_GetFreeSize_def ring_inv_def split: if_splits)
  show ?thesis
    using copy_in_circular [OF kc c(3) assms(3), where f = "\<lambda>buf. Inr (r\<lparr>m_pBuffer := buf,
        m_rear := (m_rear r + int k) smod m_capacity r\<rparr>, int k)"] pos
    unfolding RingBuffer_Enqueue_def Let_def clip c(1) c(2) [symmetric] by simp
qed

lemma Enqueue_appends:
  assumes "ring_inv r" and k: "k = min n (nat (RingBuffer_GetFreeSize r))" and "off + k \<le> length src"
  shows "\<exists>r'. RingBuffer_Enqueue r (Some (src, int off)) (int n) = Inr (r', int k) \<and> ring_inv r' \<and>
    ring_contents r' = ring_contents r @ take k (drop off src) \<and>
    RingBuffer_GetFreeSize r' = RingBuffer_GetFreeSize r - int k \<and> m_capacity r' = m_capacity r"
proof -
  let ?bs = "take k (drop off src)"
  have len: "length ?bs = k" using assms(3) by simp
  with k free_size_nonneg [OF assms(1)] have room: "int (length ?bs) \<le> RingBuffer_GetFreeSize r"
    by (simp only: len)
  note put = contents_put [OF assms(1) room, unfolded len]
  show ?thesis
    unfolding RingBuffer_Enqueue_eq [OF assms]
    by (intro exI conjI, rule refl) (simp_all add: RingBuffer_GetFreeSize_def put)
qed

lemma RingBuffer_Dequeue_eq:
  assumes "ring_inv r" and "int n \<le> RingBuffer_GetUseSize r" and "off + n \<le> length dst" and "0 < n"
  shows "RingBuffer_Dequeue r (Some (dst, int off)) (int n) =
    Inr (r\<lparr>m_front := (m_front r + int n) smod m_capacity r\<rparr>,
         Some (splice dst off (take n (ring_contents r)), int off), int n)"
proof -
  let ?cap = "length (m_pBuffer r)"
  have c: "m_capacity r = int ?cap" "m_front r = int (nat (m_front r))" "nat (m_front r) < ?cap"
    using assms(1) by (auto simp: ring_inv_def nat_less_iff)
  have n: "n \<le> ?cap" and t: "take n (ring_contents r) = circ_get (m_pBuffer r) (nat (m_front r)) n"
    using assms(2) use_size_bounds(2) [OF assms(1)] c(1)
    by (auto simp: ring_contents_def intro!: take_circ_get)
  show ?thesis
    using copy_out_circular [OF n c(3) assms(3), where f = "\<lambda>dst.
        Inr (r\<lparr>m_front := (m_front r + int n) smod m_capacity r\<rparr>, Some (dst, int off), int n)"] assms(2,4) t
    unfolding RingBuffer_Dequeue_def Let_def c(1) c(2) [symmetric] by simp
qed

lemma RingBuffer_Peek_eq:
  assumes "ring_inv r" and "int n \<le> RingBuffer_GetUseSize r" and "off + n \<le> length dst" and "0 < n"
  shows "RingBuffer_Peek r (Some (dst, int off)) (int n) =
    Inr (Some (splice dst off (take n (ring_contents r)), int off), int n)"
proof -
  let ?cap = "length (m_pBuffer r)"
  have c: "m_capacity r = int ?cap" "m_front r = int (nat (m_front r))" "nat (m_front r) < ?cap"
    using assms(1) by (auto simp: ring_inv_def nat_less_iff)
  have n: "n \<le> ?cap" and t: "take n (ring_contents r) = circ_get (m_pBuffer r) (nat (m_front r)) n"
    using assms(2) use_size_bounds(2) [OF assms(1)] c(1)
    by (auto simp: ring_contents_def intro!: take_circ_get)
  show ?thesis
    using copy_out_circular [OF n c(3) assms(3), where f = "\<lambda>dst.
        Inr (Some (dst, int off), int n)"] assms(2,4) t
    unfolding RingBuffer_Peek_def Let_def c(1) c(2) [symmetric] by simp
qed

lemma RingBuffer_Dequeue_short:
  "RingBuffer_GetUseSize r < n \<Longrightarrow> RingBuffer_Dequeue r p n = Inr (r, p, 0)"
  by (simp add: RingBuffer_Dequeue_def split: option.split)

lemma RingBuffer_Peek_short:
  "RingBuffer_GetUseSize r < n \<Longrightarrow> RingBuffer_Peek r p n = Inr (p, 0)"
  by (simp add: RingBuffer_Peek_def split: option.split)

lemma RingBuffer_Dequeue_none: "n \<le> 0 \<Longrightarrow> RingBuffer_Dequeue r p n = Inr (r, p, 0)"
  by (simp add: RingBuffer_Dequeue_def split: option.split)

text \<open>A destination block that is too short is written past its end.\<close>

lemma RingBuffer_Dequeue_overflow:
  assumes "ring_inv r" and "int n \<le> RingBuffer_GetUseSize r" and "length dst < off + n" and "0 < n"
  shows "RingBuffer_Dequeue r (Some (dst, int off)) (int n) = Inl OutOfBounds"
proof -
  define h where "h = (if m_capacity r - m_front r > int n then int n else m_capacity r - m_front r)"
  have h: "0 \<le> h" "h \<le> int n" using assms(1) by (auto simp: h_def ring_inv_def)
  show ?thesis
  proof (cases "mem_copy dst (int off) (m_pBuffer r) (m_front r) h")
    case (Inl e)
    then have "e = OutOfBounds"
      by (auto simp: mem_copy_def mem_read_def mem_write_def split: if_splits)
    with Inl assms(2,4) show ?thesis
      by (simp add: RingBuffer_Dequeue_def Let_def flip: h_def)
  next
    case (Inr dst')
    then have "length dst' = length dst" by (rule mem_copy_length)
    moreover from Inr h(1) have "int off + h \<le> int (length dst)"
      by (rule_tac ccontr) (simp add: mem_copy_overflow not_le)
    ultimately have "0 < int n - h"
        "mem_copy dst' (int off + h) (m_pBuffer r) 0 (int n - h) = Inl OutOfBounds"
      using assms(3) by (auto intro!: mem_copy_overflow)
    with Inr assms(2,4) show ?thesis
      by (simp add: RingBuffer_Dequeue_def Let_def flip: h_def)
  qed
qed

lemma MoveFront_drop:
  assumes "ring_inv r" "0 \<le> n"
  shows "ring_contents (fst (RingBuffer_MoveFront r n)) = drop (nat n) (ring_contents r)"
    and "ring_inv (fst (RingBuffer_MoveFront r n))"
    and "snd (RingBuffer_MoveFront r n) = min n (RingBuffer_GetUseSize r)"
    and "RingBuffer_GetUseSize (fst (RingBuffer_MoveFront r n)) =
      RingBuffer_GetUseSize r - min n (RingBuffer_GetUseSize r)"
    and "m_capacity (fst (RingBuffer_MoveFront r n)) = m_capacity r"
proof -
  let ?k = "min n (RingBuffer_GetUseSize r)"
  have eq: "RingBuffer_MoveFront r n =
      (r\<lparr>m_front := (m_front r + ?k) smod m_capacity r\<rparr>, ?k)"
    by (simp add: RingBuffer_MoveFront_def Let_def min_def)
  have k: "0 \<le> ?k" "?k \<le> RingBuffer_GetUseSize r"
    using use_size_bounds(1) [OF assms(1)] assms(2) by auto
  have "drop (nat ?k) (ring_contents r) = drop (nat n) (ring_contents r)"
    by (auto simp: min_def)
  with contents_advance_front [OF assms(1) k] use_size_advance_front [OF assms(1) k]
  show "ring_contents (fst (RingBuffer_MoveFront r n)) = drop (nat n) (ring_contents r)"
    "ring_inv (fst (RingBuffer_MoveFront r n))"
    "snd (RingBuffer_MoveFront r n) = ?k"
    "RingBuffer_GetUseSize (fst (RingBuffer_MoveFront r n)) = RingBuffer_GetUseSize r - ?k"
    "m_capacity (fst (RingBuffer_MoveFront r n)) = m_capacity r"
    by (simp_all add: eq)
qed

lemma MoveRear_eq:
  assumes "ring_inv r" "0 \<le> n" "n \<le> RingBuffer_GetFreeSize r"
  shows "RingBuffer_MoveRear r n = (r\<lparr>m_rear := (m_rear r + n) smod m_capacity r\<rparr>, n)"
  using assms by (simp add: RingBuffer_MoveRear_def)

lemma ClearBuffer_empty:
  assumes "ring_inv r"
  shows "ring_inv (RingBuffer_ClearBuffer r)" "ring_contents (RingBuffer_ClearBuffer r) = []"
  using assms
  by (auto simp: RingBuffer_ClearBuffer_def ring_inv_def ring_contents_def RingBuffer_GetUseSize_def)

lemma sized_empty:
  assumes "0 \<le> n" "int (length mem) = n + 1"
  shows "ring_inv (RingBuffer_sized mem n)" "ring_contents (RingBuffer_sized mem n) = []"
    "RingBuffer_GetFreeSize (RingBuffer_sized mem n) = n"
  using assms
  by (auto simp: RingBuffer_sized_def ring_inv_def ring_contents_def RingBuffer_GetUseSize_def
      RingBuffer_GetFreeSize_def)

lemma DirectEnqueueSize_eq:
  assumes "ring_inv r"
  shows "RingBuffer_DirectEnqueueSize r = min (m_capacity r - m_rear r) (RingBuffer_GetFreeSize r)"
  using assms
  by (auto simp: ring_inv_def RingBuffer_DirectEnqueueSize_def RingBuffer_GetFreeSize_def
      RingBuffer_GetUseSize_def Let_def min_def)

lemma DirectDequeueSize_eq:
  assumes "ring_inv r"
  shows "RingBuffer_DirectDequeueSize r = min (m_capacity r - m_front r) (RingBuffer_GetUseSize r)"
  using assms
  by (auto simp: ring_inv_def RingBuffer_DirectDequeueSize_def RingBuffer_GetUseSize_def Let_def min_def)

section \<open>The interface of a receive queue\<close>

text \<open>
  What the receive path of the servers relies on: a bounded byte queue whose reads are all or
  nothing and whose writes are cut to the room left.
\<close>

locale byte_fifo =
  fixes inv :: "'q \<Rightarrow> bool"
    and view :: "'q \<Rightarrow> bytes"
    and use_size :: "'q \<Rightarrow> int"
    and free_size :: "'q \<Rightarrow> int"
    and enq :: "'q \<Rightarrow> ptr \<Rightarrow> int \<Rightarrow> ('q \<times> int) result"
    and deq :: "'q \<Rightarrow> ptr \<Rightarrow> int \<Rightarrow> ('q \<times> ptr \<times> int) result"
    and peek :: "'q \<Rightarrow> ptr \<Rightarrow> int \<Rightarrow> (ptr \<times> int) result"
    and skip :: "'q \<Rightarrow> int \<Rightarrow> 'q \<times> int"
  assumes use_law: "inv q \<Longrightarrow> use_size q = int (length (view q))"
    and free_law: "inv q \<Longrightarrow> 0 \<le> free_size q"
    and enq_law: "inv q \<Longrightarrow> k = min n (nat (free_size q)) \<Longrightarrow> off + k \<le> length src \<Longrightarrow>
      \<exists>q'. enq q (Some (src, int off)) (int n) = Inr (q', int k) \<and> inv q' \<and>
        view q' = view q @ take k (drop off src) \<and> free_size q' = free_size q - int k"
    and deq_law: "inv q \<Longrightarrow> 0 < n \<Longrightarrow> n \<le> length (view q) \<Longrightarrow> off + n \<le> length dst \<Longrightarrow>
      \<exists>q'. deq q (Some (dst, int off)) (int n) =
          Inr (q', Some (splice dst off (take n (view q)), int off), int n) \<and> inv q' \<and>
        view q' = drop n (view q) \<and> free_size q' = free_size q + int n"
    and deq_short: "inv q \<Longrightarrow> length (view q) < n \<Longrightarrow> deq q p (int n) = Inr (q, p, 0)"
    and deq_none: "inv q \<Longrightarrow> deq q p 0 = Inr (q, p, 0)"
    and deq_overflow: "inv q \<Longrightarrow> 0 < n \<Longrightarrow> n \<le> length (view q) \<Longrightarrow> length dst < off + n \<Longrightarrow>
      deq q (Some (dst, int off)) (int n) = Inl OutOfBounds"
    and peek_law: "inv q \<Longrightarrow> 0 < n \<Longrightarrow> n \<le> length (view q) \<Longrightarrow> off + n \<le> length dst \<Longrightarrow>
      peek q (Some (dst, int off)) (int n) =
        Inr (Some (splice dst off (take n (view q)), int off), int n)"
    and skip_law: "inv q \<Longrightarrow> n \<le> length (view q) \<Longrightarrow>
      \<exists>q'. skip q (int n) = (q', int n) \<and> inv q' \<and> view q' = drop n (view q) \<and>
        free_size q' = free_size q + int n"
begin

text \<open>A block of the message's own size receives exactly the bytes read.\<close>

lemma deq_exact:
  assumes "inv q" "n \<le> length (view q)" "length dst = n"
  shows "\<exists>q' p'. deq q (Some (dst, 0)) (int n) = Inr (q', p', int n) \<and> inv q' \<and>
    p' = Some (take n (view q), 0) \<and> view q' = drop n (view q) \<and> free_size q' = free_size q + int n"
proof (cases "n = 0")
  case True
  with assms deq_none show ?thesis by auto
next
  case False
  with assms deq_law [of q n 0 dst] show ?thesis
    by (auto simp: splice_def min_absorb2)
qed

lemma peek_header:
  assumes "inv q" "0 < h" "h \<le> length (view q)" "length dst = h"
  shows "peek q (Some (dst, 0)) (int h) = Inr (Some (take h (view q), 0), int h)"
  using peek_law [of q h 0 dst] assms by (simp add: splice_def)

text \<open>Skipping a header and reading the body reads the bytes behind the header.\<close>

lemma skip_then_deq:
  assumes "inv q" "0 < n" "h + n \<le> length (view q)" "off + n \<le> length dst"
  shows "\<exists>q'. deq (fst (skip q (int h))) (Some (dst, int off)) (int n) =
      Inr (q', Some (splice dst off (take n (drop h (view q))), int off), int n) \<and> inv q' \<and>
    view q' = drop (h + n) (view q) \<and> free_size q' = free_size q + int (h + n)"
proof -
  obtain q1 where q1: "skip q (int h) = (q1, int h)" "inv q1" "view q1 = drop h (view q)"
      "free_size q1 = free_size q + int h"
    using skip_law [of q h] assms by auto
  moreover have "n \<le> length (view q1)" using q1(3) assms(3) by simp
  ultimately show ?thesis
    using deq_law [OF q1(2) assms(2) _ assms(4)] by (auto simp: algebra_simps)
qed

text \<open>What goes into an empty queue with room comes out unchanged.\<close>

lemma enq_then_deq:
  assumes "inv q" "view q = []" "int (length bs) \<le> free_size q" "length dst = length bs"
  shows "\<exists>q1 q2. enq q (Some (bs, 0)) (int (length bs)) = Inr (q1, int (length bs)) \<and>
    deq q1 (Some (dst, 0)) (int (length bs)) = Inr (q2, Some (bs, 0), int (length bs)) \<and>
    inv q2 \<and> view q2 = []"
proof -
  obtain q1 where q1: "enq q (Some (bs, 0)) (int (length bs)) = Inr (q1, int (length bs))"
      "inv q1" "view q1 = bs"
    using enq_law [of q "length bs" "length bs" 0 bs] assms by (auto simp: min_absorb1)
  with assms deq_exact [of q1 "length bs" dst] show ?thesis by auto
qed

end

lemma Dequeue_drops:
  assumes "ring_inv r" "0 < n" "n \<le> length (ring_contents r)" "off + n \<le> length dst"
  shows "\<exists>r'. RingBuffer_Dequeue r (Some (dst, int off)) (int n) =
      Inr (r', Some (splice dst off (take n (ring_contents r)), int off), int n) \<and>
    ring_inv r' \<and> ring_contents r' = drop n (ring_contents r) \<and>
    RingBuffer_GetFreeSize r' = RingBuffer_GetFreeSize r + int n \<and> m_capacity r' = m_capacity r"
proof -
  have n: "int n \<le> RingBuffer_GetUseSize r" using assms(1,3) le_contents_iff by blast
  show ?thesis
    unfolding RingBuffer_Dequeue_eq [OF assms(1) n assms(4,2)]
    by (intro exI conjI, rule refl)
      (simp_all add: RingBuffer_GetFreeSize_def contents_advance_front [OF assms(1) _ n]
        use_size_advance_front [OF assms(1) _ n])
qed

interpretation rb: byte_fifo ring_inv ring_contents RingBuffer_GetUseSize RingBuffer_GetFreeSize
  RingBuffer_Enqueue RingBuffer_Dequeue RingBuffer_Peek RingBuffer_MoveFront
proof (unfold_locales, goal_cases)
  case (1 q)
  then show ?case by (rule use_size_contents)
next
  case (2 q)
  then show ?case by (rule free_size_nonneg)
next
  case (3 q k n off src)
  from Enqueue_appends [OF 3] show ?case by auto
next
  case (4 q n off dst)
  from Dequeue_drops [OF 4] show ?case by auto
next
  case (5 q n p)
  then show ?case using le_contents_iff [of q n] by (intro RingBuffer_Dequeue_short) linarith
next
  case (6 q p)
  show ?case by (simp add: RingBuffer_Dequeue_none)
next
  case (7 q n dst off)
  then show ?case using le_contents_iff [of q n] by (intro RingBuffer_Dequeue_overflow) blast+
next
  case (8 q n off dst)
  then show ?case using le_contents_iff [of q n] by (intro RingBuffer_Peek_eq) blast+
next
  case (9 q n)
  then have n: "int n \<le> RingBuffer_GetUseSize q" using le_contents_iff by blast
  with 9 MoveFront_drop [of q "int n"] show ?case
    by (cases "RingBuffer_MoveFront q (int n)") (auto simp: RingBuffer_GetFreeSize_def)
qed

section \<open>Sequences of calls\<close>

text \<open>
  A sequence of calls on one buffer, with the bytes that \<open>Enqueue\<close> accepted and the bytes
  that left the buffer, each in order. \<open>Dequeue\<close> and \<open>Peek\<close> read into a block of the size
  asked for.
\<close>

datatype ring_op = CEnqueue bytes | CDequeue nat | CPeek nat | CMoveFront nat

fun ring_call :: "ring \<Rightarrow> ring_op \<Rightarrow> (ring \<times> bytes \<times> bytes) result" where
  "ring_call r (CEnqueue bs) =
     and_then (RingBuffer_Enqueue r (Some (bs, 0)) (int (length bs))) (\<lambda>(r, k).
     Inr (r, take (nat k) bs, []))"
| "ring_call r (CDequeue n) =
     and_then (RingBuffer_Dequeue r (Some (replicate n 0, 0)) (int n)) (\<lambda>(r, p, k).
     Inr (r, [], (case p of None \<Rightarrow> [] | Some (dst, _) \<Rightarrow> take (nat k) dst)))"
| "ring_call r (CPeek n) =
     and_then (RingBuffer_Peek r (Some (replicate n 0, 0)) (int n)) (\<lambda>_. Inr (r, [], []))"
| "ring_call r (CMoveFront n) =
     Inr (fst (RingBuffer_MoveFront r (int n)), [],
          take (nat (snd (RingBuffer_MoveFront r (int n)))) (ring_contents r))"

fun ring_run :: "ring \<Rightarrow> ring_op list \<Rightarrow> (ring \<times> bytes \<times> bytes) result" where
  "ring_run r [] = Inr (r, [], [])"
| "ring_run r (c # cs) =
     and_then (ring_call r c) (\<lambda>(r, i, out).
     and_then (ring_run r cs) (\<lambda>(r, i', out'). Inr (r, i @ i', out @ out')))"

lemma ring_call_fifo:
  assumes "ring_inv r"
  shows "\<exists>r' i out. ring_call r c = Inr (r', i, out) \<and> ring_inv r' \<and>
    ring_contents r @ i = out @ ring_contents r' \<and> m_capacity r' = m_capacity r"
proof (cases c)
  case (CEnqueue bs)
  then show ?thesis
    using Enqueue_appends [OF assms refl, of 0 "length bs" bs] by auto
next
  case (CDequeue n)
  show ?thesis
  proof (cases "0 < n \<and> n \<le> length (ring_contents r)")
    case True
    then show ?thesis
      using CDequeue Dequeue_drops [OF assms, of n 0 "replicate n 0"]
      by (auto simp: splice_def min_absorb2)
  next
    case False
    then have "RingBuffer_Dequeue r p (int n) = Inr (r, p, 0)" for p
      using le_contents_iff [OF assms, of n] RingBuffer_Dequeue_none RingBuffer_Dequeue_short
      by (cases "n = 0") auto
    with CDequeue assms show ?thesis by simp
  qed
next
  case (CPeek n)
  show ?thesis
  proof (cases "0 < n \<and> n \<le> length (ring_contents r)")
    case True
    then show ?thesis using CPeek assms rb.peek_law [OF assms, of n 0 "replicate n 0"] by auto
  next
    case False
    then have "RingBuffer_Peek r p (int n) = Inr (p, 0)" for p
      using le_contents_iff [OF assms, of n] RingBuffer_Peek_short [of r "int n" p]
      by (cases "n = 0") (auto simp: RingBuffer_Peek_def split: option.split)
    with CPeek assms show ?thesis by simp
  qed
next
  case (CMoveFront n)
  have "take (nat (min (int n) (RingBuffer_GetUseSize r))) (ring_contents r) = take n (ring_contents r)"
    by (cases "int n \<le> RingBuffer_GetUseSize r") (auto simp: min_def)
  with CMoveFront MoveFront_drop [OF assms, of "int n"] show ?thesis by auto
qed

lemma ring_run_Cons:
  assumes "ring_call r c = Inr (r1, i, out)" "ring_run r1 cs = Inr (r', i', out')"
  shows "ring_run r (c # cs) = Inr (r', i @ i', out @ out')"
  using assms by simp

section \<open>Properties\<close>

text \<open>
  C8. First in, first out, over any sequence of Enqueue, Dequeue, Peek and MoveFront calls:
  from a well-formed buffer no call ever touches memory outside the blocks, the buffer stays
  well formed with its capacity unchanged, and what was stored followed by what was accepted
  is exactly what came out followed by what is still stored.
\<close>
theorem ring_run_fifo:
  assumes "ring_inv r"
  shows "\<exists>r' i out. ring_run r cs = Inr (r', i, out) \<and> ring_inv r' \<and>
    ring_contents r @ i = out @ ring_contents r' \<and> m_capacity r' = m_capacity r"
  using assms
proof (induction cs arbitrary: r)
  case Nil
  then show ?case by simp
next
  case (Cons c cs)
  obtain r1 i out where c: "ring_call r c = Inr (r1, i, out)" "ring_inv r1"
      "ring_contents r @ i = out @ ring_contents r1" "m_capacity r1 = m_capacity r"
    using ring_call_fifo [OF Cons.prems] by blast
  obtain r' i' out' where cs: "ring_run r1 cs = Inr (r', i', out')" "ring_inv r'"
      "ring_contents r1 @ i' = out' @ ring_contents r'" "m_capacity r' = m_capacity r1"
    using Cons.IH [OF c(2)] by blast
  have "ring_contents r @ (i @ i') = (out @ out') @ ring_contents r'"
    using c(3) cs(3) by (metis append.assoc)
  with ring_run_Cons [OF c(1) cs(1)] c cs show ?case by auto
qed

definition small_ring :: ring where
  "small_ring = RingBuffer_sized [0, 0, 0, 0] 3"

lemma small_ring_inv: "ring_inv small_ring" and small_ring_empty: "ring_contents small_ring = []"
  and small_ring_free: "RingBuffer_GetFreeSize small_ring = 3"
  by (simp_all add: small_ring_def sized_empty)

theorem ring_run_fifo_witness:
  "\<exists>r' i out. ring_run small_ring [CEnqueue [1, 2], CDequeue 1, CEnqueue [3, 4, 5], CMoveFront 2] =
      Inr (r', i, out) \<and> ring_inv r' \<and> i = out @ ring_contents r' \<and> m_capacity r' = 4"
  using ring_run_fifo [OF small_ring_inv,
      of "[CEnqueue [1, 2], CDequeue 1, CEnqueue [3, 4, 5], CMoveFront 2]"]
  by (auto simp: small_ring_empty) (auto simp: small_ring_def RingBuffer_sized_def)

text \<open>
  \<open>Enqueue\<close> of \<open>n\<close> bytes from a block that holds the accepted part stores the longest
  prefix that fits, across the wrap-around, returns its length, and changes nothing else: the
  free size shrinks by exactly that much.
\<close>
theorem Enqueue_stores_prefix:
  assumes "ring_inv r" and "k = min n (nat (RingBuffer_GetFreeSize r))" and "off + k \<le> length src"
  shows "\<exists>r'. RingBuffer_Enqueue r (Some (src, int off)) (int n) = Inr (r', int k) \<and> ring_inv r' \<and>
    ring_contents r' = ring_contents r @ take k (drop off src) \<and>
    RingBuffer_GetFreeSize r' = RingBuffer_GetFreeSize r - int k"
  using Enqueue_appends [OF assms] by auto

theorem Enqueue_stores_prefix_witness:
  "\<exists>r'. RingBuffer_Enqueue small_ring (Some ([9, 8, 7, 6, 5], int 1)) (int 4) = Inr (r', 3) \<and>
    ring_contents r' = [8, 7, 6]"
  using Enqueue_stores_prefix [OF small_ring_inv refl, of 1 4 "[9, 8, 7, 6, 5]"]
  by (auto simp: small_ring_free small_ring_empty eval_nat_numeral)

text \<open>
  Reading is all or nothing, and \<open>Peek\<close> shows what \<open>Dequeue\<close> will deliver: with at
  least \<open>n\<close> bytes stored both copy the same oldest \<open>n\<close> bytes to the destination, and
  \<open>Dequeue\<close> leaves the rest; with fewer both return 0 and touch neither the buffer nor the
  destination.
\<close>
theorem Peek_Dequeue_agree:
  assumes "ring_inv r" "0 < n" "off + n \<le> length dst"
  shows "(if n \<le> length (ring_contents r)
    then \<exists>r'. RingBuffer_Peek r (Some (dst, int off)) (int n) =
          Inr (Some (splice dst off (take n (ring_contents r)), int off), int n) \<and>
        RingBuffer_Dequeue r (Some (dst, int off)) (int n) =
          Inr (r', Some (splice dst off (take n (ring_contents r)), int off), int n) \<and>
        ring_inv r' \<and> ring_contents r = take n (ring_contents r) @ ring_contents r'
    else RingBuffer_Peek r (Some (dst, int off)) (int n) = Inr (Some (dst, int off), 0) \<and>
        RingBuffer_Dequeue r (Some (dst, int off)) (int n) = Inr (r, Some (dst, int off), 0))"
proof (cases "n \<le> length (ring_contents r)")
  case True
  then show ?thesis
    using Dequeue_drops [OF assms(1,2) True assms(3)] rb.peek_law [OF assms(1,2) True assms(3)] by auto
next
  case False
  then have "RingBuffer_GetUseSize r < int n" using le_contents_iff [OF assms(1)] by (meson not_le)
  with False show ?thesis by (simp add: RingBuffer_Dequeue_short RingBuffer_Peek_short)
qed

theorem Peek_Dequeue_agree_witness:
  "RingBuffer_Peek small_ring (Some ([7, 7], int 0)) (int 2) = Inr (Some ([7, 7], int 0), 0)"
  using Peek_Dequeue_agree [OF small_ring_inv, of 2 0 "[7, 7]"]
  by (simp add: small_ring_empty)

text \<open>
  C11. The window handed to the operating system for a direct receive: it lies inside the
  block, and with the second window at the start of the block the two cover exactly the free
  cells, without reaching the cell in front of \<open>m_front\<close>; the window is empty only when the
  buffer is full.
\<close>
theorem direct_windows_cover_free:
  assumes "ring_inv r"
  defines "d \<equiv> RingBuffer_DirectEnqueueSize r" and "free \<equiv> RingBuffer_GetFreeSize r"
  shows "0 \<le> d \<and> d \<le> free \<and> m_rear r + d \<le> int (length (m_pBuffer r)) \<and> (d = 0 \<longleftrightarrow> free = 0) \<and>
    (if d < free then m_rear r + d = m_capacity r \<and> free - d = m_front r - 1
     else (m_rear r + d) mod m_capacity r = (m_front r - 1) mod m_capacity r)"
proof -
  have "(m_rear r + free) mod m_capacity r = (m_front r - 1) mod m_capacity r"
    using assms(1)
    by (auto simp: free_def ring_inv_def RingBuffer_GetFreeSize_def RingBuffer_GetUseSize_def Let_def
        mod_diff_left_eq algebra_simps) (metis add.commute diff_add_eq mod_add_self2)
  with assms(1) show ?thesis
    by (auto simp: d_def free_def DirectEnqueueSize_eq ring_inv_def RingBuffer_GetFreeSize_def
        RingBuffer_GetUseSize_def Let_def min_def split: if_splits)
qed

theorem direct_windows_cover_free_witness:
  "RingBuffer_DirectEnqueueSize small_ring \<le> RingBuffer_GetFreeSize small_ring \<and> ring_inv small_ring"
  using direct_windows_cover_free [OF small_ring_inv] small_ring_inv by simp

end
