(* ===== verification/PacketBuffer.thy ===== *)
theory PacketBuffer
  imports Prelude
begin

text \<open>
  \<open>MyLibrary/PacketBuffer.h\<close> and \<open>.cpp\<close>: the serialisation buffer \<open>Packet\<close>, its two wire
  headers and the byte cipher of the net header. The first five bytes of the block are
  reserved for a header, payload starts at \<open>eHEADER_RESERVE\<close>; \<open>m_iReadPos\<close> and
  \<open>m_iWritePos\<close> delimit the unread payload. The static operations on the packet pool
  (\<open>Alloc\<close>, \<open>Free\<close>, \<open>AddRef\<close>) are in \<open>PacketPool\<close>. The length and header fields are C++
  \<open>int\<close>s, modelled as HOL integers; the reference count is a 32-bit word. \<open>float\<close> and
  \<open>double\<close> values are their 32- and 64-bit patterns; the byte order is little-endian, as on
  the x64 target the project files name.
\<close>

section \<open>State\<close>

record LanServerHeader =
  lan_len :: u16

record NetServerHeader =
  net_byteCode :: u8
  net_len :: u16
  net_randomKey :: u8
  net_checkSum :: u8

definition sizeof_LanServerHeader :: int where "sizeof_LanServerHeader = 2"

definition sizeof_NetServerHeader :: int where "sizeof_NetServerHeader = 5"

text \<open>The packed layouts (\<open>#pragma pack(1)\<close>) of the two headers.\<close>

definition LanServerHeader_bytes :: "LanServerHeader \<Rightarrow> bytes" where
  "LanServerHeader_bytes h = le_encode 2 (lan_len h)"

definition NetServerHeader_bytes :: "NetServerHeader \<Rightarrow> bytes" where
  "NetServerHeader_bytes h =
     net_byteCode h # le_encode 2 (net_len h) @ [net_randomKey h, net_checkSum h]"

definition LanServerHeader_of :: "bytes \<Rightarrow> LanServerHeader" where
  "LanServerHeader_of bs = \<lparr>lan_len = le_decode (take 2 bs)\<rparr>"

definition NetServerHeader_of :: "bytes \<Rightarrow> NetServerHeader" where
  "NetServerHeader_of bs =
     \<lparr>net_byteCode = bs ! 0, net_len = le_decode (take 2 (drop 1 bs)),
      net_randomKey = bs ! 3, net_checkSum = bs ! 4\<rparr>"

definition PACKET_CODE :: u8 where "PACKET_CODE = 0x77"

definition FIXED_KEY :: u8 where "FIXED_KEY = 0x32"

definition eBUFFER_DEFAULT :: int where "eBUFFER_DEFAULT = 1400"

definition eHEADER_RESERVE :: int where "eHEADER_RESERVE = sizeof_NetServerHeader"

record packet =
  m_chpBuffer :: bytes
  m_iBufferSize :: int
  m_iReadPos :: int
  m_iWritePos :: int
  m_iHeaderSize :: int
  m_bEncoded :: bool
  m_refCount :: u32

section \<open>Operations on one packet\<close>

definition Packet_Clear :: "packet \<Rightarrow> packet" where
  "Packet_Clear p =
     p\<lparr>m_iReadPos := eHEADER_RESERVE, m_iWritePos := eHEADER_RESERVE,
       m_iHeaderSize := 0, m_bEncoded := False\<rparr>"

text \<open>The constructors; \<open>mem\<close> is the block that \<open>new char[m_iBufferSize]\<close> returns.\<close>

definition Packet_default :: "bytes \<Rightarrow> packet" where
  "Packet_default mem =
     Packet_Clear \<lparr>m_chpBuffer = mem, m_iBufferSize = eBUFFER_DEFAULT + eHEADER_RESERVE,
       m_iReadPos = 0, m_iWritePos = 0, m_iHeaderSize = 0, m_bEncoded = False, m_refCount = 0\<rparr>"

definition Packet_sized :: "bytes \<Rightarrow> int \<Rightarrow> packet" where
  "Packet_sized mem iBufferSize =
     (let iBufferSize = (if iBufferSize \<le> 0 then eBUFFER_DEFAULT else iBufferSize)
      in Packet_Clear \<lparr>m_chpBuffer = mem, m_iBufferSize = iBufferSize + eHEADER_RESERVE,
       m_iReadPos = 0, m_iWritePos = 0, m_iHeaderSize = 0, m_bEncoded = False, m_refCount = 0\<rparr>)"

definition Packet_GetBufferSize :: "packet \<Rightarrow> int" where
  "Packet_GetBufferSize p = m_iBufferSize p - eHEADER_RESERVE"

definition Packet_GetDataSize :: "packet \<Rightarrow> int" where
  "Packet_GetDataSize p = m_iWritePos p - m_iReadPos p"

text \<open>Pointer getters, as offsets into \<open>m_chpBuffer\<close>.\<close>

definition Packet_GetReadPtr :: "packet \<Rightarrow> int" where
  "Packet_GetReadPtr p = m_iReadPos p"

definition Packet_GetWritePtr :: "packet \<Rightarrow> int" where
  "Packet_GetWritePtr p = m_iWritePos p"

definition Packet_GetBufferPtr :: "packet \<Rightarrow> int" where
  "Packet_GetBufferPtr p = 0"

definition Packet_GetSendPtr :: "packet \<Rightarrow> int" where
  "Packet_GetSendPtr p = eHEADER_RESERVE - m_iHeaderSize p"

definition Packet_GetSendSize :: "packet \<Rightarrow> int" where
  "Packet_GetSendSize p = m_iHeaderSize p + (m_iWritePos p - eHEADER_RESERVE)"

definition Packet_MoveWritePos :: "packet \<Rightarrow> int \<Rightarrow> packet \<times> int" where
  "Packet_MoveWritePos p iSize =
     (if iSize \<le> 0 then (p, 0)
      else let freeSize = m_iBufferSize p - m_iWritePos p;
               iSize = (if freeSize < iSize then freeSize else iSize)
           in (p\<lparr>m_iWritePos := m_iWritePos p + iSize\<rparr>, iSize))"

text \<open>Both positions go back to the start when everything written has been read.\<close>

definition Packet_rewind :: "packet \<Rightarrow> packet" where
  "Packet_rewind p =
     (if m_iWritePos p = m_iReadPos p
      then p\<lparr>m_iWritePos := eHEADER_RESERVE, m_iReadPos := eHEADER_RESERVE\<rparr> else p)"

definition Packet_MoveReadPos :: "packet \<Rightarrow> int \<Rightarrow> packet \<times> int" where
  "Packet_MoveReadPos p iSize =
     (if iSize \<le> 0 then (p, 0)
      else let dataSize = m_iWritePos p - m_iReadPos p;
               iSize = (if dataSize < iSize then dataSize else iSize)
           in (Packet_rewind (p\<lparr>m_iReadPos := m_iReadPos p + iSize\<rparr>), iSize))"

text \<open>
  \<open>operator=\<close>: \<open>same\<close> says that source and destination are the same object, \<open>mem\<close> is the
  block a reallocation returns.
\<close>

definition Packet_assign :: "bool \<Rightarrow> bytes \<Rightarrow> packet \<Rightarrow> packet \<Rightarrow> packet result" where
  "Packet_assign same mem p src =
     (if same then Inr p
      else let p = (if m_iBufferSize p < m_iBufferSize src
                    then p\<lparr>m_iBufferSize := m_iBufferSize src, m_chpBuffer := mem\<rparr> else p) in
      and_then (mem_copy (m_chpBuffer p) 0 (m_chpBuffer src) 0 (m_iBufferSize src)) (\<lambda>buf.
      Inr (p\<lparr>m_chpBuffer := buf, m_iReadPos := m_iReadPos src, m_iWritePos := m_iWritePos src,
             m_iHeaderSize := m_iHeaderSize src, m_bEncoded := m_bEncoded src\<rparr>)))"

definition Packet_Push :: "packet \<Rightarrow> bytes \<Rightarrow> int \<Rightarrow> (packet \<times> bool) result" where
  "Packet_Push p pSrc iSize =
     (if iSize \<le> 0 then Inr (p, True)
      else let freeSize = m_iBufferSize p - m_iWritePos p in
      if freeSize < iSize then Inr (p, False)
      else and_then (mem_copy (m_chpBuffer p) (m_iWritePos p) pSrc 0 iSize) (\<lambda>buf.
      Inr (p\<lparr>m_chpBuffer := buf, m_iWritePos := m_iWritePos p + iSize\<rparr>, True)))"

definition Packet_Pop :: "packet \<Rightarrow> bytes \<Rightarrow> int \<Rightarrow> (packet \<times> bytes \<times> bool) result" where
  "Packet_Pop p pDest iSize =
     (if iSize \<le> 0 then Inr (p, pDest, True)
      else if m_iWritePos p - m_iReadPos p < iSize then Inr (p, pDest, False)
      else and_then (mem_copy pDest 0 (m_chpBuffer p) (m_iReadPos p) iSize) (\<lambda>pDest.
      Inr (Packet_rewind (p\<lparr>m_iReadPos := m_iReadPos p + iSize\<rparr>), pDest, True)))"

definition Packet_GetData :: "packet \<Rightarrow> bytes \<Rightarrow> int \<Rightarrow> (packet \<times> bytes \<times> int) result" where
  "Packet_GetData p chpDest iSize =
     (if iSize \<le> 0 then Inr (p, chpDest, 0)
      else let dataSize = m_iWritePos p - m_iReadPos p;
               iSize = (if dataSize < iSize then dataSize else iSize) in
      and_then (mem_copy chpDest 0 (m_chpBuffer p) (m_iReadPos p) iSize) (\<lambda>chpDest.
      Inr (Packet_rewind (p\<lparr>m_iReadPos := m_iReadPos p + iSize\<rparr>), chpDest, iSize)))"

definition Packet_PutData :: "packet \<Rightarrow> bytes \<Rightarrow> int \<Rightarrow> (packet \<times> int) result" where
  "Packet_PutData p chpSrc iSrcSize =
     (if iSrcSize \<le> 0 then Inr (p, 0)
      else let freeSize = m_iBufferSize p - m_iWritePos p;
               iSrcSize = (if freeSize < iSrcSize then freeSize else iSrcSize) in
      and_then (mem_copy (m_chpBuffer p) (m_iWritePos p) chpSrc 0 iSrcSize) (\<lambda>buf.
      Inr (p\<lparr>m_chpBuffer := buf, m_iWritePos := m_iWritePos p + iSrcSize\<rparr>, iSrcSize)))"

text \<open>
  The stream operators, by the width of their operand. They ignore the result of \<open>_Push\<close> and
  \<open>_Pop\<close>: a value that does not fit is dropped, and a variable read from too little data
  keeps its old value \<open>old\<close>.
\<close>

definition Packet_put :: "nat \<Rightarrow> packet \<Rightarrow> 'a::len word \<Rightarrow> packet result" where
  "Packet_put sz p w = and_then (Packet_Push p (le_encode sz w) (int sz)) (\<lambda>(p, _). Inr p)"

definition Packet_get :: "nat \<Rightarrow> packet \<Rightarrow> 'a::len word \<Rightarrow> (packet \<times> 'a word) result" where
  "Packet_get sz p old =
     and_then (Packet_Pop p (le_encode sz old) (int sz)) (\<lambda>(p, dst, _). Inr (p, le_decode dst))"

definition Packet_put8 :: "packet \<Rightarrow> u8 \<Rightarrow> packet result" where
  "Packet_put8 = Packet_put 1"

definition Packet_put16 :: "packet \<Rightarrow> u16 \<Rightarrow> packet result" where
  "Packet_put16 = Packet_put 2"

definition Packet_put32 :: "packet \<Rightarrow> u32 \<Rightarrow> packet result" where
  "Packet_put32 = Packet_put 4"

definition Packet_put64 :: "packet \<Rightarrow> u64 \<Rightarrow> packet result" where
  "Packet_put64 = Packet_put 8"

definition Packet_get8 :: "packet \<Rightarrow> u8 \<Rightarrow> (packet \<times> u8) result" where
  "Packet_get8 = Packet_get 1"

definition Packet_get16 :: "packet \<Rightarrow> u16 \<Rightarrow> (packet \<times> u16) result" where
  "Packet_get16 = Packet_get 2"

definition Packet_get32 :: "packet \<Rightarrow> u32 \<Rightarrow> (packet \<times> u32) result" where
  "Packet_get32 = Packet_get 4"

definition Packet_get64 :: "packet \<Rightarrow> u64 \<Rightarrow> (packet \<times> u64) result" where
  "Packet_get64 = Packet_get 8"

section \<open>Headers and the cipher\<close>

definition Packet_SetLanHeader :: "packet \<Rightarrow> packet result" where
  "Packet_SetLanHeader p =
     (let header = \<lparr>lan_len = word_of_int (m_iWritePos p - eHEADER_RESERVE)\<rparr> in
      and_then (mem_copy (m_chpBuffer p) (eHEADER_RESERVE - sizeof_LanServerHeader)
        (LanServerHeader_bytes header) 0 sizeof_LanServerHeader) (\<lambda>buf.
      Inr (p\<lparr>m_chpBuffer := buf, m_iHeaderSize := sizeof_LanServerHeader\<rparr>)))"

text \<open>The three loops over the block, by index, with every access checked.\<close>

function checkSum_loop :: "bytes \<Rightarrow> nat \<Rightarrow> nat \<Rightarrow> u8 \<Rightarrow> u8 result" where
  "checkSum_loop buf i n acc =
     (if i < n then and_then (mem_get buf i) (\<lambda>b. checkSum_loop buf (i + 1) n (acc + b))
      else Inr acc)"
  by pat_completeness auto
termination
  by (relation "measure (\<lambda>(buf, i, n, acc). n - i)") auto

text \<open>\<open>data\<close> is the block from the checksum field (offset 4) on; the random key is at offset 3.\<close>

function Encode_loop :: "bytes \<Rightarrow> nat \<Rightarrow> nat \<Rightarrow> u8 \<Rightarrow> u8 \<Rightarrow> bytes result" where
  "Encode_loop buf i sz p e =
     (if i < sz then
        let n = of_nat (i + 1) in
        and_then (mem_get buf (4 + i)) (\<lambda>d.
        and_then (mem_get buf 3) (\<lambda>randomKey.
        let p = d XOR (p + randomKey + n);
            e = p XOR (e + FIXED_KEY + n) in
        and_then (mem_set buf (4 + i) e) (\<lambda>buf.
        Encode_loop buf (i + 1) sz p e)))
      else Inr buf)"
  by pat_completeness auto
termination
  by (relation "measure (\<lambda>(buf, i, sz, p, e). sz - i)") auto

function Decode_loop :: "bytes \<Rightarrow> nat \<Rightarrow> nat \<Rightarrow> u8 \<Rightarrow> u8 \<Rightarrow> bytes result" where
  "Decode_loop buf i sz prevP prevE =
     (if i < sz then
        let n = of_nat (i + 1) in
        and_then (mem_get buf (4 + i)) (\<lambda>e.
        let p = e XOR (prevE + FIXED_KEY + n) in
        and_then (mem_get buf 3) (\<lambda>randomKey.
        and_then (mem_set buf (4 + i) (p XOR (prevP + randomKey + n))) (\<lambda>buf.
        Decode_loop buf (i + 1) sz p e)))
      else Inr buf)"
  by pat_completeness auto
termination
  by (relation "measure (\<lambda>(buf, i, sz, prevP, prevE). sz - i)") auto

declare checkSum_loop.simps [simp del] Encode_loop.simps [simp del] Decode_loop.simps [simp del]

definition Packet_Encode :: "packet \<Rightarrow> packet result" where
  "Packet_Encode p =
     and_then (mem_read (m_chpBuffer p) 0 sizeof_NetServerHeader) (\<lambda>hdr.
     let sz = unat (net_len (NetServerHeader_of hdr)) + 1 in
     and_then (Encode_loop (m_chpBuffer p) 0 sz 0 0) (\<lambda>buf.
     Inr (p\<lparr>m_chpBuffer := buf\<rparr>)))"

definition Packet_Decode :: "packet \<Rightarrow> (packet \<times> bool) result" where
  "Packet_Decode p =
     and_then (mem_read (m_chpBuffer p) 0 sizeof_NetServerHeader) (\<lambda>hdr.
     let sz = unat (net_len (NetServerHeader_of hdr)) + 1 in
     and_then (Decode_loop (m_chpBuffer p) 0 sz 0 0) (\<lambda>buf.
     and_then (checkSum_loop buf (4 + 1) (4 + sz) 0) (\<lambda>checkSum.
     and_then (mem_get buf 4) (\<lambda>b.
     Inr (p\<lparr>m_chpBuffer := buf\<rparr>, checkSum = b)))))"

text \<open>\<open>rnd\<close> is the value \<open>rand()\<close> returns.\<close>

definition Packet_SetNetHeader :: "int \<Rightarrow> packet \<Rightarrow> packet result" where
  "Packet_SetNetHeader rnd p =
     (if m_bEncoded p then Inr p
      else
      and_then (checkSum_loop (m_chpBuffer p) (nat eHEADER_RESERVE) (nat (m_iWritePos p)) 0) (\<lambda>checkSum.
      let header = \<lparr>net_byteCode = PACKET_CODE,
                    net_len = word_of_int (m_iWritePos p - eHEADER_RESERVE),
                    net_randomKey = word_of_int rnd, net_checkSum = checkSum\<rparr> in
      and_then (mem_copy (m_chpBuffer p) (eHEADER_RESERVE - sizeof_NetServerHeader)
        (NetServerHeader_bytes header) 0 sizeof_NetServerHeader) (\<lambda>buf.
      and_then (Packet_Encode (p\<lparr>m_chpBuffer := buf, m_iHeaderSize := sizeof_NetServerHeader\<rparr>)) (\<lambda>p.
      Inr (p\<lparr>m_bEncoded := True\<rparr>)))))"

section \<open>Invariant and abstraction\<close>

definition packet_inv :: "packet \<Rightarrow> bool" where
  "packet_inv p \<longleftrightarrow>
     int (length (m_chpBuffer p)) = m_iBufferSize p \<and>
     5 \<le> m_iReadPos p \<and> m_iReadPos p \<le> m_iWritePos p \<and> m_iWritePos p \<le> m_iBufferSize p \<and>
     0 \<le> m_iHeaderSize p \<and> m_iHeaderSize p \<le> 5"

text \<open>The unread payload, the whole payload, and the bytes handed to \<open>WSASend\<close>.\<close>

definition packet_data :: "packet \<Rightarrow> bytes" where
  "packet_data p = take (nat (m_iWritePos p - m_iReadPos p)) (drop (nat (m_iReadPos p)) (m_chpBuffer p))"

definition packet_payload :: "packet \<Rightarrow> bytes" where
  "packet_payload p = take (nat (m_iWritePos p - 5)) (drop 5 (m_chpBuffer p))"

definition packet_wire :: "packet \<Rightarrow> bytes" where
  "packet_wire p =
     take (nat (Packet_GetSendSize p)) (drop (nat (Packet_GetSendPtr p)) (m_chpBuffer p))"

definition packet_room :: "packet \<Rightarrow> int" where
  "packet_room p = m_iBufferSize p - m_iWritePos p"

lemma reserve_5 [simp]: "eHEADER_RESERVE = 5"
  by (simp add: eHEADER_RESERVE_def sizeof_NetServerHeader_def)

lemma packet_invD:
  assumes "packet_inv p"
  shows "length (m_chpBuffer p) = nat (m_iBufferSize p)" "5 \<le> m_iReadPos p"
    "m_iReadPos p \<le> m_iWritePos p" "m_iWritePos p \<le> m_iBufferSize p"
    "0 \<le> m_iHeaderSize p" "m_iHeaderSize p \<le> 5" "0 \<le> m_iWritePos p" "0 \<le> m_iReadPos p"
    "5 \<le> length (m_chpBuffer p)"
  using assms by (auto simp: packet_inv_def)

lemma length_packet_data:
  "packet_inv p \<Longrightarrow> int (length (packet_data p)) = Packet_GetDataSize p"
  by (auto simp: packet_inv_def packet_data_def Packet_GetDataSize_def)

lemma length_packet_payload:
  "packet_inv p \<Longrightarrow> int (length (packet_payload p)) = m_iWritePos p - 5"
  by (auto simp: packet_inv_def packet_payload_def)

lemma Clear_inv:
  assumes "int (length (m_chpBuffer p)) = m_iBufferSize p" "5 \<le> m_iBufferSize p"
  shows "packet_inv (Packet_Clear p)" "packet_data (Packet_Clear p) = []"
    "packet_payload (Packet_Clear p) = []"
  using assms by (auto simp: Packet_Clear_def packet_inv_def packet_data_def packet_payload_def)

lemma Packet_default_inv: "int (length mem) = 1405 \<Longrightarrow> packet_inv (Packet_default mem)"
  by (simp add: Packet_default_def Clear_inv eBUFFER_DEFAULT_def)

lemma Packet_sized_inv:
  "int (length mem) = (if n \<le> 0 then 1405 else n + 5) \<Longrightarrow> packet_inv (Packet_sized mem n)"
  by (auto simp: Packet_sized_def Let_def Clear_inv eBUFFER_DEFAULT_def split: if_splits)

section \<open>Writing and reading payload\<close>

lemma take_drop_splice_end:
  assumes "a \<le> b" "b + length bs \<le> length buf"
  shows "take (b + length bs - a) (drop a (splice buf b bs)) = take (b - a) (drop a buf) @ bs"
proof -
  have "drop a (splice buf b bs) = take (b - a) (drop a buf) @ bs @ drop (b + length bs) buf"
    using assms by (simp add: splice_def drop_take min_absorb2)
  moreover have "length (take (b - a) (drop a buf)) = b - a" using assms by simp
  moreover have "b + length bs - a = (b - a) + length bs" using assms by simp
  ultimately show ?thesis by (simp del: length_take)
qed

text \<open>Bytes copied behind \<open>m_iWritePos\<close> extend the unread data and the payload.\<close>

lemma write_extends:
  assumes inv: "packet_inv p" and fits: "int (length bs) \<le> packet_room p"
  defines "p' \<equiv> p\<lparr>m_chpBuffer := splice (m_chpBuffer p) (nat (m_iWritePos p)) bs,
      m_iWritePos := m_iWritePos p + int (length bs)\<rparr>"
  shows "packet_inv p'" "packet_data p' = packet_data p @ bs"
    "packet_payload p' = packet_payload p @ bs" "packet_room p' = packet_room p - int (length bs)"
proof -
  note D = packet_invD [OF inv]
  have w: "nat (m_iWritePos p) + length bs \<le> length (m_chpBuffer p)"
    using D fits unfolding packet_room_def by linarith
  show "packet_inv p'"
    using inv w fits by (simp add: p'_def packet_inv_def packet_room_def)
  show "packet_room p' = packet_room p - int (length bs)"
    by (simp add: p'_def packet_room_def)
  have "nat (m_iWritePos p + int (length bs) - m_iReadPos p) =
      nat (m_iWritePos p) + length bs - nat (m_iReadPos p)"
    "nat (m_iWritePos p - m_iReadPos p) = nat (m_iWritePos p) - nat (m_iReadPos p)"
    "nat (m_iReadPos p) \<le> nat (m_iWritePos p)"
    using D by linarith+
  then show "packet_data p' = packet_data p @ bs"
    using w by (simp add: p'_def packet_data_def take_drop_splice_end)
  have "nat (m_iWritePos p + int (length bs) - 5) = nat (m_iWritePos p) + length bs - 5"
    "nat (m_iWritePos p - 5) = nat (m_iWritePos p) - 5" "5 \<le> nat (m_iWritePos p)"
    using D by linarith+
  then show "packet_payload p' = packet_payload p @ bs"
    using w by (simp add: p'_def packet_payload_def take_drop_splice_end)
qed

lemma rewind_inv: "packet_inv p \<Longrightarrow> packet_inv (Packet_rewind p)"
  by (auto simp: Packet_rewind_def packet_inv_def)

lemma rewind_data: "packet_inv p \<Longrightarrow> packet_data (Packet_rewind p) = packet_data p"
  by (auto simp: Packet_rewind_def packet_data_def)

lemma rewind_simps [simp]:
  "m_chpBuffer (Packet_rewind p) = m_chpBuffer p" "m_iBufferSize (Packet_rewind p) = m_iBufferSize p"
  "m_iHeaderSize (Packet_rewind p) = m_iHeaderSize p" "m_bEncoded (Packet_rewind p) = m_bEncoded p"
  "m_refCount (Packet_rewind p) = m_refCount p"
  by (simp_all add: Packet_rewind_def)

text \<open>Advancing \<open>m_iReadPos\<close> drops the oldest unread bytes.\<close>

lemma read_advances:
  assumes inv: "packet_inv p" and k: "k \<le> length (packet_data p)"
  defines "p' \<equiv> Packet_rewind (p\<lparr>m_iReadPos := m_iReadPos p + int k\<rparr>)"
  shows "packet_inv p'" "packet_data p' = drop k (packet_data p)"
proof -
  have k': "int k \<le> m_iWritePos p - m_iReadPos p"
    using k length_packet_data [OF inv] by (simp add: Packet_GetDataSize_def)
  let ?q = "p\<lparr>m_iReadPos := m_iReadPos p + int k\<rparr>"
  have q: "packet_inv ?q" using inv k' by (simp add: packet_inv_def)
  then show "packet_inv p'" unfolding p'_def by (rule rewind_inv)
  have "nat (m_iWritePos p - (m_iReadPos p + int k)) = nat (m_iWritePos p - m_iReadPos p) - k"
    "nat (m_iReadPos p + int k) = nat (m_iReadPos p) + k"
    using packet_invD [OF inv] by linarith+
  then have "packet_data ?q = drop k (packet_data p)"
    by (simp add: packet_data_def drop_take add.commute)
  then show "packet_data p' = drop k (packet_data p)"
    unfolding p'_def using rewind_data [OF q] by simp
qed

lemma data_read:
  assumes "packet_inv p" "k \<le> length (packet_data p)"
  shows "take k (drop (nat (m_iReadPos p)) (m_chpBuffer p)) = take k (packet_data p)"
    and "m_iReadPos p + int k \<le> int (length (m_chpBuffer p))"
  using assms packet_invD [OF assms(1)] length_packet_data [OF assms(1)]
  by (auto simp: packet_data_def Packet_GetDataSize_def min_def) linarith

lemma Push_ok:
  assumes inv: "packet_inv p" and fits: "int (length bs) \<le> packet_room p"
  shows "\<exists>p'. Packet_Push p bs (int (length bs)) = Inr (p', True) \<and> packet_inv p' \<and>
    packet_data p' = packet_data p @ bs \<and> packet_payload p' = packet_payload p @ bs \<and>
    packet_room p' = packet_room p - int (length bs) \<and> m_refCount p' = m_refCount p \<and>
    m_iHeaderSize p' = m_iHeaderSize p \<and> m_bEncoded p' = m_bEncoded p \<and>
    m_iBufferSize p' = m_iBufferSize p"
proof (cases "bs = []")
  case True
  with inv show ?thesis by (simp add: Packet_Push_def)
next
  case False
  have w: "m_iWritePos p + int (length bs) \<le> int (length (m_chpBuffer p))"
    using inv fits by (simp add: packet_inv_def packet_room_def)
  have "Packet_Push p bs (int (length bs)) =
      Inr (p\<lparr>m_chpBuffer := splice (m_chpBuffer p) (nat (m_iWritePos p)) bs,
        m_iWritePos := m_iWritePos p + int (length bs)\<rparr>, True)"
    using False fits w packet_invD [OF inv]
    by (simp add: Packet_Push_def Let_def packet_room_def mem_copy_ok)
  with write_extends [OF inv fits] show ?thesis by simp
qed

lemma Push_full:
  "packet_room p < n \<Longrightarrow> 0 < n \<Longrightarrow> Packet_Push p bs n = Inr (p, False)"
  by (simp add: Packet_Push_def packet_room_def)

lemma Pop_ok:
  assumes inv: "packet_inv p" and n: "n \<le> length (packet_data p)" and d: "length dst = n"
  shows "\<exists>p'. Packet_Pop p dst (int n) = Inr (p', take n (packet_data p), True) \<and> packet_inv p' \<and>
    packet_data p' = drop n (packet_data p) \<and> m_chpBuffer p' = m_chpBuffer p \<and>
    m_refCount p' = m_refCount p \<and> m_iBufferSize p' = m_iBufferSize p"
proof (cases "n = 0")
  case True
  with inv d show ?thesis by (simp add: Packet_Pop_def)
next
  case False
  have n': "int n \<le> m_iWritePos p - m_iReadPos p"
    using n length_packet_data [OF inv] by (simp add: Packet_GetDataSize_def)
  have "Packet_Pop p dst (int n) =
      Inr (Packet_rewind (p\<lparr>m_iReadPos := m_iReadPos p + int n\<rparr>), take n (packet_data p), True)"
    using False n n' d data_read [OF inv n] packet_invD [OF inv]
    by (simp add: Packet_Pop_def mem_copy_ok splice_def min_absorb2)
  with read_advances [OF inv n] show ?thesis by simp
qed

lemma Pop_short:
  assumes inv: "packet_inv p" and n: "length (packet_data p) < n"
  shows "Packet_Pop p dst (int n) = Inr (p, dst, False)"
  using n length_packet_data [OF inv] by (simp add: Packet_Pop_def Packet_GetDataSize_def)

lemma PutData_ok:
  assumes inv: "packet_inv p" and k: "k = min n (nat (packet_room p))" "k \<le> length src"
  shows "\<exists>p'. Packet_PutData p src (int n) = Inr (p', int k) \<and> packet_inv p' \<and>
    packet_data p' = packet_data p @ take k src \<and> packet_payload p' = packet_payload p @ take k src \<and>
    packet_room p' = packet_room p - int k \<and> m_refCount p' = m_refCount p \<and>
    m_iHeaderSize p' = m_iHeaderSize p \<and> m_bEncoded p' = m_bEncoded p \<and>
    m_iBufferSize p' = m_iBufferSize p"
proof (cases "n = 0")
  case True
  with inv k show ?thesis by (simp add: Packet_PutData_def)
next
  case False
  have room: "0 \<le> packet_room p" using inv by (simp add: packet_inv_def packet_room_def)
  have clip: "(if m_iBufferSize p - m_iWritePos p < int n then m_iBufferSize p - m_iWritePos p else int n) = int k"
    using k room by (auto simp: packet_room_def min_def)
  have fits: "int (length (take k src)) \<le> packet_room p"
    using k room by (simp add: min_absorb2)
  have w: "m_iWritePos p + int k \<le> int (length (m_chpBuffer p))"
    using inv k room by (auto simp: packet_inv_def packet_room_def min_def)
  have "Packet_PutData p src (int n) =
      Inr (p\<lparr>m_chpBuffer := splice (m_chpBuffer p) (nat (m_iWritePos p)) (take k src),
        m_iWritePos := m_iWritePos p + int k\<rparr>, int k)"
    using False w k(2) packet_invD [OF inv]
    unfolding Packet_PutData_def Let_def clip by (simp add: mem_copy_ok)
  with write_extends [OF inv fits] k(2) show ?thesis by (simp add: min_absorb2)
qed

lemma GetData_ok:
  assumes inv: "packet_inv p" and k: "k = min n (length (packet_data p))" "k \<le> length dst"
  shows "\<exists>p'. Packet_GetData p dst (int n) = Inr (p', splice dst 0 (take k (packet_data p)), int k) \<and>
    packet_inv p' \<and> packet_data p' = drop k (packet_data p) \<and> m_refCount p' = m_refCount p \<and>
    m_iBufferSize p' = m_iBufferSize p"
proof (cases "n = 0")
  case True
  with inv k show ?thesis by (simp add: Packet_GetData_def)
next
  case False
  have k': "k \<le> length (packet_data p)" using k by simp
  have clip: "(if m_iWritePos p - m_iReadPos p < int n then m_iWritePos p - m_iReadPos p else int n) = int k"
    using k length_packet_data [OF inv] by (auto simp: Packet_GetDataSize_def min_def)
  have "Packet_GetData p dst (int n) =
      Inr (Packet_rewind (p\<lparr>m_iReadPos := m_iReadPos p + int k\<rparr>),
        splice dst 0 (take k (packet_data p)), int k)"
    using False k(2) data_read [OF inv k'] packet_invD [OF inv]
    unfolding Packet_GetData_def Let_def clip by (simp add: mem_copy_ok)
  with read_advances [OF inv k'] show ?thesis by simp
qed

lemma MoveReadPos_ok:
  assumes "packet_inv p"
  shows "packet_inv (fst (Packet_MoveReadPos p n))"
    and "packet_data (fst (Packet_MoveReadPos p n)) = drop (nat n) (packet_data p)"
proof -
  define k where "k = min (nat n) (length (packet_data p))"
  have "k \<le> length (packet_data p)" by (simp add: k_def)
  note R = read_advances [OF assms this]
  have eq: "fst (Packet_MoveReadPos p n) = (if n \<le> 0 then p else
      Packet_rewind (p\<lparr>m_iReadPos := m_iReadPos p + int k\<rparr>))"
    using length_packet_data [OF assms]
    by (auto simp: Packet_MoveReadPos_def k_def Packet_GetDataSize_def min_def Let_def)
  show "packet_inv (fst (Packet_MoveReadPos p n))" using R assms by (simp add: eq)
  show "packet_data (fst (Packet_MoveReadPos p n)) = drop (nat n) (packet_data p)"
    using R by (simp add: eq k_def min_def)
qed

lemma MoveWritePos_inv:
  assumes "packet_inv p"
  shows "packet_inv (fst (Packet_MoveWritePos p n))"
  using assms by (auto simp: Packet_MoveWritePos_def packet_inv_def Let_def)

lemma put_ok:
  assumes "packet_inv p" "int n \<le> packet_room p"
  shows "\<exists>p'. Packet_put n p w = Inr p' \<and> packet_inv p' \<and> packet_data p' = packet_data p @ le_encode n w \<and>
    packet_payload p' = packet_payload p @ le_encode n w \<and> packet_room p' = packet_room p - int n \<and>
    m_refCount p' = m_refCount p \<and> m_iHeaderSize p' = m_iHeaderSize p \<and> m_bEncoded p' = m_bEncoded p \<and>
    m_iBufferSize p' = m_iBufferSize p"
  using Push_ok [OF assms(1), of "le_encode n w"] assms(2) by (auto simp: Packet_put_def)

lemma put_full:
  "packet_room p < int n \<Longrightarrow> 0 < n \<Longrightarrow> Packet_put n p w = Inr p"
  by (simp add: Packet_put_def Push_full)

lemma get_ok:
  assumes "packet_inv p" "n \<le> length (packet_data p)"
  shows "\<exists>p'. Packet_get n p old = Inr (p', le_decode (take n (packet_data p))) \<and> packet_inv p' \<and>
    packet_data p' = drop n (packet_data p) \<and> m_refCount p' = m_refCount p \<and>
    m_iBufferSize p' = m_iBufferSize p"
  using Pop_ok [OF assms, of "le_encode n old"] by (auto simp: Packet_get_def)

lemma get_short:
  fixes old :: "'a::len word"
  assumes "packet_inv p" "length (packet_data p) < n" "LENGTH('a) \<le> 8 * n"
  shows "Packet_get n p old = Inr (p, old)"
  using Pop_short [OF assms(1,2)] assms(3) by (simp add: Packet_get_def)

text \<open>Everything an operation can do leaves the packet well formed.\<close>

lemma assign_ok:
  assumes "packet_inv p" "packet_inv src" "int (length mem) = m_iBufferSize src" "\<not> same"
  shows "\<exists>p'. Packet_assign same mem p src = Inr p' \<and> packet_inv p' \<and>
    packet_data p' = packet_data src \<and> packet_payload p' = packet_payload src \<and>
    packet_wire p' = packet_wire src \<and> m_bEncoded p' = m_bEncoded src \<and> m_refCount p' = m_refCount p"
proof -
  define b where "b = (if m_iBufferSize p < m_iBufferSize src then mem else m_chpBuffer p)"
  define n where "n = length (m_chpBuffer src)"
  note S = packet_invD [OF assms(2)]
  have n: "n \<le> length b" "m_iBufferSize src = int n"
    using assms(1,2,3) by (auto simp: packet_inv_def b_def n_def)
  have cp: "mem_copy b 0 (m_chpBuffer src) 0 (int n) = Inr (m_chpBuffer src @ drop n b)"
    using n by (simp add: mem_copy_ok splice_def n_def)
  define p' where "p' = p\<lparr>m_iBufferSize := int (length b), m_chpBuffer := m_chpBuffer src @ drop n b,
      m_iReadPos := m_iReadPos src, m_iWritePos := m_iWritePos src,
      m_iHeaderSize := m_iHeaderSize src, m_bEncoded := m_bEncoded src\<rparr>"
  have "Packet_assign same mem p src = Inr p'"
    using assms cp n by (auto simp: Packet_assign_def Let_def b_def p'_def packet_inv_def)
  moreover have "packet_inv p'" using assms(2) n by (auto simp: p'_def packet_inv_def n_def)
  moreover have "nat (m_iWritePos src - m_iReadPos src) + nat (m_iReadPos src) \<le> n"
      "nat (m_iWritePos src - 5) + 5 \<le> n"
      "nat (Packet_GetSendSize src) + nat (Packet_GetSendPtr src) \<le> n"
    using S n by (auto simp: Packet_GetSendSize_def Packet_GetSendPtr_def n_def)
  ultimately show ?thesis
    by (auto simp: packet_data_def packet_payload_def packet_wire_def p'_def n_def
        Packet_GetSendSize_def Packet_GetSendPtr_def)
qed

section \<open>The cipher\<close>

text \<open>Reference definitions: the cipher as a function on byte strings.\<close>

fun encode_bytes :: "u8 \<Rightarrow> u8 \<Rightarrow> u8 \<Rightarrow> nat \<Rightarrow> bytes \<Rightarrow> bytes" where
  "encode_bytes rk p e i [] = []"
| "encode_bytes rk p e i (d # ds) =
     (let n = of_nat (i + 1); p' = d XOR (p + rk + n); e' = p' XOR (e + FIXED_KEY + n)
      in e' # encode_bytes rk p' e' (i + 1) ds)"

fun decode_bytes :: "u8 \<Rightarrow> u8 \<Rightarrow> u8 \<Rightarrow> nat \<Rightarrow> bytes \<Rightarrow> bytes" where
  "decode_bytes rk p e i [] = []"
| "decode_bytes rk p e i (e' # es) =
     (let n = of_nat (i + 1); p' = e' XOR (e + FIXED_KEY + n)
      in (p' XOR (p + rk + n)) # decode_bytes rk p' e' (i + 1) es)"

lemma length_encode_bytes [simp]: "length (encode_bytes rk p e i ds) = length ds"
  by (induction rk p e i ds rule: encode_bytes.induct) (auto simp: Let_def)

lemma length_decode_bytes [simp]: "length (decode_bytes rk p e i ds) = length ds"
  by (induction rk p e i ds rule: decode_bytes.induct) (auto simp: Let_def)

lemma xor_cancel [simp]: "(a XOR b) XOR b = (a :: 'a::len word)"
  by (simp add: xor.assoc)

lemma decode_encode_bytes [simp]:
  "decode_bytes rk p e i (encode_bytes rk p e i ds) = ds"
  by (induction rk p e i ds rule: encode_bytes.induct) (auto simp: Let_def)

lemma encode_decode_bytes [simp]:
  "encode_bytes rk p e i (decode_bytes rk p e i es) = es"
  by (induction rk p e i es rule: decode_bytes.induct) (auto simp: Let_def)

declare encode_bytes.simps [simp del] decode_bytes.simps [simp del]

lemma splice_update_Cons:
  "off < length buf \<Longrightarrow> splice (buf[off := b]) (Suc off) ys = splice buf off (b # ys)"
  by (simp add: splice_def take_Suc_conv_app_nth)

lemma take_drop_step:
  "i < n \<Longrightarrow> off + n \<le> length buf \<Longrightarrow>
   take (n - i) (drop (off + i) buf) = buf ! (off + i) # take (n - Suc i) (drop (Suc (off + i)) buf)"
  by (simp add: Cons_nth_drop_Suc [symmetric] Suc_diff_Suc [symmetric])

lemma Encode_loop_eq:
  assumes "4 + n \<le> length buf" "i \<le> n"
  shows "Encode_loop buf i n p e =
    Inr (splice buf (4 + i) (encode_bytes (buf ! 3) p e i (take (n - i) (drop (4 + i) buf))))"
  using assms
proof (induction "n - i" arbitrary: buf i p e)
  case 0
  then show ?case by (subst Encode_loop.simps) (simp add: encode_bytes.simps)
next
  case (Suc k)
  let ?n = "of_nat (i + 1) :: u8"
  define p' where "p' = buf ! (4 + i) XOR (p + buf ! 3 + ?n)"
  define e' where "e' = p' XOR (e + FIXED_KEY + ?n)"
  let ?buf = "buf[4 + i := e']"
  from Suc have i: "i < n" "k = n - (i + 1)" "4 + n \<le> length ?buf" "i + 1 \<le> n" by auto
  have "Encode_loop buf i n p e = Encode_loop ?buf (i + 1) n p' e'"
    using i Suc.prems by (subst Encode_loop.simps)
      (simp add: mem_get_ok mem_set_ok Let_def e'_def p'_def del: of_nat_Suc of_nat_add)
  also have "\<dots> = Inr (splice ?buf (4 + (i + 1))
      (encode_bytes (?buf ! 3) p' e' (i + 1) (take (n - (i + 1)) (drop (4 + (i + 1)) ?buf))))"
    using i by (intro Suc.hyps) auto
  also have "?buf ! 3 = buf ! 3" by simp
  also have "drop (4 + (i + 1)) ?buf = drop (4 + (i + 1)) buf" by simp
  finally show ?case
    using i Suc.prems splice_update_Cons [of "4 + i" buf e']
    by (simp add: take_drop_step [of i n 4 buf] Let_def e'_def p'_def encode_bytes.simps)
qed

lemma Decode_loop_eq:
  assumes "4 + n \<le> length buf" "i \<le> n"
  shows "Decode_loop buf i n p e =
    Inr (splice buf (4 + i) (decode_bytes (buf ! 3) p e i (take (n - i) (drop (4 + i) buf))))"
  using assms
proof (induction "n - i" arbitrary: buf i p e)
  case 0
  then show ?case by (subst Decode_loop.simps) (simp add: decode_bytes.simps)
next
  case (Suc k)
  let ?n = "of_nat (i + 1) :: u8"
  define p' where "p' = buf ! (4 + i) XOR (e + FIXED_KEY + ?n)"
  define d where "d = p' XOR (p + buf ! 3 + ?n)"
  let ?buf = "buf[4 + i := d]"
  from Suc have i: "i < n" "k = n - (i + 1)" "4 + n \<le> length ?buf" "i + 1 \<le> n" by auto
  have "Decode_loop buf i n p e = Decode_loop ?buf (i + 1) n p' (buf ! (4 + i))"
    using i Suc.prems by (subst Decode_loop.simps)
      (simp add: mem_get_ok mem_set_ok Let_def d_def p'_def del: of_nat_Suc of_nat_add)
  also have "\<dots> = Inr (splice ?buf (4 + (i + 1))
      (decode_bytes (?buf ! 3) p' (buf ! (4 + i)) (i + 1) (take (n - (i + 1)) (drop (4 + (i + 1)) ?buf))))"
    using i by (intro Suc.hyps) auto
  also have "?buf ! 3 = buf ! 3" by simp
  also have "drop (4 + (i + 1)) ?buf = drop (4 + (i + 1)) buf" by simp
  finally show ?case
    using i Suc.prems splice_update_Cons [of "4 + i" buf d]
    by (simp add: take_drop_step [of i n 4 buf] Let_def d_def p'_def decode_bytes.simps)
qed

lemma checkSum_loop_eq:
  assumes "n \<le> length buf" "i \<le> n"
  shows "checkSum_loop buf i n acc = Inr (acc + sum_list (take (n - i) (drop i buf)))"
  using assms
proof (induction "n - i" arbitrary: i acc)
  case 0
  then show ?case by (subst checkSum_loop.simps) simp
next
  case (Suc k)
  then have i: "i < n" "k = n - (i + 1)" "i + 1 \<le> n" by auto
  have "checkSum_loop buf i n acc = checkSum_loop buf (i + 1) n (acc + buf ! i)"
    using i Suc.prems by (subst checkSum_loop.simps) (simp add: mem_get_ok)
  also have "\<dots> = Inr (acc + buf ! i + sum_list (take (n - (i + 1)) (drop (i + 1) buf)))"
    using Suc.hyps(1) [OF i(2) Suc.prems(1) i(3)] by simp
  finally show ?case
    using take_drop_step [of i n 0 buf] i Suc.prems by (simp add: add.assoc)
qed

section \<open>Frames\<close>

text \<open>What travels on the wire for a payload: the two frame formats.\<close>

definition lan_frame :: "bytes \<Rightarrow> bytes" where
  "lan_frame payload = le_encode 2 (of_nat (length payload) :: u16) @ payload"

definition net_frame :: "u8 \<Rightarrow> bytes \<Rightarrow> bytes" where
  "net_frame rk payload =
     PACKET_CODE # le_encode 2 (of_nat (length payload) :: u16) @ rk #
     encode_bytes rk 0 0 0 (sum_list payload # payload)"

lemma length_lan_frame [simp]: "length (lan_frame pl) = 2 + length pl"
  by (simp add: lan_frame_def)

lemma length_net_frame [simp]: "length (net_frame rk pl) = 5 + length pl"
  by (simp add: net_frame_def)

lemma unat_len16: "n < 65536 \<Longrightarrow> unat (of_nat n :: u16) = n"
  by (simp add: unat_of_nat take_bit_nat_eq_self)

lemma SetLanHeader_ok:
  assumes "packet_inv p"
  shows "\<exists>p'. Packet_SetLanHeader p = Inr p' \<and> packet_inv p' \<and> packet_data p' = packet_data p \<and>
    packet_payload p' = packet_payload p \<and> packet_wire p' = lan_frame (packet_payload p) \<and>
    m_refCount p' = m_refCount p \<and> m_iWritePos p' = m_iWritePos p"
proof -
  note D = packet_invD [OF assms]
  define hdr where "hdr = le_encode 2 (word_of_int (m_iWritePos p - 5) :: u16)"
  define buf where "buf = splice (m_chpBuffer p) 3 hdr"
  have hdr: "length hdr = 2" by (simp add: hdr_def)
  have "word_of_int (m_iWritePos p - 5) = (of_nat (length (packet_payload p)) :: u16)"
    using length_packet_payload [OF assms] by (metis of_int_of_nat_eq)
  then have "lan_frame (packet_payload p) = hdr @ packet_payload p"
    by (simp add: lan_frame_def hdr_def)
  moreover have "nat (m_iWritePos p - 3) - 2 = nat (m_iWritePos p - 5)" by simp
  ultimately have frame: "hdr @ take (nat (m_iWritePos p - 3) - 2) (drop 5 (m_chpBuffer p)) =
      lan_frame (take (nat (m_iWritePos p - 5)) (drop 5 (m_chpBuffer p)))"
    by (simp only: packet_payload_def)
  have eq: "Packet_SetLanHeader p = Inr (p\<lparr>m_chpBuffer := buf, m_iHeaderSize := 2\<rparr>)"
    using D hdr by (simp add: Packet_SetLanHeader_def sizeof_LanServerHeader_def Let_def
        LanServerHeader_bytes_def mem_copy_ok buf_def hdr_def)
  have len: "length buf = length (m_chpBuffer p)" using D hdr by (simp add: buf_def)
  have above: "drop k buf = drop k (m_chpBuffer p)" if "5 \<le> k" for k
    using that hdr D by (simp add: buf_def splice_def)
  have three: "drop 3 buf = hdr @ drop 5 (m_chpBuffer p)"
    using hdr D by (simp add: buf_def splice_def min_absorb2)
  show ?thesis
    unfolding eq
    by (intro exI conjI, rule refl)
      (use assms D len above three hdr in \<open>auto simp: packet_inv_def packet_data_def packet_payload_def
        packet_wire_def Packet_GetSendSize_def Packet_GetSendPtr_def frame nat_add_distrib\<close>)
qed

lemma header_of_bytes:
  "length r = 2 \<Longrightarrow> NetServerHeader_of (c # r @ k # s # rest) =
    \<lparr>net_byteCode = c, net_len = le_decode r, net_randomKey = k, net_checkSum = s\<rparr>"
  by (simp add: NetServerHeader_of_def nth_append)

lemma Encode_ok:
  assumes "m_chpBuffer p = c # le_encode 2 len @ rk # chk # rest" "unat (len :: u16) \<le> length rest"
  shows "Packet_Encode p = Inr (p\<lparr>m_chpBuffer := c # le_encode 2 len @ rk #
    encode_bytes rk 0 0 0 (chk # take (unat len) rest) @ drop (unat len) rest\<rparr>)"
proof -
  let ?buf = "m_chpBuffer p"
  have split: "?buf = (c # le_encode 2 len @ [rk, chk]) @ rest" using assms(1) by simp
  have hdr: "mem_read ?buf 0 5 = Inr (c # le_encode 2 len @ [rk, chk])"
    unfolding split by (simp add: mem_read_def eval_nat_numeral)
  have "Encode_loop ?buf 0 (unat len + 1) 0 0 =
      Inr (splice ?buf 4 (encode_bytes rk 0 0 0 (chk # take (unat len) rest)))"
    using assms Encode_loop_eq [of "unat len + 1" ?buf 0 0 0] by (simp add: eval_nat_numeral)
  moreover have "splice ?buf 4 (encode_bytes rk 0 0 0 (chk # take (unat len) rest)) =
      c # le_encode 2 len @ rk # encode_bytes rk 0 0 0 (chk # take (unat len) rest) @ drop (unat len) rest"
    using assms(1) by (simp add: splice_def eval_nat_numeral assms(2) min_absorb2)
  ultimately show ?thesis
    using hdr by (simp add: Packet_Encode_def sizeof_NetServerHeader_def header_of_bytes)
qed

lemma Decode_ok:
  assumes "m_chpBuffer p = c # le_encode 2 len @ rk # es @ rest" "length es = unat (len :: u16) + 1"
  defines "ds \<equiv> decode_bytes rk 0 0 0 es"
  shows "Packet_Decode p = Inr (p\<lparr>m_chpBuffer := c # le_encode 2 len @ rk # ds @ rest\<rparr>,
    sum_list (tl ds) = hd ds)"
proof -
  let ?buf = "m_chpBuffer p"
  obtain e es' where es: "es = e # es'" using assms(2) by (cases es) auto
  have split: "?buf = (c # le_encode 2 len @ [rk, e]) @ es' @ rest" using assms(1) es by simp
  have hdr: "mem_read ?buf 0 5 = Inr (c # le_encode 2 len @ [rk, e])"
    unfolding split by (simp add: mem_read_def eval_nat_numeral)
  have lds: "length ds = unat len + 1" using assms(2) by (simp add: ds_def)
  have "Decode_loop ?buf 0 (unat len + 1) 0 0 = Inr (splice ?buf 4 ds)"
    using assms Decode_loop_eq [of "unat len + 1" ?buf 0 0 0] by (simp add: eval_nat_numeral)
  moreover have "splice ?buf 4 ds = c # le_encode 2 len @ rk # ds @ rest" (is "_ = ?buf'")
    using assms(1,2) lds by (simp add: splice_def eval_nat_numeral min_absorb2)
  moreover have "checkSum_loop ?buf' 5 (4 + (unat len + 1)) 0 = Inr (sum_list (tl ds))"
  proof -
    have "take (unat len) (drop 5 ?buf') = tl ds"
      using lds by (cases ds) (auto simp: eval_nat_numeral)
    then show ?thesis
      using checkSum_loop_eq [of "5 + unat len" ?buf' 5 0] lds by simp
  qed
  moreover have "mem_get ?buf' 4 = Inr (hd ds)"
    using lds by (cases ds) (auto simp: mem_get_def eval_nat_numeral)
  ultimately show ?thesis
    using hdr by (simp add: Packet_Decode_def sizeof_NetServerHeader_def header_of_bytes Let_def)
qed

text \<open>A declared length that reaches past the block makes \<open>Decode\<close> run out of it.\<close>

lemma Decode_loop_overflow:
  assumes "length buf < 4 + n" "i \<le> n" "4 + i \<le> length buf"
  shows "Decode_loop buf i n p e = Inl OutOfBounds"
  using assms
proof (induction "n - i" arbitrary: buf i p e)
  case 0
  then show ?case by simp
next
  case (Suc k)
  then have i: "i < n" "k = n - (i + 1)" by auto
  show ?case
  proof (cases "4 + i < length buf")
    case True
    have "Decode_loop buf' (i + 1) n p' e' = Inl OutOfBounds" if "length buf' = length buf" for buf' p' e'
      using Suc.hyps(1) [OF i(2), of buf' p' e'] Suc.prems i True that by simp
    then show ?thesis
      using i True by (subst Decode_loop.simps) (simp add: mem_get_ok mem_set_ok Let_def del: of_nat_Suc of_nat_add)
  next
    case False
    with i show ?thesis by (subst Decode_loop.simps) (simp add: mem_get_def Let_def)
  qed
qed

lemma payload_split:
  assumes "packet_inv p"
  shows "drop 5 (m_chpBuffer p) = packet_payload p @ drop (nat (m_iWritePos p)) (m_chpBuffer p)"
proof -
  have "nat (m_iWritePos p) = nat (m_iWritePos p - 5) + 5"
    using packet_invD [OF assms] by simp
  then show ?thesis
    unfolding packet_payload_def by (metis append_take_drop_id drop_drop)
qed

lemma SetNetHeader_ok:
  assumes "packet_inv p" "\<not> m_bEncoded p" "m_iWritePos p - 5 < 65536"
  shows "\<exists>p'. Packet_SetNetHeader rnd p = Inr p' \<and> packet_inv p' \<and> m_bEncoded p' \<and>
    packet_wire p' = net_frame (word_of_int rnd) (packet_payload p) \<and>
    m_refCount p' = m_refCount p \<and> m_iWritePos p' = m_iWritePos p \<and> m_iReadPos p' = m_iReadPos p"
proof -
  note D = packet_invD [OF assms(1)]
  let ?pl = "packet_payload p"
  define rest where "rest = drop (nat (m_iWritePos p)) (m_chpBuffer p)"
  define len :: u16 where "len = of_nat (length ?pl)"
  have lpl: "int (length ?pl) = m_iWritePos p - 5" by (rule length_packet_payload [OF assms(1)])
  then have "word_of_int (m_iWritePos p - 5) = len" by (simp add: len_def flip: lpl)
  then have wlen: "word_of_int (m_iWritePos p) - 5 = len" by simp
  have unat: "unat len = length ?pl" using assms(3) lpl by (simp add: len_def unat_len16)
  have buf: "drop 5 (m_chpBuffer p) = ?pl @ rest"
    using payload_split [OF assms(1)] by (simp add: rest_def)
  have sum: "checkSum_loop (m_chpBuffer p) 5 (nat (m_iWritePos p)) 0 = Inr (sum_list ?pl)"
    using D checkSum_loop_eq [of "nat (m_iWritePos p)" "m_chpBuffer p" 5 0]
    by (simp add: packet_payload_def nat_diff_distrib)
  define hdr where "hdr = PACKET_CODE # le_encode 2 len @ [word_of_int rnd, sum_list ?pl]"
  have hlen: "length hdr = 5" by (simp add: hdr_def)
  have cp: "mem_copy (m_chpBuffer p) 0 hdr 0 5 = Inr (hdr @ ?pl @ rest)"
    using D hlen buf by (subst mem_copy_ok) (auto simp: splice_def)
  define p1 where "p1 = p\<lparr>m_chpBuffer := hdr @ ?pl @ rest, m_iHeaderSize := 5\<rparr>"
  have enc: "Packet_Encode p1 = Inr (p1\<lparr>m_chpBuffer := PACKET_CODE # le_encode 2 len @ word_of_int rnd #
      encode_bytes (word_of_int rnd) 0 0 0 (sum_list ?pl # ?pl) @ rest\<rparr>)"
    using Encode_ok [of p1 PACKET_CODE len "word_of_int rnd" "sum_list ?pl" "?pl @ rest"] unat
    by (simp add: p1_def hdr_def)
  let ?p' = "p1\<lparr>m_chpBuffer := net_frame (word_of_int rnd) ?pl @ rest, m_bEncoded := True\<rparr>"
  have eq: "Packet_SetNetHeader rnd p = Inr ?p'"
    using assms(2) sum cp enc
    by (simp add: Packet_SetNetHeader_def sizeof_NetServerHeader_def Let_def NetServerHeader_bytes_def
        wlen hdr_def p1_def net_frame_def len_def)
  have "length (net_frame (word_of_int rnd) ?pl @ rest) = length (m_chpBuffer p)"
    using mem_copy_length [OF cp] hlen by simp
  note len' = this
  have w': "nat (m_iWritePos p) = 5 + length ?pl" using lpl by simp
  show ?thesis
    unfolding eq
    by (intro exI conjI, rule refl)
      (use assms(1) len' w' in \<open>auto simp: packet_inv_def packet_wire_def Packet_GetSendSize_def
        Packet_GetSendPtr_def p1_def\<close>)
qed

section \<open>Properties\<close>

lemma net_frame_header:
  assumes "length payload < 65536"
  shows "NetServerHeader_of (net_frame rk payload @ rest) =
    \<lparr>net_byteCode = PACKET_CODE, net_len = of_nat (length payload), net_randomKey = rk,
     net_checkSum = hd (encode_bytes rk 0 0 0 (sum_list payload # payload))\<rparr>"
proof -
  obtain e es where "encode_bytes rk 0 0 0 (sum_list payload # payload) = e # es"
    by (metis encode_bytes.simps(2))
  then show ?thesis
    by (simp add: net_frame_def header_of_bytes)
qed

lemma Decode_net_frame:
  assumes "m_chpBuffer q = net_frame rk payload @ rest" "length payload < 65536"
  shows "Packet_Decode q = Inr (q\<lparr>m_chpBuffer := PACKET_CODE # le_encode 2 (of_nat (length payload) :: u16) @
    rk # sum_list payload # payload @ rest\<rparr>, True)"
  using Decode_ok [of q PACKET_CODE "of_nat (length payload)" rk
      "encode_bytes rk 0 0 0 (sum_list payload # payload)" rest] assms
  by (simp add: net_frame_def unat_len16)

text \<open>
  C7. The net protocol round trip. A packet is framed and enciphered by \<open>SetNetHeader\<close> with
  any \<open>rand()\<close>; a receiver whose block starts with the bytes sent, and whose write position
  is behind them, decodes successfully, finds the packet code and the payload's length in the
  header, and reads exactly the sender's payload.
\<close>
theorem net_packet_roundtrip:
  assumes "packet_inv p" "\<not> m_bEncoded p" "m_iWritePos p - 5 < 65536"
    and "Packet_SetNetHeader rnd p = Inr p'"
    and "packet_inv q" "m_iReadPos q = 5" "m_iWritePos q = int (length (packet_wire p'))"
    and "take (length (packet_wire p')) (m_chpBuffer q) = packet_wire p'"
  shows "\<exists>q'. Packet_Decode q = Inr (q', True) \<and> packet_inv q' \<and>
    packet_data q' = packet_payload p \<and>
    net_byteCode (NetServerHeader_of (m_chpBuffer q)) = PACKET_CODE \<and>
    int (unat (net_len (NetServerHeader_of (m_chpBuffer q)))) = int (length (packet_payload p))"
proof -
  let ?pl = "packet_payload p"
  have wire: "packet_wire p' = net_frame (word_of_int rnd) ?pl"
    using SetNetHeader_ok [OF assms(1-3), of rnd] assms(4) by auto
  have small: "length ?pl < 65536" using length_packet_payload [OF assms(1)] assms(3) by linarith
  obtain rest where buf: "m_chpBuffer q = net_frame (word_of_int rnd) ?pl @ rest"
    using assms(8) wire by (metis append_take_drop_id)
  have "packet_data (q\<lparr>m_chpBuffer := PACKET_CODE # le_encode 2 (of_nat (length ?pl) :: u16) @
      word_of_int rnd # sum_list ?pl # ?pl @ rest\<rparr>) = ?pl"
    using assms(6,7) wire by (simp add: packet_data_def eval_nat_numeral)
  moreover have "packet_inv (q\<lparr>m_chpBuffer := PACKET_CODE # le_encode 2 (of_nat (length ?pl) :: u16) @
      word_of_int rnd # sum_list ?pl # ?pl @ rest\<rparr>)"
    using assms(5) buf by (simp add: packet_inv_def)
  ultimately show ?thesis
    unfolding Decode_net_frame [OF buf small] using net_frame_header [OF small, of "word_of_int rnd" rest]
    by (simp add: buf unat_len16 [OF small])
qed

text \<open>A packet of three payload bytes, for the witnesses.\<close>

definition sample_packet :: packet where
  "sample_packet = (Packet_sized (replicate 9 0) 4)\<lparr>m_chpBuffer := [0, 0, 0, 0, 0, 10, 20, 30, 0], m_iWritePos := 8\<rparr>"

lemma sample_packet_inv: "packet_inv sample_packet"
  by (simp add: sample_packet_def Packet_sized_def Packet_Clear_def packet_inv_def)

lemma sample_packet_simps:
  "m_iWritePos sample_packet = 8" "m_iReadPos sample_packet = 5" "\<not> m_bEncoded sample_packet"
  "packet_payload sample_packet = [10, 20, 30]" "packet_room sample_packet = 1"
  "packet_data sample_packet = [10, 20, 30]"
  by (simp_all add: sample_packet_def Packet_sized_def Packet_Clear_def packet_payload_def packet_room_def
      packet_data_def eval_nat_numeral)

theorem net_packet_roundtrip_witness:
  "\<exists>p' q q'. Packet_SetNetHeader 7 sample_packet = Inr p' \<and>
    take 8 (m_chpBuffer q) = packet_wire p' \<and> Packet_Decode q = Inr (q', True) \<and>
    packet_data q' = [10, 20, 30]"
proof -
  note S = sample_packet_simps
  obtain p' where p': "Packet_SetNetHeader 7 sample_packet = Inr p'"
      "packet_wire p' = net_frame 7 [10, 20, 30]"
    using SetNetHeader_ok [OF sample_packet_inv, of 7] by (auto simp: S)
  define q where "q = (Packet_sized [] 4)\<lparr>m_chpBuffer := packet_wire p' @ [0], m_iWritePos := 8\<rparr>"
  have q: "packet_inv q" "m_iReadPos q = 5" "m_iWritePos q = int (length (packet_wire p'))"
      "take (length (packet_wire p')) (m_chpBuffer q) = packet_wire p'"
    by (simp_all add: q_def p'(2) packet_inv_def Packet_sized_def Packet_Clear_def)
  obtain q' where "Packet_Decode q = Inr (q', True)" "packet_data q' = [10, 20, 30]"
    using net_packet_roundtrip [OF sample_packet_inv _ _ p'(1) q] by (auto simp: S)
  with p' q show ?thesis by (auto simp: eval_nat_numeral)
qed

text \<open>
  Encoding happens once. After \<open>SetNetHeader\<close> a second call, whatever \<open>rand()\<close> returns,
  leaves the packet as it is, so a broadcast that sends one packet to many sessions transmits
  the same bytes to all of them. The bytes behind the payload are never touched.
\<close>
theorem SetNetHeader_once:
  assumes "packet_inv p" "m_iWritePos p - 5 < 65536" "Packet_SetNetHeader rnd p = Inr p'"
  shows "Packet_SetNetHeader rnd' p' = Inr p' \<and> packet_inv p' \<and>
    (if m_bEncoded p then p' = p else packet_wire p' = net_frame (word_of_int rnd) (packet_payload p))"
proof (cases "m_bEncoded p")
  case True
  with assms show ?thesis by (simp add: Packet_SetNetHeader_def)
next
  case False
  with SetNetHeader_ok [OF assms(1) False assms(2), of rnd] assms(3) show ?thesis
    by (auto simp: Packet_SetNetHeader_def [of rnd'])
qed

theorem SetNetHeader_once_witness:
  "\<exists>p'. Packet_SetNetHeader 7 sample_packet = Inr p' \<and> Packet_SetNetHeader 99 p' = Inr p' \<and>
    packet_wire p' = net_frame 7 [10, 20, 30]"
proof -
  obtain p' where "Packet_SetNetHeader 7 sample_packet = Inr p'"
    using SetNetHeader_ok [OF sample_packet_inv, of 7] by (auto simp: sample_packet_simps)
  with SetNetHeader_once [OF sample_packet_inv _ this, of 99] show ?thesis
    by (auto simp: sample_packet_simps)
qed

lemma decode_bytes_snoc:
  "\<exists>k. \<forall>b. decode_bytes rk p e i (es @ [b]) = decode_bytes rk p e i es @ [b XOR k]"
proof (induction es arbitrary: p e i)
  case Nil
  show ?case by (auto simp: decode_bytes.simps Let_def xor.assoc)
next
  case (Cons a es)
  show ?case
    using Cons.IH [of "a XOR (e + FIXED_KEY + of_nat (i + 1))" a "i + 1"]
    by (auto simp: decode_bytes.simps Let_def)
qed

text \<open>
  Corruption of the last byte is always detected. If a received frame with a payload
  decodes successfully, then the same frame with its final byte changed to any other value is
  rejected by the checksum.
\<close>
theorem Decode_rejects_last_byte:
  assumes "m_chpBuffer p = c # le_encode 2 (len :: u16) @ rk # (es @ [b]) @ rest"
    and "length es = unat len" "es \<noteq> []" "Packet_Decode p = Inr (q, True)" "b' \<noteq> b"
  shows "\<exists>q'. Packet_Decode (p\<lparr>m_chpBuffer := c # le_encode 2 len @ rk # (es @ [b']) @ rest\<rparr>) = Inr (q', False)"
proof -
  obtain k where k: "\<And>b. decode_bytes rk 0 0 0 (es @ [b]) = decode_bytes rk 0 0 0 es @ [b XOR k]"
    using decode_bytes_snoc [of rk 0 0 0 es] by blast
  obtain d ds where d: "decode_bytes rk 0 0 0 es = d # ds"
    using assms(3) by (metis length_decode_bytes length_0_conv neq_Nil_conv)
  have "sum_list (ds @ [b XOR k]) = d"
    using Decode_ok [OF assms(1)] assms(2,4) k d by simp
  moreover have "b XOR k \<noteq> b' XOR k"
    using assms(5) by (metis xor_cancel)
  ultimately have "sum_list (ds @ [b' XOR k]) \<noteq> d" by auto
  then show ?thesis
    using Decode_ok [of "p\<lparr>m_chpBuffer := c # le_encode 2 len @ rk # (es @ [b']) @ rest\<rparr>"
        c len rk "es @ [b']" rest] assms(2) k d by simp
qed

lemma sample_cipher: "encode_bytes 9 0 0 0 [65, 65] = [120, 187]"
  by (simp add: encode_bytes.simps FIXED_KEY_def Let_def)

theorem Decode_rejects_last_byte_witness:
  "\<exists>q'. Packet_Decode ((Packet_sized [] 1)\<lparr>m_chpBuffer :=
      0x77 # le_encode 2 (1 :: u16) @ 9 # ([120] @ [188]) @ []\<rparr>) = Inr (q', False)"
proof -
  let ?p = "(Packet_sized [] 1)\<lparr>m_chpBuffer := 0x77 # le_encode 2 (1 :: u16) @ 9 # ([120] @ [187]) @ []\<rparr>"
  have "decode_bytes 9 0 0 0 [120, 187] = [65, 65]"
    using sample_cipher by (metis decode_encode_bytes)
  then have "\<exists>q. Packet_Decode ?p = Inr (q, True)"
    using Decode_ok [of ?p "0x77" 1 9 "[120, 187]" "[]"] by simp
  then obtain q where q: "Packet_Decode ?p = Inr (q, True)" ..
  from Decode_rejects_last_byte [OF _ _ _ q, where c = "0x77" and len = 1 and rk = 9 and es = "[120]"
      and rest = "[]" and b = 187 and b' = 188]
  show ?thesis by simp
qed

text \<open>The typed fields of a message, and writing and reading them in order.\<close>

datatype field = F8 u8 | F16 u16 | F32 u32 | F64 u64

fun field_size :: "field \<Rightarrow> nat" where
  "field_size (F8 _) = 1" | "field_size (F16 _) = 2" | "field_size (F32 _) = 4" | "field_size (F64 _) = 8"

fun put_field :: "packet \<Rightarrow> field \<Rightarrow> packet result" where
  "put_field p (F8 w) = Packet_put8 p w"
| "put_field p (F16 w) = Packet_put16 p w"
| "put_field p (F32 w) = Packet_put32 p w"
| "put_field p (F64 w) = Packet_put64 p w"

text \<open>Reads a field of the same type as \<open>f\<close> into a variable that holds \<open>f\<close>'s type's zero.\<close>

fun get_field :: "packet \<Rightarrow> field \<Rightarrow> (packet \<times> field) result" where
  "get_field p (F8 _) = and_then (Packet_get8 p 0) (\<lambda>(p, w). Inr (p, F8 w))"
| "get_field p (F16 _) = and_then (Packet_get16 p 0) (\<lambda>(p, w). Inr (p, F16 w))"
| "get_field p (F32 _) = and_then (Packet_get32 p 0) (\<lambda>(p, w). Inr (p, F32 w))"
| "get_field p (F64 _) = and_then (Packet_get64 p 0) (\<lambda>(p, w). Inr (p, F64 w))"

fun put_fields :: "packet \<Rightarrow> field list \<Rightarrow> packet result" where
  "put_fields p [] = Inr p"
| "put_fields p (f # fs) = and_then (put_field p f) (\<lambda>p. put_fields p fs)"

fun get_fields :: "packet \<Rightarrow> field list \<Rightarrow> (packet \<times> field list) result" where
  "get_fields p [] = Inr (p, [])"
| "get_fields p (f # fs) =
     and_then (get_field p f) (\<lambda>(p, g). and_then (get_fields p fs) (\<lambda>(p, gs). Inr (p, g # gs)))"

fun field_bytes :: "field \<Rightarrow> bytes" where
  "field_bytes (F8 w) = le_encode 1 w"
| "field_bytes (F16 w) = le_encode 2 w"
| "field_bytes (F32 w) = le_encode 4 w"
| "field_bytes (F64 w) = le_encode 8 w"

lemma length_field_bytes [simp]: "length (field_bytes f) = field_size f"
  by (cases f) auto

lemma put_field_ok:
  assumes "packet_inv p" "int (field_size f) \<le> packet_room p"
  shows "\<exists>p'. put_field p f = Inr p' \<and> packet_inv p' \<and> packet_data p' = packet_data p @ field_bytes f \<and>
    packet_payload p' = packet_payload p @ field_bytes f \<and>
    packet_room p' = packet_room p - int (field_size f)"
proof (cases f)
  case (F8 w)
  with put_ok [OF assms(1), of 1 w] assms(2) show ?thesis by (auto simp: Packet_put8_def)
next
  case (F16 w)
  with put_ok [OF assms(1), of 2 w] assms(2) show ?thesis by (auto simp: Packet_put16_def)
next
  case (F32 w)
  with put_ok [OF assms(1), of 4 w] assms(2) show ?thesis by (auto simp: Packet_put32_def)
next
  case (F64 w)
  with put_ok [OF assms(1), of 8 w] assms(2) show ?thesis by (auto simp: Packet_put64_def)
qed

lemma get_field_ok:
  assumes "packet_inv p" "packet_data p = field_bytes f @ rest"
  shows "\<exists>p'. get_field p f = Inr (p', f) \<and> packet_inv p' \<and> packet_data p' = rest"
proof (cases f)
  case (F8 w)
  then show ?thesis
    using get_ok [OF assms(1), of 1 "0 :: u8"] assms(2) by (auto simp: Packet_get8_def)
next
  case (F16 w)
  then show ?thesis
    using get_ok [OF assms(1), of 2 "0 :: u16"] assms(2) by (auto simp: Packet_get16_def)
next
  case (F32 w)
  then show ?thesis
    using get_ok [OF assms(1), of 4 "0 :: u32"] assms(2) by (auto simp: Packet_get32_def)
next
  case (F64 w)
  then show ?thesis
    using get_ok [OF assms(1), of 8 "0 :: u64"] assms(2) by (auto simp: Packet_get64_def)
qed

lemma put_fields_ok:
  assumes "packet_inv p" "int (\<Sum>f\<leftarrow>fs. field_size f) \<le> packet_room p"
  shows "\<exists>p'. put_fields p fs = Inr p' \<and> packet_inv p' \<and>
    packet_data p' = packet_data p @ concat (map field_bytes fs) \<and>
    packet_payload p' = packet_payload p @ concat (map field_bytes fs)"
  using assms
proof (induction fs arbitrary: p)
  case Nil
  then show ?case by simp
next
  case (Cons f fs)
  obtain p1 where p1: "put_field p f = Inr p1" "packet_inv p1" "packet_data p1 = packet_data p @ field_bytes f"
      "packet_payload p1 = packet_payload p @ field_bytes f"
      "packet_room p1 = packet_room p - int (field_size f)"
    using put_field_ok [OF Cons.prems(1), of f] Cons.prems(2) by fastforce
  with Cons.IH [OF p1(2)] Cons.prems(2) show ?case by auto
qed

lemma get_fields_ok:
  assumes "packet_inv p" "packet_data p = concat (map field_bytes fs) @ rest"
  shows "\<exists>p'. get_fields p fs = Inr (p', fs) \<and> packet_inv p' \<and> packet_data p' = rest"
  using assms
proof (induction fs arbitrary: p)
  case Nil
  then show ?case by simp
next
  case (Cons f fs)
  obtain p1 where "get_field p f = Inr (p1, f)" "packet_inv p1"
      "packet_data p1 = concat (map field_bytes fs) @ rest"
    using get_field_ok [OF Cons.prems(1), of f "concat (map field_bytes fs) @ rest"] Cons.prems(2) by auto
  with Cons.IH [of p1] show ?case by auto
qed

text \<open>
  C12. Serialisation round trip. Any sequence of 8-, 16-, 32- and 64-bit fields that fits is
  written without a fault and read back, in order and with the same values, whatever had been
  read from the packet before; nothing unread is left.
\<close>
theorem fields_roundtrip:
  assumes "packet_inv p" "packet_data p = []" "int (\<Sum>f\<leftarrow>fs. field_size f) \<le> packet_room p"
  shows "\<exists>p' p''. put_fields p fs = Inr p' \<and> get_fields p' fs = Inr (p'', fs) \<and>
    packet_inv p'' \<and> packet_data p'' = []"
proof -
  obtain p' where "put_fields p fs = Inr p'" "packet_inv p'" "packet_data p' = concat (map field_bytes fs)"
    using put_fields_ok [OF assms(1,3)] assms(2) by auto
  with get_fields_ok [of p' fs "[]"] show ?thesis by auto
qed

definition empty_packet :: packet where
  "empty_packet = Packet_sized (replicate 20 0) 15"

lemma empty_packet_inv: "packet_inv empty_packet"
  and empty_packet_simps: "packet_data empty_packet = []" "packet_room empty_packet = 15"
  by (simp_all add: empty_packet_def Packet_sized_inv)
    (simp_all add: Packet_sized_def Packet_Clear_def packet_data_def packet_room_def)

theorem fields_roundtrip_witness:
  "\<exists>p' p''. put_fields empty_packet [F16 2, F8 1, F64 77, F32 5] = Inr p' \<and>
    get_fields p' [F16 2, F8 1, F64 77, F32 5] = Inr (p'', [F16 2, F8 1, F64 77, F32 5]) \<and>
    packet_data p'' = []"
  using fields_roundtrip [OF empty_packet_inv, of "[F16 2, F8 1, F64 77, F32 5]"]
  by (auto simp: empty_packet_simps)

text \<open>
  The stream operators fail silently. A field that does not fit is dropped as a whole
  and the packet is unchanged, so a later smaller field may still be written; reading a field
  from too little data changes neither the packet nor the variable.
\<close>
theorem stream_operators_all_or_nothing:
  fixes w :: "'a::len word"
  assumes "packet_inv p" "0 < n" "LENGTH('a) \<le> 8 * n"
  shows "(if packet_room p < int n then Packet_put n p w = Inr p
      else \<exists>p'. Packet_put n p w = Inr p' \<and> packet_inv p' \<and> packet_data p' = packet_data p @ le_encode n w) \<and>
    (if length (packet_data p) < n then Packet_get n p w = Inr (p, w)
      else \<exists>p'. Packet_get n p w = Inr (p', le_decode (take n (packet_data p))) \<and> packet_inv p' \<and>
        packet_data p' = drop n (packet_data p))"
  using put_full [OF _ assms(2)] get_short [OF assms(1) _ assms(3)] put_ok [OF assms(1), of n w]
    get_ok [OF assms(1), of n w] by auto

theorem stream_operators_all_or_nothing_witness:
  "Packet_put 2 sample_packet (5 :: u16) = Inr sample_packet \<and>
    Packet_get 8 sample_packet (6 :: u64) = Inr (sample_packet, 6)"
  using stream_operators_all_or_nothing [OF sample_packet_inv, of 2 "5 :: u16"]
    stream_operators_all_or_nothing [OF sample_packet_inv, of 8 "6 :: u64"]
  by (simp add: sample_packet_simps)

text \<open>
  \<open>Decode\<close> trusts the length in the header. When it says more than the block holds
  behind the header, \<open>Decode\<close> reads and writes past the end of the block.
\<close>
theorem Decode_trusts_length:
  assumes "5 \<le> length (m_chpBuffer p)"
    and "length (m_chpBuffer p) < 5 + unat (net_len (NetServerHeader_of (take 5 (m_chpBuffer p))))"
  shows "Packet_Decode p = Inl OutOfBounds"
proof -
  have "mem_read (m_chpBuffer p) 0 5 = Inr (take 5 (m_chpBuffer p))"
    using assms(1) by (simp add: mem_read_def)
  then show ?thesis
    using Decode_loop_overflow [of "m_chpBuffer p" "Suc (unat (net_len (NetServerHeader_of (take 5 (m_chpBuffer p)))))" 0 0 0]
      assms by (simp add: Packet_Decode_def sizeof_NetServerHeader_def)
qed

theorem Decode_trusts_length_witness:
  "Packet_Decode (sample_packet\<lparr>m_chpBuffer := [0x77, 5, 0, 1, 2, 3, 4]\<rparr>) = Inl OutOfBounds"
  by (rule Decode_trusts_length) (simp_all add: NetServerHeader_of_def)

end
