(* ===== verification/MemoryPool.thy ===== *)
theory MemoryPool
  imports Prelude "HOL-Library.Multiset"
begin

text \<open>
  \<open>MyLibrary/LockFreeMemoryPool.h\<close> and \<open>LockFreeMemoryPoolTLS.h\<close>: the object pool behind
  packets, queue and stack nodes, players and jobs. Blocks are linked into chunks of 300 by
  \<open>next\<close>, chunks into stacks by \<open>chunkNext\<close>; every thread has a cache (a current chunk and a
  stack of at most ten sealed chunks), and one stack of chunks is shared.

  The heap maps addresses (64-bit words, 0 is \<open>nullptr\<close>) to blocks; an access to an address
  outside it is the fault \<open>BadPointer\<close>. \<open>LFMP_VALIDATE\<close> and \<open>LFMP_GUARD\<close> are on and
  \<open>LFMP_STATS\<close> is off, as the header sets them. The operations run without interference,
  so a compare-and-swap loop runs once: the shared stack of chunks is a Treiber stack, whose
  interleavings are the subject of the lock-free stack. \<open>_aligned_malloc\<close>, the size of a
  block, the contents of fresh memory and the default object are parameters, collected in the
  record \<open>pool_env\<close>; what is relied on is the hypothesis \<open>malloc_spec\<close>.
\<close>

section \<open>Tagged pointers\<close>

definition Pool_GetPointer :: "u64 \<Rightarrow> u64" where
  "Pool_GetPointer tagged = tagged AND 0x00007FFFFFFFFFFF"

definition Pool_GetTag :: "u64 \<Rightarrow> u64" where
  "Pool_GetTag tagged = signed_drop_bit 47 tagged AND 0x1FFFF"

definition Pool_MakeTagged :: "u64 \<Rightarrow> u64 \<Rightarrow> u64" where
  "Pool_MakeTagged tag ptr = push_bit 47 (tag AND 0x1FFFF) OR (ptr AND 0x00007FFFFFFFFFFF)"

lemma ptr_mask_eq: "x AND 0x00007FFFFFFFFFFF = take_bit 47 (x :: u64)"
proof -
  have "(0x00007FFFFFFFFFFF :: u64) = mask 47" by (simp add: mask_eq_exp_minus_1)
  then show ?thesis by (simp add: take_bit_eq_mask)
qed

lemma tag_mask_eq: "x AND 0x1FFFF = take_bit 17 (x :: u64)"
proof -
  have "(0x1FFFF :: u64) = mask 17" by (simp add: mask_eq_exp_minus_1)
  then show ?thesis by (simp add: take_bit_eq_mask)
qed

text \<open>A user-space address has 47 bits.\<close>

definition user_ptr :: "u64 \<Rightarrow> bool" where
  "user_ptr p \<longleftrightarrow> take_bit 47 p = p"

lemma GetPointer_MakeTagged [simp]:
  "user_ptr p \<Longrightarrow> Pool_GetPointer (Pool_MakeTagged t p) = p"
  unfolding Pool_GetPointer_def Pool_MakeTagged_def ptr_mask_eq tag_mask_eq user_ptr_def
  by (simp add: take_bit_or take_bit_push_bit)

lemma GetTag_MakeTagged: "Pool_GetTag (Pool_MakeTagged t p) = t AND 0x1FFFF"
  unfolding Pool_GetTag_def Pool_MakeTagged_def ptr_mask_eq tag_mask_eq
  by (rule bit_word_eqI)
    (auto simp: bit_take_bit_iff bit_signed_drop_bit_iff bit_or_iff bit_push_bit_iff)

lemma user_ptr_0 [simp]: "user_ptr 0"
  by (simp add: user_ptr_def)

lemma GetPointer_user [simp]: "user_ptr (Pool_GetPointer x)"
  by (simp add: user_ptr_def Pool_GetPointer_def ptr_mask_eq)

section \<open>State\<close>

definition CHUNK_SIZE :: nat where "CHUNK_SIZE = 300"

definition TLS_MAX_CHUNKS :: u32 where "TLS_MAX_CHUNKS = 10"

record 'a block =
  b_next :: u64
  b_chunkNext :: u64
  b_count :: u32
  b_useFlag :: u32
  b_owner :: u64
  b_frontGuard :: u64
  b_object :: 'a
  b_backGuard :: u64

type_synonym 'a heap = "u64 \<rightharpoonup> 'a block"

record cache =
  cur :: u64
  curCount :: u32
  chunkTop :: u64
  chunkCount :: u32

type_synonym tid = nat

record 'a tls_pool =
  pool_this :: u64
  m_placementNew :: bool
  m_maxChunks :: u32
  m_chunkCount :: u32
  m_top :: u64
  pool_heap :: "'a heap"
  t_cache :: "tid \<Rightarrow> cache"

text \<open>
  The environment: \<open>env_malloc\<close> is \<open>_aligned_malloc\<close> for one chunk, given the addresses taken;
  \<open>env_sizeof\<close> is \<open>sizeof(Block)\<close>; \<open>env_fresh\<close> is what fresh memory holds; \<open>env_new\<close> is
  the object \<open>T()\<close> constructs.
\<close>

record 'a pool_env =
  env_malloc :: "(u64 \<Rightarrow> bool) \<Rightarrow> u64"
  env_sizeof :: u64
  env_fresh :: "'a block"
  env_new :: 'a

definition taken :: "'a heap \<Rightarrow> u64 \<Rightarrow> bool" where
  "taken h a = (h a \<noteq> None)"

definition deref :: "'a heap \<Rightarrow> u64 \<Rightarrow> 'a block result" where
  "deref h a = (if a = 0 then Inl NullDeref else case h a of None \<Rightarrow> Inl BadPointer | Some b \<Rightarrow> Inr b)"

definition store :: "'a heap \<Rightarrow> u64 \<Rightarrow> ('a block \<Rightarrow> 'a block) \<Rightarrow> 'a heap result" where
  "store h a f = and_then (deref h a) (\<lambda>b. Inr (h(a \<mapsto> f b)))"

definition check :: "bool \<Rightarrow> fault \<Rightarrow> unit result" where
  "check c e = (if c then Inr () else Inl e)"

section \<open>The shared pool\<close>

definition Pool_GetCapacityCount :: "'a tls_pool \<Rightarrow> u32" where
  "Pool_GetCapacityCount s = m_chunkCount s * of_nat CHUNK_SIZE"

definition Pool_ValidateAlloc :: "'a tls_pool \<Rightarrow> u64 \<Rightarrow> 'a tls_pool result" where
  "Pool_ValidateAlloc s b =
     and_then (deref (pool_heap s) b) (\<lambda>blk.
     and_then (check (b_owner blk = pool_this s) DebugBreak) (\<lambda>_.
     and_then (check (b_useFlag blk = 0) DebugBreak) (\<lambda>_.
     and_then (store (pool_heap s) b (\<lambda>blk. blk\<lparr>b_useFlag := 1\<rparr>)) (\<lambda>h.
     and_then (check (b_frontGuard blk = pool_this s) DebugBreak) (\<lambda>_.
     and_then (check (b_backGuard blk = pool_this s) DebugBreak) (\<lambda>_.
     Inr (s\<lparr>pool_heap := h\<rparr>)))))))"

definition Pool_ValidateFree :: "'a tls_pool \<Rightarrow> u64 \<Rightarrow> 'a tls_pool result" where
  "Pool_ValidateFree s b =
     and_then (deref (pool_heap s) b) (\<lambda>blk.
     and_then (check (b_owner blk = pool_this s) DebugBreak) (\<lambda>_.
     and_then (store (pool_heap s) b (\<lambda>blk. blk\<lparr>b_useFlag := 0\<rparr>)) (\<lambda>h.
     and_then (check (b_useFlag blk = 1) DebugBreak) (\<lambda>_.
     and_then (check (b_frontGuard blk = pool_this s) DebugBreak) (\<lambda>_.
     and_then (check (b_backGuard blk = pool_this s) DebugBreak) (\<lambda>_.
     Inr (s\<lparr>pool_heap := h\<rparr>)))))))"

definition Pool_PushChunk :: "'a tls_pool \<Rightarrow> u64 \<Rightarrow> 'a tls_pool result" where
  "Pool_PushChunk s head =
     (let oldTop = m_top s in
      and_then (store (pool_heap s) head (\<lambda>blk. blk\<lparr>b_chunkNext := Pool_GetPointer oldTop\<rparr>)) (\<lambda>h.
      let newTop = Pool_MakeTagged (Pool_GetTag oldTop + 1) head in
      Inr (s\<lparr>pool_heap := h, m_top := newTop\<rparr>)))"

text \<open>The loop that initialises the blocks of a chunk, from the last to the first.\<close>

fun NewChunk_loop :: "'a pool_env \<Rightarrow> u64 \<Rightarrow> u64 \<Rightarrow> nat \<Rightarrow> u64 \<Rightarrow> 'a heap \<Rightarrow> u64 \<times> 'a heap" where
  "NewChunk_loop env this mem 0 head h = (head, h)"
| "NewChunk_loop env this mem (Suc i) head h =
     (let b = mem + of_nat i * env_sizeof env
      in NewChunk_loop env this mem i b
           (h(b \<mapsto> (env_fresh env)\<lparr>b_next := head, b_chunkNext := 0, b_useFlag := 0,
                b_owner := this, b_frontGuard := this, b_backGuard := this\<rparr>)))"

text \<open>\<open>for (Block* b = head; b != nullptr; b = b->next) new (ToStorage(b)) T();\<close>; the fuel is
  the number of blocks of a chunk.\<close>

fun construct_loop :: "'a pool_env \<Rightarrow> nat \<Rightarrow> u64 \<Rightarrow> 'a heap \<Rightarrow> 'a heap result" where
  "construct_loop env fuel b h =
     (if b = 0 then Inr h
      else case fuel of 0 \<Rightarrow> Inl BadPointer
      | Suc fuel' \<Rightarrow>
        and_then (store h b (\<lambda>blk. blk\<lparr>b_object := env_new env\<rparr>)) (\<lambda>h.
        and_then (deref h b) (\<lambda>blk. construct_loop env fuel' (b_next blk) h)))"

declare construct_loop.simps [simp del]

definition Pool_NewChunk :: "'a pool_env \<Rightarrow> 'a tls_pool \<Rightarrow> ('a tls_pool \<times> u64) result" where
  "Pool_NewChunk env s =
     (let chunkCnt = m_chunkCount s + 1; s = s\<lparr>m_chunkCount := chunkCnt\<rparr> in
      and_then (check (\<not> (m_maxChunks s \<noteq> 0 \<and> sint chunkCnt > sint (m_maxChunks s))) DebugBreak) (\<lambda>_.
      let mem = env_malloc env (taken (pool_heap s)) in
      and_then (check (mem \<noteq> 0) DebugBreak) (\<lambda>_.
      let (head, h) = NewChunk_loop env (pool_this s) mem CHUNK_SIZE 0 (pool_heap s) in
      and_then (store h head (\<lambda>blk. blk\<lparr>b_count := of_nat CHUNK_SIZE\<rparr>)) (\<lambda>h.
      and_then (if \<not> m_placementNew s then construct_loop env CHUNK_SIZE head h else Inr h) (\<lambda>h.
      Inr (s\<lparr>pool_heap := h\<rparr>, head))))))"

definition Pool_PopChunk :: "'a pool_env \<Rightarrow> 'a tls_pool \<Rightarrow> ('a tls_pool \<times> u64) result" where
  "Pool_PopChunk env s =
     (let oldTop = m_top s; head = Pool_GetPointer oldTop in
      if head = 0 then Pool_NewChunk env s
      else and_then (deref (pool_heap s) head) (\<lambda>blk.
        let newTop = Pool_MakeTagged (Pool_GetTag oldTop + 1) (b_chunkNext blk) in
        Inr (s\<lparr>m_top := newTop\<rparr>, head)))"

text \<open>The constructor: \<open>initialBlocks\<close> rounded up to whole chunks is pushed on the shared stack.\<close>

fun push_new_chunks :: "'a pool_env \<Rightarrow> nat \<Rightarrow> 'a tls_pool \<Rightarrow> 'a tls_pool result" where
  "push_new_chunks env 0 s = Inr s"
| "push_new_chunks env (Suc n) s =
     and_then (Pool_NewChunk env s) (\<lambda>(s, head).
     and_then (Pool_PushChunk s head) (\<lambda>s. push_new_chunks env n s))"

definition empty_cache :: cache where
  "empty_cache = \<lparr>cur = 0, curCount = 0, chunkTop = 0, chunkCount = 0\<rparr>"

definition Pool_construct :: "'a pool_env \<Rightarrow> u64 \<Rightarrow> bool \<Rightarrow> u32 \<Rightarrow> u32 \<Rightarrow> 'a tls_pool result" where
  "Pool_construct env this placementNew initialBlocks maxBlocks =
     (let initChunks = (initialBlocks + of_nat CHUNK_SIZE - 1) div of_nat CHUNK_SIZE in
      push_new_chunks env (unat initChunks)
        \<lparr>pool_this = this, m_placementNew = placementNew,
         m_maxChunks = (maxBlocks + of_nat CHUNK_SIZE - 1) div of_nat CHUNK_SIZE,
         m_chunkCount = 0, m_top = 0, pool_heap = Map.empty, t_cache = (\<lambda>_. empty_cache)\<rparr>)"

section \<open>The thread caches\<close>

definition TLS_Refill :: "'a pool_env \<Rightarrow> tid \<Rightarrow> 'a tls_pool \<Rightarrow> 'a tls_pool result" where
  "TLS_Refill env t s =
     (let c = t_cache s t in
      and_then
        (if chunkTop c \<noteq> 0 then
           let head = chunkTop c in
           and_then (deref (pool_heap s) head) (\<lambda>blk.
           Inr (s\<lparr>t_cache := (t_cache s)(t := c\<lparr>chunkTop := b_chunkNext blk,
                  chunkCount := chunkCount c - 1\<rparr>)\<rparr>, head))
         else Pool_PopChunk env s) (\<lambda>(s, head).
      and_then (deref (pool_heap s) head) (\<lambda>blk.
      Inr (s\<lparr>t_cache := (t_cache s)(t := (t_cache s t)\<lparr>cur := head, curCount := b_count blk\<rparr>)\<rparr>))))"

definition TLS_Seal :: "tid \<Rightarrow> 'a tls_pool \<Rightarrow> 'a tls_pool result" where
  "TLS_Seal t s =
     (let c = t_cache s t in
      and_then (store (pool_heap s) (cur c)
        (\<lambda>blk. blk\<lparr>b_count := curCount c, b_chunkNext := chunkTop c\<rparr>)) (\<lambda>h.
      let c = c\<lparr>chunkTop := cur c, chunkCount := chunkCount c + 1, cur := 0, curCount := 0\<rparr>;
          s = s\<lparr>pool_heap := h, t_cache := (t_cache s)(t := c)\<rparr> in
      if chunkCount c > TLS_MAX_CHUNKS then
        let give = chunkTop c in
        and_then (deref h give) (\<lambda>blk.
        Pool_PushChunk (s\<lparr>t_cache := (t_cache s)(t := c\<lparr>chunkTop := b_chunkNext blk,
          chunkCount := chunkCount c - 1\<rparr>)\<rparr>) give)
      else Inr s))"

text \<open>The object of a block and the block have one address in the model: \<open>ToStorage\<close> and
  \<open>ToBlock\<close> are inverse offsets.\<close>

definition TLS_Alloc :: "'a pool_env \<Rightarrow> tid \<Rightarrow> 'a tls_pool \<Rightarrow> ('a tls_pool \<times> u64) result" where
  "TLS_Alloc env t s =
     and_then (if cur (t_cache s t) = 0 then TLS_Refill env t s else Inr s) (\<lambda>s.
     let c = t_cache s t; b = cur c in
     and_then (deref (pool_heap s) b) (\<lambda>blk.
     let s = s\<lparr>t_cache := (t_cache s)(t := c\<lparr>cur := b_next blk, curCount := curCount c - 1\<rparr>)\<rparr> in
     and_then (Pool_ValidateAlloc s b) (\<lambda>s.
     and_then (if m_placementNew s
               then and_then (store (pool_heap s) b (\<lambda>blk. blk\<lparr>b_object := env_new env\<rparr>)) (\<lambda>h.
                    Inr (s\<lparr>pool_heap := h\<rparr>))
               else Inr s) (\<lambda>s.
     Inr (s, b)))))"

text \<open>The destructor call of placement-new pools runs no code of the pool and is left out.\<close>

definition TLS_Free :: "tid \<Rightarrow> u64 \<Rightarrow> 'a tls_pool \<Rightarrow> 'a tls_pool result" where
  "TLS_Free t b s =
     and_then (Pool_ValidateFree s b) (\<lambda>s.
     let c = t_cache s t in
     and_then (store (pool_heap s) b (\<lambda>blk. blk\<lparr>b_next := cur c\<rparr>)) (\<lambda>h.
     let c = c\<lparr>cur := b, curCount := curCount c + 1\<rparr>;
         s = s\<lparr>pool_heap := h, t_cache := (t_cache s)(t := c)\<rparr> in
     if curCount c = of_nat CHUNK_SIZE then TLS_Seal t s else Inr s))"

text \<open>
  The destructor of a thread's cache, at thread exit. The storage of the cache ends with the
  thread, so the model takes it out of the state first; the fuel bounds its stack of chunks.
\<close>

fun release_chunks :: "nat \<Rightarrow> u64 \<Rightarrow> 'a tls_pool \<Rightarrow> 'a tls_pool result" where
  "release_chunks fuel ct s =
     (if ct = 0 then Inr s
      else case fuel of 0 \<Rightarrow> Inl BadPointer
      | Suc fuel' \<Rightarrow>
        and_then (deref (pool_heap s) ct) (\<lambda>blk.
        and_then (Pool_PushChunk s ct) (\<lambda>s. release_chunks fuel' (b_chunkNext blk) s)))"

declare release_chunks.simps [simp del]

definition Cache_destruct :: "nat \<Rightarrow> tid \<Rightarrow> 'a tls_pool \<Rightarrow> 'a tls_pool result" where
  "Cache_destruct fuel t s =
     (let c = t_cache s t; s = s\<lparr>t_cache := (t_cache s)(t := empty_cache)\<rparr> in
      and_then
        (if cur c \<noteq> 0 then
           and_then (store (pool_heap s) (cur c) (\<lambda>blk. blk\<lparr>b_count := curCount c\<rparr>)) (\<lambda>h.
           Pool_PushChunk (s\<lparr>pool_heap := h\<rparr>) (cur c))
         else Inr s) (\<lambda>s.
      release_chunks fuel (chunkTop c) s))"

section \<open>The invariant\<close>

text \<open>
  Where the free blocks are: the current chunk of a thread, its sealed chunks, the shared stack,
  or in the hand of the running operation. A view maps every place to its chunks.
\<close>

datatype place = Cur tid | Sealed tid | Shared | Hand

type_synonym view = "place \<Rightarrow> u64 list list"

definition cells :: "view \<Rightarrow> place \<Rightarrow> u64 list" where
  "cells v p = concat (v p)"

definition free_set :: "view \<Rightarrow> u64 set" where
  "free_set v = (\<Union>p. set (cells v p))"

definition separated :: "view \<Rightarrow> bool" where
  "separated v \<longleftrightarrow> (\<forall>p. distinct (cells v p)) \<and>
     (\<forall>p q. p \<noteq> q \<longrightarrow> set (cells v p) \<inter> set (cells v q) = {})"

lemma cells_upd [simp]: "cells (v(p := l)) q = (if q = p then concat l else cells v q)"
  by (simp add: cells_def)

lemma separated_rearrange:
  assumes "separated v" and "p \<noteq> q"
    and m: "mset (concat l) + mset (concat k) = mset (cells v p) + mset (cells v q)"
  shows "separated (v(p := l, q := k)) \<and> free_set (v(p := l, q := k)) = free_set v"
proof -
  have "distinct (cells v p @ cells v q)"
    using assms(1,2) by (auto simp: separated_def)
  moreover have ms: "mset (concat l @ concat k) = mset (cells v p @ cells v q)"
    using m by simp
  ultimately have d: "distinct (concat l @ concat k)"
    using mset_eq_imp_distinct_iff by blast
  have st: "set (concat l) \<union> set (concat k) = set (cells v p) \<union> set (cells v q)"
    using mset_eq_setD[OF ms] by simp
  have d1: "distinct (concat l)" "distinct (concat k)"
    "set (concat l) \<inter> set (concat k) = {}"
    using d by (auto simp del: set_concat)
  have 1: "distinct (cells (v(p := l, q := k)) r)" for r
    using assms(1) d1(1,2) by (simp add: separated_def)
  have o1: "set (cells v p) \<inter> set (cells v r) = {}" if "r \<noteq> p" for r
    using assms(1) that by (metis separated_def)
  have o2: "set (cells v q) \<inter> set (cells v r) = {}" if "r \<noteq> q" for r
    using assms(1) that by (metis separated_def)
  have o3: "set (cells v r) \<inter> set (cells v r') = {}" if "r \<noteq> r'" for r r'
    using assms(1) that by (metis separated_def)
  have "set (concat l) \<inter> set (cells v r) = {}" "set (concat k) \<inter> set (cells v r) = {}"
    if "r \<noteq> p" "r \<noteq> q" for r
    using st o1[OF that(1)] o2[OF that(2)] by blast+
  then have 2: "set (cells (v(p := l, q := k)) r) \<inter> set (cells (v(p := l, q := k)) r') = {}"
    if "r \<noteq> r'" for r r'
    using that d1(3) o3[OF that] \<open>p \<noteq> q\<close> by (auto simp del: set_concat simp: Int_commute)
  have f: "free_set w = set (cells w p) \<union> set (cells w q)
      \<union> (\<Union>r\<in>{r. r \<noteq> p \<and> r \<noteq> q}. set (cells w r))" for w
    by (auto simp: free_set_def)
  have "(\<Union>r\<in>{r. r \<noteq> p \<and> r \<noteq> q}. set (cells (v(p := l, q := k)) r))
      = (\<Union>r\<in>{r. r \<noteq> p \<and> r \<noteq> q}. set (cells v r))"
    by simp
  then have "free_set (v(p := l, q := k)) = free_set v"
    unfolding f using st \<open>p \<noteq> q\<close> by (simp del: set_concat)
  with 1 2 show ?thesis by (auto simp: separated_def simp del: cells_upd)
qed

lemma separated_put:
  assumes "separated v" and "cells v Hand = []" and "distinct (concat l)"
    and "set (concat l) \<inter> free_set v = {}"
  shows "separated (v(Hand := l)) \<and> free_set (v(Hand := l)) = free_set v \<union> set (concat l)"
proof -
  have dis: "set (concat l) \<inter> set (cells v p) = {}" for p
    using assms(4) by (auto simp: free_set_def)
  have "separated (v(Hand := l))"
    using assms(1,3) dis by (auto simp: separated_def simp del: set_concat)
  moreover
  have "x \<in> free_set w \<longleftrightarrow> x \<in> set (cells w Hand) \<or> (\<exists>p. p \<noteq> Hand \<and> x \<in> set (cells w p))"
    for x w
  proof -
    have "x \<in> free_set w \<longleftrightarrow> (\<exists>p. x \<in> set (cells w p))" by (simp add: free_set_def)
    then show ?thesis by metis
  qed
  note f = this
  have "x \<in> free_set (v(Hand := l)) \<longleftrightarrow> x \<in> free_set v \<union> set (concat l)" for x
    unfolding Un_iff f[of x "v(Hand := l)"] f[of x v] using assms(2) by (simp del: set_concat) blast
  ultimately show ?thesis by blast
qed

lemma separated_take:
  assumes "separated v"
  shows "separated (v(Hand := [])) \<and> free_set (v(Hand := [])) = free_set v - set (cells v Hand)"
proof -
  have dis: "x \<in> set (cells v Hand) \<Longrightarrow> x \<in> set (cells v p) \<Longrightarrow> p = Hand" for x p
    using assms unfolding separated_def by blast
  have "separated (v(Hand := []))"
    using assms by (auto simp: separated_def)
  moreover have "free_set (v(Hand := [])) = free_set v - set (cells v Hand)"
    using dis by (auto simp: free_set_def split: if_splits)
  ultimately show ?thesis by blast
qed

fun chain :: "'a heap \<Rightarrow> u64 list \<Rightarrow> u64 \<Rightarrow> bool" where
  "chain h [] a \<longleftrightarrow> a = 0"
| "chain h (x # xs) a \<longleftrightarrow> a = x \<and> x \<noteq> 0 \<and> (\<exists>b. h x = Some b \<and> chain h xs (b_next b))"

fun chunks :: "'a heap \<Rightarrow> u64 list list \<Rightarrow> u64 \<Rightarrow> bool" where
  "chunks h [] a \<longleftrightarrow> a = 0"
| "chunks h (c # cs) a \<longleftrightarrow> c \<noteq> [] \<and> length c \<le> CHUNK_SIZE \<and> chain h c a \<and>
     (\<exists>b. h a = Some b \<and> b_count b = of_nat (length c) \<and> chunks h cs (b_chunkNext b))"

lemma chain_cong:
  "\<forall>x\<in>set xs. map_option b_next (h' x) = map_option b_next (h x) \<Longrightarrow> chain h' xs a = chain h xs a"
  by (induction xs arbitrary: a) (auto simp: map_option_eq_Some, (metis (no_types, lifting) map_option_eq_Some option.simps(9))+)

lemma chain_head: "chain h xs a \<Longrightarrow> a \<noteq> 0 \<Longrightarrow> \<exists>ys. xs = a # ys"
  by (cases xs) auto

lemma chain_hd: "chain h xs a \<Longrightarrow> xs \<noteq> [] \<Longrightarrow> hd xs = a \<and> a \<noteq> 0"
  by (cases xs) auto

definition lnk :: "'a block \<Rightarrow> u64 \<times> u64 \<times> u32" where
  "lnk b = (b_next b, b_chunkNext b, b_count b)"

lemma next_of_lnk: "map_option b_next z = map_option fst (map_option lnk z)"
  by (simp add: option.map_comp comp_def lnk_def)

lemma chunks_cong:
  "\<forall>x\<in>set (concat cs). map_option lnk (h' x) = map_option lnk (h x) \<Longrightarrow>
   chunks h' cs a = chunks h cs a"
proof (induction cs arbitrary: a)
  case (Cons c cs)
  have c: "chain h' c a = chain h c a"
    by (rule chain_cong) (use Cons.prems in \<open>simp add: next_of_lnk\<close>)
  have IH: "chunks h' cs x = chunks h cs x" for x
    by (rule Cons.IH) (use Cons.prems in simp)
  have "map_option lnk (h' a) = map_option lnk (h a)" if "chain h c a" "c \<noteq> []"
  proof -
    have "a \<in> set c" using chain_hd[OF that] that(2) by auto
    then show ?thesis using Cons.prems by simp
  qed
  then have "(\<exists>b. h' a = Some b \<and> b_count b = n \<and> chunks h cs (b_chunkNext b)) \<longleftrightarrow>
      (\<exists>b. h a = Some b \<and> b_count b = n \<and> chunks h cs (b_chunkNext b))"
    if "chain h c a" "c \<noteq> []" for n
    using that by (cases "h a"; cases "h' a") (auto simp: lnk_def)
  then show ?case using c IH by auto
qed simp

definition block_ok :: "u64 \<Rightarrow> u64 \<Rightarrow> 'a block \<Rightarrow> bool" where
  "block_ok this a b \<longleftrightarrow> a \<noteq> 0 \<and> user_ptr a \<and> b_owner b = this \<and> b_frontGuard b = this \<and>
     b_backGuard b = this \<and> (b_useFlag b = 0 \<or> b_useFlag b = 1)"

definition heap_ok :: "u64 \<Rightarrow> 'a heap \<Rightarrow> bool" where
  "heap_ok this h \<longleftrightarrow> finite (dom h) \<and> (\<forall>a b. h a = Some b \<longrightarrow> block_ok this a b)"

definition links :: "'a tls_pool \<Rightarrow> view \<Rightarrow> bool" where
  "links s v \<longleftrightarrow>
     (\<forall>t. chain (pool_heap s) (cells v (Cur t)) (cur (t_cache s t)) \<and>
          curCount (t_cache s t) = of_nat (length (cells v (Cur t)))) \<and>
     (\<forall>t. chunks (pool_heap s) (v (Sealed t)) (chunkTop (t_cache s t)) \<and>
          chunkCount (t_cache s t) = of_nat (length (v (Sealed t)))) \<and>
     chunks (pool_heap s) (v Shared) (Pool_GetPointer (m_top s))"

definition in_use :: "'a tls_pool \<Rightarrow> u64 set" where
  "in_use s = {a. \<exists>b. pool_heap s a = Some b \<and> b_useFlag b = 1}"

definition shape :: "'a tls_pool \<Rightarrow> view \<Rightarrow> bool" where
  "shape s v \<longleftrightarrow> heap_ok (pool_this s) (pool_heap s) \<and> links s v \<and> separated v \<and>
     free_set v = {a. \<exists>b. pool_heap s a = Some b \<and> b_useFlag b = 0} \<and>
     Pool_GetCapacityCount s = of_nat (card (dom (pool_heap s)))"

text \<open>What an operation leaves alone: the constants of the pool and the blocks in use.\<close>

definition frame :: "'a tls_pool \<Rightarrow> 'a tls_pool \<Rightarrow> bool" where
  "frame s s' \<longleftrightarrow> pool_this s' = pool_this s \<and> m_placementNew s' = m_placementNew s \<and>
     m_maxChunks s' = m_maxChunks s \<and> in_use s' = in_use s \<and>
     dom (pool_heap s) \<subseteq> dom (pool_heap s') \<and>
     (\<forall>a\<in>in_use s. pool_heap s' a = pool_heap s a)"

lemma frame_refl [simp]: "frame s s"
  by (simp add: frame_def)

lemma frame_trans: "frame s s' \<Longrightarrow> frame s' s'' \<Longrightarrow> frame s s''"
  by (simp add: frame_def) blast

lemma shape_free:
  assumes "shape s v" and "x \<in> set (cells v p)"
  shows "x \<noteq> 0" "user_ptr x" "\<exists>b. pool_heap s x = Some b \<and> b_useFlag b = 0 \<and>
    b_owner b = pool_this s \<and> b_frontGuard b = pool_this s \<and> b_backGuard b = pool_this s"
proof -
  have "x \<in> free_set v" using assms(2) by (auto simp: free_set_def)
  then obtain b where b: "pool_heap s x = Some b" "b_useFlag b = 0"
    using assms(1) by (auto simp: shape_def)
  then have "block_ok (pool_this s) x b"
    using assms(1) by (auto simp: shape_def heap_ok_def)
  then show "x \<noteq> 0" "user_ptr x" "\<exists>b. pool_heap s x = Some b \<and> b_useFlag b = 0 \<and>
    b_owner b = pool_this s \<and> b_frontGuard b = pool_this s \<and> b_backGuard b = pool_this s"
    using b by (auto simp: block_ok_def)
qed

lemma shape_used:
  assumes "shape s v" and "x \<in> in_use s"
  shows "x \<noteq> 0" "x \<notin> free_set v" "user_ptr x" "\<exists>b. pool_heap s x = Some b \<and> b_useFlag b = 1 \<and>
    b_owner b = pool_this s \<and> b_frontGuard b = pool_this s \<and> b_backGuard b = pool_this s"
proof -
  obtain b where b: "pool_heap s x = Some b" "b_useFlag b = 1"
    using assms(2) by (auto simp: in_use_def)
  then have "block_ok (pool_this s) x b"
    using assms(1) by (auto simp: shape_def heap_ok_def)
  then show "x \<noteq> 0" "user_ptr x" "\<exists>b. pool_heap s x = Some b \<and> b_useFlag b = 1 \<and>
    b_owner b = pool_this s \<and> b_frontGuard b = pool_this s \<and> b_backGuard b = pool_this s"
    using b by (auto simp: block_ok_def)
  show "x \<notin> free_set v" using assms(1) b by (auto simp: shape_def)
qed

lemma deref_ok: "a \<noteq> 0 \<Longrightarrow> h a = Some b \<Longrightarrow> deref h a = Inr b"
  by (simp add: deref_def)

lemma deref_Inr_iff: "deref h a = Inr b \<longleftrightarrow> a \<noteq> 0 \<and> h a = Some b"
  by (simp add: deref_def split: option.split)

lemma store_ok: "a \<noteq> 0 \<Longrightarrow> h a = Some b \<Longrightarrow> store h a f = Inr (h(a \<mapsto> f b))"
  by (simp add: store_def deref_def)

text \<open>Links survive a change of the heap that keeps the links of the blocks in the places.\<close>

lemma links_heap:
  assumes "links s v"
    and "\<And>t x. x \<in> set (cells v (Cur t)) \<Longrightarrow> map_option b_next (h x) = map_option b_next (pool_heap s x)"
    and "\<And>p x. p = Shared \<or> (\<exists>t. p = Sealed t) \<Longrightarrow> x \<in> set (cells v p) \<Longrightarrow>
      map_option lnk (h x) = map_option lnk (pool_heap s x)"
  shows "links (s\<lparr>pool_heap := h\<rparr>) v"
proof -
  have "chain h (cells v (Cur t)) a = chain (pool_heap s) (cells v (Cur t)) a" for t a
    by (rule chain_cong) (use assms(2) in blast)
  moreover have "chunks h (v p) a = chunks (pool_heap s) (v p) a"
    if "p = Shared \<or> (\<exists>t. p = Sealed t)" for p a
    by (rule chunks_cong) (use assms(3)[OF that] in \<open>simp add: cells_def\<close>)
  ultimately show ?thesis using assms(1) by (simp add: links_def)
qed

text \<open>A store to a free block that is in the hand: the invariant holds if flag, owner and guards
  are kept.\<close>

lemma shape_store_hand:
  assumes s: "shape s v" and a: "a \<in> set (cells v Hand)" and b: "pool_heap s a = Some b"
    and f: "b_useFlag (f b) = b_useFlag b" "b_owner (f b) = b_owner b"
      "b_frontGuard (f b) = b_frontGuard b" "b_backGuard (f b) = b_backGuard b"
  shows "store (pool_heap s) a f = Inr ((pool_heap s)(a \<mapsto> f b))"
    and "shape (s\<lparr>pool_heap := (pool_heap s)(a \<mapsto> f b)\<rparr>) v"
    and "frame s (s\<lparr>pool_heap := (pool_heap s)(a \<mapsto> f b)\<rparr>)"
proof -
  have a0: "a \<noteq> 0" using shape_free[OF s a] by simp
  show "store (pool_heap s) a f = Inr ((pool_heap s)(a \<mapsto> f b))"
    using a0 b by (rule store_ok)
  have ne: "x \<noteq> a" if "x \<in> set (cells v p)" "p \<noteq> Hand" for x p
    using s a that unfolding shape_def separated_def by blast
  have "links (s\<lparr>pool_heap := (pool_heap s)(a \<mapsto> f b)\<rparr>) v"
    by (rule links_heap) (use s ne in \<open>auto simp: shape_def\<close>)
  moreover have "heap_ok (pool_this s) ((pool_heap s)(a \<mapsto> f b))"
    using s b f by (auto simp: shape_def heap_ok_def block_ok_def)
  moreover have "dom ((pool_heap s)(a \<mapsto> f b)) = dom (pool_heap s)" using b by auto
  moreover have "{x. \<exists>c. ((pool_heap s)(a \<mapsto> f b)) x = Some c \<and> b_useFlag c = 0}
      = {x. \<exists>c. pool_heap s x = Some c \<and> b_useFlag c = 0}"
    using b f by auto
  ultimately show "shape (s\<lparr>pool_heap := (pool_heap s)(a \<mapsto> f b)\<rparr>) v"
    using s by (simp add: shape_def Pool_GetCapacityCount_def)
  show "frame s (s\<lparr>pool_heap := (pool_heap s)(a \<mapsto> f b)\<rparr>)"
    using b f s shape_free(3)[OF s a] by (auto simp: frame_def in_use_def)
qed

lemma PushChunk_shape:
  assumes s: "shape s v" and hand: "v Hand = c # hs" and ch: "chain (pool_heap s) c head"
    and c: "c \<noteq> []" "length c \<le> CHUNK_SIZE"
    and cnt: "map_option b_count (pool_heap s head) = Some (of_nat (length c))"
  shows "\<exists>s'. Pool_PushChunk s head = Inr s' \<and> shape s' (v(Hand := hs, Shared := c # v Shared)) \<and>
    frame s s' \<and> t_cache s' = t_cache s \<and> m_chunkCount s' = m_chunkCount s \<and>
    (\<forall>x. x \<noteq> head \<longrightarrow> pool_heap s' x = pool_heap s x)"
proof -
  have hd: "head \<in> set c" "head \<noteq> 0" using chain_hd[OF ch c(1)] c(1) by auto
  have mem: "head \<in> set (cells v Hand)" using hd hand by (simp add: cells_def)
  obtain b where b: "pool_heap s head = Some b" and bc: "b_count b = of_nat (length c)"
    using cnt by auto
  let ?f = "\<lambda>blk. blk\<lparr>b_chunkNext := Pool_GetPointer (m_top s)\<rparr>"
  let ?h = "(pool_heap s)(head \<mapsto> ?f b)"
  have st: "store (pool_heap s) head ?f = Inr ?h"
    "shape (s\<lparr>pool_heap := ?h\<rparr>) v" "frame s (s\<lparr>pool_heap := ?h\<rparr>)"
    by (rule shape_store_hand[OF s mem b]; simp)+
  define s' where "s' = s\<lparr>pool_heap := ?h, m_top := Pool_MakeTagged (Pool_GetTag (m_top s) + 1) head\<rparr>"
  have eq: "Pool_PushChunk s head = Inr s'"
    using st(1) by (simp add: Pool_PushChunk_def s'_def Let_def)
  let ?v = "v(Hand := hs, Shared := c # v Shared)"
  have sep: "separated ?v \<and> free_set ?v = free_set v"
    by (rule separated_rearrange) (use s hand in \<open>auto simp: shape_def cells_def\<close>)
  have chc: "chain ?h c head"
    using ch by (subst chain_cong[where h = "pool_heap s"]) (auto simp: b)
  have "chunks ?h (c # v Shared) head"
    using c hd chc bc st(2) by (simp add: shape_def links_def)
  moreover have "user_ptr head" using shape_free(2)[OF s mem] .
  ultimately have "links s' ?v"
    using st(2) by (simp add: shape_def links_def s'_def)
  then have "shape s' ?v"
    using st(2) sep by (simp add: shape_def s'_def Pool_GetCapacityCount_def)
  moreover have "frame s s'"
    using st(3) by (simp add: frame_def s'_def in_use_def)
  ultimately show ?thesis using eq by (simp add: s'_def)
qed

section \<open>New chunks\<close>

definition chunk_addrs :: "'a pool_env \<Rightarrow> u64 \<Rightarrow> u64 list" where
  "chunk_addrs env mem = map (\<lambda>i. mem + of_nat i * env_sizeof env) [0..<CHUNK_SIZE]"

text \<open>What is relied on of \<open>_aligned_malloc\<close>: the blocks of an allocated chunk are distinct
  user-space addresses that are not in use by the heap.\<close>

definition malloc_spec :: "'a pool_env \<Rightarrow> bool" where
  "malloc_spec env \<longleftrightarrow> (\<forall>u. env_malloc env u \<noteq> 0 \<longrightarrow>
     distinct (chunk_addrs env (env_malloc env u)) \<and>
     (\<forall>a\<in>set (chunk_addrs env (env_malloc env u)). a \<noteq> 0 \<and> user_ptr a \<and> \<not> u a))"

definition can_grow :: "'a pool_env \<Rightarrow> 'a tls_pool \<Rightarrow> bool" where
  "can_grow env s \<longleftrightarrow> env_malloc env (taken (pool_heap s)) \<noteq> 0 \<and>
     (m_maxChunks s = 0 \<or> sint (m_chunkCount s + 1) \<le> sint (m_maxChunks s))"

lemma NewChunk_loop_spec:
  fixes env :: "'a pool_env" and mem :: u64
  defines "addr \<equiv> \<lambda>i::nat. mem + of_nat i * env_sizeof env"
  assumes "chain h xs head" and "distinct (map addr [0..<n] @ xs)" and "0 \<notin> set (map addr [0..<n])"
    and "NewChunk_loop env this mem n head h = (head', h')"
  shows "chain h' (map addr [0..<n] @ xs) head' \<and>
    (\<forall>x. x \<notin> set (map addr [0..<n]) \<longrightarrow> h' x = h x) \<and>
    (\<forall>x\<in>set (map addr [0..<n]). \<exists>b. h' x = Some b \<and> b_useFlag b = 0 \<and>
       b_owner b = this \<and> b_frontGuard b = this \<and> b_backGuard b = this)"
  using assms(2-5)
proof (induction n arbitrary: head h xs)
  case (Suc n)
  let ?b = "mem + of_nat n * env_sizeof env"
  let ?blk = "(env_fresh env)\<lparr>b_next := head, b_chunkNext := 0, b_useFlag := 0,
    b_owner := this, b_frontGuard := this, b_backGuard := this\<rparr>"
  have b: "?b = addr n" by (simp add: addr_def)
  have loop: "NewChunk_loop env this mem n ?b (h(?b \<mapsto> ?blk)) = (head', h')"
    using Suc.prems(4) by (simp add: Let_def)
  have "?b \<notin> set xs" using Suc.prems(2) b by auto
  then have "chain (h(?b \<mapsto> ?blk)) xs head"
    using Suc.prems(1) by (subst chain_cong[where h = h]) auto
  then have c: "chain (h(?b \<mapsto> ?blk)) (addr n # xs) ?b"
    using Suc.prems(3) b by simp
  have d: "distinct (map addr [0..<n] @ addr n # xs)" "0 \<notin> set (map addr [0..<n])"
    using Suc.prems(2,3) by simp_all
  note IH = Suc.IH[OF c d loop]
  have nm: "?b \<notin> set (map addr [0..<n])" using d(1) b by simp
  have "h' ?b = Some ?blk" using IH nm by simp
  then have nb: "\<exists>c. h' (addr n) = Some c \<and> b_useFlag c = 0 \<and> b_owner c = this \<and>
      b_frontGuard c = this \<and> b_backGuard c = this" using b by simp
  have S: "map addr [0..<Suc n] @ xs = map addr [0..<n] @ addr n # xs" by simp
  have A: "chain h' (map addr [0..<Suc n] @ xs) head'" unfolding S using IH by blast
  have B: "h' x = h x" if "x \<notin> set (map addr [0..<Suc n])" for x
  proof -
    have "x \<notin> set (map addr [0..<n])" "x \<noteq> ?b" using that b by auto
    then show ?thesis using IH by simp
  qed
  have C: "\<exists>c. h' x = Some c \<and> b_useFlag c = 0 \<and> b_owner c = this \<and>
      b_frontGuard c = this \<and> b_backGuard c = this" if "x \<in> set (map addr [0..<Suc n])" for x
  proof (cases "x = addr n")
    case False
    then have "x \<in> set (map addr [0..<n])" using that by (auto simp: less_Suc_eq)
    then show ?thesis using IH by blast
  qed (use nb in simp)
  from A B C show ?case by blast
qed simp

lemma construct_loop_spec:
  assumes "chain h xs a" and "distinct xs" and "length xs \<le> fuel"
  shows "\<exists>h'. construct_loop env fuel a h = Inr h' \<and>
    (\<forall>x. h' x = (if x \<in> set xs then map_option (\<lambda>b. b\<lparr>b_object := env_new env\<rparr>) (h x) else h x))"
  using assms
proof (induction xs arbitrary: a h fuel)
  case Nil
  then show ?case by (simp add: construct_loop.simps)
next
  case (Cons x xs)
  then obtain f' where f: "fuel = Suc f'" "length xs \<le> f'" by (cases fuel) auto
  obtain b where b: "a = x" "x \<noteq> 0" "h x = Some b" "chain h xs (b_next b)"
    using Cons.prems(1) by auto
  let ?h = "h(x \<mapsto> b\<lparr>b_object := env_new env\<rparr>)"
  have "chain ?h xs (b_next b)"
    using b(4) Cons.prems(2) by (subst chain_cong[where h = h]) auto
  moreover have "distinct xs" using Cons.prems(2) by simp
  ultimately have "\<exists>h'. construct_loop env f' (b_next b) ?h = Inr h' \<and>
    (\<forall>y. h' y = (if y \<in> set xs then map_option (\<lambda>b. b\<lparr>b_object := env_new env\<rparr>) (?h y) else ?h y))"
    using f(2) by (rule Cons.IH)
  then obtain h' where h': "construct_loop env f' (b_next b) ?h = Inr h'"
    "\<forall>y. h' y = (if y \<in> set xs then map_option (\<lambda>b. b\<lparr>b_object := env_new env\<rparr>) (?h y) else ?h y)"
    by (elim exE conjE)
  have "construct_loop env fuel a h = Inr h'"
    using b f h'(1) by (subst construct_loop.simps) (simp add: store_ok deref_ok)
  then show ?case using h'(2) b Cons.prems(2) by auto
qed

lemma NewChunk_shape:
  assumes s: "shape s v" and hand: "v Hand = []" and mal: "malloc_spec env" and grow: "can_grow env s"
  shows "\<exists>s' head c. Pool_NewChunk env s = Inr (s', head) \<and> shape s' (v(Hand := [c])) \<and> frame s s' \<and>
    t_cache s' = t_cache s \<and> chain (pool_heap s') c head \<and> c \<noteq> [] \<and> length c = CHUNK_SIZE \<and>
    map_option b_count (pool_heap s' head) = Some (of_nat CHUNK_SIZE) \<and>
    m_chunkCount s' = m_chunkCount s + 1"
proof -
  let ?mem = "env_malloc env (taken (pool_heap s))"
  let ?c = "chunk_addrs env ?mem"
  have m0: "?mem \<noteq> 0" using grow by (simp add: can_grow_def)
  have dis: "distinct ?c" and f0: "\<And>a. a \<in> set ?c \<Longrightarrow> a \<noteq> 0 \<and> user_ptr a \<and> \<not> taken (pool_heap s) a"
    using mal m0 unfolding malloc_spec_def by blast+
  have fresh: "\<And>a. a \<in> set ?c \<Longrightarrow> a \<noteq> 0 \<and> user_ptr a \<and> pool_heap s a = None"
    using f0 by (simp add: taken_def)
  have len: "length ?c = CHUNK_SIZE" by (simp add: chunk_addrs_def)
  have ne: "?c \<noteq> []" using len by (auto simp: CHUNK_SIZE_def)
  obtain head h1 where loop:
    "NewChunk_loop env (pool_this s) ?mem CHUNK_SIZE 0 (pool_heap s) = (head, h1)"
    by (cases "NewChunk_loop env (pool_this s) ?mem CHUNK_SIZE 0 (pool_heap s)")
  have n0: "0 \<notin> set ?c" using fresh by blast
  have c1: "chain h1 ?c head" and o1: "\<And>x. x \<notin> set ?c \<Longrightarrow> h1 x = pool_heap s x"
    and b1: "\<And>x. x \<in> set ?c \<Longrightarrow> \<exists>b. h1 x = Some b \<and> b_useFlag b = 0 \<and>
       b_owner b = pool_this s \<and> b_frontGuard b = pool_this s \<and> b_backGuard b = pool_this s"
    using NewChunk_loop_spec[where xs = "[]" and h = "pool_heap s" and head = 0, OF _ _ _ loop] dis n0
    by (auto simp: chunk_addrs_def simp del: set_map)
  have hd: "head \<in> set ?c" "head \<noteq> 0" using chain_hd[OF c1 ne] ne by auto
  obtain bh where bh: "h1 head = Some bh" using b1[OF hd(1)] by blast
  let ?h2 = "h1(head \<mapsto> bh\<lparr>b_count := of_nat CHUNK_SIZE\<rparr>)"
  have st: "store h1 head (\<lambda>blk. blk\<lparr>b_count := of_nat CHUNK_SIZE\<rparr>) = Inr ?h2"
    using hd(2) bh by (rule store_ok)
  have c2: "chain ?h2 ?c head"
    using c1 bh by (subst chain_cong[where h = h1]) auto
  obtain h3 where h3: "(if \<not> m_placementNew s then construct_loop env CHUNK_SIZE head ?h2 else Inr ?h2) = Inr h3"
    and h3': "\<And>x. x \<in> set ?c \<Longrightarrow> (\<exists>o'. h3 x = map_option (\<lambda>b. b\<lparr>b_object := o'\<rparr>) (?h2 x)) \<or> h3 x = ?h2 x"
      "\<And>x. x \<notin> set ?c \<Longrightarrow> h3 x = ?h2 x"
  proof (cases "m_placementNew s")
    case False
    obtain h' where "construct_loop env CHUNK_SIZE head ?h2 = Inr h'"
      "\<forall>x. h' x = (if x \<in> set ?c then map_option (\<lambda>b. b\<lparr>b_object := env_new env\<rparr>) (?h2 x) else ?h2 x)"
      using construct_loop_spec[OF c2 dis, of CHUNK_SIZE env] len by auto
    with False show ?thesis by (intro that[of h']) auto
  qed (use that in auto)
  have same: "map_option lnk (h3 x) = map_option lnk (?h2 x)" for x
    using h3'[of x] by (cases "x \<in> set ?c") (auto simp: lnk_def[abs_def] option.map_comp comp_def)
  have b3: "\<exists>b. h3 x = Some b \<and> b_useFlag b = 0 \<and> b_owner b = pool_this s \<and>
      b_frontGuard b = pool_this s \<and> b_backGuard b = pool_this s" if "x \<in> set ?c" for x
    using b1[OF that] bh h3'(1)[OF that] by (cases "x = head") auto
  have o3: "h3 x = pool_heap s x" if "x \<notin> set ?c" for x
  proof -
    have "x \<noteq> head" using that hd by blast
    then show ?thesis using h3'(2)[OF that] o1[OF that] by simp
  qed
  define s' where "s' = s\<lparr>m_chunkCount := m_chunkCount s + 1, pool_heap := h3\<rparr>"
  have eq: "Pool_NewChunk env s = Inr (s', head)"
    using grow m0 st h3 loop
    by (auto simp: Pool_NewChunk_def check_def can_grow_def s'_def Let_def)
  have fr: "x \<notin> set ?c" if "x \<in> free_set v" for x
    using fresh[of x] s that by (auto simp: shape_def)
  have sep: "separated (v(Hand := [?c])) \<and> free_set (v(Hand := [?c])) = free_set v \<union> set ?c"
    using separated_put[of v "[?c]"] s hand dis fr by (auto simp: shape_def cells_def)
  have dm: "dom h3 = dom (pool_heap s) \<union> set ?c"
    using o3 b3 by (auto simp: dom_def) metis
  have "card (dom h3) = card (dom (pool_heap s)) + CHUNK_SIZE"
    unfolding dm using s fresh len distinct_card[OF dis]
    by (subst card_Un_disjoint) (auto simp: shape_def heap_ok_def)
  then have cap: "Pool_GetCapacityCount s' = of_nat (card (dom h3))"
    using s by (simp add: shape_def Pool_GetCapacityCount_def s'_def algebra_simps)
  have keep: "x \<notin> set ?c" if "x \<in> set (cells v p)" for x p
    using fr that by (auto simp: free_set_def)
  have "links (s\<lparr>pool_heap := h3\<rparr>) v"
    by (rule links_heap) (use s keep o3 in \<open>auto simp: shape_def\<close>)
  then have ln: "links s' (v(Hand := [?c]))"
    by (simp add: links_def s'_def)
  have ho: "heap_ok (pool_this s) h3"
    unfolding heap_ok_def
  proof (intro conjI allI impI)
    show "finite (dom h3)" using dm s by (simp add: shape_def heap_ok_def)
    fix a b assume ab: "h3 a = Some b"
    show "block_ok (pool_this s) a b"
    proof (cases "a \<in> set ?c")
      case True
      then show ?thesis using b3[of a] ab fresh[of a] by (auto simp: block_ok_def)
    next
      case False
      then have "pool_heap s a = Some b" using o3[of a] ab by simp
      then show ?thesis using s unfolding shape_def heap_ok_def by blast
    qed
  qed
  have fl: "free_set v \<union> set ?c = {a. \<exists>b. h3 a = Some b \<and> b_useFlag b = 0}"
  proof (intro set_eqI)
    fix x
    have "x \<in> free_set v \<longleftrightarrow> (\<exists>b. pool_heap s x = Some b \<and> b_useFlag b = 0)"
      using s by (auto simp: shape_def)
    then show "x \<in> free_set v \<union> set ?c \<longleftrightarrow> x \<in> {a. \<exists>b. h3 a = Some b \<and> b_useFlag b = 0}"
      using b3[of x] o3[of x] by (cases "x \<in> set ?c") auto
  qed
  have sh: "shape s' (v(Hand := [?c]))"
    using ho ln sep fl cap by (simp add: shape_def s'_def)
  have "in_use s' = in_use s"
    using b3 o3 fresh by (auto simp: in_use_def s'_def) (metis option.distinct(1) option.inject zero_neq_one)+
  moreover have "\<forall>a\<in>in_use s. h3 a = pool_heap s a"
    using o3 fresh by (force simp: in_use_def)
  ultimately have "frame s s'" using dm by (simp add: frame_def s'_def)
  moreover have "chain h3 ?c head"
    using c2 by (subst chain_cong[where h = ?h2]) (auto simp: next_of_lnk same simp del: fun_upd_apply)
  moreover have "map_option b_count (h3 head) = Some (of_nat CHUNK_SIZE)"
    using same[of head] by (auto simp: lnk_def)
  ultimately show ?thesis using eq sh len ne by (intro exI[of _ s'] exI[of _ head] exI[of _ ?c]) (simp add: s'_def)
qed

section \<open>Taking a chunk\<close>

lemma chunks_cons_ptr:
  assumes s: "shape s v" and "chunks (pool_heap s) cs a" and "set (concat cs) \<subseteq> set (cells v p)"
  shows "user_ptr a"
proof (cases cs)
  case (Cons c cs')
  then have "hd c = a \<and> c \<noteq> []" using assms(2) chain_hd[of "pool_heap s" c a] by simp
  then have "a \<in> set (concat cs)" using Cons hd_in_set[of c] by auto
  then show ?thesis using assms(3) shape_free(2)[OF s] by blast
qed (use assms(2) in simp)

definition in_hand :: "'a tls_pool \<Rightarrow> u64 list \<Rightarrow> u64 \<Rightarrow> bool" where
  "in_hand s c head \<longleftrightarrow> chain (pool_heap s) c head \<and> c \<noteq> [] \<and> length c \<le> CHUNK_SIZE \<and>
     map_option b_count (pool_heap s head) = Some (of_nat (length c))"

lemma chunks_Cons_hand:
  "chunks (pool_heap s) (c # cs) a \<longleftrightarrow> in_hand s c a \<and>
     (\<exists>b. pool_heap s a = Some b \<and> chunks (pool_heap s) cs (b_chunkNext b))"
  by (auto simp: in_hand_def)

lemma chunks_cases:
  assumes "chunks (pool_heap s) cs a" and "a \<noteq> 0"
  obtains c cs' b where "cs = c # cs'" "in_hand s c a" "pool_heap s a = Some b"
    "chunks (pool_heap s) cs' (b_chunkNext b)"
  using assms by (cases cs) (auto simp: in_hand_def)

lemma chunks_zero: "chunks h cs 0 \<Longrightarrow> cs = []"
  by (cases cs) (auto dest: chain_hd)

lemma PopChunk_shape:
  assumes s: "shape s v" and hand: "v Hand = []" and mal: "malloc_spec env"
    and grow: "Pool_GetPointer (m_top s) \<noteq> 0 \<or> can_grow env s"
  shows "\<exists>s' head c v'. Pool_PopChunk env s = Inr (s', head) \<and> shape s' v' \<and> v' Hand = [c] \<and>
    (\<forall>t. v' (Cur t) = v (Cur t) \<and> v' (Sealed t) = v (Sealed t)) \<and> frame s s' \<and>
    t_cache s' = t_cache s \<and> in_hand s' c head \<and>
    (Pool_GetPointer (m_top s) = 0 \<longrightarrow> length c = CHUNK_SIZE)"
proof (cases "Pool_GetPointer (m_top s) = 0")
  case True
  then obtain s' head c where "Pool_NewChunk env s = Inr (s', head)" "shape s' (v(Hand := [c]))"
    "frame s s'" "t_cache s' = t_cache s" "chain (pool_heap s') c head" "c \<noteq> []"
    "length c = CHUNK_SIZE" "map_option b_count (pool_heap s' head) = Some (of_nat CHUNK_SIZE)"
    using NewChunk_shape[OF s hand mal] grow by blast
  then show ?thesis using True
    by (intro exI[of _ s'] exI[of _ head] exI[of _ c] exI[of _ "v(Hand := [c])"])
      (simp add: Pool_PopChunk_def in_hand_def)
next
  case False
  let ?head = "Pool_GetPointer (m_top s)"
  have "chunks (pool_heap s) (v Shared) ?head" using s by (simp add: shape_def links_def)
  then obtain c cs b where c: "v Shared = c # cs" "in_hand s c ?head" "pool_heap s ?head = Some b"
    "chunks (pool_heap s) cs (b_chunkNext b)"
    using False by (rule chunks_cases)
  define s' where "s' = s\<lparr>m_top := Pool_MakeTagged (Pool_GetTag (m_top s) + 1) (b_chunkNext b)\<rparr>"
  have eq: "Pool_PopChunk env s = Inr (s', ?head)"
    using False c(3) by (simp add: Pool_PopChunk_def deref_ok s'_def Let_def)
  let ?v = "v(Shared := cs, Hand := [c])"
  have sep: "separated ?v \<and> free_set ?v = free_set v"
    by (rule separated_rearrange) (use s hand c(1) in \<open>auto simp: shape_def cells_def\<close>)
  have "user_ptr (b_chunkNext b)"
    by (rule chunks_cons_ptr[OF s c(4), of Shared]) (use c(1) in \<open>auto simp: cells_def\<close>)
  then have "links s' ?v"
    using s c(4) by (simp add: shape_def links_def s'_def)
  then have "shape s' ?v" using s sep by (simp add: shape_def s'_def Pool_GetCapacityCount_def)
  moreover have "frame s s'" by (simp add: frame_def s'_def in_use_def)
  moreover have "in_hand s' c ?head" using c(2) by (simp add: in_hand_def s'_def)
  ultimately show ?thesis using eq False
    by (intro exI[of _ s'] exI[of _ ?head] exI[of _ c] exI[of _ ?v]) (simp add: s'_def)
qed

definition has_free :: "tid \<Rightarrow> 'a tls_pool \<Rightarrow> bool" where
  "has_free t s \<longleftrightarrow> cur (t_cache s t) \<noteq> 0 \<or> chunkTop (t_cache s t) \<noteq> 0 \<or>
     Pool_GetPointer (m_top s) \<noteq> 0"

lemma Refill_take:
  assumes s: "shape s v" and hand: "v Hand = [c]" and cur: "cells v (Cur t) = []"
    and h: "in_hand s c head"
  shows "\<exists>b. pool_heap s head = Some b \<and> head \<noteq> 0 \<and>
    shape (s\<lparr>t_cache := (t_cache s)(t := (t_cache s t)\<lparr>cur := head, curCount := b_count b\<rparr>)\<rparr>)
      (v(Hand := [], Cur t := [c]))"
proof -
  obtain b where b: "pool_heap s head = Some b" "b_count b = of_nat (length c)"
    using h by (auto simp: in_hand_def)
  have "separated (v(Hand := [], Cur t := [c])) \<and> free_set (v(Hand := [], Cur t := [c])) = free_set v"
    by (rule separated_rearrange) (use s hand cur in \<open>auto simp: shape_def cells_def\<close>)
  moreover have "head \<noteq> 0" using h chain_hd by (auto simp: in_hand_def)
  ultimately show ?thesis using s b h
    by (simp add: shape_def links_def in_hand_def Pool_GetCapacityCount_def)
qed

lemma Refill_shape:
  assumes s: "shape s v" and hand: "v Hand = []" and cur: "cells v (Cur t) = []"
    and mal: "malloc_spec env" and grow: "has_free t s \<or> can_grow env s"
  shows "\<exists>s' v' c. TLS_Refill env t s = Inr s' \<and> shape s' v' \<and> v' Hand = [] \<and>
    v' (Cur t) = [c] \<and> c \<noteq> [] \<and> length c \<le> CHUNK_SIZE \<and>
    (\<forall>u. u \<noteq> t \<longrightarrow> v' (Cur u) = v (Cur u)) \<and> (\<forall>u. length (v' (Sealed u)) \<le> length (v (Sealed u))) \<and>
    frame s s' \<and> (\<not> has_free t s \<longrightarrow> length c = CHUNK_SIZE)"
proof -
  let ?c = "t_cache s t"
  have sealed: "chunks (pool_heap s) (v (Sealed t)) (chunkTop ?c)"
    "chunkCount ?c = of_nat (length (v (Sealed t)))" "cur ?c = 0"
    using s cur by (auto simp: shape_def links_def)
      (metis chain.simps(1))
  define step where "step = (if chunkTop ?c \<noteq> 0 then
      and_then (deref (pool_heap s) (chunkTop ?c)) (\<lambda>blk.
        Inr (s\<lparr>t_cache := (t_cache s)(t := ?c\<lparr>chunkTop := b_chunkNext blk,
          chunkCount := chunkCount ?c - 1\<rparr>)\<rparr>, chunkTop ?c))
    else Pool_PopChunk env s)"
  have "\<exists>s1 head c v1. step = Inr (s1, head) \<and> shape s1 v1 \<and> v1 Hand = [c] \<and>
    (\<forall>u. v1 (Cur u) = v (Cur u) \<and> length (v1 (Sealed u)) \<le> length (v (Sealed u))) \<and> frame s s1 \<and>
    in_hand s1 c head \<and> (\<not> has_free t s \<longrightarrow> length c = CHUNK_SIZE)"
  proof (cases "chunkTop ?c = 0")
    case True
    then have "Pool_GetPointer (m_top s) \<noteq> 0 \<or> can_grow env s"
      using grow sealed by (auto simp: has_free_def)
    from PopChunk_shape[OF s hand mal this] obtain s' head c v' where
      "Pool_PopChunk env s = Inr (s', head)" "shape s' v'" "v' Hand = [c]"
      "\<forall>t. v' (Cur t) = v (Cur t) \<and> v' (Sealed t) = v (Sealed t)" "frame s s'" "in_hand s' c head"
      "Pool_GetPointer (m_top s) = 0 \<longrightarrow> length c = CHUNK_SIZE" by blast
    then show ?thesis using True
      by (intro exI[of _ s'] exI[of _ head] exI[of _ c] exI[of _ v'])
        (simp add: step_def has_free_def)
  next
    case False
    obtain c cs b where c: "v (Sealed t) = c # cs" "in_hand s c (chunkTop ?c)"
      "pool_heap s (chunkTop ?c) = Some b" "chunks (pool_heap s) cs (b_chunkNext b)"
      using sealed(1) False by (rule chunks_cases)
    define s1 where "s1 = s\<lparr>t_cache := (t_cache s)(t := ?c\<lparr>chunkTop := b_chunkNext b,
          chunkCount := chunkCount ?c - 1\<rparr>)\<rparr>"
    let ?v = "v(Sealed t := cs, Hand := [c])"
    have "separated ?v \<and> free_set ?v = free_set v"
      by (rule separated_rearrange) (use s hand c(1) in \<open>auto simp: shape_def cells_def\<close>)
    moreover have "links s1 ?v"
      using s c sealed cur by (auto simp: shape_def links_def s1_def)
    ultimately have "shape s1 ?v"
      using s by (simp add: shape_def s1_def Pool_GetCapacityCount_def)
    moreover have "step = Inr (s1, chunkTop ?c)"
      using False c(3) by (simp add: step_def deref_ok s1_def)
    moreover have "frame s s1" by (simp add: frame_def s1_def in_use_def)
    moreover have "in_hand s1 c (chunkTop ?c)" using c(2) by (simp add: in_hand_def s1_def)
    moreover have "has_free t s" using False by (simp add: has_free_def)
    ultimately show ?thesis using c(1)
      by (intro exI[of _ s1] exI[of _ "chunkTop ?c"] exI[of _ c] exI[of _ ?v]) simp
  qed
  then obtain s1 head c v1 where 1: "step = Inr (s1, head)" "shape s1 v1" "v1 Hand = [c]"
    "\<And>u. v1 (Cur u) = v (Cur u)" "\<And>u. length (v1 (Sealed u)) \<le> length (v (Sealed u))"
    "frame s s1" "in_hand s1 c head" "\<not> has_free t s \<longrightarrow> length c = CHUNK_SIZE" by blast
  have "cells v1 (Cur t) = []" using cur 1(4) by (simp add: cells_def)
  from Refill_take[OF 1(2,3) this 1(7)] obtain b where b: "pool_heap s1 head = Some b" "head \<noteq> 0"
    "shape (s1\<lparr>t_cache := (t_cache s1)(t := (t_cache s1 t)\<lparr>cur := head, curCount := b_count b\<rparr>)\<rparr>)
      (v1(Hand := [], Cur t := [c]))" (is "shape ?s2 ?v2") by blast
  have "TLS_Refill env t s = and_then step (\<lambda>(s, head). and_then (deref (pool_heap s) head) (\<lambda>blk.
      Inr (s\<lparr>t_cache := (t_cache s)(t := (t_cache s t)\<lparr>cur := head, curCount := b_count blk\<rparr>)\<rparr>)))"
    by (simp only: TLS_Refill_def step_def Let_def)
  then have "TLS_Refill env t s = Inr ?s2"
    using 1(1) b(1,2) by (simp add: deref_ok)
  moreover have "frame s1 ?s2" by (simp add: frame_def in_use_def)
  ultimately show ?thesis using b(3) 1 frame_trans[OF 1(6)]
    by (intro exI[of _ ?s2] exI[of _ ?v2] exI[of _ c]) (simp add: in_hand_def)
qed

section \<open>Allocation and release\<close>

definition bounded :: "view \<Rightarrow> bool" where
  "bounded v \<longleftrightarrow> (\<forall>t. length (cells v (Cur t)) < CHUNK_SIZE) \<and> (\<forall>t. length (v (Sealed t)) \<le> 10) \<and>
     v Hand = []"

definition pool_inv :: "'a tls_pool \<Rightarrow> bool" where
  "pool_inv s \<longleftrightarrow> (\<exists>v. shape s v \<and> bounded v)"

lemma ValidateAlloc_shape:
  assumes s: "shape s v" and hand: "v Hand = [[b]]"
  shows "\<exists>s' blk. Pool_ValidateAlloc s b = Inr s' \<and> shape s' (v(Hand := [])) \<and>
    s' = s\<lparr>pool_heap := (pool_heap s)(b \<mapsto> blk)\<rparr> \<and> b \<notin> in_use s \<and>
    in_use s' = insert b (in_use s)"
proof -
  have mem: "b \<in> set (cells v Hand)" using hand by (simp add: cells_def)
  obtain blk where b: "b \<noteq> 0" "user_ptr b" "pool_heap s b = Some blk" "b_useFlag blk = 0"
    "b_owner blk = pool_this s" "b_frontGuard blk = pool_this s" "b_backGuard blk = pool_this s"
    using shape_free[OF s mem] by blast
  let ?h = "(pool_heap s)(b \<mapsto> blk\<lparr>b_useFlag := 1\<rparr>)"
  have eq: "Pool_ValidateAlloc s b = Inr (s\<lparr>pool_heap := ?h\<rparr>)"
    using b by (simp add: Pool_ValidateAlloc_def deref_ok store_ok check_def)
  have ne: "x \<noteq> b" if "x \<in> set (cells v p)" "p \<noteq> Hand" for x p
    using s mem that unfolding shape_def separated_def by blast
  have "links (s\<lparr>pool_heap := ?h\<rparr>) v"
    by (rule links_heap) (use s ne in \<open>auto simp: shape_def\<close>)
  then have "links (s\<lparr>pool_heap := ?h\<rparr>) (v(Hand := []))" by (simp add: links_def)
  moreover have "separated (v(Hand := [])) \<and> free_set (v(Hand := [])) = free_set v - {b}"
    using separated_take[of v] s hand by (simp add: shape_def cells_def)
  moreover have "heap_ok (pool_this s) ?h"
    using s b by (auto simp: shape_def heap_ok_def block_ok_def)
  moreover have "dom ?h = dom (pool_heap s)" using b by auto
  moreover have "free_set v - {b} = {a. \<exists>c. ?h a = Some c \<and> b_useFlag c = 0}"
    using s by (auto simp: shape_def)
  ultimately have "shape (s\<lparr>pool_heap := ?h\<rparr>) (v(Hand := []))"
    using s by (simp add: shape_def Pool_GetCapacityCount_def)
  moreover have "b \<notin> in_use s" using b by (simp add: in_use_def)
  moreover have "in_use (s\<lparr>pool_heap := ?h\<rparr>) = insert b (in_use s)"
    using b by (auto simp: in_use_def)
  ultimately show ?thesis using eq by blast
qed

lemma ValidateFree_shape:
  assumes s: "shape s v" and hand: "v Hand = []" and use: "b \<in> in_use s"
  shows "\<exists>s' blk. Pool_ValidateFree s b = Inr s' \<and> shape s' (v(Hand := [[b]])) \<and>
    s' = s\<lparr>pool_heap := (pool_heap s)(b \<mapsto> blk)\<rparr> \<and> in_use s' = in_use s - {b}"
proof -
  obtain blk where b: "b \<noteq> 0" "user_ptr b" "b \<notin> free_set v" "pool_heap s b = Some blk" "b_useFlag blk = 1"
    "b_owner blk = pool_this s" "b_frontGuard blk = pool_this s" "b_backGuard blk = pool_this s"
    using shape_used[OF s use] by blast
  let ?h = "(pool_heap s)(b \<mapsto> blk\<lparr>b_useFlag := 0\<rparr>)"
  have eq: "Pool_ValidateFree s b = Inr (s\<lparr>pool_heap := ?h\<rparr>)"
    using b by (simp add: Pool_ValidateFree_def deref_ok store_ok check_def)
  have ne: "x \<noteq> b" if "x \<in> set (cells v p)" for x p
    using b(3) that by (auto simp: free_set_def)
  have "links (s\<lparr>pool_heap := ?h\<rparr>) v"
    by (rule links_heap) (use s ne in \<open>auto simp: shape_def\<close>)
  then have "links (s\<lparr>pool_heap := ?h\<rparr>) (v(Hand := [[b]]))" by (simp add: links_def)
  moreover have "separated (v(Hand := [[b]])) \<and> free_set (v(Hand := [[b]])) = free_set v \<union> {b}"
    using separated_put[of v "[[b]]"] s hand b(3) by (simp add: shape_def cells_def)
  moreover have "heap_ok (pool_this s) ?h"
    using s b by (auto simp: shape_def heap_ok_def block_ok_def)
  moreover have "dom ?h = dom (pool_heap s)" using b by auto
  moreover have "free_set v \<union> {b} = {a. \<exists>c. ?h a = Some c \<and> b_useFlag c = 0}"
    using s by (auto simp: shape_def)
  ultimately have "shape (s\<lparr>pool_heap := ?h\<rparr>) (v(Hand := [[b]]))"
    using s by (simp add: shape_def Pool_GetCapacityCount_def)
  moreover have "in_use (s\<lparr>pool_heap := ?h\<rparr>) = in_use s - {b}"
    using b by (auto simp: in_use_def)
  ultimately show ?thesis using eq by blast
qed

lemma store_object_shape:
  assumes s: "shape s v" and b: "b \<in> in_use s"
  shows "\<exists>blk. pool_heap s b = Some blk \<and> b \<noteq> 0 \<and>
    shape (s\<lparr>pool_heap := (pool_heap s)(b \<mapsto> blk\<lparr>b_object := x\<rparr>)\<rparr>) v \<and>
    in_use (s\<lparr>pool_heap := (pool_heap s)(b \<mapsto> blk\<lparr>b_object := x\<rparr>)\<rparr>) = in_use s"
proof -
  obtain blk where blk: "b \<noteq> 0" "b \<notin> free_set v" "pool_heap s b = Some blk" "b_useFlag blk = 1"
    using shape_used[OF s b] by blast
  let ?h = "(pool_heap s)(b \<mapsto> blk\<lparr>b_object := x\<rparr>)"
  have "links (s\<lparr>pool_heap := ?h\<rparr>) v"
    by (rule links_heap) (use s blk in \<open>auto simp: shape_def free_set_def lnk_def\<close>)
  moreover have "heap_ok (pool_this s) ?h"
    using s blk by (auto simp: shape_def heap_ok_def block_ok_def)
  moreover have "dom ?h = dom (pool_heap s)" using blk by auto
  moreover have "{a. \<exists>c. ?h a = Some c \<and> b_useFlag c = 0} =
      {a. \<exists>c. pool_heap s a = Some c \<and> b_useFlag c = 0}" using blk by auto
  ultimately have "shape (s\<lparr>pool_heap := ?h\<rparr>) v"
    using s by (simp add: shape_def Pool_GetCapacityCount_def)
  moreover have "in_use (s\<lparr>pool_heap := ?h\<rparr>) = in_use s"
    using blk by (auto simp: in_use_def)
  ultimately show ?thesis using blk by blast
qed

lemma cur_pop:
  assumes s: "shape s v" and hand: "v Hand = []" and ne: "cells v (Cur t) = b # rest"
  shows "\<exists>blk. cur (t_cache s t) = b \<and> b \<noteq> 0 \<and> pool_heap s b = Some blk \<and>
    shape (s\<lparr>t_cache := (t_cache s)(t := (t_cache s t)\<lparr>cur := b_next blk,
       curCount := curCount (t_cache s t) - 1\<rparr>)\<rparr>) (v(Cur t := [rest], Hand := [[b]]))"
proof -
  have ch: "chain (pool_heap s) (b # rest) (cur (t_cache s t))"
    "curCount (t_cache s t) = of_nat (length (b # rest))"
    using s ne by (auto simp: shape_def links_def simp del: chain.simps) metis+
  then obtain blk where blk: "cur (t_cache s t) = b" "b \<noteq> 0" "pool_heap s b = Some blk"
    "chain (pool_heap s) rest (b_next blk)" by auto
  have "separated (v(Cur t := [rest], Hand := [[b]])) \<and>
      free_set (v(Cur t := [rest], Hand := [[b]])) = free_set v"
    by (rule separated_rearrange) (use s hand ne in \<open>auto simp: shape_def cells_def\<close>)
  moreover have "links (s\<lparr>t_cache := (t_cache s)(t := (t_cache s t)\<lparr>cur := b_next blk,
       curCount := curCount (t_cache s t) - 1\<rparr>)\<rparr>) (v(Cur t := [rest], Hand := [[b]]))"
    using s blk ch(2) by (simp add: shape_def links_def)
  ultimately show ?thesis using s blk by (simp add: shape_def Pool_GetCapacityCount_def)
qed

text \<open>\<open>TLS_Alloc\<close> with a block in the current chunk, and then in general.\<close>

definition alloc_tail :: "'a pool_env \<Rightarrow> tid \<Rightarrow> 'a tls_pool \<Rightarrow> ('a tls_pool \<times> u64) result" where
  "alloc_tail env t s =
     (let c = t_cache s t; b = cur c in
     and_then (deref (pool_heap s) b) (\<lambda>blk.
     let s = s\<lparr>t_cache := (t_cache s)(t := c\<lparr>cur := b_next blk, curCount := curCount c - 1\<rparr>)\<rparr> in
     and_then (Pool_ValidateAlloc s b) (\<lambda>s.
     and_then (if m_placementNew s
               then and_then (store (pool_heap s) b (\<lambda>blk. blk\<lparr>b_object := env_new env\<rparr>)) (\<lambda>h.
                    Inr (s\<lparr>pool_heap := h\<rparr>))
               else Inr s) (\<lambda>s.
     Inr (s, b)))))"

lemma TLS_Alloc_eq:
  "TLS_Alloc env t s =
     and_then (if cur (t_cache s t) = 0 then TLS_Refill env t s else Inr s) (alloc_tail env t)"
  by (simp add: TLS_Alloc_def alloc_tail_def[abs_def])

definition alloc_post :: "'a tls_pool \<Rightarrow> 'a tls_pool \<Rightarrow> u64 \<Rightarrow> bool" where
  "alloc_post s s' b \<longleftrightarrow> b \<noteq> 0 \<and> b \<notin> in_use s \<and> in_use s' = insert b (in_use s) \<and>
     pool_this s' = pool_this s \<and> m_placementNew s' = m_placementNew s \<and>
     m_maxChunks s' = m_maxChunks s \<and> (\<forall>a\<in>in_use s. pool_heap s' a = pool_heap s a)"

lemma alloc_tail_ok:
  assumes s: "shape s v" and hand: "v Hand = []" and ne: "cells v (Cur t) = b # rest"
  shows "\<exists>s'. alloc_tail env t s = Inr (s', b) \<and> shape s' (v(Cur t := [rest])) \<and> alloc_post s s' b \<and>
    (m_placementNew s \<longrightarrow> map_option b_object (pool_heap s' b) = Some (env_new env))"
proof -
  obtain blk where 1: "cur (t_cache s t) = b" "b \<noteq> 0" "pool_heap s b = Some blk"
    "shape (s\<lparr>t_cache := (t_cache s)(t := (t_cache s t)\<lparr>cur := b_next blk,
       curCount := curCount (t_cache s t) - 1\<rparr>)\<rparr>) (v(Cur t := [rest], Hand := [[b]]))"
    (is "shape ?s1 _") using cur_pop[OF s hand ne] by blast
  have v: "(v(Cur t := [rest], Hand := [[b]]))(Hand := []) = v(Cur t := [rest])"
    using hand by (auto simp: fun_eq_iff)
  obtain s2 blk2 where 2: "Pool_ValidateAlloc ?s1 b = Inr s2" "shape s2 (v(Cur t := [rest]))"
    "s2 = ?s1\<lparr>pool_heap := (pool_heap ?s1)(b \<mapsto> blk2)\<rparr>" "b \<notin> in_use ?s1"
    "in_use s2 = insert b (in_use ?s1)"
    using ValidateAlloc_shape[OF 1(4), of b] v by auto
  have iu: "in_use ?s1 = in_use s" by (simp add: in_use_def)
  have "b \<in> in_use s2" using 2(5) by simp
  from store_object_shape[OF 2(2) this, of "env_new env"] obtain blk3 where 3:
    "pool_heap s2 b = Some blk3"
    "shape (s2\<lparr>pool_heap := (pool_heap s2)(b \<mapsto> blk3\<lparr>b_object := env_new env\<rparr>)\<rparr>) (v(Cur t := [rest]))"
    "in_use (s2\<lparr>pool_heap := (pool_heap s2)(b \<mapsto> blk3\<lparr>b_object := env_new env\<rparr>)\<rparr>) = in_use s2"
    (is "in_use ?s3 = _") by blast
  define s' where "s' = (if m_placementNew s then ?s3 else s2)"
  have eq: "alloc_tail env t s = Inr (s', b)"
    using 1(1-3) 2(1,3) 3(1) by (simp add: alloc_tail_def deref_ok store_ok Let_def s'_def)
  have "alloc_post s s' b"
    using 2 3 1(2) iu by (auto simp: alloc_post_def s'_def in_use_def)
  then show ?thesis using eq 2(2) 3(2) by (auto simp: s'_def)
qed

lemma bounded_upd:
  "bounded v \<Longrightarrow> length rest < CHUNK_SIZE \<Longrightarrow> bounded (v(Cur t := [rest]))"
  by (simp add: bounded_def)

lemma Alloc_ok:
  assumes s: "shape s v" "bounded v" and mal: "malloc_spec env" and grow: "has_free t s \<or> can_grow env s"
  shows "\<exists>s' b. TLS_Alloc env t s = Inr (s', b) \<and> pool_inv s' \<and> alloc_post s s' b \<and>
    (m_placementNew s \<longrightarrow> map_option b_object (pool_heap s' b) = Some (env_new env)) \<and>
    (\<not> has_free t s \<longrightarrow> has_free t s')"
proof (cases "cur (t_cache s t) = 0")
  case False
  have "chain (pool_heap s) (cells v (Cur t)) (cur (t_cache s t))"
    using s(1) by (simp add: shape_def links_def)
  then obtain rest where r: "cells v (Cur t) = cur (t_cache s t) # rest"
    using chain_head[OF _ False] by blast
  then have "length rest < CHUNK_SIZE" using s(2) by (metis Suc_lessD bounded_def length_Cons)
  moreover have "v Hand = []" using s(2) by (simp add: bounded_def)
  ultimately show ?thesis
    using alloc_tail_ok[OF s(1) _ r, of env] bounded_upd[OF s(2), of rest t] False
    by (auto simp: TLS_Alloc_eq pool_inv_def has_free_def)
next
  case True
  have "cells v (Cur t) = []"
    using s(1) True unfolding shape_def links_def by (metis chain_hd)
  from Refill_shape[OF s(1) _ this mal grow] s(2) obtain s1 v1 c where 1: "TLS_Refill env t s = Inr s1"
    "shape s1 v1" "v1 Hand = []" "v1 (Cur t) = [c]" "c \<noteq> []" "length c \<le> CHUNK_SIZE"
    "\<And>u. u \<noteq> t \<Longrightarrow> v1 (Cur u) = v (Cur u)" "\<And>u. length (v1 (Sealed u)) \<le> length (v (Sealed u))"
    "frame s s1" "\<not> has_free t s \<longrightarrow> length c = CHUNK_SIZE" by (auto simp: bounded_def)
  obtain b rest where c: "c = b # rest" using 1(5) by (cases c) auto
  have "cells v1 (Cur t) = b # rest" using 1(4) c by (simp add: cells_def)
  from alloc_tail_ok[OF 1(2,3) this, of env] obtain s' where s': "alloc_tail env t s1 = Inr (s', b)"
    "shape s' (v1(Cur t := [rest]))" "alloc_post s1 s' b"
    "m_placementNew s1 \<longrightarrow> map_option b_object (pool_heap s' b) = Some (env_new env)" by blast
  have "length (cells (v1(Cur t := [rest])) (Cur u)) < CHUNK_SIZE" for u
    using s(2) 1(6,7) c by (cases "u = t") (auto simp: bounded_def cells_def)
  moreover have "length (v1 (Sealed u)) \<le> 10" for u
    using s(2) 1(8)[of u] unfolding bounded_def by (metis order_trans)
  ultimately have "bounded (v1(Cur t := [rest]))" using 1(3) by (simp add: bounded_def)
  moreover have "alloc_post s s' b" using s'(3) 1(9) by (simp add: alloc_post_def frame_def)
  moreover have "m_placementNew s1 = m_placementNew s" using 1(9) by (simp add: frame_def)
  moreover have "has_free t s'" if "\<not> has_free t s"
  proof -
    have "rest \<noteq> []" using that 1(10) c by (auto simp: CHUNK_SIZE_def)
    moreover have "chain (pool_heap s') rest (cur (t_cache s' t))"
      using s'(2) by (auto simp: shape_def links_def dest: spec[of _ t])
    ultimately show ?thesis using chain_hd by (auto simp: has_free_def)
  qed
  ultimately show ?thesis using s' 1(1) True by (auto simp: TLS_Alloc_eq pool_inv_def)
qed

lemma links_sealed:
  "links s v \<Longrightarrow> chunks (pool_heap s) (v (Sealed t)) (chunkTop (t_cache s t))"
  by (simp add: links_def)

lemma shape_has_free:
  "shape s v \<Longrightarrow> v (Sealed t) \<noteq> [] \<or> v Shared \<noteq> [] \<Longrightarrow> has_free t s"
  unfolding shape_def links_def has_free_def by (metis chunks_zero)

lemma Seal_shape:
  assumes s: "shape s v" and hand: "v Hand = []" and c: "c \<noteq> []" "length c \<le> CHUNK_SIZE"
    and vc: "cells v (Cur t) = c" and b: "length (v (Sealed t)) \<le> 10"
  shows "\<exists>s' v'. TLS_Seal t s = Inr s' \<and> shape s' v' \<and> v' Hand = [] \<and> cells v' (Cur t) = [] \<and>
    (\<forall>u. u \<noteq> t \<longrightarrow> v' (Cur u) = v (Cur u) \<and> v' (Sealed u) = v (Sealed u)) \<and>
    length (v' (Sealed t)) \<le> 10 \<and> frame s s' \<and> (v' (Sealed t) \<noteq> [] \<or> v' Shared \<noteq> [])"
proof -
  let ?c = "t_cache s t"
  have ch: "chain (pool_heap s) c (cur ?c)" "curCount ?c = of_nat (length c)"
    "chunks (pool_heap s) (v (Sealed t)) (chunkTop ?c)"
    "chunkCount ?c = of_nat (length (v (Sealed t)))"
    using s vc unfolding shape_def links_def by blast+
  have hd: "cur ?c \<in> set c" "cur ?c \<noteq> 0"
    using chain_hd[OF ch(1) c(1)] hd_in_set[OF c(1)] by auto
  then have mem: "cur ?c \<in> set (cells v (Cur t))" using vc by simp
  obtain blk where blk: "pool_heap s (cur ?c) = Some blk" "b_useFlag blk = 0"
    "b_owner blk = pool_this s" "b_frontGuard blk = pool_this s" "b_backGuard blk = pool_this s"
    using shape_free(3)[OF s mem] by blast
  have ptr: "user_ptr (cur ?c)" using shape_free(2)[OF s mem] .
  let ?blk = "blk\<lparr>b_count := curCount ?c, b_chunkNext := chunkTop ?c\<rparr>"
  let ?h = "(pool_heap s)(cur ?c \<mapsto> ?blk)"
  have ne: "x \<noteq> cur ?c" if "x \<in> set (cells v p)" "p \<noteq> Cur t" for x p
    using s mem that unfolding shape_def separated_def by blast
  have ln: "links (s\<lparr>pool_heap := ?h\<rparr>) v"
    by (rule links_heap) (use s ne blk in \<open>auto simp: shape_def\<close>)
  have dm: "dom ?h = dom (pool_heap s)" using blk by auto
  have fl: "{a. \<exists>x. ?h a = Some x \<and> b_useFlag x = 0} = {a. \<exists>x. pool_heap s a = Some x \<and> b_useFlag x = 0}"
    using blk by auto
  have ho: "heap_ok (pool_this s) ?h"
    using s blk by (auto simp: shape_def heap_ok_def block_ok_def)
  define s1 where "s1 = s\<lparr>pool_heap := ?h, t_cache := (t_cache s)(t := ?c\<lparr>chunkTop := cur ?c,
     chunkCount := chunkCount ?c + 1, cur := 0, curCount := 0\<rparr>)\<rparr>"
  let ?v = "v(Cur t := [], Sealed t := c # v (Sealed t))"
  have sep: "separated ?v \<and> free_set ?v = free_set v"
    by (rule separated_rearrange) (use s vc in \<open>auto simp: shape_def cells_def\<close>)
  have chc: "chain ?h c (cur ?c)"
    using ch(1) blk by (subst chain_cong[where h = "pool_heap s"]) auto
  have "chunks ?h (v (Sealed t)) (chunkTop ?c)" using links_sealed[OF ln, of t] by simp
  then have "chunks ?h (c # v (Sealed t)) (cur ?c)" using chc c ch(2) by simp
  then have "links s1 ?v" using ln ch by (simp add: links_def s1_def)
  then have sh1: "shape s1 ?v"
    using s sep ho fl dm by (simp add: shape_def s1_def Pool_GetCapacityCount_def)
  have fr1: "frame s s1" using blk by (auto simp: frame_def s1_def in_use_def)
  have st: "store (pool_heap s) (cur ?c)
      (\<lambda>blk. blk\<lparr>b_count := curCount ?c, b_chunkNext := chunkTop ?c\<rparr>) = Inr ?h"
    using hd(2) blk(1) by (rule store_ok)
  have cc: "chunkCount (t_cache s1 t) = of_nat (length (v (Sealed t))) + 1"
    using ch(4) by (simp add: s1_def)
  have w: "(of_nat n + 1 :: u32) > TLS_MAX_CHUNKS \<longleftrightarrow> n \<ge> 10" if "n \<le> 10" for n
  proof -
    have "n < 10 \<or> n = 10" using that by auto
    then show ?thesis by (elim disjE) (auto simp: TLS_MAX_CHUNKS_def word_less_nat_alt unat_word_ariths unat_of_nat)
  qed
  show ?thesis
  proof (cases "length (v (Sealed t)) \<ge> 10")
    case False
    have "TLS_Seal t s = Inr s1"
      using st cc w[OF b] False ch(4) by (simp add: TLS_Seal_def Let_def s1_def)
    then show ?thesis using sh1 fr1 hand False by (intro exI[of _ s1] exI[of _ ?v]) simp
  next
    case True
    define s2 where "s2 = s1\<lparr>t_cache := (t_cache s1)(t := (t_cache s1 t)\<lparr>chunkTop := chunkTop ?c,
      chunkCount := chunkCount ?c\<rparr>)\<rparr>"
    let ?v2 = "v(Cur t := [], Hand := [c])"
    have sep2: "separated ?v2 \<and> free_set ?v2 = free_set v"
      by (rule separated_rearrange) (use s vc hand in \<open>auto simp: shape_def cells_def\<close>)
    have "links s2 ?v2" using ln ch by (simp add: links_def s1_def s2_def)
    then have sh2: "shape s2 ?v2"
      using s sep2 ho fl dm by (simp add: shape_def s1_def s2_def Pool_GetCapacityCount_def)
    have "chain (pool_heap s2) c (cur ?c)" "map_option b_count (pool_heap s2 (cur ?c)) = Some (of_nat (length c))"
      using chc ch(2) by (simp_all add: s1_def s2_def)
    from PushChunk_shape[OF sh2 _ this(1) c this(2)] obtain s' where s': "Pool_PushChunk s2 (cur ?c) = Inr s'"
      "shape s' (?v2(Hand := [], Shared := c # ?v2 Shared))" "frame s2 s'" by auto
    have "s2 = s\<lparr>pool_heap := ?h, t_cache := (t_cache s)(t := ?c\<lparr>cur := 0, curCount := 0,
        chunkTop := b_chunkNext ?blk, chunkCount := chunkCount ?c + 1 - 1\<rparr>)\<rparr>"
      by (cases ?c) (simp add: s2_def s1_def)
    then have "TLS_Seal t s = Inr s'"
      using st cc w[OF b] True s'(1) hd(2) ch(4) by (simp add: TLS_Seal_def Let_def deref_ok)
    moreover have "frame s s2" using fr1 by (simp add: frame_def s2_def in_use_def)
    then have "frame s s'" using s'(3) frame_trans by blast
    ultimately show ?thesis using s'(2) b
      by (intro exI[of _ s'] exI[of _ "?v2(Hand := [], Shared := c # ?v2 Shared)"]) simp
  qed
qed

lemma Free_ok:
  assumes s: "shape s v" "bounded v" and use: "b \<in> in_use s"
  shows "\<exists>s'. TLS_Free t b s = Inr s' \<and> pool_inv s' \<and> in_use s' = in_use s - {b} \<and>
    pool_this s' = pool_this s \<and> m_placementNew s' = m_placementNew s \<and>
    m_maxChunks s' = m_maxChunks s \<and> (\<forall>a\<in>in_use s - {b}. pool_heap s' a = pool_heap s a) \<and>
    (\<exists>blk. pool_heap s' b = Some blk) \<and> has_free t s'"
proof -
  let ?c = "t_cache s t"
  have hand: "v Hand = []" using s(2) by (simp add: bounded_def)
  obtain s1 blk where 1: "Pool_ValidateFree s b = Inr s1" "shape s1 (v(Hand := [[b]]))"
    "s1 = s\<lparr>pool_heap := (pool_heap s)(b \<mapsto> blk)\<rparr>" "in_use s1 = in_use s - {b}"
    using ValidateFree_shape[OF s(1) hand use] by blast
  have mem: "b \<in> set (cells (v(Hand := [[b]])) Hand)" by simp
  have b0: "b \<noteq> 0" using shape_free(1)[OF 1(2) mem] .
  have hb: "pool_heap s1 b = Some blk" using 1(3) by simp
  let ?f = "\<lambda>blk. blk\<lparr>b_next := cur ?c\<rparr>"
  let ?h = "(pool_heap s1)(b \<mapsto> ?f blk)"
  have 2: "store (pool_heap s1) b ?f = Inr ?h"
    "shape (s1\<lparr>pool_heap := ?h\<rparr>) (v(Hand := [[b]]))" "frame s1 (s1\<lparr>pool_heap := ?h\<rparr>)"
    by (rule shape_store_hand[OF 1(2) mem hb]; simp)+
  have tc: "t_cache s1 = t_cache s" using 1(3) by simp
  define s2 where "s2 = s1\<lparr>pool_heap := ?h,
    t_cache := (t_cache s1)(t := ?c\<lparr>cur := b, curCount := curCount ?c + 1\<rparr>)\<rparr>"
  let ?c2 = "b # cells v (Cur t)"
  let ?v = "v(Hand := [[b]])"
  let ?v2 = "v(Cur t := [?c2])"
  have v2: "?v(Hand := [], Cur t := [?c2]) = ?v2" using hand by (auto simp: fun_eq_iff)
  have "separated (?v(Hand := [], Cur t := [?c2])) \<and> free_set (?v(Hand := [], Cur t := [?c2])) = free_set ?v"
    by (rule separated_rearrange) (use 1(2) in \<open>auto simp: shape_def\<close>)
  then have sep: "separated ?v2 \<and> free_set ?v2 = free_set ?v" by (simp only: v2)
  have lk: "links (s1\<lparr>pool_heap := ?h\<rparr>) ?v" using 2(2) by (simp add: shape_def)
  have "chain ?h (cells v (Cur t)) (cur ?c) \<and> curCount ?c = of_nat (length (cells v (Cur t)))"
    using lk tc unfolding links_def by (simp del: fun_upd_apply)
  then have "links s2 ?v2" using lk tc b0 by (simp add: links_def s2_def)
  then have sh2: "shape s2 ?v2"
    using 2(2) sep by (simp add: shape_def s2_def Pool_GetCapacityCount_def)
  have fr2: "frame s1 s2" using 2(3) by (simp add: frame_def s2_def in_use_def)
  have eq: "TLS_Free t b s = (if curCount ?c + 1 = of_nat CHUNK_SIZE then TLS_Seal t s2 else Inr s2)"
    using 1(1) 2(1) tc by (simp add: TLS_Free_def Let_def s2_def)
  have cnt: "curCount ?c = of_nat (length (cells v (Cur t)))"
    using s(1) by (simp add: shape_def links_def)
  have lt: "length (cells v (Cur t)) < CHUNK_SIZE" using s(2) by (simp add: bounded_def)
  have full: "curCount ?c + 1 = of_nat CHUNK_SIZE \<longleftrightarrow> length ?c2 = CHUNK_SIZE"
  proof -
    have "curCount ?c + 1 = of_nat (length ?c2)" using cnt by simp
    moreover have "(of_nat (length ?c2) :: u32) = of_nat CHUNK_SIZE \<longleftrightarrow> length ?c2 = CHUNK_SIZE"
      by (rule of_nat_u32_inj) (use lt in \<open>simp_all add: CHUNK_SIZE_def\<close>)
    ultimately show ?thesis by metis
  qed
  obtain s' v' where s': "TLS_Free t b s = Inr s'" "shape s' v'" "bounded v'" "frame s2 s'" "has_free t s'"
  proof (cases "length ?c2 = CHUNK_SIZE")
    case True
    have "cells ?v2 (Cur t) = ?c2" "?v2 Hand = []" "length (?v2 (Sealed t)) \<le> 10"
      using s(2) hand by (simp_all add: bounded_def)
    from Seal_shape[OF sh2 this(2) _ _ this(1,3)] True obtain s' v' where
      n: "TLS_Seal t s2 = Inr s'" "shape s' v'" "v' Hand = []" "cells v' (Cur t) = []"
        "\<forall>u. u \<noteq> t \<longrightarrow> v' (Cur u) = ?v2 (Cur u) \<and> v' (Sealed u) = ?v2 (Sealed u)"
        "length (v' (Sealed t)) \<le> 10" "frame s2 s'" "v' (Sealed t) \<noteq> [] \<or> v' Shared \<noteq> []" by auto
    have "has_free t s'" using n(2,8) by (rule shape_has_free)
    have "bounded v'" unfolding bounded_def
    proof (intro conjI allI)
      fix u
      show "length (cells v' (Cur u)) < CHUNK_SIZE"
      proof (cases "u = t")
        case True
        then show ?thesis using n(4) by (simp add: CHUNK_SIZE_def)
      next
        case False
        then show ?thesis using n(5) s(2) by (simp add: bounded_def cells_def)
      qed
      show "length (v' (Sealed u)) \<le> 10"
        using n(5,6) s(2) by (cases "u = t") (auto simp: bounded_def)
    qed (rule n(3))
    with n eq full True \<open>has_free t s'\<close> show ?thesis by (intro that) auto
  next
    case False
    have "Suc (length (cells v (Cur t))) < CHUNK_SIZE" using lt False by simp
    then have "bounded ?v2" using s(2) by (simp add: bounded_def)
    moreover have "has_free t s2" using b0 by (simp add: has_free_def s2_def)
    ultimately show ?thesis using eq full False sh2 by (intro that) auto
  qed
  have "frame s1 s'" using fr2 s'(4) by (rule frame_trans)
  then have "pool_inv s'" "frame s1 s'" using s' by (auto simp: pool_inv_def)
  moreover from this have "b \<in> dom (pool_heap s')" using hb by (auto simp: frame_def)
  ultimately show ?thesis using s'(1,5) 1(3,4) by (auto simp: frame_def)
qed

lemma Free_rejects:
  assumes "deref (pool_heap s) b = Inr blk" and "b_owner blk \<noteq> pool_this s \<or> b_useFlag blk \<noteq> 1"
  shows "TLS_Free t b s = Inl DebugBreak"
  using assms by (auto simp: TLS_Free_def Pool_ValidateFree_def check_def store_def)

lemma Alloc_exhausted:
  assumes "\<not> has_free t s"
    and "m_maxChunks s \<noteq> 0 \<and> sint (m_chunkCount s + 1) > sint (m_maxChunks s) \<or>
      env_malloc env (taken (pool_heap s)) = 0"
  shows "TLS_Alloc env t s = Inl DebugBreak"
  using assms
  by (auto simp: TLS_Alloc_def TLS_Refill_def Pool_PopChunk_def Pool_NewChunk_def has_free_def check_def Let_def)

lemma NewChunk_InrD: "Pool_NewChunk env s = Inr r \<Longrightarrow> can_grow env s"
  by (auto simp: Pool_NewChunk_def can_grow_def check_def Let_def not_less split: if_splits)

lemma Alloc_InrD:
  assumes "TLS_Alloc env t s = Inr r"
  shows "has_free t s \<or> can_grow env s"
proof (rule ccontr)
  assume n: "\<not> (has_free t s \<or> can_grow env s)"
  then have "TLS_Alloc env t s = Inl DebugBreak"
    by (intro Alloc_exhausted) (auto simp: can_grow_def)
  with assms show False by simp
qed

lemma Free_InrD:
  assumes "TLS_Free t b s = Inr s'" and "pool_inv s"
  shows "b \<in> in_use s"
proof -
  obtain blk where d: "deref (pool_heap s) b = Inr blk"
    using assms(1) by (auto simp: TLS_Free_def Pool_ValidateFree_def elim!: and_then_InrE)
  moreover from this have "b_useFlag blk = 1"
    using Free_rejects[of s b blk t] assms(1) by auto
  ultimately show ?thesis by (auto simp: deref_def in_use_def split: if_splits option.splits)
qed

section \<open>The interface of an object pool\<close>

text \<open>
  What the packets, the queue and stack nodes, the players and the jobs rely on: \<open>inv\<close> is the
  provider's invariant, \<open>used\<close> the objects handed out, \<open>cell\<close> what an object holds, \<open>ready\<close> the
  condition under which an allocation succeeds.
\<close>

datatype 'p pool_op = PAlloc tid | PFree tid 'p

fun pool_run :: "(tid \<Rightarrow> 's \<Rightarrow> ('s \<times> 'p) result) \<Rightarrow> (tid \<Rightarrow> 'p \<Rightarrow> 's \<Rightarrow> 's result) \<Rightarrow>
    'p pool_op list \<Rightarrow> 's \<Rightarrow> ('s \<times> 'p list) result" where
  "pool_run al fr [] s = Inr (s, [])"
| "pool_run al fr (PAlloc t # ops) s =
     and_then (al t s) (\<lambda>(s, p). and_then (pool_run al fr ops s) (\<lambda>(s, ps). Inr (s, p # ps)))"
| "pool_run al fr (PFree t p # ops) s =
     and_then (fr t p s) (\<lambda>s. pool_run al fr ops s)"

locale object_pool =
  fixes inv :: "'s \<Rightarrow> bool"
    and used :: "'s \<Rightarrow> 'p set"
    and cell :: "'s \<Rightarrow> 'p \<Rightarrow> 'c"
    and ready :: "tid \<Rightarrow> 's \<Rightarrow> bool"
    and al :: "tid \<Rightarrow> 's \<Rightarrow> ('s \<times> 'p) result"
    and fr :: "tid \<Rightarrow> 'p \<Rightarrow> 's \<Rightarrow> 's result"
  assumes alloc_sound: "inv s \<Longrightarrow> al t s = Inr (s', p) \<Longrightarrow>
      inv s' \<and> p \<notin> used s \<and> used s' = insert p (used s) \<and> (\<forall>q\<in>used s. cell s' q = cell s q)"
    and free_sound: "inv s \<Longrightarrow> fr t p s = Inr s' \<Longrightarrow>
      inv s' \<and> p \<in> used s \<and> used s' = used s - {p} \<and> (\<forall>q\<in>used s - {p}. cell s' q = cell s q)"
    and alloc_total: "inv s \<Longrightarrow> ready t s \<Longrightarrow> \<exists>r. al t s = Inr r"
    and free_total: "inv s \<Longrightarrow> p \<in> used s \<Longrightarrow> \<exists>s'. fr t p s = Inr s'"
begin

lemma run_sound:
  "inv s \<Longrightarrow> pool_run al fr ops s = Inr (s', ps) \<Longrightarrow> inv s' \<and>
   (\<forall>q\<in>used s. (\<forall>t. PFree t q \<notin> set ops) \<longrightarrow> q \<notin> set ps \<and> q \<in> used s' \<and> cell s' q = cell s q)"
proof (induction ops arbitrary: s s' ps)
  case (Cons oper ops)
  show ?case
  proof (cases oper)
    case (PAlloc t)
    obtain s1 p ps1 where a: "al t s = Inr (s1, p)" "pool_run al fr ops s1 = Inr (s', ps1)" "ps = p # ps1"
      using Cons.prems(2) PAlloc by (auto elim!: and_then_InrE)
    note A = alloc_sound[OF Cons.prems(1) a(1)]
    from Cons.IH[of s1 s' ps1] A a(2) have IH: "inv s'" "\<forall>q\<in>used s1. (\<forall>t. PFree t q \<notin> set ops) \<longrightarrow>
        q \<notin> set ps1 \<and> q \<in> used s' \<and> cell s' q = cell s1 q" by auto
    show ?thesis using A IH a(3) PAlloc by auto
  next
    case (PFree t p)
    obtain s1 where f: "fr t p s = Inr s1" "pool_run al fr ops s1 = Inr (s', ps)"
      using Cons.prems(2) PFree by (auto elim!: and_then_InrE)
    note F = free_sound[OF Cons.prems(1) f(1)]
    from Cons.IH[of s1 s' ps] F f(2) have IH: "inv s'" "\<forall>q\<in>used s1. (\<forall>t. PFree t q \<notin> set ops) \<longrightarrow>
        q \<notin> set ps \<and> q \<in> used s' \<and> cell s' q = cell s1 q" by auto
    have "q \<in> used s1 \<and> cell s1 q = cell s q" if "q \<in> used s" "\<forall>u. PFree u q \<notin> set (oper # ops)" for q
      using F that PFree by auto
    then show ?thesis using IH by simp
  qed
qed simp

lemma alloc_free_id:
  assumes "inv s" and "ready t s"
  shows "\<exists>s1 p s2. al t s = Inr (s1, p) \<and> fr u p s1 = Inr s2 \<and> inv s2 \<and> used s2 = used s"
proof -
  obtain s1 p where a: "al t s = Inr (s1, p)" using alloc_total[OF assms] by auto
  note A = alloc_sound[OF assms(1) a]
  then obtain s2 where f: "fr u p s1 = Inr s2" using free_total[of s1 p u] by auto
  have "inv s1" using A by blast
  from free_sound[OF this f] A a f show ?thesis by auto
qed

lemma free_twice:
  assumes "inv s" and "fr t p s = Inr s1"
  shows "\<exists>e. fr u p s1 = Inl e"
proof (cases "fr u p s1")
  case (Inr s2)
  then show ?thesis using free_sound[OF assms] free_sound[of s1 u p s2] by auto
qed simp

end

interpretation tls: object_pool "\<lambda>s. malloc_spec env \<and> pool_inv s" in_use pool_heap
  "\<lambda>t s. has_free t s \<or> can_grow env s" "TLS_Alloc env" TLS_Free
  for env :: "'a pool_env"
proof (unfold_locales, goal_cases)
  case (1 s t s' p)
  then obtain v where "shape s v" "bounded v" by (auto simp: pool_inv_def)
  from Alloc_ok[OF this, of env t] Alloc_InrD[OF 1(2)] 1 show ?case
    by (auto simp: alloc_post_def)
next
  case (2 s t p s')
  then obtain v where "shape s v" "bounded v" by (auto simp: pool_inv_def)
  moreover have "p \<in> in_use s" using Free_InrD[OF 2(2)] 2(1) by blast
  ultimately show ?case using Free_ok[of s v p t] 2 by auto
next
  case (3 s t)
  then obtain v where "shape s v" "bounded v" by (auto simp: pool_inv_def)
  from Alloc_ok[OF this, of env t] 3 show ?case by blast
next
  case (4 s p t)
  then obtain v where "shape s v" "bounded v" by (auto simp: pool_inv_def)
  from Free_ok[OF this 4(2), of t] show ?case by blast
qed

section \<open>The objects of a pool\<close>

text \<open>
  Reading and writing an object through its pointer, and the objects in use as a map. \<open>objs P\<close>
  says that every constructed object of the pool satisfies \<open>P\<close>, free or in use: a pool without
  placement new hands out objects as the last user left them.
\<close>

definition obj_get :: "'a tls_pool \<Rightarrow> u64 \<Rightarrow> 'a result" where
  "obj_get s p = and_then (deref (pool_heap s) p) (\<lambda>b. Inr (b_object b))"

definition obj_put :: "'a tls_pool \<Rightarrow> u64 \<Rightarrow> 'a \<Rightarrow> 'a tls_pool result" where
  "obj_put s p x = and_then (store (pool_heap s) p (\<lambda>b. b\<lparr>b_object := x\<rparr>)) (\<lambda>h. Inr (s\<lparr>pool_heap := h\<rparr>))"

definition live :: "'a tls_pool \<Rightarrow> u64 \<rightharpoonup> 'a" where
  "live s p = (case pool_heap s p of Some b \<Rightarrow> if b_useFlag b = 1 then Some (b_object b) else None | None \<Rightarrow> None)"

definition objs :: "('a \<Rightarrow> bool) \<Rightarrow> 'a heap \<Rightarrow> bool" where
  "objs P h \<longleftrightarrow> (\<forall>a b. h a = Some b \<longrightarrow> P (b_object b))"

definition store_inv :: "('a \<Rightarrow> bool) \<Rightarrow> 'a tls_pool \<Rightarrow> bool" where
  "store_inv P s \<longleftrightarrow> pool_inv s \<and> \<not> m_placementNew s \<and> objs P (pool_heap s)"

definition ready :: "'a pool_env \<Rightarrow> tid \<Rightarrow> 'a tls_pool \<Rightarrow> bool" where
  "ready env t s \<longleftrightarrow> has_free t s \<or> can_grow env s"

lemma dom_live: "dom (live s) = in_use s"
  by (auto simp: live_def in_use_def split: option.splits if_splits)

lemma objs_store:
  "store h a f = Inr h' \<Longrightarrow> objs P h \<Longrightarrow> (\<And>b. P (b_object b) \<Longrightarrow> P (b_object (f b))) \<Longrightarrow> objs P h'"
  by (auto simp: store_def objs_def deref_Inr_iff elim!: and_then_InrE split: if_splits)

lemma objs_PushChunk: "Pool_PushChunk s hp = Inr s' \<Longrightarrow> objs P (pool_heap s) \<Longrightarrow> objs P (pool_heap s')"
  by (auto simp: Pool_PushChunk_def Let_def elim!: and_then_InrE dest: objs_store)

lemma objs_ValidateAlloc:
  "Pool_ValidateAlloc s b = Inr s' \<Longrightarrow> objs P (pool_heap s) \<Longrightarrow> objs P (pool_heap s')"
  by (auto simp: Pool_ValidateAlloc_def elim!: and_then_InrE dest: objs_store)

lemma objs_ValidateFree:
  "Pool_ValidateFree s b = Inr s' \<Longrightarrow> objs P (pool_heap s) \<Longrightarrow> objs P (pool_heap s')"
  by (auto simp: Pool_ValidateFree_def elim!: and_then_InrE dest: objs_store)

lemma objs_NewChunk:
  assumes r: "Pool_NewChunk env s = Inr (s', head)" and mal: "malloc_spec env"
    and o: "objs P (pool_heap s)" "P (env_new env)" "\<not> m_placementNew s"
  shows "objs P (pool_heap s') \<and> m_placementNew s' = m_placementNew s"
proof -
  let ?mem = "env_malloc env (taken (pool_heap s))"
  let ?c = "chunk_addrs env ?mem"
  have m0: "?mem \<noteq> 0" using NewChunk_InrD[OF r] by (simp add: can_grow_def)
  have dis: "distinct ?c" and n0: "0 \<notin> set ?c"
    using mal m0 unfolding malloc_spec_def by blast+
  obtain hp h1 where loop:
    "NewChunk_loop env (pool_this s) ?mem CHUNK_SIZE 0 (pool_heap s) = (hp, h1)" by fastforce
  have c1: "chain h1 ?c hp" and o1: "\<And>x. x \<notin> set ?c \<Longrightarrow> h1 x = pool_heap s x"
    using NewChunk_loop_spec[where xs = "[]" and h = "pool_heap s" and head = 0, OF _ _ _ loop] dis n0
    by (auto simp: chunk_addrs_def simp del: set_map)
  have len: "length ?c = CHUNK_SIZE" by (simp add: chunk_addrs_def)
  obtain h2 h3 where 2: "store h1 hp (\<lambda>blk. blk\<lparr>b_count := of_nat CHUNK_SIZE\<rparr>) = Inr h2"
    "construct_loop env CHUNK_SIZE hp h2 = Inr h3" "s' = s\<lparr>m_chunkCount := m_chunkCount s + 1, pool_heap := h3\<rparr>"
    using r loop o(3) by (auto simp: Pool_NewChunk_def Let_def elim!: and_then_InrE)
  obtain bh where bh: "hp \<noteq> 0" "h1 hp = Some bh" "h2 = h1(hp \<mapsto> bh\<lparr>b_count := of_nat CHUNK_SIZE\<rparr>)"
    using 2(1) by (auto simp: store_def deref_def split: if_splits option.splits)
  have "chain h2 ?c hp" using c1 bh by (subst chain_cong[where h = h1]) auto
  from construct_loop_spec[OF this dis, of CHUNK_SIZE env] len 2(2)
  have h3: "h3 x = (if x \<in> set ?c then map_option (\<lambda>b. b\<lparr>b_object := env_new env\<rparr>) (h2 x) else h2 x)" for x
    by auto
  have "?c \<noteq> []" using len by (auto simp: CHUNK_SIZE_def)
  then have hdc: "hp \<in> set ?c" using chain_hd[OF c1] hd_in_set by metis
  have "P (b_object b)" if "h3 x = Some b" for x b
  proof (cases "x \<in> set ?c")
    case True
    then show ?thesis using that h3[of x] o(2) by auto
  next
    case False
    then have "pool_heap s x = Some b" using that h3[of x] o1[of x] bh(3) hdc by (cases "x = hp") auto
    then show ?thesis using o(1) by (simp add: objs_def)
  qed
  then show ?thesis using 2(3) by (simp add: objs_def)
qed

lemma objs_PopChunk:
  assumes "Pool_PopChunk env s = Inr (s', head)" and "malloc_spec env"
    and "objs P (pool_heap s)" "P (env_new env)" "\<not> m_placementNew s"
  shows "objs P (pool_heap s') \<and> m_placementNew s' = m_placementNew s"
  using assms objs_NewChunk[of env s s' head P]
  by (auto simp: Pool_PopChunk_def Let_def split: if_splits elim!: and_then_InrE)

lemma objs_Refill:
  assumes r: "TLS_Refill env t s = Inr s'" and "malloc_spec env"
    and o: "objs P (pool_heap s)" "P (env_new env)" "\<not> m_placementNew s"
  shows "objs P (pool_heap s') \<and> m_placementNew s' = m_placementNew s"
proof (cases "chunkTop (t_cache s t) = 0")
  case True
  then obtain s1 head c where "Pool_PopChunk env s = Inr (s1, head)" "s' = s1\<lparr>t_cache := c\<rparr>"
    using r by (auto simp: TLS_Refill_def Let_def elim!: and_then_InrE)
  then show ?thesis using objs_PopChunk[of env s s1 head P] assms by auto
next
  case False
  then have "pool_heap s' = pool_heap s \<and> m_placementNew s' = m_placementNew s"
    using r by (auto simp: TLS_Refill_def Let_def elim!: and_then_InrE)
  then show ?thesis using o by simp
qed

lemma objs_alloc_tail:
  assumes "alloc_tail env t s = Inr (s', p)" and "objs P (pool_heap s)" "\<not> m_placementNew s"
  shows "objs P (pool_heap s')"
proof -
  obtain c s2 where "Pool_ValidateAlloc (s\<lparr>t_cache := c\<rparr>) p = Inr s2" "s' = s2 \<or> m_placementNew s2"
    "m_placementNew s2 = m_placementNew s"
    using assms(1)
    by (auto simp: alloc_tail_def Let_def Pool_ValidateAlloc_def elim!: and_then_InrE split: if_splits)
  then show ?thesis using objs_ValidateAlloc[of "s\<lparr>t_cache := c\<rparr>" p s2 P] assms(2,3) by auto
qed

lemma objs_Alloc:
  assumes "TLS_Alloc env t s = Inr (s', p)" and "malloc_spec env"
    and "objs P (pool_heap s)" "P (env_new env)" "\<not> m_placementNew s"
  shows "objs P (pool_heap s')"
  using assms objs_Refill[of env t s _ P] objs_alloc_tail[of env t _ s' p P]
  by (auto simp: TLS_Alloc_eq split: if_splits elim!: and_then_InrE)

lemma objs_Seal:
  assumes r: "TLS_Seal t s = Inr s'" and o: "objs P (pool_heap s)"
  shows "objs P (pool_heap s')"
proof -
  obtain h where h: "store (pool_heap s) (cur (t_cache s t))
      (\<lambda>blk. blk\<lparr>b_count := curCount (t_cache s t), b_chunkNext := chunkTop (t_cache s t)\<rparr>) = Inr h"
    using r by (auto simp: TLS_Seal_def Let_def elim!: and_then_InrE)
  have oh: "objs P h" using h o by (rule objs_store) simp
  consider "pool_heap s' = h" | c g where "Pool_PushChunk (s\<lparr>pool_heap := h, t_cache := c\<rparr>) g = Inr s'"
    using r h by (auto simp: TLS_Seal_def Let_def elim!: and_then_InrE split: if_splits)
  then show ?thesis
    by cases (use oh objs_PushChunk[of _ _ s' P] in \<open>auto\<close>)
qed

lemma objs_Free:
  assumes r: "TLS_Free t p s = Inr s'" and o: "objs P (pool_heap s)"
  shows "objs P (pool_heap s')"
proof -
  obtain s1 h where 1: "Pool_ValidateFree s p = Inr s1"
    "store (pool_heap s1) p (\<lambda>blk. blk\<lparr>b_next := cur (t_cache s1 t)\<rparr>) = Inr h"
    using r by (auto simp: TLS_Free_def Let_def elim!: and_then_InrE)
  have "objs P (pool_heap s1)" using 1(1) o by (rule objs_ValidateFree)
  with 1(2) have oh: "objs P h" by (rule objs_store) simp
  consider "pool_heap s' = h" | c where "TLS_Seal t (s1\<lparr>pool_heap := h, t_cache := c\<rparr>) = Inr s'"
    using r 1 by (auto simp: TLS_Free_def Let_def elim!: and_then_InrE split: if_splits)
  then show ?thesis
    by cases (use oh objs_Seal[of t _ s' P] in \<open>auto\<close>)
qed

lemma live_not_in_use: "q \<notin> in_use s \<Longrightarrow> live s q = None"
  using dom_live[of s] by (metis domIff)

lemma live_eqI:
  "(q \<in> in_use s' \<longleftrightarrow> q \<in> in_use s) \<Longrightarrow> (q \<in> in_use s \<Longrightarrow> pool_heap s' q = pool_heap s q) \<Longrightarrow>
   live s' q = live s q"
  by (cases "q \<in> in_use s") (simp_all add: live_not_in_use, simp add: live_def)

lemma store_alloc:
  assumes s: "store_inv P s" and mal: "malloc_spec env" and n: "P (env_new env)" and r: "ready env t s"
  shows "\<exists>s' p x. TLS_Alloc env t s = Inr (s', p) \<and> store_inv P s' \<and> p \<noteq> 0 \<and> live s p = None \<and>
    live s' = (live s)(p \<mapsto> x) \<and> P x \<and> (\<not> has_free t s \<longrightarrow> has_free t s')"
proof -
  obtain v where v: "shape s v" "bounded v" using s by (auto simp: store_inv_def pool_inv_def)
  obtain s' p where 1: "TLS_Alloc env t s = Inr (s', p)" "pool_inv s'" "alloc_post s s' p"
    "\<not> has_free t s \<longrightarrow> has_free t s'"
    using Alloc_ok[OF v mal, of t] r by (auto simp: ready_def)
  have pn: "m_placementNew s' = m_placementNew s" using 1(3) by (simp add: alloc_post_def)
  have o: "objs P (pool_heap s')"
    using objs_Alloc[OF 1(1) mal, of P] s n by (simp add: store_inv_def)
  have iu: "in_use s' = insert p (in_use s)" "p \<notin> in_use s" "p \<noteq> 0"
    "\<forall>a\<in>in_use s. pool_heap s' a = pool_heap s a" using 1(3) by (simp_all add: alloc_post_def)
  obtain x where x: "live s' p = Some x" using iu(1) dom_live[of s'] by (metis domD insertI1)
  have "P x" using x o by (auto simp: live_def objs_def split: option.splits if_splits)
  moreover have "live s' = (live s)(p \<mapsto> x)"
  proof
    fix q
    show "live s' q = ((live s)(p \<mapsto> x)) q"
    proof (cases "q = p")
      case False
      then show ?thesis using iu(1,4) by (auto intro: live_eqI)
    qed (simp add: x)
  qed
  moreover have "live s p = None" using iu(2) dom_live[of s] by (metis domIff)
  ultimately show ?thesis using 1 iu o pn s by (auto simp: store_inv_def)
qed

lemma store_free:
  assumes s: "store_inv P s" and p: "live s p \<noteq> None"
  shows "\<exists>s'. TLS_Free t p s = Inr s' \<and> store_inv P s' \<and> live s' = (live s)(p := None) \<and> has_free t s'"
proof -
  obtain v where v: "shape s v" "bounded v" using s by (auto simp: store_inv_def pool_inv_def)
  have "p \<in> in_use s" using p dom_live[of s] by blast
  from Free_ok[OF v this, of t] obtain s' where 1: "TLS_Free t p s = Inr s'" "pool_inv s'"
    "in_use s' = in_use s - {p}" "m_placementNew s' = m_placementNew s"
    "\<forall>a\<in>in_use s - {p}. pool_heap s' a = pool_heap s a" "has_free t s'" by auto
  have "objs P (pool_heap s')" using objs_Free[OF 1(1)] s by (simp add: store_inv_def)
  moreover have "live s' = (live s)(p := None)"
  proof
    fix q
    show "live s' q = ((live s)(p := None)) q"
      using 1(3,5) live_not_in_use[of q s'] by (cases "q = p") (auto intro: live_eqI)
  qed
  ultimately show ?thesis using 1 s by (auto simp: store_inv_def)
qed

lemma live_SomeD:
  "live s p = Some x \<Longrightarrow> \<exists>b. pool_heap s p = Some b \<and> b_useFlag b = 1 \<and> b_object b = x"
  by (auto simp: live_def split: option.splits if_splits)

lemma store_get:
  assumes "store_inv P s" and "live s p = Some x"
  shows "obj_get s p = Inr x" and "P x"
proof -
  obtain v where v: "shape s v" using assms(1) by (auto simp: store_inv_def pool_inv_def)
  have "p \<in> in_use s" using assms(2) dom_live[of s] by blast
  from shape_used(1)[OF v this] live_SomeD[OF assms(2)] show "obj_get s p = Inr x"
    by (auto simp: obj_get_def deref_def)
  show "P x" using assms live_SomeD[OF assms(2)] by (auto simp: store_inv_def objs_def)
qed

lemma store_put:
  assumes s: "store_inv P s" and p: "live s p \<noteq> None" and y: "P y"
  shows "\<exists>s'. obj_put s p y = Inr s' \<and> store_inv P s' \<and> live s' = (live s)(p \<mapsto> y) \<and>
    ready env t s' = ready env t s \<and> has_free t s' = has_free t s"
proof -
  obtain v where v: "shape s v" "bounded v" using s by (auto simp: store_inv_def pool_inv_def)
  have "p \<in> in_use s" using p dom_live[of s] by blast
  from store_object_shape[OF v(1) this, of y] obtain blk where b: "pool_heap s p = Some blk" "p \<noteq> 0"
    "shape (s\<lparr>pool_heap := (pool_heap s)(p \<mapsto> blk\<lparr>b_object := y\<rparr>)\<rparr>) v" 
    "in_use (s\<lparr>pool_heap := (pool_heap s)(p \<mapsto> blk\<lparr>b_object := y\<rparr>)\<rparr>) = in_use s" by blast
  let ?s = "s\<lparr>pool_heap := (pool_heap s)(p \<mapsto> blk\<lparr>b_object := y\<rparr>)\<rparr>"
  have "obj_put s p y = Inr ?s" using b(1,2) by (simp add: obj_put_def store_ok)
  moreover have "store_inv P ?s"
    using s b(3) v(2) y by (auto simp: store_inv_def pool_inv_def objs_def)
  moreover have "live ?s = (live s)(p \<mapsto> y)"
    using \<open>p \<in> in_use s\<close> b(1) by (auto simp: live_def in_use_def fun_eq_iff)
  moreover have "taken (pool_heap ?s) = taken (pool_heap s)"
    using b(1) by (auto simp: taken_def fun_eq_iff)
  then have "can_grow env ?s = can_grow env s" by (simp add: can_grow_def)
  moreover have "has_free t ?s = has_free t s" by (simp add: has_free_def)
  ultimately show ?thesis by (auto simp: ready_def)
qed

section \<open>Construction and thread exit\<close>

lemma empty_pool_inv:
  "pool_inv \<lparr>pool_this = this, m_placementNew = pn, m_maxChunks = mx, m_chunkCount = 0, m_top = 0,
     pool_heap = Map.empty, t_cache = (\<lambda>_. empty_cache)\<rparr>"
proof -
  have "Pool_GetPointer 0 = 0" by (simp add: Pool_GetPointer_def)
  then show ?thesis unfolding pool_inv_def
    by (intro exI[of _ "\<lambda>_. []"])
      (simp add: shape_def bounded_def heap_ok_def links_def separated_def free_set_def cells_def
        empty_cache_def Pool_GetCapacityCount_def CHUNK_SIZE_def)
qed

lemma push_new_chunks_inv:
  assumes "malloc_spec env"
  shows "shape s v \<Longrightarrow> bounded v \<Longrightarrow> push_new_chunks env n s = Inr s' \<Longrightarrow>
    pool_inv s' \<and> in_use s' = in_use s \<and> m_chunkCount s' = m_chunkCount s + of_nat n"
proof (induction n arbitrary: s v)
  case (Suc n)
  obtain s1 head s2 where r: "Pool_NewChunk env s = Inr (s1, head)" "Pool_PushChunk s1 head = Inr s2"
    "push_new_chunks env n s2 = Inr s'"
    using Suc.prems(3) by (auto elim!: and_then_InrE)
  have hand: "v Hand = []" using Suc.prems(2) by (simp add: bounded_def)
  from NewChunk_shape[OF Suc.prems(1) hand assms NewChunk_InrD[OF r(1)]] r(1) obtain c where
    1: "shape s1 (v(Hand := [c]))" "frame s s1" "chain (pool_heap s1) c head" "c \<noteq> []"
      "length c = CHUNK_SIZE" "map_option b_count (pool_heap s1 head) = Some (of_nat (length c))"
      "m_chunkCount s1 = m_chunkCount s + 1" by auto
  from PushChunk_shape[OF 1(1) _ 1(3,4) _ 1(6), of "[]"] 1(5) r(2) have
    2: "shape s2 (v(Hand := [], Shared := c # v Shared))" "frame s1 s2" "m_chunkCount s2 = m_chunkCount s1"
    by auto
  have "bounded (v(Hand := [], Shared := c # v Shared))" using Suc.prems(2) by (simp add: bounded_def)
  from Suc.IH[OF 2(1) this r(3)] 1(2,7) 2(2,3) show ?case by (simp add: frame_def)
qed (auto simp: pool_inv_def)

lemma release_chunks_shape:
  "shape s v \<Longrightarrow> v Hand = cs \<Longrightarrow> chunks (pool_heap s) cs ct \<Longrightarrow> length cs \<le> fuel \<Longrightarrow>
   \<exists>s' v'. release_chunks fuel ct s = Inr s' \<and> shape s' v' \<and> v' Hand = [] \<and>
     (\<forall>t. v' (Cur t) = v (Cur t) \<and> v' (Sealed t) = v (Sealed t)) \<and> frame s s' \<and> t_cache s' = t_cache s"
proof (induction cs arbitrary: s v ct fuel)
  case Nil
  then show ?case by (auto simp: release_chunks.simps)
next
  case (Cons c cs)
  obtain f' where f: "fuel = Suc f'" "length cs \<le> f'" using Cons.prems(4) by (cases fuel) auto
  obtain b where b: "c \<noteq> []" "length c \<le> CHUNK_SIZE" "chain (pool_heap s) c ct" "pool_heap s ct = Some b"
    "b_count b = of_nat (length c)" "chunks (pool_heap s) cs (b_chunkNext b)"
    using Cons.prems(3) by auto
  have ct: "ct \<noteq> 0" "ct \<in> set c" using chain_hd[OF b(3,1)] hd_in_set[OF b(1)] by auto
  obtain s1 where 1: "Pool_PushChunk s ct = Inr s1" "shape s1 (v(Hand := cs, Shared := c # v Shared))"
    "frame s s1" "t_cache s1 = t_cache s" "\<forall>x. x \<noteq> ct \<longrightarrow> pool_heap s1 x = pool_heap s x"
    using PushChunk_shape[OF Cons.prems(1,2) b(3,1,2)] b(4,5) by auto
  have "distinct (concat (v Hand))"
    using Cons.prems(1) unfolding shape_def separated_def cells_def by blast
  then have "ct \<notin> set (concat cs)" using ct(2) Cons.prems(2) by auto
  then have "chunks (pool_heap s1) cs (b_chunkNext b)"
    using b(6) 1(5) by (subst chunks_cong[where h = "pool_heap s"]) auto
  from Cons.IH[OF 1(2) _ this f(2)] obtain s' v' where 2: "release_chunks f' (b_chunkNext b) s1 = Inr s'"
    "shape s' v'" "v' Hand = []" "\<forall>t. v' (Cur t) = v (Cur t) \<and> v' (Sealed t) = v (Sealed t)"
    "frame s1 s'" "t_cache s' = t_cache s1" by auto
  have "release_chunks fuel ct s = Inr s'"
    using f(1) ct(1) b(4) 1(1) 2(1) by (subst release_chunks.simps) (simp add: deref_ok)
  then show ?case using 2 1(3,4) frame_trans[OF 1(3) 2(5)] by auto
qed

lemma Cache_destruct_ok:
  assumes s: "shape s v" "bounded v" and f: "fuel \<ge> 10"
  shows "\<exists>s'. Cache_destruct fuel t s = Inr s' \<and> pool_inv s' \<and> frame s s' \<and>
    t_cache s' t = empty_cache"
proof -
  let ?c = "t_cache s t"
  let ?cur = "cells v (Cur t)" and ?se = "v (Sealed t)"
  have hand: "v Hand = []" using s(2) by (simp add: bounded_def)
  have ch: "chain (pool_heap s) ?cur (cur ?c)" "curCount ?c = of_nat (length ?cur)"
    "chunks (pool_heap s) ?se (chunkTop ?c)"
    using s(1) by (auto simp: shape_def links_def)
  define s0 where "s0 = s\<lparr>t_cache := (t_cache s)(t := empty_cache)\<rparr>"
  have fr0: "frame s s0" by (simp add: frame_def s0_def in_use_def)
  define v0 where "v0 = v(Cur t := [], Hand := [?cur])"
  have sep0: "separated v0 \<and> free_set v0 = free_set v" unfolding v0_def
    by (rule separated_rearrange) (use s hand in \<open>auto simp: shape_def cells_def\<close>)
  define v1 where "v1 = v0(Sealed t := [], Hand := ?cur # ?se)"
  have sep1: "separated v1 \<and> free_set v1 = free_set v0" unfolding v1_def
    by (rule separated_rearrange) (use sep0 in \<open>auto simp: v0_def cells_def\<close>)
  have sh1: "shape s0 v1"
    using s(1) sep0 sep1
    by (auto simp: shape_def links_def s0_def v1_def v0_def empty_cache_def Pool_GetCapacityCount_def)
  have v1: "v1 Hand = ?cur # ?se" "v1 (Cur t) = []" "v1 (Sealed t) = []"
    "\<And>u. u \<noteq> t \<Longrightarrow> v1 (Cur u) = v (Cur u) \<and> v1 (Sealed u) = v (Sealed u)"
    by (auto simp: v1_def v0_def)
  have bnd: "bounded v'" if "v' Hand = []" "\<forall>u. v' (Cur u) = v1 (Cur u) \<and> v' (Sealed u) = v1 (Sealed u)" for v'
    unfolding bounded_def
  proof (intro conjI allI)
    fix u
    show "length (cells v' (Cur u)) < CHUNK_SIZE"
      using that(2) v1 s(2) by (cases "u = t") (auto simp: bounded_def cells_def CHUNK_SIZE_def)
    show "length (v' (Sealed u)) \<le> 10"
      using that(2) v1 s(2) by (cases "u = t") (auto simp: bounded_def)
  qed (rule that(1))
  have len: "length ?se \<le> fuel" using s(2) f by (meson bounded_def order_trans)
  have tail: "\<exists>s'. release_chunks fuel (chunkTop ?c) s2 = Inr s' \<and> pool_inv s' \<and> frame s2 s' \<and>
      t_cache s' = t_cache s2"
    if "shape s2 v2" "v2 Hand = ?se" "chunks (pool_heap s2) ?se (chunkTop ?c)"
      "\<forall>u. v2 (Cur u) = v1 (Cur u) \<and> v2 (Sealed u) = v1 (Sealed u)" for s2 v2
    using release_chunks_shape[OF that(1,2,3) len] that(4) bnd by (metis pool_inv_def)
  show ?thesis
  proof (cases "cur ?c = 0")
    case True
    then have "?cur = []" using ch(1) by (metis chain_hd)
    let ?v2 = "v1(Hand := ?se)"
    have "cells ?v2 p = cells v1 p" for p using v1(1) \<open>?cur = []\<close> by (simp add: cells_def)
    then have "shape s0 ?v2" using sh1 by (simp add: shape_def links_def separated_def free_set_def)
    from tail[OF this] ch(3) True fr0 frame_trans show ?thesis
      by (auto simp: Cache_destruct_def Let_def s0_def)
  next
    case False
    then have ne: "?cur \<noteq> []" using ch(1) by auto
    have mem: "cur ?c \<in> set (cells v1 Hand)"
      using chain_hd[OF ch(1) ne] hd_in_set[OF ne] v1(1) by (simp add: cells_def)
    obtain b where b: "pool_heap s0 (cur ?c) = Some b" using shape_free(3)[OF sh1 mem] by blast
    let ?h = "(pool_heap s0)(cur ?c \<mapsto> b\<lparr>b_count := curCount ?c\<rparr>)"
    have 2: "store (pool_heap s0) (cur ?c) (\<lambda>blk. blk\<lparr>b_count := curCount ?c\<rparr>) = Inr ?h"
      "shape (s0\<lparr>pool_heap := ?h\<rparr>) v1" "frame s0 (s0\<lparr>pool_heap := ?h\<rparr>)"
      by (rule shape_store_hand[OF sh1 mem b]; simp)+
    have c2: "chain ?h ?cur (cur ?c)"
      using ch(1) b by (subst chain_cong[where h = "pool_heap s"]) (auto simp: s0_def)
    have le: "length ?cur \<le> CHUNK_SIZE" using s(2) by (simp add: bounded_def less_imp_le)
    obtain s3 where 3: "Pool_PushChunk (s0\<lparr>pool_heap := ?h\<rparr>) (cur ?c) = Inr s3"
      "shape s3 (v1(Hand := ?se, Shared := ?cur # v1 Shared))" "frame (s0\<lparr>pool_heap := ?h\<rparr>) s3"
      "t_cache s3 = t_cache s0" "\<forall>x. x \<noteq> cur ?c \<longrightarrow> pool_heap s3 x = ?h x"
      using PushChunk_shape[OF 2(2) v1(1) _ ne le, of "cur ?c"] c2 ch(2) by auto
    have "distinct (concat (v1 Hand))" using sh1 unfolding shape_def separated_def cells_def by blast
    moreover have "cur ?c \<in> set ?cur" using chain_hd[OF ch(1) ne] hd_in_set[OF ne] by simp
    ultimately have "cur ?c \<notin> set (concat ?se)" using v1(1) by auto
    note nin = this
    have "\<forall>x\<in>set (concat ?se). map_option lnk (pool_heap s3 x) = map_option lnk (pool_heap s x)"
    proof
      fix x assume "x \<in> set (concat ?se)"
      with nin have "x \<noteq> cur ?c" by blast
      then show "map_option lnk (pool_heap s3 x) = map_option lnk (pool_heap s x)"
        using 3(5) by (simp add: s0_def)
    qed
    then have "chunks (pool_heap s3) ?se (chunkTop ?c)"
      using ch(3) by (subst chunks_cong[where h = "pool_heap s"])
    from tail[OF 3(2) _ this] obtain s' where 4: "release_chunks fuel (chunkTop ?c) s3 = Inr s'"
      "pool_inv s'" "frame s3 s'" "t_cache s' = t_cache s3" by auto
    have "Cache_destruct fuel t s = Inr s'"
      using False 2(1) 3(1) 4(1) by (simp add: Cache_destruct_def Let_def s0_def)
    moreover have "frame s s'" using fr0 2(3) 3(3) 4(3) frame_trans by blast
    ultimately show ?thesis using 4 3(4) by (simp add: s0_def)
  qed
qed

section \<open>An instance of the environment\<close>

definition sample_env :: "u32 pool_env" where
  "sample_env = \<lparr>
     env_malloc = (\<lambda>u. if list_all (\<lambda>i. \<not> u (0x10000 + of_nat i * 64)) [0..<300] then 0x10000 else 0),
     env_sizeof = 64,
     env_fresh = \<lparr>b_next = 0, b_chunkNext = 0, b_count = 0, b_useFlag = 0, b_owner = 0, b_frontGuard = 0,
       b_object = 0, b_backGuard = 0\<rparr>,
     env_new = 0\<rparr>"

definition sample_pool :: "u32 tls_pool" where
  "sample_pool = \<lparr>pool_this = 0x4000, m_placementNew = False, m_maxChunks = 0, m_chunkCount = 0,
     m_top = 0, pool_heap = Map.empty, t_cache = (\<lambda>_. empty_cache)\<rparr>"

lemma sample_addr: "0x10000 + of_nat i * 64 = (of_nat (65536 + i * 64) :: u64)"
  by simp

lemma sample_malloc: "malloc_spec sample_env"
proof -
  have "inj_on (\<lambda>i. 0x10000 + of_nat i * 64 :: u64) {0..<300}"
  proof (rule inj_onI)
    fix i j :: nat
    assume "i \<in> {0..<300}" "j \<in> {0..<300}" "0x10000 + of_nat i * 64 = (0x10000 + of_nat j * 64 :: u64)"
    then have "(of_nat (65536 + i * 64) :: u64) = of_nat (65536 + j * 64)" "i < 300" "j < 300" by simp_all
    then have "65536 + i * 64 = 65536 + j * 64"
      unfolding word_of_nat_eq_iff by (simp add: take_bit_nat_eq_self)
    then show "i = j" by simp
  qed
  then have d: "distinct (map (\<lambda>i. 0x10000 + of_nat i * 64 :: u64) [0..<300])"
    by (simp add: distinct_map)
  have u: "(0x10000 + of_nat i * 64 :: u64) \<noteq> 0 \<and> user_ptr (0x10000 + of_nat i * 64)" if "i < 300" for i
  proof -
    have "(of_nat (65536 + i * 64) :: u64) \<noteq> of_nat 0"
      using that unfolding word_of_nat_eq_iff by (simp add: take_bit_nat_eq_self)
    moreover have "take_bit 47 (of_nat (65536 + i * 64) :: u64) = of_nat (take_bit 47 (65536 + i * 64))"
      by (simp only: take_bit_of_nat)
    moreover have "take_bit 47 (65536 + i * 64) = 65536 + i * 64"
      using that by (intro take_bit_nat_eq_self) simp
    ultimately show ?thesis unfolding sample_addr user_ptr_def by simp
  qed
  show ?thesis unfolding malloc_spec_def
    using d u by (auto simp: sample_env_def chunk_addrs_def CHUNK_SIZE_def list_all_iff split: if_splits)
qed

lemma sample_inv: "pool_inv sample_pool" "in_use sample_pool = {}"
  unfolding sample_pool_def by (rule empty_pool_inv) (simp add: in_use_def)

lemma sample_grow: "can_grow sample_env sample_pool"
  by (simp add: can_grow_def sample_env_def sample_pool_def list_all_iff taken_def)

lemma sample_alloc:
  "\<exists>s b. TLS_Alloc sample_env t sample_pool = Inr (s, b) \<and> pool_inv s \<and> b \<in> in_use s \<and> has_free t s"
proof -
  obtain v where "shape sample_pool v" "bounded v" using sample_inv by (auto simp: pool_inv_def)
  moreover have "\<not> has_free t sample_pool"
    by (simp add: has_free_def sample_pool_def empty_cache_def Pool_GetPointer_def)
  ultimately show ?thesis using Alloc_ok[of sample_pool v sample_env t] sample_malloc sample_grow
    by (auto simp: alloc_post_def)
qed

section \<open>Properties\<close>

text \<open>
  The three bit operations of the tagged pointers fit together: a 47-bit address comes back
  from the word \<open>MakeTagged\<close> builds, and so does the tag, modulo 2^17.
\<close>
lemma tagged_pointer_roundtrip:
  assumes "user_ptr p"
  shows "Pool_GetPointer (Pool_MakeTagged t p) = p \<and> Pool_GetTag (Pool_MakeTagged t p) = t AND 0x1FFFF"
  using assms by (simp add: GetTag_MakeTagged)

lemma tagged_pointer_roundtrip_witness:
  "Pool_GetPointer (Pool_MakeTagged 0x20005 0x10040) = 0x10040 \<and>
   Pool_GetTag (Pool_MakeTagged 0x20005 0x10040) = 0x20005 AND 0x1FFFF"
  by (rule tagged_pointer_roundtrip) (simp add: user_ptr_def take_bit_eq_mask mask_eq_exp_minus_1)

text \<open>
  C13. \<open>Alloc\<close> succeeds whenever the thread's cache, the shared stack or a new chunk can supply a
  block. The block is not in use, it becomes the only new one in use, no block in use
  is touched, a pool with placement new constructs the object, and the pool's invariant (every block
  in exactly one free list or in use, counts right, at most ten sealed chunks per thread) is kept.
\<close>
lemma pool_alloc_fresh:
  assumes "malloc_spec env" and "pool_inv s" and "has_free t s \<or> can_grow env s"
  shows "\<exists>s' b. TLS_Alloc env t s = Inr (s', b) \<and> pool_inv s' \<and> b \<noteq> 0 \<and> b \<notin> in_use s \<and>
    in_use s' = insert b (in_use s) \<and> (\<forall>a\<in>in_use s. pool_heap s' a = pool_heap s a) \<and>
    (m_placementNew s \<longrightarrow> map_option b_object (pool_heap s' b) = Some (env_new env))"
proof -
  obtain v where "shape s v" "bounded v" using assms(2) by (auto simp: pool_inv_def)
  from Alloc_ok[OF this assms(1,3)] show ?thesis by (auto simp: alloc_post_def)
qed

lemma pool_alloc_fresh_witness:
  "\<exists>s' b. TLS_Alloc sample_env 3 sample_pool = Inr (s', b) \<and> pool_inv s' \<and> in_use s' = {b}"
  using pool_alloc_fresh[OF sample_malloc sample_inv(1), of 3] sample_grow sample_inv(2) by auto

text \<open>
  C14. A block in use can be returned on any thread, and then leaves the set of blocks in use; a
  second \<open>Free\<close> of it, on any thread, stops in the debugger.
\<close>
lemma pool_free_once:
  assumes "pool_inv s" and "b \<in> in_use s"
  shows "\<exists>s'. TLS_Free t b s = Inr s' \<and> pool_inv s' \<and> in_use s' = in_use s - {b} \<and>
    TLS_Free u b s' = Inl DebugBreak"
proof -
  obtain v where "shape s v" "bounded v" using assms(1) by (auto simp: pool_inv_def)
  from Free_ok[OF this assms(2), of t] obtain s' blk where
    1: "TLS_Free t b s = Inr s'" "pool_inv s'" "in_use s' = in_use s - {b}" "pool_heap s' b = Some blk"
    by auto
  have "b \<noteq> 0" using \<open>shape s v\<close> assms(2) by (rule shape_used)
  moreover have "b_useFlag blk \<noteq> 1" using 1(3,4) by (auto simp: in_use_def)
  ultimately have "TLS_Free u b s' = Inl DebugBreak"
    by (intro Free_rejects[of s' b blk]) (auto simp: deref_ok 1(4))
  with 1 show ?thesis by blast
qed

lemma pool_free_once_witness:
  "\<exists>s b s'. TLS_Alloc sample_env 0 sample_pool = Inr (s, b) \<and> TLS_Free 1 b s = Inr s' \<and>
    TLS_Free 2 b s' = Inl DebugBreak"
proof -
  obtain s b where a: "TLS_Alloc sample_env 0 sample_pool = Inr (s, b)" "pool_inv s" "b \<in> in_use s"
    using sample_alloc by blast
  then show ?thesis using pool_free_once[OF a(2,3), of 1 2] by blast
qed

text \<open>
  C15. However allocations and releases of the threads are ordered: as long as a block that is in
  use is not freed, no \<open>Alloc\<close> returns it again, it stays in use, and the pool never writes to
  it.
\<close>
lemma pool_never_reissues:
  assumes "malloc_spec env" and "pool_inv s" and "pool_run (TLS_Alloc env) TLS_Free ops s = Inr (s', ps)"
    and "q \<in> in_use s" and "\<forall>t. PFree t q \<notin> set ops"
  shows "pool_inv s' \<and> q \<notin> set ps \<and> q \<in> in_use s' \<and> pool_heap s' q = pool_heap s q"
  using tls.run_sound[of env s ops s' ps] assms by blast

lemma pool_never_reissues_witness:
  "\<exists>s b s' ps. TLS_Alloc sample_env 0 sample_pool = Inr (s, b) \<and>
    pool_run (TLS_Alloc sample_env) TLS_Free [PAlloc 0] s = Inr (s', ps) \<and> b \<notin> set ps"
proof -
  obtain s b where a: "TLS_Alloc sample_env 0 sample_pool = Inr (s, b)" "pool_inv s" "b \<in> in_use s"
      "has_free 0 s"
    using sample_alloc by blast
  then obtain s' c where r: "pool_run (TLS_Alloc sample_env) TLS_Free [PAlloc 0] s = Inr (s', [c])"
    using tls.alloc_total[of sample_env s 0] sample_malloc by auto
  then show ?thesis using pool_never_reissues[OF sample_malloc a(2) r a(3)] a(1) by auto
qed

text \<open>
  When a thread ends, its whole cache goes back to the shared stack: the invariant holds for the
  other threads, no block is lost and the blocks in use are untouched. Ten steps of the loop
  are enough.
\<close>
lemma cache_destruct_returns_all:
  assumes "pool_inv s" and "10 \<le> fuel"
  shows "\<exists>s'. Cache_destruct fuel t s = Inr s' \<and> pool_inv s' \<and> in_use s' = in_use s \<and>
    dom (pool_heap s) \<subseteq> dom (pool_heap s') \<and> t_cache s' t = empty_cache \<and>
    (\<forall>a\<in>in_use s. pool_heap s' a = pool_heap s a)"
proof -
  obtain v where "shape s v" "bounded v" using assms(1) by (auto simp: pool_inv_def)
  from Cache_destruct_ok[OF this assms(2), of t] show ?thesis by (auto simp: frame_def)
qed

lemma cache_destruct_returns_all_witness:
  "\<exists>s b s'. TLS_Alloc sample_env 0 sample_pool = Inr (s, b) \<and> Cache_destruct 10 0 s = Inr s' \<and>
    pool_inv s' \<and> b \<in> in_use s'"
proof -
  obtain s b where a: "TLS_Alloc sample_env 0 sample_pool = Inr (s, b)" "pool_inv s" "b \<in> in_use s"
    using sample_alloc by blast
  then show ?thesis using cache_destruct_returns_all[OF a(2), of 10 0] by fastforce
qed

text \<open>
  A constructed pool satisfies the invariant: its initial blocks, rounded up to whole chunks of
  300, are all free on the shared stack, and nothing is in use.
\<close>
lemma pool_construct_inv:
  fixes env :: "'a pool_env"
  assumes "malloc_spec env" and "Pool_construct env this pn initial mx = Inr s"
  shows "pool_inv s \<and> in_use s = {} \<and>
    m_chunkCount s = of_nat (unat ((initial + of_nat CHUNK_SIZE - 1) div of_nat CHUNK_SIZE))"
proof -
  let ?s0 = "\<lparr>pool_this = this, m_placementNew = pn,
     m_maxChunks = (mx + of_nat CHUNK_SIZE - 1) div of_nat CHUNK_SIZE,
     m_chunkCount = 0, m_top = 0, pool_heap = Map.empty, t_cache = (\<lambda>_. empty_cache)\<rparr> :: 'a tls_pool"
  obtain v where "shape ?s0 v" "bounded v" using empty_pool_inv unfolding pool_inv_def by blast
  from push_new_chunks_inv[OF assms(1) this] assms(2) show ?thesis
    by (auto simp: Pool_construct_def Let_def in_use_def)
qed

lemma pool_construct_inv_witness:
  "\<exists>s. Pool_construct sample_env 0x4000 False 0 0 = Inr s \<and> pool_inv s \<and> in_use s = {}"
proof -
  have "Pool_construct sample_env 0x4000 False 0 0 = Inr sample_pool"
    by (simp add: Pool_construct_def sample_pool_def CHUNK_SIZE_def)
  then show ?thesis using pool_construct_inv[OF sample_malloc] by blast
qed

end
