(* ===== verification/PacketPool.thy ===== *)
theory PacketPool
  imports PacketBuffer MemoryPool
begin

text \<open>
  The reference-counted packets of \<open>MyLibrary/PacketBuffer.cpp\<close>: \<open>Packet::Alloc\<close>,
  \<open>Free\<close>, \<open>AddRef\<close> and the counters, over the pool \<open>s_packetPool\<close>. A packet pointer is
  the address of its block in the pool. The operations of one packet are those of
  \<open>PacketBuffer\<close>, applied to the object behind the pointer. The locale \<open>refcounted\<close> is what the
  servers rely on: references are counted, and the last release returns the packet.
\<close>

section \<open>Operations\<close>

type_synonym packet_pool = "packet tls_pool"

text \<open>\<open>s_packetPool(false, 0, 0)\<close>; \<open>this\<close> is the address of the pool.\<close>

definition s_packetPool :: "packet pool_env \<Rightarrow> u64 \<Rightarrow> packet_pool result" where
  "s_packetPool env this = Pool_construct env this False 0 0"

definition Packet_Alloc :: "packet pool_env \<Rightarrow> tid \<Rightarrow> packet_pool \<Rightarrow> (packet_pool \<times> u64) result" where
  "Packet_Alloc env t s =
     and_then (TLS_Alloc env t s) (\<lambda>(s, p).
     and_then (obj_get s p) (\<lambda>x.
     and_then (obj_put s p ((Packet_Clear x)\<lparr>m_refCount := 1\<rparr>)) (\<lambda>s.
     Inr (s, p))))"

definition Packet_Free :: "tid \<Rightarrow> u64 \<Rightarrow> packet_pool \<Rightarrow> packet_pool result" where
  "Packet_Free t p s =
     and_then (obj_get s p) (\<lambda>x.
     let ref = m_refCount x - 1 in
     and_then (obj_put s p (x\<lparr>m_refCount := ref\<rparr>)) (\<lambda>s.
     if sint ref > 0 then Inr s
     else if sint ref < 0 then Inl DebugBreak
     else TLS_Free t p s))"

definition Packet_AddRef :: "u64 \<Rightarrow> packet_pool \<Rightarrow> packet_pool result" where
  "Packet_AddRef p s =
     and_then (obj_get s p) (\<lambda>x. obj_put s p (x\<lparr>m_refCount := m_refCount x + 1\<rparr>))"

text \<open>\<open>LFMP_STATS\<close> is 0.\<close>

definition Packet_GetUseCount :: "packet_pool \<Rightarrow> int" where
  "Packet_GetUseCount s = -1"

definition Packet_GetCapacityCount :: "packet_pool \<Rightarrow> u32" where
  "Packet_GetCapacityCount s = Pool_GetCapacityCount s"

text \<open>An operation of one packet, through its pointer.\<close>

definition on_packet :: "u64 \<Rightarrow> (packet \<Rightarrow> packet result) \<Rightarrow> packet_pool \<Rightarrow> packet_pool result" where
  "on_packet p f s = and_then (obj_get s p) (\<lambda>x. and_then (f x) (\<lambda>y. obj_put s p y))"

section \<open>Invariant and laws\<close>

text \<open>Every packet of the pool has the block of the default constructor; a packet in use has a
  positive count.\<close>

definition packet_ok :: "packet \<Rightarrow> bool" where
  "packet_ok x \<longleftrightarrow> packet_inv x \<and> m_iBufferSize x = 1405"

definition pkt_inv :: "packet_pool \<Rightarrow> bool" where
  "pkt_inv s \<longleftrightarrow> store_inv packet_ok s \<and> (\<forall>p x. live s p = Some x \<longrightarrow> 0 < sint (m_refCount x))"

definition refs :: "packet_pool \<Rightarrow> u64 \<Rightarrow> nat" where
  "refs s p = (case live s p of None \<Rightarrow> 0 | Some x \<Rightarrow> unat (m_refCount x))"

text \<open>What is relied on of the environment: \<open>malloc\<close> as in the pool, and \<open>new char[1405]\<close> returns a
  block of that length.\<close>

definition pkt_env :: "packet pool_env \<Rightarrow> bool" where
  "pkt_env env \<longleftrightarrow> malloc_spec env \<and> (\<exists>mem. length mem = 1405 \<and> env_new env = Packet_default mem)"

lemma pkt_env_new: "pkt_env env \<Longrightarrow> packet_ok (env_new env)"
  by (auto simp: pkt_env_def packet_ok_def Packet_default_inv)
    (simp add: Packet_default_def Packet_Clear_def eBUFFER_DEFAULT_def eHEADER_RESERVE_def sizeof_NetServerHeader_def)

definition fresh_packet :: "packet \<Rightarrow> bool" where
  "fresh_packet x \<longleftrightarrow> packet_ok x \<and> m_iReadPos x = 5 \<and> m_iWritePos x = 5 \<and> m_iHeaderSize x = 0 \<and>
     \<not> m_bEncoded x \<and> m_refCount x = 1"

lemma fresh_Clear: "packet_ok x \<Longrightarrow> fresh_packet ((Packet_Clear x)\<lparr>m_refCount := 1\<rparr>)"
  by (auto simp: fresh_packet_def packet_ok_def packet_inv_def Packet_Clear_def)

lemma ref_update_ok [simp]: "packet_ok (x\<lparr>m_refCount := n\<rparr>) = packet_ok x"
  by (simp add: packet_ok_def packet_inv_def)

lemma Packet_Alloc_ok:
  assumes "pkt_inv s" and e: "pkt_env env" and "ready env t s"
  shows "\<exists>s' p x. Packet_Alloc env t s = Inr (s', p) \<and> pkt_inv s' \<and> p \<noteq> 0 \<and> live s p = None \<and>
    live s' = (live s)(p \<mapsto> x) \<and> fresh_packet x"
proof -
  have mal: "malloc_spec env" using e by (simp add: pkt_env_def)
  obtain s1 p x where 1: "TLS_Alloc env t s = Inr (s1, p)" "store_inv packet_ok s1" "p \<noteq> 0"
    "live s p = None" "live s1 = (live s)(p \<mapsto> x)" "packet_ok x"
    using store_alloc[of packet_ok s env t] assms pkt_env_new[OF e] mal by (auto simp: pkt_inv_def)
  let ?y = "(Packet_Clear x)\<lparr>m_refCount := 1\<rparr>"
  have y: "fresh_packet ?y" using fresh_Clear 1(6) .
  have g: "obj_get s1 p = Inr x" using store_get(1)[OF 1(2), of p x] 1(5) by simp
  obtain s2 where 2: "obj_put s1 p ?y = Inr s2" "store_inv packet_ok s2" "live s2 = (live s1)(p \<mapsto> ?y)"
    using store_put[OF 1(2), of p ?y env t] 1(5) y by (auto simp: fresh_packet_def)
  have "live s2 = (live s)(p \<mapsto> ?y)" using 2(3) 1(5) by simp
  moreover have "pkt_inv s2"
    using 2(2) calculation assms(1) y by (auto simp: pkt_inv_def fresh_packet_def)
  ultimately show ?thesis using 1 2(1) g y by (auto simp: Packet_Alloc_def)
qed

lemma Packet_Alloc_safe:
  assumes s: "pkt_inv s" and e: "pkt_env env"
  shows "safe (\<lambda>(s', p). pkt_inv s' \<and> p \<noteq> 0 \<and> live s p = None \<and>
    (\<exists>x. live s' = (live s)(p \<mapsto> x) \<and> fresh_packet x)) (Packet_Alloc env t s)"
proof (cases "ready env t s")
  case True
  from Packet_Alloc_ok[OF s e this] show ?thesis by (auto intro!: safe_ex)
next
  case False
  then have "TLS_Alloc env t s = Inl DebugBreak"
    by (intro Alloc_exhausted) (auto simp: ready_def can_grow_def)
  then show ?thesis by (simp add: Packet_Alloc_def)
qed

lemma refs_None: "refs s p = 0 \<longleftrightarrow> live s p = None" if "pkt_inv s"
proof (cases "live s p")
  case (Some x)
  then have "0 < sint (m_refCount x)" using that by (auto simp: pkt_inv_def)
  then have "unat (m_refCount x) \<noteq> 0" by (simp only: sint_u32_pos) simp
  then show ?thesis using Some by (simp add: refs_def)
qed (simp add: refs_def)

lemma live_refs:
  assumes "pkt_inv s" and "live s p = Some x"
  shows "refs s p = unat (m_refCount x)" "0 < refs s p" "refs s p < 2 ^ 31"
proof -
  have "0 < sint (m_refCount x)" using assms by (auto simp: pkt_inv_def)
  then show "refs s p = unat (m_refCount x)" "0 < refs s p" "refs s p < 2 ^ 31"
    using assms(2) by (simp_all only: refs_def sint_u32_pos option.case)
qed

lemma refs_live: "0 < refs s p \<Longrightarrow> \<exists>x. live s p = Some x"
  by (cases "live s p") (auto simp: refs_def)

text \<open>A packet may be rewritten through its pointer, with any positive count.\<close>

lemma put_packet:
  assumes s: "pkt_inv s" and x: "live s p = Some x" and y: "packet_ok y" "0 < sint (m_refCount y)"
  shows "\<exists>s'. obj_put s p y = Inr s' \<and> pkt_inv s' \<and> live s' = (live s)(p \<mapsto> y) \<and>
    (\<forall>env t. ready env t s' = ready env t s) \<and> (\<forall>t. has_free t s' = has_free t s)"
proof -
  have st: "store_inv packet_ok s" "live s p \<noteq> None" using s x by (auto simp: pkt_inv_def)
  obtain s' where s': "obj_put s p y = Inr s'" "store_inv packet_ok s'" "live s' = (live s)(p \<mapsto> y)"
    using store_put[OF st y(1)] by blast
  have "ready env t s' = ready env t s \<and> has_free t s' = has_free t s" for env t
    using store_put[OF st y(1), of env t] s'(1) by auto
  moreover have "pkt_inv s'" using s' s y(2) by (auto simp: pkt_inv_def)
  ultimately show ?thesis using s' by blast
qed

lemma get_packet:
  assumes "pkt_inv s" and "live s p = Some x"
  shows "obj_get s p = Inr x" "packet_ok x"
  using assms store_get[of packet_ok s p x] by (auto simp: pkt_inv_def)

lemma on_packet_ok:
  assumes s: "pkt_inv s" and x: "live s p = Some x" and f: "f x = Inr y"
    and y: "packet_ok y" "m_refCount y = m_refCount x"
  shows "\<exists>s'. on_packet p f s = Inr s' \<and> pkt_inv s' \<and> live s' = (live s)(p \<mapsto> y) \<and>
    (\<forall>q. refs s' q = refs s q) \<and>
    (\<forall>env t. ready env t s' = ready env t s) \<and> (\<forall>t. has_free t s' = has_free t s)"
proof -
  have "0 < sint (m_refCount y)" using s x y(2) by (auto simp: pkt_inv_def)
  from put_packet[OF s x y(1) this] get_packet[OF s x] f x y(2) show ?thesis
    by (auto simp: on_packet_def refs_def)
qed

lemma Packet_AddRef_ok:
  assumes s: "pkt_inv s" and x: "live s p = Some x" and b: "refs s p < 2 ^ 31 - 1"
  shows "\<exists>s'. Packet_AddRef p s = Inr s' \<and> pkt_inv s' \<and>
    live s' = (live s)(p \<mapsto> x\<lparr>m_refCount := m_refCount x + 1\<rparr>) \<and> refs s' p = refs s p + 1 \<and>
    (\<forall>env t. ready env t s' = ready env t s) \<and> (\<forall>t. has_free t s' = has_free t s)"
proof -
  let ?y = "x\<lparr>m_refCount := m_refCount x + 1\<rparr>"
  have n: "unat (m_refCount x + 1) = unat (m_refCount x) + 1"
    using live_refs(1)[OF s x] b by (simp add: unat_word_ariths)
  have "0 < sint (m_refCount ?y)" using n live_refs(1)[OF s x] b by (simp add: sint_u32_pos)
  moreover have "packet_ok ?y" using get_packet(2)[OF s x] by simp
  ultimately show ?thesis
    using put_packet[OF s x, of ?y] get_packet(1)[OF s x] live_refs(1)[OF s x] n
    by (auto simp: Packet_AddRef_def refs_def)
qed

lemma Packet_Free_more:
  assumes s: "pkt_inv s" and b: "1 < refs s p"
  shows "\<exists>s' x. live s p = Some x \<and> Packet_Free t p s = Inr s' \<and> pkt_inv s' \<and>
    live s' = (live s)(p \<mapsto> x\<lparr>m_refCount := m_refCount x - 1\<rparr>) \<and> refs s' p = refs s p - 1 \<and>
    (\<forall>env t. ready env t s' = ready env t s) \<and> (\<forall>t. has_free t s' = has_free t s)"
proof -
  obtain x where x: "live s p = Some x" using refs_live[of s p] b by auto
  let ?y = "x\<lparr>m_refCount := m_refCount x - 1\<rparr>"
  have r: "unat (m_refCount x) = refs s p" "refs s p < 2 ^ 31" using live_refs[OF s x] by simp_all
  have "(1 :: u32) \<le> m_refCount x" using b r(1) by (simp add: word_le_nat_alt)
  then have n: "unat (m_refCount x - 1) = refs s p - 1" using r(1) by (simp add: unat_sub)
  have pos: "0 < sint (m_refCount ?y)" using n r b by (simp add: sint_u32_pos)
  have "packet_ok ?y" using get_packet(2)[OF s x] by simp
  from put_packet[OF s x this pos] obtain s' where s': "obj_put s p ?y = Inr s'" "pkt_inv s'"
    "live s' = (live s)(p \<mapsto> ?y)" "(\<forall>env t. ready env t s' = ready env t s) \<and> (\<forall>t. has_free t s' = has_free t s)"
    by blast
  moreover have "refs s' p = refs s p - 1" using s'(3) n by (simp add: refs_def)
  moreover have "Packet_Free t p s = Inr s'"
    using s'(1) get_packet(1)[OF s x] pos by (simp add: Packet_Free_def)
  ultimately show ?thesis using x by blast
qed

lemma Packet_Free_last:
  assumes s: "pkt_inv s" and b: "refs s p = 1"
  shows "\<exists>s'. Packet_Free t p s = Inr s' \<and> pkt_inv s' \<and> live s' = (live s)(p := None) \<and> has_free t s'"
proof -
  obtain x where x: "live s p = Some x" using refs_live[of s p] b by auto
  have "m_refCount x = 1" using live_refs(1)[OF s x] b by (simp add: word_unat_eq_iff)
  then have z: "m_refCount x - 1 = 0" by simp
  let ?y = "x\<lparr>m_refCount := 0\<rparr>"
  have st: "store_inv packet_ok s" "live s p \<noteq> None" using s x by (auto simp: pkt_inv_def)
  have "packet_ok ?y" using get_packet(2)[OF s x] by simp
  from store_put[OF st this] obtain s1 where s1: "obj_put s p ?y = Inr s1" "store_inv packet_ok s1"
    "live s1 = (live s)(p \<mapsto> ?y)" by blast
  obtain s' where s': "TLS_Free t p s1 = Inr s'" "store_inv packet_ok s'" "live s' = (live s1)(p := None)"
    "has_free t s'" using store_free[OF s1(2), of p t] s1(3) by auto
  have "Packet_Free t p s = Inr s'"
    using s1(1) s'(1) get_packet(1)[OF s x] by (simp add: Packet_Free_def z)
  moreover have "live s' = (live s)(p := None)" using s'(3) s1(3) by simp
  moreover have "pkt_inv s'" using s'(2) s calculation(2) by (auto simp: pkt_inv_def)
  ultimately show ?thesis using s'(4) by blast
qed

section \<open>The interface of counted references\<close>

text \<open>
  \<open>count\<close> is the number of references to an object, \<open>view\<close> what the object holds as long as
  there is one, \<open>release\<close> drops a reference.
\<close>

locale refcounted =
  fixes inv :: "'s \<Rightarrow> bool"
    and count :: "'s \<Rightarrow> 'p \<Rightarrow> nat"
    and view :: "'s \<Rightarrow> 'p \<Rightarrow> 'v"
    and acquire :: "'p \<Rightarrow> 's \<Rightarrow> 's result"
    and release :: "'p \<Rightarrow> 's \<Rightarrow> 's result"
    and limit :: nat
  assumes acquire_law: "inv s \<Longrightarrow> 0 < count s p \<Longrightarrow> count s p < limit \<Longrightarrow>
      \<exists>s'. acquire p s = Inr s' \<and> inv s' \<and> count s' p = count s p + 1 \<and>
        (\<forall>q. q \<noteq> p \<longrightarrow> count s' q = count s q) \<and> (\<forall>q. 0 < count s' q \<longrightarrow> view s' q = view s q)"
    and release_law: "inv s \<Longrightarrow> 0 < count s p \<Longrightarrow>
      \<exists>s'. release p s = Inr s' \<and> inv s' \<and> count s' p = count s p - 1 \<and>
        (\<forall>q. q \<noteq> p \<longrightarrow> count s' q = count s q) \<and> (\<forall>q. 0 < count s' q \<longrightarrow> view s' q = view s q)"
begin

text \<open>Dropping the references of a list succeeds if the counts cover them.\<close>

lemma release_all:
  "inv s \<Longrightarrow> \<forall>p. count_list ps p \<le> count s p \<Longrightarrow>
   \<exists>s'. for_each release ps s = Inr s' \<and> inv s' \<and> (\<forall>p. count s' p = count s p - count_list ps p) \<and>
     (\<forall>q. 0 < count s' q \<longrightarrow> view s' q = view s q)"
proof (induction ps arbitrary: s)
  case (Cons a ps)
  have "0 < count s a" using Cons.prems(2)[rule_format, of a] by simp
  from release_law[OF Cons.prems(1) this] obtain s1 where 1: "release a s = Inr s1" "inv s1"
    "count s1 a = count s a - 1" "\<forall>q. q \<noteq> a \<longrightarrow> count s1 q = count s q"
    "\<forall>q. 0 < count s1 q \<longrightarrow> view s1 q = view s q" by blast
  have "\<forall>p. count_list ps p \<le> count s1 p"
  proof
    fix p show "count_list ps p \<le> count s1 p"
      using Cons.prems(2)[rule_format, of p] 1(3,4) by (cases "p = a") auto
  qed
  from Cons.IH[OF 1(2) this] obtain s' where 2: "for_each release ps s1 = Inr s'" "inv s'"
    "\<forall>p. count s' p = count s1 p - count_list ps p" "\<forall>q. 0 < count s' q \<longrightarrow> view s' q = view s1 q"
    by blast
  have "count s' p = count s p - count_list (a # ps) p" for p
    using 2(3) 1(3,4) by (cases "p = a") auto
  moreover have "view s' q = view s q" if "0 < count s' q" for q
    using that 2(3,4) 1(5) by auto
  ultimately show ?case using 1(1) 2(1,2) by auto
qed auto

end

definition packet_view :: "packet_pool \<Rightarrow> u64 \<Rightarrow> packet option" where
  "packet_view s p = map_option (\<lambda>x. x\<lparr>m_refCount := 0\<rparr>) (live s p)"

interpretation pk: refcounted pkt_inv refs packet_view Packet_AddRef "Packet_Free t" "2 ^ 31 - 1"
  for t :: tid
proof (unfold_locales, goal_cases)
  case (1 s p)
  then obtain x where x: "live s p = Some x" using refs_live by blast
  from Packet_AddRef_ok[OF 1(1) x 1(3)] x show ?case
    by (auto simp: refs_def packet_view_def)
next
  case (2 s p)
  show ?case
  proof (cases "refs s p = 1")
    case True
    from Packet_Free_last[OF 2(1) this, of t] True show ?thesis
      by (auto simp: refs_def packet_view_def split: if_splits)
  next
    case False
    then have "1 < refs s p" using 2(2) by simp
    from Packet_Free_more[OF 2(1) this, of t] show ?thesis
      by (auto simp: refs_def packet_view_def split: if_splits)
  qed
qed

section \<open>Properties\<close>

definition sample_packets :: packet_pool where
  "sample_packets = \<lparr>pool_this = 0x4000, m_placementNew = False, m_maxChunks = 0, m_chunkCount = 0,
     m_top = 0, pool_heap = Map.empty, t_cache = (\<lambda>_. empty_cache)\<rparr>"

definition sample_packet_env :: "packet pool_env" where
  "sample_packet_env = \<lparr>env_malloc = env_malloc sample_env, env_sizeof = 64,
     env_fresh = \<lparr>b_next = 0, b_chunkNext = 0, b_count = 0, b_useFlag = 0, b_owner = 0, b_frontGuard = 0,
       b_object = Packet_default (replicate 1405 0), b_backGuard = 0\<rparr>,
     env_new = Packet_default (replicate 1405 0)\<rparr>"

lemma sample_packet_env: "pkt_env sample_packet_env"
proof -
  have "chunk_addrs sample_packet_env = chunk_addrs sample_env"
    by (simp add: fun_eq_iff chunk_addrs_def sample_packet_env_def sample_env_def)
  moreover have "env_malloc sample_packet_env = env_malloc sample_env"
    by (simp add: sample_packet_env_def)
  ultimately have "malloc_spec sample_packet_env"
    using sample_malloc unfolding malloc_spec_def by metis
  then show ?thesis unfolding pkt_env_def
    by (intro conjI exI[of _ "replicate 1405 0"]) (simp_all add: sample_packet_env_def)
qed

lemma sample_packets_inv: "pkt_inv sample_packets" "ready sample_packet_env t sample_packets"
  "live sample_packets = Map.empty"
proof -
  have "pool_inv sample_packets" unfolding sample_packets_def by (rule empty_pool_inv)
  then show "pkt_inv sample_packets"
    by (auto simp: pkt_inv_def store_inv_def objs_def live_def sample_packets_def)
  show "ready sample_packet_env t sample_packets"
    by (simp add: ready_def can_grow_def sample_packet_env_def sample_packets_def sample_env_def
        list_all_iff taken_def)
  show "live sample_packets = Map.empty" by (simp add: fun_eq_iff live_def sample_packets_def)
qed

text \<open>
  \<open>Packet::Alloc\<close> hands out a packet that nobody holds, cleared, with one reference, whatever
  its last user left in it, and no packet that is held changes.
\<close>
lemma packet_alloc_clean:
  assumes "pkt_inv s" and "pkt_env env" and "ready env t s"
  shows "\<exists>s' p x. Packet_Alloc env t s = Inr (s', p) \<and> pkt_inv s' \<and> refs s p = 0 \<and> refs s' p = 1 \<and>
    live s' = (live s)(p \<mapsto> x) \<and> packet_payload x = [] \<and> Packet_GetDataSize x = 0 \<and> \<not> m_bEncoded x \<and>
    packet_room x = 1400"
proof -
  obtain s' p x where 1: "Packet_Alloc env t s = Inr (s', p)" "pkt_inv s'" "live s p = None"
    "live s' = (live s)(p \<mapsto> x)" "fresh_packet x" using Packet_Alloc_ok[OF assms] by blast
  have "packet_payload x = []" "Packet_GetDataSize x = 0" "\<not> m_bEncoded x" "packet_room x = 1400"
    using 1(5) by (auto simp: fresh_packet_def packet_payload_def Packet_GetDataSize_def packet_room_def packet_ok_def)
  moreover have "refs s p = 0" "refs s' p = 1"
    using 1(3-5) by (auto simp: refs_def fresh_packet_def)
  ultimately show ?thesis using 1 by blast
qed

lemma packet_alloc_clean_witness:
  "\<exists>s' p. Packet_Alloc sample_packet_env 0 sample_packets = Inr (s', p) \<and> pkt_inv s' \<and> refs s' p = 1"
  using packet_alloc_clean[OF sample_packets_inv(1) sample_packet_env sample_packets_inv(2)] by blast

text \<open>
  C16. References are counted exactly: dropping any references that are held, in any order, never
  faults; a packet goes back to the pool exactly when as many references are dropped as were
  held; every other packet stays, with its contents.
\<close>
lemma packets_released_at_last_reference:
  assumes "pkt_inv s" and "\<forall>p. count_list ps p \<le> refs s p"
  shows "\<exists>s'. for_each (Packet_Free t) ps s = Inr s' \<and> pkt_inv s' \<and>
    (\<forall>p. live s' p = None \<longleftrightarrow> count_list ps p = refs s p) \<and>
    (\<forall>p. live s' p \<noteq> None \<longrightarrow> packet_view s' p = packet_view s p)"
proof -
  obtain s' where s': "for_each (Packet_Free t) ps s = Inr s'" "pkt_inv s'"
    "\<forall>p. refs s' p = refs s p - count_list ps p" "\<forall>q. 0 < refs s' q \<longrightarrow> packet_view s' q = packet_view s q"
    using pk.release_all[OF assms] by blast
  have "live s' p = None \<longleftrightarrow> count_list ps p = refs s p" for p
    using s'(3) assms(2) refs_None[OF s'(2), of p] by (metis diff_is_0_eq diff_self_eq_0 le_antisym)
  then show ?thesis using s' refs_None[OF s'(2)] by (metis gr0I)
qed

lemma packets_released_at_last_reference_witness:
  "\<exists>s p s1 s2. Packet_Alloc sample_packet_env 0 sample_packets = Inr (s, p) \<and> Packet_AddRef p s = Inr s1 \<and>
    for_each (Packet_Free 0) [p, p] s1 = Inr s2 \<and> live s2 p = None"
proof -
  obtain s p where 1: "Packet_Alloc sample_packet_env 0 sample_packets = Inr (s, p)" "pkt_inv s" "refs s p = 1"
    using Packet_Alloc_ok[OF sample_packets_inv(1) sample_packet_env sample_packets_inv(2)]
    by (fastforce simp: refs_def fresh_packet_def)
  obtain s1 where 2: "Packet_AddRef p s = Inr s1" "pkt_inv s1" "refs s1 p = 2"
    using pk.acquire_law[OF 1(2), of p] 1(3) by auto
  have "\<forall>q. count_list [p, p] q \<le> refs s1 q" using 2(3) by simp
  from packets_released_at_last_reference[OF 2(2) this, of 0] 1(1) 2 show ?thesis by fastforce
qed

end
