(* ===== verification/NetServer.thy ===== *)
theory NetServer
  imports PacketPool RingBuffer
begin

text \<open>
  \<open>NetworkLibrary/CNetServer\<close>: the session array, the completion-port worker, the accept loop
  and the send and receive paths of the net server. The operations run without interference, each
  as the code runs it on one thread; the interleavings of the reference count are the subject
  of the session protocol.

  Sockets, threads, completion ports and \<open>rand\<close> are parameters: \<open>ne_wsa\<close> gives the error
  code (0 for success) of a system call, from the calls made so far; every call is an event of the
  trace. The virtual callbacks are parameters too. \<open>m_indexStack\<close> and \<open>sendQ\<close> are the lists that
  the lock-free stack and queue implement. A \<open>Session*\<close> is an index into the session array.
\<close>

section \<open>State\<close>

definition MAX_SEND_PACKET :: nat where "MAX_SEND_PACKET = 100"
definition RECV_BUFFER_SIZE :: int where "RECV_BUFFER_SIZE = 2000"
definition INDEX_BITS :: nat where "INDEX_BITS = 16"
definition INDEX_MASK :: u64 where "INDEX_MASK = 0xFFFF"
definition RELEASE_FLAG :: u32 where "RELEASE_FLAG = 0x80000000"
definition INVALID_SOCKET :: u64 where "INVALID_SOCKET = - 1"

datatype IOType = RECV | SEND

record session =
  sock :: u64
  sessionID :: u64
  recvQ :: ring
  sendQ :: "u64 list"
  sendingPackets :: "u64 list"
  sendingCount :: int
  ip :: string
  port :: u16
  ioCount :: u32
  isSending :: bool

text \<open>The constructor; \<open>mem\<close> is the block of the receive queue. \<open>sendingPackets()\<close> is zeroed.\<close>

definition Session_default :: "bytes \<Rightarrow> session" where
  "Session_default mem =
     \<lparr>sock = INVALID_SOCKET, sessionID = 0, recvQ = RingBuffer_sized mem (RECV_BUFFER_SIZE + 1),
      sendQ = [], sendingPackets = replicate MAX_SEND_PACKET 0, sendingCount = 0,
      ip = '''', port = 0, ioCount = RELEASE_FLAG, isSending = False\<rparr>"

text \<open>\<open>strncpy_s\<close> with \<open>_TRUNCATE\<close> keeps at most 15 characters of the address.\<close>

definition Session_Init :: "u64 \<Rightarrow> u64 \<Rightarrow> string \<Rightarrow> u16 \<Rightarrow> session \<Rightarrow> session" where
  "Session_Init sk sid ipAddr portNum x =
     x\<lparr>sock := sk, ip := take 15 ipAddr, port := portNum, recvQ := RingBuffer_ClearBuffer (recvQ x),
       sendingCount := 0, isSending := False, sessionID := sid\<rparr>"

text \<open>The calls of the system, with the data they pass: the windows of a receive as offset and length
  into the receive queue, the buffers of a send as their bytes.\<close>

datatype event =
    EvStartup | EvCreatePort u32 | EvSocket | EvBind string u16 | EvListen | EvThread
  | EvClose u64 | EvSockopt u64 | EvAssociate u64 u64 | EvPostQuit | EvJoin nat | EvClosePort | EvCleanup
  | EvRecv u64 "(int \<times> int) list" | EvSend u64 "bytes list"

record 'a server =
  m_hcp :: bool
  m_listenSock :: u64
  m_isRunning :: bool
  m_threads :: nat
  m_sessions :: "session list"
  m_indexStack :: "u32 list"
  m_sessionCount :: u32
  m_sessionIDGenerator :: u64
  m_maxSessionCount :: u32
  m_nagle :: bool
  packets :: packet_pool
  trace :: "event list"
  app :: 'a

record 'a net_env =
  ne_tid :: tid
  ne_pool :: "packet pool_env"
  ne_rand :: "event list \<Rightarrow> int"
  ne_wsa :: "event list \<Rightarrow> event \<Rightarrow> u32"
  OnConnectionRequest :: "string \<Rightarrow> u16 \<Rightarrow> 'a server \<Rightarrow> ('a server \<times> bool) result"
  OnAccept :: "u64 \<Rightarrow> 'a server \<Rightarrow> 'a server result"
  OnRelease :: "u64 \<Rightarrow> 'a server \<Rightarrow> 'a server result"
  OnRecv :: "u64 \<Rightarrow> u64 \<Rightarrow> 'a server \<Rightarrow> 'a server result"

definition WSA_IO_PENDING :: u32 where "WSA_IO_PENDING = 997"
definition WSAECONNRESET :: u32 where "WSAECONNRESET = 10054"

definition syscall :: "'a net_env \<Rightarrow> event \<Rightarrow> 'a server \<Rightarrow> 'a server \<times> u32" where
  "syscall env e s = (s\<lparr>trace := trace s @ [e]\<rparr>, ne_wsa env (trace s) e)"

definition emit :: "event \<Rightarrow> 'a server \<Rightarrow> 'a server" where
  "emit e s = s\<lparr>trace := trace s @ [e]\<rparr>"

section \<open>Access to sessions and packets\<close>

definition get_session :: "nat \<Rightarrow> 'a server \<Rightarrow> session result" where
  "get_session i s =
     (if i < length (m_sessions s) then Inr (m_sessions s ! i)
      else if m_sessions s = [] then Inl NullDeref else Inl OutOfBounds)"

definition upd_session :: "nat \<Rightarrow> (session \<Rightarrow> session) \<Rightarrow> 'a server \<Rightarrow> 'a server result" where
  "upd_session i f s =
     and_then (get_session i s) (\<lambda>x. Inr (s\<lparr>m_sessions := (m_sessions s)[i := f x]\<rparr>))"

definition on_pool :: "(packet_pool \<Rightarrow> packet_pool result) \<Rightarrow> 'a server \<Rightarrow> 'a server result" where
  "on_pool f s = and_then (f (packets s)) (\<lambda>p. Inr (s\<lparr>packets := p\<rparr>))"

definition FreePacket :: "'a net_env \<Rightarrow> u64 \<Rightarrow> 'a server \<Rightarrow> 'a server result" where
  "FreePacket env p = on_pool (Packet_Free (ne_tid env) p)"

definition AllocPacket :: "'a net_env \<Rightarrow> 'a server \<Rightarrow> ('a server \<times> u64) result" where
  "AllocPacket env s =
     and_then (Packet_Alloc (ne_pool env) (ne_tid env) (packets s)) (\<lambda>(pool, p).
     Inr (s\<lparr>packets := pool\<rparr>, p))"

text \<open>An operation that reads from a packet through its pointer.\<close>

definition read_packet :: "u64 \<Rightarrow> (packet \<Rightarrow> (packet \<times> 'v) result) \<Rightarrow> 'a server \<Rightarrow> ('a server \<times> 'v) result" where
  "read_packet p f s =
     and_then (obj_get (packets s) p) (\<lambda>x.
     and_then (f x) (\<lambda>(y, v).
     and_then (obj_put (packets s) p y) (\<lambda>pool. Inr (s\<lparr>packets := pool\<rparr>, v))))"

text \<open>\<open>InterlockedIncrement\<close> and \<open>InterlockedDecrement\<close> of the count, with the new value.\<close>

definition add_io :: "u32 \<Rightarrow> nat \<Rightarrow> 'a server \<Rightarrow> ('a server \<times> u32) result" where
  "add_io d i s =
     and_then (get_session i s) (\<lambda>x. let n = ioCount x + d in
     Inr (s\<lparr>m_sessions := (m_sessions s)[i := x\<lparr>ioCount := n\<rparr>]\<rparr>, n))"

text \<open>The packets of a session that a send has in flight; the array has \<open>MAX_SEND_PACKET\<close> cells.\<close>

definition sending :: "session \<Rightarrow> u64 list result" where
  "sending x = (if sendingCount x \<le> int (length (sendingPackets x))
     then Inr (take (nat (sendingCount x)) (sendingPackets x)) else Inl OutOfBounds)"

definition FreeSending :: "'a net_env \<Rightarrow> nat \<Rightarrow> 'a server \<Rightarrow> 'a server result" where
  "FreeSending env i s =
     and_then (get_session i s) (\<lambda>x. and_then (sending x) (\<lambda>ps.
     and_then (for_each (FreePacket env) ps s) (\<lambda>s.
     upd_session i (\<lambda>x. x\<lparr>sendingCount := 0\<rparr>) s)))"

section \<open>Release and reference counting\<close>

text \<open>\<open>while (sendQ.Dequeue(packet)) Packet::Free(packet)\<close>; the fuel is the length of the queue,
  to which nobody appends.\<close>

fun drain_sendQ :: "'a net_env \<Rightarrow> nat \<Rightarrow> nat \<Rightarrow> 'a server \<Rightarrow> 'a server result" where
  "drain_sendQ env 0 i s = Inr s"
| "drain_sendQ env (Suc n) i s =
     and_then (get_session i s) (\<lambda>x.
     case sendQ x of [] \<Rightarrow> Inr s
     | p # q \<Rightarrow>
       and_then (upd_session i (\<lambda>x. x\<lparr>sendQ := q\<rparr>) s) (\<lambda>s.
       and_then (FreePacket env p s) (\<lambda>s. drain_sendQ env n i s)))"

definition ReleaseSession :: "'a net_env \<Rightarrow> nat \<Rightarrow> 'a server \<Rightarrow> 'a server result" where
  "ReleaseSession env i s =
     and_then (get_session i s) (\<lambda>x.
     if ioCount x \<noteq> 0 then Inr s
     else
     and_then (upd_session i (\<lambda>x. x\<lparr>ioCount := RELEASE_FLAG\<rparr>) s) (\<lambda>s.
     let s = emit (EvClose (sock x)) s in
     and_then (FreeSending env i s) (\<lambda>s.
     and_then (drain_sendQ env (length (sendQ x)) i s) (\<lambda>s.
     let s = s\<lparr>m_sessionCount := m_sessionCount s - 1\<rparr> in
     and_then (get_session i s) (\<lambda>x.
     and_then (OnRelease env (sessionID x) s) (\<lambda>s.
     Inr (s\<lparr>m_indexStack := of_nat i # m_indexStack s\<rparr>)))))))"

definition ReturnSession :: "'a net_env \<Rightarrow> nat \<Rightarrow> 'a server \<Rightarrow> 'a server result" where
  "ReturnSession env i s =
     and_then (add_io (- 1) i s) (\<lambda>(s, n). if n = 0 then ReleaseSession env i s else Inr s)"

definition AcquireSession :: "'a net_env \<Rightarrow> u64 \<Rightarrow> 'a server \<Rightarrow> ('a server \<times> nat option) result" where
  "AcquireSession env sid s =
     (let index = ucast (sid AND INDEX_MASK) :: u32; i = unat index in
      if index \<ge> m_maxSessionCount s then Inr (s, None)
      else and_then (add_io 1 i s) (\<lambda>(s, n).
      and_then (get_session i s) (\<lambda>x.
      if n AND RELEASE_FLAG \<noteq> 0 \<or> sessionID x \<noteq> sid
      then and_then (ReturnSession env i s) (\<lambda>s. Inr (s, None))
      else Inr (s, Some i))))"

section \<open>Sending\<close>

text \<open>The loop that dequeues at most \<open>MAX_SEND_PACKET\<close> packets into the sending array; the first
  argument is how many cells are left.\<close>

fun SendPost_collect :: "nat \<Rightarrow> nat \<Rightarrow> session \<Rightarrow> session \<times> nat" where
  "SendPost_collect 0 cnt x = (x, cnt)"
| "SendPost_collect (Suc n) cnt x =
     (case sendQ x of [] \<Rightarrow> (x, cnt)
      | p # q \<Rightarrow> SendPost_collect n (cnt + 1)
          (x\<lparr>sendQ := q, sendingPackets := (sendingPackets x)[cnt := p]\<rparr>))"

text \<open>The bytes that the buffers of a send point to.\<close>

fun wsabufs :: "packet_pool \<Rightarrow> u64 list \<Rightarrow> bytes list result" where
  "wsabufs pool [] = Inr []"
| "wsabufs pool (p # ps) =
     and_then (obj_get pool p) (\<lambda>x.
     and_then (mem_read (m_chpBuffer x) (Packet_GetSendPtr x) (Packet_GetSendSize x)) (\<lambda>b.
     and_then (wsabufs pool ps) (\<lambda>bs. Inr (b # bs))))"

definition SendPost_send :: "'a net_env \<Rightarrow> nat \<Rightarrow> 'a server \<Rightarrow> 'a server result" where
  "SendPost_send env i s =
     and_then (get_session i s) (\<lambda>x.
     let (x, cnt) = SendPost_collect MAX_SEND_PACKET 0 x;
         x = x\<lparr>sendingCount := int cnt\<rparr> in
     and_then (upd_session i (\<lambda>_. x) s) (\<lambda>s.
     and_then (add_io 1 i s) (\<lambda>(s, _).
     and_then (wsabufs (packets s) (take cnt (sendingPackets x))) (\<lambda>bufs.
     let (s, err) = syscall env (EvSend (sock x) bufs) s in
     if err = 0 \<or> err = WSA_IO_PENDING then Inr s
     else if err \<noteq> WSAECONNRESET then Inl DebugBreak
     else and_then (add_io (- 1) i s) (\<lambda>(s, n). if n = 0 then ReleaseSession env i s else Inr s)))))"

text \<open>
  Nobody enqueues between the two tests of the queue's size here, so the outer loop of \<open>SendPost\<close>
  runs once: with an empty queue the flag is taken and given back.
\<close>

definition SendPost :: "'a net_env \<Rightarrow> nat \<Rightarrow> 'a server \<Rightarrow> 'a server result" where
  "SendPost env i s =
     and_then (get_session i s) (\<lambda>x.
     if isSending x then Inr s
     else
     and_then (upd_session i (\<lambda>x. x\<lparr>isSending := True\<rparr>) s) (\<lambda>s.
     if length (sendQ x) > 0 then SendPost_send env i s
     else upd_session i (\<lambda>x. x\<lparr>isSending := False\<rparr>) s))"

definition SendProc :: "'a net_env \<Rightarrow> nat \<Rightarrow> 'a server \<Rightarrow> 'a server result" where
  "SendProc env i s =
     and_then (FreeSending env i s) (\<lambda>s.
     and_then (upd_session i (\<lambda>x. x\<lparr>isSending := False\<rparr>) s) (\<lambda>s.
     and_then (SendPost env i s) (\<lambda>s.
     and_then (add_io (- 1) i s) (\<lambda>(s, n). if n = 0 then ReleaseSession env i s else Inr s))))"

definition Disconnect :: "'a net_env \<Rightarrow> u64 \<Rightarrow> 'a server \<Rightarrow> ('a server \<times> bool) result" where
  "Disconnect env sid s =
     and_then (AcquireSession env sid s) (\<lambda>(s, r).
     case r of None \<Rightarrow> Inr (s, False)
     | Some i \<Rightarrow>
       and_then (get_session i s) (\<lambda>x.
       let s = emit (EvClose (sock x)) s in
       and_then (ReturnSession env i s) (\<lambda>s. Inr (s, True))))"

definition SendPacket :: "'a net_env \<Rightarrow> u64 \<Rightarrow> u64 \<Rightarrow> 'a server \<Rightarrow> ('a server \<times> bool) result" where
  "SendPacket env sid p s =
     and_then (AcquireSession env sid s) (\<lambda>(s, r).
     case r of None \<Rightarrow> Inr (s, False)
     | Some i \<Rightarrow>
       and_then (on_pool (on_packet p (Packet_SetNetHeader (ne_rand env (trace s)))) s) (\<lambda>s.
       and_then (on_pool (Packet_AddRef p) s) (\<lambda>s.
       and_then (upd_session i (\<lambda>x. x\<lparr>sendQ := sendQ x @ [p]\<rparr>) s) (\<lambda>s.
       and_then (SendPost env i s) (\<lambda>s.
       and_then (ReturnSession env i s) (\<lambda>s. Inr (s, True)))))))"

section \<open>Receiving\<close>

definition recv_windows :: "ring \<Rightarrow> (int \<times> int) list" where
  "recv_windows r =
     (let recvQFreeSize = RingBuffer_GetFreeSize r; recvQDirectSize = RingBuffer_DirectEnqueueSize r in
      (RingBuffer_GetRearBufferPtr r, recvQDirectSize) #
      (if recvQFreeSize > recvQDirectSize
       then [(RingBuffer_GetBufferPtr r, recvQFreeSize - recvQDirectSize)] else []))"

definition RecvPost :: "'a net_env \<Rightarrow> nat \<Rightarrow> 'a server \<Rightarrow> 'a server result" where
  "RecvPost env i s =
     and_then (get_session i s) (\<lambda>x.
     let (s, err) = syscall env (EvRecv (sock x) (recv_windows (recvQ x))) s in
     if err = 0 \<or> err = WSA_IO_PENDING then Inr s
     else if err \<noteq> WSAECONNRESET then Inl DebugBreak
     else ReturnSession env i s)"

text \<open>\<open>recvPacket->GetBufferPtr()\<close> is the start of the packet's block, into which the queue copies.\<close>

definition Dequeue_into :: "nat \<Rightarrow> u64 \<Rightarrow> int \<Rightarrow> 'a server \<Rightarrow> 'a server result" where
  "Dequeue_into i p n s =
     and_then (get_session i s) (\<lambda>x.
     and_then (obj_get (packets s) p) (\<lambda>pkt.
     and_then (RingBuffer_Dequeue (recvQ x) (Some (m_chpBuffer pkt, Packet_GetBufferPtr pkt)) n)
       (\<lambda>(q, dst, _).
     and_then (upd_session i (\<lambda>x. x\<lparr>recvQ := q\<rparr>) s) (\<lambda>s.
     case dst of None \<Rightarrow> Inr s
     | Some (buf, _) \<Rightarrow> on_pool (\<lambda>pool. obj_put pool p (pkt\<lparr>m_chpBuffer := buf\<rparr>)) s))))"

definition Decode_packet :: "u64 \<Rightarrow> 'a server \<Rightarrow> ('a server \<times> bool) result" where
  "Decode_packet p s =
     and_then (obj_get (packets s) p) (\<lambda>pkt.
     and_then (Packet_Decode pkt) (\<lambda>(pkt, ok).
     and_then (on_pool (\<lambda>pool. obj_put pool p pkt) s) (\<lambda>s. Inr (s, ok))))"

text \<open>
  The loop over the complete frames of the receive queue. Every pass consumes at least a header, so
  the size of the queue is enough fuel.
\<close>

fun RecvProc_loop :: "'a net_env \<Rightarrow> nat \<Rightarrow> nat \<Rightarrow> 'a server \<Rightarrow> 'a server result" where
  "RecvProc_loop env 0 i s = Inl OutOfFuel"
| "RecvProc_loop env (Suc fuel) i s =
     and_then (get_session i s) (\<lambda>x.
     let useSize = RingBuffer_GetUseSize (recvQ x) in
     if useSize < sizeof_NetServerHeader then RecvPost env i s
     else
     and_then (RingBuffer_Peek (recvQ x) (Some (replicate 5 0, 0)) sizeof_NetServerHeader) (\<lambda>(dst, _).
     let header = NetServerHeader_of (case dst of None \<Rightarrow> [] | Some (b, _) \<Rightarrow> b);
         len = int (unat (net_len header)) in
     if useSize < sizeof_NetServerHeader + len then RecvPost env i s
     else if net_byteCode header \<noteq> PACKET_CODE then ReturnSession env i s
     else
     and_then (AllocPacket env s) (\<lambda>(s, p).
     and_then (Dequeue_into i p (sizeof_NetServerHeader + len) s) (\<lambda>s.
     and_then (on_pool (on_packet p (\<lambda>pkt. Inr (fst (Packet_MoveWritePos pkt len)))) s) (\<lambda>s.
     and_then (Decode_packet p s) (\<lambda>(s, ok).
     if \<not> ok then and_then (ReturnSession env i s) (\<lambda>s. FreePacket env p s)
     else
     and_then (get_session i s) (\<lambda>x.
     and_then (OnRecv env (sessionID x) p s) (\<lambda>s.
     and_then (FreePacket env p s) (\<lambda>s.
     RecvProc_loop env fuel i s)))))))))"

definition RecvProc :: "'a net_env \<Rightarrow> nat \<Rightarrow> u32 \<Rightarrow> 'a server \<Rightarrow> 'a server result" where
  "RecvProc env i cbTransferred s =
     and_then (upd_session i (\<lambda>x. x\<lparr>recvQ := fst (RingBuffer_MoveRear (recvQ x) (sint cbTransferred))\<rparr>) s)
       (\<lambda>s.
     and_then (get_session i s) (\<lambda>x.
     RecvProc_loop env (nat (RingBuffer_GetUseSize (recvQ x)) + 1) i s))"

section \<open>Accepting\<close>

definition session_id :: "u64 \<Rightarrow> u32 \<Rightarrow> u64" where
  "session_id gen index = push_bit INDEX_BITS gen OR ucast index"

text \<open>An allowed client: its session goes live, the derived class is told, the first receive is posted.\<close>

definition Accept_live :: "'a net_env \<Rightarrow> u32 \<Rightarrow> u64 \<times> string \<times> u16 \<Rightarrow> 'a server \<Rightarrow> 'a server result" where
  "Accept_live env index c s =
     (let (client_sock, ipStr, portNum) = c; i = unat index;
          s = emit (EvSockopt client_sock) (emit (EvSockopt client_sock) s);
          s = (if \<not> m_nagle s then emit (EvSockopt client_sock) s else s);
          s = s\<lparr>m_sessionIDGenerator := m_sessionIDGenerator s + 1\<rparr>;
          sid = session_id (m_sessionIDGenerator s) index in
      and_then (upd_session i (Session_Init client_sock sid ipStr portNum) s) (\<lambda>s.
      and_then (add_io 1 i s) (\<lambda>(s, _).
      and_then (upd_session i (\<lambda>x. x\<lparr>ioCount := ioCount x AND NOT RELEASE_FLAG\<rparr>) s) (\<lambda>s.
      let s = emit (EvAssociate client_sock sid) (s\<lparr>m_sessionCount := m_sessionCount s + 1\<rparr>) in
      and_then (OnAccept env sid s) (\<lambda>s.
      and_then (add_io 1 i s) (\<lambda>(s, _).
      and_then (RecvPost env i s) (\<lambda>s.
      ReturnSession env i s)))))))"

text \<open>The body of the accept loop for one client.\<close>

definition Accept_client :: "'a net_env \<Rightarrow> u64 \<times> string \<times> u16 \<Rightarrow> 'a server \<Rightarrow> 'a server result" where
  "Accept_client env c s =
     (let (client_sock, ipStr, portNum) = c in
      case m_indexStack s of [] \<Rightarrow> Inr (emit (EvClose client_sock) s)
      | index # rest \<Rightarrow>
        and_then (OnConnectionRequest env ipStr portNum (s\<lparr>m_indexStack := rest\<rparr>)) (\<lambda>(s, allow).
        if \<not> allow then
          Inr (emit (EvClose client_sock) (s\<lparr>m_indexStack := index # m_indexStack s\<rparr>))
        else Accept_live env index c s))"

text \<open>The loop, over the results of \<open>accept\<close>; \<open>None\<close> is \<open>INVALID_SOCKET\<close>.\<close>

fun AcceptThreadMain :: "'a net_env \<Rightarrow> (u64 \<times> string \<times> u16) option list \<Rightarrow> 'a server \<Rightarrow> 'a server result" where
  "AcceptThreadMain env [] s = Inr s"
| "AcceptThreadMain env (r # rs) s =
     (if \<not> m_isRunning s then Inr s
      else case r of None \<Rightarrow> Inr s
      | Some c \<Rightarrow> and_then (Accept_client env c s) (\<lambda>s. AcceptThreadMain env rs s))"

section \<open>The worker thread\<close>

text \<open>What \<open>GetQueuedCompletionStatus\<close> returns; an \<open>OVERLAPPED*\<close> is the session it is embedded in and
  its type.\<close>

record completion =
  c_retval :: bool
  c_transferred :: u32
  c_key :: u64
  c_overlapped :: "(nat \<times> IOType) option"

definition Worker_step :: "'a net_env \<Rightarrow> completion \<Rightarrow> 'a server \<Rightarrow> ('a server \<times> bool) result" where
  "Worker_step env c s =
     (if c_transferred c = 0 \<and> c_key c = 0 \<and> c_overlapped c = None then Inr (s, False)
      else case c_overlapped c of None \<Rightarrow> Inl DebugBreak
      | Some (i, type) \<Rightarrow>
        if \<not> c_retval c \<or> c_transferred c = 0
        then and_then (ReturnSession env i s) (\<lambda>s. Inr (s, True))
        else case type of
            RECV \<Rightarrow> and_then (RecvProc env i (c_transferred c) s) (\<lambda>s. Inr (s, True))
          | SEND \<Rightarrow> and_then (SendProc env i s) (\<lambda>s. Inr (s, True)))"

fun WorkerThreadMain :: "'a net_env \<Rightarrow> completion list \<Rightarrow> 'a server \<Rightarrow> 'a server result" where
  "WorkerThreadMain env [] s = Inr s"
| "WorkerThreadMain env (c # cs) s =
     and_then (Worker_step env c s) (\<lambda>(s, more). if more then WorkerThreadMain env cs s else Inr s)"

section \<open>Start and stop\<close>

definition server_default :: "packet_pool \<Rightarrow> 'a \<Rightarrow> 'a server" where
  "server_default pool a =
     \<lparr>m_hcp = False, m_listenSock = INVALID_SOCKET, m_isRunning = False, m_threads = 0, m_sessions = [],
      m_indexStack = [], m_sessionCount = 0, m_sessionIDGenerator = 0, m_maxSessionCount = 0,
      m_nagle = True, packets = pool, trace = [], app = a\<rparr>"

text \<open>\<open>for (i = m_maxSessionCount - 1; i >= 0; i--) m_indexStack.Push(i)\<close>\<close>

fun push_indices :: "nat \<Rightarrow> u32 list \<Rightarrow> u32 list" where
  "push_indices 0 st = st"
| "push_indices (Suc n) st = push_indices n (of_nat n # st)"

fun start_workers :: "'a net_env \<Rightarrow> nat \<Rightarrow> 'a server \<Rightarrow> 'a server \<times> bool" where
  "start_workers env 0 s = (s, True)"
| "start_workers env (Suc n) s =
     (let (s, err) = syscall env EvThread s in
      if err \<noteq> 0 then (s, False) else start_workers env n (s\<lparr>m_threads := m_threads s + 1\<rparr>))"

text \<open>\<open>lsock\<close> is the socket that \<open>socket\<close> returns, \<open>mem\<close> the receive queues' blocks.\<close>

definition Start :: "'a net_env \<Rightarrow> u64 \<Rightarrow> (nat \<Rightarrow> bytes) \<Rightarrow> string \<Rightarrow> u16 \<Rightarrow> u32 \<Rightarrow> u32 \<Rightarrow> bool \<Rightarrow> u32 \<Rightarrow>
    'a server \<Rightarrow> 'a server \<times> bool" where
  "Start env lsock mem ipAddr portNum workerCount activeCount nagle maxSessionCount s =
     (if maxSessionCount = 0 \<or> uint maxSessionCount > uint INDEX_MASK + 1 then (s, False)
      else let (s, err) = syscall env EvStartup s in if err \<noteq> 0 then (s, False)
      else let s = s\<lparr>m_maxSessionCount := maxSessionCount, m_nagle := nagle\<rparr>;
               (s, err) = syscall env (EvCreatePort activeCount) s; s = s\<lparr>m_hcp := (err = 0)\<rparr> in
      if err \<noteq> 0 then (s, False)
      else let (s, err) = syscall env EvSocket s;
               s = s\<lparr>m_listenSock := (if err = 0 then lsock else INVALID_SOCKET)\<rparr> in
      if m_listenSock s = INVALID_SOCKET then (s, False)
      else let (s, err) = syscall env (EvBind ipAddr portNum) s in if err \<noteq> 0 then (s, False)
      else let (s, err) = syscall env EvListen s in if err \<noteq> 0 then (s, False)
      else let s = s\<lparr>m_sessions := map (\<lambda>i. Session_default (mem i)) [0..<unat maxSessionCount],
                      m_indexStack := push_indices (unat maxSessionCount) (m_indexStack s),
                      m_isRunning := True\<rparr>;
               (s, err) = syscall env EvThread s in
      if err \<noteq> 0 then (s, False)
      else start_workers env (unat workerCount) (s\<lparr>m_threads := m_threads s + 1\<rparr>))"

text \<open>The clean-up of one session at \<open>Stop\<close>.\<close>

definition stop_session :: "'a net_env \<Rightarrow> nat \<Rightarrow> 'a server \<Rightarrow> 'a server result" where
  "stop_session env i s =
     and_then (get_session i s) (\<lambda>x.
     if ioCount x AND RELEASE_FLAG \<noteq> 0 then Inr s
     else
     let s = emit (EvClose (sock x)) s in
     and_then (sending x) (\<lambda>ps.
     and_then (for_each (FreePacket env) ps s) (\<lambda>s.
     drain_sendQ env (length (sendQ x)) i s)))"

definition Stop :: "'a net_env \<Rightarrow> 'a server \<Rightarrow> 'a server result" where
  "Stop env s =
     (let s = s\<lparr>m_isRunning := False\<rparr>;
          s = (if m_listenSock s \<noteq> INVALID_SOCKET
               then (emit (EvClose (m_listenSock s)) s)\<lparr>m_listenSock := INVALID_SOCKET\<rparr> else s);
          s = s\<lparr>trace := trace s @ replicate (m_threads s) EvPostQuit\<rparr>;
          s = (emit (EvJoin (m_threads s)) s)\<lparr>m_threads := 0\<rparr> in
      and_then
        (if m_sessions s \<noteq> [] then
           and_then (for_each (stop_session env) [0..<unat (m_maxSessionCount s)] s) (\<lambda>s.
           Inr (s\<lparr>m_sessions := []\<rparr>))
         else Inr s) (\<lambda>s.
      let s = (if m_hcp s then (emit EvClosePort s)\<lparr>m_hcp := False\<rparr> else s) in
      Inr (emit EvCleanup s)))"

definition server_destruct :: "'a net_env \<Rightarrow> 'a server \<Rightarrow> 'a server result" where
  "server_destruct env s = (if m_isRunning s then Stop env s else Inr s)"

definition GetSessionCount :: "'a server \<Rightarrow> int" where
  "GetSessionCount s = sint (m_sessionCount s)"

definition getAcceptTPS :: "'a server \<Rightarrow> int" where "getAcceptTPS s = 0"
definition getRecvMessageTPS :: "'a server \<Rightarrow> int" where "getRecvMessageTPS s = 0"
definition getSendMessageTPS :: "'a server \<Rightarrow> int" where "getSendMessageTPS s = 0"

section \<open>The invariant of the server\<close>

text \<open>
  The queues of a session are well formed; every reference to a packet is accounted for:
  it sits in a session's send queue or sending array, or is held by the caller (\<open>c\<close>) or the
  derived class (\<open>ar\<close>, from its state).
\<close>

definition sess_ok :: "session \<Rightarrow> bool" where
  "sess_ok x \<longleftrightarrow> ring_inv (recvQ x) \<and> m_capacity (recvQ x) = 2002 \<and>
     length (sendingPackets x) = MAX_SEND_PACKET \<and> 0 \<le> sendingCount x \<and> sendingCount x \<le> 100"

definition queued :: "session \<Rightarrow> u64 list" where
  "queued x = take (nat (sendingCount x)) (sendingPackets x) @ sendQ x"

definition held :: "'a server \<Rightarrow> u64 \<Rightarrow> nat" where
  "held s p = sum_list (map (\<lambda>x. count_list (queued x) p) (m_sessions s))"

definition net_inv :: "('a \<Rightarrow> u64 \<Rightarrow> nat) \<Rightarrow> (u64 \<Rightarrow> nat) \<Rightarrow> 'a server \<Rightarrow> bool" where
  "net_inv ar c s \<longleftrightarrow> length (m_sessions s) = unat (m_maxSessionCount s) \<and>
     (\<forall>x\<in>set (m_sessions s). sess_ok x) \<and> pkt_inv (packets s) \<and>
     (\<forall>p. held s p + c p + ar (app s) p = refs (packets s) p)"

text \<open>What only accepting and receiving change: socket, id and receive queue of each session.\<close>

definition rx :: "session \<Rightarrow> u64 \<times> u64 \<times> ring" where
  "rx x = (sock x, sessionID x, recvQ x)"

definition same_rx :: "'a server \<Rightarrow> 'a server \<Rightarrow> bool" where
  "same_rx s s' \<longleftrightarrow> map rx (m_sessions s') = map rx (m_sessions s) \<and>
     m_maxSessionCount s' = m_maxSessionCount s"

lemma same_rx_refl [simp]: "same_rx s s"
  by (simp add: same_rx_def)

lemma same_rx_trans: "same_rx s s' \<Longrightarrow> same_rx s' s'' \<Longrightarrow> same_rx s s''"
  by (simp add: same_rx_def)

lemma same_rx_length: "same_rx s s' \<Longrightarrow> length (m_sessions s') = length (m_sessions s)"
  by (metis length_map same_rx_def)

lemma same_rx_nth:
  assumes "same_rx s s'" and "i < length (m_sessions s)"
  shows "rx (m_sessions s' ! i) = rx (m_sessions s ! i)"
proof -
  have "map rx (m_sessions s') ! i = map rx (m_sessions s) ! i" using assms(1) by (simp add: same_rx_def)
  then show ?thesis using assms(2) same_rx_length[OF assms(1)] by simp
qed

lemma get_session_eq [simp]: "i < length (m_sessions s) \<Longrightarrow> get_session i s = Inr (m_sessions s ! i)"
  by (simp add: get_session_def)

lemma upd_session_eq [simp]: "i < length (m_sessions s) \<Longrightarrow>
    upd_session i f s = Inr (s\<lparr>m_sessions := (m_sessions s)[i := f (m_sessions s ! i)]\<rparr>)"
  by (simp add: upd_session_def)

lemma add_io_eq [simp]: "i < length (m_sessions s) \<Longrightarrow>
    add_io d i s = Inr (s\<lparr>m_sessions := (m_sessions s)[i := (m_sessions s ! i)
      \<lparr>ioCount := ioCount (m_sessions s ! i) + d\<rparr>]\<rparr>, ioCount (m_sessions s ! i) + d)"
  by (simp add: add_io_def Let_def)

lemma net_invD:
  assumes "net_inv ar c s"
  shows "length (m_sessions s) = unat (m_maxSessionCount s)" "pkt_inv (packets s)"
    "i < length (m_sessions s) \<Longrightarrow> sess_ok (m_sessions s ! i)"
    "held s p + c p + ar (app s) p = refs (packets s) p"
  using assms by (auto simp: net_inv_def)

text \<open>Replacing one session.\<close>

lemma held_upd:
  "i < length (m_sessions s) \<Longrightarrow>
   held (s\<lparr>m_sessions := (m_sessions s)[i := y]\<rparr>) p + count_list (queued (m_sessions s ! i)) p =
   held s p + count_list (queued y) p"
  unfolding held_def using sum_list_update[of i "m_sessions s" "\<lambda>x. count_list (queued x) p" y] by simp

lemma net_inv_upd:
  assumes "net_inv ar c s" and "i < length (m_sessions s)" and "sess_ok y"
    and q: "\<And>p. c' p + count_list (queued y) p = c p + count_list (queued (m_sessions s ! i)) p"
  shows "net_inv ar c' (s\<lparr>m_sessions := (m_sessions s)[i := y]\<rparr>)"
proof -
  have "held (s\<lparr>m_sessions := (m_sessions s)[i := y]\<rparr>) p + c' p = held s p + c p" for p
    using held_upd[OF assms(2), of y p] q[of p] by simp
  then show ?thesis using assms by (auto simp: net_inv_def dest!: set_update_subset_insert[THEN subsetD])
qed

lemma same_rx_upd:
  assumes "i < length (m_sessions s)" and "rx y = rx (m_sessions s ! i)"
  shows "same_rx s (s\<lparr>m_sessions := (m_sessions s)[i := y]\<rparr>)"
  using assms by (simp add: same_rx_def map_update list_update_same_conv)

lemma net_inv_same:
  assumes "net_inv ar c s" and "m_sessions s' = m_sessions s" "m_maxSessionCount s' = m_maxSessionCount s"
    "packets s' = packets s" "app s' = app s"
  shows "net_inv ar c s'"
  using assms by (simp add: net_inv_def held_def)

text \<open>A change of the packet pool that keeps or moves references.\<close>

lemma net_inv_pool:
  assumes "net_inv ar c s" and "pkt_inv pool"
    and "\<And>p. refs pool p + c p = refs (packets s) p + c' p"
  shows "net_inv ar c' (s\<lparr>packets := pool\<rparr>)"
proof -
  have "held s p + c' p + ar (app s) p = refs pool p" for p
    using assms(3)[of p] net_invD(4)[OF assms(1), of p] by linarith
  then show ?thesis using assms(1,2) by (simp add: net_inv_def held_def)
qed

section \<open>Freeing packets\<close>

lemma FreePacket_eq:
  "FreePacket env p s = and_then (Packet_Free (ne_tid env) p (packets s)) (\<lambda>pool. Inr (s\<lparr>packets := pool\<rparr>))"
  by (simp add: FreePacket_def on_pool_def)

lemma for_each_FreePacket:
  "for_each (FreePacket env) ps s =
   and_then (for_each (Packet_Free (ne_tid env)) ps (packets s)) (\<lambda>pool. Inr (s\<lparr>packets := pool\<rparr>))"
proof (induction ps arbitrary: s)
  case (Cons p ps)
  show ?case
    by (cases "Packet_Free (ne_tid env) p (packets s)") (simp_all add: FreePacket_eq[of env p s] Cons.IH)
qed simp

lemma free_packets:
  assumes "pkt_inv (packets s)" and "\<And>p. count_list ps p \<le> refs (packets s) p"
  shows "\<exists>pool. for_each (FreePacket env) ps s = Inr (s\<lparr>packets := pool\<rparr>) \<and> pkt_inv pool \<and>
    (\<forall>p. refs pool p = refs (packets s) p - count_list ps p) \<and>
    (\<forall>p. 0 < refs pool p \<longrightarrow> packet_view pool p = packet_view (packets s) p)"
  using pk.release_all[OF assms(1), of ps "ne_tid env"] assms(2) by (auto simp: for_each_FreePacket)

lemma FreePacket_inv:
  assumes s: "net_inv ar c s" and p: "0 < c p"
  shows "\<exists>pool. FreePacket env p s = Inr (s\<lparr>packets := pool\<rparr>) \<and>
    net_inv ar (c(p := c p - 1)) (s\<lparr>packets := pool\<rparr>)"
proof -
  have "count_list [p] q \<le> refs (packets s) q" for q
    using net_invD(4)[OF s, of p] p by auto
  from free_packets[OF net_invD(2)[OF s] this, of env] obtain pool where
    1: "FreePacket env p s = Inr (s\<lparr>packets := pool\<rparr>)" "pkt_inv pool"
      "\<forall>q. refs pool q = refs (packets s) q - count_list [p] q"
    by (auto simp: and_then_eq_Inr)
  have "net_inv ar (c(p := c p - 1)) (s\<lparr>packets := pool\<rparr>)"
    by (rule net_inv_pool[OF s 1(2)]) (use 1(3) p net_invD(4)[OF s, of p] in auto)
  with 1(1) show ?thesis by blast
qed

lemma FreeSending_inv:
  assumes s: "net_inv ar c s" and i: "i < length (m_sessions s)"
  shows "\<exists>s'. FreeSending env i s = Inr s' \<and> net_inv ar c s' \<and> same_rx s s' \<and> app s' = app s \<and>
    trace s' = trace s \<and> (\<exists>pool. s' = s\<lparr>
      m_sessions := (m_sessions s)[i := (m_sessions s ! i)\<lparr>sendingCount := 0\<rparr>], packets := pool\<rparr> \<and>
      (\<forall>p. refs pool p = refs (packets s) p - count_list (take (nat (sendingCount (m_sessions s ! i)))
        (sendingPackets (m_sessions s ! i))) p) \<and>
      (\<forall>p. 0 < refs pool p \<longrightarrow> packet_view pool p = packet_view (packets s) p))"
proof -
  let ?x = "m_sessions s ! i"
  let ?ps = "take (nat (sendingCount ?x)) (sendingPackets ?x)"
  have ok: "sess_ok ?x" using net_invD(3)[OF s i] .
  have sd: "sending ?x = Inr ?ps" using ok by (simp add: sending_def sess_ok_def MAX_SEND_PACKET_def)
  have q: "count_list (queued ?x) p = count_list ?ps p + count_list (sendQ ?x) p" for p
    by (simp add: queued_def)
  let ?y = "?x\<lparr>sendingCount := 0\<rparr>"
  let ?s1 = "s\<lparr>m_sessions := (m_sessions s)[i := ?y]\<rparr>"
  have 1: "net_inv ar (\<lambda>p. c p + count_list ?ps p) ?s1"
    by (rule net_inv_upd[OF s i]) (use ok q in \<open>auto simp: sess_ok_def queued_def\<close>)
  have "count_list ?ps p \<le> refs (packets ?s1) p" for p
    using net_invD(4)[OF 1, of p] by simp
  from free_packets[of s ?ps env] this net_invD(2)[OF s] obtain pool where
    2: "for_each (FreePacket env) ?ps s = Inr (s\<lparr>packets := pool\<rparr>)" "pkt_inv pool"
      "\<forall>p. refs pool p = refs (packets s) p - count_list ?ps p"
      "\<forall>p. 0 < refs pool p \<longrightarrow> packet_view pool p = packet_view (packets s) p" by auto
  have "net_inv ar c (?s1\<lparr>packets := pool\<rparr>)"
  proof (rule net_inv_pool[OF 1 2(2)])
    fix p
    show "refs pool p + (c p + count_list ?ps p) = refs (packets ?s1) p + c p"
      using 2(3)[rule_format, of p] net_invD(4)[OF 1, of p] by simp
  qed
  moreover have "FreeSending env i s = Inr (?s1\<lparr>packets := pool\<rparr>)"
    using i sd 2(1) by (simp add: FreeSending_def)
  moreover have "same_rx s (?s1\<lparr>packets := pool\<rparr>)"
    using same_rx_upd[OF i, of ?y] by (simp add: rx_def same_rx_def)
  ultimately show ?thesis using 2(3,4) by (intro exI[of _ "?s1\<lparr>packets := pool\<rparr>"]) auto
qed

lemma drain_inv:
  assumes "net_inv ar c s" and "i < length (m_sessions s)" and "length (sendQ (m_sessions s ! i)) \<le> n"
  shows "\<exists>s'. drain_sendQ env n i s = Inr s' \<and> net_inv ar c s' \<and> same_rx s s' \<and> app s' = app s \<and>
    trace s' = trace s \<and> (\<exists>pool. s' = s\<lparr>packets := pool,
      m_sessions := (m_sessions s)[i := (m_sessions s ! i)\<lparr>sendQ := []\<rparr>]\<rparr>)"
  using assms
proof (induction n arbitrary: s)
  case 0
  have "(m_sessions s)[i := (m_sessions s ! i)\<lparr>sendQ := []\<rparr>] = m_sessions s"
    using 0 by (intro list_update_same_conv[THEN iffD2]) auto
  then show ?case using 0 by (intro exI[of _ s]) (auto intro: exI[of _ "packets s"])
next
  case (Suc n)
  let ?x = "m_sessions s ! i"
  show ?case
  proof (cases "sendQ ?x")
    case Nil
    then have "(m_sessions s)[i := ?x\<lparr>sendQ := []\<rparr>] = m_sessions s"
      using Suc.prems by (intro list_update_same_conv[THEN iffD2]) auto
    then show ?thesis using Suc.prems Nil
      by (intro exI[of _ s]) (auto intro: exI[of _ "packets s"])
  next
    case (Cons p q)
    let ?s1 = "s\<lparr>m_sessions := (m_sessions s)[i := ?x\<lparr>sendQ := q\<rparr>]\<rparr>"
    have ok: "sess_ok ?x" using net_invD(3)[OF Suc.prems(1,2)] .
    have 1: "net_inv ar (c(p := c p + 1)) ?s1"
      by (rule net_inv_upd[OF Suc.prems(1,2)]) (use ok Cons in \<open>auto simp: sess_ok_def queued_def\<close>)
    obtain pool where 2: "FreePacket env p ?s1 = Inr (?s1\<lparr>packets := pool\<rparr>)"
      "net_inv ar c (?s1\<lparr>packets := pool\<rparr>)"
      using FreePacket_inv[OF 1, of p env] by auto
    let ?s2 = "?s1\<lparr>packets := pool\<rparr>"
    have "i < length (m_sessions ?s2)" "length (sendQ (m_sessions ?s2 ! i)) \<le> n"
      using Suc.prems Cons by simp_all
    from Suc.IH[OF 2(2) this] obtain s' pool' where 3: "drain_sendQ env n i ?s2 = Inr s'"
      "net_inv ar c s'" "same_rx ?s2 s'" "s' = ?s2\<lparr>packets := pool',
        m_sessions := (m_sessions ?s2)[i := (m_sessions ?s2 ! i)\<lparr>sendQ := []\<rparr>]\<rparr>" by blast
    have "same_rx s ?s2" using same_rx_upd[OF Suc.prems(2), of "?x\<lparr>sendQ := q\<rparr>"] by (simp add: rx_def same_rx_def)
    then have "same_rx s s'" using 3(3) same_rx_trans by blast
    moreover have "drain_sendQ env (Suc n) i s = Inr s'" using Suc.prems(2) Cons 2(1) 3(1) by simp
    moreover have "s' = s\<lparr>packets := pool', m_sessions := (m_sessions s)[i := ?x\<lparr>sendQ := []\<rparr>]\<rparr>"
      using 3(4) Suc.prems(2) by simp
    ultimately show ?thesis using 3(2) by (intro exI[of _ s']) auto
  qed
qed

end
