(* ===== verification/NetSafety.thy ===== *)
theory NetSafety
  imports NetServer
begin

text \<open>
  The safety of the net server: every operation keeps the invariant of the sessions, the exact
  accounting of packet references and of the sessions' own reference counts, and ends normally or
  in \<open>__debugbreak\<close>, whatever the system calls return. The contract between the server and the
  class derived from it is stated as two locales: \<open>net_release\<close> (the release callback, enough
  for sending and disconnecting) and \<open>net_app\<close> (all callbacks).
\<close>

section \<open>Reference counts of sessions\<close>

text \<open>
  At rest a session is released (its count is the flag alone, its queues are empty, its index is on
  the stack or, in \<open>b\<close>, on its way there or from there) or live, with a positive count. \<open>r\<close> counts
  the references that are known: those of pending receives and of the running operation. The
  only other one is that of a pending send, and then \<open>isSending\<close> is set. The low bits of a
  live session's id are its index.
\<close>

definition released :: "session \<Rightarrow> bool" where
  "released x \<longleftrightarrow> ioCount x = RELEASE_FLAG"

definition stacked :: "'a server \<Rightarrow> nat set" where
  "stacked s = unat ` set (m_indexStack s)"

definition io_sess :: "(nat \<Rightarrow> nat) \<Rightarrow> nat set \<Rightarrow> nat set \<Rightarrow> nat \<Rightarrow> session \<Rightarrow> bool" where
  "io_sess r b st i x \<longleftrightarrow> (released x \<longleftrightarrow> i \<in> st \<or> i \<in> b) \<and> \<not> (i \<in> st \<and> i \<in> b) \<and>
     (\<not> isSending x \<longrightarrow> sendingCount x = 0) \<and>
     (if released x then r i = 0 \<and> queued x = []
      else 0 < unat (ioCount x) \<and> r i \<le> unat (ioCount x) \<and>
        unat (ioCount x) \<le> r i + of_bool (isSending x) \<and>
        sessionID x AND INDEX_MASK = of_nat i)"

definition live_set :: "'a server \<Rightarrow> nat set" where
  "live_set s = {i. i < length (m_sessions s) \<and> \<not> released (m_sessions s ! i)}"

definition io_inv :: "(nat \<Rightarrow> nat) \<Rightarrow> nat set \<Rightarrow> 'a server \<Rightarrow> bool" where
  "io_inv r b s \<longleftrightarrow> length (m_sessions s) \<le> 65536 \<and> distinct (m_indexStack s) \<and>
     (\<forall>i\<in>stacked s. i < length (m_sessions s)) \<and> (\<forall>i\<in>b. i < length (m_sessions s)) \<and>
     (\<forall>i. r i < 100) \<and> m_sessionCount s = of_nat (card (live_set s)) \<and>
     (\<forall>i<length (m_sessions s). io_sess r b (stacked s) i (m_sessions s ! i))"

definition srv :: "('a \<Rightarrow> u64 \<Rightarrow> nat) \<Rightarrow> ('a \<Rightarrow> bool) \<Rightarrow> (u64 \<Rightarrow> nat) \<Rightarrow> (nat \<Rightarrow> nat) \<Rightarrow> nat set \<Rightarrow>
    'a server \<Rightarrow> bool" where
  "srv ar J c r b s \<longleftrightarrow> net_inv ar c s \<and> io_inv r b s \<and> J (app s)"

definition kept :: "('a \<Rightarrow> u64 \<Rightarrow> nat) \<Rightarrow> ('a \<Rightarrow> bool) \<Rightarrow> (u64 \<Rightarrow> nat) \<Rightarrow> (nat \<Rightarrow> nat) \<Rightarrow> nat set \<Rightarrow>
    'a server \<Rightarrow> 'a server \<Rightarrow> bool" where
  "kept ar J c r b s s' \<longleftrightarrow> srv ar J c r b s' \<and> same_rx s s'"

lemma kept_refl [simp]: "kept ar J c r b s s = srv ar J c r b s"
  by (simp add: kept_def)

lemma kept_trans: "same_rx s s1 \<Longrightarrow> kept ar J c r b s1 s2 \<Longrightarrow> kept ar J c r b s s2"
  by (auto simp: kept_def intro: same_rx_trans)

lemma safe_kept_trans: "same_rx s s1 \<Longrightarrow> safe_if B (kept ar J c r b s1) res \<Longrightarrow> safe_if B (kept ar J c r b s) res"
  by (erule safe_mono) (rule kept_trans)

lemma same_rx_simps [simp]: "same_rx s (s'\<lparr>trace := tr\<rparr>) = same_rx s s'"
  "same_rx s (s'\<lparr>packets := pool\<rparr>) = same_rx s s'"
  "same_rx s (s'\<lparr>m_sessionCount := n\<rparr>) = same_rx s s'"
  "same_rx s (s'\<lparr>m_indexStack := st\<rparr>) = same_rx s s'"
  "same_rx s (s'\<lparr>app := a\<rparr>) = same_rx s s'"
  "same_rx (s\<lparr>trace := tr\<rparr>) s' = same_rx s s'"
  "same_rx (s\<lparr>packets := pool\<rparr>) s' = same_rx s s'"
  "same_rx (s\<lparr>m_sessionCount := n\<rparr>) s' = same_rx s s'"
  "same_rx (s\<lparr>m_indexStack := st\<rparr>) s' = same_rx s s'"
  "same_rx (s\<lparr>app := a\<rparr>) s' = same_rx s s'"
  by (simp_all add: same_rx_def)

lemma net_inv_trace [simp]: "net_inv ar c (s\<lparr>trace := tr\<rparr>) = net_inv ar c s"
  "net_inv ar c (s\<lparr>m_sessionCount := n\<rparr>) = net_inv ar c s"
  "net_inv ar c (s\<lparr>m_indexStack := st\<rparr>) = net_inv ar c s"
  by (auto simp: net_inv_def held_def)

lemma io_inv_simps [simp]: "io_inv r b (s\<lparr>trace := tr\<rparr>) = io_inv r b s"
  "io_inv r b (s\<lparr>packets := pool\<rparr>) = io_inv r b s"
  "io_inv r b (s\<lparr>app := a\<rparr>) = io_inv r b s"
  by (simp_all add: io_inv_def live_set_def stacked_def)

lemma emit_simps [simp]: "m_sessions (emit e s) = m_sessions s" "packets (emit e s) = packets s"
  "app (emit e s) = app s" "io_inv r b (emit e s) = io_inv r b s" "net_inv ar c (emit e s) = net_inv ar c s"
  "same_rx s (emit e s') = same_rx s s'" "same_rx (emit e s) s' = same_rx s s'"
  "m_indexStack (emit e s) = m_indexStack s" "m_sessionCount (emit e s) = m_sessionCount s"
  "m_maxSessionCount (emit e s) = m_maxSessionCount s" "m_nagle (emit e s) = m_nagle s"
  "m_sessionIDGenerator (emit e s) = m_sessionIDGenerator s"
  by (simp_all add: emit_def)

lemma stacked_simps [simp]: "stacked (s\<lparr>m_sessions := l\<rparr>) = stacked s" "stacked (emit e s) = stacked s"
  "stacked (s\<lparr>packets := pool\<rparr>) = stacked s" "stacked (s\<lparr>m_sessionCount := n\<rparr>) = stacked s"
  by (simp_all add: stacked_def emit_def)

lemma index_mask: "sid AND INDEX_MASK = take_bit 16 sid"
proof -
  have "INDEX_MASK = mask 16" by (simp add: INDEX_MASK_def mask_eq_exp_minus_1)
  then show ?thesis by (simp add: take_bit_eq_mask)
qed

lemma unat_index: "unat (ucast (sid AND INDEX_MASK) :: u32) = unat (sid AND INDEX_MASK)"
  by (simp add: index_mask unsigned_ucast_eq unsigned_take_bit_eq)

text \<open>The words of a count.\<close>

lemma no_flag: "unat (w :: u32) < 2 ^ 31 \<Longrightarrow> w AND RELEASE_FLAG = 0"
proof -
  assume "unat w < 2 ^ 31"
  then have "unat (take_bit 31 w) = unat w" by (simp add: unsigned_take_bit_eq take_bit_nat_eq_self)
  then have "take_bit 31 w = w" by (simp add: word_unat_eq_iff)
  then have "\<not> bit w 31" by (metis bit_take_bit_iff less_irrefl)
  then have "w AND 2 ^ 31 = 0" using and_exp_eq_0_iff_not_bit[of w 31] by blast
  then show ?thesis by (simp add: RELEASE_FLAG_def)
qed

lemma flag_inc: "(RELEASE_FLAG + 1) AND RELEASE_FLAG \<noteq> 0"
  by (simp add: RELEASE_FLAG_def)

lemma flag_clear: "(RELEASE_FLAG + 1) AND NOT RELEASE_FLAG = 1"
  by (simp add: RELEASE_FLAG_def)

lemma unat_inc: "unat (w :: u32) < 2 ^ 31 \<Longrightarrow> unat (w + 1) = unat w + 1"
  by (simp add: unat_word_ariths)

lemma unat_dec: "0 < unat (w :: u32) \<Longrightarrow> unat (w + (- 1)) = unat w - 1"
proof -
  assume "0 < unat w"
  then have "(1 :: u32) \<le> w" by (simp add: word_le_nat_alt)
  then show ?thesis by (simp add: unat_sub)
qed

lemma released_small: "unat (ioCount x) < 2 ^ 31 \<Longrightarrow> \<not> released x"
  by (auto simp: released_def RELEASE_FLAG_def)

text \<open>Changes of one session.\<close>

lemma net_inv_session:
  assumes "net_inv ar c s" and i: "i < length (m_sessions s)"
    and "rx y = rx (m_sessions s ! i)" and "queued y = queued (m_sessions s ! i)"
    and "length (sendingPackets y) = length (sendingPackets (m_sessions s ! i))"
    and "sendingCount y = sendingCount (m_sessions s ! i)"
  shows "net_inv ar c (s\<lparr>m_sessions := (m_sessions s)[i := y]\<rparr>)"
    and "same_rx s (s\<lparr>m_sessions := (m_sessions s)[i := y]\<rparr>)"
proof -
  have "sess_ok y" using net_invD(3)[OF assms(1) i] assms(3-6) by (auto simp: sess_ok_def rx_def)
  then show "net_inv ar c (s\<lparr>m_sessions := (m_sessions s)[i := y]\<rparr>)"
    by (intro net_inv_upd[OF assms(1) i]) (simp_all add: assms(4))
  show "same_rx s (s\<lparr>m_sessions := (m_sessions s)[i := y]\<rparr>)" by (rule same_rx_upd[OF i assms(3)])
qed

lemma io_inv_upd:
  assumes s: "io_inv r b s" and i: "i < length (m_sessions s)"
    and y: "io_sess r' b (stacked s) i y" and rel: "released y = released (m_sessions s ! i)"
    and r: "\<And>j. j \<noteq> i \<Longrightarrow> r' j = r j" "r' i < 100"
  shows "io_inv r' b (s\<lparr>m_sessions := (m_sessions s)[i := y]\<rparr>)"
proof -
  let ?s = "s\<lparr>m_sessions := (m_sessions s)[i := y]\<rparr>"
  have "live_set ?s = live_set s" using i rel by (auto simp: live_set_def nth_list_update)
  moreover have "stacked ?s = stacked s" by (simp add: stacked_def)
  moreover have "io_sess r' b (stacked s) j ((m_sessions s)[i := y] ! j)" if "j < length (m_sessions s)" for j
    using that y s r i by (cases "j = i") (auto simp: io_inv_def io_sess_def)
  moreover have "r' j < 100" for j using r s by (cases "j = i") (auto simp: io_inv_def)
  ultimately show ?thesis using s by (simp add: io_inv_def)
qed

lemma io_sess_sendQ:
  "io_sess r b st i x \<Longrightarrow> \<not> released x \<Longrightarrow> io_sess r b st i (x\<lparr>sendQ := q\<rparr>)"
  and io_sess_recvQ: "io_sess r b st i x \<Longrightarrow> io_sess r b st i (x\<lparr>recvQ := q'\<rparr>)"
  by (auto simp: io_sess_def released_def queued_def)

lemma io_invD:
  assumes "io_inv r b s" and "i < length (m_sessions s)"
  shows "io_sess r b (stacked s) i (m_sessions s ! i)" "r i < 100"
  using assms by (auto simp: io_inv_def)

lemma io_live:
  assumes "io_inv r b s" and "i < length (m_sessions s)" and "\<not> released (m_sessions s ! i) \<or> 0 < r i"
  shows "\<not> released (m_sessions s ! i)" "0 < unat (ioCount (m_sessions s ! i))"
    "unat (ioCount (m_sessions s ! i)) \<le> r i + 1" "unat (ioCount (m_sessions s ! i)) < 2 ^ 31 - 2"
    "r i \<le> unat (ioCount (m_sessions s ! i))" "i \<notin> stacked s" "i \<notin> b"
proof -
  note D = io_invD[OF assms(1,2)]
  have n: "\<not> released (m_sessions s ! i)" using D(1) assms(3) by (auto simp: io_sess_def)
  then show "\<not> released (m_sessions s ! i)" "0 < unat (ioCount (m_sessions s ! i))"
    "unat (ioCount (m_sessions s ! i)) \<le> r i + 1"
    "r i \<le> unat (ioCount (m_sessions s ! i))" "i \<notin> stacked s" "i \<notin> b"
    using D(1) by (auto simp: io_sess_def of_bool_def split: if_splits)
  then show "unat (ioCount (m_sessions s ! i)) < 2 ^ 31 - 2" using D(2) by simp
qed

section \<open>The buffers of a send\<close>

lemma wsabufs_ok:
  assumes "pkt_inv pool" and "\<forall>p\<in>set ps. live pool p \<noteq> None"
  shows "wsabufs pool ps = Inr (map (\<lambda>p. packet_wire (the (live pool p))) ps)"
  using assms(2)
proof (induction ps)
  case (Cons p ps)
  then obtain x where x: "live pool p = Some x" by auto
  note G = get_packet[OF assms(1) x]
  have I: "packet_inv x" using G(2) by (simp add: packet_ok_def)
  have "mem_read (m_chpBuffer x) (Packet_GetSendPtr x) (Packet_GetSendSize x) = Inr (packet_wire x)"
    unfolding packet_wire_def
    by (rule mem_read_ok) (use I in \<open>auto simp: packet_inv_def Packet_GetSendPtr_def Packet_GetSendSize_def\<close>)
  then show ?case using Cons x G(1) by simp
qed simp

text \<open>At most \<open>n\<close> packets move from the queue to the array, oldest first.\<close>

lemma SendPost_collect_eq:
  assumes "cnt + n \<le> length (sendingPackets x)"
  shows "\<exists>ps arr. SendPost_collect n cnt x = (x\<lparr>sendQ := drop n (sendQ x), sendingPackets := arr\<rparr>, cnt + length ps) \<and>
    ps = take n (sendQ x) \<and> length arr = length (sendingPackets x) \<and>
    take (cnt + length ps) arr = take cnt (sendingPackets x) @ ps"
  using assms
proof (induction n arbitrary: cnt x)
  case 0
  show ?case by (intro exI[of _ "[]"] exI[of _ "sendingPackets x"]) simp
next
  case (Suc n)
  show ?case
  proof (cases "sendQ x")
    case Nil
    have "x\<lparr>sendQ := [], sendingPackets := sendingPackets x\<rparr> = x" using Nil by (cases x) simp
    then show ?thesis using Nil by (intro exI[of _ "[]"] exI[of _ "sendingPackets x"]) simp
  next
    case (Cons p q)
    let ?x = "x\<lparr>sendQ := q, sendingPackets := (sendingPackets x)[cnt := p]\<rparr>"
    have "Suc cnt + n \<le> length (sendingPackets ?x)" using Suc.prems by simp
    from Suc.IH[OF this] obtain ps arr where IH:
      "SendPost_collect n (Suc cnt) ?x = (?x\<lparr>sendQ := drop n (sendQ ?x), sendingPackets := arr\<rparr>, Suc cnt + length ps)"
      "ps = take n (sendQ ?x)" "length arr = length (sendingPackets ?x)"
      "take (Suc cnt + length ps) arr = take (Suc cnt) (sendingPackets ?x) @ ps" by blast
    have "take (Suc cnt) ((sendingPackets x)[cnt := p]) = take cnt (sendingPackets x) @ [p]"
      using Suc.prems by (simp add: take_Suc_conv_app_nth)
    then show ?thesis using IH Cons
      by (intro exI[of _ "p # ps"] exI[of _ arr]) simp
  qed
qed

lemma SetNetHeader_buffer:
  "Packet_SetNetHeader rnd x = Inr y \<Longrightarrow> m_iBufferSize y = m_iBufferSize x"
  by (auto simp: Packet_SetNetHeader_def Packet_Encode_def Let_def split: if_splits elim!: and_then_InrE)

lemma SetNetHeader_packet:
  assumes "packet_ok x"
  shows "\<exists>y. Packet_SetNetHeader rnd x = Inr y \<and> packet_ok y \<and> m_refCount y = m_refCount x"
proof (cases "m_bEncoded x")
  case True
  then show ?thesis using assms by (simp add: Packet_SetNetHeader_def)
next
  case False
  have "packet_inv x" "m_iWritePos x - 5 < 65536" using assms by (auto simp: packet_ok_def packet_inv_def)
  from SetNetHeader_ok[OF this(1) False this(2), of rnd] assms show ?thesis
    by (auto simp: packet_ok_def SetNetHeader_buffer)
qed

lemma queued_live:
  assumes s: "net_inv ar c s" and i: "i < length (m_sessions s)" and p: "p \<in> set (queued (m_sessions s ! i))"
  shows "live (packets s) p \<noteq> None"
proof -
  have "0 < count_list (queued (m_sessions s ! i)) p" using p by (metis count_list_0_iff gr0I)
  also have "\<dots> \<le> held s p" unfolding held_def
    using i by (intro member_le_sum_list) auto
  finally have "0 < refs (packets s) p" using net_invD(4)[OF s, of p] by linarith
  then show ?thesis using refs_live by blast
qed

section \<open>Release\<close>

locale net_release =
  fixes env :: "'a net_env"
    and B :: bool
    and ar :: "'a \<Rightarrow> u64 \<Rightarrow> nat"
    and J :: "'a \<Rightarrow> bool"
  assumes pool_law: "pkt_env (ne_pool env)"
    and wsa_law: "\<not> B \<Longrightarrow> ne_wsa env tr e = 0 \<or> ne_wsa env tr e = WSA_IO_PENDING \<or>
      ne_wsa env tr e = WSAECONNRESET"
    and OnRelease_law: "srv ar J c r b s \<Longrightarrow> safe_if B (kept ar J c r b s) (OnRelease env sid s)"
begin

text \<open>The session whose count has reached zero is released: everything it holds is freed.\<close>

lemma Release_safe:
  assumes s: "net_inv ar c s" "J (app s)" and i: "i < length (m_sessions s)"
    and z: "ioCount (m_sessions s ! i) = 0" "r i = 0" and nb: "i \<notin> stacked s" "i \<notin> b"
    and io: "length (m_sessions s) \<le> 65536" "distinct (m_indexStack s)" "\<forall>k\<in>stacked s. k < length (m_sessions s)"
      "\<forall>k\<in>b. k < length (m_sessions s)" "\<forall>k. r k < 100" "m_sessionCount s = of_nat (card (live_set s))"
      "\<forall>k<length (m_sessions s). k \<noteq> i \<longrightarrow> io_sess r b (stacked s) k (m_sessions s ! k)"
  shows "safe_if B (kept ar J c r b s) (ReleaseSession env i s)"
proof -
  let ?x = "m_sessions s ! i"
  let ?s1 = "emit (EvClose (sock ?x)) (s\<lparr>m_sessions := (m_sessions s)[i := ?x\<lparr>ioCount := RELEASE_FLAG\<rparr>]\<rparr>)"
  have 1: "net_inv ar c ?s1" "same_rx s ?s1"
    using net_inv_session[OF s(1) i, of "?x\<lparr>ioCount := RELEASE_FLAG\<rparr>"]
    by (simp_all add: rx_def queued_def)
  have i1: "i < length (m_sessions ?s1)" using i by simp
  obtain pool2 s2 where 2: "FreeSending env i ?s1 = Inr s2" "net_inv ar c s2" "same_rx ?s1 s2"
    "s2 = ?s1\<lparr>m_sessions := (m_sessions ?s1)[i := (m_sessions ?s1 ! i)\<lparr>sendingCount := 0\<rparr>], packets := pool2\<rparr>"
    using FreeSending_inv[OF 1(1) i1, of env] by blast
  have i2: "i < length (m_sessions s2)" using i1 same_rx_length[OF 2(3)] by simp
  have q2: "length (sendQ (m_sessions s2 ! i)) \<le> length (sendQ ?x)" using 2(4) i by simp
  obtain pool3 s3 where 3: "drain_sendQ env (length (sendQ ?x)) i s2 = Inr s3" "net_inv ar c s3" "same_rx s2 s3"
    "s3 = s2\<lparr>packets := pool3, m_sessions := (m_sessions s2)[i := (m_sessions s2 ! i)\<lparr>sendQ := []\<rparr>]\<rparr>"
    using drain_inv[OF 2(2) i2 q2] by blast
  let ?s4 = "s3\<lparr>m_sessionCount := m_sessionCount s3 - 1\<rparr>"
  let ?y = "?x\<lparr>ioCount := RELEASE_FLAG, sendingCount := 0, sendQ := []\<rparr>"
  have ss: "m_sessions ?s4 = (m_sessions s)[i := ?y]" using 2(4) 3(4) i by simp
  have st: "m_indexStack ?s4 = m_indexStack s" "app ?s4 = app s"
    "m_sessionCount ?s4 = m_sessionCount s - 1" using 2(4) 3(4) by (simp_all add: emit_def)
  have lv: "live_set s = insert i (live_set ?s4)" "i \<notin> live_set ?s4" "finite (live_set ?s4)"
    using i z(1) unfolding live_set_def ss
    by (auto simp: released_def RELEASE_FLAG_def nth_list_update)
  have stk: "stacked ?s4 = stacked s" using st(1) by (simp add: stacked_def)
  have ioi: "io_sess r (insert i b) (stacked s) k ((m_sessions s)[i := ?y] ! k)"
    if "k < length (m_sessions s)" for k
  proof (cases "k = i")
    case True
    then show ?thesis using i z nb by (simp add: io_sess_def released_def queued_def)
  next
    case False
    then show ?thesis using io(7) that by (simp add: io_sess_def)
  qed
  have "srv ar J c r (insert i b) ?s4"
    unfolding srv_def io_inv_def stk ss st
    using 3(2) s(2) st io(1-6) i ioi lv by (auto simp: stk)
  from OnRelease_law[OF this] have
    "safe_if B (kept ar J c r (insert i b) ?s4) (OnRelease env (sessionID (m_sessions ?s4 ! i)) ?s4)" .
  moreover have sr: "same_rx s ?s4" using 1(2) 2(3) 3(3) same_rx_trans by (metis same_rx_simps(3))
  have "kept ar J c r b s (s'\<lparr>m_indexStack := of_nat i # m_indexStack s'\<rparr>)"
    if k: "kept ar J c r (insert i b) ?s4 s'" for s'
  proof -
    have srv: "net_inv ar c s'" "io_inv r (insert i b) s'" "J (app s')" "same_rx ?s4 s'"
      using k by (auto simp: kept_def srv_def)
    have len: "length (m_sessions s') = length (m_sessions s)"
      using same_rx_length[OF srv(4)] ss by simp
    have ui: "unat (of_nat i :: u32) = i"
      using i io(1) by (simp add: unat_of_nat take_bit_nat_eq_self)
    have nst: "i \<notin> stacked s'"
      using io_invD(1)[OF srv(2), of i] i len by (simp add: io_sess_def)
    then have nin: "of_nat i \<notin> set (m_indexStack s')" using ui by (metis image_eqI stacked_def)
    let ?s5 = "s'\<lparr>m_indexStack := of_nat i # m_indexStack s'\<rparr>"
    have stk5: "stacked ?s5 = insert i (stacked s')" using ui by (simp add: stacked_def)
    have "io_sess r b (insert i (stacked s')) k (m_sessions s' ! k)" if "k < length (m_sessions s')" for k
      using io_invD(1)[OF srv(2) that] nb(2) nst by (cases "k = i") (auto simp: io_sess_def)
    moreover have "live_set ?s5 = live_set s'" by (simp add: live_set_def)
    ultimately have "io_inv r b ?s5"
      using srv(2) i len nin by (simp add: io_inv_def stk5)
    then show ?thesis using srv sr by (simp add: kept_def srv_def same_rx_trans[OF sr srv(4)])
  qed
  ultimately have "safe_if B (kept ar J c r b s) (and_then (OnRelease env (sessionID (m_sessions ?s4 ! i)) ?s4)
      (\<lambda>s. Inr (s\<lparr>m_indexStack := of_nat i # m_indexStack s\<rparr>)))"
    by (elim safe_and_then) simp
  moreover have "ReleaseSession env i s = and_then (OnRelease env (sessionID (m_sessions ?s4 ! i)) ?s4)
      (\<lambda>s. Inr (s\<lparr>m_indexStack := of_nat i # m_indexStack s\<rparr>))"
  proof -
    have "i < length (m_sessions ?s4)" using i ss by simp
    then show ?thesis using i z 2(1) 3(1) by (simp add: ReleaseSession_def Let_def)
  qed
  ultimately show ?thesis by simp
qed

text \<open>Dropping a known reference, then releasing at zero, as most operations end.\<close>

lemma Return_safe:
  assumes s: "srv ar J c r b s" and i: "i < length (m_sessions s)" and r: "0 < r i"
  shows "safe_if B (kept ar J c (r(i := r i - 1)) b s) (and_then (add_io (- 1) i s)
    (\<lambda>(s, n). if n = 0 then ReleaseSession env i s else Inr s))"
proof -
  let ?x = "m_sessions s ! i"
  let ?n = "ioCount ?x + (- 1)"
  let ?s1 = "s\<lparr>m_sessions := (m_sessions s)[i := ?x\<lparr>ioCount := ?n\<rparr>]\<rparr>"
  let ?r = "r(i := r i - 1)"
  have S: "net_inv ar c s" "io_inv r b s" "J (app s)" using s by (auto simp: srv_def)
  note L = io_live[OF S(2) i disjI2[OF r]]
  have un: "unat ?n = unat (ioCount ?x) - 1" using L(2) by (rule unat_dec)
  have nr: "\<not> released (?x\<lparr>ioCount := ?n\<rparr>)" by (rule released_small) (use un L(4) in simp)
  have 1: "net_inv ar c ?s1" "same_rx s ?s1"
    using net_inv_session[OF S(1) i, of "?x\<lparr>ioCount := ?n\<rparr>"] by (simp_all add: rx_def queued_def)
  have "safe_if B (kept ar J c ?r b s) (if ?n = 0 then ReleaseSession env i ?s1 else Inr ?s1)"
  proof (cases "?n = 0")
    case False
    then have "0 < unat ?n" by (simp add: unat_gt_0)
    then have "io_sess ?r b (stacked s) i (?x\<lparr>ioCount := ?n\<rparr>)"
      using io_invD(1)[OF S(2) i] nr L un r by (auto simp: io_sess_def)
    then have "io_inv ?r b ?s1"
      by (rule io_inv_upd[OF S(2) i]) (use nr L(1) r io_invD(2)[OF S(2) i] in auto)
    then show ?thesis using False 1 S(3) by (simp add: kept_def srv_def)
  next
    case True
    then have n0: "unat (ioCount ?x) = 1" using un L(2) by simp
    have "live_set ?s1 = live_set s" using i nr L(1) by (auto simp: live_set_def nth_list_update)
    then have "safe_if B (kept ar J c ?r b ?s1) (ReleaseSession env i ?s1)"
      using S(2) S(3) i True L n0 r 1(1)
      by (intro Release_safe) (auto simp: io_inv_def io_sess_def)
    then show ?thesis using True safe_kept_trans[OF 1(2)] by simp
  qed
  then show ?thesis by (simp only: add_io_eq[OF i] and_then_Inr prod.case)
qed

lemma ReturnSession_safe:
  "srv ar J c r b s \<Longrightarrow> i < length (m_sessions s) \<Longrightarrow> 0 < r i \<Longrightarrow>
   safe_if B (kept ar J c (r(i := r i - 1)) b s) (ReturnSession env i s)"
  unfolding ReturnSession_def by (rule Return_safe)

end

section \<open>Finding a session\<close>

text \<open>
  \<open>AcquireSession\<close> succeeds exactly on the live session with this id, and then only counts the
  reference; otherwise the state is as before.
\<close>

definition found :: "'a server \<Rightarrow> u64 \<Rightarrow> bool" where
  "found s sid \<longleftrightarrow> (let i = unat (sid AND INDEX_MASK) in
     i < length (m_sessions s) \<and> \<not> released (m_sessions s ! i) \<and> sessionID (m_sessions s ! i) = sid)"

definition counted :: "nat \<Rightarrow> 'a server \<Rightarrow> 'a server" where
  "counted i s = s\<lparr>m_sessions := (m_sessions s)[i := (m_sessions s ! i)
     \<lparr>ioCount := ioCount (m_sessions s ! i) + 1\<rparr>]\<rparr>"

lemma AcquireSession_eq:
  assumes n: "net_inv ar c s" and io: "io_inv r b s"
  shows "AcquireSession env sid s = Inr (if found s sid
    then (counted (unat (sid AND INDEX_MASK)) s, Some (unat (sid AND INDEX_MASK))) else (s, None))"
proof -
  let ?index = "ucast (sid AND INDEX_MASK) :: u32"
  define i where "i = unat (sid AND INDEX_MASK)"
  have ui: "unat ?index = i" unfolding i_def by (rule unat_index)
  have lt: "\<not> ?index \<ge> m_maxSessionCount s \<longleftrightarrow> i < length (m_sessions s)"
    using net_invD(1)[OF n] ui by (simp add: not_le word_less_nat_alt)
  show ?thesis
  proof (cases "i < length (m_sessions s)")
    case False
    then show ?thesis using lt by (simp add: AcquireSession_def found_def Let_def i_def)
  next
    case i: True
    let ?x = "m_sessions s ! i"
    let ?s1 = "counted i s"
    have undo: "ReturnSession env i ?s1 = Inr s" if "ioCount ?x \<noteq> 0"
    proof -
      have "(m_sessions s)[i := ?x] = m_sessions s" by simp
      moreover have "?x\<lparr>ioCount := ioCount ?x\<rparr> = ?x" by (cases ?x) simp
      ultimately show ?thesis using i that by (simp add: ReturnSession_def counted_def)
    qed
    have "AcquireSession env sid s =
        (if (ioCount ?x + 1) AND RELEASE_FLAG \<noteq> 0 \<or> sessionID ?x \<noteq> sid
         then and_then (ReturnSession env i ?s1) (\<lambda>s. Inr (s, None)) else Inr (?s1, Some i))"
      using lt i ui by (simp add: AcquireSession_def Let_def counted_def)
    moreover have "(ioCount ?x + 1) AND RELEASE_FLAG \<noteq> 0 \<longleftrightarrow> released ?x"
    proof (cases "released ?x")
      case True
      then show ?thesis using flag_inc by (simp add: released_def)
    next
      case False
      note L = io_live[OF io i disjI1[OF False]]
      have "unat (ioCount ?x + 1) < 2 ^ 31" using L(4) by (subst unat_inc) simp_all
      then show ?thesis using False no_flag by blast
    qed
    moreover have "ioCount ?x \<noteq> 0"
    proof (cases "released ?x")
      case False
      then show ?thesis using io_live(2)[OF io i disjI1[OF False]] by auto
    qed (simp add: released_def RELEASE_FLAG_def)
    ultimately show ?thesis using i undo by (simp add: found_def i_def[symmetric] Let_def)
  qed
qed

lemma counted_simps [simp]: "packets (counted i s) = packets s" "app (counted i s) = app s"
  "trace (counted i s) = trace s" "length (m_sessions (counted i s)) = length (m_sessions s)"
  "m_maxSessionCount (counted i s) = m_maxSessionCount s"
  by (simp_all add: counted_def)

lemma counted_srv:
  assumes s: "srv ar J c r b s" and i: "i < length (m_sessions s)" "\<not> released (m_sessions s ! i)"
    and r: "r i < 99"
  shows "srv ar J c (r(i := r i + 1)) b (counted i s)" "same_rx s (counted i s)"
proof -
  let ?x = "m_sessions s ! i"
  let ?y = "?x\<lparr>ioCount := ioCount ?x + 1\<rparr>"
  have S: "net_inv ar c s" "io_inv r b s" "J (app s)" using s by (auto simp: srv_def)
  note L = io_live[OF S(2) i(1) disjI1[OF i(2)]]
  have un: "unat (ioCount ?x + 1) = unat (ioCount ?x) + 1" using L(4) by (intro unat_inc) simp
  have nr: "\<not> released ?y" by (rule released_small) (use un L(4) in simp)
  have "io_sess (r(i := r i + 1)) b (stacked s) i ?y"
    using io_invD(1)[OF S(2) i(1)] i(2) nr un by (auto simp: io_sess_def)
  then have "io_inv (r(i := r i + 1)) b (counted i s)"
    unfolding counted_def by (rule io_inv_upd[OF S(2) i(1)]) (use nr i(2) r in auto)
  then show "srv ar J c (r(i := r i + 1)) b (counted i s)" "same_rx s (counted i s)"
    using net_inv_session[OF S(1) i(1), of ?y] S(3) by (simp_all add: srv_def counted_def rx_def queued_def)
qed

section \<open>Sending is safe\<close>

text \<open>The session after a send has taken the first packets of its queue into the array \<open>arr\<close>.\<close>

definition collected :: "u64 list \<Rightarrow> session \<Rightarrow> session" where
  "collected arr x = x\<lparr>sendQ := drop MAX_SEND_PACKET (sendQ x), sendingPackets := arr,
     sendingCount := int (length (take MAX_SEND_PACKET (sendQ x)))\<rparr>"

text \<open>A send passes the packets at the head of the queue, at most \<open>MAX_SEND_PACKET\<close>, in order.\<close>

lemma SendPost_send_eq:
  assumes S: "net_inv ar c s" and i: "i < length (m_sessions s)"
  defines "x \<equiv> m_sessions s ! i"
  defines "ps \<equiv> take MAX_SEND_PACKET (sendQ x)"
  defines "e \<equiv> EvSend (sock x) (map (\<lambda>p. packet_wire (the (live (packets s) p))) ps)"
  shows "\<exists>arr. length arr = length (sendingPackets x) \<and> take (length ps) arr = ps \<and>
    SendPost_send env i s = (let s2 = emit e (counted i (s\<lparr>m_sessions := (m_sessions s)[i := collected arr x]\<rparr>));
        err = ne_wsa env (trace s) e in
      if err = 0 \<or> err = WSA_IO_PENDING then Inr s2
      else if err \<noteq> WSAECONNRESET then Inl DebugBreak
      else and_then (add_io (- 1) i s2) (\<lambda>(s, n). if n = 0 then ReleaseSession env i s else Inr s))"
proof -
  have ok: "sess_ok x" using net_invD(3)[OF S i] by (simp add: x_def)
  obtain arr where col: "SendPost_collect MAX_SEND_PACKET 0 x =
      (x\<lparr>sendQ := drop MAX_SEND_PACKET (sendQ x), sendingPackets := arr\<rparr>, length ps)"
    and ps: "length arr = length (sendingPackets x)" "take (length ps) arr = ps"
    using SendPost_collect_eq[of 0 MAX_SEND_PACKET x] ok by (auto simp: sess_ok_def ps_def)
  let ?s1 = "s\<lparr>m_sessions := (m_sessions s)[i := collected arr x]\<rparr>"
  have y: "x\<lparr>sendQ := drop MAX_SEND_PACKET (sendQ x), sendingPackets := arr, sendingCount := int (length ps)\<rparr> = collected arr x"
    by (simp add: collected_def ps_def)
  have "\<forall>p\<in>set ps. live (packets s) p \<noteq> None"
  proof
    fix p assume "p \<in> set ps"
    then have "p \<in> set (queued x)" by (auto simp: queued_def ps_def dest: in_set_takeD)
    then show "live (packets s) p \<noteq> None" using queued_live[OF S i] by (simp add: x_def)
  qed
  then have buf: "wsabufs (packets s) ps = Inr (map (\<lambda>p. packet_wire (the (live (packets s) p))) ps)"
    using net_invD(2)[OF S] by (intro wsabufs_ok) simp_all
  have add: "add_io 1 i ?s1 = Inr (counted i ?s1, ioCount (collected arr x) + 1)" using i by (simp add: counted_def)
  have c: "sendingPackets (collected arr x) = arr" "sock (collected arr x) = sock x"
    by (simp_all add: collected_def)
  have g: "get_session i s = Inr x" "upd_session i (\<lambda>_. collected arr x) s = Inr ?s1" using i by (simp_all add: x_def)
  have "SendPost_send env i s = (let s2 = emit e (counted i ?s1); err = ne_wsa env (trace s) e in
      if err = 0 \<or> err = WSA_IO_PENDING then Inr s2
      else if err \<noteq> WSAECONNRESET then Inl DebugBreak
      else and_then (add_io (- 1) i s2) (\<lambda>(s, n). if n = 0 then ReleaseSession env i s else Inr s))"
    unfolding SendPost_send_def g and_then_Inr col prod.case Let_def y add c
    using buf ps(2) by (simp add: syscall_def emit_def e_def)
  with ps show ?thesis by blast
qed

context net_release begin

lemma SendPost_send_safe:
  assumes s: "srv ar J c r b s" and i: "i < length (m_sessions s)" and r: "0 < r i" "r i < 99"
    and z: "sendingCount (m_sessions s ! i) = 0" "isSending (m_sessions s ! i)"
    and tight: "unat (ioCount (m_sessions s ! i)) \<le> r i"
  shows "safe_if B (kept ar J c r b s) (SendPost_send env i s)"
proof -
  let ?x = "m_sessions s ! i"
  have S: "net_inv ar c s" "io_inv r b s" "J (app s)" using s by (auto simp: srv_def)
  note L = io_live[OF S(2) i disjI2[OF r(1)]]
  have ok: "sess_ok ?x" using net_invD(3)[OF S(1) i] .
  define ps where "ps = take MAX_SEND_PACKET (sendQ ?x)"
  define e where "e = EvSend (sock ?x) (map (\<lambda>p. packet_wire (the (live (packets s) p))) ps)"
  obtain arr where ps: "length arr = length (sendingPackets ?x)" "take (length ps) arr = ps"
    and eq: "SendPost_send env i s = (let s2 = emit e (counted i (s\<lparr>m_sessions := (m_sessions s)[i := collected arr ?x]\<rparr>));
        err = ne_wsa env (trace s) e in
      if err = 0 \<or> err = WSA_IO_PENDING then Inr s2
      else if err \<noteq> WSAECONNRESET then Inl DebugBreak
      else and_then (add_io (- 1) i s2) (\<lambda>(s, n). if n = 0 then ReleaseSession env i s else Inr s))"
    using SendPost_send_eq[OF S(1) i, of env, folded ps_def, folded e_def] by blast
  let ?y = "collected arr ?x"
  let ?s1 = "s\<lparr>m_sessions := (m_sessions s)[i := ?y]\<rparr>"
  have q: "queued ?y = queued ?x" using z(1) ps by (simp add: queued_def collected_def ps_def)
  have oky: "sess_ok ?y" using ok ps(1) by (simp add: sess_ok_def collected_def MAX_SEND_PACKET_def)
  have n1: "net_inv ar c ?s1" by (rule net_inv_upd[OF S(1) i oky]) (simp only: q)
  have x1: "same_rx s ?s1" by (rule same_rx_upd[OF i]) (simp add: rx_def collected_def)
  have rel: "released ?y = released ?x" by (simp add: released_def collected_def)
  have io: "ioCount ?y = ioCount ?x" "isSending ?y = isSending ?x" "sessionID ?y = sessionID ?x"
    by (simp_all add: collected_def)
  have "io_sess r b (stacked s) i ?y"
    using io_invD(1)[OF S(2) i] L z(2) rel io by (auto simp: io_sess_def)
  then have io1: "io_inv r b ?s1"
    by (rule io_inv_upd[OF S(2) i]) (use rel io_invD(2)[OF S(2) i] in auto)
  have i1: "i < length (m_sessions ?s1)" using i by simp
  let ?s2 = "counted i ?s1"
  have nr1: "\<not> released (m_sessions ?s1 ! i)" using i rel L(1) by simp
  have s2: "srv ar J c (r(i := r i + 1)) b ?s2" "same_rx ?s1 ?s2"
    using counted_srv[of ar J c r b ?s1 i] n1 io1 S(3) i1 nr1 r(2) by (auto simp: srv_def)
  let ?w = "m_sessions ?s2 ! i"
  have w: "?w = ?y\<lparr>ioCount := ioCount ?x + 1\<rparr>" using i io by (simp add: counted_def)
  have "io_sess r b (stacked ?s2) i ?w"
  proof -
    have "unat (ioCount ?x + 1) = unat (ioCount ?x) + 1" using L(4) by (intro unat_inc) simp
    moreover have "\<not> released ?w" using s2(1) i1 io_live(1)[of "r(i := r i + 1)" b ?s2 i] by (auto simp: srv_def)
    ultimately show ?thesis using io_invD(1)[OF S(2) i] L z(2) tight w io
      by (auto simp: io_sess_def counted_def)
  qed
  then have "io_inv r b (?s2\<lparr>m_sessions := (m_sessions ?s2)[i := ?w]\<rparr>)"
    using s2(1) i1 r(2) by (intro io_inv_upd[of "r(i := r i + 1)"]) (auto simp: srv_def)
  moreover have "?s2\<lparr>m_sessions := (m_sessions ?s2)[i := ?w]\<rparr> = ?s2" by simp
  ultimately have srv2: "srv ar J c r b ?s2" using s2(1) by (simp add: srv_def)
  have sr: "same_rx s (emit e ?s2)" using x1 s2(2) same_rx_trans by simp
  have "safe_if B (kept ar J c r b (emit e ?s2)) (and_then (add_io (- 1) i (emit e ?s2))
      (\<lambda>(s, n). if n = 0 then ReleaseSession env i s else Inr s))"
    using Return_safe[of c "r(i := r i + 1)" b "emit e ?s2" i] s2(1) i1 by (simp add: srv_def)
  then have "safe_if B (kept ar J c r b s) (and_then (add_io (- 1) i (emit e ?s2))
      (\<lambda>(s, n). if n = 0 then ReleaseSession env i s else Inr s))"
    by (rule safe_kept_trans[OF sr])
  then show ?thesis unfolding eq Let_def using srv2 sr wsa_law[of "trace s" e] by (auto simp: kept_def srv_def)
qed

lemma SendPost_safe:
  assumes s: "srv ar J c r b s" and i: "i < length (m_sessions s)" and r: "0 < r i" "r i < 99"
  shows "safe_if B (kept ar J c r b s) (SendPost env i s)"
proof (cases "isSending (m_sessions s ! i)")
  case True
  then show ?thesis using i s by (simp add: SendPost_def)
next
  case False
  let ?x = "m_sessions s ! i"
  have S: "net_inv ar c s" "io_inv r b s" "J (app s)" using s by (auto simp: srv_def)
  note L = io_live[OF S(2) i disjI2[OF r(1)]]
  let ?y = "?x\<lparr>isSending := True\<rparr>"
  let ?s1 = "s\<lparr>m_sessions := (m_sessions s)[i := ?y]\<rparr>"
  have I: "io_sess r b (stacked s) i ?x" using io_invD(1)[OF S(2) i] .
  then have Y: "io_sess r b (stacked s) i ?y" "sendingCount ?x = 0" "unat (ioCount ?x) \<le> r i"
    using L(1) False by (auto simp: io_sess_def released_def queued_def)
  have io1: "io_inv r b ?s1"
    by (rule io_inv_upd[OF S(2) i Y(1)]) (use io_invD(2)[OF S(2) i] in \<open>auto simp: released_def\<close>)
  have 1: "net_inv ar c ?s1" "same_rx s ?s1"
    using net_inv_session[OF S(1) i, of ?y] by (simp_all add: rx_def queued_def)
  show ?thesis
  proof (cases "sendQ ?x")
    case Nil
    have "?x\<lparr>isSending := False\<rparr> = ?x" using False by (cases ?x) simp
    then have "s\<lparr>m_sessions := (m_sessions s)[i := ?x\<lparr>isSending := False\<rparr>]\<rparr> = s" by simp
    then show ?thesis using i s False Nil by (simp add: SendPost_def)
  next
    case (Cons p q)
    have "safe_if B (kept ar J c r b ?s1) (SendPost_send env i ?s1)"
      by (rule SendPost_send_safe) (use 1 io1 S(3) i r Y in \<open>simp_all add: srv_def\<close>)
    then show ?thesis using i False Cons safe_kept_trans[OF 1(2)] by (simp add: SendPost_def)
  qed
qed

text \<open>A completed send: its reference is not among the known ones.\<close>

lemma SendProc_safe:
  assumes s: "srv ar J c r b s" and i: "i < length (m_sessions s)" and r: "r i < 98"
    and pend: "isSending (m_sessions s ! i)" "\<not> released (m_sessions s ! i)"
      "unat (ioCount (m_sessions s ! i)) = r i + 1"
  shows "safe_if B (kept ar J c r b s) (SendProc env i s)"
proof -
  let ?x = "m_sessions s ! i"
  have S: "net_inv ar c s" "io_inv r b s" "J (app s)" using s by (auto simp: srv_def)
  obtain pool s1 where 1: "FreeSending env i s = Inr s1" "net_inv ar c s1" "same_rx s s1" "app s1 = app s"
    "s1 = s\<lparr>m_sessions := (m_sessions s)[i := ?x\<lparr>sendingCount := 0\<rparr>], packets := pool\<rparr>"
    using FreeSending_inv[OF S(1) i, of env] by blast
  have i1: "i < length (m_sessions s1)" using i same_rx_length[OF 1(3)] by simp
  let ?y = "?x\<lparr>sendingCount := 0, isSending := False\<rparr>"
  let ?s2 = "s1\<lparr>m_sessions := (m_sessions s1)[i := (m_sessions s1 ! i)\<lparr>isSending := False\<rparr>]\<rparr>"
  have m2: "m_sessions ?s2 = (m_sessions s)[i := ?y]" using 1(5) i by simp
  have 2: "net_inv ar c ?s2" "same_rx s1 ?s2"
    using net_inv_session[OF 1(2) i1, of "(m_sessions s1 ! i)\<lparr>isSending := False\<rparr>"]
    by (simp_all add: rx_def queued_def)
  let ?r = "r(i := r i + 1)"
  have "io_sess ?r b (stacked s) i ?y"
    using io_invD(1)[OF S(2) i] pend by (simp add: io_sess_def released_def)
  then have "io_inv ?r b (s\<lparr>m_sessions := (m_sessions s)[i := ?y]\<rparr>)"
    by (rule io_inv_upd[OF S(2) i]) (use r in \<open>auto simp: released_def\<close>)
  moreover have "?s2 = s\<lparr>m_sessions := (m_sessions s)[i := ?y]\<rparr>\<lparr>packets := pool\<rparr>"
    using 1(5) i by simp
  ultimately have io2: "io_inv ?r b ?s2" by (simp only: io_inv_simps)
  have i2: "i < length (m_sessions ?s2)" using i1 by simp
  have s2: "srv ar J c ?r b ?s2" using 2(1) io2 S(3) 1(4) by (simp add: srv_def)
  have "safe_if B (kept ar J c ?r b ?s2) (SendPost env i ?s2)"
    by (rule SendPost_safe[OF s2 i2]) (use r in simp_all)
  then have "safe_if B (kept ar J c r b s) (and_then (SendPost env i ?s2)
      (\<lambda>s. and_then (add_io (- 1) i s) (\<lambda>(s, n). if n = 0 then ReleaseSession env i s else Inr s)))"
  proof (rule safe_and_then)
    fix s3 assume k: "kept ar J c ?r b ?s2 s3"
    then have "i < length (m_sessions s3)" using i2 same_rx_length[of ?s2 s3] by (simp add: kept_def)
    then have "safe_if B (kept ar J c (?r(i := ?r i - 1)) b s3) (and_then (add_io (- 1) i s3)
        (\<lambda>(s, n). if n = 0 then ReleaseSession env i s else Inr s))"
      using k by (intro Return_safe) (auto simp: kept_def)
    moreover have rr: "?r(i := ?r i - 1) = r" by auto
    ultimately have "safe_if B (kept ar J c r b s3) (and_then (add_io (- 1) i s3)
        (\<lambda>(s, n). if n = 0 then ReleaseSession env i s else Inr s))" by (simp only: rr)
    moreover have "same_rx s s3" using 1(3) 2(2) k same_rx_trans unfolding kept_def by blast
    ultimately show "safe_if B (kept ar J c r b s) (and_then (add_io (- 1) i s3)
        (\<lambda>(s, n). if n = 0 then ReleaseSession env i s else Inr s))"
      by (rule safe_kept_trans[rotated])
  qed
  moreover have "SendProc env i s = and_then (SendPost env i ?s2)
      (\<lambda>s. and_then (add_io (- 1) i s) (\<lambda>(s, n). if n = 0 then ReleaseSession env i s else Inr s))"
    using 1(1) i1 by (simp add: SendProc_def)
  ultimately show ?thesis by simp
qed

end

lemma found_counted:
  assumes s: "srv ar J c r b s" and f: "found s sid" and r: "\<forall>j. r j < 98"
  defines "i \<equiv> unat (sid AND INDEX_MASK)"
  shows "i < length (m_sessions s)" "srv ar J c (r(i := r i + 1)) b (counted i s)" "same_rx s (counted i s)"
proof -
  show i: "i < length (m_sessions s)" using f by (simp add: found_def Let_def i_def)
  have nr: "\<not> released (m_sessions s ! i)" using f by (simp add: found_def Let_def i_def)
  have "r i < 99" using r[rule_format, of i] by linarith
  from counted_srv[OF s i nr this]
  show "srv ar J c (r(i := r i + 1)) b (counted i s)" "same_rx s (counted i s)" .
qed

text \<open>Both servers send in the same way and differ in the header, so the header is a parameter here.\<close>

definition send_framed :: "('a server \<Rightarrow> packet \<Rightarrow> packet result) \<Rightarrow> 'a net_env \<Rightarrow> u64 \<Rightarrow> u64 \<Rightarrow>
    'a server \<Rightarrow> ('a server \<times> bool) result" where
  "send_framed hdr env sid p s =
     and_then (AcquireSession env sid s) (\<lambda>(s, r).
     case r of None \<Rightarrow> Inr (s, False)
     | Some i \<Rightarrow>
       and_then (on_pool (on_packet p (hdr s)) s) (\<lambda>s.
       and_then (on_pool (Packet_AddRef p) s) (\<lambda>s.
       and_then (upd_session i (\<lambda>x. x\<lparr>sendQ := sendQ x @ [p]\<rparr>) s) (\<lambda>s.
       and_then (SendPost env i s) (\<lambda>s.
       and_then (ReturnSession env i s) (\<lambda>s. Inr (s, True)))))))"

abbreviation net_header :: "'a net_env \<Rightarrow> 'a server \<Rightarrow> packet \<Rightarrow> packet result" where
  "net_header env s \<equiv> Packet_SetNetHeader (ne_rand env (trace s))"

lemma SendPacket_framed: "SendPacket env = send_framed (net_header env) env"
  by (simp add: fun_eq_iff SendPacket_def send_framed_def)

text \<open>The contract of a header: it fits into the packet and keeps its reference count.\<close>

locale framing =
  fixes hdr :: "'a server \<Rightarrow> packet \<Rightarrow> packet result"
  assumes hdr_law: "packet_ok x \<Longrightarrow> \<exists>y. hdr s x = Inr y \<and> packet_ok y \<and> m_refCount y = m_refCount x"
begin

text \<open>Up to the send: the header is set, the reference counted, the packet queued.\<close>

lemma send_setup:
  assumes s: "srv ar J c r b s" and r: "\<forall>j. r j < 98" and p: "0 < c p" and lim: "refs (packets s) p < 2 ^ 31 - 1"
    and f: "found s sid"
  defines "i \<equiv> unat (sid AND INDEX_MASK)"
  shows "\<exists>s3 x y. live (packets s) p = Some x \<and> hdr (counted i s) x = Inr y \<and>
    srv ar J c (r(i := r i + 1)) b s3 \<and> same_rx s s3 \<and> i < length (m_sessions s) \<and> trace s3 = trace s \<and>
    live (packets s3) = (live (packets s))(p \<mapsto> y\<lparr>m_refCount := m_refCount y + 1\<rparr>) \<and>
    (\<forall>t. held s3 t = held s t + of_bool (t = p)) \<and>
    m_sessions s3 ! i = (m_sessions s ! i)\<lparr>ioCount := ioCount (m_sessions s ! i) + 1,
      sendQ := sendQ (m_sessions s ! i) @ [p]\<rparr> \<and>
    send_framed hdr env sid p s = and_then (SendPost env i s3)
      (\<lambda>s. and_then (ReturnSession env i s) (\<lambda>s. Inr (s, True)))"
proof -
  let ?r = "r(i := r i + 1)"
  have ri: "r i < 98" using r by blast
  note F = found_counted[OF s f r, folded i_def]
  let ?s1 = "counted i s"
  have S: "net_inv ar c ?s1" "io_inv ?r b ?s1" "J (app ?s1)" using F(2) by (auto simp: srv_def)
  note P = net_invD(2)[OF S(1)]
  have "0 < refs (packets ?s1) p" using net_invD(4)[OF S(1), of p] p by simp
  then obtain x where x: "live (packets ?s1) p = Some x" using refs_live by blast
  obtain y where y: "hdr ?s1 x = Inr y" "packet_ok y"
    "m_refCount y = m_refCount x" using hdr_law get_packet(2)[OF P x] by blast
  obtain pool1 where 1: "on_packet p (hdr ?s1) (packets ?s1) = Inr pool1"
    "pkt_inv pool1" "live pool1 = (live (packets ?s1))(p \<mapsto> y)" "\<forall>q. refs pool1 q = refs (packets ?s1) q"
    using on_packet_ok[where f = "hdr ?s1", OF P x y] by blast
  have l1: "live pool1 p = Some y" "refs pool1 p < 2 ^ 31 - 1" using 1(3,4) lim by simp_all
  obtain pool2 where 2: "Packet_AddRef p pool1 = Inr pool2" "pkt_inv pool2" "refs pool2 p = refs pool1 p + 1"
    "live pool2 = (live pool1)(p \<mapsto> y\<lparr>m_refCount := m_refCount y + 1\<rparr>)"
    using Packet_AddRef_ok[OF 1(2) l1] by blast
  have rq: "refs pool2 q = refs pool1 q" if "q \<noteq> p" for q using 2(4) that by (simp add: refs_def)
  let ?s2 = "?s1\<lparr>packets := pool2\<rparr>"
  have n2: "net_inv ar (c(p := c p + 1)) ?s2"
    by (rule net_inv_pool[OF S(1) 2(2)]) (use 1(4) 2(3) rq in auto)
  have i2: "i < length (m_sessions ?s2)" using F(1) by simp
  let ?z = "m_sessions ?s2 ! i"
  let ?w = "?z\<lparr>sendQ := sendQ ?z @ [p]\<rparr>"
  let ?s3 = "?s2\<lparr>m_sessions := (m_sessions ?s2)[i := ?w]\<rparr>"
  have n3: "net_inv ar c ?s3"
    by (rule net_inv_upd[OF n2 i2]) (use net_invD(3)[OF n2 i2] in \<open>auto simp: sess_ok_def queued_def\<close>)
  have io2: "io_inv ?r b ?s2" using S(2) by simp
  have rp: "0 < ?r i" by simp
  note L = io_live[OF io2 i2 disjI2[OF rp]]
  have "io_sess ?r b (stacked ?s2) i ?w"
    using io_invD(1)[OF io2 i2] L(1) by (rule io_sess_sendQ)
  then have io3: "io_inv ?r b ?s3"
    by (rule io_inv_upd[OF io2 i2]) (use ri in \<open>auto simp: released_def\<close>)
  have s3: "srv ar J c ?r b ?s3" using n3 io3 S(3) by (simp add: srv_def)
  have "same_rx ?s2 ?s3" by (rule same_rx_upd[OF i2]) (simp add: rx_def)
  then have x3: "same_rx s ?s3" using F(3) same_rx_trans by simp
  have "send_framed hdr env sid p s = and_then (SendPost env i ?s3)
      (\<lambda>s. and_then (ReturnSession env i s) (\<lambda>s. Inr (s, True)))"
    using f F(1) AcquireSession_eq[of ar c s r b env sid] s 1(1) 2(1) i2
    by (simp add: send_framed_def srv_def on_pool_def i_def)
  moreover have "m_sessions ?s3 ! i = (m_sessions s ! i)\<lparr>ioCount := ioCount (m_sessions s ! i) + 1,
      sendQ := sendQ (m_sessions s ! i) @ [p]\<rparr>" using F(1) by (simp add: counted_def)
  moreover have "live (packets ?s3) = (live (packets s))(p \<mapsto> y\<lparr>m_refCount := m_refCount y + 1\<rparr>)"
    using 1(3) 2(4) by simp
  moreover have "held ?s3 t = held s t + of_bool (t = p)" for t
    using held_upd[OF i2, of ?w t] held_upd[OF F(1), of "(m_sessions s ! i)\<lparr>ioCount := ioCount (m_sessions s ! i) + 1\<rparr>" t]
    by (simp add: queued_def held_def counted_def)
  ultimately show ?thesis using x y(1) s3 x3 F(1)
    by (intro exI[of _ ?s3] exI[of _ x] exI[of _ y]) simp
qed

end

interpretation nh: framing "net_header env" for env :: "'a net_env"
  by unfold_locales (rule SetNetHeader_packet)

context net_release begin

lemma Disconnect_safe:
  assumes s: "srv ar J c r b s" and r: "\<forall>j. r j < 98"
  shows "safe_if B (\<lambda>(s', ok). kept ar J c r b s s' \<and> ok = found s sid) (Disconnect env sid s)"
proof (cases "found s sid")
  case False
  then show ?thesis using s AcquireSession_eq[of ar c s r b env sid] by (simp add: Disconnect_def srv_def)
next
  case True
  let ?i = "unat (sid AND INDEX_MASK)"
  note F = found_counted[OF s True r]
  let ?s1 = "counted ?i s"
  let ?s2 = "emit (EvClose (sock (m_sessions ?s1 ! ?i))) ?s1"
  have "safe_if B (kept ar J c ((r(?i := r ?i + 1))(?i := (r(?i := r ?i + 1)) ?i - 1)) b ?s2) (ReturnSession env ?i ?s2)"
    by (rule ReturnSession_safe) (use F in \<open>simp_all add: srv_def\<close>)
  then have "safe_if B (kept ar J c r b s) (ReturnSession env ?i ?s2)"
    by (intro safe_kept_trans[of s ?s2]) (use F(3) in simp_all)
  then have "safe_if B (\<lambda>(s', ok). kept ar J c r b s s' \<and> ok = True) (and_then (ReturnSession env ?i ?s2) (\<lambda>s. Inr (s, True)))"
    by (rule safe_and_then) simp
  then show ?thesis using True F(1) AcquireSession_eq[of ar c s r b env sid] s
    by (simp add: Disconnect_def srv_def Let_def)
qed

lemma RecvPost_safe:
  assumes s: "srv ar J c r b s" and i: "i < length (m_sessions s)" and r: "0 < r i"
  shows "safe_if B (\<lambda>s'. kept ar J c r b s s' \<or> kept ar J c (r(i := r i - 1)) b s s') (RecvPost env i s)"
proof -
  let ?x = "m_sessions s ! i"
  let ?s1 = "emit (EvRecv (sock ?x) (recv_windows (recvQ ?x))) s"
  have "safe_if B (kept ar J c (r(i := r i - 1)) b ?s1) (ReturnSession env i ?s1)"
    by (rule ReturnSession_safe) (use s i r in \<open>simp_all add: srv_def\<close>)
  then have "safe_if B (kept ar J c (r(i := r i - 1)) b s) (ReturnSession env i ?s1)"
    by (rule safe_kept_trans[rotated]) simp
  then have "safe_if B (\<lambda>s'. kept ar J c r b s s' \<or> kept ar J c (r(i := r i - 1)) b s s') (ReturnSession env i ?s1)"
    by (rule safe_mono) simp
  moreover have "kept ar J c r b s ?s1" using s by (simp add: kept_def srv_def)
  ultimately show ?thesis using i wsa_law[of "trace s" "EvRecv (sock ?x) (recv_windows (recvQ ?x))"]
    by (auto simp: RecvPost_def syscall_def emit_def Let_def)
qed

end

locale framed_release = framing hdr + net_release env B ar J
  for hdr :: "'a server \<Rightarrow> packet \<Rightarrow> packet result" and env :: "'a net_env" and B :: bool
    and ar :: "'a \<Rightarrow> u64 \<Rightarrow> nat" and J :: "'a \<Rightarrow> bool"
begin

lemma send_framed_safe:
  assumes s: "srv ar J c r b s" and r: "\<forall>j. r j < 98" and p: "0 < c p" and lim: "refs (packets s) p < 2 ^ 31 - 1"
  shows "safe_if B (\<lambda>(s', ok). kept ar J c r b s s' \<and> ok = found s sid) (send_framed hdr env sid p s)"
proof (cases "found s sid")
  case False
  then show ?thesis using s AcquireSession_eq[of ar c s r b env sid] by (simp add: send_framed_def srv_def)
next
  case True
  let ?i = "unat (sid AND INDEX_MASK)"
  let ?r = "r(?i := r ?i + 1)"
  obtain s3 where 3: "srv ar J c ?r b s3" "same_rx s s3" "?i < length (m_sessions s)"
    and eq: "send_framed hdr env sid p s = and_then (SendPost env ?i s3)
      (\<lambda>s. and_then (ReturnSession env ?i s) (\<lambda>s. Inr (s, True)))"
    using send_setup[OF s r p lim True, of env] by blast
  have ri: "r ?i < 98" using r by blast
  have i3: "?i < length (m_sessions s3)" using 3(3) same_rx_length[OF 3(2)] by simp
  have "safe_if B (kept ar J c ?r b s3) (SendPost env ?i s3)"
    by (rule SendPost_safe[OF 3(1) i3]) (use ri in simp_all)
  then have "safe_if B (\<lambda>(s', ok). kept ar J c r b s s' \<and> ok = True) (and_then (SendPost env ?i s3)
      (\<lambda>s. and_then (ReturnSession env ?i s) (\<lambda>s. Inr (s, True))))"
  proof (rule safe_and_then)
    fix s4 assume k: "kept ar J c ?r b s3 s4"
    then have i4: "?i < length (m_sessions s4)" using i3 same_rx_length[of s3 s4] by (simp add: kept_def)
    have "safe_if B (kept ar J c (?r(?i := ?r ?i - 1)) b s4) (ReturnSession env ?i s4)"
      using k i4 by (intro ReturnSession_safe) (auto simp: kept_def)
    moreover have rr: "?r(?i := ?r ?i - 1) = r" by auto
    ultimately have "safe_if B (kept ar J c r b s4) (ReturnSession env ?i s4)" by (simp only: rr)
    moreover have "same_rx s s4" using 3(2) k same_rx_trans unfolding kept_def by blast
    ultimately have "safe_if B (kept ar J c r b s) (ReturnSession env ?i s4)"
      by (rule safe_kept_trans[rotated])
    then show "safe_if B (\<lambda>(s', ok). kept ar J c r b s s' \<and> ok = True)
        (and_then (ReturnSession env ?i s4) (\<lambda>s. Inr (s, True)))"
      by (rule safe_and_then) simp
  qed
  then show ?thesis using True eq by simp
qed

end

sublocale net_release \<subseteq> nr: framed_release "net_header env" env B ar J
  by unfold_locales

context net_release begin

lemma SendPacket_safe:
  assumes "srv ar J c r b s" and "\<forall>j. r j < 98" and "0 < c p" and "refs (packets s) p < 2 ^ 31 - 1"
  shows "safe_if B (\<lambda>(s', ok). kept ar J c r b s s' \<and> ok = found s sid) (SendPacket env sid p s)"
  unfolding SendPacket_framed by (rule nr.send_framed_safe[OF assms])

end

end
