(* ===== verification/NetReceive.thy ===== *)
theory NetReceive
  imports NetSafety
begin

text \<open>
  The receive path of the net server. \<open>net_parse\<close> is the specification: how a byte stream splits
  into frames, and which payload a frame carries. \<open>RecvProc\<close> delivers exactly these payloads to
  \<open>OnRecv\<close>, in order, and keeps the incomplete rest. The locale \<open>net_app\<close> is the contract of a class
  derived from the server.
\<close>

section \<open>The stream of frames\<close>

datatype recv_end = More | BadCode | BadSum | TooLong

definition header_len :: "bytes \<Rightarrow> nat" where
  "header_len bs = unat (net_len (NetServerHeader_of (take 5 bs)))"

definition decode_frame :: "bytes \<Rightarrow> bytes option" where
  "decode_frame fr =
     (let ds = decode_bytes (fr ! 3) 0 0 0 (drop 4 fr) in
      if sum_list (tl ds) = hd ds then Some (tl ds) else None)"

text \<open>The payloads, the bytes that are kept, and why parsing ended; a frame must fit into the block
  of a packet (1405 bytes).\<close>

function net_parse :: "bytes \<Rightarrow> bytes list \<times> bytes \<times> recv_end" where
  "net_parse bs =
     (if length bs < 5 \<or> length bs < 5 + header_len bs then ([], bs, More)
      else if bs ! 0 \<noteq> PACKET_CODE then ([], bs, BadCode)
      else if 1400 < header_len bs then ([], bs, TooLong)
      else case decode_frame (take (5 + header_len bs) bs) of
        None \<Rightarrow> ([], drop (5 + header_len bs) bs, BadSum)
      | Some pl \<Rightarrow>
          let (pls, rest, e) = net_parse (drop (5 + header_len bs) bs) in (pl # pls, rest, e))"
  by pat_completeness auto
termination by (relation "measure length") auto

declare net_parse.simps [simp del]

lemma length_Suc4: "5 \<le> length bs \<Longrightarrow> \<exists>c r1 r2 rk es. bs = c # r1 # r2 # rk # es \<and> es \<noteq> []"
  by (cases bs; cases "tl bs"; cases "tl (tl bs)"; cases "tl (tl (tl bs))") auto

lemma header_parts:
  "header_len (c # r1 # r2 # rk # e # es) = unat (le_decode [r1, r2] :: u16)"
  "net_byteCode (NetServerHeader_of (take 5 (c # r1 # r2 # rk # e # es))) = c"
  using header_of_bytes[of "[r1, r2]" c rk e "[]"] by (simp_all add: header_len_def)

lemma Decode_frame:
  assumes "m_chpBuffer p = fr @ rest" and "length fr = 5 + header_len fr"
  shows "\<exists>ds. Packet_Decode p = Inr (p\<lparr>m_chpBuffer := take 4 fr @ ds @ rest\<rparr>, decode_frame fr \<noteq> None) \<and>
    length ds = 1 + header_len fr \<and> (decode_frame fr \<noteq> None \<longrightarrow> decode_frame fr = Some (tl ds))"
proof -
  obtain c r1 r2 rk es where fr: "fr = c # r1 # r2 # rk # es" "es \<noteq> []"
    using length_Suc4[of fr] assms(2) by auto
  then obtain e es' where es: "es = e # es'" by (cases es) auto
  define len :: u16 where "len = le_decode [r1, r2]"
  have "le_encode 2 len = [r1, r2]" unfolding len_def using le_encode_decode[of "[r1, r2]", where ?'a = 16] by (simp add: eval_nat_numeral)
  moreover have hl: "header_len fr = unat len" using fr es header_parts(1) by (simp add: len_def)
  ultimately show ?thesis
    using Decode_ok[of p c len rk es rest] assms fr
    by (auto simp: decode_frame_def Let_def)
qed

section \<open>The contract of a derived class\<close>

text \<open>\<open>J L a\<close>: the state of the derived class is consistent, and it has received the messages \<open>L\<close> so
  far, each the id of a session and a payload.\<close>

locale net_app =
  fixes env :: "'a net_env"
    and ar :: "'a \<Rightarrow> u64 \<Rightarrow> nat"
    and J :: "(u64 \<times> bytes) list \<Rightarrow> 'a \<Rightarrow> bool"
  assumes rel: "net_release env True ar (J L)"
    and OnRecv_law: "srv ar (J L) c r b s \<Longrightarrow> live (packets s) p = Some x \<Longrightarrow> 0 < c p \<Longrightarrow>
      refs (packets s) p < 2 ^ 31 - 1 \<Longrightarrow> \<forall>j. r j < 50 \<Longrightarrow>
      safe (kept ar (J (L @ [(sid, packet_data x)])) c r b s) (OnRecv env sid p s)"
    and OnAccept_law: "srv ar (J L) c r b s \<Longrightarrow> \<forall>j. r j < 50 \<Longrightarrow>
      safe (kept ar (J L) c r b s) (OnAccept env sid s)"
    and OnConnectionRequest_law: "srv ar (J L) c r b s \<Longrightarrow> \<forall>j. r j < 50 \<Longrightarrow>
      safe (\<lambda>(s', ok). kept ar (J L) c r b s s') (OnConnectionRequest env addr pt s)"

sublocale net_app \<subseteq> nr: net_release env True ar "J L" for L
  by (rule rel)

section \<open>Receiving is safe and exact\<close>

lemma set_recvQ_srv:
  assumes s: "srv ar J c r b s" and i: "i < length (m_sessions s)"
    and q: "ring_inv q" "m_capacity q = 2002"
  defines "s1 \<equiv> s\<lparr>m_sessions := (m_sessions s)[i := (m_sessions s ! i)\<lparr>recvQ := q\<rparr>]\<rparr>"
  shows "srv ar J c r b s1"
proof -
  let ?x = "m_sessions s ! i"
  have S: "net_inv ar c s" "io_inv r b s" "J (app s)" using s by (auto simp: srv_def)
  have "net_inv ar c s1" unfolding s1_def
    by (rule net_inv_upd[OF S(1) i]) (use net_invD(3)[OF S(1) i] q in \<open>auto simp: sess_ok_def queued_def\<close>)
  moreover have "io_inv r b s1" unfolding s1_def
    by (rule io_inv_upd[OF S(2) i io_sess_recvQ[OF io_invD(1)[OF S(2) i]]])
      (use io_invD(2)[OF S(2) i] in \<open>auto simp: released_def\<close>)
  ultimately show ?thesis using S(3) by (simp add: srv_def s1_def)
qed

lemma srv_pool:
  assumes "srv ar J c r b s" and "net_inv ar c' (s\<lparr>packets := pool\<rparr>)"
  shows "srv ar J c' r b (s\<lparr>packets := pool\<rparr>)"
  using assms by (simp add: srv_def)

text \<open>Rewriting a packet in place keeps all references.\<close>

lemma put_packet_srv:
  assumes s: "srv ar J c r b s" and x: "live (packets s) p = Some x"
    and y: "packet_ok y" "m_refCount y = m_refCount x"
  shows "\<exists>pool. obj_put (packets s) p y = Inr pool \<and> srv ar J c r b (s\<lparr>packets := pool\<rparr>) \<and>
    live pool = (live (packets s))(p \<mapsto> y)"
proof -
  have S: "net_inv ar c s" using s by (auto simp: srv_def)
  have P: "pkt_inv (packets s)" using net_invD(2)[OF S] .
  then have "0 < sint (m_refCount y)" using x y(2) by (auto simp: pkt_inv_def)
  from put_packet[OF P x y(1) this] obtain pool where 1: "obj_put (packets s) p y = Inr pool" "pkt_inv pool"
    "live pool = (live (packets s))(p \<mapsto> y)" by blast
  have "refs pool q = refs (packets s) q" for q using 1(3) x y(2) by (simp add: refs_def)
  then have "net_inv ar c (s\<lparr>packets := pool\<rparr>)" by (intro net_inv_pool[OF S 1(2)]) simp
  with srv_pool[OF s] 1 show ?thesis by blast
qed

text \<open>The steps of one pass of the loop, up to the decoded packet.\<close>

definition take_frame :: "'a net_env \<Rightarrow> nat \<Rightarrow> int \<Rightarrow> 'a server \<Rightarrow> ('a server \<times> u64 \<times> bool) result" where
  "take_frame env i len s =
     and_then (AllocPacket env s) (\<lambda>(s, p).
     and_then (Dequeue_into i p (sizeof_NetServerHeader + len) s) (\<lambda>s.
     and_then (on_pool (on_packet p (\<lambda>pkt. Inr (fst (Packet_MoveWritePos pkt len)))) s) (\<lambda>s.
     and_then (Decode_packet p s) (\<lambda>(s, ok). Inr (s, p, ok)))))"

lemma fresh_refs:
  assumes "net_inv ar c s" and "live (packets s) p = None"
  shows "c p = 0" "refs (packets s) p = 0"
  using net_invD(4)[OF assms(1), of p] assms(2) by (simp_all add: refs_def)

lemma Dequeue_into_ok:
  assumes s: "srv ar J c r b s" and i: "i < length (m_sessions s)" and x: "live (packets s) p = Some x"
    and n: "0 < n" "n \<le> length (ring_contents (recvQ (m_sessions s ! i)))" "n \<le> 1405"
  shows "\<exists>q pool y. Dequeue_into i p (int n) s = Inr (s\<lparr>m_sessions := (m_sessions s)[i := (m_sessions s ! i)\<lparr>recvQ := q\<rparr>],
      packets := pool\<rparr>) \<and> ring_contents q = drop n (ring_contents (recvQ (m_sessions s ! i))) \<and>
    srv ar J c r b (s\<lparr>m_sessions := (m_sessions s)[i := (m_sessions s ! i)\<lparr>recvQ := q\<rparr>], packets := pool\<rparr>) \<and>
    live pool = (live (packets s))(p \<mapsto> y) \<and>
    y = x\<lparr>m_chpBuffer := take n (ring_contents (recvQ (m_sessions s ! i))) @ drop n (m_chpBuffer x)\<rparr> \<and> packet_ok y"
proof -
  let ?x = "m_sessions s ! i"
  have S: "net_inv ar c s" using s by (auto simp: srv_def)
  have ok: "ring_inv (recvQ ?x)" "m_capacity (recvQ ?x) = 2002"
    using net_invD(3)[OF S i] by (auto simp: sess_ok_def)
  note G = get_packet[OF net_invD(2)[OF S] x]
  have len: "length (m_chpBuffer x) = 1405" using G(2) by (auto simp: packet_ok_def packet_inv_def)
  obtain q where q: "RingBuffer_Dequeue (recvQ ?x) (Some (m_chpBuffer x, int 0)) (int n) =
      Inr (q, Some (splice (m_chpBuffer x) 0 (take n (ring_contents (recvQ ?x))), int 0), int n)"
    "ring_inv q" "ring_contents q = drop n (ring_contents (recvQ ?x))" "m_capacity q = m_capacity (recvQ ?x)"
    using Dequeue_drops[OF ok(1) n(1,2), of 0 "m_chpBuffer x"] len n(3) by auto
  let ?buf = "take n (ring_contents (recvQ ?x)) @ drop n (m_chpBuffer x)"
  have buf: "splice (m_chpBuffer x) 0 (take n (ring_contents (recvQ ?x))) = ?buf"
    using n(2) by (simp add: splice_def min_absorb2)
  let ?y = "x\<lparr>m_chpBuffer := ?buf\<rparr>"
  let ?s1 = "s\<lparr>m_sessions := (m_sessions s)[i := ?x\<lparr>recvQ := q\<rparr>]\<rparr>"
  have "length ?buf = 1405" using len n by simp
  then have y: "packet_ok ?y" using G(2) len by (auto simp: packet_ok_def packet_inv_def)
  have s1: "srv ar J c r b ?s1" by (rule set_recvQ_srv[OF s i q(2)]) (use q(4) ok(2) in simp)
  have x1: "live (packets ?s1) p = Some x" using x by simp
  obtain pool where pool: "obj_put (packets ?s1) p ?y = Inr pool" "srv ar J c r b (?s1\<lparr>packets := pool\<rparr>)"
    "live pool = (live (packets ?s1))(p \<mapsto> ?y)"
    using put_packet_srv[OF s1 x1 y] by auto
  have "Dequeue_into i p (int n) s = Inr (?s1\<lparr>packets := pool\<rparr>)"
    using i G(1) q(1) buf pool(1) by (simp add: Dequeue_into_def Packet_GetBufferPtr_def on_pool_def)
  then show ?thesis using pool(2,3) q(3) y by (intro exI[of _ q] exI[of _ pool] exI[of _ ?y]) simp
qed

lemma AllocPacket_srv:
  assumes s: "srv ar J c r b s" and e: "pkt_env (ne_pool env)"
  shows "safe (\<lambda>(s', p). \<exists>pool x. s' = s\<lparr>packets := pool\<rparr> \<and> live (packets s) p = None \<and>
    live pool = (live (packets s))(p \<mapsto> x) \<and> fresh_packet x \<and> c p = 0 \<and>
    srv ar J (c(p := 1)) r b s') (AllocPacket env s)"
proof -
  have S: "net_inv ar c s" using s by (auto simp: srv_def)
  show ?thesis unfolding AllocPacket_def
  proof (rule safe_and_then[OF Packet_Alloc_safe[OF net_invD(2)[OF S] e]])
    fix y assume "(\<lambda>(s', p). pkt_inv s' \<and> p \<noteq> 0 \<and> live (packets s) p = None \<and>
      (\<exists>x. live s' = (live (packets s))(p \<mapsto> x) \<and> fresh_packet x)) y"
    then obtain pool p x where y: "y = (pool, p)" "pkt_inv pool" "live (packets s) p = None"
      "live pool = (live (packets s))(p \<mapsto> x)" "fresh_packet x" by auto
    note F = fresh_refs[OF S y(3)]
    have rf: "refs pool q = (if q = p then 1 else refs (packets s) q)" for q
      using y(4,5) by (simp add: refs_def fresh_packet_def)
    have "net_inv ar (c(p := 1)) (s\<lparr>packets := pool\<rparr>)"
      by (rule net_inv_pool[OF S y(2)]) (use rf F in auto)
    then have "srv ar J (c(p := 1)) r b (s\<lparr>packets := pool\<rparr>)" by (rule srv_pool[OF s])
    then show "safe (\<lambda>(s', p). \<exists>pool x. s' = s\<lparr>packets := pool\<rparr> \<and> live (packets s) p = None \<and>
      live pool = (live (packets s))(p \<mapsto> x) \<and> fresh_packet x \<and> c p = 0 \<and>
      srv ar J (c(p := 1)) r b s') (case y of (pool, p) \<Rightarrow> Inr (s\<lparr>packets := pool\<rparr>, p))"
      using y F by (auto intro!: exI[of _ pool])
  qed
qed

lemma FreePacket_srv:
  assumes "srv ar J c r b s" and "0 < c p"
  shows "\<exists>pool. FreePacket env p s = Inr (s\<lparr>packets := pool\<rparr>) \<and>
    srv ar J (c(p := c p - 1)) r b (s\<lparr>packets := pool\<rparr>)"
proof -
  obtain pool where p: "FreePacket env p s = Inr (s\<lparr>packets := pool\<rparr>)"
    "net_inv ar (c(p := c p - 1)) (s\<lparr>packets := pool\<rparr>)"
    using FreePacket_inv[of ar c s p env] assms by (auto simp: srv_def)
  show ?thesis using p(1) srv_pool[OF assms(1) p(2)] by blast
qed

lemma rx_recvQ: "rx x = rx y \<Longrightarrow> recvQ x = recvQ y" and rx_id: "rx x = rx y \<Longrightarrow> sessionID x = sessionID y"
  by (auto simp: rx_def)

lemma frame_ok:
  assumes b: "5 + header_len bs \<le> length bs"
  shows "length (take (5 + header_len bs) bs) = 5 + header_len (take (5 + header_len bs) bs)"
  using b by (simp add: header_len_def min_absorb1)

lemma take_frame_safe:
  assumes s: "srv ar J c r b s" and e: "pkt_env (ne_pool env)" and i: "i < length (m_sessions s)"
    and bs: "bs = ring_contents (recvQ (m_sessions s ! i))" "5 + header_len bs \<le> length bs"
      "header_len bs \<le> 1400"
  defines "fr \<equiv> take (5 + header_len bs) bs"
  shows "safe (\<lambda>(s', p, ok). \<exists>q pool y.
      s' = s\<lparr>m_sessions := (m_sessions s)[i := (m_sessions s ! i)\<lparr>recvQ := q\<rparr>], packets := pool\<rparr> \<and>
      ring_contents q = drop (5 + header_len bs) bs \<and> c p = 0 \<and> srv ar J (c(p := 1)) r b s' \<and>
      live pool p = Some y \<and> refs pool p = 1 \<and> (ok \<longleftrightarrow> decode_frame fr \<noteq> None) \<and>
      (ok \<longrightarrow> decode_frame fr = Some (packet_data y)))
    (take_frame env i (int (header_len bs)) s)"
  unfolding take_frame_def
proof (rule safe_and_then[OF AllocPacket_srv[OF s e]])
  let ?n = "5 + header_len bs"
  let ?x = "m_sessions s ! i"
  fix v assume "(\<lambda>(s', p). \<exists>pool x. s' = s\<lparr>packets := pool\<rparr> \<and> live (packets s) p = None \<and>
    live pool = (live (packets s))(p \<mapsto> x) \<and> fresh_packet x \<and> c p = 0 \<and> srv ar J (c(p := 1)) r b s') v"
  then obtain pool p x where v: "v = (s\<lparr>packets := pool\<rparr>, p)" "live pool p = Some x" "fresh_packet x" "c p = 0"
    "srv ar J (c(p := 1)) r b (s\<lparr>packets := pool\<rparr>)" by auto
  let ?s1 = "s\<lparr>packets := pool\<rparr>"
  have i1: "i < length (m_sessions ?s1)" using i by simp
  have l1: "live (packets ?s1) p = Some x" using v(2) by simp
  have n: "0 < ?n" "?n \<le> length (ring_contents (recvQ (m_sessions ?s1 ! i)))" "?n \<le> 1405" using bs by simp_all
  obtain q pool2 y where 2: "Dequeue_into i p (int ?n) ?s1 =
      Inr (s\<lparr>m_sessions := (m_sessions s)[i := ?x\<lparr>recvQ := q\<rparr>], packets := pool2\<rparr>)"
    "ring_contents q = drop ?n bs"
    "srv ar J (c(p := 1)) r b (s\<lparr>m_sessions := (m_sessions s)[i := ?x\<lparr>recvQ := q\<rparr>], packets := pool2\<rparr>)"
    "live pool2 p = Some y" "y = x\<lparr>m_chpBuffer := fr @ drop ?n (m_chpBuffer x)\<rparr>" "packet_ok y"
    using Dequeue_into_ok[OF v(5) i1 l1 n] bs(1) by (auto simp: fr_def)
  let ?s2 = "s\<lparr>m_sessions := (m_sessions s)[i := ?x\<lparr>recvQ := q\<rparr>], packets := pool2\<rparr>"
  have l2: "live (packets ?s2) p = Some y" using 2(4) by simp
  have bsz: "m_iBufferSize y = 1405" "m_iWritePos y = 5" "m_iReadPos y = 5" "m_refCount y = 1"
    using 2(5,6) v(3) by (auto simp: packet_ok_def fresh_packet_def)
  let ?z = "y\<lparr>m_iWritePos := 5 + int (header_len bs)\<rparr>"
  have mv: "fst (Packet_MoveWritePos y (int (header_len bs))) = ?z"
  proof -
    have "y\<lparr>m_iWritePos := 5\<rparr> = y" using bsz(2) by (cases y) simp
    then show ?thesis using bsz bs(3)
      by (cases "header_len bs = 0") (simp_all add: Packet_MoveWritePos_def Let_def)
  qed
  have z: "packet_ok ?z" using 2(6) bsz bs(3) by (auto simp: packet_ok_def packet_inv_def)
  obtain pool3 where 3: "obj_put (packets ?s2) p ?z = Inr pool3" "srv ar J (c(p := 1)) r b (?s2\<lparr>packets := pool3\<rparr>)"
    "live pool3 = (live (packets ?s2))(p \<mapsto> ?z)"
    using put_packet_srv[OF 2(3) l2 z] by auto
  let ?s3 = "?s2\<lparr>packets := pool3\<rparr>"
  have g2: "obj_get (packets ?s2) p = Inr y"
    using get_packet(1)[OF net_invD(2) l2] 2(3) by (auto simp: srv_def)
  have l3: "live (packets ?s3) p = Some ?z" using 3(3) by simp
  have g3: "obj_get (packets ?s3) p = Inr ?z"
    using get_packet(1)[OF net_invD(2) l3] 3(2) by (auto simp: srv_def)
  have fr: "length fr = 5 + header_len fr" "header_len fr = header_len bs"
    using frame_ok[OF bs(2)] by (simp_all add: fr_def header_len_def)
  have "m_chpBuffer ?z = fr @ drop ?n (m_chpBuffer x)" using 2(5) by simp
  from Decode_frame[OF this fr(1)] obtain ds where ds:
    "Packet_Decode ?z = Inr (?z\<lparr>m_chpBuffer := take 4 fr @ ds @ drop ?n (m_chpBuffer x)\<rparr>, decode_frame fr \<noteq> None)"
    "length ds = 1 + header_len fr" "decode_frame fr \<noteq> None \<longrightarrow> decode_frame fr = Some (tl ds)" by blast
  let ?w = "?z\<lparr>m_chpBuffer := take 4 fr @ ds @ drop ?n (m_chpBuffer x)\<rparr>"
  have lx: "length (m_chpBuffer x) = 1405" using v(3) by (auto simp: fresh_packet_def packet_ok_def packet_inv_def)
  have w: "packet_ok ?w" using z ds(2) fr lx n(3) by (auto simp: packet_ok_def packet_inv_def)
  obtain pool4 where 4: "obj_put (packets ?s3) p ?w = Inr pool4" "srv ar J (c(p := 1)) r b (?s3\<lparr>packets := pool4\<rparr>)"
    "live pool4 = (live (packets ?s3))(p \<mapsto> ?w)"
    using put_packet_srv[OF 3(2) l3 w] by auto
  obtain d ds' where dd: "ds = d # ds'" using ds(2) by (cases ds) auto
  have t4: "drop 5 (take 4 fr @ d # ds' @ drop ?n (m_chpBuffer x)) = ds' @ drop ?n (m_chpBuffer x)"
    using fr(1) by simp
  have "packet_data ?w = take (header_len bs) (drop 5 (take 4 fr @ d # ds' @ drop ?n (m_chpBuffer x)))"
    using bsz dd by (simp add: packet_data_def)
  also have "\<dots> = tl ds" unfolding t4 using ds(2) fr(2) dd by simp
  finally have pd: "packet_data ?w = tl ds" .
  have res: "and_then (Dequeue_into i p (sizeof_NetServerHeader + int (header_len bs)) ?s1) (\<lambda>s.
     and_then (on_pool (on_packet p (\<lambda>pkt. Inr (fst (Packet_MoveWritePos pkt (int (header_len bs)))))) s) (\<lambda>s.
     and_then (Decode_packet p s) (\<lambda>(s, ok). Inr (s, p, ok)))) = Inr (?s3\<lparr>packets := pool4\<rparr>, p, decode_frame fr \<noteq> None)"
  proof -
    have "sizeof_NetServerHeader + int (header_len bs) = int ?n" by (simp add: sizeof_NetServerHeader_def)
    then show ?thesis using 2(1) 3(1) 4(1) g2 g3 mv ds(1)
      by (simp add: on_pool_def on_packet_def Decode_packet_def del: of_nat_add)
  qed
  have "live pool4 p = Some ?w" using 4(3) by simp
  then have "refs pool4 p = 1" using bsz by (simp add: refs_def)
  then show "safe (\<lambda>(s', p, ok). \<exists>q pool y.
      s' = s\<lparr>m_sessions := (m_sessions s)[i := (m_sessions s ! i)\<lparr>recvQ := q\<rparr>], packets := pool\<rparr> \<and>
      ring_contents q = drop (5 + header_len bs) bs \<and> c p = 0 \<and> srv ar J (c(p := 1)) r b s' \<and>
      live pool p = Some y \<and> refs pool p = 1 \<and> (ok \<longleftrightarrow> decode_frame fr \<noteq> None) \<and>
      (ok \<longrightarrow> decode_frame fr = Some (packet_data y)))
    (case v of (s, p) \<Rightarrow> and_then (Dequeue_into i p (sizeof_NetServerHeader + int (header_len bs)) s) (\<lambda>s.
     and_then (on_pool (on_packet p (\<lambda>pkt. Inr (fst (Packet_MoveWritePos pkt (int (header_len bs)))))) s) (\<lambda>s.
     and_then (Decode_packet p s) (\<lambda>(s, ok). Inr (s, p, ok)))))"
    unfolding v(1) prod.case res safe_Inr
    using 2(2) 4(2) v(4) ds(3) pd \<open>live pool4 p = Some ?w\<close>
    by (intro exI[of _ q] exI[of _ pool4] exI[of _ ?w]) simp
qed

lemma take_frame_then:
  "and_then (take_frame env i len s) f =
     and_then (AllocPacket env s) (\<lambda>(s, p).
     and_then (Dequeue_into i p (sizeof_NetServerHeader + len) s) (\<lambda>s.
     and_then (on_pool (on_packet p (\<lambda>pkt. Inr (fst (Packet_MoveWritePos pkt len)))) s) (\<lambda>s.
     and_then (Decode_packet p s) (\<lambda>(s, ok). f (s, p, ok)))))"
  unfolding take_frame_def by (simp add: and_then_def split: sum.split prod.split)

text \<open>One pass of the loop, in terms of the bytes in the receive queue.\<close>

lemma RecvProc_pass:
  assumes i: "i < length (m_sessions s)" and ok: "ring_inv (recvQ (m_sessions s ! i))"
  defines "bs \<equiv> ring_contents (recvQ (m_sessions s ! i))"
  shows "RecvProc_loop env (Suc fuel) i s =
    (if length bs < 5 \<or> length bs < 5 + header_len bs then RecvPost env i s
     else if bs ! 0 \<noteq> PACKET_CODE then ReturnSession env i s
     else and_then (take_frame env i (int (header_len bs)) s) (\<lambda>(s, p, ok).
       if \<not> ok then and_then (ReturnSession env i s) (\<lambda>s. FreePacket env p s)
       else and_then (get_session i s) (\<lambda>x.
         and_then (OnRecv env (sessionID x) p s) (\<lambda>s.
         and_then (FreePacket env p s) (\<lambda>s. RecvProc_loop env fuel i s)))))"
proof -
  let ?q = "recvQ (m_sessions s ! i)"
  have use: "RingBuffer_GetUseSize ?q = int (length bs)" unfolding bs_def by (rule use_size_contents[OF ok])
  show ?thesis
  proof (cases "length bs < 5")
    case True
    then show ?thesis using i use by (simp add: sizeof_NetServerHeader_def)
  next
    case False
    have pk: "RingBuffer_Peek ?q (Some (replicate 5 0, int 0)) (int 5) = Inr (Some (take 5 bs, int 0), int 5)"
    proof -
      have "int 5 \<le> RingBuffer_GetUseSize ?q" unfolding use using False by simp
      moreover have "splice (replicate 5 0) 0 (take 5 bs) = take 5 bs" using False by (simp add: splice_def)
      ultimately show ?thesis
        using RingBuffer_Peek_eq[OF ok, of 5 0 "replicate 5 0"] unfolding bs_def[symmetric] by simp
    qed
    obtain c r1 r2 rk es where b: "bs = c # r1 # r2 # rk # es" "es \<noteq> []"
      using length_Suc4[of bs] False by auto
    then obtain e es' where "es = e # es'" by (cases es) auto
    with b have code: "net_byteCode (NetServerHeader_of (take 5 bs)) = bs ! 0"
      using header_parts(2)[of c r1 r2 rk e es'] by simp
    have hl: "unat (net_len (NetServerHeader_of (take 5 bs))) = header_len bs" by (simp add: header_len_def)
    have pk': "RingBuffer_Peek ?q (Some (replicate 5 0, 0)) sizeof_NetServerHeader = Inr (Some (take 5 bs, int 0), int 5)"
      using pk by (simp add: sizeof_NetServerHeader_def)
    have sz: "int (length bs) < sizeof_NetServerHeader \<longleftrightarrow> length bs < 5"
      "int (length bs) < sizeof_NetServerHeader + int (header_len bs) \<longleftrightarrow> length bs < 5 + header_len bs"
      by (auto simp: sizeof_NetServerHeader_def)
    show ?thesis
      unfolding RecvProc_loop.simps get_session_eq[OF i] and_then_Inr Let_def use pk' prod.case option.case
        hl code take_frame_then sz
      using False by (simp only: if_False simp_thms)
  qed
qed

definition recv_post :: "('a \<Rightarrow> u64 \<Rightarrow> nat) \<Rightarrow> ('a \<Rightarrow> bool) \<Rightarrow> (u64 \<Rightarrow> nat) \<Rightarrow> (nat \<Rightarrow> nat) \<Rightarrow> nat set \<Rightarrow>
    nat \<Rightarrow> bytes \<Rightarrow> recv_end \<Rightarrow> 'a server \<Rightarrow> bool" where
  "recv_post ar J c r b i rest e s' \<longleftrightarrow>
     (\<exists>r'. (r' = r(i := r i - 1) \<or> r' = r \<and> e = More) \<and> srv ar J c r' b s') \<and>
     i < length (m_sessions s') \<and> ring_contents (recvQ (m_sessions s' ! i)) = rest"

lemma recv_post_kept:
  assumes "kept ar J c r' b s s'" and "r' = r(i := r i - 1) \<or> r' = r \<and> e = More"
    and "i < length (m_sessions s)" and "ring_contents (recvQ (m_sessions s ! i)) = rest"
  shows "recv_post ar J c r b i rest e s'"
proof -
  have k: "srv ar J c r' b s'" "same_rx s s'" using assms(1) by (auto simp: kept_def)
  have "recvQ (m_sessions s' ! i) = recvQ (m_sessions s ! i)"
    using rx_recvQ[OF same_rx_nth[OF k(2) assms(3)]] .
  moreover have "i < length (m_sessions s')" using same_rx_length[OF k(2)] assms(3) by simp
  ultimately show ?thesis using k(1) assms(2,4) unfolding recv_post_def by auto
qed

context net_app begin

lemma RecvProc_loop_safe:
  assumes "srv ar (J L) c r b s" and "i < length (m_sessions s)" and "0 < r i" and "\<forall>j. r j < 50"
    and "sessionID (m_sessions s ! i) = sid" and "bs = ring_contents (recvQ (m_sessions s ! i))"
    and "net_parse bs = (pls, rest, e)" and "e \<noteq> TooLong" and "length bs < fuel"
  shows "safe (recv_post ar (J (L @ map (Pair sid) pls)) c r b i rest e) (RecvProc_loop env fuel i s)"
  using assms
proof (induction fuel arbitrary: L s bs pls)
  case (Suc fuel)
  let ?x = "m_sessions s ! i"
  note s = Suc.prems(1) and i = Suc.prems(2)
  have ok: "ring_inv (recvQ ?x)" using net_invD(3)[of ar c s i] s i by (auto simp: srv_def sess_ok_def)
  note pass = RecvProc_pass[OF i ok, of env fuel, folded Suc.prems(6)]
  note parse = Suc.prems(7)[unfolded net_parse.simps[of bs]]
  show ?case
  proof (cases "length bs < 5 \<or> length bs < 5 + header_len bs")
    case True
    then have p: "pls = []" "rest = bs" "e = More" using parse by auto
    have "safe (\<lambda>s'. kept ar (J L) c r b s s' \<or> kept ar (J L) c (r(i := r i - 1)) b s s') (RecvPost env i s)"
      by (rule nr.RecvPost_safe[OF s i Suc.prems(3)])
    then have "safe (recv_post ar (J L) c r b i rest e) (RecvPost env i s)"
      by (rule safe_mono) (use p i Suc.prems(6) in \<open>auto intro: recv_post_kept\<close>)
    then show ?thesis using True p pass by simp
  next
    case len: False
    show ?thesis
    proof (cases "bs ! 0 \<noteq> PACKET_CODE")
      case True
      then have p: "pls = []" "rest = bs" "e = BadCode" using parse len by auto
      have "safe (kept ar (J L) c (r(i := r i - 1)) b s) (ReturnSession env i s)"
        by (rule nr.ReturnSession_safe[OF s i Suc.prems(3)])
      then have "safe (recv_post ar (J L) c r b i rest e) (ReturnSession env i s)"
        by (rule safe_mono) (use p i Suc.prems(6) in \<open>auto intro: recv_post_kept\<close>)
      then show ?thesis using True p pass len by simp
    next
      case code: False
      have fit: "header_len bs \<le> 1400" using parse len code Suc.prems(8) by (auto split: if_splits)
      let ?fr = "take (5 + header_len bs) bs"
      have pe: "pkt_env (ne_pool env)" by (rule nr.pool_law)
      have le: "5 + header_len bs \<le> length bs" using len by simp
      note tf = take_frame_safe[OF s pe i Suc.prems(6) le fit]
      show ?thesis unfolding pass using len code
      proof (simp only: simp_thms if_False, intro safe_and_then[OF tf])
        fix v assume "(\<lambda>(s', p, ok). \<exists>q pool y.
          s' = s\<lparr>m_sessions := (m_sessions s)[i := (m_sessions s ! i)\<lparr>recvQ := q\<rparr>], packets := pool\<rparr> \<and>
          ring_contents q = drop (5 + header_len bs) bs \<and> c p = 0 \<and> srv ar (J L) (c(p := 1)) r b s' \<and>
          live pool p = Some y \<and> refs pool p = 1 \<and> (ok \<longleftrightarrow> decode_frame ?fr \<noteq> None) \<and>
          (ok \<longrightarrow> decode_frame ?fr = Some (packet_data y))) v"
        then obtain s1 p ok q pool y where v: "v = (s1, p, ok)"
          "s1 = s\<lparr>m_sessions := (m_sessions s)[i := ?x\<lparr>recvQ := q\<rparr>], packets := pool\<rparr>"
          "ring_contents q = drop (5 + header_len bs) bs" "c p = 0" "srv ar (J L) (c(p := 1)) r b s1"
          "live pool p = Some y" "refs pool p = 1" "ok \<longleftrightarrow> decode_frame ?fr \<noteq> None"
          "ok \<longrightarrow> decode_frame ?fr = Some (packet_data y)" by blast
        have i1: "i < length (m_sessions s1)" using v(2) i by simp
        have q1: "recvQ (m_sessions s1 ! i) = q" "sessionID (m_sessions s1 ! i) = sid"
          using v(2) i Suc.prems(5) by simp_all
        have cp: "(c(p := 1))(p := (c(p := 1)) p - 1) = c" using v(4) by auto
        show "safe (recv_post ar (J (L @ map (Pair sid) pls)) c r b i rest e)
          (case v of (s, p, ok) \<Rightarrow> if \<not> ok then and_then (ReturnSession env i s) (\<lambda>s. FreePacket env p s)
           else and_then (get_session i s) (\<lambda>x.
             and_then (OnRecv env (sessionID x) p s) (\<lambda>s.
             and_then (FreePacket env p s) (\<lambda>s. RecvProc_loop env fuel i s))))"
        proof (cases ok)
          case False
          then have p: "pls = []" "rest = ring_contents q" "e = BadSum"
            using parse len code fit v(3,8) by auto
          have "safe (kept ar (J L) (c(p := 1)) (r(i := r i - 1)) b s1) (ReturnSession env i s1)"
            by (rule nr.ReturnSession_safe[OF v(5) i1 Suc.prems(3)])
          then have "safe (recv_post ar (J L) c r b i rest e) (and_then (ReturnSession env i s1) (\<lambda>s. FreePacket env p s))"
          proof (rule safe_and_then)
            fix s2 assume k: "kept ar (J L) (c(p := 1)) (r(i := r i - 1)) b s1 s2"
            then obtain pool2 where f: "FreePacket env p s2 = Inr (s2\<lparr>packets := pool2\<rparr>)"
              "srv ar (J L) ((c(p := 1))(p := (c(p := 1)) p - 1)) (r(i := r i - 1)) b (s2\<lparr>packets := pool2\<rparr>)"
              using FreePacket_srv[of ar "J L" "c(p := 1)" "r(i := r i - 1)" b s2 p env] by (auto simp: kept_def)
            have "kept ar (J L) c (r(i := r i - 1)) b s1 (s2\<lparr>packets := pool2\<rparr>)"
              using f(2)[unfolded cp] k by (simp add: kept_def)
            then show "safe (recv_post ar (J L) c r b i rest e) (FreePacket env p s2)"
              unfolding f(1) safe_Inr by (rule recv_post_kept) (use i1 q1 p in auto)
          qed
          then show ?thesis using v(1) False p(1) by simp
        next
          case True
          obtain pls' where p: "pls = packet_data y # pls'" "net_parse (ring_contents q) = (pls', rest, e)"
            using parse len code fit v(3,9) True by (auto split: prod.splits)
          have l1: "live (packets s1) p = Some y" "refs (packets s1) p = 1" using v(2,6,7) by simp_all
          have "safe (kept ar (J (L @ [(sid, packet_data y)])) (c(p := 1)) r b s1) (OnRecv env sid p s1)"
            by (rule OnRecv_law[OF v(5) l1(1) _ _ Suc.prems(4)]) (simp_all add: l1(2))
          then have "safe (recv_post ar (J (L @ map (Pair sid) pls)) c r b i rest e)
            (and_then (OnRecv env sid p s1) (\<lambda>s. and_then (FreePacket env p s) (\<lambda>s. RecvProc_loop env fuel i s)))"
          proof (rule safe_and_then)
            fix s2 assume k: "kept ar (J (L @ [(sid, packet_data y)])) (c(p := 1)) r b s1 s2"
            then obtain pool2 where f: "FreePacket env p s2 = Inr (s2\<lparr>packets := pool2\<rparr>)"
              "srv ar (J (L @ [(sid, packet_data y)])) ((c(p := 1))(p := (c(p := 1)) p - 1)) r b (s2\<lparr>packets := pool2\<rparr>)"
              using FreePacket_srv[of ar "J (L @ [(sid, packet_data y)])" "c(p := 1)" r b s2 p env] by (auto simp: kept_def)
            let ?s3 = "s2\<lparr>packets := pool2\<rparr>"
            have sr: "same_rx s1 s2" using k by (simp add: kept_def)
            have i3: "i < length (m_sessions ?s3)" using i1 same_rx_length[OF sr] by simp
            have q3: "recvQ (m_sessions ?s3 ! i) = q" "sessionID (m_sessions ?s3 ! i) = sid"
              using rx_recvQ[OF same_rx_nth[OF sr i1]] rx_id[OF same_rx_nth[OF sr i1]] q1 by simp_all
            have "length (ring_contents q) < fuel" using Suc.prems(9) v(3) le by simp
            from Suc.IH[OF f(2)[unfolded cp] i3 Suc.prems(3,4) q3(2) _ p(2) Suc.prems(8) this]
            have "safe (recv_post ar (J ((L @ [(sid, packet_data y)]) @ map (Pair sid) pls')) c r b i rest e)
              (RecvProc_loop env fuel i ?s3)" using q3(1) by simp
            then show "safe (recv_post ar (J (L @ map (Pair sid) pls)) c r b i rest e)
              (and_then (FreePacket env p s2) (\<lambda>s. RecvProc_loop env fuel i s))" using f(1) p(1) by simp
          qed
          then show ?thesis using v(1) True i1 q1(2) by simp
        qed
      qed
    qed
  qed
qed simp

end

section \<open>Received data\<close>

text \<open>What a completed \<open>WSARecv\<close> has done: the data fill the windows in order.\<close>

fun fill_windows :: "bytes \<Rightarrow> (int \<times> int) list \<Rightarrow> bytes \<Rightarrow> bytes" where
  "fill_windows mem [] bs = mem"
| "fill_windows mem ((off, n) # ws) bs =
     fill_windows (splice mem (nat off) (take (nat n) bs)) ws (drop (nat n) bs)"

definition arrived :: "nat \<Rightarrow> bytes \<Rightarrow> 'a server \<Rightarrow> 'a server" where
  "arrived i bs s = s\<lparr>m_sessions := (m_sessions s)[i := (m_sessions s ! i)\<lparr>recvQ :=
     (recvQ (m_sessions s ! i))\<lparr>m_pBuffer := fill_windows (m_pBuffer (recvQ (m_sessions s ! i)))
       (recv_windows (recvQ (m_sessions s ! i))) bs\<rparr>\<rparr>]\<rparr>"

lemma fill_windows_put:
  assumes "ring_inv q" and "int (length bs) \<le> RingBuffer_GetFreeSize q"
  shows "fill_windows (m_pBuffer q) (recv_windows q) bs = circ_put (m_pBuffer q) (nat (m_rear q)) bs"
proof -
  let ?d = "RingBuffer_DirectEnqueueSize q" and ?f = "RingBuffer_GetFreeSize q"
  have D: "0 \<le> ?d" "?d \<le> ?f" "m_rear q + ?d \<le> m_capacity q" "?d < ?f \<Longrightarrow> m_rear q + ?d = m_capacity q"
    using assms(1) by (auto simp: DirectEnqueueSize_eq ring_inv_def RingBuffer_GetFreeSize_def
        RingBuffer_GetUseSize_def Let_def split: if_splits)
  have c: "int (length (m_pBuffer q)) = m_capacity q" "0 \<le> m_rear q" "m_rear q < m_capacity q"
    using assms(1) by (auto simp: ring_inv_def)
  show ?thesis
  proof (cases "?d < ?f")
    case True
    then have "nat ?d = length (m_pBuffer q) - nat (m_rear q)" using D c by linarith
    moreover have "take (min (length bs) n) bs = take n bs" "drop (min (length bs) n) bs = drop n bs" for n
      by (simp_all add: min_def)
    moreover have "take (nat (?f - ?d)) (drop (nat ?d) bs) = drop (nat ?d) bs" using assms(2) D by simp
    ultimately show ?thesis using True
      by (simp add: recv_windows_def circ_put_def Let_def RingBuffer_GetRearBufferPtr_def RingBuffer_GetBufferPtr_def)
  next
    case False
    then have "length bs \<le> nat ?d" "length bs \<le> length (m_pBuffer q) - nat (m_rear q)"
      using assms(2) D c by linarith+
    then show ?thesis using False
      by (simp add: recv_windows_def circ_put_def Let_def RingBuffer_GetRearBufferPtr_def min_absorb1)
  qed
qed

lemma free_size_buffer: "RingBuffer_GetFreeSize (q\<lparr>m_pBuffer := mem\<rparr>) = RingBuffer_GetFreeSize q"
  by (simp add: RingBuffer_GetFreeSize_def RingBuffer_GetUseSize_def Let_def)

lemma MoveRear_arrived:
  assumes "ring_inv q" and "int (length bs) \<le> RingBuffer_GetFreeSize q"
  defines "q' \<equiv> fst (RingBuffer_MoveRear (q\<lparr>m_pBuffer := fill_windows (m_pBuffer q) (recv_windows q) bs\<rparr>) (int (length bs)))"
  shows "ring_inv q'" "ring_contents q' = ring_contents q @ bs" "m_capacity q' = m_capacity q"
proof -
  have "q' = q\<lparr>m_pBuffer := circ_put (m_pBuffer q) (nat (m_rear q)) bs,
      m_rear := (m_rear q + int (length bs)) smod m_capacity q\<rparr>"
    using assms(2) unfolding q'_def fill_windows_put[OF assms(1,2)]
    by (simp add: RingBuffer_MoveRear_def free_size_buffer Let_def)
  then show "ring_inv q'" "ring_contents q' = ring_contents q @ bs" "m_capacity q' = m_capacity q"
    using contents_put(1,2)[OF assms(1,2)] by simp_all
qed

lemma sint_length: "n < 2 ^ 31 \<Longrightarrow> sint (of_nat n :: u32) = int n"
  by (simp add: sint_u32 unat_of_nat take_bit_nat_eq_self)

lemma free_small: "sess_ok x \<Longrightarrow> RingBuffer_GetFreeSize (recvQ x) \<le> 2001"
  using use_size_bounds(1)[of "recvQ x"] by (simp add: sess_ok_def RingBuffer_GetFreeSize_def)

text \<open>Moving the rear over the data that arrived.\<close>

lemma arrived_moved:
  assumes s: "srv ar J c r b s" and i: "i < length (m_sessions s)"
    and n: "int (length bs) \<le> RingBuffer_GetFreeSize (recvQ (m_sessions s ! i))"
  shows "\<exists>q. srv ar J c r b (s\<lparr>m_sessions := (m_sessions s)[i := (m_sessions s ! i)\<lparr>recvQ := q\<rparr>]\<rparr>) \<and>
    ring_contents q = ring_contents (recvQ (m_sessions s ! i)) @ bs \<and> ring_inv q \<and>
    upd_session i (\<lambda>x. x\<lparr>recvQ := fst (RingBuffer_MoveRear (recvQ x) (sint (of_nat (length bs) :: u32)))\<rparr>) (arrived i bs s) =
      Inr (s\<lparr>m_sessions := (m_sessions s)[i := (m_sessions s ! i)\<lparr>recvQ := q\<rparr>]\<rparr>)"
proof -
  let ?x = "m_sessions s ! i"
  have ok: "sess_ok ?x" using net_invD(3)[of ar c s i] s i by (auto simp: srv_def)
  then have q: "ring_inv (recvQ ?x)" "m_capacity (recvQ ?x) = 2002" by (auto simp: sess_ok_def)
  have sn: "sint (of_nat (length bs) :: u32) = int (length bs)"
    by (rule sint_length) (use free_small[OF ok] n in simp)
  define q' where "q' = fst (RingBuffer_MoveRear ((recvQ ?x)\<lparr>m_pBuffer := fill_windows (m_pBuffer (recvQ ?x))
    (recv_windows (recvQ ?x)) bs\<rparr>) (int (length bs)))"
  note Q = MoveRear_arrived[OF q(1) n, folded q'_def]
  have "srv ar J c r b (s\<lparr>m_sessions := (m_sessions s)[i := ?x\<lparr>recvQ := q'\<rparr>]\<rparr>)"
    by (rule set_recvQ_srv[OF s i Q(1)]) (simp add: Q(3) q(2))
  moreover have "upd_session i (\<lambda>x. x\<lparr>recvQ := fst (RingBuffer_MoveRear (recvQ x) (int (length bs)))\<rparr>) (arrived i bs s) =
      Inr (s\<lparr>m_sessions := (m_sessions s)[i := ?x\<lparr>recvQ := q'\<rparr>]\<rparr>)"
    using i by (simp add: arrived_def q'_def)
  ultimately show ?thesis using Q(1,2) unfolding sn by blast
qed

context net_app begin

text \<open>\<open>RecvProc\<close> after \<open>bs\<close> has arrived.\<close>

lemma RecvProc_safe:
  assumes s: "srv ar (J L) c r b s" and i: "i < length (m_sessions s)" and r: "0 < r i" "\<forall>j. r j < 50"
    and n: "int (length bs) \<le> RingBuffer_GetFreeSize (recvQ (m_sessions s ! i))"
    and p: "net_parse (ring_contents (recvQ (m_sessions s ! i)) @ bs) = (pls, rest, e)" "e \<noteq> TooLong"
  shows "safe (recv_post ar (J (L @ map (Pair (sessionID (m_sessions s ! i))) pls)) c r b i rest e)
    (RecvProc env i (of_nat (length bs)) (arrived i bs s))"
proof -
  obtain q where q: "srv ar (J L) c r b (s\<lparr>m_sessions := (m_sessions s)[i := (m_sessions s ! i)\<lparr>recvQ := q\<rparr>]\<rparr>)"
    "ring_contents q = ring_contents (recvQ (m_sessions s ! i)) @ bs" "ring_inv q"
    "upd_session i (\<lambda>x. x\<lparr>recvQ := fst (RingBuffer_MoveRear (recvQ x) (sint (of_nat (length bs) :: u32)))\<rparr>) (arrived i bs s) =
       Inr (s\<lparr>m_sessions := (m_sessions s)[i := (m_sessions s ! i)\<lparr>recvQ := q\<rparr>]\<rparr>)"
    using arrived_moved[OF s i n] by blast
  let ?s1 = "s\<lparr>m_sessions := (m_sessions s)[i := (m_sessions s ! i)\<lparr>recvQ := q\<rparr>]\<rparr>"
  have i1: "i < length (m_sessions ?s1)" using i by simp
  have x1: "m_sessions ?s1 ! i = (m_sessions s ! i)\<lparr>recvQ := q\<rparr>" using i by simp
  have use: "nat (RingBuffer_GetUseSize q) = length (ring_contents q)" using use_size_contents[OF q(3)] by linarith
  have "RecvProc env i (of_nat (length bs)) (arrived i bs s) = RecvProc_loop env (length (ring_contents q) + 1) i ?s1"
    unfolding RecvProc_def q(4) using i1 x1 use by (simp del: RecvProc_loop.simps)
  moreover have "safe (recv_post ar (J (L @ map (Pair (sessionID (m_sessions s ! i))) pls)) c r b i rest e)
      (RecvProc_loop env (length (ring_contents q) + 1) i ?s1)"
    by (rule RecvProc_loop_safe[OF q(1) i1 r _ _ _ p(2), where bs = "ring_contents q"])
      (use x1 q(2) p(1) in simp_all)
  ultimately show ?thesis by simp
qed

end

section \<open>Frames and splits of the stream\<close>

text \<open>Parsing does not depend on how the stream is cut into completions.\<close>

lemma header_len_append: "5 \<le> length bs \<Longrightarrow> header_len (bs @ cs) = header_len bs"
  by (simp add: header_len_def)

lemma net_parse_More:
  "net_parse bs = (pls, rest, More) \<Longrightarrow> net_parse (bs @ cs) =
     (case net_parse (rest @ cs) of (pls', rest', e) \<Rightarrow> (pls @ pls', rest', e))"
proof (induction bs arbitrary: pls rule: net_parse.induct)
  case (1 bs)
  note parse = 1(2)[unfolded net_parse.simps[of bs]]
  show ?case
  proof (cases "length bs < 5 \<or> length bs < 5 + header_len bs")
    case True
    then show ?thesis using parse by (auto split: prod.splits)
  next
    case False
    let ?n = "5 + header_len bs"
    obtain pl pls' where p: "bs ! 0 = PACKET_CODE" "\<not> 1400 < header_len bs" "decode_frame (take ?n bs) = Some pl"
      "net_parse (drop ?n bs) = (pls', rest, More)" "pls = pl # pls'"
      using parse False by (auto split: if_splits option.splits prod.splits)
    have IH: "net_parse (drop ?n bs @ cs) = (case net_parse (rest @ cs) of (pls'', rest', e) \<Rightarrow> (pls' @ pls'', rest', e))"
      by (rule 1(1)[OF False _ p(2,3,4)]) (simp add: p(1))
    have h: "header_len (bs @ cs) = header_len bs" using False by (intro header_len_append) simp
    have "(bs @ cs) ! 0 = PACKET_CODE" using p(1) False by (cases bs) auto
    then show ?thesis using False p(2,3,5) IH
      by (subst net_parse.simps) (auto simp: h split: prod.splits)
  qed
qed

text \<open>The frame that the sender builds for a payload.\<close>

lemma NetServerHeader_of_take: "NetServerHeader_of (take 5 bs) = NetServerHeader_of bs"
  by (simp add: NetServerHeader_of_def drop_take min_def)

lemma net_frame_parts:
  assumes "length pl < 65536"
  shows "header_len (net_frame rk pl @ bs) = length pl" "(net_frame rk pl @ bs) ! 0 = PACKET_CODE"
    "decode_frame (net_frame rk pl) = Some pl"
proof -
  have t: "take 5 (net_frame rk pl @ bs) = take 5 (net_frame rk pl)" for bs by simp
  have "header_len (net_frame rk pl) = length pl"
    using net_frame_header[OF assms, of rk "[]"] assms
    by (simp add: header_len_def NetServerHeader_of_take unat_len16)
  then show "header_len (net_frame rk pl @ bs) = length pl" by (simp add: header_len_def)
  show "(net_frame rk pl @ bs) ! 0 = PACKET_CODE" by (simp add: net_frame_def)
  show "decode_frame (net_frame rk pl) = Some pl"
    by (simp add: decode_frame_def net_frame_def Let_def nth_append)
qed

lemma net_parse_frame:
  assumes "length pl \<le> 1400"
  shows "net_parse (net_frame rk pl @ bs) = (case net_parse bs of (pls, rest, e) \<Rightarrow> (pl # pls, rest, e))"
proof -
  have l: "length pl < 65536" using assms by simp
  note P = net_frame_parts[OF l, of rk]
  show ?thesis using assms P by (subst net_parse.simps) simp
qed

lemma net_parse_frames:
  assumes "\<forall>(rk, pl)\<in>set fs. length pl \<le> 1400"
  shows "net_parse (concat (map (\<lambda>(rk, pl). net_frame rk pl) fs) @ bs) =
    (case net_parse bs of (pls, rest, e) \<Rightarrow> (map snd fs @ pls, rest, e))"
  using assms by (induction fs) (auto simp: net_parse_frame split: prod.splits)

end
