(* ===== verification/NetService.thy ===== *)
theory NetService
  imports NetReceive
begin

text \<open>
  Accepting clients, dispatching completions, starting and stopping: each keeps the invariant of
  the server, and accepting, disconnecting and the completion of a send have exact results in terms
  of the calls they make. \<open>Start\<close> establishes it from a fresh server, \<open>Stop\<close> gives every packet reference of the
  sessions back.
\<close>

lemma srv_cong:
  assumes "srv ar J c r b s" and "m_sessions s' = m_sessions s" "m_maxSessionCount s' = m_maxSessionCount s"
    "packets s' = packets s" "app s' = app s" "m_indexStack s' = m_indexStack s"
    "m_sessionCount s' = m_sessionCount s"
  shows "srv ar J c r b s'"
  using assms(1) unfolding srv_def net_inv_def io_inv_def held_def stacked_def live_set_def assms(2-) .

text \<open>A reference that is taken and given back leaves no trace on a session that has others.\<close>

lemma counted_back:
  "i < length (m_sessions s) \<Longrightarrow>
    add_io (- 1) i (emit e (counted i s)) = Inr (emit e s, ioCount (m_sessions s ! i))"
proof -
  assume i: "i < length (m_sessions s)"
  let ?x = "m_sessions s ! i"
  have "?x\<lparr>ioCount := ioCount ?x\<rparr> = ?x" by (cases ?x) simp
  then show ?thesis using i by (simp add: counted_def emit_def)
qed

lemma ReturnSession_back:
  "i < length (m_sessions s) \<Longrightarrow> ioCount (m_sessions s ! i) \<noteq> 0 \<Longrightarrow>
    ReturnSession env i (emit e (counted i s)) = Inr (emit e s)"
  by (simp add: ReturnSession_def counted_back del: add_io_eq)

text \<open>So \<open>Disconnect\<close> does nothing but close the socket of the session it finds.\<close>

abbreviation sock_of :: "'a server \<Rightarrow> u64 \<Rightarrow> u64" where
  "sock_of s sid \<equiv> sock (m_sessions s ! unat (sid AND INDEX_MASK))"

lemma Disconnect_eq:
  assumes n: "net_inv ar c s" and io: "io_inv r b s"
  shows "Disconnect env sid s = Inr (if found s sid then (emit (EvClose (sock_of s sid)) s, True) else (s, False))"
proof (cases "found s sid")
  case False
  then show ?thesis using AcquireSession_eq[OF n io] by (simp add: Disconnect_def)
next
  case True
  let ?i = "unat (sid AND INDEX_MASK)"
  have i: "?i < length (m_sessions s)" "\<not> released (m_sessions s ! ?i)" using True by (simp_all add: found_def Let_def)
  have "ioCount (m_sessions s ! ?i) \<noteq> 0" using io_live(2)[OF io i(1)] i(2) by auto
  moreover have "sock (m_sessions (counted ?i s) ! ?i) = sock_of s sid" using i(1) by (simp add: counted_def)
  ultimately show ?thesis using AcquireSession_eq[OF n io, of env sid] True i(1)
    by (simp add: Disconnect_def Let_def ReturnSession_back)
qed

section \<open>The stack of free indices\<close>

text \<open>Popping an index puts its session into \<open>b\<close>, pushing takes it out.\<close>

lemma pop_index_srv:
  assumes s: "srv ar J c r b s" and st: "m_indexStack s = index # rest"
  defines "i \<equiv> unat index"
  shows "i < length (m_sessions s)" "i \<notin> b" "srv ar J c r (insert i b) (s\<lparr>m_indexStack := rest\<rparr>)"
proof -
  have io: "io_inv r b s" using s by (simp add: srv_def)
  have stk: "stacked s = insert i (unat ` set rest)" using st by (simp add: stacked_def i_def)
  then show i: "i < length (m_sessions s)" using io by (simp add: io_inv_def)
  show nb: "i \<notin> b" using io_invD(1)[OF io i] stk by (simp add: io_sess_def)
  have nr: "i \<notin> unat ` set rest"
  proof
    assume "i \<in> unat ` set rest"
    then obtain x where x: "x \<in> set rest" "unat index = unat x" by (auto simp: i_def)
    then have "index = x" by (simp add: word_unat_eq_iff)
    then show False using x(1) io st by (simp add: io_inv_def)
  qed
  have "io_sess r (insert i b) (unat ` set rest) k (m_sessions s ! k)" if "k < length (m_sessions s)" for k
    using io_invD(1)[OF io that] nb nr by (auto simp: io_sess_def stk)
  then have "io_inv r (insert i b) (s\<lparr>m_indexStack := rest\<rparr>)"
    using io i st unfolding io_inv_def by (auto simp: stacked_def live_set_def)
  then show "srv ar J c r (insert i b) (s\<lparr>m_indexStack := rest\<rparr>)" using s by (simp add: srv_def)
qed

lemma push_index_srv:
  assumes s: "srv ar J c r (insert i b) s" and i: "i < length (m_sessions s)" "i \<notin> b" and u: "unat index = i"
  shows "srv ar J c r b (s\<lparr>m_indexStack := index # m_indexStack s\<rparr>)"
proof -
  have io: "io_inv r (insert i b) s" using s by (simp add: srv_def)
  let ?s = "s\<lparr>m_indexStack := index # m_indexStack s\<rparr>"
  have nst: "i \<notin> stacked s" using io_invD(1)[OF io i(1)] by (simp add: io_sess_def)
  then have nin: "index \<notin> set (m_indexStack s)" using u by (auto simp: stacked_def)
  have stk: "stacked ?s = insert i (stacked s)" using u by (simp add: stacked_def)
  have "io_sess r b (insert i (stacked s)) k (m_sessions s ! k)" if "k < length (m_sessions s)" for k
    using io_invD(1)[OF io that] i(2) nst by (cases "k = i") (auto simp: io_sess_def)
  moreover have "live_set ?s = live_set s" by (simp add: live_set_def)
  ultimately have "io_inv r b ?s" using io i nin by (simp add: io_inv_def stk)
  then show ?thesis using s by (simp add: srv_def)
qed

section \<open>The id of a session\<close>

lemma session_id_index:
  assumes "unat index < 65536"
  shows "session_id gen index AND INDEX_MASK = of_nat (unat index)"
proof -
  have "take_bit 16 (push_bit 16 gen :: u64) = 0" by (simp add: take_bit_push_bit)
  moreover have "take_bit 16 (ucast index :: u64) = ucast index"
    using assms by (simp add: word_unat_eq_iff unsigned_take_bit_eq unsigned_ucast_eq take_bit_nat_eq_self)
  ultimately have "session_id gen index AND INDEX_MASK = ucast index"
    by (simp add: session_id_def index_mask INDEX_BITS_def)
  then show ?thesis by simp
qed

lemma session_id_inj:
  assumes "unat i < 65536" "unat j < 65536" "unat g < 2 ^ 48" "unat h < 2 ^ 48"
    and "session_id g i = session_id h j"
  shows "g = h" "i = j"
proof -
  have g: "drop_bit 16 (session_id g i) = g" if "unat i < 65536" "unat g < 2 ^ 48" for g i
  proof -
    have "drop_bit 16 (ucast i :: u64) = 0"
      using that(1) by (simp add: word_unat_eq_iff unat_drop_bit_eq unsigned_ucast_eq take_bit_nat_eq_self)
        (simp add: drop_bit_eq_div take_bit_nat_eq_self)
    moreover have "drop_bit 16 (push_bit 16 g) = g"
    proof -
      have "take_bit 48 g = g" using that(2) by (simp add: word_unat_eq_iff unsigned_take_bit_eq take_bit_nat_eq_self)
      then have "bit g n \<Longrightarrow> n < 48" for n by (metis bit_take_bit_iff)
      then show ?thesis by (intro bit_word_eqI) (auto simp: bit_simps)
    qed
    ultimately show ?thesis by (simp add: session_id_def INDEX_BITS_def)
  qed
  show "g = h" using g[OF assms(1,3)] g[OF assms(2,4)] assms(5) by simp
  have "(of_nat (unat i) :: u64) = of_nat (unat j)"
    using session_id_index[OF assms(1), of g] session_id_index[OF assms(2), of h] assms(5) by simp
  then have "unat i = unat j"
    using assms(1,2) by (simp add: word_unat_eq_iff unsigned_ucast_eq take_bit_nat_eq_self)
  then show "i = j" by (simp add: word_unat_eq_iff)
qed

section \<open>Accepting\<close>

text \<open>The session of a popped index goes live: its reference belongs to the accept loop.\<close>

lemma accept_session_srv:
  assumes s: "srv ar J c r (insert i b) s" and i: "i < length (m_sessions s)" "i \<notin> b"
    and y: "y = (Session_Init sk sid addr pt (m_sessions s ! i))\<lparr>ioCount := 1\<rparr>"
    and sid: "sid AND INDEX_MASK = of_nat i"
  shows "srv ar J c (r(i := 1)) b (s\<lparr>m_sessions := (m_sessions s)[i := y], m_sessionCount := m_sessionCount s + 1\<rparr>)"
    and "r i = 0"
proof -
  let ?x = "m_sessions s ! i"
  let ?s = "s\<lparr>m_sessions := (m_sessions s)[i := y], m_sessionCount := m_sessionCount s + 1\<rparr>"
  have S: "net_inv ar c s" "io_inv r (insert i b) s" "J (app s)" using s by (auto simp: srv_def)
  have X: "released ?x" "r i = 0" "queued ?x = []" "i \<notin> stacked s"
    using io_invD(1)[OF S(2) i(1)] by (auto simp: io_sess_def)
  show "r i = 0" by (rule X(2))
  have ok: "sess_ok ?x" using net_invD(3)[OF S(1) i(1)] .
  have sq: "sendQ ?x = []" using X(3) by (simp add: queued_def)
  have oky: "sess_ok y" using ok ClearBuffer_empty(1)[of "recvQ ?x"]
    by (simp add: y sess_ok_def Session_Init_def) (simp add: RingBuffer_ClearBuffer_def)
  have qy: "queued y = []" using sq by (simp add: y queued_def Session_Init_def)
  have "net_inv ar c (s\<lparr>m_sessions := (m_sessions s)[i := y]\<rparr>)"
    by (rule net_inv_upd[OF S(1) i(1) oky]) (simp add: qy X(3))
  then have n: "net_inv ar c ?s" by (simp add: net_inv_def held_def)
  have nr: "\<not> released y" by (simp add: released_def y RELEASE_FLAG_def)
  have lv: "live_set ?s = insert i (live_set s)" "i \<notin> live_set s" "finite (live_set s)"
    using i(1) nr X(1) by (auto simp: live_set_def nth_list_update)
  have stk: "stacked ?s = stacked s" by (simp add: stacked_def)
  have "io_sess (r(i := 1)) b (stacked s) k ((m_sessions s)[i := y] ! k)" if "k < length (m_sessions s)" for k
  proof (cases "k = i")
    case True
    then show ?thesis using i X(4) nr sid by (simp add: io_sess_def) (simp add: y Session_Init_def)
  next
    case False
    then show ?thesis using io_invD(1)[OF S(2) that] by (auto simp: io_sess_def)
  qed
  then have "io_inv (r(i := 1)) b ?s"
    using S(2) lv by (auto simp: io_inv_def stk)
  then show "srv ar J c (r(i := 1)) b ?s" using n S(3) by (simp add: srv_def)
qed

text \<open>Both servers accept in the same way and differ in how they post the first receive.\<close>

definition go_live :: "(nat \<Rightarrow> u64 \<Rightarrow> 'a server \<Rightarrow> 'a server result) \<Rightarrow> 'a net_env \<Rightarrow> u32 \<Rightarrow>
    u64 \<times> string \<times> u16 \<Rightarrow> 'a server \<Rightarrow> 'a server result" where
  "go_live post env index c s =
     (let (client_sock, ipStr, portNum) = c; i = unat index;
          s = emit (EvSockopt client_sock) (emit (EvSockopt client_sock) s);
          s = (if \<not> m_nagle s then emit (EvSockopt client_sock) s else s);
          s = s\<lparr>m_sessionIDGenerator := m_sessionIDGenerator s + 1\<rparr>;
          sid = session_id (m_sessionIDGenerator s) index in
      and_then (upd_session i (Session_Init client_sock sid ipStr portNum) s) (\<lambda>s.
      and_then (add_io 1 i s) (\<lambda>(s, _).
      and_then (upd_session i (\<lambda>x. x\<lparr>ioCount := ioCount x AND NOT RELEASE_FLAG\<rparr>) s) (\<lambda>s.
      let s = emit (EvAssociate client_sock sid) (s\<lparr>m_sessionCount := m_sessionCount s + 1\<rparr>) in
      and_then (OnAccept env sid s) (\<lambda>s.
      and_then (add_io 1 i s) (\<lambda>(s, _).
      and_then (post i client_sock s) (\<lambda>s.
      ReturnSession env i s)))))))"

definition accept_with :: "(u32 \<Rightarrow> u64 \<times> string \<times> u16 \<Rightarrow> 'a server \<Rightarrow> 'a server result) \<Rightarrow> 'a net_env \<Rightarrow>
    u64 \<times> string \<times> u16 \<Rightarrow> 'a server \<Rightarrow> 'a server result" where
  "accept_with accepted env c s =
     (let (client_sock, ipStr, portNum) = c in
      case m_indexStack s of [] \<Rightarrow> Inr (emit (EvClose client_sock) s)
      | index # rest \<Rightarrow>
        and_then (OnConnectionRequest env ipStr portNum (s\<lparr>m_indexStack := rest\<rparr>)) (\<lambda>(s, allow).
        if \<not> allow then
          Inr (emit (EvClose client_sock) (s\<lparr>m_indexStack := index # m_indexStack s\<rparr>))
        else accepted index c s))"

lemma Accept_live_eq: "Accept_live env = go_live (\<lambda>i sk. RecvPost env i) env"
  by (simp add: fun_eq_iff Accept_live_def go_live_def)

lemma Accept_client_eq: "Accept_client env = accept_with (go_live (\<lambda>i sk. RecvPost env i) env) env"
  unfolding fun_eq_iff Accept_client_def accept_with_def Accept_live_eq by simp

text \<open>The contract of posting the first receive, while the accept loop holds a reference.\<close>

locale accepting = net_app env ar J
  for env :: "'a net_env" and ar :: "'a \<Rightarrow> u64 \<Rightarrow> nat" and J :: "(u64 \<times> bytes) list \<Rightarrow> 'a \<Rightarrow> bool" +
  fixes post :: "nat \<Rightarrow> u64 \<Rightarrow> 'a server \<Rightarrow> 'a server result"
  assumes post_law: "srv ar (J L) c r b s \<Longrightarrow> i < length (m_sessions s) \<Longrightarrow> 1 < r i \<Longrightarrow>
      safe (\<lambda>s'. kept ar (J L) c r b s s' \<or> kept ar (J L) c (r(i := r i - 1)) b s s') (post i sk s)"
    and post_exact: "srv ar (J L) c r b s \<Longrightarrow> i < length (m_sessions s) \<Longrightarrow> 1 < r i \<Longrightarrow>
      sock (m_sessions s ! i) = sk \<Longrightarrow> recv_windows (recvQ (m_sessions s ! i)) = [w] \<Longrightarrow>
      post i sk s = (let err = ne_wsa env (trace s) (EvRecv sk [w]) in
        if err = 0 \<or> err = WSA_IO_PENDING then Inr (emit (EvRecv sk [w]) s)
        else if err \<noteq> WSAECONNRESET then Inl DebugBreak
        else and_then (add_io (- 1) i (emit (EvRecv sk [w]) s)) (\<lambda>(s, _). Inr s))"
begin

lemma live_setup:
  fixes index :: u32 and s :: "'a server" and sk :: u64 and addr :: string and pt :: u16
  assumes s: "srv ar (J L) c r (insert i b) s" and i: "i < length (m_sessions s)" "i \<notin> b"
    and u: "unat index = i"
  defines "gen \<equiv> m_sessionIDGenerator s + 1"
  defines "sid \<equiv> session_id gen index"
  defines "y \<equiv> (Session_Init sk sid addr pt (m_sessions s ! i))\<lparr>ioCount := 1\<rparr>"
  shows "\<exists>s'. srv ar (J L) c (r(i := 1)) b s' \<and> i < length (m_sessions s') \<and>
    m_sessions s' = (m_sessions s)[i := y] \<and> m_sessionIDGenerator s' = gen \<and>
    m_sessionCount s' = m_sessionCount s + 1 \<and> m_indexStack s' = m_indexStack s \<and>
    trace s' = trace s @ replicate (if m_nagle s then 2 else 3) (EvSockopt sk) @ [EvAssociate sk sid] \<and>
    go_live post env index (sk, addr, pt) s =
      and_then (OnAccept env sid s') (\<lambda>s.
      and_then (add_io 1 i s) (\<lambda>(s, _).
      and_then (post i sk s) (\<lambda>s. ReturnSession env i s)))"
proof -
  define s0 where "s0 = (let s = emit (EvSockopt sk) (emit (EvSockopt sk) s) in
    if \<not> m_nagle s then emit (EvSockopt sk) s else s)"
  have gen: "m_sessionIDGenerator s0 + 1 = gen" by (simp add: s0_def gen_def Let_def)
  have s0: "srv ar (J L) c r (insert i b) s0" using s by (simp add: s0_def srv_def Let_def)
  have i0: "i < length (m_sessions s0)" using i(1) by (simp add: s0_def Let_def)
  let ?x = "m_sessions s0 ! i"
  let ?y = "(Session_Init sk sid addr pt ?x)\<lparr>ioCount := 1\<rparr>"
  have y: "?y = y" by (simp add: y_def s0_def Let_def)
  have io: "io_inv r (insert i b) s0" using s0 by (simp add: srv_def)
  have rel: "ioCount ?x = RELEASE_FLAG" using io_invD(1)[OF io i0] by (simp add: io_sess_def released_def)
  have "length (m_sessions s0) \<le> 65536" using io by (simp add: io_inv_def)
  then have "sid AND INDEX_MASK = of_nat i"
    using session_id_index[of index gen] u i0 by (simp add: sid_def)
  from accept_session_srv(1)[OF s0 i0 i(2) refl this, of sk addr pt]
  have 1: "srv ar (J L) c (r(i := 1)) b (s0\<lparr>m_sessions := (m_sessions s0)[i := ?y], m_sessionCount := m_sessionCount s0 + 1\<rparr>)" .
  let ?s1 = "s0\<lparr>m_sessionIDGenerator := gen, m_sessions := (m_sessions s0)[i := ?y], m_sessionCount := m_sessionCount s0 + 1\<rparr>"
  let ?s' = "emit (EvAssociate sk sid) ?s1"
  have "srv ar (J L) c (r(i := 1)) b ?s1"
    by (rule srv_cong[OF 1]) simp_all
  then have "srv ar (J L) c (r(i := 1)) b ?s'" by (simp add: srv_def)
  moreover have "ioCount (Session_Init sk sid addr pt ?x) = RELEASE_FLAG" using rel by (simp add: Session_Init_def)
  then have "go_live post env index (sk, addr, pt) s = and_then (OnAccept env sid ?s') (\<lambda>s.
      and_then (add_io 1 i s) (\<lambda>(s, _). and_then (post i sk s) (\<lambda>s. ReturnSession env i s)))"
    using i0 unfolding go_live_def prod.case Let_def s0_def[unfolded Let_def, symmetric] u gen
    by (simp add: flag_clear sid_def[symmetric])
  moreover have "m_sessions ?s' = (m_sessions s)[i := y]" unfolding y by (simp add: s0_def Let_def)
  moreover have "m_sessionCount ?s' = m_sessionCount s + 1" "m_indexStack ?s' = m_indexStack s"
    "m_sessionIDGenerator ?s' = gen" by (simp_all add: s0_def Let_def)
  moreover have "trace ?s' = trace s @ replicate (if m_nagle s then 2 else 3) (EvSockopt sk) @ [EvAssociate sk sid]"
    by (simp add: s0_def Let_def emit_def eval_nat_numeral)
  ultimately show ?thesis using i(1) by (intro exI[of _ ?s']) simp
qed

text \<open>The session is live and the only known reference is that of its receive, or the first receive
  has failed already.\<close>

lemma live_safe:
  fixes index :: u32
  assumes s: "srv ar (J L) c r (insert i b) s" and i: "i < length (m_sessions s)" "i \<notin> b"
    and u: "unat index = i" and r: "\<forall>j. r j < 48"
  shows "safe (\<lambda>s'. srv ar (J L) c r b s' \<or> srv ar (J L) c (r(i := 1)) b s')
    (go_live post env index (sk, addr, pt) s)"
proof -
  define sid where "sid = session_id (m_sessionIDGenerator s + 1) index"
  obtain s1 where 1: "srv ar (J L) c (r(i := 1)) b s1" "i < length (m_sessions s1)"
    and eq: "go_live post env index (sk, addr, pt) s = and_then (OnAccept env sid s1) (\<lambda>s.
      and_then (add_io 1 i s) (\<lambda>(s, _). and_then (post i sk s) (\<lambda>s. ReturnSession env i s)))"
    using live_setup[OF s i u, of sk addr pt] unfolding sid_def by blast
  have r50: "\<forall>j. (r(i := 1)) j < 50" using r by (auto intro: less_trans)
  have r0: "r i = 0" using s i(1) io_invD(1)[of r "insert i b" s i] by (simp add: srv_def io_sess_def)
  let ?r2 = "(r(i := 1))(i := (r(i := 1)) i + 1)"
  show ?thesis unfolding eq
  proof (rule safe_and_then[OF OnAccept_law[OF 1(1) r50]])
    fix s2 assume "kept ar (J L) c (r(i := 1)) b s1 s2"
    then have 2: "srv ar (J L) c (r(i := 1)) b s2" "i < length (m_sessions s2)"
      using 1(2) by (auto simp: kept_def dest: same_rx_length)
    have "\<not> released (m_sessions s2 ! i)"
      using 2 io_live(1)[of "r(i := 1)" b s2 i] by (simp add: srv_def)
    from counted_srv(1)[OF 2 this]
    have 3: "srv ar (J L) c ?r2 b (counted i s2)" "i < length (m_sessions (counted i s2))"
      using 2(2) by simp_all
    have "safe (\<lambda>s'. srv ar (J L) c r b s' \<or> srv ar (J L) c (r(i := 1)) b s')
      (and_then (post i sk (counted i s2)) (\<lambda>s. ReturnSession env i s))"
    proof (rule safe_and_then[OF post_law[OF 3]])
      fix s4 assume k: "kept ar (J L) c ?r2 b (counted i s2) s4 \<or> kept ar (J L) c (?r2(i := ?r2 i - 1)) b (counted i s2) s4"
      then have i4: "i < length (m_sessions s4)" using 3(2) by (auto simp: kept_def dest: same_rx_length)
      have "srv ar (J L) c (r(i := 2)) b s4 \<or> srv ar (J L) c (r(i := 1)) b s4"
        using k by (auto simp: kept_def numeral_2_eq_2)
      then show "safe (\<lambda>s'. srv ar (J L) c r b s' \<or> srv ar (J L) c (r(i := 1)) b s') (ReturnSession env i s4)"
      proof
        assume "srv ar (J L) c (r(i := 2)) b s4"
        from nr.ReturnSession_safe[OF this i4] show ?thesis
          by (rule safe_mono) (auto simp: kept_def)
      next
        assume "srv ar (J L) c (r(i := 1)) b s4"
        moreover have "r(i := 0) = r" using r0 by auto
        ultimately show ?thesis using nr.ReturnSession_safe[of L c "r(i := 1)" b s4 i] i4
          by (auto simp: kept_def elim!: safe_mono)
      qed
    qed simp
    then show "safe (\<lambda>s'. srv ar (J L) c r b s' \<or> srv ar (J L) c (r(i := 1)) b s')
      (and_then (add_io 1 i s2) (\<lambda>(s, _). and_then (post i sk s) (\<lambda>s. ReturnSession env i s)))"
      using 2(2) by (simp add: counted_def)
  qed
qed

lemma accept_safe:
  assumes s: "srv ar (J L) c r b s" and r: "\<forall>j. r j < 48"
  shows "safe (\<lambda>s'. srv ar (J L) c r b s' \<or>
      (\<exists>index rest. m_indexStack s = index # rest \<and> srv ar (J L) c (r(unat index := 1)) b s'))
    (accept_with (go_live post env) env (sk, addr, pt) s)"
proof (cases "m_indexStack s")
  case Nil
  then show ?thesis using s by (simp add: accept_with_def srv_def)
next
  case (Cons index rest)
  define i where "i = unat index"
  note P = pop_index_srv[OF s Cons, folded i_def]
  let ?s1 = "s\<lparr>m_indexStack := rest\<rparr>"
  have r50: "\<forall>j. r j < 50" using r by (auto intro: less_trans)
  show ?thesis unfolding accept_with_def Cons prod.case list.case Let_def
  proof (rule safe_and_then[OF OnConnectionRequest_law[OF P(3) r50]])
    fix v :: "'a server \<times> bool" assume "(\<lambda>(s', ok). kept ar (J L) c r (insert i b) ?s1 s') v"
    then obtain s2 ok where v: "v = (s2, ok)" "srv ar (J L) c r (insert i b) s2" "same_rx ?s1 s2"
      by (cases v) (auto simp: kept_def)
    have i2: "i < length (m_sessions s2)" using P(1) same_rx_length[OF v(3)] by simp
    show "safe (\<lambda>s'. srv ar (J L) c r b s' \<or> (\<exists>index' rest'. index # rest = index' # rest' \<and>
        srv ar (J L) c (r(unat index' := 1)) b s'))
      (case v of (s, allow) \<Rightarrow> if \<not> allow then Inr (emit (EvClose sk) (s\<lparr>m_indexStack := index # m_indexStack s\<rparr>))
        else go_live post env index (sk, addr, pt) s)"
    proof (cases ok)
      case True
      then show ?thesis using live_safe[OF v(2) i2 P(2) i_def[symmetric] r, of sk addr pt] v(1)
        by (simp add: i_def)
    next
      case False
      then show ?thesis using push_index_srv[OF v(2) i2 P(2) i_def[symmetric]] v(1) by (simp add: srv_def)
    qed
  qed
qed

text \<open>What an allowed client gets: a session of its own, the call of \<open>OnAccept\<close> and a receive over
  the whole empty queue; then the accept loop's own reference is gone again.\<close>

lemma go_live_exact:
  fixes index :: u32 and sk :: u64 and addr :: string and pt :: u16
  assumes s: "srv ar (J L) c r (insert i b) s" and i: "i < length (m_sessions s)" "i \<notin> b"
    and u: "unat index = i" and r: "\<forall>j. r j < 48"
  defines "sid \<equiv> session_id (m_sessionIDGenerator s + 1) index"
  defines "y \<equiv> (Session_Init sk sid addr pt (m_sessions s ! i))\<lparr>ioCount := 1\<rparr>"
  defines "e \<equiv> EvRecv sk [(0, 2001)]"
  shows "\<exists>s2. m_sessions s2 = (m_sessions s)[i := y] \<and> m_sessionIDGenerator s2 = m_sessionIDGenerator s + 1 \<and>
    m_sessionCount s2 = m_sessionCount s + 1 \<and> m_indexStack s2 = m_indexStack s \<and>
    trace s2 = trace s @ replicate (if m_nagle s then 2 else 3) (EvSockopt sk) @ [EvAssociate sk sid] \<and>
    (case OnAccept env sid s2 of Inl x \<Rightarrow> go_live post env index (sk, addr, pt) s = Inl x
     | Inr s3 \<Rightarrow> same_rx s2 s3 \<and>
       (if ne_wsa env (trace s3) e = 0 \<or> ne_wsa env (trace s3) e = WSA_IO_PENDING
        then go_live post env index (sk, addr, pt) s = Inr (emit e s3) \<and> srv ar (J L) c (r(i := 1)) b (emit e s3)
        else if ne_wsa env (trace s3) e \<noteq> WSAECONNRESET then go_live post env index (sk, addr, pt) s = Inl DebugBreak
        else safe (kept ar (J L) c r b s2) (go_live post env index (sk, addr, pt) s)))"
proof -
  obtain s2 where 2: "srv ar (J L) c (r(i := 1)) b s2" "i < length (m_sessions s2)"
    "m_sessions s2 = (m_sessions s)[i := y]" "m_sessionIDGenerator s2 = m_sessionIDGenerator s + 1"
    "m_sessionCount s2 = m_sessionCount s + 1" "m_indexStack s2 = m_indexStack s"
    "trace s2 = trace s @ replicate (if m_nagle s then 2 else 3) (EvSockopt sk) @ [EvAssociate sk sid]"
    and eq: "go_live post env index (sk, addr, pt) s = and_then (OnAccept env sid s2) (\<lambda>s.
      and_then (add_io 1 i s) (\<lambda>(s, _). and_then (post i sk s) (\<lambda>s. ReturnSession env i s)))"
    using live_setup[OF s i u, of sk addr pt] unfolding sid_def y_def by blast
  have r50: "\<forall>j. (r(i := 1)) j < 50" using r by (auto intro: less_trans)
  have r0: "r i = 0" using s i(1) io_invD(1)[of r "insert i b" s i] by (simp add: srv_def io_sess_def)
  have tail: "same_rx s2 s3 \<and>
       (if ne_wsa env (trace s3) e = 0 \<or> ne_wsa env (trace s3) e = WSA_IO_PENDING
        then go_live post env index (sk, addr, pt) s = Inr (emit e s3) \<and> srv ar (J L) c (r(i := 1)) b (emit e s3)
        else if ne_wsa env (trace s3) e \<noteq> WSAECONNRESET then go_live post env index (sk, addr, pt) s = Inl DebugBreak
        else safe (kept ar (J L) c r b s2) (go_live post env index (sk, addr, pt) s))"
    if 3: "OnAccept env sid s2 = Inr s3" for s3
  proof -
    have k: "srv ar (J L) c (r(i := 1)) b s3" "same_rx s2 s3"
      using safe_InrD[OF OnAccept_law[OF 2(1) r50] 3] unfolding kept_def by blast+
    have i3: "i < length (m_sessions s3)" using 2(2) same_rx_length[OF k(2)] by simp
    let ?x = "m_sessions s3 ! i"
    have "sess_ok (m_sessions s ! i)" using net_invD(3)[of ar c s i] s i(1) by (simp add: srv_def)
    moreover have "rx ?x = rx y" using same_rx_nth[OF k(2) 2(2)] 2(3) i(1) by simp
    ultimately have x: "sock ?x = sk" "recv_windows (recvQ ?x) = [(0, 2001)]"
      by (auto simp: rx_def y_def Session_Init_def sess_ok_def recv_windows_def Let_def RingBuffer_ClearBuffer_def
        RingBuffer_GetFreeSize_def RingBuffer_DirectEnqueueSize_def RingBuffer_GetUseSize_def RingBuffer_GetRearBufferPtr_def)
    have nr: "\<not> released ?x" "ioCount ?x \<noteq> 0"
      using io_live(1,2)[of "r(i := 1)" b s3 i] k(1) i3 by (auto simp: srv_def)
    let ?s4 = "counted i s3"
    have i4: "i < length (m_sessions ?s4)" "sock (m_sessions ?s4 ! i) = sk"
      "recv_windows (recvQ (m_sessions ?s4 ! i)) = [(0, 2001)]" using i3 x by (simp_all add: counted_def)
    have "add_io 1 i s3 = Inr (?s4, ioCount ?x + 1)" using i3 by (simp add: counted_def)
    then have A: "go_live post env index (sk, addr, pt) s = and_then (post i sk ?s4) (\<lambda>s. ReturnSession env i s)"
      unfolding eq 3 and_then_Inr by simp
    have q4: "srv ar (J L) c ((r(i := 1))(i := (r(i := 1)) i + 1)) b ?s4" by (rule counted_srv(1)[OF k(1) i3 nr(1)]) simp
    have P: "post i sk ?s4 = (let err = ne_wsa env (trace ?s4) (EvRecv sk [(0, 2001)]) in
        if err = 0 \<or> err = WSA_IO_PENDING then Inr (emit (EvRecv sk [(0, 2001)]) ?s4)
        else if err \<noteq> WSAECONNRESET then Inl DebugBreak
        else and_then (add_io (- 1) i (emit (EvRecv sk [(0, 2001)]) ?s4)) (\<lambda>(s, _). Inr s))"
      by (rule post_exact[OF q4 i4(1) _ i4(2,3)]) simp
    have R: "post i sk ?s4 = (let err = ne_wsa env (trace s3) e in
        if err = 0 \<or> err = WSA_IO_PENDING then Inr (emit e ?s4)
        else if err \<noteq> WSAECONNRESET then Inl DebugBreak
        else and_then (add_io (- 1) i (emit e ?s4)) (\<lambda>(s, _). Inr s))" using P unfolding e_def counted_simps .
    note drop = counted_back[OF i3, of e] and undo = ReturnSession_back[OF i3 nr(2), of env e]
    have "srv ar (J L) c (r(i := 1)) b (emit e s3)" using k(1) by (simp add: srv_def)
    moreover have "safe (kept ar (J L) c r b s2) (ReturnSession env i (emit e s3))"
    proof -
      have "safe (kept ar (J L) c ((r(i := 1))(i := (r(i := 1)) i - 1)) b (emit e s3)) (ReturnSession env i (emit e s3))"
        by (rule nr.ReturnSession_safe) (use k i3 in \<open>simp_all add: srv_def\<close>)
      moreover have "(r(i := 1))(i := (r(i := 1)) i - 1) = r" using r0 by auto
      ultimately have "safe (kept ar (J L) c r b (emit e s3)) (ReturnSession env i (emit e s3))" by simp
      then show ?thesis by (rule safe_kept_trans[rotated]) (simp add: k(2))
    qed
    ultimately show ?thesis using k(2) undo drop unfolding A R Let_def by (auto simp del: add_io_eq)
  qed
  show ?thesis
  proof (cases "OnAccept env sid s2")
    case (Inl x)
    then have "go_live post env index (sk, addr, pt) s = Inl x" unfolding eq by simp
    then show ?thesis using 2(3-7) Inl by (intro exI[of _ s2]) simp
  next
    case (Inr s3)
    show ?thesis
      by (intro exI[of _ s2] conjI 2(3-7)) (unfold Inr sum.case, rule tail[OF Inr])
  qed
qed

lemma accept_exact:
  assumes s: "srv ar (J L) c r b s" and r: "\<forall>j. r j < 48"
  shows "case m_indexStack s of
      [] \<Rightarrow> accept_with (go_live post env) env (sk, addr, pt) s = Inr (emit (EvClose sk) s)
    | index # rest \<Rightarrow> (case OnConnectionRequest env addr pt (s\<lparr>m_indexStack := rest\<rparr>) of
        Inl x \<Rightarrow> accept_with (go_live post env) env (sk, addr, pt) s = Inl x
      | Inr (s1, allow) \<Rightarrow> same_rx s s1 \<and> (if \<not> allow
          then \<exists>s'. accept_with (go_live post env) env (sk, addr, pt) s = Inr s' \<and> srv ar (J L) c r b s' \<and>
            m_sessions s' = m_sessions s1 \<and> m_indexStack s' = index # m_indexStack s1 \<and> trace s' = trace s1 @ [EvClose sk]
          else \<exists>s2. m_sessions s2 = (m_sessions s1)[unat index := (Session_Init sk
              (session_id (m_sessionIDGenerator s1 + 1) index) addr pt (m_sessions s1 ! unat index))\<lparr>ioCount := 1\<rparr>] \<and>
            m_sessionIDGenerator s2 = m_sessionIDGenerator s1 + 1 \<and>
            m_sessionCount s2 = m_sessionCount s1 + 1 \<and> m_indexStack s2 = m_indexStack s1 \<and>
            trace s2 = trace s1 @ replicate (if m_nagle s1 then 2 else 3) (EvSockopt sk) @
              [EvAssociate sk (session_id (m_sessionIDGenerator s1 + 1) index)] \<and>
            (case OnAccept env (session_id (m_sessionIDGenerator s1 + 1) index) s2 of
              Inl x \<Rightarrow> accept_with (go_live post env) env (sk, addr, pt) s = Inl x
            | Inr s3 \<Rightarrow> same_rx s2 s3 \<and>
              (if ne_wsa env (trace s3) (EvRecv sk [(0, 2001)]) = 0 \<or>
                  ne_wsa env (trace s3) (EvRecv sk [(0, 2001)]) = WSA_IO_PENDING
               then accept_with (go_live post env) env (sk, addr, pt) s = Inr (emit (EvRecv sk [(0, 2001)]) s3) \<and>
                 srv ar (J L) c (r(unat index := 1)) b (emit (EvRecv sk [(0, 2001)]) s3)
               else if ne_wsa env (trace s3) (EvRecv sk [(0, 2001)]) \<noteq> WSAECONNRESET
               then accept_with (go_live post env) env (sk, addr, pt) s = Inl DebugBreak
               else safe (kept ar (J L) c r b s2) (accept_with (go_live post env) env (sk, addr, pt) s)))))"
proof (cases "m_indexStack s")
  case Nil
  then show ?thesis by (simp add: accept_with_def)
next
  case (Cons index rest)
  note P = pop_index_srv[OF s Cons]
  let ?s0 = "s\<lparr>m_indexStack := rest\<rparr>"
  have r50: "\<forall>j. r j < 50" using r by (auto intro: less_trans)
  show ?thesis
  proof (cases "OnConnectionRequest env addr pt ?s0")
    case (Inl x)
    then show ?thesis using Cons by (simp add: accept_with_def)
  next
    case (Inr v)
    obtain s1 allow where v: "v = (s1, allow)" by (cases v)
    have 1: "srv ar (J L) c r (insert (unat index) b) s1" "same_rx s s1"
      using safe_InrD[OF OnConnectionRequest_law[OF P(3) r50] Inr] v by (simp_all add: kept_def)
    have i1: "unat index < length (m_sessions s1)" using P(1) same_rx_length[OF 1(2)] by simp
    show ?thesis
    proof (cases allow)
      case False
      let ?s' = "emit (EvClose sk) (s1\<lparr>m_indexStack := index # m_indexStack s1\<rparr>)"
      have A: "accept_with (go_live post env) env (sk, addr, pt) s = Inr ?s'" using Cons Inr v False by (simp add: accept_with_def)
      have "srv ar (J L) c r b ?s'" using push_index_srv[OF 1(1) i1 P(2) refl] by (simp add: srv_def)
      moreover have "m_sessions ?s' = m_sessions s1" "m_indexStack ?s' = index # m_indexStack s1"
        "trace ?s' = trace s1 @ [EvClose sk]" by (simp_all add: emit_def)
      ultimately have "\<exists>s'. accept_with (go_live post env) env (sk, addr, pt) s = Inr s' \<and> srv ar (J L) c r b s' \<and>
          m_sessions s' = m_sessions s1 \<and> m_indexStack s' = index # m_indexStack s1 \<and> trace s' = trace s1 @ [EvClose sk]"
        using A by blast
      then show ?thesis unfolding Cons list.case Inr v sum.case prod.case using False 1(2) by simp
    next
      case True
      have A: "accept_with (go_live post env) env (sk, addr, pt) s = go_live post env index (sk, addr, pt) s1"
        using Cons Inr v True by (simp add: accept_with_def)
      have sr: "same_rx s s1" and t: "\<not> \<not> allow" using 1(2) True by simp_all
      show ?thesis unfolding Cons list.case Inr v sum.case prod.case A if_not_P[OF t]
        using sr go_live_exact[OF 1(1) i1 P(2) refl r, of sk addr pt] by (rule conjI)
    qed
  qed
qed

end

context net_release begin

text \<open>While another reference is known, giving one back releases nothing.\<close>

lemma Return_other:
  assumes "srv ar J c r b s" and "i < length (m_sessions s)" and "1 < r i"
  shows "ReturnSession env i s = and_then (add_io (- 1) i s) (\<lambda>(s, _). Inr s)"
proof -
  have io: "io_inv r b s" using assms(1) by (simp add: srv_def)
  have "0 < r i" using assms(3) by simp
  note L = io_live[OF io assms(2) disjI2[OF this]]
  have "unat (ioCount (m_sessions s ! i) + (- 1)) \<noteq> 0" using unat_dec[OF L(2)] L(5) assms(3) by simp
  then have "ioCount (m_sessions s ! i) + (- 1) \<noteq> 0" by auto
  then show ?thesis unfolding ReturnSession_def add_io_eq[OF assms(2)] and_then_Inr prod.case by simp
qed

lemma RecvPost_first:
  assumes s: "srv ar J c r b s" and i: "i < length (m_sessions s)" and r: "1 < r i"
    and x: "sock (m_sessions s ! i) = sk" "recv_windows (recvQ (m_sessions s ! i)) = [w]"
  shows "RecvPost env i s = (let err = ne_wsa env (trace s) (EvRecv sk [w]) in
    if err = 0 \<or> err = WSA_IO_PENDING then Inr (emit (EvRecv sk [w]) s)
    else if err \<noteq> WSAECONNRESET then Inl DebugBreak
    else and_then (add_io (- 1) i (emit (EvRecv sk [w]) s)) (\<lambda>(s, _). Inr s))"
proof -
  have "srv ar J c r b (emit (EvRecv sk [w]) s)" using s by (simp add: srv_def)
  from Return_other[OF this _ r] i x show ?thesis
    by (simp add: RecvPost_def syscall_def emit_def Let_def del: add_io_eq)
qed

end

sublocale net_app \<subseteq> ac: accepting env ar J "\<lambda>i sk. RecvPost env i"
  by unfold_locales (rule nr.RecvPost_safe, simp, simp, simp, rule nr.RecvPost_first)

context net_app begin

lemma Accept_client_safe:
  assumes "srv ar (J L) c r b s" and "\<forall>j. r j < 48"
  shows "safe (\<lambda>s'. srv ar (J L) c r b s' \<or>
      (\<exists>index rest. m_indexStack s = index # rest \<and> srv ar (J L) c (r(unat index := 1)) b s'))
    (Accept_client env (sk, addr, pt) s)"
  unfolding Accept_client_eq by (rule ac.accept_safe[OF assms])

lemmas Accept_client_exact = ac.accept_exact[folded Accept_client_eq]

end

section \<open>What a send passes to the network\<close>

lemma packet_wire_ref [simp]: "packet_wire (x\<lparr>m_refCount := n\<rparr>) = packet_wire x"
  by (simp add: packet_wire_def Packet_GetSendSize_def Packet_GetSendPtr_def)

text \<open>On a session with no send in flight, sending a packet sends the queued packets with the new one
  behind them, the new one framed.\<close>

context framing begin

lemma send_posts:
  assumes s: "srv ar J c r b s" and r: "\<forall>j. r j < 98" and p: "0 < c p" and lim: "refs (packets s) p < 2 ^ 31 - 1"
    and f: "found s sid"
  defines "i \<equiv> unat (sid AND INDEX_MASK)"
  defines "x \<equiv> m_sessions s ! i"
  assumes idle: "\<not> isSending x"
    and y: "live (packets s) p = Some y0" "hdr (counted i s) y0 = Inr y"
  defines "e \<equiv> EvSend (sock x) (map (\<lambda>q. packet_wire (if q = p then y else the (live (packets s) q)))
    (take MAX_SEND_PACKET (sendQ x @ [p])))"
  shows "ne_wsa env (trace s) e = 0 \<or> ne_wsa env (trace s) e = WSA_IO_PENDING \<Longrightarrow>
      \<exists>s'. send_framed hdr env sid p s = Inr (s', True) \<and> trace s' = trace s @ [e] \<and>
        sendQ (m_sessions s' ! i) = drop MAX_SEND_PACKET (sendQ x @ [p]) \<and> isSending (m_sessions s' ! i)"
    and "ne_wsa env (trace s) e \<noteq> 0 \<Longrightarrow> ne_wsa env (trace s) e \<noteq> WSA_IO_PENDING \<Longrightarrow>
      ne_wsa env (trace s) e \<noteq> WSAECONNRESET \<Longrightarrow> send_framed hdr env sid p s = Inl DebugBreak"
proof -
  obtain s3 where 3: "srv ar J c (r(i := r i + 1)) b s3" "same_rx s s3" "i < length (m_sessions s)" "trace s3 = trace s"
    "live (packets s3) = (live (packets s))(p \<mapsto> y\<lparr>m_refCount := m_refCount y + 1\<rparr>)"
    "m_sessions s3 ! i = x\<lparr>ioCount := ioCount x + 1, sendQ := sendQ x @ [p]\<rparr>"
    and eq: "send_framed hdr env sid p s = and_then (SendPost env i s3)
      (\<lambda>s. and_then (ReturnSession env i s) (\<lambda>s. Inr (s, True)))"
    using send_setup[OF s r p lim f, of env] y unfolding i_def[symmetric] x_def[symmetric] by auto
  have i3: "i < length (m_sessions s3)" using 3(2,3) same_rx_length by metis
  let ?z = "(m_sessions s3 ! i)\<lparr>isSending := True\<rparr>"
  let ?s4 = "s3\<lparr>m_sessions := (m_sessions s3)[i := ?z]\<rparr>"
  have n3: "net_inv ar c s3" "io_inv (r(i := r i + 1)) b s3" using 3(1) by (simp_all add: srv_def)
  have n4: "net_inv ar c ?s4" by (rule net_inv_session(1)[OF n3(1) i3]) (simp_all add: rx_def queued_def)
  have i4: "i < length (m_sessions ?s4)" using i3 by simp
  have z: "m_sessions ?s4 ! i = ?z" using i3 by simp
  have zz: "sock ?z = sock x" "sendQ ?z = sendQ x @ [p]" "ioCount ?z = ioCount x + 1" using 3(6) by simp_all
  have wire: "packet_wire (the (live (packets ?s4) q)) = packet_wire (if q = p then y else the (live (packets s) q))" for q
    using 3(5) by simp
  have tr: "trace ?s4 = trace s" using 3(4) by simp
  obtain arr where send: "SendPost_send env i ?s4 =
      (let s2 = emit e (counted i (?s4\<lparr>m_sessions := (m_sessions ?s4)[i := collected arr ?z]\<rparr>)); err = ne_wsa env (trace s) e in
      if err = 0 \<or> err = WSA_IO_PENDING then Inr s2
      else if err \<noteq> WSAECONNRESET then Inl DebugBreak
      else and_then (add_io (- 1) i s2) (\<lambda>(s, n). if n = 0 then ReleaseSession env i s else Inr s))"
    using SendPost_send_eq[OF n4 i4, of env] unfolding z zz wire tr e_def[symmetric] by blast
  have post: "SendPost env i s3 = SendPost_send env i ?s4"
    using i3 3(6) idle by (simp add: SendPost_def)
  show "send_framed hdr env sid p s = Inl DebugBreak" if "ne_wsa env (trace s) e \<noteq> 0"
    "ne_wsa env (trace s) e \<noteq> WSA_IO_PENDING" "ne_wsa env (trace s) e \<noteq> WSAECONNRESET"
    using that eq post send by simp
  assume ok: "ne_wsa env (trace s) e = 0 \<or> ne_wsa env (trace s) e = WSA_IO_PENDING"
  let ?s5 = "emit e (counted i (?s4\<lparr>m_sessions := (m_sessions ?s4)[i := collected arr ?z]\<rparr>))"
  have s5: "SendPost env i s3 = Inr ?s5" using ok post send by (simp add: Let_def)
  have io: "0 < unat (ioCount x)" "unat (ioCount x) < 2 ^ 31 - 2"
    using io_live[of r b s i] s 3(3) f by (auto simp: srv_def found_def Let_def i_def x_def)
  have "ioCount (collected arr ?z) = ioCount x + 1" using zz(3) by (simp add: collected_def)
  then have w: "m_sessions ?s5 ! i = (collected arr ?z)\<lparr>ioCount := ioCount x + 1 + 1\<rparr>" using i3 by (simp add: counted_def)
  have "unat (ioCount x + 1) = unat (ioCount x) + 1" using io(2) by (intro unat_inc) simp
  then have nz: "ioCount x + 1 \<noteq> 0" by auto
  have i5: "i < length (m_sessions ?s5)" using i3 by (simp add: counted_def)
  have ret: "ReturnSession env i ?s5 = Inr (?s5\<lparr>m_sessions := (m_sessions ?s5)[i := (m_sessions ?s5 ! i)\<lparr>ioCount := ioCount x + 1\<rparr>]\<rparr>)"
  proof -
    have v: "ioCount (m_sessions ?s5 ! i) + - 1 = ioCount x + 1" unfolding w by simp
    show ?thesis unfolding ReturnSession_def add_io_eq[OF i5] and_then_Inr prod.case v by (simp only: nz if_False)
  qed
  have tr5: "trace ?s5 = trace s @ [e]" using tr by (simp add: emit_def)
  have sq: "sendQ (m_sessions ?s5 ! i) = drop MAX_SEND_PACKET (sendQ x @ [p])" "isSending (m_sessions ?s5 ! i)"
    unfolding w using zz(2) by (simp_all add: collected_def)
  show "\<exists>s'. send_framed hdr env sid p s = Inr (s', True) \<and> trace s' = trace s @ [e] \<and>
        sendQ (m_sessions s' ! i) = drop MAX_SEND_PACKET (sendQ x @ [p]) \<and> isSending (m_sessions s' ! i)"
    unfolding eq s5 and_then_Inr ret by (intro exI conjI, rule refl) (use i5 tr5 sq in simp_all)
qed

end

lemma SendPacket_posts:
  assumes s: "srv ar J c r b s" and r: "\<forall>j. r j < 98" and p: "0 < c p" and lim: "refs (packets s) p < 2 ^ 31 - 1"
    and f: "found s sid"
  defines "i \<equiv> unat (sid AND INDEX_MASK)"
  defines "x \<equiv> m_sessions s ! i"
  assumes idle: "\<not> isSending x"
    and y: "live (packets s) p = Some y0" "Packet_SetNetHeader (ne_rand env (trace s)) y0 = Inr y"
  defines "e \<equiv> EvSend (sock x) (map (\<lambda>q. packet_wire (if q = p then y else the (live (packets s) q)))
    (take MAX_SEND_PACKET (sendQ x @ [p])))"
  shows "ne_wsa env (trace s) e = 0 \<or> ne_wsa env (trace s) e = WSA_IO_PENDING \<Longrightarrow>
      \<exists>s'. SendPacket env sid p s = Inr (s', True) \<and> trace s' = trace s @ [e] \<and>
        sendQ (m_sessions s' ! i) = drop MAX_SEND_PACKET (sendQ x @ [p]) \<and> isSending (m_sessions s' ! i)"
    and "ne_wsa env (trace s) e \<noteq> 0 \<Longrightarrow> ne_wsa env (trace s) e \<noteq> WSA_IO_PENDING \<Longrightarrow>
      ne_wsa env (trace s) e \<noteq> WSAECONNRESET \<Longrightarrow> SendPacket env sid p s = Inl DebugBreak"
  using nh.send_posts[OF s r p lim f, where env = env] idle y unfolding SendPacket_framed e_def i_def x_def by simp_all

section \<open>Completions\<close>

text \<open>The send of a session is pending: its reference is the one that is not known otherwise.\<close>

definition send_pending :: "(nat \<Rightarrow> nat) \<Rightarrow> nat \<Rightarrow> 'a server \<Rightarrow> bool" where
  "send_pending r i s \<longleftrightarrow> i < length (m_sessions s) \<and> isSending (m_sessions s ! i) \<and>
     \<not> released (m_sessions s ! i) \<and> unat (ioCount (m_sessions s ! i)) = r i + 1"

lemma claim_send:
  assumes s: "srv ar J c r b s" and p: "send_pending r i s" and r: "r i < 98"
  shows "srv ar J c (r(i := r i + 1)) b s"
proof -
  have S: "io_inv r b s" and i: "i < length (m_sessions s)" using s p by (auto simp: srv_def send_pending_def)
  have "io_sess (r(i := r i + 1)) b (stacked s) i (m_sessions s ! i)"
    using io_invD(1)[OF S i] p by (auto simp: io_sess_def send_pending_def)
  then have "io_inv (r(i := r i + 1)) b (s\<lparr>m_sessions := (m_sessions s)[i := m_sessions s ! i]\<rparr>)"
    by (rule io_inv_upd[OF S i]) (use r in auto)
  then show ?thesis using s by (simp add: srv_def)
qed

text \<open>The packets in flight are freed; those that stay referenced keep their bytes.\<close>

lemma packet_view_wire: "live pool p \<noteq> None \<Longrightarrow> packet_view pool p = packet_view pool' p \<Longrightarrow>
    packet_wire (the (live pool p)) = packet_wire (the (live pool' p))"
proof -
  assume "live pool p \<noteq> None" "packet_view pool p = packet_view pool' p"
  then obtain x y where xy: "live pool p = Some x" "live pool' p = Some y" "x\<lparr>m_refCount := 0\<rparr> = y\<lparr>m_refCount := 0\<rparr>"
    unfolding packet_view_def by (cases "live pool p"; cases "live pool' p") auto
  then have "packet_wire (x\<lparr>m_refCount := 0\<rparr>) = packet_wire (y\<lparr>m_refCount := 0\<rparr>)" by simp
  then show ?thesis using xy(1,2) by simp
qed

text \<open>
  The state in which a completed send looks at the queue again: what was sent is freed, the flag cleared.
\<close>

lemma SendProc_freed:
  assumes s: "srv ar J c r b s" and p: "send_pending r i s"
  defines "x \<equiv> m_sessions s ! i"
  shows "\<exists>s2. SendProc env i s = and_then (SendPost env i s2)
      (\<lambda>s. and_then (add_io (- 1) i s) (\<lambda>(s, n). if n = 0 then ReleaseSession env i s else Inr s)) \<and>
    net_inv ar c s2 \<and> i < length (m_sessions s2) \<and> trace s2 = trace s \<and>
    m_sessions s2 ! i = x\<lparr>sendingCount := 0, isSending := False\<rparr> \<and>
    (\<forall>p. refs (packets s2) p = refs (packets s) p - count_list (take (nat (sendingCount x)) (sendingPackets x)) p) \<and>
    (\<forall>p\<in>set (sendQ x). packet_wire (the (live (packets s2) p)) = packet_wire (the (live (packets s) p)))"
proof -
  have S: "net_inv ar c s" and i: "i < length (m_sessions s)" using s p by (auto simp: srv_def send_pending_def)
  obtain s1 pool where 1: "FreeSending env i s = Inr s1" "net_inv ar c s1"
    "s1 = s\<lparr>m_sessions := (m_sessions s)[i := x\<lparr>sendingCount := 0\<rparr>], packets := pool\<rparr>"
    "\<forall>p. refs pool p = refs (packets s) p - count_list (take (nat (sendingCount x)) (sendingPackets x)) p"
    "\<forall>p. 0 < refs pool p \<longrightarrow> packet_view pool p = packet_view (packets s) p"
    using FreeSending_inv[OF S i, of env] unfolding x_def by blast
  have i1: "i < length (m_sessions s1)" using 1(3) i by simp
  let ?s2 = "s1\<lparr>m_sessions := (m_sessions s1)[i := (m_sessions s1 ! i)\<lparr>isSending := False\<rparr>]\<rparr>"
  have n2: "net_inv ar c ?s2" by (rule net_inv_session(1)[OF 1(2) i1]) (simp_all add: rx_def queued_def)
  have x2: "m_sessions ?s2 ! i = x\<lparr>sendingCount := 0, isSending := False\<rparr>" using 1(3) i by simp
  have "packet_wire (the (live (packets ?s2) p)) = packet_wire (the (live (packets s) p))" if "p \<in> set (sendQ x)" for p
  proof -
    have "p \<in> set (queued (m_sessions ?s2 ! i))" unfolding x2 using that by (simp add: queued_def)
    then have l: "live (packets ?s2) p \<noteq> None" using queued_live[OF n2, of i p] i1 by simp
    then have "refs pool p \<noteq> 0" using refs_None[OF net_invD(2)[OF n2], of p] 1(3) by simp
    then have "0 < refs pool p" by blast
    then show ?thesis using packet_view_wire[OF l] 1(3,5) by simp
  qed
  moreover have "SendProc env i s = and_then (SendPost env i ?s2)
      (\<lambda>s. and_then (add_io (- 1) i s) (\<lambda>(s, n). if n = 0 then ReleaseSession env i s else Inr s))"
    using 1(1) i1 by (simp add: SendProc_def)
  ultimately show ?thesis using n2 x2 1(3,4) i1 by (intro exI[of _ ?s2]) simp
qed

lemma SendProc_sends:
  assumes s: "srv ar J c r b s" and p: "send_pending r i s" and r: "r i < 98"
  defines "x \<equiv> m_sessions s ! i"
  defines "e \<equiv> EvSend (sock x) (map (\<lambda>p. packet_wire (the (live (packets s) p))) (take MAX_SEND_PACKET (sendQ x)))"
  assumes ok: "if sendQ x = [] then 0 < r i else ne_wsa env (trace s) e = 0 \<or> ne_wsa env (trace s) e = WSA_IO_PENDING"
  shows "\<exists>s'. SendProc env i s = Inr s' \<and> trace s' = trace s @ (if sendQ x = [] then [] else [e]) \<and>
    (isSending (m_sessions s' ! i) \<longleftrightarrow> sendQ x \<noteq> []) \<and> sendQ (m_sessions s' ! i) = drop MAX_SEND_PACKET (sendQ x) \<and>
    sending (m_sessions s' ! i) = Inr (take MAX_SEND_PACKET (sendQ x)) \<and>
    (\<forall>p. refs (packets s') p = refs (packets s) p - count_list (take (nat (sendingCount x)) (sendingPackets x)) p)"
proof -
  obtain s2 where eq: "SendProc env i s = and_then (SendPost env i s2)
      (\<lambda>s. and_then (add_io (- 1) i s) (\<lambda>(s, n). if n = 0 then ReleaseSession env i s else Inr s))"
    and 2: "net_inv ar c s2" "i < length (m_sessions s2)" "trace s2 = trace s"
      "m_sessions s2 ! i = x\<lparr>sendingCount := 0, isSending := False\<rparr>"
    and rf: "\<forall>p. refs (packets s2) p = refs (packets s) p - count_list (take (nat (sendingCount x)) (sendingPackets x)) p"
    and w: "\<forall>p\<in>set (sendQ x). packet_wire (the (live (packets s2) p)) = packet_wire (the (live (packets s) p))"
    using SendProc_freed[OF s p, of env] unfolding x_def by blast
  have io: "unat (ioCount x) = r i + 1" using p by (simp add: send_pending_def x_def)
  then have z: "ioCount x \<noteq> 0" by auto
  show ?thesis
  proof (cases "sendQ x")
    case Nil
    let ?y = "x\<lparr>sendingCount := 0, isSending := False, ioCount := ioCount x + - 1\<rparr>"
    have "unat (ioCount x + - 1) = r i" using unat_dec[of "ioCount x"] io by simp
    then have n: "ioCount x + - 1 \<noteq> 0" using ok Nil by auto
    have sp: "SendPost env i s2 = Inr s2"
      using 2(2,4) Nil by (simp add: SendPost_def list_update_same_conv[THEN iffD2])
    have "SendProc env i s = Inr (s2\<lparr>m_sessions := (m_sessions s2)[i := ?y]\<rparr>)"
      unfolding eq sp and_then_Inr add_io_eq[OF 2(2)] prod.case 2(4) using n by simp
    then show ?thesis using 2 Nil rf by (intro exI[of _ "s2\<lparr>m_sessions := (m_sessions s2)[i := ?y]\<rparr>"]) (simp add: sending_def)
  next
    case (Cons a q)
    let ?z = "x\<lparr>sendingCount := 0, isSending := True\<rparr>"
    let ?s3 = "s2\<lparr>m_sessions := (m_sessions s2)[i := ?z]\<rparr>"
    have n3: "net_inv ar c ?s3" by (rule net_inv_session(1)[OF 2(1,2)]) (simp_all add: 2(4) rx_def queued_def)
    have i3: "i < length (m_sessions ?s3)" "m_sessions ?s3 ! i = ?z" "trace ?s3 = trace s" using 2 by simp_all
    have ev: "EvSend (sock ?z) (map (\<lambda>p. packet_wire (the (live (packets ?s3) p))) (take MAX_SEND_PACKET (sendQ ?z))) = e"
      using w by (auto simp: e_def dest: in_set_takeD)
    obtain arr where arr: "length arr = length (sendingPackets ?z)"
      "take (length (take MAX_SEND_PACKET (sendQ ?z))) arr = take MAX_SEND_PACKET (sendQ ?z)"
      and send: "SendPost_send env i ?s3 =
        (let s2 = emit e (counted i (?s3\<lparr>m_sessions := (m_sessions ?s3)[i := collected arr ?z]\<rparr>)); err = ne_wsa env (trace s) e in
        if err = 0 \<or> err = WSA_IO_PENDING then Inr s2
        else if err \<noteq> WSAECONNRESET then Inl DebugBreak
        else and_then (add_io (- 1) i s2) (\<lambda>(s, n). if n = 0 then ReleaseSession env i s else Inr s))"
      using SendPost_send_eq[OF n3 i3(1), of env] unfolding i3(2,3) ev by blast
    let ?s4 = "emit e (counted i (?s3\<lparr>m_sessions := (m_sessions ?s3)[i := collected arr ?z]\<rparr>))"
    have s4: "SendPost env i s2 = Inr ?s4"
      using 2(2,4) Cons ok send by (simp add: SendPost_def Let_def)
    have i4: "i < length (m_sessions ?s4)" "m_sessions ?s4 ! i = (collected arr ?z)\<lparr>ioCount := ioCount x + 1\<rparr>"
      using 2(2) by (simp_all add: counted_def) (simp add: collected_def)
    let ?y = "(m_sessions ?s4 ! i)\<lparr>ioCount := ioCount x\<rparr>"
    have v: "ioCount (m_sessions ?s4 ! i) + - 1 = ioCount x" unfolding i4(2) by simp
    have "SendProc env i s = Inr (?s4\<lparr>m_sessions := (m_sessions ?s4)[i := ?y]\<rparr>)"
      unfolding eq s4 and_then_Inr add_io_eq[OF i4(1)] prod.case v using z by simp
    moreover have "sending ?y = Inr (take MAX_SEND_PACKET (sendQ x))"
      using arr net_invD(3)[OF 2(1,2)] unfolding i4(2) 2(4) by (simp add: sending_def collected_def sess_ok_def)
    moreover have "m_sessions (?s4\<lparr>m_sessions := (m_sessions ?s4)[i := ?y]\<rparr>) ! i = ?y" using i4(1) by simp
    moreover have "isSending ?y" "sendQ ?y = drop MAX_SEND_PACKET (sendQ x)" unfolding i4(2) by (simp_all add: collected_def)
    moreover have "trace ?s4 = trace s @ [e]" using 2(3) by (simp add: emit_def)
    ultimately show ?thesis using Cons rf by (intro exI[of _ "?s4\<lparr>m_sessions := (m_sessions ?s4)[i := ?y]\<rparr>"]) simp
  qed
qed

text \<open>A released session is back on the stack of free indices.\<close>

lemma ReleaseSession_stacks:
  "ReleaseSession env i s = Inr s' \<Longrightarrow> i < length (m_sessions s) \<Longrightarrow> ioCount (m_sessions s ! i) = 0 \<Longrightarrow>
    of_nat i \<in> set (m_indexStack s')"
  by (auto simp: ReleaseSession_def Let_def elim!: and_then_InrE)

lemma SendProc_last:
  assumes s: "srv ar J c r b s" and p: "send_pending r i s" and z: "sendQ (m_sessions s ! i) = []" "r i = 0"
    and e: "SendProc env i s = Inr s'"
  shows "of_nat i \<in> set (m_indexStack s')"
proof -
  let ?x = "m_sessions s ! i"
  obtain s2 where eq: "SendProc env i s = and_then (SendPost env i s2)
      (\<lambda>s. and_then (add_io (- 1) i s) (\<lambda>(s, n). if n = 0 then ReleaseSession env i s else Inr s))"
    and 2: "i < length (m_sessions s2)" "m_sessions s2 ! i = ?x\<lparr>sendingCount := 0, isSending := False\<rparr>"
    using SendProc_freed[OF s p, of env] by blast
  let ?y = "?x\<lparr>sendingCount := 0, isSending := False, ioCount := ioCount ?x + - 1\<rparr>"
  have "unat (ioCount ?x) = 1" using p z(2) by (simp add: send_pending_def)
  then have n: "ioCount ?x + - 1 = 0" using unat_dec[of "ioCount ?x"] by (simp add: unat_eq_0)
  have sp: "SendPost env i s2 = Inr s2"
    using 2 z(1) by (simp add: SendPost_def list_update_same_conv[THEN iffD2])
  have "ReleaseSession env i (s2\<lparr>m_sessions := (m_sessions s2)[i := ?y]\<rparr>) = Inr s'"
    using e unfolding eq sp and_then_Inr add_io_eq[OF 2(1)] prod.case 2(2) using n by simp
  from ReleaseSession_stacks[OF this] show ?thesis using 2 n by simp
qed

context net_release begin

text \<open>A failed completion, or one of length zero, drops the reference of its request.\<close>

lemma Worker_failed:
  assumes s: "srv ar J c r b s" and k: "c_overlapped k = Some (i, type)" "\<not> c_retval k \<or> c_transferred k = 0"
    and r: "case type of RECV \<Rightarrow> i < length (m_sessions s) \<and> 0 < r i \<and> r' = r(i := r i - 1)
      | SEND \<Rightarrow> send_pending r i s \<and> r i < 98 \<and> r' = r"
  shows "safe_if B (\<lambda>(s', more). kept ar J c r' b s s' \<and> more) (Worker_step env k s)"
proof -
  have "safe_if B (kept ar J c r' b s) (ReturnSession env i s)"
  proof (cases type)
    case RECV
    then show ?thesis using ReturnSession_safe[OF s, of i] r by simp
  next
    case SEND
    then have p: "send_pending r i s" "r i < 98" "r' = r" using r by simp_all
    have "i < length (m_sessions s)" using p(1) by (simp add: send_pending_def)
    then show ?thesis using ReturnSession_safe[OF claim_send[OF s p(1,2)], of i] p(3) by simp
  qed
  then have "safe_if B (\<lambda>(s', more). kept ar J c r' b s s' \<and> more)
      (and_then (ReturnSession env i s) (\<lambda>s. Inr (s, True)))"
    by (rule safe_and_then) simp
  then show ?thesis using k by (simp add: Worker_step_def)
qed

text \<open>A completed send keeps everything accounted for; with nothing left to send and no other
  reference the session is released.\<close>

lemma Worker_sent:
  assumes s: "srv ar J c r b s" and k: "c_overlapped k = Some (i, SEND)" "c_retval k" "c_transferred k \<noteq> 0"
    and p: "send_pending r i s" "r i < 98"
  shows "safe_if B (\<lambda>(s', more). kept ar J c r b s s' \<and> more \<and>
      (sendQ (m_sessions s ! i) = [] \<and> r i = 0 \<longrightarrow> of_nat i \<in> set (m_indexStack s'))) (Worker_step env k s)"
proof -
  have "safe_if B (kept ar J c r b s) (SendProc env i s)"
    using p by (intro SendProc_safe[OF s]) (auto simp: send_pending_def)
  then have "safe_if B (\<lambda>s'. kept ar J c r b s s' \<and>
      (sendQ (m_sessions s ! i) = [] \<and> r i = 0 \<longrightarrow> of_nat i \<in> set (m_indexStack s'))) (SendProc env i s)"
    using SendProc_last[OF s p(1), of env] by (auto simp: safe_if_def split: sum.splits)
  then have "safe_if B (\<lambda>(s', more). kept ar J c r b s s' \<and> more \<and>
      (sendQ (m_sessions s ! i) = [] \<and> r i = 0 \<longrightarrow> of_nat i \<in> set (m_indexStack s')))
      (and_then (SendProc env i s) (\<lambda>s. Inr (s, True)))"
    by (rule safe_and_then) simp
  then show ?thesis using k by (simp add: Worker_step_def)
qed

end

context net_app begin

lemma Worker_received:
  assumes s: "srv ar (J L) c r b s" and i: "i < length (m_sessions s)" and r: "0 < r i" "\<forall>j. r j < 50"
    and n: "0 < length bs" "int (length bs) \<le> RingBuffer_GetFreeSize (recvQ (m_sessions s ! i))"
    and p: "net_parse (ring_contents (recvQ (m_sessions s ! i)) @ bs) = (pls, rest, e)" "e \<noteq> TooLong"
    and k: "c_overlapped k = Some (i, RECV)" "c_retval k" "c_transferred k = of_nat (length bs)"
  shows "safe (\<lambda>(s', more). recv_post ar (J (L @ map (Pair (sessionID (m_sessions s ! i))) pls)) c r b i rest e s' \<and> more)
    (Worker_step env k (arrived i bs s))"
proof -
  have "sess_ok (m_sessions s ! i)" using net_invD(3)[of ar c s i] s i by (auto simp: srv_def)
  then have "length bs < 2 ^ 32" using free_small n(2) by fastforce
  then have "(of_nat (length bs) :: u32) \<noteq> of_nat 0" using n(1) by (subst of_nat_u32_inj) auto
  then have "c_transferred k \<noteq> 0" using k(3) by simp
  moreover have "safe (\<lambda>(s', more). recv_post ar (J (L @ map (Pair (sessionID (m_sessions s ! i))) pls)) c r b i rest e s' \<and> more)
    (and_then (RecvProc env i (of_nat (length bs)) (arrived i bs s)) (\<lambda>s. Inr (s, True)))"
    by (rule safe_and_then[OF RecvProc_safe[OF s i r n(2) p]]) simp
  ultimately show ?thesis using k by (simp add: Worker_step_def)
qed

end

section \<open>Start and stop\<close>

lemma push_indices_eq: "push_indices n st = map of_nat [0..<n] @ st"
  by (induction n arbitrary: st) simp_all

lemma start_workers_sessions:
  "start_workers env n s = (s', ok) \<Longrightarrow> m_sessions s' = m_sessions s \<and>
     m_maxSessionCount s' = m_maxSessionCount s \<and> packets s' = packets s \<and> app s' = app s \<and>
     m_indexStack s' = m_indexStack s \<and> m_sessionCount s' = m_sessionCount s \<and> m_isRunning s' = m_isRunning s"
  by (induction n arbitrary: s) (auto simp: syscall_def Let_def split: if_splits)

text \<open>The state of a server that has started.\<close>

lemma Start_state:
  assumes "Start env lsock mem ipAddr portNum workers active nagle n s = (s', True)"
  shows "0 < unat n \<and> unat n \<le> 65536 \<and> m_sessions s' = map (\<lambda>i. Session_default (mem i)) [0..<unat n] \<and>
    m_maxSessionCount s' = n \<and> packets s' = packets s \<and> app s' = app s \<and>
    m_indexStack s' = map of_nat [0..<unat n] @ m_indexStack s \<and> m_sessionCount s' = m_sessionCount s \<and>
    m_isRunning s'"
proof -
  have 1: "n \<noteq> 0 \<and> \<not> 65536 < uint n \<and> m_sessions s' = map (\<lambda>i. Session_default (mem i)) [0..<unat n] \<and>
    m_maxSessionCount s' = n \<and> packets s' = packets s \<and> app s' = app s \<and>
    m_indexStack s' = map of_nat [0..<unat n] @ m_indexStack s \<and> m_sessionCount s' = m_sessionCount s \<and>
    m_isRunning s'"
    using assms
    by (auto simp: Start_def syscall_def Let_def push_indices_eq INDEX_MASK_def
        split: if_splits dest!: start_workers_sessions)
  have "unat n = nat (uint n)" by simp
  then have "unat n \<le> 65536" using 1 by linarith
  with 1 show ?thesis by (simp add: unat_gt_0)
qed

lemma Session_default_ok: "length mem = 2002 \<Longrightarrow> sess_ok (Session_default mem)"
  "queued (Session_default mem) = []" "released (Session_default mem)" "\<not> isSending (Session_default mem)"
  "sendingCount (Session_default mem) = 0"
  using sized_empty(1)[of 2001 mem]
  by (auto simp: sess_ok_def Session_default_def RECV_BUFFER_SIZE_def queued_def released_def)
    (simp add: RingBuffer_sized_def)

text \<open>A first start establishes the invariant.\<close>

lemma Start_srv:
  assumes st: "Start env lsock mem ipAddr portNum workers active nagle n s = (s', True)"
    and mem: "\<forall>i. length (mem i) = 2002"
    and s: "m_indexStack s = []" "m_sessionCount s = 0" "pkt_inv (packets s)" "J (app s)"
      "\<forall>p. c p + ar (app s) p = refs (packets s) p"
  shows "srv ar J c (\<lambda>_. 0) {} s'"
proof -
  note S = Start_state[OF st]
  define N where "N = unat n"
  have N: "N \<le> 65536" using S by (simp add: N_def)
  have ms: "m_sessions s' = map (\<lambda>i. Session_default (mem i)) [0..<N]" using S by (simp add: N_def)
  have D: "sess_ok (Session_default (mem i))" for i using Session_default_ok(1) mem by blast
  have un: "unat (of_nat i :: u32) = i" if "i < N" for i
    using that N by (simp add: unat_of_nat take_bit_nat_eq_self)
  have stk: "stacked s' = {..<N}"
  proof -
    have "stacked s' = (\<lambda>i. unat (of_nat i :: u32)) ` {..<N}"
      using S s(1) by (auto simp: stacked_def N_def image_image)
    also have "\<dots> = {..<N}" using un by (auto simp: image_iff)
    finally show ?thesis .
  qed
  have held0: "held s' p = 0" for p by (simp add: held_def ms Session_default_ok)
  have "net_inv ar c s'" using S s D held0 by (auto simp: net_inv_def ms N_def)
  moreover have "io_inv (\<lambda>_. 0) {} s'"
  proof -
    have "distinct (m_indexStack s')" using S s(1) un
      by (auto simp: distinct_map N_def[symmetric] inj_on_def) (metis un)
    moreover have "live_set s' = {}" by (auto simp: live_set_def ms Session_default_ok)
    moreover have "io_sess (\<lambda>_. 0) {} {..<N} i (Session_default (mem i))" if "i < N" for i
      using that by (simp add: io_sess_def Session_default_ok)
    moreover have "m_sessionCount s' = 0" using S s(2) by simp
    ultimately show ?thesis unfolding io_inv_def stk ms using N by simp
  qed
  ultimately show ?thesis using S s(4) by (simp add: srv_def)
qed

text \<open>Where every call succeeds, so does the start.\<close>

lemma start_workers_ok: "(\<And>tr e. ne_wsa env tr e = 0) \<Longrightarrow> \<exists>s'. start_workers env n s = (s', True)"
  by (induction n arbitrary: s) (simp_all add: syscall_def)

lemma Start_succeeds:
  assumes "\<And>tr e. ne_wsa env tr e = 0" and "lsock \<noteq> INVALID_SOCKET" and "0 < unat n" "unat n \<le> 65536"
  shows "\<exists>s'. Start env lsock mem ipAddr portNum workers active nagle n s = (s', True)"
proof -
  have "n \<noteq> 0" using assms(3) unat_gt_0 by blast
  moreover have "uint n = int (unat n)" "uint INDEX_MASK + 1 = 65536" by (simp_all add: INDEX_MASK_def)
  then have "\<not> uint n > uint INDEX_MASK + 1" using assms(4) by linarith
  ultimately show ?thesis using assms(2) start_workers_ok[OF assms(1), where n = "unat workers"]
    by (simp add: Start_def syscall_def assms(1) Let_def)
qed

text \<open>\<open>Stop\<close> leaves the index stack as it is, so a second start pushes every index again.\<close>

lemma not_distinct_restart:
  assumes "Start env lsock mem ipAddr portNum workers active nagle n s = (s', True)"
    and "index \<in> set (m_indexStack s)" "unat index < unat n"
  shows "\<not> distinct (m_indexStack s')"
proof -
  have "index = of_nat (unat index)" by simp
  then have "index \<in> set (map of_nat [0..<unat n])" using assms(3) by (auto intro!: image_eqI[of _ _ "unat index"])
  then show ?thesis using Start_state[OF assms(1)] assms(2) by auto
qed

text \<open>\<open>Stop\<close>. Draining a queue is freeing its packets and emptying it.\<close>

lemma drain_eq:
  assumes "i < length (m_sessions s)" and "sendQ (m_sessions s ! i) = ps"
  shows "drain_sendQ env (length ps) i s = and_then (for_each (FreePacket env) ps s)
    (\<lambda>s'. Inr (s'\<lparr>m_sessions := (m_sessions s)[i := (m_sessions s ! i)\<lparr>sendQ := []\<rparr>]\<rparr>))"
  using assms
proof (induction ps arbitrary: s)
  case Nil
  have "(m_sessions s ! i)\<lparr>sendQ := []\<rparr> = m_sessions s ! i" using Nil(2) by (cases "m_sessions s ! i") simp
  then show ?case using Nil(1) by simp
next
  case (Cons p ps)
  let ?s1 = "s\<lparr>m_sessions := (m_sessions s)[i := (m_sessions s ! i)\<lparr>sendQ := ps\<rparr>]\<rparr>"
  show ?case
  proof (cases "Packet_Free (ne_tid env) p (packets s)")
    case (Inl e)
    then show ?thesis using Cons.prems by (simp add: FreePacket_eq[of env p])
  next
    case (Inr pool)
    let ?s2 = "?s1\<lparr>packets := pool\<rparr>"
    have "i < length (m_sessions ?s2)" "sendQ (m_sessions ?s2 ! i) = ps" using Cons.prems by simp_all
    note IH = Cons.IH[OF this]
    have "for_each (FreePacket env) ps ?s2 = and_then (for_each (FreePacket env) ps (s\<lparr>packets := pool\<rparr>))
        (\<lambda>s'. Inr (s'\<lparr>m_sessions := m_sessions ?s2\<rparr>))"
      by (cases s, cases "for_each (Packet_Free (ne_tid env)) ps pool") (simp_all add: for_each_FreePacket)
    then show ?thesis using Cons.prems Inr IH
      by (simp add: FreePacket_eq[of env p] and_then_assoc)
  qed
qed

definition owed :: "session list \<Rightarrow> nat list \<Rightarrow> u64 \<Rightarrow> nat" where
  "owed xs js p = sum_list (map (\<lambda>j. count_list (queued (xs ! j)) p) js)"

lemma stop_session_ok:
  assumes i: "i < length (m_sessions s)" and x: "sess_ok (m_sessions s ! i)"
    and rel: "\<not> released (m_sessions s ! i) \<longrightarrow> unat (ioCount (m_sessions s ! i)) < 2 ^ 31"
      "released (m_sessions s ! i) \<longrightarrow> queued (m_sessions s ! i) = []"
    and P: "pkt_inv (packets s)" "\<And>p. count_list (queued (m_sessions s ! i)) p \<le> refs (packets s) p"
  shows "\<exists>s'. stop_session env i s = Inr s' \<and> pkt_inv (packets s') \<and>
    (\<forall>p. refs (packets s') p + count_list (queued (m_sessions s ! i)) p = refs (packets s) p) \<and>
    (\<exists>x pool tr. s' = s\<lparr>m_sessions := (m_sessions s)[i := x], packets := pool, trace := tr\<rparr>)"
proof (cases "released (m_sessions s ! i)")
  case True
  then have "ioCount (m_sessions s ! i) AND RELEASE_FLAG \<noteq> 0" by (simp add: released_def RELEASE_FLAG_def)
  moreover have "s = s\<lparr>m_sessions := (m_sessions s)[i := m_sessions s ! i], packets := packets s, trace := trace s\<rparr>" by simp
  ultimately show ?thesis using i P(1) rel(2) True
    by (intro exI[of _ s] conjI exI[of _ "m_sessions s ! i"] exI[of _ "packets s"] exI[of _ "trace s"])
      (simp_all add: stop_session_def)
next
  case False
  let ?x = "m_sessions s ! i"
  let ?ps = "take (nat (sendingCount ?x)) (sendingPackets ?x)"
  let ?s1 = "emit (EvClose (sock ?x)) s"
  have fl: "ioCount ?x AND RELEASE_FLAG = 0" using no_flag rel(1) False by blast
  have sd: "sending ?x = Inr ?ps" using x by (simp add: sending_def sess_ok_def MAX_SEND_PACKET_def)
  have c: "count_list ?ps p + count_list (sendQ ?x) p \<le> refs (packets s) p" for p
    using P(2)[of p] by (simp add: queued_def)
  have "count_list ?ps p \<le> refs (packets ?s1) p" for p using c[of p] by simp
  from free_packets[of ?s1 ?ps env] this P(1) obtain pool where
    1: "for_each (FreePacket env) ?ps ?s1 = Inr (?s1\<lparr>packets := pool\<rparr>)" "pkt_inv pool"
      "\<forall>p. refs pool p = refs (packets s) p - count_list ?ps p" by auto
  let ?s2 = "?s1\<lparr>packets := pool\<rparr>"
  have c2: "count_list (sendQ ?x) p \<le> refs (packets ?s2) p" for p
    using c[of p] 1(3)[rule_format, of p] by simp
  obtain pool' where
    2: "for_each (FreePacket env) (sendQ ?x) ?s2 = Inr (?s2\<lparr>packets := pool'\<rparr>)" "pkt_inv pool'"
      "\<forall>p. refs pool' p = refs (packets ?s2) p - count_list (sendQ ?x) p"
    using free_packets[of ?s2 "sendQ ?x" env] c2 1(2) by auto
  have "drain_sendQ env (length (sendQ ?x)) i ?s2 = Inr (?s2\<lparr>packets := pool',
      m_sessions := (m_sessions s)[i := ?x\<lparr>sendQ := []\<rparr>]\<rparr>)"
    using drain_eq[of i ?s2 "sendQ ?x" env] i 2(1) by simp
  then have 3: "stop_session env i s = Inr (?s2\<lparr>packets := pool', m_sessions := (m_sessions s)[i := ?x\<lparr>sendQ := []\<rparr>]\<rparr>)"
    using i fl sd 1(1) by (simp add: stop_session_def)
  let ?s3 = "s\<lparr>m_sessions := (m_sessions s)[i := ?x\<lparr>sendQ := []\<rparr>], packets := pool', trace := trace s @ [EvClose (sock ?x)]\<rparr>"
  have "?s2\<lparr>packets := pool', m_sessions := (m_sessions s)[i := ?x\<lparr>sendQ := []\<rparr>]\<rparr> = ?s3"
    by (cases s) (simp add: emit_def)
  with 3 have "stop_session env i s = Inr ?s3" by simp
  moreover have "refs (packets ?s3) p + count_list (queued ?x) p = refs (packets s) p" for p
    using c[of p] 1(3)[rule_format, of p] 2(3)[rule_format, of p] by (simp add: queued_def)
  moreover have "pkt_inv (packets ?s3)" using 2(2) by simp
  ultimately show ?thesis by blast
qed

lemma stop_sessions_ok:
  assumes "distinct js" and "\<forall>j\<in>set js. j < length (m_sessions s) \<and> sess_ok (m_sessions s ! j) \<and>
      (\<not> released (m_sessions s ! j) \<longrightarrow> unat (ioCount (m_sessions s ! j)) < 2 ^ 31) \<and>
      (released (m_sessions s ! j) \<longrightarrow> queued (m_sessions s ! j) = [])"
    and "pkt_inv (packets s)" and "\<forall>p. owed (m_sessions s) js p \<le> refs (packets s) p"
  shows "\<exists>s'. for_each (stop_session env) js s = Inr s' \<and> pkt_inv (packets s') \<and>
    (\<forall>p. refs (packets s') p + owed (m_sessions s) js p = refs (packets s) p) \<and>
    (\<exists>xs pool tr. s' = s\<lparr>m_sessions := xs, packets := pool, trace := tr\<rparr>)"
  using assms
proof (induction js arbitrary: s)
  case Nil
  then show ?case
    by (intro exI[of _ s] conjI exI[of _ "m_sessions s"] exI[of _ "packets s"] exI[of _ "trace s"])
      (simp_all add: owed_def)
next
  case (Cons j js)
  have j: "j < length (m_sessions s)" "sess_ok (m_sessions s ! j)"
    "\<not> released (m_sessions s ! j) \<longrightarrow> unat (ioCount (m_sessions s ! j)) < 2 ^ 31"
    "released (m_sessions s ! j) \<longrightarrow> queued (m_sessions s ! j) = []" using Cons.prems(2) by simp_all
  have ow: "count_list (queued (m_sessions s ! j)) p + owed (m_sessions s) js p \<le> refs (packets s) p" for p
    using Cons.prems(4)[rule_format, of p] by (simp add: owed_def)
  have "count_list (queued (m_sessions s ! j)) p \<le> refs (packets s) p" for p using ow[of p] by linarith
  from stop_session_ok[OF j Cons.prems(3) this] obtain x pool tr where
    1: "stop_session env j s = Inr (s\<lparr>m_sessions := (m_sessions s)[j := x], packets := pool, trace := tr\<rparr>)"
      "pkt_inv pool" "\<And>p. refs pool p + count_list (queued (m_sessions s ! j)) p = refs (packets s) p"
    by fastforce
  let ?s1 = "s\<lparr>m_sessions := (m_sessions s)[j := x], packets := pool, trace := tr\<rparr>"
  have nth: "m_sessions ?s1 ! k = m_sessions s ! k" if "k \<in> set js" for k
  proof -
    have "j \<noteq> k" using that Cons.prems(1) by auto
    then show ?thesis by simp
  qed
  then have owed1: "owed (m_sessions ?s1) js p = owed (m_sessions s) js p" for p
    unfolding owed_def by (metis (mono_tags, lifting) map_cong)
  have "owed (m_sessions ?s1) js p \<le> refs (packets ?s1) p" for p
    unfolding owed1 using ow[of p] 1(3)[of p] by simp
  moreover have "\<forall>k\<in>set js. k < length (m_sessions ?s1) \<and> sess_ok (m_sessions ?s1 ! k) \<and>
      (\<not> released (m_sessions ?s1 ! k) \<longrightarrow> unat (ioCount (m_sessions ?s1 ! k)) < 2 ^ 31) \<and>
      (released (m_sessions ?s1 ! k) \<longrightarrow> queued (m_sessions ?s1 ! k) = [])"
    using Cons.prems(2) nth by simp
  ultimately obtain s' xs pool' tr' where 2: "for_each (stop_session env) js ?s1 = Inr s'" "pkt_inv (packets s')"
      "\<And>p. refs (packets s') p + owed (m_sessions ?s1) js p = refs (packets ?s1) p"
      "s' = ?s1\<lparr>m_sessions := xs, packets := pool', trace := tr'\<rparr>"
    using Cons.IH[of ?s1] Cons.prems(1) 1(2) by auto
  have "refs (packets s') p + owed (m_sessions s) (j # js) p = refs (packets s) p" for p
    using 2(3)[of p] 1(3)[of p] unfolding owed1 by (simp add: owed_def)
  moreover have "s' = s\<lparr>m_sessions := xs, packets := pool', trace := tr'\<rparr>" using 2(4) by simp
  ultimately show ?case using 1(1) 2(1,2) by (intro exI[of _ s']) auto
qed

lemma Stop_ok:
  assumes s: "srv ar J c r b s"
  shows "\<exists>s'. Stop env s = Inr s' \<and> m_sessions s' = [] \<and> m_isRunning s' = False \<and> m_threads s' = 0 \<and>
    pkt_inv (packets s') \<and> (\<forall>p. refs (packets s') p = c p + ar (app s') p) \<and> app s' = app s \<and>
    m_indexStack s' = m_indexStack s \<and> m_sessionCount s' = m_sessionCount s"
proof -
  have S: "net_inv ar c s" "io_inv r b s" using s by (auto simp: srv_def)
  let ?s1 = "s\<lparr>m_isRunning := False\<rparr>"
  let ?s2 = "if m_listenSock ?s1 \<noteq> INVALID_SOCKET
    then (emit (EvClose (m_listenSock ?s1)) ?s1)\<lparr>m_listenSock := INVALID_SOCKET\<rparr> else ?s1"
  let ?s3 = "?s2\<lparr>trace := trace ?s2 @ replicate (m_threads ?s2) EvPostQuit\<rparr>"
  define s4 where "s4 = (emit (EvJoin (m_threads ?s3)) ?s3)\<lparr>m_threads := 0\<rparr>"
  have 4: "m_sessions s4 = m_sessions s" "packets s4 = packets s" "app s4 = app s" "m_isRunning s4 = False"
    "m_indexStack s4 = m_indexStack s" "m_sessionCount s4 = m_sessionCount s" "m_threads s4 = 0"
    "m_maxSessionCount s4 = m_maxSessionCount s"
    by (simp_all add: s4_def emit_def)
  let ?js = "[0..<unat (m_maxSessionCount s4)]"
  have N: "unat (m_maxSessionCount s4) = length (m_sessions s4)" using net_invD(1)[OF S(1)] 4 by simp
  have ow: "owed (m_sessions s4) ?js p = held s p" for p
    unfolding N unfolding owed_def held_def 4 by (rule arg_cong[where f = sum_list]) (auto intro: nth_equalityI)
  have "\<exists>s5. for_each (stop_session env) ?js s4 = Inr s5 \<and> pkt_inv (packets s5) \<and>
    (\<forall>p. refs (packets s5) p + owed (m_sessions s4) ?js p = refs (packets s4) p) \<and>
    (\<exists>xs pool tr. s5 = s4\<lparr>m_sessions := xs, packets := pool, trace := tr\<rparr>)"
  proof (rule stop_sessions_ok)
    show "\<forall>j\<in>set ?js. j < length (m_sessions s4) \<and> sess_ok (m_sessions s4 ! j) \<and>
      (\<not> released (m_sessions s4 ! j) \<longrightarrow> unat (ioCount (m_sessions s4 ! j)) < 2 ^ 31) \<and>
      (released (m_sessions s4 ! j) \<longrightarrow> queued (m_sessions s4 ! j) = [])"
    proof
      fix j assume "j \<in> set ?js"
      then have j: "j < length (m_sessions s)" using N 4(1) by simp
      show "j < length (m_sessions s4) \<and> sess_ok (m_sessions s4 ! j) \<and>
        (\<not> released (m_sessions s4 ! j) \<longrightarrow> unat (ioCount (m_sessions s4 ! j)) < 2 ^ 31) \<and>
        (released (m_sessions s4 ! j) \<longrightarrow> queued (m_sessions s4 ! j) = [])"
        unfolding 4 using j net_invD(3)[OF S(1) j] io_invD(1)[OF S(2) j] io_live(4)[OF S(2) j]
        by (auto simp: io_sess_def intro: less_trans)
    qed
    show "\<forall>p. owed (m_sessions s4) ?js p \<le> refs (packets s4) p"
    proof
      fix p show "owed (m_sessions s4) ?js p \<le> refs (packets s4) p"
        unfolding ow unfolding 4 using net_invD(4)[OF S(1), of p] by simp
    qed
  qed (use net_invD(2)[OF S(1)] 4 in simp_all)
  then obtain s5 xs pool tr where 50: "for_each (stop_session env) ?js s4 = Inr s5" "pkt_inv (packets s5)"
    "\<forall>p. refs (packets s5) p + owed (m_sessions s4) ?js p = refs (packets s4) p"
    "s5 = s4\<lparr>m_sessions := xs, packets := pool, trace := tr\<rparr>" by blast
  have 5: "for_each (stop_session env) ?js s4 = Inr (s4\<lparr>m_sessions := xs, packets := pool, trace := tr\<rparr>)"
    using 50(1,4) by simp
  have pool: "pkt_inv pool" "\<And>p. refs pool p + held s p = refs (packets s) p"
    using 50(2,3) unfolding 50(4) ow by (simp_all add: 4)
  let ?s6 = "if m_sessions s4 \<noteq> [] then s4\<lparr>packets := pool, trace := tr, m_sessions := []\<rparr> else s4"
  have A: "and_then (if m_sessions s4 \<noteq> [] then and_then (for_each (stop_session env) ?js s4)
      (\<lambda>s. Inr (s\<lparr>m_sessions := []\<rparr>)) else Inr s4) f = f ?s6" for f
    unfolding 5 by simp
  have eq: "Stop env s = Inr (emit EvCleanup (if m_hcp ?s6 then (emit EvClosePort ?s6)\<lparr>m_hcp := False\<rparr> else ?s6))"
    unfolding Stop_def Let_def s4_def[symmetric, unfolded Let_def] A ..
  have "refs (packets ?s6) p = c p + ar (app s) p" for p
    using pool(2)[of p] net_invD(4)[OF S(1), of p] 4 by (auto simp: held_def)
  moreover have "pkt_inv (packets ?s6)" using pool(1) net_invD(2)[OF S(1)] 4 by simp
  ultimately show ?thesis unfolding eq using 4 by (simp add: emit_def)
qed

end
