(* ===== verification/NetSample.thy ===== *)
theory NetSample
  imports NetService
begin

text \<open>
  Concrete servers for the witnesses of both kinds of server: one that has been started with two
  sessions on a network whose calls all succeed, and the same with its first session live.
\<close>

definition all_calls_succeed :: "'a net_env \<Rightarrow> bool" where
  "all_calls_succeed env \<longleftrightarrow> (\<forall>tr e. ne_wsa env tr e = 0)"

definition started_server :: "'a net_env \<Rightarrow> 'a \<Rightarrow> 'a server" where
  "started_server env a = fst (Start env 4 (\<lambda>_. replicate 2002 0) ''127.0.0.1'' 6000 2 2 True 2
     (server_default sample_packets a))"

definition live_server :: "'a net_env \<Rightarrow> 'a \<Rightarrow> 'a server" where
  "live_server env a = (let s = (started_server env a)\<lparr>m_indexStack := [1]\<rparr> in
     s\<lparr>m_sessions := (m_sessions s)[0 := (Session_Init 5 0x10000 ''10.0.0.1'' 4000 (m_sessions s ! 0))\<lparr>ioCount := 1\<rparr>],
       m_sessionCount := m_sessionCount s + 1\<rparr>)"

abbreviation no_refs :: "u64 \<Rightarrow> nat" where "no_refs \<equiv> (\<lambda>_. 0)"

text \<open>The known reference of the live session is that of its receive.\<close>

definition one_recv :: "nat \<Rightarrow> nat" where
  "one_recv j = (if j = 0 then 1 else 0)"

lemma one_recv: "0 < one_recv 0" "\<forall>j. one_recv j < 48" "\<forall>j. one_recv j < 50" "\<forall>j. one_recv j < 98"
  by (simp_all add: one_recv_def)

lemma Start_sample:
  assumes "all_calls_succeed env"
  shows "Start env 4 (\<lambda>_. replicate 2002 0) ''127.0.0.1'' 6000 2 2 True 2 (server_default sample_packets a) =
    (started_server env a, True)"
proof -
  have w: "ne_wsa env tr e = 0" for tr e using assms by (simp add: all_calls_succeed_def)
  have "\<exists>s'. Start env 4 (\<lambda>_. replicate 2002 0) ''127.0.0.1'' 6000 2 2 True 2
      (server_default sample_packets a) = (s', True)"
    by (rule Start_succeeds[OF w]) (simp_all add: INVALID_SOCKET_def)
  then show ?thesis by (auto simp: started_server_def)
qed

lemma started_server:
  assumes "all_calls_succeed env"
  shows "m_indexStack (started_server env a) = [0, 1]" "length (m_sessions (started_server env a)) = 2"
    "app (started_server env a) = a" "packets (started_server env a) = sample_packets"
    "m_sessions (started_server env a) ! 0 = Session_default (replicate 2002 0)"
  using Start_state[OF Start_sample[OF assms]] by (simp_all add: server_default_def upt_conv_Cons)

lemma started_server_srv:
  assumes "all_calls_succeed env" and "J a" "\<forall>p. ar a p = 0"
  shows "srv ar J no_refs (\<lambda>_. 0) {} (started_server env a)"
  by (rule Start_srv[OF Start_sample[OF assms(1)]])
    (simp_all add: server_default_def sample_packets_inv refs_def assms)

lemma live_server_srv:
  assumes "all_calls_succeed env" and "J a" "\<forall>p. ar a p = 0"
  shows "srv ar J no_refs one_recv {} (live_server env a)"
proof -
  have r: "one_recv = (\<lambda>_. 0)(0 := 1)" by (auto simp: one_recv_def)
  note P = pop_index_srv[where ar = ar and J = J, OF started_server_srv[where ar = ar and J = J, OF assms] started_server(1)[OF assms(1)]]
  have s: "srv ar J no_refs (\<lambda>_. 0) (insert 0 {}) ((started_server env a)\<lparr>m_indexStack := [1]\<rparr>)"
    using P(3) by simp
  have "0 < length (m_sessions ((started_server env a)\<lparr>m_indexStack := [1]\<rparr>))" by (simp add: started_server[OF assms(1)])
  moreover have "(0x10000 :: u64) AND INDEX_MASK = of_nat 0" by (simp add: INDEX_MASK_def)
  ultimately show ?thesis unfolding live_server_def Let_def r
    by (intro accept_session_srv(1)[OF s _ _ refl]) simp_all
qed

lemma live_server_session:
  assumes "all_calls_succeed env"
  shows "length (m_sessions (live_server env a)) = 2" "packets (live_server env a) = sample_packets"
    "sessionID (m_sessions (live_server env a) ! 0) = 0x10000" "found (live_server env a) 0x10000"
    "isSending (m_sessions (live_server env a) ! 0) = False" "ioCount (m_sessions (live_server env a) ! 0) = 1"
    "sendQ (m_sessions (live_server env a) ! 0) = []" "sock (m_sessions (live_server env a) ! 0) = 5"
    "ring_contents (recvQ (m_sessions (live_server env a) ! 0)) = []"
    "RingBuffer_GetFreeSize (recvQ (m_sessions (live_server env a) ! 0)) = 2001"
    "m_indexStack (live_server env a) = [1]" "app (live_server env a) = a" "m_maxSessionCount (live_server env a) = 2"
proof -
  note st = started_server[OF assms]
  show "length (m_sessions (live_server env a)) = 2" "packets (live_server env a) = sample_packets"
    "sessionID (m_sessions (live_server env a) ! 0) = 0x10000" "found (live_server env a) 0x10000"
    "isSending (m_sessions (live_server env a) ! 0) = False" "ioCount (m_sessions (live_server env a) ! 0) = 1"
    "sock (m_sessions (live_server env a) ! 0) = 5"
    "m_indexStack (live_server env a) = [1]" "app (live_server env a) = a"
    by (simp_all add: live_server_def Let_def st(1-4) Session_Init_def found_def INDEX_MASK_def
        released_def RELEASE_FLAG_def)
  show "sendQ (m_sessions (live_server env a) ! 0) = []"
    by (simp add: live_server_def Let_def st(1-4) Session_Init_def st(5)) (simp add: Session_default_def)
  show "m_maxSessionCount (live_server env a) = 2"
    using Start_state[OF Start_sample[OF assms]] by (simp add: live_server_def Let_def)
  have q: "recvQ (m_sessions (live_server env a) ! 0) = RingBuffer_ClearBuffer (RingBuffer_sized (replicate 2002 0) 2001)"
    by (simp add: live_server_def Let_def st(1-4) Session_Init_def st(5))
      (simp add: Session_default_def RECV_BUFFER_SIZE_def)
  have r: "ring_inv (RingBuffer_sized (replicate 2002 0) 2001)"
    by (rule sized_empty) simp_all
  show "ring_contents (recvQ (m_sessions (live_server env a) ! 0)) = []" unfolding q by (rule ClearBuffer_empty(2)[OF r])
  show "RingBuffer_GetFreeSize (recvQ (m_sessions (live_server env a) ! 0)) = 2001" unfolding q
    by (simp add: RingBuffer_ClearBuffer_def RingBuffer_sized_def RingBuffer_GetFreeSize_def RingBuffer_GetUseSize_def)
qed

text \<open>A packet allocated on such a server.\<close>

lemma sample_alloc_packet:
  assumes "srv ar J no_refs r b s" and "packets s = sample_packets" and e: "ne_pool env = sample_packet_env"
  shows "\<exists>s1 p pool. AllocPacket env s = Inr (s1, p) \<and> s1 = s\<lparr>packets := pool\<rparr> \<and>
    srv ar J (no_refs(p := 1)) r b s1 \<and> refs pool p = 1"
proof -
  obtain pool p x where "Packet_Alloc sample_packet_env (ne_tid env) sample_packets = Inr (pool, p)"
    using Packet_Alloc_ok[OF sample_packets_inv(1) sample_packet_env sample_packets_inv(2)] by blast
  then have 1: "AllocPacket env s = Inr (s\<lparr>packets := pool\<rparr>, p)"
    using assms(2) by (simp add: AllocPacket_def e)
  have "pkt_env (ne_pool env)" by (simp add: e sample_packet_env)
  from safe_InrD[OF AllocPacket_srv[OF assms(1) this] 1] 1 show ?thesis
    by (auto simp: refs_def fresh_packet_def)
qed

end
