(* ===== verification/ChatServer.thy ===== *)
theory ChatServer
  imports NetSample
begin

text \<open>
  \<open>ChatServer_SingleThread\<close>: the class derived from the net server. The callbacks only queue jobs;
  the contents thread takes them out and owns the players, the maps and the 50 x 50 sectors.
  A \<open>Player*\<close> or \<open>Job*\<close> is an address in its pool. \<open>_jobQueue\<close> is the list that the lock-free queue
  implements. The clock and the iteration order of an \<open>unordered_map\<close> are parameters.
\<close>

section \<open>State\<close>

definition INVALID_SECTOR :: u16 where "INVALID_SECTOR = 0xffff"
definition SECTOR_MAX_X :: nat where "SECTOR_MAX_X = 50"
definition SECTOR_MAX_Y :: nat where "SECTOR_MAX_Y = 50"

record player =
  sessionId :: u64
  accountNo :: u64
  player_id :: bytes
  nickname :: bytes
  sessionKey :: bytes
  sectorX :: u16
  sectorY :: u16
  sectorIndex :: u32
  lastRecvTime :: u64
  isLogin :: bool
  isDisconnecting :: bool

text \<open>\<open>id[0] = '\0'\<close> writes one \<open>WCHAR\<close>; the rest of the object keeps what it held.\<close>

definition Player_Init :: "u64 \<Rightarrow> u64 \<Rightarrow> player \<Rightarrow> player" where
  "Player_Init sid now x =
     x\<lparr>sessionId := sid, accountNo := 0, player_id := [0, 0] @ drop 2 (player_id x),
       nickname := [0, 0] @ drop 2 (nickname x), sectorX := INVALID_SECTOR, sectorY := INVALID_SECTOR,
       sectorIndex := 0, lastRecvTime := now, isLogin := False, isDisconnecting := False\<rparr>"

datatype job_type = ACCEPT | RELEASE | RECV_JOB

record job =
  job_type :: job_type
  job_sessionID :: u64
  job_packet :: u64

record chat =
  sessionMap :: "u64 \<rightharpoonup> u64"
  accountMap :: "u64 \<rightharpoonup> u64"
  sectors :: "nat \<Rightarrow> nat \<Rightarrow> u64 list"
  jobQueue :: "u64 list"
  jobEvent :: bool
  contents_running :: bool
  playerPool :: "player tls_pool"
  jobPool :: "job tls_pool"

record chat_env =
  ce_net :: "chat net_env"
  ce_players :: "player pool_env"
  ce_jobs :: "job pool_env"
  ce_now :: "event list \<Rightarrow> u64"
  ce_keys :: "(u64 \<rightharpoonup> u64) \<Rightarrow> u64 list"
  ce_stack :: "u16"

definition en_PACKET_CS_CHAT_REQ_LOGIN :: u16 where "en_PACKET_CS_CHAT_REQ_LOGIN = 1"
definition en_PACKET_CS_CHAT_RES_LOGIN :: u16 where "en_PACKET_CS_CHAT_RES_LOGIN = 2"
definition en_PACKET_CS_CHAT_REQ_SECTOR_MOVE :: u16 where "en_PACKET_CS_CHAT_REQ_SECTOR_MOVE = 3"
definition en_PACKET_CS_CHAT_RES_SECTOR_MOVE :: u16 where "en_PACKET_CS_CHAT_RES_SECTOR_MOVE = 4"
definition en_PACKET_CS_CHAT_REQ_MESSAGE :: u16 where "en_PACKET_CS_CHAT_REQ_MESSAGE = 5"
definition en_PACKET_CS_CHAT_RES_MESSAGE :: u16 where "en_PACKET_CS_CHAT_RES_MESSAGE = 6"
definition en_PACKET_CS_CHAT_REQ_HEARTBEAT :: u16 where "en_PACKET_CS_CHAT_REQ_HEARTBEAT = 7"

section \<open>The callbacks\<close>

definition PushJob :: "chat_env \<Rightarrow> job_type \<Rightarrow> u64 \<Rightarrow> u64 \<Rightarrow> chat server \<Rightarrow> chat server result" where
  "PushJob ce type sid p s =
     and_then (TLS_Alloc (ce_jobs ce) (ne_tid (ce_net ce)) (jobPool (app s))) (\<lambda>(pool, j).
     and_then (obj_put pool j \<lparr>job_type = type, job_sessionID = sid, job_packet = p\<rparr>) (\<lambda>pool.
     Inr (s\<lparr>app := (app s)\<lparr>jobPool := pool, jobQueue := jobQueue (app s) @ [j], jobEvent := True\<rparr>\<rparr>)))"

definition Chat_OnConnectionRequest :: "string \<Rightarrow> u16 \<Rightarrow> chat server \<Rightarrow> (chat server \<times> bool) result" where
  "Chat_OnConnectionRequest addr pt s = Inr (s, True)"

definition Chat_OnAccept :: "chat_env \<Rightarrow> u64 \<Rightarrow> chat server \<Rightarrow> chat server result" where
  "Chat_OnAccept ce sid = PushJob ce ACCEPT sid 0"

definition Chat_OnRelease :: "chat_env \<Rightarrow> u64 \<Rightarrow> chat server \<Rightarrow> chat server result" where
  "Chat_OnRelease ce sid = PushJob ce RELEASE sid 0"

definition Chat_OnRecv :: "chat_env \<Rightarrow> u64 \<Rightarrow> u64 \<Rightarrow> chat server \<Rightarrow> chat server result" where
  "Chat_OnRecv ce sid p s =
     and_then (on_pool (Packet_AddRef p) s) (\<lambda>s. PushJob ce RECV_JOB sid p s)"

text \<open>The net server with the overrides of the chat server.\<close>

definition chat_net :: "chat_env \<Rightarrow> chat net_env" where
  "chat_net ce = (ce_net ce)\<lparr>OnConnectionRequest := Chat_OnConnectionRequest,
     OnAccept := Chat_OnAccept ce, OnRelease := Chat_OnRelease ce, OnRecv := Chat_OnRecv ce\<rparr>"

section \<open>Players and sectors\<close>

definition get_player :: "u64 \<Rightarrow> chat server \<Rightarrow> player result" where
  "get_player p s = obj_get (playerPool (app s)) p"

definition upd_player :: "u64 \<Rightarrow> (player \<Rightarrow> player) \<Rightarrow> chat server \<Rightarrow> chat server result" where
  "upd_player p f s =
     and_then (get_player p s) (\<lambda>x.
     and_then (obj_put (playerPool (app s)) p (f x)) (\<lambda>pool.
     Inr (s\<lparr>app := (app s)\<lparr>playerPool := pool\<rparr>\<rparr>)))"

definition FindPlayer :: "u64 \<Rightarrow> chat server \<Rightarrow> u64 option" where
  "FindPlayer sid s = sessionMap (app s) sid"

definition DisconnectPlayer :: "chat_env \<Rightarrow> u64 \<Rightarrow> chat server \<Rightarrow> chat server result" where
  "DisconnectPlayer ce p s =
     and_then (get_player p s) (\<lambda>x.
     if isDisconnecting x then Inr s
     else
     and_then (upd_player p (\<lambda>x. x\<lparr>isDisconnecting := True\<rparr>) s) (\<lambda>s.
     and_then (Disconnect (chat_net ce) (sessionId x) s) (\<lambda>(s, _). Inr s)))"

definition sector_at :: "nat \<Rightarrow> nat \<Rightarrow> chat server \<Rightarrow> u64 list result" where
  "sector_at y x s = (if y < SECTOR_MAX_Y \<and> x < SECTOR_MAX_X then Inr (sectors (app s) y x) else Inl OutOfBounds)"

definition set_sector :: "nat \<Rightarrow> nat \<Rightarrow> u64 list \<Rightarrow> chat server \<Rightarrow> chat server" where
  "set_sector y x l s = s\<lparr>app := (app s)\<lparr>sectors := (sectors (app s))(y := (sectors (app s) y)(x := l))\<rparr>\<rparr>"

text \<open>A player leaves its sector: the last of the sector takes its place.\<close>

definition sector_leave :: "u64 \<Rightarrow> chat server \<Rightarrow> chat server result" where
  "sector_leave p s =
     and_then (get_player p s) (\<lambda>x. let py = unat (sectorY x); px = unat (sectorX x); k = unat (sectorIndex x) in
     and_then (sector_at py px s) (\<lambda>sector.
     if k \<ge> length sector then Inl OutOfBounds
     else
     let last = last sector; s = set_sector py px (sector[k := last]) s in
     and_then (upd_player last (\<lambda>y. y\<lparr>sectorIndex := sectorIndex x\<rparr>) s) (\<lambda>s.
     Inr (set_sector py px (butlast (sectors (app s) py px)) s))))"

section \<open>Jobs without a packet\<close>

definition ProcessAccept :: "chat_env \<Rightarrow> u64 \<Rightarrow> chat server \<Rightarrow> chat server result" where
  "ProcessAccept ce sid s =
     and_then (TLS_Alloc (ce_players ce) (ne_tid (ce_net ce)) (playerPool (app s))) (\<lambda>(pool, p).
     let s = s\<lparr>app := (app s)\<lparr>playerPool := pool\<rparr>\<rparr> in
     and_then (upd_player p (Player_Init sid (ce_now ce (trace s))) s) (\<lambda>s.
     Inr (s\<lparr>app := (app s)\<lparr>sessionMap := (sessionMap (app s))(sid \<mapsto> p)\<rparr>\<rparr>)))"

definition ProcessRelease :: "chat_env \<Rightarrow> u64 \<Rightarrow> chat server \<Rightarrow> chat server result" where
  "ProcessRelease ce sid s =
     (case FindPlayer sid s of None \<Rightarrow> Inr s
      | Some p \<Rightarrow>
        and_then (get_player p s) (\<lambda>x.
        and_then (if sectorX x \<noteq> INVALID_SECTOR then sector_leave p s else Inr s) (\<lambda>s.
        let s = (if isLogin x
                 then s\<lparr>app := (app s)\<lparr>accountMap := (accountMap (app s))(accountNo x := None)\<rparr>\<rparr> else s);
            s = s\<lparr>app := (app s)\<lparr>sessionMap := (sessionMap (app s))(sid := None)\<rparr>\<rparr> in
        and_then (TLS_Free (ne_tid (ce_net ce)) p (playerPool (app s))) (\<lambda>pool.
        Inr (s\<lparr>app := (app s)\<lparr>playerPool := pool\<rparr>\<rparr>)))))"

definition CheckTimeout :: "chat_env \<Rightarrow> chat server \<Rightarrow> chat server result" where
  "CheckTimeout ce s =
     (let now = ce_now ce (trace s);
          ps = map (\<lambda>sid. the (sessionMap (app s) sid)) (ce_keys ce (sessionMap (app s))) in
      for_each (\<lambda>p s. and_then (get_player p s) (\<lambda>x.
        if now - lastRecvTime x \<ge> 40000 then DisconnectPlayer ce p s else Inr s)) ps s)"

section \<open>Packets\<close>

definition data_size :: "u64 \<Rightarrow> chat server \<Rightarrow> int result" where
  "data_size p s = and_then (obj_get (packets s) p) (\<lambda>x. Inr (Packet_GetDataSize x))"

definition get_bytes :: "bytes \<Rightarrow> int \<Rightarrow> packet \<Rightarrow> (packet \<times> bytes) result" where
  "get_bytes dst n x = and_then (Packet_GetData x dst n) (\<lambda>(x, dst, _). Inr (x, dst))"

definition put_bytes :: "bytes \<Rightarrow> int \<Rightarrow> packet \<Rightarrow> packet result" where
  "put_bytes src n x = and_then (Packet_PutData x src n) (\<lambda>(x, _). Inr x)"

definition mpResLogin :: "u8 \<Rightarrow> u64 \<Rightarrow> packet \<Rightarrow> packet result" where
  "mpResLogin status acc x =
     and_then (Packet_put16 x en_PACKET_CS_CHAT_RES_LOGIN) (\<lambda>x.
     and_then (Packet_put8 x status) (\<lambda>x. Packet_put64 x acc))"

definition mpResSectorMove :: "u64 \<Rightarrow> u16 \<Rightarrow> u16 \<Rightarrow> packet \<Rightarrow> packet result" where
  "mpResSectorMove acc sx sy x =
     and_then (Packet_put16 x en_PACKET_CS_CHAT_RES_SECTOR_MOVE) (\<lambda>x.
     and_then (Packet_put64 x acc) (\<lambda>x.
     and_then (Packet_put16 x sx) (\<lambda>x. Packet_put16 x sy)))"

definition mpResMessage :: "u64 \<Rightarrow> bytes \<Rightarrow> bytes \<Rightarrow> u16 \<Rightarrow> bytes \<Rightarrow> packet \<Rightarrow> packet result" where
  "mpResMessage acc ident nick msgLen message x =
     and_then (Packet_put16 x en_PACKET_CS_CHAT_RES_MESSAGE) (\<lambda>x.
     and_then (Packet_put64 x acc) (\<lambda>x.
     and_then (put_bytes ident 40 x) (\<lambda>x.
     and_then (put_bytes nick 40 x) (\<lambda>x.
     and_then (Packet_put16 x msgLen) (\<lambda>x. put_bytes message (int (unat msgLen)) x)))))"

text \<open>A response: allocate, fill, send to the session ids given, free.\<close>

definition PacketProcLogin :: "chat_env \<Rightarrow> u64 \<Rightarrow> u64 \<Rightarrow> chat server \<Rightarrow> chat server result" where
  "PacketProcLogin ce pl p s =
     and_then (get_player pl s) (\<lambda>x.
     if isLogin x then DisconnectPlayer ce pl s
     else
     and_then (data_size p s) (\<lambda>sz.
     if sz \<noteq> 8 + 40 + 40 + 64 then DisconnectPlayer ce pl s
     else
     and_then (read_packet p (\<lambda>k. Packet_get64 k 0) s) (\<lambda>(s, acc).
     and_then (AllocPacket (chat_net ce) s) (\<lambda>(s, resPacket).
     and_then (on_pool (on_packet resPacket (mpResLogin 1 acc)) s) (\<lambda>s.
     and_then (SendPacket (chat_net ce) (sessionId x) resPacket s) (\<lambda>(s, _).
     and_then (FreePacket (chat_net ce) resPacket s) (\<lambda>s.
     and_then (read_packet p (get_bytes (player_id x) 40) s) (\<lambda>(s, ident).
     and_then (read_packet p (get_bytes (nickname x) 40) s) (\<lambda>(s, nick).
     and_then (read_packet p (get_bytes (sessionKey x) 64) s) (\<lambda>(s, key).
     and_then (upd_player pl (\<lambda>x. x\<lparr>player_id := ident, nickname := nick, sessionKey := key,
       accountNo := acc, isLogin := True\<rparr>) s) (\<lambda>s.
     and_then (case accountMap (app s) acc of None \<Rightarrow> Inr s | Some q \<Rightarrow> DisconnectPlayer ce q s) (\<lambda>s.
     Inr (s\<lparr>app := (app s)\<lparr>accountMap := (accountMap (app s))(acc \<mapsto> pl)\<rparr>\<rparr>)))))))))))))"

definition PacketProcSectorMove :: "chat_env \<Rightarrow> u64 \<Rightarrow> u64 \<Rightarrow> chat server \<Rightarrow> chat server result" where
  "PacketProcSectorMove ce pl p s =
     and_then (get_player pl s) (\<lambda>x.
     and_then (data_size p s) (\<lambda>sz.
     if \<not> isLogin x \<or> sz \<noteq> 8 + 2 + 2 then DisconnectPlayer ce pl s
     else
     and_then (read_packet p (\<lambda>k. Packet_get64 k 0) s) (\<lambda>(s, acc).
     and_then (read_packet p (\<lambda>k. Packet_get16 k 0) s) (\<lambda>(s, sx).
     and_then (read_packet p (\<lambda>k. Packet_get16 k 0) s) (\<lambda>(s, sy).
     if acc \<noteq> accountNo x then Inl DebugBreak
     else if unat sx \<ge> SECTOR_MAX_X \<or> unat sy \<ge> SECTOR_MAX_Y then DisconnectPlayer ce pl s
     else
     and_then (if sectorX x \<noteq> INVALID_SECTOR then sector_leave pl s else Inr s) (\<lambda>s.
     and_then (sector_at (unat sy) (unat sx) s) (\<lambda>sector.
     and_then (upd_player pl (\<lambda>x. x\<lparr>sectorIndex := of_nat (length sector)\<rparr>) s) (\<lambda>s.
     let s = set_sector (unat sy) (unat sx) (sector @ [pl]) s in
     and_then (upd_player pl (\<lambda>x. x\<lparr>sectorX := sx, sectorY := sy\<rparr>) s) (\<lambda>s.
     and_then (AllocPacket (chat_net ce) s) (\<lambda>(s, resPacket).
     and_then (on_pool (on_packet resPacket (mpResSectorMove (accountNo x) sx sy)) s) (\<lambda>s.
     and_then (SendPacket (chat_net ce) (sessionId x) resPacket s) (\<lambda>(s, _).
     FreePacket (chat_net ce) resPacket s))))))))))))"

definition send_to :: "chat_env \<Rightarrow> u64 \<Rightarrow> u64 \<Rightarrow> chat server \<Rightarrow> chat server result" where
  "send_to ce resPacket target s =
     and_then (get_player target s) (\<lambda>y.
     and_then (SendPacket (chat_net ce) (sessionId y) resPacket s) (\<lambda>(s, _). Inr s))"

text \<open>The loops over the sectors from \<open>beginY\<close>, \<open>beginX\<close> to \<open>endY\<close>, \<open>endX\<close>.\<close>

definition around :: "nat \<Rightarrow> nat \<Rightarrow> nat list" where
  "around m k = [(if k = 0 then 0 else k - 1)..<Suc (if k = m - 1 then k else k + 1)]"

definition broadcast :: "chat_env \<Rightarrow> u64 \<Rightarrow> nat \<Rightarrow> nat \<Rightarrow> chat server \<Rightarrow> chat server result" where
  "broadcast ce resPacket sx sy =
     for_each (\<lambda>y. for_each (\<lambda>x s.
       and_then (sector_at y x s) (\<lambda>sector. for_each (send_to ce resPacket) sector s))
       (around SECTOR_MAX_X sx)) (around SECTOR_MAX_Y sy)"

definition PacketProcMessage :: "chat_env \<Rightarrow> u64 \<Rightarrow> u64 \<Rightarrow> chat server \<Rightarrow> chat server result" where
  "PacketProcMessage ce pl p s =
     and_then (get_player pl s) (\<lambda>x.
     and_then (data_size p s) (\<lambda>sz.
     if \<not> isLogin x \<or> sectorX x = INVALID_SECTOR \<or> sz < 8 + 2 then DisconnectPlayer ce pl s
     else
     and_then (read_packet p (\<lambda>k. Packet_get64 k 0) s) (\<lambda>(s, acc).
     and_then (read_packet p (\<lambda>k. Packet_get16 k 0) s) (\<lambda>(s, msgLen).
     if acc \<noteq> accountNo x then Inl DebugBreak
     else
     and_then (data_size p s) (\<lambda>sz.
     if unat msgLen > 1024 \<or> int (unat msgLen) \<noteq> sz then DisconnectPlayer ce pl s
     else
     and_then (read_packet p (get_bytes (replicate 1024 0) (int (unat msgLen))) s) (\<lambda>(s, message).
     and_then (AllocPacket (chat_net ce) s) (\<lambda>(s, resPacket).
     and_then (on_pool (on_packet resPacket
       (mpResMessage (accountNo x) (player_id x) (nickname x) msgLen message)) s) (\<lambda>s.
     and_then (broadcast ce resPacket (unat (sectorX x)) (unat (sectorY x)) s) (\<lambda>s.
     FreePacket (chat_net ce) resPacket s)))))))))"

definition PacketProcHeartbeat :: "u64 \<Rightarrow> u64 \<Rightarrow> chat server \<Rightarrow> chat server result" where
  "PacketProcHeartbeat pl p s = Inr s"

text \<open>\<open>ce_stack\<close> is what the uninitialised \<open>type\<close> holds.\<close>

definition PacketProc :: "chat_env \<Rightarrow> u64 \<Rightarrow> u64 \<Rightarrow> chat server \<Rightarrow> chat server result" where
  "PacketProc ce sid p s =
     (case FindPlayer sid s of None \<Rightarrow> Inr s
      | Some pl \<Rightarrow>
        and_then (get_player pl s) (\<lambda>x.
        if isDisconnecting x then Inr s
        else
        and_then (upd_player pl (\<lambda>x. x\<lparr>lastRecvTime := ce_now ce (trace s)\<rparr>) s) (\<lambda>s.
        and_then (read_packet p (\<lambda>k. Packet_get16 k (ce_stack ce)) s) (\<lambda>(s, type).
        if type = en_PACKET_CS_CHAT_REQ_LOGIN then PacketProcLogin ce pl p s
        else if type = en_PACKET_CS_CHAT_REQ_SECTOR_MOVE then PacketProcSectorMove ce pl p s
        else if type = en_PACKET_CS_CHAT_REQ_MESSAGE then PacketProcMessage ce pl p s
        else if type = en_PACKET_CS_CHAT_REQ_HEARTBEAT then PacketProcHeartbeat pl p s
        else DisconnectPlayer ce pl s))))"

section \<open>The contents thread\<close>

definition HandleJob :: "chat_env \<Rightarrow> u64 \<Rightarrow> chat server \<Rightarrow> chat server result" where
  "HandleJob ce j s =
     and_then (obj_get (jobPool (app s)) j) (\<lambda>x.
     case job_type x of
       ACCEPT \<Rightarrow> ProcessAccept ce (job_sessionID x) s
     | RELEASE \<Rightarrow> ProcessRelease ce (job_sessionID x) s
     | RECV_JOB \<Rightarrow>
         and_then (PacketProc ce (job_sessionID x) (job_packet x) s) (\<lambda>s.
         FreePacket (chat_net ce) (job_packet x) s))"

definition FreeJob :: "chat_env \<Rightarrow> u64 \<Rightarrow> chat server \<Rightarrow> chat server result" where
  "FreeJob ce j s =
     and_then (TLS_Free (ne_tid (ce_net ce)) j (jobPool (app s))) (\<lambda>pool.
     Inr (s\<lparr>app := (app s)\<lparr>jobPool := pool\<rparr>\<rparr>))"

text \<open>The inner loop takes jobs until the queue is empty, among them those queued meanwhile.\<close>

fun drain_jobs :: "chat_env \<Rightarrow> nat \<Rightarrow> chat server \<Rightarrow> chat server result" where
  "drain_jobs ce 0 s = (if jobQueue (app s) = [] then Inr s else Inl OutOfFuel)"
| "drain_jobs ce (Suc fuel) s =
     (case jobQueue (app s) of [] \<Rightarrow> Inr s
      | j # q \<Rightarrow>
        and_then (HandleJob ce j (s\<lparr>app := (app s)\<lparr>jobQueue := q\<rparr>\<rparr>)) (\<lambda>s.
        and_then (FreeJob ce j s) (\<lambda>s. drain_jobs ce fuel s)))"

text \<open>One pass of the outer loop; \<open>prev\<close> is the time of the last check.\<close>

definition Contents_pass :: "chat_env \<Rightarrow> nat \<Rightarrow> chat server \<times> u64 \<Rightarrow> (chat server \<times> u64) result" where
  "Contents_pass ce fuel sp =
     (let (s, prev) = sp; s = s\<lparr>app := (app s)\<lparr>jobEvent := False\<rparr>\<rparr> in
      and_then (drain_jobs ce fuel s) (\<lambda>s.
      let now = ce_now ce (trace s) in
      if now - prev \<ge> 1000 then and_then (CheckTimeout ce s) (\<lambda>s. Inr (s, prev + 1000))
      else Inr (s, prev)))"

fun ContentsThreadMain :: "chat_env \<Rightarrow> nat \<Rightarrow> nat \<Rightarrow> chat server \<times> u64 \<Rightarrow> (chat server \<times> u64) result" where
  "ContentsThreadMain ce fuel 0 sp = Inr sp"
| "ContentsThreadMain ce fuel (Suc n) sp =
     (if \<not> contents_running (app (fst sp)) then Inr sp
      else and_then (Contents_pass ce fuel sp) (\<lambda>sp. ContentsThreadMain ce fuel n sp))"

section \<open>Start and stop\<close>

definition ChatServer_Start :: "chat_env \<Rightarrow> u64 \<Rightarrow> (nat \<Rightarrow> bytes) \<Rightarrow> string \<Rightarrow> u16 \<Rightarrow> u32 \<Rightarrow> u32 \<Rightarrow> bool \<Rightarrow> u32 \<Rightarrow>
    chat server \<Rightarrow> chat server \<times> bool" where
  "ChatServer_Start ce lsock mem ipAddr portNum workerCount activeCount nagle maxSessionCount s =
     Start (chat_net ce) lsock mem ipAddr portNum workerCount activeCount nagle maxSessionCount
       (emit EvThread (s\<lparr>app := (app s)\<lparr>jobEvent := False, contents_running := True\<rparr>\<rparr>))"

text \<open>The contents thread sees the flag after at most one more pass; here it has ended.\<close>

definition ChatServer_Stop :: "chat_env \<Rightarrow> chat server \<Rightarrow> chat server result" where
  "ChatServer_Stop ce s =
     Stop (chat_net ce) (emit (EvJoin 1) (s\<lparr>app := (app s)\<lparr>contents_running := False, jobEvent := True\<rparr>\<rparr>))"

definition chat_default :: "player tls_pool \<Rightarrow> job tls_pool \<Rightarrow> chat" where
  "chat_default players jobs =
     \<lparr>sessionMap = Map.empty, accountMap = Map.empty, sectors = (\<lambda>_ _. []), jobQueue = [], jobEvent = False,
      contents_running = False, playerPool = players, jobPool = jobs\<rparr>"

end
