(* ===== verification/ChatJobs.thy ===== *)
theory ChatJobs
  imports ChatServer
begin

text \<open>
  The chat server keeps the contract \<open>net_app\<close>: its callbacks only append jobs to the queue, in the
  order of the calls, and a queued packet is counted. So every result about the net server holds
  with the chat server's callbacks; the players and the sectors are untouched by them.
\<close>

section \<open>The queue of jobs\<close>

definition jobs_of :: "chat \<Rightarrow> job list" where
  "jobs_of a = map (\<lambda>j. the (live (jobPool a) j)) (jobQueue a)"

definition recv_jobs :: "chat \<Rightarrow> job list" where
  "recv_jobs a = filter (\<lambda>x. job_type x = RECV_JOB) (jobs_of a)"

definition chat_ar :: "chat \<Rightarrow> u64 \<Rightarrow> nat" where
  "chat_ar a p = count_list (map job_packet (recv_jobs a)) p"

type_synonym lobby = "(u64 \<rightharpoonup> u64) \<times> (u64 \<rightharpoonup> u64) \<times> (nat \<Rightarrow> nat \<Rightarrow> u64 list) \<times> player tls_pool"

definition lobby_of :: "chat \<Rightarrow> lobby" where
  "lobby_of a = (sessionMap a, accountMap a, sectors a, playerPool a)"

text \<open>\<open>H\<close> are the jobs taken out of the queue and not freed yet, \<open>L\<close> the messages received so far:
  those whose jobs still wait are its end.\<close>

definition chat_J :: "u64 list \<Rightarrow> lobby \<Rightarrow> (u64 \<times> bytes) list \<Rightarrow> chat \<Rightarrow> bool" where
  "chat_J H pp L a \<longleftrightarrow> store_inv (\<lambda>_. True) (jobPool a) \<and> distinct (H @ jobQueue a) \<and>
     dom (live (jobPool a)) = set (H @ jobQueue a) \<and> lobby_of a = pp \<and>
     (\<exists>done. map fst L = done @ map job_sessionID (recv_jobs a))"

lemma PushJob_safe:
  assumes J: "chat_J H pp L (app s)" and mal: "malloc_spec (ce_jobs ce)"
  shows "safe (\<lambda>s'. \<exists>a. s' = s\<lparr>app := a\<rparr> \<and>
      jobs_of a = jobs_of (app s) @ [\<lparr>job_type = type, job_sessionID = sid, job_packet = p\<rparr>] \<and>
      chat_J H pp (if type = RECV_JOB then L @ [(sid, bs)] else L) a) (PushJob ce type sid p s)"
proof (cases "ready (ce_jobs ce) (ne_tid (ce_net ce)) (jobPool (app s))")
  case False
  then have "TLS_Alloc (ce_jobs ce) (ne_tid (ce_net ce)) (jobPool (app s)) = Inl DebugBreak"
    by (intro Alloc_exhausted) (auto simp: ready_def can_grow_def)
  then show ?thesis by (simp add: PushJob_def)
next
  case True
  let ?a = "app s"
  let ?x = "\<lparr>job_type = type, job_sessionID = sid, job_packet = p\<rparr>"
  have st: "store_inv (\<lambda>_. True) (jobPool ?a)" using J by (simp add: chat_J_def)
  obtain p1 j x where 1: "TLS_Alloc (ce_jobs ce) (ne_tid (ce_net ce)) (jobPool ?a) = Inr (p1, j)"
    "store_inv (\<lambda>_. True) p1" "live (jobPool ?a) j = None" "live p1 = (live (jobPool ?a))(j \<mapsto> x)"
    using store_alloc[OF st mal _ True] by auto
  have l1: "live p1 j \<noteq> None" using 1(4) by simp
  obtain p2 where 2: "obj_put p1 j ?x = Inr p2" "store_inv (\<lambda>_. True) p2" "live p2 = (live p1)(j \<mapsto> ?x)"
    using store_put[OF 1(2) l1, of ?x] by auto
  let ?a' = "?a\<lparr>jobPool := p2, jobQueue := jobQueue ?a @ [j], jobEvent := True\<rparr>"
  have lv: "live p2 = (live (jobPool ?a))(j \<mapsto> ?x)" using 1(4) 2(3) by simp
  have nj: "j \<notin> set (H @ jobQueue ?a)" using J 1(3) unfolding chat_J_def by blast
  then have jobs: "jobs_of ?a' = jobs_of ?a @ [?x]" using lv by (auto simp: jobs_of_def)
  have "PushJob ce type sid p s = Inr (s\<lparr>app := ?a'\<rparr>)" using 1(1) 2(1) by (simp add: PushJob_def)
  moreover have "chat_J H pp (if type = RECV_JOB then L @ [(sid, bs)] else L) ?a'"
    using J 2(2) nj jobs lv by (auto simp: chat_J_def lobby_of_def recv_jobs_def)
  ultimately show ?thesis using jobs by auto
qed

lemma chat_net_simps [simp]: "ne_tid (chat_net ce) = ne_tid (ce_net ce)" "ne_pool (chat_net ce) = ne_pool (ce_net ce)"
  "ne_rand (chat_net ce) = ne_rand (ce_net ce)" "ne_wsa (chat_net ce) = ne_wsa (ce_net ce)"
  "OnRecv (chat_net ce) = Chat_OnRecv ce" "OnAccept (chat_net ce) = Chat_OnAccept ce"
  "OnRelease (chat_net ce) = Chat_OnRelease ce"
  "OnConnectionRequest (chat_net ce) = Chat_OnConnectionRequest"
  by (simp_all add: chat_net_def)

lemma srv_app:
  assumes "srv ar J c r b s" and "\<And>p. c' p + ar a p = c p + ar (app s) p" and "J' a"
  shows "kept ar J' c' r b s (s\<lparr>app := a\<rparr>)"
proof -
  have "held s p + c' p + ar a p = refs (packets s) p" for p
    using assms(1) assms(2)[of p] net_invD(4)[of ar c s p] by (simp add: srv_def)
  then have "net_inv ar c' (s\<lparr>app := a\<rparr>)" using assms(1) by (simp add: srv_def net_inv_def held_def)
  then show ?thesis using assms(1,3) by (simp add: kept_def srv_def)
qed

lemma PushJob_control:
  assumes s: "srv chat_ar (chat_J H pp L) c r b s" and mal: "malloc_spec (ce_jobs ce)" and t: "type \<noteq> RECV_JOB"
  shows "safe (kept chat_ar (chat_J H pp L) c r b s) (PushJob ce type sid p s)"
proof -
  have J: "chat_J H pp L (app s)" using s by (simp add: srv_def)
  show ?thesis
  proof (rule safe_mono[OF PushJob_safe[OF J mal]])
    fix s' assume "\<exists>a. s' = s\<lparr>app := a\<rparr> \<and>
      jobs_of a = jobs_of (app s) @ [\<lparr>job_type = type, job_sessionID = sid, job_packet = p\<rparr>] \<and>
      chat_J H pp (if type = RECV_JOB then L @ [(sid, [])] else L) a"
    then obtain a where a: "s' = s\<lparr>app := a\<rparr>" "chat_J H pp L a"
      "jobs_of a = jobs_of (app s) @ [\<lparr>job_type = type, job_sessionID = sid, job_packet = p\<rparr>]"
      using t by auto
    have "chat_ar a q = chat_ar (app s) q" for q using a(3) t by (simp add: chat_ar_def recv_jobs_def)
    then show "kept chat_ar (chat_J H pp L) c r b s s'" unfolding a(1) by (intro srv_app[OF s]) (simp_all add: a(2))
  qed
qed

lemma Chat_OnRecv_safe:
  assumes s: "srv chat_ar (chat_J H pp L) c r b s" and mal: "malloc_spec (ce_jobs ce)"
    and x: "live (packets s) p = Some x" and lim: "refs (packets s) p < 2 ^ 31 - 1"
  shows "safe (kept chat_ar (chat_J H pp (L @ [(sid, packet_data x)])) c r b s) (Chat_OnRecv ce sid p s)"
proof -
  have S: "net_inv chat_ar c s" using s by (simp add: srv_def)
  have J: "chat_J H pp L (app s)" using s by (simp add: srv_def)
  obtain pool where 1: "Packet_AddRef p (packets s) = Inr pool" "pkt_inv pool"
    "live pool = (live (packets s))(p \<mapsto> x\<lparr>m_refCount := m_refCount x + 1\<rparr>)" "refs pool p = refs (packets s) p + 1"
    using Packet_AddRef_ok[OF net_invD(2)[OF S] x lim] by blast
  let ?s1 = "s\<lparr>packets := pool\<rparr>"
  have rq: "refs pool q = refs (packets s) q" if "q \<noteq> p" for q using 1(3) that by (simp add: refs_def)
  have "net_inv chat_ar (c(p := c p + 1)) ?s1"
    by (rule net_inv_pool[OF S 1(2)]) (use 1(4) rq in auto)
  then have s1: "srv chat_ar (chat_J H pp L) (c(p := c p + 1)) r b ?s1" by (rule srv_pool[OF s])
  have J1: "chat_J H pp L (app ?s1)" using J by simp
  have "safe (kept chat_ar (chat_J H pp (L @ [(sid, packet_data x)])) c r b s) (PushJob ce RECV_JOB sid p ?s1)"
  proof (rule safe_mono[OF PushJob_safe[OF J1 mal, where bs = "packet_data x"]])
    fix s' assume "\<exists>a. s' = ?s1\<lparr>app := a\<rparr> \<and>
      jobs_of a = jobs_of (app ?s1) @ [\<lparr>job_type = RECV_JOB, job_sessionID = sid, job_packet = p\<rparr>] \<and>
      chat_J H pp (if RECV_JOB = RECV_JOB then L @ [(sid, packet_data x)] else L) a"
    then obtain a where a: "s' = ?s1\<lparr>app := a\<rparr>" "chat_J H pp (L @ [(sid, packet_data x)]) a"
      "jobs_of a = jobs_of (app s) @ [\<lparr>job_type = RECV_JOB, job_sessionID = sid, job_packet = p\<rparr>]"
      by auto
    have "kept chat_ar (chat_J H pp (L @ [(sid, packet_data x)])) c r b ?s1 s'" unfolding a(1)
      by (rule srv_app[OF s1]) (auto simp: a(2,3) chat_ar_def recv_jobs_def)
    then show "kept chat_ar (chat_J H pp (L @ [(sid, packet_data x)])) c r b s s'" by (simp add: kept_def)
  qed
  then show ?thesis using 1(1) by (simp add: Chat_OnRecv_def on_pool_def)
qed

section \<open>The contract is kept\<close>

text \<open>What is relied on of the environment; objects of \<open>new Player\<close> have their arrays.\<close>

definition player_ok :: "player \<Rightarrow> bool" where
  "player_ok x \<longleftrightarrow> length (player_id x) = 40 \<and> length (nickname x) = 40 \<and> length (sessionKey x) = 64"

definition chat_env_ok :: "chat_env \<Rightarrow> bool" where
  "chat_env_ok ce \<longleftrightarrow> pkt_env (ne_pool (ce_net ce)) \<and> malloc_spec (ce_jobs ce) \<and> malloc_spec (ce_players ce) \<and>
     player_ok (env_new (ce_players ce)) \<and>
     (\<forall>m. finite (dom m) \<longrightarrow> distinct (ce_keys ce m) \<and> set (ce_keys ce m) = dom m)"

locale chat_server =
  fixes ce :: chat_env
  assumes env_ok: "chat_env_ok ce"

sublocale chat_server \<subseteq> cn: net_app "chat_net ce" chat_ar "chat_J H pp" for H pp
proof (unfold_locales, goal_cases)
  case 1
  show ?case using env_ok by (simp add: chat_env_ok_def)
next
  case (2 tr e L)
  then show ?case by simp
next
  case (3 L c r b s sid)
  then show ?case using PushJob_control[of H pp L c r b s ce RELEASE] env_ok
    by (simp add: Chat_OnRelease_def chat_env_ok_def)
next
  case (4 L c r b s p x sid)
  then show ?case using Chat_OnRecv_safe[OF 4(1) _ 4(2,4), of ce sid] env_ok by (simp add: chat_env_ok_def)
next
  case (5 L c r b s sid)
  then show ?case using PushJob_control[of H pp L c r b s ce ACCEPT] env_ok
    by (simp add: Chat_OnAccept_def chat_env_ok_def)
next
  case (6 L c r b s addr pt)
  then show ?case by (simp add: Chat_OnConnectionRequest_def)
qed

section \<open>An instance\<close>

definition sample_pool_of :: "'a \<Rightarrow> 'a tls_pool" where
  "sample_pool_of x = \<lparr>pool_this = 0x4000, m_placementNew = False, m_maxChunks = 0, m_chunkCount = 0,
     m_top = 0, pool_heap = Map.empty, t_cache = (\<lambda>_. empty_cache)\<rparr>"

definition sample_pool_env :: "'a \<Rightarrow> 'a pool_env" where
  "sample_pool_env x = \<lparr>env_malloc = env_malloc sample_env, env_sizeof = 64,
     env_fresh = \<lparr>b_next = 0, b_chunkNext = 0, b_count = 0, b_useFlag = 0, b_owner = 0, b_frontGuard = 0,
       b_object = x, b_backGuard = 0\<rparr>,
     env_new = x\<rparr>"

definition sample_job :: job where
  "sample_job = \<lparr>job_type = ACCEPT, job_sessionID = 0, job_packet = 0\<rparr>"

definition sample_player :: player where
  "sample_player = \<lparr>sessionId = 0, accountNo = 0, player_id = replicate 40 0, nickname = replicate 40 0,
     sessionKey = replicate 64 0, sectorX = 0, sectorY = 0, sectorIndex = 0, lastRecvTime = 0,
     isLogin = False, isDisconnecting = False\<rparr>"

text \<open>All calls of the system succeed; the clock stands still.\<close>

definition sample_net :: "chat net_env" where
  "sample_net = \<lparr>ne_tid = 0, ne_pool = sample_packet_env, ne_rand = (\<lambda>_. 7), ne_wsa = (\<lambda>_ _. 0),
     OnConnectionRequest = (\<lambda>_ _ s. Inr (s, True)), OnAccept = (\<lambda>_ s. Inr s), OnRelease = (\<lambda>_ s. Inr s),
     OnRecv = (\<lambda>_ _ s. Inr s)\<rparr>"

definition sample_chat_env :: chat_env where
  "sample_chat_env = \<lparr>ce_net = sample_net, ce_players = sample_pool_env sample_player,
     ce_jobs = sample_pool_env sample_job, ce_now = (\<lambda>_. 0), ce_keys = (\<lambda>m. sorted_list_of_set (dom m)),
     ce_stack = 0\<rparr>"

lemma sample_pool_env_malloc: "malloc_spec (sample_pool_env x)"
proof -
  have "chunk_addrs (sample_pool_env x) = chunk_addrs sample_env"
    by (simp add: fun_eq_iff chunk_addrs_def sample_pool_env_def sample_env_def)
  moreover have "env_malloc (sample_pool_env x) = env_malloc sample_env" by (simp add: sample_pool_env_def)
  ultimately show ?thesis using sample_malloc unfolding malloc_spec_def by metis
qed

lemma sample_pool_of_inv: "store_inv P (sample_pool_of x)" "live (sample_pool_of x) = Map.empty"
  "ready (sample_pool_env y) t (sample_pool_of x)"
proof -
  have "pool_inv (sample_pool_of x)" unfolding sample_pool_of_def by (rule empty_pool_inv)
  then show "store_inv P (sample_pool_of x)" by (auto simp: store_inv_def objs_def sample_pool_of_def)
  show "live (sample_pool_of x) = Map.empty" by (simp add: fun_eq_iff live_def sample_pool_of_def)
  show "ready (sample_pool_env y) t (sample_pool_of x)"
    by (simp add: ready_def can_grow_def sample_pool_env_def sample_pool_of_def sample_env_def
        list_all_iff taken_def)
qed

lemma sample_chat_env_ok: "chat_env_ok sample_chat_env"
  by (simp add: chat_env_ok_def sample_chat_env_def sample_net_def sample_packet_env sample_pool_env_malloc
      player_ok_def sample_player_def) (simp add: sample_pool_env_def)

interpretation demo: chat_server sample_chat_env
  by unfold_locales (rule sample_chat_env_ok)

definition sample_chat :: chat where
  "sample_chat = chat_default (sample_pool_of sample_player) (sample_pool_of sample_job)"

definition sample_lobby :: lobby where
  "sample_lobby = (Map.empty, Map.empty, (\<lambda>_ _. []), sample_pool_of sample_player)"

lemma sample_chat_J: "chat_J [] sample_lobby [] sample_chat" "chat_ar sample_chat p = 0"
  by (simp_all add: chat_J_def sample_chat_def chat_default_def sample_lobby_def lobby_of_def recv_jobs_def
      jobs_of_def sample_pool_of_inv chat_ar_def)

text \<open>The chat server on the sample servers.\<close>

abbreviation sample_started :: "chat server" where
  "sample_started \<equiv> started_server (chat_net sample_chat_env) sample_chat"

abbreviation sample_live :: "chat server" where
  "sample_live \<equiv> live_server (chat_net sample_chat_env) sample_chat"

lemma sample_calls: "all_calls_succeed (chat_net sample_chat_env)"
  by (simp add: all_calls_succeed_def sample_chat_env_def sample_net_def)

lemmas sample_Start = Start_sample[OF sample_calls, of sample_chat]
lemmas sample_started_stack = started_server(1-4)[OF sample_calls, of sample_chat]
lemmas sample_live_session = live_server_session[OF sample_calls, of sample_chat]

lemma sample_live_srv: "srv chat_ar (chat_J [] sample_lobby []) no_refs one_recv {} sample_live"
  by (rule live_server_srv[OF sample_calls]) (simp_all add: sample_chat_J)

end
