(* ===== verification/ChatSectors.thy ===== *)
theory ChatSectors
  imports ChatJobs
begin

text \<open>
  The sectors of the chat server: a player with a place is in exactly one sector, at the position its
  \<open>sectorIndex\<close> says, and every entry of a sector is such a player. Taking a player out moves the
  last player of the sector to the gap; this keeps the invariant.
\<close>

section \<open>Sectors\<close>

text \<open>The players of \<open>Q\<close> are in transit: in no sector, whatever their fields say.\<close>

definition cell_ok :: "(u64 \<rightharpoonup> player) \<Rightarrow> u64 set \<Rightarrow> nat \<Rightarrow> nat \<Rightarrow> nat \<Rightarrow> u64 \<Rightarrow> bool" where
  "cell_ok m Q y x k p \<longleftrightarrow> y < 50 \<and> x < 50 \<and> p \<notin> Q \<and>
     (\<exists>pl. m p = Some pl \<and> unat (sectorX pl) = x \<and> unat (sectorY pl) = y \<and> unat (sectorIndex pl) = k)"

definition located :: "(nat \<Rightarrow> nat \<Rightarrow> u64 list) \<Rightarrow> u64 \<Rightarrow> player \<Rightarrow> bool" where
  "located sec p pl \<longleftrightarrow>
     unat (sectorIndex pl) < length (sec (unat (sectorY pl)) (unat (sectorX pl))) \<and>
     sec (unat (sectorY pl)) (unat (sectorX pl)) ! unat (sectorIndex pl) = p"

definition placed :: "(nat \<Rightarrow> nat \<Rightarrow> u64 list) \<Rightarrow> (u64 \<rightharpoonup> player) \<Rightarrow> u64 set \<Rightarrow> bool" where
  "placed sec m Q \<longleftrightarrow>
     (\<forall>y x k. k < length (sec y x) \<longrightarrow> cell_ok m Q y x k (sec y x ! k)) \<and>
     (\<forall>p pl. m p = Some pl \<longrightarrow> p \<notin> Q \<longrightarrow> sectorX pl \<noteq> INVALID_SECTOR \<longrightarrow> located sec p pl)"

lemma placedD: "placed sec m Q \<Longrightarrow> k < length (sec y x) \<Longrightarrow> cell_ok m Q y x k (sec y x ! k)"
  unfolding placed_def by blast

lemma placed_located:
  "placed sec m Q \<Longrightarrow> m p = Some pl \<Longrightarrow> p \<notin> Q \<Longrightarrow> sectorX pl \<noteq> INVALID_SECTOR \<Longrightarrow> located sec p pl"
  unfolding placed_def by blast

lemma placedI:
  assumes "\<And>y x k. k < length (sec y x) \<Longrightarrow> cell_ok m Q y x k (sec y x ! k)"
    and "\<And>p pl. m p = Some pl \<Longrightarrow> p \<notin> Q \<Longrightarrow> sectorX pl \<noteq> INVALID_SECTOR \<Longrightarrow> located sec p pl"
  shows "placed sec m Q"
  unfolding placed_def using assms by blast

lemma cell_okD:
  assumes "cell_ok m Q y x k p" and "m p = Some pl"
  shows "unat (sectorX pl) = x" "unat (sectorY pl) = y" "unat (sectorIndex pl) = k" "y < 50" "x < 50" "p \<notin> Q"
  using assms by (auto simp: cell_ok_def)

lemma cell_okI:
  "m p = Some pl \<Longrightarrow> unat (sectorX pl) = x \<Longrightarrow> unat (sectorY pl) = y \<Longrightarrow> unat (sectorIndex pl) = k \<Longrightarrow>
   y < 50 \<Longrightarrow> x < 50 \<Longrightarrow> p \<notin> Q \<Longrightarrow> cell_ok m Q y x k p"
  by (simp add: cell_ok_def)

lemma cell_ok_some: "cell_ok m Q y x k p \<Longrightarrow> \<exists>pl. m p = Some pl"
  by (auto simp: cell_ok_def)

lemma placed_in:
  assumes "placed sec m Q" and "m p = Some pl" "p \<notin> Q" "sectorX pl \<noteq> INVALID_SECTOR"
  shows "unat (sectorIndex pl) < length (sec (unat (sectorY pl)) (unat (sectorX pl)))"
    "sec (unat (sectorY pl)) (unat (sectorX pl)) ! unat (sectorIndex pl) = p"
    "unat (sectorY pl) < 50" "unat (sectorX pl) < 50"
proof -
  show 1: "unat (sectorIndex pl) < length (sec (unat (sectorY pl)) (unat (sectorX pl)))"
    and 2: "sec (unat (sectorY pl)) (unat (sectorX pl)) ! unat (sectorIndex pl) = p"
    using placed_located[OF assms] by (simp_all add: located_def)
  note C = cell_okD[OF placedD[OF assms(1) 1] , unfolded 2, OF assms(2)]
  show "unat (sectorY pl) < 50" "unat (sectorX pl) < 50" using C(4,5) by simp_all
qed

text \<open>A player stands at one place only.\<close>

lemma placed_unique:
  assumes P: "placed sec m Q" and k: "k < length (sec y x)" "k' < length (sec y' x')" and e: "sec y x ! k = sec y' x' ! k'"
  shows "y = y' \<and> x = x' \<and> k = k'"
proof -
  note A = placedD[OF P k(1)] and B = placedD[OF P k(2), folded e]
  obtain pl where pl: "m (sec y x ! k) = Some pl" using cell_ok_some[OF A] by blast
  show ?thesis using cell_okD(1-3)[OF A pl] cell_okD(1-3)[OF B pl] by simp
qed

lemma placed_distinct: "placed sec m Q \<Longrightarrow> distinct (sec y x)"
  unfolding distinct_conv_nth using placed_unique[of sec m Q _ y x _ y x] by blast

text \<open>Cells away from a change keep their player.\<close>

lemma cell_ok_upd:
  assumes "cell_ok m Q y x k p" and "q \<noteq> p" and "p \<notin> Q'"
  shows "cell_ok (m(q := v)) Q' y x k p"
  using assms by (simp add: cell_ok_def)

abbreviation upd2 :: "(nat \<Rightarrow> nat \<Rightarrow> 'a) \<Rightarrow> nat \<Rightarrow> nat \<Rightarrow> 'a \<Rightarrow> nat \<Rightarrow> nat \<Rightarrow> 'a" where
  "upd2 f y x v \<equiv> f(y := (f y)(x := v))"

lemma upd2_apply: "upd2 f y x v y' x' = (if y' = y \<and> x' = x then v else f y' x')"
  by simp

text \<open>\<open>sector_leave\<close>: the last of the sector moves to the place of \<open>p\<close>.\<close>

lemma placed_leave:
  assumes P: "placed sec m {}" and p: "m p = Some a" "sectorX a \<noteq> INVALID_SECTOR"
  defines "y \<equiv> unat (sectorY a)" and "x \<equiv> unat (sectorX a)" and "k \<equiv> unat (sectorIndex a)"
  defines "q \<equiv> last (sec y x)"
  assumes q: "m q = Some b"
  shows "placed (upd2 sec y x (butlast ((sec y x)[k := q]))) (m(q \<mapsto> b\<lparr>sectorIndex := sectorIndex a\<rparr>)) {p}"
proof -
  let ?l = "sec y x"
  let ?l' = "butlast (?l[k := q])"
  let ?b = "b\<lparr>sectorIndex := sectorIndex a\<rparr>"
  let ?n = "length ?l - 1"
  have k: "k < length ?l" "?l ! k = p" and yx: "y < 50" "x < 50"
    using placed_in[OF P p(1) _ p(2)] by (simp_all add: y_def x_def k_def)
  have ne: "?l \<noteq> []" using k(1) by force
  have ql: "?l ! ?n = q" and nl: "?n < length ?l" using ne by (simp_all add: q_def last_conv_nth)
  have nth: "?l' ! j = (if j = k then q else ?l ! j)" if "j < ?n" for j
    using that k(1) by (simp add: nth_butlast nth_list_update)
  note bq = cell_okD(1-3)[OF placedD[OF P nl, unfolded ql] q]
  have other: "?l ! j \<noteq> q \<and> ?l ! j \<noteq> p" if "j < ?n" "j \<noteq> k" for j
  proof -
    have j: "j < length ?l" using that(1) by simp
    show ?thesis using placed_unique[OF P j nl] placed_unique[OF P j k(1)] that ql k(2) by fastforce
  qed
  show ?thesis
  proof (rule placedI)
    fix y' x' j assume "j < length (upd2 sec y x ?l' y' x')"
    show "cell_ok (m(q \<mapsto> ?b)) {p} y' x' j (upd2 sec y x ?l' y' x' ! j)"
    proof (cases "y' = y \<and> x' = x")
      case True
      then have j: "j < ?n" using \<open>j < length _\<close> by simp
      show ?thesis
      proof (cases "j = k")
        case True
        have "p \<noteq> q" using placed_unique[OF P k(1) nl] k(2) ql j True by force
        then have "cell_ok (m(q \<mapsto> ?b)) {p} y x k q"
          by (intro cell_okI[of _ _ ?b]) (simp_all add: bq yx k_def)
        then show ?thesis using True nth[OF j] \<open>y' = y \<and> x' = x\<close> by simp
      next
        case False
        have "j < length ?l" using j by simp
        from cell_ok_upd[OF placedD[OF P this], of q "{p}" "Some ?b"]
        show ?thesis using other[OF j False] False nth[OF j] \<open>y' = y \<and> x' = x\<close> by fastforce
      qed
    next
      case False
      then have e: "upd2 sec y x ?l' y' x' = sec y' x'" by (auto simp: upd2_apply)
      then have j: "j < length (sec y' x')" using \<open>j < length _\<close> by simp
      have "sec y' x' ! j \<noteq> q" "sec y' x' ! j \<noteq> p"
        using placed_unique[OF P j nl] placed_unique[OF P j k(1)] ql k(2) False by metis+
      then show ?thesis unfolding e using cell_ok_upd[OF placedD[OF P j], of q "{p}" "Some ?b"] by force
    qed
  next
    fix t pl assume t: "(m(q \<mapsto> ?b)) t = Some pl" "t \<notin> {p}" "sectorX pl \<noteq> INVALID_SECTOR"
    show "located (upd2 sec y x ?l') t pl"
    proof (cases "t = q")
      case True
      then have pl: "pl = ?b" using t(1) by simp
      have "k \<noteq> ?n" using True t(2) ql k(2) by auto
      then have kn: "k < ?n" using k(1) by simp
      then show ?thesis using pl True nth[OF kn] by (simp add: located_def bq k_def)
    next
      case False
      then have mt: "m t = Some pl" using t(1) by simp
      note T = placed_in[OF P mt _ t(3), simplified]
      show ?thesis
      proof (cases "unat (sectorY pl) = y \<and> unat (sectorX pl) = x")
        case True
        let ?j = "unat (sectorIndex pl)"
        have j: "?j < length ?l" "?l ! ?j = t" using T(1,2) True by simp_all
        have "?j \<noteq> ?n" using \<open>t \<noteq> q\<close> j(2) ql by auto
        then have jn: "?j < ?n" using j(1) by simp
        have "?j \<noteq> k" using j(2) k(2) t(2) by blast
        then show ?thesis using True jn nth[OF jn] j(2) by (simp add: located_def)
      next
        case False
        then have "upd2 sec y x ?l' (unat (sectorY pl)) (unat (sectorX pl)) = sec (unat (sectorY pl)) (unat (sectorX pl))"
          by (auto simp: upd2_apply)
        then show ?thesis using T(1,2) unfolding located_def by metis
      qed
    qed
  qed
qed

lemma placed_enter:
  assumes P: "placed sec m {p}" and b: "y < 50" "x < 50"
    and a': "unat (sectorX a') = x" "unat (sectorY a') = y" "unat (sectorIndex a') = length (sec y x)"
  shows "placed (upd2 sec y x (sec y x @ [p])) (m(p \<mapsto> a')) {}"
proof (rule placedI)
  let ?s = "upd2 sec y x (sec y x @ [p])"
  fix y' x' j assume j: "j < length (?s y' x')"
  show "cell_ok (m(p \<mapsto> a')) {} y' x' j (?s y' x' ! j)"
  proof (cases "y' = y \<and> x' = x \<and> j = length (sec y x)")
    case True
    then have "?s y' x' ! j = p" by simp
    then show ?thesis using True a' b by (simp add: cell_ok_def)
  next
    case False
    then have e: "j < length (sec y' x')" "?s y' x' ! j = sec y' x' ! j"
      using j by (auto simp: upd2_apply nth_append split: if_splits)
    have c: "cell_ok m {p} y' x' j (sec y' x' ! j)" by (rule placedD[OF P e(1)])
    then have "sec y' x' ! j \<noteq> p" by (simp add: cell_ok_def)
    then show ?thesis unfolding e(2) using cell_ok_upd[OF c, of p "{}"] by simp
  qed
next
  fix t pl assume t: "(m(p \<mapsto> a')) t = Some pl" "sectorX pl \<noteq> INVALID_SECTOR"
  show "located (upd2 sec y x (sec y x @ [p])) t pl"
  proof (cases "t = p")
    case True
    then show ?thesis using t(1) a' by (simp add: located_def)
  next
    case False
    then have mt: "m t = Some pl" "t \<notin> {p}" using t(1) by simp_all
    have "located sec t pl" by (rule placed_located[OF P mt t(2)])
    then show ?thesis by (auto simp: located_def nth_append less_SucI)
  qed
qed

lemma placed_transit:
  assumes P: "placed sec m {}" and a: "m p = Some a" "sectorX a = INVALID_SECTOR"
  shows "placed sec m {p}"
proof (rule placedI)
  fix y x k assume k: "k < length (sec y x)"
  note c = placedD[OF P k]
  have "sec y x ! k \<noteq> p"
  proof
    assume "sec y x ! k = p"
    then have "unat (sectorX a) < 50" using cell_okD(1,5)[OF c, of a] a(1) by simp
    then show False using a(2) by (simp add: INVALID_SECTOR_def)
  qed
  then show "cell_ok m {p} y x k (sec y x ! k)" using c by (simp add: cell_ok_def)
qed (rule placed_located[OF P], simp_all)

lemma placed_gone:
  assumes P: "placed sec m {p}"
  shows "placed sec (m(p := None)) {}"
proof (rule placedI)
  fix y x k assume k: "k < length (sec y x)"
  have c: "cell_ok m {p} y x k (sec y x ! k)" by (rule placedD[OF P k])
  then have "p \<noteq> sec y x ! k" by (auto simp: cell_ok_def)
  then show "cell_ok (m(p := None)) {} y x k (sec y x ! k)" using cell_ok_upd[OF c] by simp
next
  fix t pl assume t: "(m(p := None)) t = Some pl" "sectorX pl \<noteq> INVALID_SECTOR"
  then have "m t = Some pl" "t \<notin> {p}" by (auto split: if_splits)
  then show "located sec t pl" using placed_located[OF P] t(2) by blast
qed

text \<open>Rewriting a player that keeps its place, and a new one without a place.\<close>

lemma placed_same:
  assumes P: "placed sec m Q" and a: "m p = Some a"
    and e: "sectorX a' = sectorX a" "sectorY a' = sectorY a" "sectorIndex a' = sectorIndex a"
  shows "placed sec (m(p \<mapsto> a')) Q"
proof (rule placedI)
  fix y x k assume k: "k < length (sec y x)"
  show "cell_ok (m(p \<mapsto> a')) Q y x k (sec y x ! k)"
    using placedD[OF P k] a e by (cases "sec y x ! k = p") (simp_all add: cell_ok_def)
next
  fix t pl assume t: "(m(p \<mapsto> a')) t = Some pl" "t \<notin> Q" "sectorX pl \<noteq> INVALID_SECTOR"
  show "located sec t pl"
  proof (cases "t = p")
    case True
    then show ?thesis using placed_located[OF P a] t e by (auto simp: located_def)
  next
    case False
    then show ?thesis using placed_located[OF P] t by simp
  qed
qed

lemma placed_new:
  assumes P: "placed sec m {}" and a: "m p = None" "sectorX a = INVALID_SECTOR"
  shows "placed sec (m(p \<mapsto> a)) {}"
proof (rule placedI)
  fix y x k assume k: "k < length (sec y x)"
  show "cell_ok (m(p \<mapsto> a)) {} y x k (sec y x ! k)"
    using placedD[OF P k] a(1) by (cases "sec y x ! k = p") (simp_all add: cell_ok_def)
next
  fix t pl assume t: "(m(p \<mapsto> a)) t = Some pl" "sectorX pl \<noteq> INVALID_SECTOR"
  then show "located sec t pl" using placed_located[OF P] a by (cases "t = p") simp_all
qed

lemma placed_set:
  assumes P: "placed sec m Q"
  shows "t \<in> set (sec y x) \<longleftrightarrow> (\<exists>z. m t = Some z \<and> t \<notin> Q \<and> sectorX z \<noteq> INVALID_SECTOR \<and>
    unat (sectorX z) = x \<and> unat (sectorY z) = y)"
proof
  assume "t \<in> set (sec y x)"
  then obtain k where k: "k < length (sec y x)" "sec y x ! k = t" by (auto simp: in_set_conv_nth)
  note C = placedD[OF P k(1), unfolded k(2)]
  obtain z where z: "m t = Some z" using cell_ok_some[OF C] by blast
  note D = cell_okD[OF C z]
  have "sectorX z \<noteq> INVALID_SECTOR" using D(1,5) by (auto simp: INVALID_SECTOR_def)
  then show "\<exists>z. m t = Some z \<and> t \<notin> Q \<and> sectorX z \<noteq> INVALID_SECTOR \<and> unat (sectorX z) = x \<and> unat (sectorY z) = y"
    using z D(1,2,6) by blast
next
  assume "\<exists>z. m t = Some z \<and> t \<notin> Q \<and> sectorX z \<noteq> INVALID_SECTOR \<and> unat (sectorX z) = x \<and> unat (sectorY z) = y"
  then obtain z where z: "m t = Some z" "t \<notin> Q" "sectorX z \<noteq> INVALID_SECTOR" "unat (sectorX z) = x" "unat (sectorY z) = y"
    by blast
  from placed_in(1,2)[OF P z(1-3)] show "t \<in> set (sec y x)" unfolding z(4,5) by (metis nth_mem)
qed

end
