(* ===== verification/NetLoad.thy ===== *)
theory NetLoad
  imports NetSafety
begin

text \<open>
  How many references to a packet the sessions' queues hold: releasing a session and sending never
  add one, except that \<open>SendPacket\<close> queues its packet once. So a broadcast to \<open>n\<close> sessions raises
  the count of its packet by at most \<open>n\<close>, and the counter cannot overflow. The release callback must
  not touch the sessions.
\<close>

definition quiet_release :: "'a net_env \<Rightarrow> bool" where
  "quiet_release env \<longleftrightarrow> (\<forall>sid s s'. OnRelease env sid s = Inr s' \<longrightarrow> m_sessions s' = m_sessions s)"

lemma held_sessions: "m_sessions s' = m_sessions s \<Longrightarrow> held s' q = held s q"
  by (simp add: held_def)

lemma held_simps [simp]: "held (emit e s) q = held s q" "held (s\<lparr>packets := pool\<rparr>) q = held s q"
  "held (s\<lparr>m_sessionCount := n\<rparr>) q = held s q" "held (s\<lparr>app := a\<rparr>) q = held s q"
  "held (s\<lparr>m_indexStack := st\<rparr>) q = held s q"
  by (simp_all add: held_def)

lemma held_upd_le:
  assumes "i < length (m_sessions s)" and "count_list (queued y) q \<le> count_list (queued (m_sessions s ! i)) q + d"
  shows "held (s\<lparr>m_sessions := (m_sessions s)[i := y]\<rparr>) q \<le> held s q + d"
  using held_upd[OF assms(1), of y q] assms(2) by linarith

lemma held_upd_same:
  assumes "i < length (m_sessions s)" and "queued y = queued (m_sessions s ! i)"
  shows "held (s\<lparr>m_sessions := (m_sessions s)[i := y]\<rparr>) q = held s q"
  using held_upd[OF assms(1), of y q] assms(2) by simp

lemma Release_held:
  assumes s: "net_inv ar c s" and q: "quiet_release env" and i: "i < length (m_sessions s)"
    and r: "ReleaseSession env i s = Inr s'"
  shows "held s' p \<le> held s p"
proof (cases "ioCount (m_sessions s ! i) = 0")
  case False
  then show ?thesis using r i by (simp add: ReleaseSession_def)
next
  case True
  let ?x = "m_sessions s ! i"
  let ?s1 = "emit (EvClose (sock ?x)) (s\<lparr>m_sessions := (m_sessions s)[i := ?x\<lparr>ioCount := RELEASE_FLAG\<rparr>]\<rparr>)"
  have 1: "net_inv ar c ?s1" using net_inv_session[OF s i, of "?x\<lparr>ioCount := RELEASE_FLAG\<rparr>"]
    by (simp add: rx_def queued_def)
  have i1: "i < length (m_sessions ?s1)" using i by simp
  obtain pool2 s2 where 2: "FreeSending env i ?s1 = Inr s2" "net_inv ar c s2"
    "s2 = ?s1\<lparr>m_sessions := (m_sessions ?s1)[i := (m_sessions ?s1 ! i)\<lparr>sendingCount := 0\<rparr>], packets := pool2\<rparr>"
    using FreeSending_inv[OF 1 i1, of env] by blast
  have i2: "i < length (m_sessions s2)" using 2(3) i by simp
  have q2: "length (sendQ (m_sessions s2 ! i)) \<le> length (sendQ ?x)" using 2(3) i by simp
  obtain pool3 s3 where 3: "drain_sendQ env (length (sendQ ?x)) i s2 = Inr s3"
    "s3 = s2\<lparr>packets := pool3, m_sessions := (m_sessions s2)[i := (m_sessions s2 ! i)\<lparr>sendQ := []\<rparr>]\<rparr>"
    using drain_inv[OF 2(2) i2 q2] by blast
  let ?s4 = "s3\<lparr>m_sessionCount := m_sessionCount s3 - 1\<rparr>"
  let ?y = "?x\<lparr>ioCount := RELEASE_FLAG, sendingCount := 0, sendQ := []\<rparr>"
  have ss: "m_sessions ?s4 = (m_sessions s)[i := ?y]" using 2(3) 3(2) i by simp
  have i4: "i < length (m_sessions ?s4)" using i ss by simp
  have "ReleaseSession env i s = and_then (OnRelease env (sessionID (m_sessions ?s4 ! i)) ?s4)
      (\<lambda>s. Inr (s\<lparr>m_indexStack := of_nat i # m_indexStack s\<rparr>))"
    using i4 i True 2(1) 3(1) by (simp add: ReleaseSession_def Let_def)
  with r obtain s5 where 5: "OnRelease env (sessionID (m_sessions ?s4 ! i)) ?s4 = Inr s5"
    "s' = s5\<lparr>m_indexStack := of_nat i # m_indexStack s5\<rparr>" by (auto elim!: and_then_InrE)
  have "m_sessions s5 = m_sessions ?s4" using q 5(1) unfolding quiet_release_def by blast
  then have m: "m_sessions s' = m_sessions (s\<lparr>m_sessions := (m_sessions s)[i := ?y]\<rparr>)" using 5(2) ss by simp
  have "held (s\<lparr>m_sessions := (m_sessions s)[i := ?y]\<rparr>) p \<le> held s p + 0"
    by (rule held_upd_le[OF i]) (simp add: queued_def)
  then show ?thesis using held_sessions[OF m] by simp
qed

lemma Return_held:
  assumes s: "net_inv ar c s" and q: "quiet_release env" and i: "i < length (m_sessions s)"
    and r: "and_then (add_io (- 1) i s) (\<lambda>(s, n). if n = 0 then ReleaseSession env i s else Inr s) = Inr s'"
  shows "held s' p \<le> held s p"
proof -
  let ?y = "(m_sessions s ! i)\<lparr>ioCount := ioCount (m_sessions s ! i) + (- 1)\<rparr>"
  let ?s1 = "s\<lparr>m_sessions := (m_sessions s)[i := ?y]\<rparr>"
  have 1: "net_inv ar c ?s1" using net_inv_session[OF s i, of ?y] by (simp add: rx_def queued_def)
  have i1: "i < length (m_sessions ?s1)" using i by simp
  have h: "held ?s1 p = held s p" by (rule held_upd_same[OF i]) (simp add: queued_def)
  have "s' = ?s1 \<or> ReleaseSession env i ?s1 = Inr s'"
    using r by (simp only: add_io_eq[OF i] and_then_Inr prod.case) (auto split: if_splits)
  then show ?thesis using Release_held[OF 1 q i1, of s' p] h by fastforce
qed

lemma SendPost_send_held:
  assumes s: "net_inv ar c s" and q: "quiet_release env" and i: "i < length (m_sessions s)"
    and z: "sendingCount (m_sessions s ! i) = 0" and r: "SendPost_send env i s = Inr s'"
  shows "held s' p \<le> held s p"
proof -
  let ?x = "m_sessions s ! i"
  define ps where "ps = take MAX_SEND_PACKET (sendQ ?x)"
  define e where "e = EvSend (sock ?x) (map (\<lambda>p. packet_wire (the (live (packets s) p))) ps)"
  obtain arr where arr: "length arr = length (sendingPackets ?x)" "take (length ps) arr = ps"
    and eq: "SendPost_send env i s = (let s2 = emit e (counted i (s\<lparr>m_sessions := (m_sessions s)[i := collected arr ?x]\<rparr>));
        err = ne_wsa env (trace s) e in
      if err = 0 \<or> err = WSA_IO_PENDING then Inr s2
      else if err \<noteq> WSAECONNRESET then Inl DebugBreak
      else and_then (add_io (- 1) i s2) (\<lambda>(s, n). if n = 0 then ReleaseSession env i s else Inr s))"
    using SendPost_send_eq[OF s i, of env, folded ps_def, folded e_def] by blast
  define z where "z = collected arr ?x\<lparr>ioCount := ioCount ?x + 1\<rparr>"
  define s2 where "s2 = emit e (s\<lparr>m_sessions := (m_sessions s)[i := z]\<rparr>)"
  have s2: "emit e (counted i (s\<lparr>m_sessions := (m_sessions s)[i := collected arr ?x]\<rparr>)) = s2"
    using i by (simp add: s2_def z_def counted_def collected_def)
  have qz: "queued z = queued ?x"
    using assms(4) arr(2) by (simp add: queued_def collected_def ps_def z_def)
  have "sess_ok z" using net_invD(3)[OF s i] arr(1)
    by (simp add: sess_ok_def collected_def MAX_SEND_PACKET_def z_def)
  then have 2: "net_inv ar c s2" unfolding s2_def emit_simps by (intro net_inv_upd[OF s i]) (simp_all add: qz)
  have i2: "i < length (m_sessions s2)" using i by (simp add: s2_def)
  have h: "held s2 p = held s p" using held_upd_same[OF i qz] by (simp add: s2_def)
  have "s' = s2 \<or> and_then (add_io (- 1) i s2) (\<lambda>(s, n). if n = 0 then ReleaseSession env i s else Inr s) = Inr s'"
    using r unfolding eq Let_def s2 by (auto split: if_splits)
  then show ?thesis using Return_held[OF 2 q i2, of s' p] h by fastforce
qed

lemma SendPost_held:
  assumes s: "net_inv ar c s" and q: "quiet_release env" and i: "i < length (m_sessions s)"
    and z: "isSending (m_sessions s ! i) \<or> sendingCount (m_sessions s ! i) = 0"
    and r: "SendPost env i s = Inr s'"
  shows "held s' p \<le> held s p"
proof (cases "isSending (m_sessions s ! i)")
  case True
  then show ?thesis using r i by (simp add: SendPost_def)
next
  case False
  let ?y = "(m_sessions s ! i)\<lparr>isSending := True\<rparr>"
  let ?s1 = "s\<lparr>m_sessions := (m_sessions s)[i := ?y]\<rparr>"
  have 1: "net_inv ar c ?s1" using net_inv_session[OF s i, of ?y] by (simp add: rx_def queued_def)
  have i1: "i < length (m_sessions ?s1)" "sendingCount (m_sessions ?s1 ! i) = 0" using i z False by simp_all
  have h1: "held ?s1 p = held s p" by (rule held_upd_same[OF i]) (simp add: queued_def)
  have "s' = ?s1\<lparr>m_sessions := (m_sessions ?s1)[i := (m_sessions ?s1 ! i)\<lparr>isSending := False\<rparr>]\<rparr> \<or>
      SendPost_send env i ?s1 = Inr s'"
    using r i False by (auto simp: SendPost_def split: if_splits)
  then show ?thesis
  proof
    assume "SendPost_send env i ?s1 = Inr s'"
    from SendPost_send_held[OF 1 q i1 this, of p] show ?thesis using h1 by simp
  qed (use h1 i1 in \<open>simp add: held_upd_same queued_def\<close>)
qed

context framed_release begin

lemma send_framed_held:
  assumes s: "srv ar J c r b s" and r: "\<forall>j. r j < 98" and p: "0 < c p" and lim: "refs (packets s) p < 2 ^ 31 - 1"
    and q: "quiet_release env" and e: "send_framed hdr env sid p s = Inr (s', ok)"
  shows "held s' t \<le> held s t + of_bool (t = p)"
proof (cases "found s sid")
  case False
  then have "s' = s" using e s AcquireSession_eq[of ar c s r b env sid] by (simp add: send_framed_def srv_def)
  then show ?thesis by simp
next
  case True
  let ?i = "unat (sid AND INDEX_MASK)"
  let ?r = "r(?i := r ?i + 1)"
  obtain s3 where 3: "srv ar J c ?r b s3" "same_rx s s3" "?i < length (m_sessions s)"
    and m: "\<forall>t. held s3 t = held s t + of_bool (t = p)"
    and eq: "send_framed hdr env sid p s = and_then (SendPost env ?i s3)
      (\<lambda>s. and_then (ReturnSession env ?i s) (\<lambda>s. Inr (s, True)))"
    using send_setup[OF s r p lim True, of env] by blast
  have ri: "r ?i < 98" using r by blast
  have i3: "?i < length (m_sessions s3)" using 3(3) same_rx_length[OF 3(2)] by simp
  obtain s4 where 4: "SendPost env ?i s3 = Inr s4" "ReturnSession env ?i s4 = Inr s'"
    using e unfolding eq by (auto elim!: and_then_InrE)
  have k: "kept ar J c ?r b s3 s4" using SendPost_safe[OF 3(1) i3] ri 4(1) by simp
  have i4: "?i < length (m_sessions s4)" using k i3 same_rx_length[of s3 s4] by (simp add: kept_def)
  have "isSending (m_sessions s3 ! ?i) \<or> sendingCount (m_sessions s3 ! ?i) = 0"
    using 3(1) i3 io_invD(1)[of ?r b s3 ?i] by (auto simp: srv_def io_sess_def)
  then have "held s4 t \<le> held s3 t" using 3(1) i3 4(1) q by (intro SendPost_held) (auto simp: srv_def)
  moreover have "held s' t \<le> held s4 t"
    using k i4 4(2) q by (intro Return_held) (auto simp: kept_def srv_def ReturnSession_def)
  ultimately show ?thesis using m by simp
qed

end

context net_release begin

lemma SendPacket_held:
  assumes "srv ar J c r b s" and "\<forall>j. r j < 98" and "0 < c p" and "refs (packets s) p < 2 ^ 31 - 1"
    and "quiet_release env" and "SendPacket env sid p s = Inr (s', ok)"
  shows "held s' t \<le> held s t + of_bool (t = p)"
  using assms unfolding SendPacket_framed by (rule nr.send_framed_held)

end

end
