(* ===== verification/ChatPlayers.thy ===== *)
theory ChatPlayers
  imports ChatSectors NetLoad
begin

text \<open>
  The lobby of the chat server: the players with the maps that find them. Its invariant, its
  abstraction to a map from session ids to members, and what the contents thread does to it without
  touching the network: reading and rewriting players, leaving and entering a sector.
\<close>

section \<open>The state of the contents thread\<close>

definition set_lobby :: "lobby \<Rightarrow> chat \<Rightarrow> chat" where
  "set_lobby l a = a\<lparr>sessionMap := fst l, accountMap := fst (snd l), sectors := fst (snd (snd l)),
     playerPool := snd (snd (snd l))\<rparr>"

definition in_lobby :: "lobby \<Rightarrow> chat server \<Rightarrow> chat server" where
  "in_lobby l s = s\<lparr>app := set_lobby l (app s)\<rparr>"

lemma set_lobby_simps [simp]: "lobby_of (set_lobby l a) = l" "jobPool (set_lobby l a) = jobPool a"
  "jobQueue (set_lobby l a) = jobQueue a" "set_lobby l (set_lobby l' a) = set_lobby l a"
  "sessionMap (set_lobby (sm, am, sec, pp) a) = sm" "accountMap (set_lobby (sm, am, sec, pp) a) = am"
  "sectors (set_lobby (sm, am, sec, pp) a) = sec" "playerPool (set_lobby (sm, am, sec, pp) a) = pp"
  by (simp_all add: set_lobby_def lobby_of_def)

lemma set_lobby_same: "lobby_of a = l \<Longrightarrow> set_lobby l a = a"
  by (cases a) (auto simp: set_lobby_def lobby_of_def)

lemma in_lobby_simps [simp]: "app (in_lobby l s) = set_lobby l (app s)" "packets (in_lobby l s) = packets s"
  "m_sessions (in_lobby l s) = m_sessions s" "trace (in_lobby l s) = trace s"
  "in_lobby l (in_lobby l' s) = in_lobby l s" "same_rx s (in_lobby l s') = same_rx s s'"
  "same_rx (in_lobby l s) s' = same_rx s s'" "held (in_lobby l s) p = held s p"
  by (simp_all add: in_lobby_def)

lemma in_lobby_same: "lobby_of (app s) = l \<Longrightarrow> in_lobby l s = s"
  by (simp add: in_lobby_def set_lobby_same)

lemma lobby_ofD:
  "lobby_of a = (sm, am, sec, pp) \<Longrightarrow> sessionMap a = sm \<and> accountMap a = am \<and> sectors a = sec \<and> playerPool a = pp"
  by (simp add: lobby_of_def)

text \<open>The jobs \<open>js\<close> wait, and behind them at most releases that have come in meanwhile.\<close>

definition waiting :: "job list \<Rightarrow> chat \<Rightarrow> bool" where
  "waiting js a \<longleftrightarrow> (\<exists>new. jobs_of a = js @ new \<and> (\<forall>x\<in>set new. job_type x = RELEASE))"

definition refs_in :: "job list \<Rightarrow> u64 \<Rightarrow> nat" where
  "refs_in js p = count_list (map job_packet (filter (\<lambda>x. job_type x = RECV_JOB) js)) p"

lemma waiting_refs: "waiting js a \<Longrightarrow> chat_ar a p = refs_in js p"
  by (auto simp: waiting_def chat_ar_def recv_jobs_def refs_in_def filter_empty_conv)

text \<open>Work on a job: \<open>H\<close> are the jobs in hand, \<open>js\<close> those that wait; \<open>l\<close> is the lobby.\<close>

definition work :: "u64 list \<Rightarrow> lobby \<Rightarrow> (u64 \<times> bytes) list \<Rightarrow> job list \<Rightarrow> (u64 \<Rightarrow> nat) \<Rightarrow> (nat \<Rightarrow> nat) \<Rightarrow>
    nat set \<Rightarrow> chat server \<Rightarrow> bool" where
  "work H l L js c r b = srv chat_ar (\<lambda>a. chat_J H l L a \<and> waiting js a) c r b"

lemma work_lobby_of: "work H l L js c r b s \<Longrightarrow> lobby_of (app s) = l"
  by (simp add: work_def srv_def chat_J_def)

lemma chat_J_lobby: "chat_J H l L a \<Longrightarrow> chat_J H l' L (set_lobby l' a)"
  by (simp add: chat_J_def recv_jobs_def jobs_of_def)

lemma chat_ar_lobby [simp]: "chat_ar (set_lobby l a) = chat_ar a"
  by (simp add: fun_eq_iff chat_ar_def recv_jobs_def jobs_of_def)

lemma waiting_lobby [simp]: "waiting js (set_lobby l a) = waiting js a"
  by (simp add: waiting_def jobs_of_def)

lemma work_in_lobby:
  assumes "work H l L js c r b s"
  shows "work H l' L js c r b (in_lobby l' s)"
proof -
  have J: "chat_J H l L (app s)" "waiting js (app s)" using assms by (simp_all add: work_def srv_def)
  have "kept chat_ar (\<lambda>a. chat_J H l' L a \<and> waiting js a) c r b s (in_lobby l' s)"
    unfolding in_lobby_def using assms J chat_J_lobby[OF J(1)]
    by (intro srv_app) (auto simp: work_def)
  then show ?thesis by (simp add: kept_def work_def)
qed

section \<open>Players\<close>

lemma get_player_ok:
  assumes "lobby_of (app s) = (sm, am, sec, pp)" and "store_inv player_ok pp" and "live pp p = Some x"
  shows "get_player p s = Inr x"
  using assms store_get(1)[OF assms(2,3)] by (simp add: get_player_def lobby_of_def)

lemma upd_player_ok:
  assumes l: "lobby_of (app s) = (sm, am, sec, pp)" and st: "store_inv player_ok pp" and x: "live pp p = Some x"
    and f: "player_ok (f x)"
  shows "\<exists>pp'. upd_player p f s = Inr (in_lobby (sm, am, sec, pp') s) \<and> store_inv player_ok pp' \<and>
    live pp' = (live pp)(p \<mapsto> f x)"
proof -
  have "live pp p \<noteq> None" using x by simp
  from store_put[OF st this f] obtain pp' where 1: "obj_put pp p (f x) = Inr pp'" "store_inv player_ok pp'"
    "live pp' = (live pp)(p \<mapsto> f x)" by blast
  have "(app s)\<lparr>playerPool := pp'\<rparr> = set_lobby (sm, am, sec, pp') (app s)"
    using lobby_ofD[OF l] by (cases "app s") (simp add: set_lobby_def)
  then have "upd_player p f s = Inr (in_lobby (sm, am, sec, pp') s)"
    using get_player_ok[OF l st x] 1(1) lobby_ofD[OF l] by (simp add: upd_player_def in_lobby_def)
  with 1 show ?thesis by blast
qed

lemma set_sector_eq:
  "lobby_of (app s) = (sm, am, sec, pp) \<Longrightarrow> set_sector y x l s = in_lobby (sm, am, upd2 sec y x l, pp) s"
  by (cases "app s") (simp add: set_sector_def in_lobby_def set_lobby_def lobby_of_def)

lemma sector_at_ok:
  "lobby_of (app s) = (sm, am, sec, pp) \<Longrightarrow> y < 50 \<Longrightarrow> x < 50 \<Longrightarrow> sector_at y x s = Inr (sec y x)"
  by (simp add: sector_at_def SECTOR_MAX_X_def SECTOR_MAX_Y_def lobby_of_def)

lemma player_ok_simps [simp]: "player_ok (x\<lparr>sectorIndex := i\<rparr>) = player_ok x"
  "player_ok (x\<lparr>sectorX := a\<rparr>) = player_ok x" "player_ok (x\<lparr>sectorY := a\<rparr>) = player_ok x"
  "player_ok (x\<lparr>isDisconnecting := d\<rparr>) = player_ok x" "player_ok (x\<lparr>lastRecvTime := t\<rparr>) = player_ok x"
  by (simp_all add: player_ok_def)

text \<open>Leaving a sector, as an exact result.\<close>

lemma sector_leave_ok:
  assumes l: "lobby_of (app s) = (sm, am, sec, pp)" and st: "store_inv player_ok pp"
    and P: "placed sec (live pp) {}" and p: "live pp p = Some a" "sectorX a \<noteq> INVALID_SECTOR"
  shows "\<exists>sec' pp' q b. sector_leave p s = Inr (in_lobby (sm, am, sec', pp') s) \<and> store_inv player_ok pp' \<and>
    placed sec' (live pp') {p} \<and> live pp q = Some b \<and>
    live pp' = (live pp)(q \<mapsto> b\<lparr>sectorIndex := sectorIndex a\<rparr>)"
proof -
  let ?y = "unat (sectorY a)" and ?x = "unat (sectorX a)" and ?k = "unat (sectorIndex a)"
  let ?q = "last (sec ?y ?x)"
  note I = placed_in[OF P p(1) _ p(2), simplified]
  have ne: "sec ?y ?x \<noteq> []" using I(1) by force
  have n: "length (sec ?y ?x) - 1 < length (sec ?y ?x)" using ne by simp
  have q: "?q = sec ?y ?x ! (length (sec ?y ?x) - 1)" using ne by (simp add: last_conv_nth)
  obtain b where b: "live pp ?q = Some b" using cell_ok_some[OF placedD[OF P n]] q by auto
  let ?s1 = "in_lobby (sm, am, upd2 sec ?y ?x ((sec ?y ?x)[?k := ?q]), pp) s"
  have l1: "lobby_of (app ?s1) = (sm, am, upd2 sec ?y ?x ((sec ?y ?x)[?k := ?q]), pp)" by simp
  have "live pp p \<noteq> None \<and> player_ok b" using p store_get(2)[OF st b] by simp
  then have "player_ok (b\<lparr>sectorIndex := sectorIndex a\<rparr>)" by simp
  from upd_player_ok[OF l1 st b, of "\<lambda>y. y\<lparr>sectorIndex := sectorIndex a\<rparr>", OF this] obtain pp' where
    2: "upd_player ?q (\<lambda>y. y\<lparr>sectorIndex := sectorIndex a\<rparr>) ?s1 =
        Inr (in_lobby (sm, am, upd2 sec ?y ?x ((sec ?y ?x)[?k := ?q]), pp') ?s1)"
      "store_inv player_ok pp'" "live pp' = (live pp)(?q \<mapsto> b\<lparr>sectorIndex := sectorIndex a\<rparr>)" by blast
  let ?sec = "upd2 sec ?y ?x (butlast ((sec ?y ?x)[?k := ?q]))"
  have "sector_leave p s = Inr (in_lobby (sm, am, ?sec, pp') s)"
    using get_player_ok[OF l st p(1)] sector_at_ok[OF l I(3,4)] I(1) 2(1) set_sector_eq[OF l]
    by (simp add: sector_leave_def Let_def set_sector_eq)
  moreover have "placed ?sec (live pp') {p}" unfolding 2(3) by (rule placed_leave[OF P p b])
  ultimately show ?thesis using 2(2,3) b by blast
qed

section \<open>The invariant\<close>

text \<open>As in the sectors, \<open>Q\<close> are the players in transit between places.\<close>

definition players_inv :: "(u64 \<rightharpoonup> u64) \<Rightarrow> (u64 \<rightharpoonup> u64) \<Rightarrow> (nat \<Rightarrow> nat \<Rightarrow> u64 list) \<Rightarrow> (u64 \<rightharpoonup> player) \<Rightarrow> u64 set \<Rightarrow> bool" where
  "players_inv sm am sec m Q \<longleftrightarrow> finite (dom sm) \<and> card (dom sm) < 2 ^ 31 - 2 \<and> ran sm = dom m \<and>
     (\<forall>sid p x. sm sid = Some p \<longrightarrow> m p = Some x \<longrightarrow> sessionId x = sid) \<and>
     (\<forall>acc p. am acc = Some p \<longrightarrow> (\<exists>x. m p = Some x \<and> isLogin x \<and> accountNo x = acc)) \<and>
     (\<forall>p x. m p = Some x \<longrightarrow> sectorX x \<noteq> INVALID_SECTOR \<longrightarrow> isLogin x) \<and>
     placed sec m Q"

definition lobby_inv :: "lobby \<Rightarrow> bool" where
  "lobby_inv l \<longleftrightarrow> (case l of (sm, am, sec, pp) \<Rightarrow>
     store_inv player_ok pp \<and> players_inv sm am sec (live pp) {})"

lemma players_invD:
  assumes "players_inv sm am sec m Q"
  shows "finite (dom sm)" "card (dom sm) < 2 ^ 31 - 2" "ran sm = dom m" "placed sec m Q"
  using assms by (simp_all add: players_inv_def)

lemma players_session: "players_inv sm am sec m Q \<Longrightarrow> sm sid = Some p \<Longrightarrow> \<exists>x. m p = Some x \<and> sessionId x = sid"
  unfolding players_inv_def by (metis (lifting) domD ranI)

lemma players_account: "players_inv sm am sec m Q \<Longrightarrow> am acc = Some p \<Longrightarrow> \<exists>x. m p = Some x \<and> isLogin x \<and> accountNo x = acc"
  unfolding players_inv_def by blast

lemma players_place: "players_inv sm am sec m Q \<Longrightarrow> m p = Some x \<Longrightarrow> sectorX x \<noteq> INVALID_SECTOR \<Longrightarrow> isLogin x"
  unfolding players_inv_def by blast

lemma players_owner:
  assumes I: "players_inv sm am sec m Q" and p: "m p = Some x"
  shows "sm (sessionId x) = Some p"
proof -
  have "p \<in> ran sm" using players_invD(3)[OF I] p by blast
  then obtain sid where sid: "sm sid = Some p" by (auto simp: ran_def)
  with players_session[OF I sid] p show ?thesis by auto
qed

lemma players_upd:
  assumes I: "players_inv sm am sec m Q" and p: "m p = Some x" and P: "placed sec' (m(p \<mapsto> y)) Q'"
    and y: "sessionId y = sessionId x" "isLogin x \<longrightarrow> isLogin y \<and> accountNo y = accountNo x"
      "sectorX y \<noteq> INVALID_SECTOR \<longrightarrow> isLogin y"
  shows "players_inv sm am sec' (m(p \<mapsto> y)) Q'"
  unfolding players_inv_def
proof (intro conjI allI impI)
  show "finite (dom sm)" "card (dom sm) < 2 ^ 31 - 2" "placed sec' (m(p \<mapsto> y)) Q'" using I P by (simp_all add: players_inv_def)
  show "ran sm = dom (m(p \<mapsto> y))" using players_invD(3)[OF I] p by auto
next
  fix sid q z assume q: "sm sid = Some q" "(m(p \<mapsto> y)) q = Some z"
  from players_session[OF I q(1)] show "sessionId z = sid" using q(2) p y(1) by (auto split: if_splits)
next
  fix acc q assume "am acc = Some q"
  from players_account[OF I this] show "\<exists>z. (m(p \<mapsto> y)) q = Some z \<and> isLogin z \<and> accountNo z = acc"
    using p y(2) by (cases "q = p") auto
next
  fix q z assume "(m(p \<mapsto> y)) q = Some z" "sectorX z \<noteq> INVALID_SECTOR"
  then show "isLogin z" using players_place[OF I] y(3) by (auto split: if_splits)
qed

lemma players_rewrite:
  assumes I: "players_inv sm am sec m Q" and p: "m p = Some x"
    and y: "sessionId y = sessionId x" "isLogin x \<longrightarrow> isLogin y \<and> accountNo y = accountNo x"
      "sectorX y = sectorX x" "sectorY y = sectorY x" "sectorIndex y = sectorIndex x"
  shows "players_inv sm am sec (m(p \<mapsto> y)) Q"
proof (rule players_upd[OF I p])
  show "placed sec (m(p \<mapsto> y)) Q" by (rule placed_same[OF players_invD(4)[OF I] p y(3-5)])
  show "sectorX y \<noteq> INVALID_SECTOR \<longrightarrow> isLogin y" using players_place[OF I p] y by auto
qed (use y in simp_all)

lemma players_sector_length:
  assumes I: "players_inv sm am sec m Q"
  shows "length (sec y x) \<le> card (dom sm)"
proof -
  have "set (sec y x) \<subseteq> dom m"
  proof
    fix p assume "p \<in> set (sec y x)"
    then obtain k where "k < length (sec y x)" "sec y x ! k = p" by (auto simp: in_set_conv_nth)
    then show "p \<in> dom m" using cell_ok_some[OF placedD[OF players_invD(4)[OF I]]] by blast
  qed
  then have "card (set (sec y x)) \<le> card (dom m)"
    using players_invD(1,3)[OF I] by (metis card_mono finite_ran)
  also have "dom m = (\<lambda>sid. the (sm sid)) ` dom sm"
    unfolding players_invD(3)[OF I, symmetric] by (force simp: ran_def dom_def image_def)
  then have "card (dom m) \<le> card (dom sm)" using card_image_le[OF players_invD(1)[OF I]] by metis
  finally show ?thesis using distinct_card[OF placed_distinct[OF players_invD(4)[OF I], of y x]] by simp
qed

section \<open>The room\<close>

text \<open>What the players are to each other, without addresses: for every session its member, and for
  every account the session that the server takes to be logged in with it.\<close>

record member =
  account :: "u64 option"
  place :: "(u16 \<times> u16) option"
  leaving :: bool

type_synonym room = "(u64 \<rightharpoonup> member) \<times> (u64 \<rightharpoonup> u64)"

definition member_of :: "player \<Rightarrow> member" where
  "member_of x = \<lparr>account = (if isLogin x then Some (accountNo x) else None),
     place = (if sectorX x = INVALID_SECTOR then None else Some (sectorX x, sectorY x)),
     leaving = isDisconnecting x\<rparr>"

definition through :: "('k \<rightharpoonup> u64) \<Rightarrow> (u64 \<rightharpoonup> player) \<Rightarrow> (player \<Rightarrow> 'v) \<Rightarrow> 'k \<rightharpoonup> 'v" where
  "through f m g k = (case f k of None \<Rightarrow> None | Some p \<Rightarrow> map_option g (m p))"

definition room_of :: "lobby \<Rightarrow> room" where
  "room_of l = (case l of (sm, am, sec, pp) \<Rightarrow> (through sm (live pp) member_of, through am (live pp) sessionId))"

lemma through_upd_same:
  "m p = Some x \<Longrightarrow> g y = g x \<Longrightarrow> through f (m(p \<mapsto> y)) g = through f m g"
  by (auto simp: fun_eq_iff through_def split: option.splits)

lemma through_upd_member:
  assumes I: "players_inv sm am sec m Q" and p: "m p = Some x"
  shows "through sm (m(p \<mapsto> y)) g = (through sm m g)(sessionId x \<mapsto> g y)"
proof
  fix k
  have o: "sm (sessionId x) = Some p" by (rule players_owner[OF I p])
  show "through sm (m(p \<mapsto> y)) g k = ((through sm m g)(sessionId x \<mapsto> g y)) k"
  proof (cases "k = sessionId x")
    case False
    then have "sm k \<noteq> Some p" using players_session[OF I, of k p] p by auto
    then show ?thesis using False by (auto simp: through_def split: option.splits)
  qed (simp add: through_def o)
qed

lemma room_member:
  assumes "players_inv sm am sec (live pp) Q" and "live pp p = Some x"
  shows "fst (room_of (sm, am, sec, pp)) (sessionId x) = Some (member_of x)"
  using players_owner[OF assms] assms(2) by (simp add: room_of_def through_def)

end
