(* ===== verification/ChatLobby.thy ===== *)
theory ChatLobby
  imports ChatPlayers
begin

text \<open>
  The handlers of the contents thread. Each keeps the invariant of the lobby and the accounting of the
  net server, and its effect on the lobby is the one that the abstract \<open>room_step\<close> computes from the
  bytes of the message; where \<open>room_step\<close> has no result the server stops in the debugger.
\<close>

section \<open>The abstract server\<close>

definition kick :: "u64 \<Rightarrow> room \<Rightarrow> room" where
  "kick sid R = ((fst R)(sid := map_option (\<lambda>x. x\<lparr>leaving := True\<rparr>) (fst R sid)), snd R)"

text \<open>\<open>d\<close> is the payload after the type.\<close>

definition login_step :: "u64 \<Rightarrow> member \<Rightarrow> bytes \<Rightarrow> room \<Rightarrow> room option" where
  "login_step sid x d R =
     Some (if account x \<noteq> None \<or> length d \<noteq> 152 then kick sid R
       else let acc = le_decode (take 8 d);
                R1 = ((fst R)(sid \<mapsto> x\<lparr>account := Some acc\<rparr>), snd R);
                R2 = (case snd R acc of None \<Rightarrow> R1 | Some t \<Rightarrow> kick t R1)
            in (fst R2, (snd R2)(acc \<mapsto> sid)))"

definition move_step :: "u64 \<Rightarrow> member \<Rightarrow> bytes \<Rightarrow> room \<Rightarrow> room option" where
  "move_step sid x d R =
     (if account x = None \<or> length d \<noteq> 12 then Some (kick sid R)
      else let sx = le_decode (take 2 (drop 8 d)); sy = le_decode (take 2 (drop 10 d)) in
      if account x \<noteq> Some (le_decode (take 8 d)) then None
      else if 50 \<le> unat sx \<or> 50 \<le> unat sy then Some (kick sid R)
      else Some ((fst R)(sid \<mapsto> x\<lparr>place := Some (sx, sy)\<rparr>), snd R))"

definition message_step :: "u64 \<Rightarrow> member \<Rightarrow> bytes \<Rightarrow> room \<Rightarrow> room option" where
  "message_step sid x d R =
     (if account x = None \<or> place x = None \<or> length d < 10 then Some (kick sid R)
      else let n = unat (le_decode (take 2 (drop 8 d)) :: u16) in
      if account x \<noteq> Some (le_decode (take 8 d)) then None
      else if 1024 < n \<or> n \<noteq> length d - 10 then Some (kick sid R)
      else Some R)"

text \<open>\<open>stk\<close> is what an uninitialised type holds, for a payload shorter than the type.\<close>

definition recv_step :: "u16 \<Rightarrow> u64 \<Rightarrow> bytes \<Rightarrow> room \<Rightarrow> room option" where
  "recv_step stk sid data R =
     (case fst R sid of None \<Rightarrow> Some R
      | Some x \<Rightarrow>
        if leaving x then Some R
        else let type = (if length data < 2 then stk else le_decode (take 2 data));
                 d = (if length data < 2 then data else drop 2 data) in
        if type = en_PACKET_CS_CHAT_REQ_LOGIN then login_step sid x d R
        else if type = en_PACKET_CS_CHAT_REQ_SECTOR_MOVE then move_step sid x d R
        else if type = en_PACKET_CS_CHAT_REQ_MESSAGE then message_step sid x d R
        else if type = en_PACKET_CS_CHAT_REQ_HEARTBEAT then Some R
        else Some (kick sid R))"

definition accept_step :: "u64 \<Rightarrow> room \<Rightarrow> room option" where
  "accept_step sid R = Some ((fst R)(sid \<mapsto> \<lparr>account = None, place = None, leaving = False\<rparr>), snd R)"

definition release_step :: "u64 \<Rightarrow> room \<Rightarrow> room option" where
  "release_step sid R = Some (case fst R sid of None \<Rightarrow> R
     | Some x \<Rightarrow> ((fst R)(sid := None), case account x of None \<Rightarrow> snd R | Some acc \<Rightarrow> (snd R)(acc := None)))"

section \<open>Using the net server\<close>

lemma PushJob_work:
  assumes s: "work H l L js c r b s" and mal: "malloc_spec (ce_jobs ce)"
  shows "safe (\<lambda>s'. work H l L js c r b s' \<and> same_rx s s') (PushJob ce RELEASE sid p s)"
proof -
  let ?j = "\<lparr>job_type = RELEASE, job_sessionID = sid, job_packet = p\<rparr>"
  have J: "chat_J H l L (app s)" "waiting js (app s)" using s by (simp_all add: work_def srv_def)
  show ?thesis
  proof (rule safe_mono[OF PushJob_safe[OF J(1) mal]])
    fix s' assume "\<exists>a. s' = s\<lparr>app := a\<rparr> \<and> jobs_of a = jobs_of (app s) @ [?j] \<and>
      chat_J H l (if RELEASE = RECV_JOB then L @ [(sid, [])] else L) a"
    then obtain a where a: "s' = s\<lparr>app := a\<rparr>" "chat_J H l L a" "jobs_of a = jobs_of (app s) @ [?j]"
      by auto
    have ar: "chat_ar a = chat_ar (app s)" using a(3) by (simp add: fun_eq_iff chat_ar_def recv_jobs_def)
    obtain new where "jobs_of (app s) = js @ new" "\<forall>x\<in>set new. job_type x = RELEASE"
      using J(2) by (auto simp: waiting_def)
    then have "waiting js a" using a(3) unfolding waiting_def by (intro exI[of _ "new @ [?j]"]) auto
    then have "kept chat_ar (\<lambda>a. chat_J H l L a \<and> waiting js a) c r b s s'" unfolding a(1)
      by (intro srv_app[OF s[unfolded work_def]]) (simp_all add: a(2) ar)
    then show "work H l L js c r b s' \<and> same_rx s s'" by (simp add: kept_def work_def)
  qed
qed

lemma PushJob_sessions: "PushJob ce type sid p s = Inr s' \<Longrightarrow> m_sessions s' = m_sessions s"
  by (auto simp: PushJob_def elim!: and_then_InrE)

lemma chat_quiet: "quiet_release (chat_net ce)"
  by (auto simp: quiet_release_def Chat_OnRelease_def dest: PushJob_sessions)

sublocale chat_server \<subseteq> wk: net_release "chat_net ce" True chat_ar "\<lambda>a. chat_J H l L a \<and> waiting js a"
  for H l L js
proof (unfold_locales, goal_cases)
  case 1
  show ?case using env_ok by (simp add: chat_env_ok_def)
next
  case (2 tr e)
  then show ?case by simp
next
  case (3 c r b s sid)
  have "safe (\<lambda>s'. work H l L js c r b s' \<and> same_rx s s') (PushJob ce RELEASE sid 0 s)"
    by (rule PushJob_work) (use 3 env_ok in \<open>simp_all add: work_def chat_env_ok_def\<close>)
  then have "safe (kept chat_ar (\<lambda>a. chat_J H l L a \<and> waiting js a) c r b s) (PushJob ce RELEASE sid 0 s)"
    by (rule safe_mono) (simp add: kept_def work_def)
  then show ?case by (simp add: Chat_OnRelease_def)
qed

lemma work_net: "work H l L js c r b s \<Longrightarrow> net_inv chat_ar c s"
  by (simp add: work_def srv_def)

lemma work_refs: "work H l L js c r b s \<Longrightarrow> refs (packets s) p = held s p + c p + refs_in js p"
  using net_invD(4)[of chat_ar c s p] waiting_refs[of js "app s" p] by (simp add: work_def srv_def)

lemma work_packet:
  assumes "work H l L js c r b s" and "0 < c p"
  shows "\<exists>x. live (packets s) p = Some x \<and> packet_ok x"
proof -
  have "0 < refs (packets s) p" using work_refs[OF assms(1)] assms(2) by simp
  then obtain x where "live (packets s) p = Some x" using refs_live by blast
  with get_packet(2)[OF net_invD(2)[OF work_net[OF assms(1)]] this] show ?thesis by blast
qed

context chat_server begin

lemma disconnect_work:
  assumes "work H l L js c r b s" and "\<forall>j. r j < 98"
  shows "safe (\<lambda>(s', ok). work H l L js c r b s' \<and> same_rx s s') (Disconnect (chat_net ce) sid s)"
  by (rule safe_mono[OF wk.Disconnect_safe[OF assms[unfolded work_def]]])
    (auto simp: kept_def work_def)

lemma send_work:
  assumes s: "work H l L js c r b s" and r: "\<forall>j. r j < 98" and p: "0 < c p" and lim: "refs (packets s) p < 2 ^ 31 - 1"
  shows "safe (\<lambda>(s', ok). work H l L js c r b s' \<and> same_rx s s' \<and> refs (packets s') p \<le> refs (packets s) p + 1)
    (SendPacket (chat_net ce) sid p s)"
proof (rule safe_strengthen)
  show "safe (\<lambda>(s', ok). work H l L js c r b s' \<and> same_rx s s') (SendPacket (chat_net ce) sid p s)"
    by (rule safe_mono[OF wk.SendPacket_safe[OF s[unfolded work_def] r p lim]])
      (auto simp: kept_def work_def)
next
  fix v assume e: "SendPacket (chat_net ce) sid p s = Inr v" and k: "(\<lambda>(s', ok). work H l L js c r b s' \<and> same_rx s s') v"
  obtain s' ok where v: "v = (s', ok)" by (cases v)
  have "held s' p \<le> held s p + of_bool (p = p)"
    by (rule wk.SendPacket_held[OF s[unfolded work_def] r p lim chat_quiet e[unfolded v]])
  then show "(\<lambda>(s', ok). work H l L js c r b s' \<and> same_rx s s' \<and> refs (packets s') p \<le> refs (packets s) p + 1) v"
    using k v work_refs[OF s, of p] work_refs[of H l L js c r b s' p] by auto
qed

end

section \<open>Kicking\<close>

definition lobby_gives :: "u64 list \<Rightarrow> (u64 \<times> bytes) list \<Rightarrow> job list \<Rightarrow> (u64 \<Rightarrow> nat) \<Rightarrow> (nat \<Rightarrow> nat) \<Rightarrow>
    nat set \<Rightarrow> chat server \<Rightarrow> room option \<Rightarrow> chat server \<Rightarrow> bool" where
  "lobby_gives H L js c r b s R s' \<longleftrightarrow>
     (\<exists>l. work H l L js c r b s' \<and> same_rx s s' \<and> lobby_inv l \<and> R = Some (room_of l))"

lemma lobby_givesI:
  "work H l L js c r b s' \<Longrightarrow> same_rx s s' \<Longrightarrow> lobby_inv l \<Longrightarrow> R = Some (room_of l) \<Longrightarrow> lobby_gives H L js c r b s R s'"
  unfolding lobby_gives_def by blast

lemma lobby_gives_trans: "same_rx s s1 \<Longrightarrow> lobby_gives H L js c r b s1 R s' \<Longrightarrow> lobby_gives H L js c r b s R s'"
  unfolding lobby_gives_def using same_rx_trans by blast

lemma safe_gives_trans:
  "safe (lobby_gives H L js c r b s1 R) res \<Longrightarrow> same_rx s s1 \<Longrightarrow> safe (lobby_gives H L js c r b s R) res"
  by (erule safe_mono) (rule lobby_gives_trans)

lemma lobby_invI: "store_inv player_ok pp \<Longrightarrow> players_inv sm am sec (live pp) {} \<Longrightarrow> lobby_inv (sm, am, sec, pp)"
  by (simp add: lobby_inv_def)

lemma lobby_invD: "lobby_inv (sm, am, sec, pp) \<Longrightarrow> store_inv player_ok pp \<and> players_inv sm am sec (live pp) {}"
  by (simp add: lobby_inv_def)

lemma room_upd:
  assumes I: "players_inv sm am sec (live pp) Q" and x: "live pp p = Some x"
    and pp: "live pp' = (live pp)(p \<mapsto> y)" "sessionId y = sessionId x"
  shows "room_of (sm, am, sec', pp') =
    ((fst (room_of (sm, am, sec, pp)))(sessionId x \<mapsto> member_of y), snd (room_of (sm, am, sec, pp)))"
  using through_upd_member[OF I x, of y member_of] through_upd_same[where g = sessionId and m = "live pp", OF x, of y am] pp
  by (simp add: room_of_def)

lemma room_upd_same:
  assumes I: "players_inv sm am sec (live pp) Q" and x: "live pp p = Some x"
    and pp: "live pp' = (live pp)(p \<mapsto> y)" "sessionId y = sessionId x" "member_of y = member_of x"
  shows "room_of (sm, am, sec', pp') = room_of (sm, am, sec, pp)"
  using room_upd[OF I x pp(1,2), of sec'] room_member[OF I x] pp(3) by (simp add: fun_upd_idem)

text \<open>Rewriting a player in place, as a step of the lobby.\<close>

lemma rewrite_player:
  assumes w: "work H l L js c r b s" and I: "lobby_inv l" and l: "l = (sm, am, sec, pp)" and x: "live pp p = Some x"
    and f: "player_ok (f x)" "sessionId (f x) = sessionId x"
      "isLogin x \<longrightarrow> isLogin (f x) \<and> accountNo (f x) = accountNo x"
      "sectorX (f x) = sectorX x" "sectorY (f x) = sectorY x" "sectorIndex (f x) = sectorIndex x"
  shows "\<exists>pp'. upd_player p f s = Inr (in_lobby (sm, am, sec, pp') s) \<and> lobby_inv (sm, am, sec, pp') \<and>
    work H (sm, am, sec, pp') L js c r b (in_lobby (sm, am, sec, pp') s) \<and> live pp' = (live pp)(p \<mapsto> f x) \<and>
    room_of (sm, am, sec, pp') = ((fst (room_of l))(sessionId x \<mapsto> member_of (f x)), snd (room_of l))"
proof -
  have st: "store_inv player_ok pp" and P: "players_inv sm am sec (live pp) {}" using I l lobby_invD by blast+
  have lo: "lobby_of (app s) = (sm, am, sec, pp)" using work_lobby_of[OF w] l by simp
  obtain pp' where 1: "upd_player p f s = Inr (in_lobby (sm, am, sec, pp') s)" "store_inv player_ok pp'"
    "live pp' = (live pp)(p \<mapsto> f x)" using upd_player_ok[where f = f, OF lo st x f(1)] by blast
  have "players_inv sm am sec (live pp') {}" unfolding 1(3) by (rule players_rewrite[OF P x f(2-6)])
  with 1 room_upd[OF P x 1(3) f(2), of sec] l work_in_lobby[OF w, of "(sm, am, sec, pp')"] lobby_invI show ?thesis
    by blast
qed

context chat_server begin

lemma kick_exact:
  assumes w: "work H l L js c r b s" and I: "lobby_inv l" and l: "l = (sm, am, sec, pp)" and x: "live pp p = Some x"
    and r: "\<forall>j. r j < 98"
  shows "safe (\<lambda>s'. \<exists>pp'. work H (sm, am, sec, pp') L js c r b s' \<and> same_rx s s' \<and> lobby_inv (sm, am, sec, pp') \<and>
    live pp' = (live pp)(p \<mapsto> x\<lparr>isDisconnecting := True\<rparr>) \<and>
    room_of (sm, am, sec, pp') = kick (sessionId x) (room_of l)) (DisconnectPlayer ce p s)"
    (is "safe ?Q _")
proof -
  have st: "store_inv player_ok pp" and P: "players_inv sm am sec (live pp) {}" using I l lobby_invD by blast+
  have lo: "lobby_of (app s) = (sm, am, sec, pp)" using work_lobby_of[OF w] l by simp
  have M: "fst (room_of l) (sessionId x) = Some (member_of x)" using room_member[OF P x] l by simp
  note g = get_player_ok[OF lo st x]
  show ?thesis
  proof (cases "isDisconnecting x")
    case True
    then have same: "x\<lparr>isDisconnecting := True\<rparr> = x" by (cases x) simp
    then have "(member_of x)\<lparr>leaving := True\<rparr> = member_of x" using True by (simp add: member_of_def)
    then have "kick (sessionId x) (room_of l) = room_of l" using M by (simp add: kick_def fun_upd_idem)
    then have "?Q s" using same w I x l by (intro exI[of _ pp]) (simp add: fun_upd_idem)
    then show ?thesis using True g by (simp add: DisconnectPlayer_def)
  next
    case False
    let ?f = "\<lambda>x. x\<lparr>isDisconnecting := True\<rparr>"
    have "player_ok x" using store_get(2)[OF st x] .
    then obtain pp' where 1: "upd_player p ?f s = Inr (in_lobby (sm, am, sec, pp') s)" "lobby_inv (sm, am, sec, pp')"
      "work H (sm, am, sec, pp') L js c r b (in_lobby (sm, am, sec, pp') s)" "live pp' = (live pp)(p \<mapsto> ?f x)"
      "room_of (sm, am, sec, pp') = ((fst (room_of l))(sessionId x \<mapsto> member_of (?f x)), snd (room_of l))"
      using rewrite_player[where f = ?f, OF w I l x] by auto
    have R: "room_of (sm, am, sec, pp') = kick (sessionId x) (room_of l)"
      using 1(5) M by (simp add: kick_def member_of_def)
    have "safe ?Q (and_then (Disconnect (chat_net ce) (sessionId x) (in_lobby (sm, am, sec, pp') s)) (\<lambda>(s, _). Inr s))"
    proof (rule safe_and_then[OF disconnect_work[OF 1(3) r]])
      fix v assume "(\<lambda>(s', ok). work H (sm, am, sec, pp') L js c r b s' \<and> same_rx (in_lobby (sm, am, sec, pp') s) s') v"
      then show "safe ?Q (case v of (s, _) \<Rightarrow> Inr s)" using 1(2,4) R by (cases v) auto
    qed
    then show ?thesis using False g 1(1) by (simp add: DisconnectPlayer_def)
  qed
qed

text \<open>What a kick does exactly: unless the player is leaving already, it is marked and the socket of its
  session closed, if that session is still there.\<close>

lemma kick_eq:
  assumes w: "work H (sm, am, sec, pp) L js c r b s" and I: "lobby_inv (sm, am, sec, pp)" and x: "live pp p = Some x"
  shows "\<exists>pp'. DisconnectPlayer ce p s = Inr (in_lobby (sm, am, sec, pp') (s\<lparr>trace := trace s @
      (if \<not> isDisconnecting x \<and> found s (sessionId x) then [EvClose (sock_of s (sessionId x))] else [])\<rparr>)) \<and>
    lobby_inv (sm, am, sec, pp') \<and> live pp' = (live pp)(p \<mapsto> x\<lparr>isDisconnecting := True\<rparr>)"
proof -
  have st: "store_inv player_ok pp" using I lobby_invD by blast
  have lo: "lobby_of (app s) = (sm, am, sec, pp)" by (rule work_lobby_of[OF w])
  note g = get_player_ok[OF lo st x]
  show ?thesis
  proof (cases "isDisconnecting x")
    case True
    then have "x\<lparr>isDisconnecting := True\<rparr> = x" by (cases x) simp
    moreover have "in_lobby (sm, am, sec, pp) s = s" using lo by (rule in_lobby_same)
    ultimately show ?thesis using True g I x by (intro exI[of _ pp]) (simp add: DisconnectPlayer_def fun_upd_idem)
  next
    case False
    let ?f = "\<lambda>x. x\<lparr>isDisconnecting := True\<rparr>"
    have "player_ok x" using store_get(2)[OF st x] .
    then obtain pp' where 1: "upd_player p ?f s = Inr (in_lobby (sm, am, sec, pp') s)" "lobby_inv (sm, am, sec, pp')"
      "work H (sm, am, sec, pp') L js c r b (in_lobby (sm, am, sec, pp') s)" "live pp' = (live pp)(p \<mapsto> ?f x)"
      using rewrite_player[where f = ?f, OF w I refl x] by auto
    have S: "net_inv chat_ar c (in_lobby (sm, am, sec, pp') s)" "io_inv r b (in_lobby (sm, am, sec, pp') s)"
      using 1(3) by (simp_all add: work_def srv_def)
    have f: "found (in_lobby (sm, am, sec, pp') s) (sessionId x) = found s (sessionId x)"
      by (simp add: found_def)
    have "DisconnectPlayer ce p s = Inr (if found s (sessionId x)
        then emit (EvClose (sock_of s (sessionId x))) (in_lobby (sm, am, sec, pp') s) else in_lobby (sm, am, sec, pp') s)"
      using False g 1(1) Disconnect_eq[OF S, of "chat_net ce" "sessionId x"] f by (simp add: DisconnectPlayer_def)
    then show ?thesis using False 1(2,4) by (intro exI[of _ pp']) (simp add: emit_def in_lobby_def)
  qed
qed

lemma kick_work:
  assumes w: "work H l L js c r b s" and I: "lobby_inv l" and l: "l = (sm, am, sec, pp)" and x: "live pp p = Some x"
    and r: "\<forall>j. r j < 98"
  shows "safe (lobby_gives H L js c r b s (Some (kick (sessionId x) (room_of l)))) (DisconnectPlayer ce p s)"
  by (rule safe_mono[OF kick_exact[OF assms]]) (auto intro: lobby_givesI)

end

section \<open>Packets of the job and of the response\<close>

lemma record_twice: "s\<lparr>packets := a\<rparr>\<lparr>packets := b\<rparr> = s\<lparr>packets := b\<rparr>"
  by simp

lemma data_size_ok:
  assumes "work H l L js c r b s" and "live (packets s) p = Some x"
  shows "data_size p s = Inr (int (length (packet_data x)))"
proof -
  note G = get_packet[OF net_invD(2)[OF work_net[OF assms(1)]] assms(2)]
  have "packet_inv x" using G(2) by (simp add: packet_ok_def)
  then show ?thesis using G(1) length_packet_data[of x] by (simp add: data_size_def)
qed

lemma read_packet_ok:
  assumes w: "work H l L js c r b s" and x: "live (packets s) p = Some x"
    and f: "f x = Inr (y, v)" "packet_inv y" "m_iBufferSize y = m_iBufferSize x" "m_refCount y = m_refCount x"
  shows "\<exists>pool. read_packet p f s = Inr (s\<lparr>packets := pool\<rparr>, v) \<and> work H l L js c r b (s\<lparr>packets := pool\<rparr>) \<and>
    live pool = (live (packets s))(p \<mapsto> y)"
proof -
  note G = get_packet[OF net_invD(2)[OF work_net[OF w]] x]
  have "packet_ok y" using f G(2) by (simp add: packet_ok_def)
  from put_packet_srv[OF w[unfolded work_def] x this f(4)] obtain pool where
    "obj_put (packets s) p y = Inr pool" "work H l L js c r b (s\<lparr>packets := pool\<rparr>)"
    "live pool = (live (packets s))(p \<mapsto> y)" by (auto simp: work_def)
  then show ?thesis using G(1) f(1) by (intro exI[of _ pool]) (simp add: read_packet_def)
qed

lemma read_field:
  fixes old :: "'a::len word"
  assumes w: "work H l L js c r b s" and x: "live (packets s) p = Some x" and n: "n \<le> length (packet_data x)"
  shows "\<exists>pool y. read_packet p (\<lambda>k. Packet_get n k old) s = Inr (s\<lparr>packets := pool\<rparr>, le_decode (take n (packet_data x))) \<and>
    work H l L js c r b (s\<lparr>packets := pool\<rparr>) \<and> live (packets (s\<lparr>packets := pool\<rparr>)) p = Some y \<and>
    packet_data y = drop n (packet_data x)"
proof -
  note G = get_packet[OF net_invD(2)[OF work_net[OF w]] x]
  have "packet_inv x" using G(2) by (simp add: packet_ok_def)
  from get_ok[OF this n, of old] obtain y where y: "Packet_get n x old = Inr (y, le_decode (take n (packet_data x)))"
    "packet_inv y" "packet_data y = drop n (packet_data x)" "m_refCount y = m_refCount x"
    "m_iBufferSize y = m_iBufferSize x" by blast
  from read_packet_ok[where f = "\<lambda>k. Packet_get n k old", OF w x y(1,2,5,4)] y(3) show ?thesis by fastforce
qed

lemma get_bytes_ok:
  assumes "packet_inv x" and "n \<le> length dst"
  shows "\<exists>y. get_bytes dst (int n) x = Inr (y, splice dst 0 (take n (packet_data x))) \<and> packet_inv y \<and>
    m_iBufferSize y = m_iBufferSize x \<and> m_refCount y = m_refCount x"
proof -
  define k where "k = min n (length (packet_data x))"
  have k: "k \<le> length dst" "take k (packet_data x) = take n (packet_data x)" using assms(2) by (auto simp: k_def min_def)
  from GetData_ok[OF assms(1) k_def k(1)] obtain y where
    "Packet_GetData x dst (int n) = Inr (y, splice dst 0 (take k (packet_data x)), int k)" "packet_inv y"
    "m_refCount y = m_refCount x" "m_iBufferSize y = m_iBufferSize x" by blast
  then show ?thesis using k by (simp add: get_bytes_def)
qed

lemma read_bytes_at:
  assumes w: "work H l L js c r b s" and x: "live (packets s) p = Some x" and n: "n \<le> length dst"
  shows "\<exists>pool. read_packet p (get_bytes dst (int n)) s =
      Inr (s\<lparr>packets := pool\<rparr>, splice dst 0 (take n (packet_data x))) \<and> work H l L js c r b (s\<lparr>packets := pool\<rparr>)"
proof -
  have "packet_inv x" using get_packet(2)[OF net_invD(2)[OF work_net[OF w]] x] by (simp add: packet_ok_def)
  from get_bytes_ok[OF this n] obtain y where y: "get_bytes dst (int n) x = Inr (y, splice dst 0 (take n (packet_data x)))"
    "packet_inv y" "m_iBufferSize y = m_iBufferSize x" "m_refCount y = m_refCount x" by blast
  from read_packet_ok[where f = "get_bytes dst (int n)", OF w x y] show ?thesis by blast
qed

lemma read_bytes:
  assumes w: "work H l L js c r b s" and p: "0 < c p" and n: "n \<le> length dst"
  shows "\<exists>pool v. read_packet p (get_bytes dst (int n)) s = Inr (s\<lparr>packets := pool\<rparr>, v) \<and>
    work H l L js c r b (s\<lparr>packets := pool\<rparr>) \<and> length v = length dst"
proof -
  obtain x where x: "live (packets s) p = Some x" using work_packet[OF w p] by blast
  have "length (splice dst 0 (take n (packet_data x))) = length dst" using n by simp
  with read_bytes_at[OF w x n] show ?thesis by blast
qed

text \<open>Responses: the bytes written into a fresh packet.\<close>

definition filled :: "bytes \<Rightarrow> packet \<Rightarrow> bool" where
  "filled bs y \<longleftrightarrow> packet_ok y \<and> m_refCount y = 1 \<and> packet_payload y = bs \<and> \<not> m_bEncoded y \<and>
     packet_room y = 1400 - int (length bs)"

lemma fresh_filled: "fresh_packet x \<Longrightarrow> filled [] x"
  by (auto simp: fresh_packet_def filled_def packet_payload_def packet_room_def packet_ok_def)

lemma filled_put:
  assumes y: "filled bs y" and n: "length bs + n \<le> 1400"
  shows "\<exists>z. Packet_put n y w = Inr z \<and> filled (bs @ le_encode n w) z"
proof -
  have "packet_inv y" "int n \<le> packet_room y" using y n by (simp_all add: filled_def packet_ok_def)
  from put_ok[OF this, of w] y show ?thesis by (auto simp: filled_def packet_ok_def)
qed

lemma filled_bytes:
  assumes y: "filled bs y" and n: "length bs + n \<le> 1400" "n \<le> length src"
  shows "\<exists>z. put_bytes src (int n) y = Inr z \<and> filled (bs @ take n src) z"
proof -
  have i: "packet_inv y" "n = min n (nat (packet_room y))" using y n by (simp_all add: filled_def packet_ok_def)
  from PutData_ok[OF i n(2)] y n show ?thesis by (auto simp: filled_def packet_ok_def put_bytes_def)
qed

definition response :: "(packet \<Rightarrow> packet result) \<Rightarrow> bytes \<Rightarrow> bool" where
  "response f bs \<longleftrightarrow> (\<forall>x. filled [] x \<longrightarrow> (\<exists>y. f x = Inr y \<and> filled bs y))"

lemma response_and_then:
  "\<exists>y. f x = Inr y \<and> filled cs y \<Longrightarrow> (\<And>y. filled cs y \<Longrightarrow> \<exists>z. g y = Inr z \<and> filled bs z) \<Longrightarrow>
   \<exists>z. and_then (f x) g = Inr z \<and> filled bs z"
  by auto

definition res_login :: "u64 \<Rightarrow> bytes" where
  "res_login acc = le_encode 2 en_PACKET_CS_CHAT_RES_LOGIN @ le_encode 1 (1 :: u8) @ le_encode 8 acc"

definition res_move :: "u64 \<Rightarrow> u16 \<Rightarrow> u16 \<Rightarrow> bytes" where
  "res_move acc sx sy = le_encode 2 en_PACKET_CS_CHAT_RES_SECTOR_MOVE @ le_encode 8 acc @ le_encode 2 sx @ le_encode 2 sy"

definition res_message :: "player \<Rightarrow> bytes \<Rightarrow> bytes" where
  "res_message x msg = le_encode 2 en_PACKET_CS_CHAT_RES_MESSAGE @ le_encode 8 (accountNo x) @ player_id x @
     nickname x @ le_encode 2 (of_nat (length msg) :: u16) @ msg"

lemma response_login: "response (mpResLogin 1 acc) (res_login acc)"
  unfolding response_def mpResLogin_def Packet_put8_def Packet_put16_def Packet_put64_def
proof (intro allI impI)
  fix x assume x: "filled [] x"
  let ?b1 = "le_encode 2 en_PACKET_CS_CHAT_RES_LOGIN"
  obtain y where y: "Packet_put 2 x en_PACKET_CS_CHAT_RES_LOGIN = Inr y" "filled ?b1 y"
    using filled_put[OF x, of 2] by force
  obtain z where z: "Packet_put 1 y (1 :: u8) = Inr z" "filled (?b1 @ le_encode 1 (1 :: u8)) z"
    using filled_put[OF y(2), of 1] by fastforce
  obtain u where u: "Packet_put 8 z acc = Inr u" "filled ((?b1 @ le_encode 1 (1 :: u8)) @ le_encode 8 acc) u"
    using filled_put[OF z(2), of 8] by fastforce
  show "\<exists>u. and_then (Packet_put 2 x en_PACKET_CS_CHAT_RES_LOGIN) (\<lambda>x. and_then (Packet_put 1 x (1 :: u8))
      (\<lambda>x. Packet_put 8 x acc)) = Inr u \<and> filled (res_login acc) u"
    using y z u by (simp add: res_login_def)
qed

lemma response_move: "response (mpResSectorMove acc sx sy) (res_move acc sx sy)"
  unfolding response_def mpResSectorMove_def Packet_put16_def Packet_put64_def
proof (intro allI impI)
  fix x assume x: "filled [] x"
  let ?b1 = "le_encode 2 en_PACKET_CS_CHAT_RES_SECTOR_MOVE"
  obtain y where y: "Packet_put 2 x en_PACKET_CS_CHAT_RES_SECTOR_MOVE = Inr y" "filled ?b1 y"
    using filled_put[OF x, of 2] by force
  obtain z where z: "Packet_put 8 y acc = Inr z" "filled (?b1 @ le_encode 8 acc) z"
    using filled_put[OF y(2), of 8] by fastforce
  obtain u where u: "Packet_put 2 z sx = Inr u" "filled ((?b1 @ le_encode 8 acc) @ le_encode 2 sx) u"
    using filled_put[OF z(2), of 2] by fastforce
  obtain v where v: "Packet_put 2 u sy = Inr v" "filled (((?b1 @ le_encode 8 acc) @ le_encode 2 sx) @ le_encode 2 sy) v"
    using filled_put[OF u(2), of 2] by fastforce
  show "\<exists>u. and_then (Packet_put 2 x en_PACKET_CS_CHAT_RES_SECTOR_MOVE) (\<lambda>x. and_then (Packet_put 8 x acc)
      (\<lambda>x. and_then (Packet_put 2 x sx) (\<lambda>x. Packet_put 2 x sy))) = Inr u \<and> filled (res_move acc sx sy) u"
    using y z u v by (simp add: res_move_def)
qed

lemma response_message:
  assumes x: "player_ok x" and n: "unat n \<le> 1024" "unat n \<le> length msg"
  shows "response (mpResMessage (accountNo x) (player_id x) (nickname x) n msg) (res_message x (take (unat n) msg))"
  unfolding response_def mpResMessage_def Packet_put16_def Packet_put64_def
proof (intro allI impI)
  fix k assume k: "filled [] k"
  let ?b1 = "le_encode 2 en_PACKET_CS_CHAT_RES_MESSAGE"
  let ?b2 = "?b1 @ le_encode 8 (accountNo x)"
  have len: "length (player_id x) = 40" "length (nickname x) = 40" using x by (simp_all add: player_ok_def)
  obtain k1 where 1: "Packet_put 2 k en_PACKET_CS_CHAT_RES_MESSAGE = Inr k1" "filled ?b1 k1"
    using filled_put[OF k, of 2] by force
  obtain k2 where 2: "Packet_put 8 k1 (accountNo x) = Inr k2" "filled ?b2 k2"
    using filled_put[OF 1(2), of 8] by fastforce
  obtain k3 where 3: "put_bytes (player_id x) 40 k2 = Inr k3" "filled (?b2 @ player_id x) k3"
    using filled_bytes[OF 2(2), of 40 "player_id x"] len by fastforce
  obtain k4 where 4: "put_bytes (nickname x) 40 k3 = Inr k4" "filled ((?b2 @ player_id x) @ nickname x) k4"
    using filled_bytes[OF 3(2), of 40 "nickname x"] len by fastforce
  obtain k5 where 5: "Packet_put 2 k4 n = Inr k5" "filled (((?b2 @ player_id x) @ nickname x) @ le_encode 2 n) k5"
    using filled_put[OF 4(2), of 2 n] len by fastforce
  obtain k6 where 6: "put_bytes msg (int (unat n)) k5 = Inr k6"
    "filled ((((?b2 @ player_id x) @ nickname x) @ le_encode 2 n) @ take (unat n) msg) k6"
    using filled_bytes[OF 5(2), of "unat n" msg] len n by fastforce
  have "(of_nat (length (take (unat n) msg)) :: u16) = n" using n(2) by (simp add: min_absorb2)
  then show "\<exists>u. and_then (Packet_put 2 k en_PACKET_CS_CHAT_RES_MESSAGE) (\<lambda>x'. and_then (Packet_put 8 x' (accountNo x))
      (\<lambda>x'. and_then (put_bytes (player_id x) 40 x') (\<lambda>x'. and_then (put_bytes (nickname x) 40 x')
      (\<lambda>x'. and_then (Packet_put 2 x' n) (put_bytes msg (int (unat n))))))) = Inr u \<and>
      filled (res_message x (take (unat n) msg)) u"
    using 1 2 3 4 5 6 by (simp add: res_message_def)
qed

end
