(* ===== verification/ChatHandlers.thy ===== *)
theory ChatHandlers
  imports ChatLobby
begin

text \<open>
  The handlers of the contents thread on a consistent lobby: each is safe and has the effect that the
  abstract server computes.
\<close>

section \<open>Answering\<close>

context chat_server begin

lemma alloc_work:
  assumes w: "work H l L js c r b s"
  shows "safe (\<lambda>(s', p). \<exists>pool x. s' = s\<lparr>packets := pool\<rparr> \<and> live (packets s) p = None \<and>
    live pool = (live (packets s))(p \<mapsto> x) \<and> filled [] x \<and> c p = 0 \<and> work H l L js (c(p := 1)) r b s')
    (AllocPacket (chat_net ce) s)"
proof -
  have "pkt_env (ne_pool (chat_net ce))" using env_ok by (simp add: chat_env_ok_def)
  from AllocPacket_srv[OF w[unfolded work_def] this] show ?thesis
    unfolding work_def[symmetric] by (rule safe_mono) (auto dest: fresh_filled)
qed

lemma fill_work:
  assumes w: "work H l L js c r b s" and x: "live (packets s) p = Some x" "filled [] x" and f: "response f bs"
  shows "\<exists>pool y. on_pool (on_packet p f) s = Inr (s\<lparr>packets := pool\<rparr>) \<and> work H l L js c r b (s\<lparr>packets := pool\<rparr>) \<and>
    live pool = (live (packets s))(p \<mapsto> y) \<and> filled bs y"
proof -
  obtain y where y: "f x = Inr y" "filled bs y" using f x(2) by (auto simp: response_def)
  have "packet_ok y" "m_refCount y = m_refCount x" using y(2) x(2) by (simp_all add: filled_def)
  from put_packet_srv[OF w[unfolded work_def] x(1) this] obtain pool where
    "obj_put (packets s) p y = Inr pool" "work H l L js c r b (s\<lparr>packets := pool\<rparr>)"
    "live pool = (live (packets s))(p \<mapsto> y)" by (auto simp: work_def)
  then show ?thesis using y get_packet(1)[OF net_invD(2)[OF work_net[OF w]] x(1)]
    by (intro exI[of _ pool] exI[of _ y]) (simp add: on_pool_def on_packet_def)
qed

lemma free_work:
  assumes w: "work H l L js c r b s" and p: "0 < c p"
  shows "\<exists>pool. FreePacket (chat_net ce) p s = Inr (s\<lparr>packets := pool\<rparr>) \<and>
    work H l L js (c(p := c p - 1)) r b (s\<lparr>packets := pool\<rparr>)"
  using FreePacket_srv[OF w[unfolded work_def] p, of "chat_net ce"] by (simp add: work_def)

text \<open>Allocate, fill, send to one session, free, and go on.\<close>

lemma respond_work:
  assumes w: "work H l L js c r b s" and r: "\<forall>j. r j < 98" and f: "response f bs"
    and k: "\<And>s'. work H l L js c r b s' \<Longrightarrow> same_rx s s' \<Longrightarrow> safe Q (k s')"
  shows "safe Q (and_then (AllocPacket (chat_net ce) s) (\<lambda>(s, p).
    and_then (on_pool (on_packet p f) s) (\<lambda>s.
    and_then (SendPacket (chat_net ce) sid p s) (\<lambda>(s, _).
    and_then (FreePacket (chat_net ce) p s) k))))"
proof (rule safe_and_then[OF alloc_work[OF w]])
  fix v assume "(\<lambda>(s', p). \<exists>pool x. s' = s\<lparr>packets := pool\<rparr> \<and> live (packets s) p = None \<and>
    live pool = (live (packets s))(p \<mapsto> x) \<and> filled [] x \<and> c p = 0 \<and> work H l L js (c(p := 1)) r b s') v"
  then obtain p pool x where v: "v = (s\<lparr>packets := pool\<rparr>, p)" "live (packets (s\<lparr>packets := pool\<rparr>)) p = Some x"
    "filled [] x" "c p = 0" "work H l L js (c(p := 1)) r b (s\<lparr>packets := pool\<rparr>)" by (cases v) auto
  obtain pool2 y where 2: "on_pool (on_packet p f) (s\<lparr>packets := pool\<rparr>) = Inr (s\<lparr>packets := pool2\<rparr>)"
    "work H l L js (c(p := 1)) r b (s\<lparr>packets := pool2\<rparr>)" "live pool2 p = Some y" "filled bs y"
    using fill_work[OF v(5,2,3) f] by fastforce
  have "refs pool2 p = 1" using 2(3,4) by (simp add: refs_def filled_def)
  then have lim: "refs (packets (s\<lparr>packets := pool2\<rparr>)) p < 2 ^ 31 - 1" by simp
  have "safe Q (and_then (SendPacket (chat_net ce) sid p (s\<lparr>packets := pool2\<rparr>)) (\<lambda>(s, _).
      and_then (FreePacket (chat_net ce) p s) k))"
  proof (rule safe_and_then[OF send_work[OF 2(2) r _ lim]])
    show "0 < (c(p := 1)) p" by simp
    fix u assume "(\<lambda>(s', ok). work H l L js (c(p := 1)) r b s' \<and> same_rx (s\<lparr>packets := pool2\<rparr>) s' \<and>
      refs (packets s') p \<le> refs (packets (s\<lparr>packets := pool2\<rparr>)) p + 1) u"
    then obtain s3 ok where u: "u = (s3, ok)" "work H l L js (c(p := 1)) r b s3" "same_rx s s3" by (cases u) auto
    obtain pool4 where 4: "FreePacket (chat_net ce) p s3 = Inr (s3\<lparr>packets := pool4\<rparr>)"
      "work H l L js ((c(p := 1))(p := (c(p := 1)) p - 1)) r b (s3\<lparr>packets := pool4\<rparr>)"
      using free_work[OF u(2), of p] by auto
    have "(c(p := 1))(p := (c(p := 1)) p - 1) = c" using v(4) by (simp add: fun_upd_idem)
    then have "safe Q (k (s3\<lparr>packets := pool4\<rparr>))" using 4(2) u(3) by (intro k) simp_all
    then show "safe Q (case u of (s, _) \<Rightarrow> and_then (FreePacket (chat_net ce) p s) k)" using u(1) 4(1) by simp
  qed
  then show "safe Q (case v of (s, p) \<Rightarrow> and_then (on_pool (on_packet p f) s) (\<lambda>s.
    and_then (SendPacket (chat_net ce) sid p s) (\<lambda>(s, _). and_then (FreePacket (chat_net ce) p s) k)))"
    using v(1) 2(1) by simp
qed

end

section \<open>Logging in\<close>

lemma set_account_eq:
  "lobby_of (app s) = (sm, am, sec, pp) \<Longrightarrow>
   s\<lparr>app := (app s)\<lparr>accountMap := m\<rparr>\<rparr> = in_lobby (sm, m, sec, pp) s"
  by (cases "app s") (simp add: in_lobby_def set_lobby_def lobby_of_def)

lemma players_login:
  assumes I: "players_inv sm am sec m Q" and p: "m p = Some x" "isLogin x" "accountNo x = acc"
  shows "players_inv sm (am(acc \<mapsto> p)) sec m Q"
  using I p unfolding players_inv_def by auto

lemma room_login:
  "live pp p = Some x \<Longrightarrow> room_of (sm, am(acc \<mapsto> p), sec, pp) =
   (fst (room_of (sm, am, sec, pp)), (snd (room_of (sm, am, sec, pp)))(acc \<mapsto> sessionId x))"
  by (simp add: room_of_def fun_eq_iff through_def)

context chat_server begin

lemma login_tail:
  fixes acc :: u64
  assumes w: "work H l L js c r b s" and I: "lobby_inv l" and l: "l = (sm, am, sec, pp)" and x: "live pp pl = Some x"
    and r: "\<forall>j. r j < 98" and p: "0 < c p" and nl: "\<not> isLogin x"
  defines "R1 \<equiv> ((fst (room_of l))(sessionId x \<mapsto> (member_of x)\<lparr>account := Some acc\<rparr>), snd (room_of l))"
  defines "R2 \<equiv> (case snd (room_of l) acc of None \<Rightarrow> R1 | Some t \<Rightarrow> kick t R1)"
  shows "safe (lobby_gives H L js c r b s (Some (fst R2, (snd R2)(acc \<mapsto> sessionId x))))
    (and_then (read_packet p (get_bytes (player_id x) 40) s) (\<lambda>(s, ident).
     and_then (read_packet p (get_bytes (nickname x) 40) s) (\<lambda>(s, nick).
     and_then (read_packet p (get_bytes (sessionKey x) 64) s) (\<lambda>(s, key).
     and_then (upd_player pl (\<lambda>x. x\<lparr>player_id := ident, nickname := nick, sessionKey := key,
       accountNo := acc, isLogin := True\<rparr>) s) (\<lambda>s.
     and_then (case accountMap (app s) acc of None \<Rightarrow> Inr s | Some q \<Rightarrow> DisconnectPlayer ce q s) (\<lambda>s.
     Inr (s\<lparr>app := (app s)\<lparr>accountMap := (accountMap (app s))(acc \<mapsto> pl)\<rparr>\<rparr>)))))))"
proof -
  have st: "store_inv player_ok pp" and P: "players_inv sm am sec (live pp) {}" using I l lobby_invD by blast+
  have ok: "length (player_id x) = 40" "length (nickname x) = 40" "length (sessionKey x) = 64"
    using store_get(2)[OF st x] by (simp_all add: player_ok_def)
  obtain k1 ident where 1: "read_packet p (get_bytes (player_id x) 40) s = Inr (s\<lparr>packets := k1\<rparr>, ident)"
    "work H l L js c r b (s\<lparr>packets := k1\<rparr>)" "length ident = 40"
    using read_bytes[OF w p, of 40 "player_id x"] ok by auto
  obtain k2 nick where 2: "read_packet p (get_bytes (nickname x) 40) (s\<lparr>packets := k1\<rparr>) = Inr (s\<lparr>packets := k2\<rparr>, nick)"
    "work H l L js c r b (s\<lparr>packets := k2\<rparr>)" "length nick = 40"
    using read_bytes[OF 1(2) p, of 40 "nickname x"] ok by auto
  obtain k3 key where 3: "read_packet p (get_bytes (sessionKey x) 64) (s\<lparr>packets := k2\<rparr>) = Inr (s\<lparr>packets := k3\<rparr>, key)"
    "work H l L js c r b (s\<lparr>packets := k3\<rparr>)" "length key = 64"
    using read_bytes[OF 2(2) p, of 64 "sessionKey x"] ok by auto
  let ?f = "\<lambda>x. x\<lparr>player_id := ident, nickname := nick, sessionKey := key, accountNo := acc, isLogin := True\<rparr>"
  let ?s = "s\<lparr>packets := k3\<rparr>"
  have "player_ok (?f x)" using 1(3) 2(3) 3(3) by (simp add: player_ok_def)
  then obtain pp1 where 4: "upd_player pl ?f ?s = Inr (in_lobby (sm, am, sec, pp1) ?s)" "lobby_inv (sm, am, sec, pp1)"
    "work H (sm, am, sec, pp1) L js c r b (in_lobby (sm, am, sec, pp1) ?s)" "live pp1 = (live pp)(pl \<mapsto> ?f x)"
    "room_of (sm, am, sec, pp1) = ((fst (room_of l))(sessionId x \<mapsto> member_of (?f x)), snd (room_of l))"
    using rewrite_player[where f = ?f, OF 3(2) I l x] nl by auto
  let ?s4 = "in_lobby (sm, am, sec, pp1) ?s"
  have "member_of (?f x) = (member_of x)\<lparr>account := Some acc\<rparr>" by (simp add: member_of_def)
  then have R1: "room_of (sm, am, sec, pp1) = R1" using 4(5) by (simp add: R1_def)
  have P1: "players_inv sm am sec (live pp1) {}" using 4(2) lobby_invD by blast
  have h: "snd (room_of l) acc = (case am acc of None \<Rightarrow> None | Some q \<Rightarrow> map_option sessionId (live pp q))"
    by (simp add: l room_of_def through_def)
  let ?kick = "\<lambda>s. case accountMap (app s) acc of None \<Rightarrow> Inr s | Some q \<Rightarrow> DisconnectPlayer ce q s"
  have K: "safe (\<lambda>s'. \<exists>pp' y. work H (sm, am, sec, pp') L js c r b s' \<and> same_rx s s' \<and> lobby_inv (sm, am, sec, pp') \<and>
      live pp' pl = Some y \<and> isLogin y \<and> accountNo y = acc \<and> sessionId y = sessionId x \<and>
      room_of (sm, am, sec, pp') = R2) (?kick ?s4)" (is "safe ?Q _")
  proof (cases "am acc")
    case None
    then have "R2 = R1" using h by (simp add: R2_def)
    then have "?Q ?s4" using 4(2-4) R1 by auto
    then show ?thesis using None by simp
  next
    case (Some q)
    from players_account[OF P this] obtain z where z: "live pp q = Some z" "isLogin z" by blast
    then have ne: "q \<noteq> pl" using x nl by auto
    then have z1: "live pp1 q = Some z" using z(1) 4(4) by simp
    have "R2 = kick (sessionId z) R1" using h Some z(1) by (simp add: R2_def)
    then have "safe ?Q (DisconnectPlayer ce q ?s4)"
      by (intro safe_mono[OF kick_exact[OF 4(3,2) refl z1 r]]) (use R1 ne 4(4) in auto)
    then show ?thesis using Some by simp
  qed
  have "safe (lobby_gives H L js c r b s (Some (fst R2, (snd R2)(acc \<mapsto> sessionId x))))
     (and_then (?kick ?s4) (\<lambda>s. Inr (s\<lparr>app := (app s)\<lparr>accountMap := (accountMap (app s))(acc \<mapsto> pl)\<rparr>\<rparr>)))"
  proof (rule safe_and_then[OF K])
    fix s5 assume "?Q s5"
    then obtain pp' y where 5: "work H (sm, am, sec, pp') L js c r b s5" "same_rx s s5" "lobby_inv (sm, am, sec, pp')"
      "live pp' pl = Some y" "isLogin y" "accountNo y = acc" "sessionId y = sessionId x"
      "room_of (sm, am, sec, pp') = R2" by blast
    have lo: "lobby_of (app s5) = (sm, am, sec, pp')" by (rule work_lobby_of[OF 5(1)])
    let ?l = "(sm, am(acc \<mapsto> pl), sec, pp')"
    have "players_inv sm (am(acc \<mapsto> pl)) sec (live pp') {}"
      using lobby_invD[OF 5(3)] 5(4-6) by (intro players_login[where m = "live pp'" and x = y]) simp_all
    then have "lobby_inv ?l" using lobby_invD[OF 5(3)] by (intro lobby_invI) simp_all
    moreover have "room_of ?l = (fst R2, (snd R2)(acc \<mapsto> sessionId x))"
      using room_login[where pp = pp', OF 5(4), of sm am acc sec] 5(7,8) by simp
    ultimately have "lobby_gives H L js c r b s (Some (fst R2, (snd R2)(acc \<mapsto> sessionId x))) (in_lobby ?l s5)"
      using work_in_lobby[OF 5(1), of ?l] 5(2) by (intro lobby_givesI[of _ ?l]) simp_all
    then show "safe (lobby_gives H L js c r b s (Some (fst R2, (snd R2)(acc \<mapsto> sessionId x))))
        (Inr (s5\<lparr>app := (app s5)\<lparr>accountMap := (accountMap (app s5))(acc \<mapsto> pl)\<rparr>\<rparr>))"
      using set_account_eq[OF lo] lobby_ofD[OF lo] by simp
  qed
  then show ?thesis using 1(1) 2(1) 3(1) 4(1) by simp
qed

lemma login_work:
  assumes w: "work H l L js c r b s" and I: "lobby_inv l" and l: "l = (sm, am, sec, pp)" and x: "live pp pl = Some x"
    and r: "\<forall>j. r j < 98" and p: "0 < c p" and k: "live (packets s) p = Some k"
  shows "safe (lobby_gives H L js c r b s (login_step (sessionId x) (member_of x) (packet_data k) (room_of l)))
    (PacketProcLogin ce pl p s)"
proof -
  let ?d = "packet_data k"
  have st: "store_inv player_ok pp" and P: "players_inv sm am sec (live pp) {}" using I l lobby_invD by blast+
  have lo: "lobby_of (app s) = (sm, am, sec, pp)" using work_lobby_of[OF w] l by simp
  note g = get_player_ok[OF lo st x] and sz = data_size_ok[OF w k] and K = kick_work[OF w I l x r]
  show ?thesis
  proof (cases "isLogin x \<or> length ?d \<noteq> 152")
    case True
    then have "login_step (sessionId x) (member_of x) ?d (room_of l) = Some (kick (sessionId x) (room_of l))"
      by (auto simp: login_step_def member_of_def)
    then show ?thesis using True g sz K by (auto simp: PacketProcLogin_def)
  next
    case False
    define acc :: u64 where "acc = le_decode (take 8 ?d)"
    have len: "8 \<le> length ?d" using False by simp
    obtain pool where 1: "read_packet p (\<lambda>k. Packet_get64 k 0) s = Inr (s\<lparr>packets := pool\<rparr>, acc)"
      "work H l L js c r b (s\<lparr>packets := pool\<rparr>)"
      using read_field[OF w k len, of "0 :: u64"] unfolding Packet_get64_def acc_def by blast
    have step: "login_step (sessionId x) (member_of x) ?d (room_of l) =
        (let R1 = ((fst (room_of l))(sessionId x \<mapsto> (member_of x)\<lparr>account := Some acc\<rparr>), snd (room_of l));
             R2 = (case snd (room_of l) acc of None \<Rightarrow> R1 | Some t \<Rightarrow> kick t R1)
         in Some (fst R2, (snd R2)(acc \<mapsto> sessionId x)))"
      using False by (simp add: login_step_def member_of_def acc_def Let_def)
    have nl: "\<not> isLogin x" using False by simp
    note tail = login_tail[where c = c and p = p and r = r and acc = acc, OF _ I l x r p nl]
    show ?thesis using False g sz 1(1) unfolding step Let_def
      by (simp add: PacketProcLogin_def)
        (rule respond_work[OF 1(2) r response_login], rule safe_gives_trans, rule tail, simp_all)
  qed
qed

end

section \<open>Leaving and entering a sector\<close>

lemma leave_place:
  assumes lo: "lobby_of (app s) = (sm, am, sec, pp)" and I: "lobby_inv (sm, am, sec, pp)" and x: "live pp pl = Some x"
  shows "\<exists>sec' pp'. (if sectorX x \<noteq> INVALID_SECTOR then sector_leave pl s else Inr s) =
      Inr (in_lobby (sm, am, sec', pp') s) \<and> store_inv player_ok pp' \<and>
    players_inv sm am sec' (live pp') {pl} \<and> live pp' pl = Some x \<and>
    room_of (sm, am, sec', pp') = room_of (sm, am, sec, pp)"
proof -
  have st: "store_inv player_ok pp" and P: "players_inv sm am sec (live pp) {}" using lobby_invD[OF I] by blast+
  note pd = players_invD(4)[OF P]
  show ?thesis
  proof (cases "sectorX x = INVALID_SECTOR")
    case True
    have "players_inv sm am sec (live pp) {pl}"
      using P placed_transit[OF pd x True] by (simp add: players_inv_def)
    then show ?thesis using True st x in_lobby_same[OF lo] by (intro exI[of _ sec] exI[of _ pp]) simp
  next
    case False
    obtain sec' pp' q b where 1: "sector_leave pl s = Inr (in_lobby (sm, am, sec', pp') s)" "store_inv player_ok pp'"
      "placed sec' (live pp') {pl}" "live pp q = Some b" "live pp' = (live pp)(q \<mapsto> b\<lparr>sectorIndex := sectorIndex x\<rparr>)"
      using sector_leave_ok[OF lo st pd x False] by blast
    let ?y = "b\<lparr>sectorIndex := sectorIndex x\<rparr>"
    have "players_inv sm am sec' (live pp') {pl}" unfolding 1(5)
      by (rule players_upd[where m = "live pp" and x = b and y = ?y, OF P 1(4)])
        (use 1(3,5) players_place[where m = "live pp" and x = b, OF P 1(4)] in simp_all)
    moreover have "live pp' pl = Some x"
    proof (cases "q = pl")
      case True
      then have "b = x" using 1(4) x by simp
      then show ?thesis using True 1(5) by (cases x) simp
    qed (use 1(5) x in simp)
    moreover have "room_of (sm, am, sec', pp') = room_of (sm, am, sec, pp)"
      by (rule room_upd_same[OF P 1(4,5)]) (simp_all add: member_of_def)
    ultimately show ?thesis using False 1(1,2) by (intro exI[of _ sec'] exI[of _ pp']) simp
  qed
qed

lemma enter_place:
  assumes lo: "lobby_of (app s) = (sm, am, sec, pp)" and st: "store_inv player_ok pp"
    and P: "players_inv sm am sec (live pp) {pl}" and x: "live pp pl = Some x" "isLogin x"
    and b: "unat sx < 50" "unat sy < 50"
  shows "\<exists>l'. and_then (sector_at (unat sy) (unat sx) s) (\<lambda>sector.
     and_then (upd_player pl (\<lambda>x. x\<lparr>sectorIndex := of_nat (length sector)\<rparr>) s) (\<lambda>s.
     let s = set_sector (unat sy) (unat sx) (sector @ [pl]) s in
     and_then (upd_player pl (\<lambda>x. x\<lparr>sectorX := sx, sectorY := sy\<rparr>) s) k)) = k (in_lobby l' s) \<and>
    lobby_inv l' \<and> room_of l' = ((fst (room_of (sm, am, sec, pp)))(sessionId x \<mapsto> (member_of x)\<lparr>place := Some (sx, sy)\<rparr>),
      snd (room_of (sm, am, sec, pp)))"
proof -
  let ?sector = "sec (unat sy) (unat sx)"
  let ?n = "length ?sector"
  let ?f = "\<lambda>x :: player. x\<lparr>sectorIndex := of_nat ?n\<rparr>"
  let ?g = "\<lambda>x :: player. x\<lparr>sectorX := sx, sectorY := sy\<rparr>"
  let ?sec = "upd2 sec (unat sy) (unat sx) (?sector @ [pl])"
  have ok: "player_ok x" using store_get(2)[OF st x(1)] .
  have n: "?n < 2 ^ 32" using players_sector_length[OF P, of "unat sy" "unat sx"] players_invD(2)[OF P] by simp
  have un: "unat (of_nat ?n :: u32) = ?n" using n by (simp add: unat_of_nat take_bit_nat_eq_self)
  have "player_ok (?f x)" using ok by simp
  then obtain p1 where 1: "upd_player pl ?f s = Inr (in_lobby (sm, am, sec, p1) s)" "store_inv player_ok p1"
    "live p1 = (live pp)(pl \<mapsto> ?f x)" using upd_player_ok[where f = ?f, OF lo st x(1)] by blast
  let ?s2 = "in_lobby (sm, am, ?sec, p1) s"
  have 2: "set_sector (unat sy) (unat sx) (?sector @ [pl]) (in_lobby (sm, am, sec, p1) s) = ?s2"
    using set_sector_eq[of "in_lobby (sm, am, sec, p1) s" sm am sec p1] by simp
  have lo2: "lobby_of (app ?s2) = (sm, am, ?sec, p1)" by simp
  have x1: "live p1 pl = Some (?f x)" using 1(3) by simp
  have "player_ok (?g (?f x))" using ok by simp
  then obtain p2 where 3: "upd_player pl ?g ?s2 = Inr (in_lobby (sm, am, ?sec, p2) ?s2)" "store_inv player_ok p2"
    "live p2 = (live p1)(pl \<mapsto> ?g (?f x))" using upd_player_ok[where f = ?g, OF lo2 1(2) x1] by blast
  have lv: "live p2 = (live pp)(pl \<mapsto> ?g (?f x))" using 3(3) 1(3) by simp
  have "placed ?sec ((live pp)(pl \<mapsto> ?g (?f x))) {}"
    by (rule placed_enter[OF players_invD(4)[OF P] b(2,1)]) (simp_all add: un)
  then have "players_inv sm am ?sec (live p2) {}" unfolding lv
    using x(2) by (intro players_upd[where m = "live pp" and x = x, OF P x(1)]) simp_all
  then have I: "lobby_inv (sm, am, ?sec, p2)" using 3(2) by (intro lobby_invI)
  have "sx \<noteq> INVALID_SECTOR" using b(1) by (auto simp: INVALID_SECTOR_def)
  then have "member_of (?g (?f x)) = (member_of x)\<lparr>place := Some (sx, sy)\<rparr>" by (simp add: member_of_def)
  then have "room_of (sm, am, ?sec, p2) = ((fst (room_of (sm, am, sec, pp)))(sessionId x \<mapsto> (member_of x)\<lparr>place := Some (sx, sy)\<rparr>),
      snd (room_of (sm, am, sec, pp)))"
    using room_upd[OF P x(1) lv, of ?sec] by simp
  moreover have "sector_at (unat sy) (unat sx) s = Inr ?sector" by (rule sector_at_ok[OF lo b(2,1)])
  ultimately show ?thesis using 1(1) 2 3(1) I by (intro exI[of _ "(sm, am, ?sec, p2)"]) simp
qed

context chat_server begin

lemma move_work:
  assumes w: "work H l L js c r b s" and I: "lobby_inv l" and l: "l = (sm, am, sec, pp)" and x: "live pp pl = Some x"
    and r: "\<forall>j. r j < 98" and p: "0 < c p" and k: "live (packets s) p = Some k"
  shows "safe (lobby_gives H L js c r b s (move_step (sessionId x) (member_of x) (packet_data k) (room_of l)))
    (PacketProcSectorMove ce pl p s)"
proof -
  let ?d = "packet_data k"
  have st: "store_inv player_ok pp" and P: "players_inv sm am sec (live pp) {}" using I l lobby_invD by blast+
  have lo: "lobby_of (app s) = (sm, am, sec, pp)" using work_lobby_of[OF w] l by simp
  note g = get_player_ok[OF lo st x] and sz = data_size_ok[OF w k]
  show ?thesis
  proof (cases "\<not> isLogin x \<or> length ?d \<noteq> 12")
    case True
    then have "move_step (sessionId x) (member_of x) ?d (room_of l) = Some (kick (sessionId x) (room_of l))"
      by (auto simp: move_step_def member_of_def)
    then show ?thesis using True g sz kick_work[OF w I l x r] by (auto simp: PacketProcSectorMove_def)
  next
    case False
    define acc :: u64 where "acc = le_decode (take 8 ?d)"
    define sx :: u16 where "sx = le_decode (take 2 (drop 8 ?d))"
    define sy :: u16 where "sy = le_decode (take 2 (drop 10 ?d))"
    have n0: "8 \<le> length ?d" using False by simp
    obtain k1 y1 where 1: "read_packet p (\<lambda>k. Packet_get64 k 0) s = Inr (s\<lparr>packets := k1\<rparr>, acc)"
      "work H l L js c r b (s\<lparr>packets := k1\<rparr>)" "live (packets (s\<lparr>packets := k1\<rparr>)) p = Some y1" "packet_data y1 = drop 8 ?d"
      using read_field[OF w k n0, of "0 :: u64"] unfolding Packet_get64_def acc_def by blast
    have n1: "2 \<le> length (packet_data y1)" using 1(4) False by simp
    obtain k2 y2 where 2: "read_packet p (\<lambda>k. Packet_get16 k 0) (s\<lparr>packets := k1\<rparr>) = Inr (s\<lparr>packets := k2\<rparr>, sx)"
      "work H l L js c r b (s\<lparr>packets := k2\<rparr>)" "live (packets (s\<lparr>packets := k2\<rparr>)) p = Some y2" "packet_data y2 = drop 2 (drop 8 ?d)"
      using read_field[OF 1(2,3) n1, of "0 :: u16"] unfolding 1(4) Packet_get16_def sx_def record_twice by blast
    have n2: "2 \<le> length (packet_data y2)" using 2(4) False by simp
    obtain k3 where 3: "read_packet p (\<lambda>k. Packet_get16 k 0) (s\<lparr>packets := k2\<rparr>) = Inr (s\<lparr>packets := k3\<rparr>, sy)"
      "work H l L js c r b (s\<lparr>packets := k3\<rparr>)"
      using read_field[OF 2(2,3) n2, of "0 :: u16"] unfolding 2(4) Packet_get16_def sy_def record_twice by auto
    let ?s = "s\<lparr>packets := k3\<rparr>"
    have lg: "isLogin x" using False by simp
    have step: "move_step (sessionId x) (member_of x) ?d (room_of l) =
       (if acc \<noteq> accountNo x then None
        else if 50 \<le> unat sx \<or> 50 \<le> unat sy then Some (kick (sessionId x) (room_of l))
        else Some ((fst (room_of l))(sessionId x \<mapsto> (member_of x)\<lparr>place := Some (sx, sy)\<rparr>), snd (room_of l)))"
      using False unfolding move_step_def acc_def sx_def sy_def Let_def by (simp add: member_of_def)
    have code: "PacketProcSectorMove ce pl p s = (if acc \<noteq> accountNo x then Inl DebugBreak
       else if 50 \<le> unat sx \<or> 50 \<le> unat sy then DisconnectPlayer ce pl ?s
       else and_then (if sectorX x \<noteq> INVALID_SECTOR then sector_leave pl ?s else Inr ?s) (\<lambda>s.
         and_then (sector_at (unat sy) (unat sx) s) (\<lambda>sector.
         and_then (upd_player pl (\<lambda>x. x\<lparr>sectorIndex := of_nat (length sector)\<rparr>) s) (\<lambda>s.
         let s = set_sector (unat sy) (unat sx) (sector @ [pl]) s in
         and_then (upd_player pl (\<lambda>x. x\<lparr>sectorX := sx, sectorY := sy\<rparr>) s) (\<lambda>s.
         and_then (AllocPacket (chat_net ce) s) (\<lambda>(s, resPacket).
         and_then (on_pool (on_packet resPacket (mpResSectorMove (accountNo x) sx sy)) s) (\<lambda>s.
         and_then (SendPacket (chat_net ce) (sessionId x) resPacket s) (\<lambda>(s, _).
         and_then (FreePacket (chat_net ce) resPacket s) Inr))))))))"
      using False g sz 1(1) 2(1) 3(1) by (simp add: PacketProcSectorMove_def SECTOR_MAX_X_def SECTOR_MAX_Y_def)
    show ?thesis
    proof (cases "acc \<noteq> accountNo x \<or> 50 \<le> unat sx \<or> 50 \<le> unat sy")
      case True
      have "safe (lobby_gives H L js c r b s (Some (kick (sessionId x) (room_of l)))) (DisconnectPlayer ce pl ?s)"
        by (rule safe_gives_trans[OF kick_work[OF 3(2) I l x r]]) simp
      then show ?thesis using True unfolding code step by auto
    next
      case False
      have lo3: "lobby_of (app ?s) = (sm, am, sec, pp)" using lo by simp
      obtain sec' pp' where 4: "(if sectorX x \<noteq> INVALID_SECTOR then sector_leave pl ?s else Inr ?s) =
          Inr (in_lobby (sm, am, sec', pp') ?s)" "store_inv player_ok pp'" "players_inv sm am sec' (live pp') {pl}"
        "live pp' pl = Some x" "room_of (sm, am, sec', pp') = room_of l"
        using leave_place[OF lo3 I[unfolded l] x] l by auto
      let ?s4 = "in_lobby (sm, am, sec', pp') ?s"
      let ?k = "\<lambda>s. and_then (AllocPacket (chat_net ce) s) (\<lambda>(s, resPacket).
         and_then (on_pool (on_packet resPacket (mpResSectorMove (accountNo x) sx sy)) s) (\<lambda>s.
         and_then (SendPacket (chat_net ce) (sessionId x) resPacket s) (\<lambda>(s, _).
         and_then (FreePacket (chat_net ce) resPacket s) Inr)))"
      have lo4: "lobby_of (app ?s4) = (sm, am, sec', pp')" by simp
      have b: "unat sx < 50" "unat sy < 50" using False by simp_all
      obtain l' where 5: "and_then (sector_at (unat sy) (unat sx) ?s4) (\<lambda>sector.
         and_then (upd_player pl (\<lambda>x. x\<lparr>sectorIndex := of_nat (length sector)\<rparr>) ?s4) (\<lambda>s.
         let s = set_sector (unat sy) (unat sx) (sector @ [pl]) s in
         and_then (upd_player pl (\<lambda>x. x\<lparr>sectorX := sx, sectorY := sy\<rparr>) s) ?k)) = ?k (in_lobby l' ?s4)"
        "lobby_inv l'" "room_of l' = ((fst (room_of l))(sessionId x \<mapsto> (member_of x)\<lparr>place := Some (sx, sy)\<rparr>),
          snd (room_of l))"
        using enter_place[OF lo4 4(2-4) lg b, of ?k] 4(5) by auto
      have w5: "work H l' L js c r b (in_lobby l' ?s4)" using work_in_lobby[OF 3(2), of l'] by simp
      have "safe (lobby_gives H L js c r b s (Some (room_of l'))) (?k (in_lobby l' ?s4))"
        by (rule respond_work[OF w5 r response_move]) (use 5(2) in \<open>auto intro: lobby_givesI\<close>)
      then show ?thesis using False 4(1) 5(1) unfolding code step 5(3) by simp
    qed
  qed
qed

end

section \<open>Messages\<close>

text \<open>The players of the sectors that a message goes to.\<close>

definition cells_around :: "nat \<Rightarrow> nat \<Rightarrow> (nat \<times> nat) list" where
  "cells_around sx sy = List.product (around SECTOR_MAX_Y sy) (around SECTOR_MAX_X sx)"

definition audience :: "(nat \<Rightarrow> nat \<Rightarrow> u64 list) \<Rightarrow> nat \<Rightarrow> nat \<Rightarrow> u64 list" where
  "audience sec sx sy = concat (map (\<lambda>(y, x). sec y x) (cells_around sx sy))"

lemma around_bounds: "k < m \<Longrightarrow> set (around m k) = {j. j < m \<and> j \<le> k + 1 \<and> k \<le> j + 1}"
  by (auto simp: around_def)

lemma cells_bounds: "sx < 50 \<Longrightarrow> sy < 50 \<Longrightarrow> (y, x) \<in> set (cells_around sx sy) \<Longrightarrow> y < 50 \<and> x < 50"
  using around_bounds[of sx SECTOR_MAX_X] around_bounds[of sy SECTOR_MAX_Y]
  by (auto simp: cells_around_def SECTOR_MAX_X_def SECTOR_MAX_Y_def)

lemma for_each_product:
  "for_each (\<lambda>y. for_each (g y) xs) ys s = for_each (\<lambda>(y, x). g y x) (List.product ys xs) s"
proof (induction ys arbitrary: s)
  case (Cons y ys)
  have "for_each (\<lambda>(y, x). g y x) (map (Pair y) xs) s = for_each (g y) xs s" for s
    by (induction xs arbitrary: s) (auto intro: and_then_cong)
  moreover have "for_each (\<lambda>y. for_each (g y) xs) ys = for_each (\<lambda>(y, x). g y x) (List.product ys xs)"
    by (rule ext) (rule Cons.IH)
  ultimately show ?case by (simp add: for_each_append)
qed simp

lemma placed_disjoint:
  assumes P: "placed sec m Q" and t: "t \<in> set (sec y x)" "t \<in> set (sec y' x')"
  shows "y = y' \<and> x = x'"
proof -
  obtain k k' where "k < length (sec y x)" "sec y x ! k = t" "k' < length (sec y' x')" "sec y' x' ! k' = t"
    using t by (metis in_set_conv_nth)
  with placed_unique[OF P, of k y x k' y' x'] show ?thesis by simp
qed

lemma audience_distinct:
  assumes P: "placed sec m Q"
  shows "distinct (audience sec sx sy)"
proof -
  have d: "distinct (cells_around sx sy)" by (simp add: cells_around_def distinct_product around_def)
  have "distinct (concat (map (\<lambda>(y, x). sec y x) zs))" if "distinct zs" for zs
    using that
  proof (induction zs)
    case (Cons z zs)
    obtain y x where z: "z = (y, x)" by (cases z)
    have "t \<notin> set (concat (map (\<lambda>(y, x). sec y x) zs))" if t: "t \<in> set (sec y x)" for t
    proof
      assume "t \<in> set (concat (map (\<lambda>(y, x). sec y x) zs))"
      then obtain y' x' where "(y', x') \<in> set zs" "t \<in> set (sec y' x')" by auto
      with placed_disjoint[OF P t] Cons.prems z show False by auto
    qed
    then have "set (sec y x) \<inter> set (concat (map (\<lambda>(y, x). sec y x) zs)) = {}" by blast
    then show ?case using Cons placed_distinct[OF P, of y x] unfolding z list.map concat.simps prod.case distinct_append
      by simp
  qed simp
  then show ?thesis using d by (simp add: audience_def)
qed

lemma audience_live:
  assumes P: "placed sec m Q" and t: "t \<in> set (audience sec sx sy)"
  shows "\<exists>z. m t = Some z"
proof -
  obtain y x k where "k < length (sec y x)" "sec y x ! k = t"
    using t by (auto simp: audience_def in_set_conv_nth)
  with cell_ok_some[OF placedD[OF P]] show ?thesis by blast
qed

lemma audience_length:
  assumes I: "players_inv sm am sec m {}"
  shows "length (audience sec sx sy) \<le> card (dom sm)"
proof -
  note P = players_invD(4)[OF I]
  have "set (audience sec sx sy) \<subseteq> ran sm" using audience_live[OF P] players_invD(3)[OF I] by blast
  then have "card (set (audience sec sx sy)) \<le> card (ran sm)" by (intro card_mono finite_ran players_invD(1)[OF I])
  also have "ran sm = (\<lambda>sid. the (sm sid)) ` dom sm" by (force simp: ran_def dom_def image_def)
  then have "card (ran sm) \<le> card (dom sm)" using card_image_le[OF players_invD(1)[OF I]] by metis
  finally show ?thesis using distinct_card[OF audience_distinct[OF P]] by simp
qed

context chat_server begin

lemma send_each:
  assumes "work H l L js c r b s" and l: "l = (sm, am, sec, pp)" and st: "store_inv player_ok pp"
    and ts: "\<forall>t\<in>set ts. \<exists>z. live pp t = Some z" and r: "\<forall>j. r j < 98" and p: "0 < c p"
    and lim: "refs (packets s) p + length ts < 2 ^ 31"
  shows "safe (\<lambda>s'. work H l L js c r b s' \<and> same_rx s s' \<and> refs (packets s') p \<le> refs (packets s) p + length ts)
    (for_each (send_to ce p) ts s)"
  using assms(1) ts lim
proof (induction ts arbitrary: s)
  case Nil
  then show ?case by simp
next
  case (Cons t ts)
  obtain z where z: "live pp t = Some z" using Cons.prems(2) by auto
  have lo: "lobby_of (app s) = (sm, am, sec, pp)" using work_lobby_of[OF Cons.prems(1)] l by simp
  have lim1: "refs (packets s) p < 2 ^ 31 - 1" using Cons.prems(3) by simp
  have "safe (\<lambda>s'. work H l L js c r b s' \<and> same_rx s s' \<and> refs (packets s') p \<le> refs (packets s) p + 1) (send_to ce p t s)"
    unfolding send_to_def get_player_ok[OF lo st z] and_then_Inr
    by (rule safe_and_then[OF send_work[OF Cons.prems(1) r p lim1]]) auto
  then show ?case unfolding for_each.simps
  proof (rule safe_and_then)
    fix s1 assume 1: "work H l L js c r b s1 \<and> same_rx s s1 \<and> refs (packets s1) p \<le> refs (packets s) p + 1"
    have "safe (\<lambda>s'. work H l L js c r b s' \<and> same_rx s1 s' \<and> refs (packets s') p \<le> refs (packets s1) p + length ts)
        (for_each (send_to ce p) ts s1)"
      by (rule Cons.IH) (use 1 Cons.prems in auto)
    then show "safe (\<lambda>s'. work H l L js c r b s' \<and> same_rx s s' \<and> refs (packets s') p \<le> refs (packets s) p + length (t # ts))
        (for_each (send_to ce p) ts s1)"
      by (rule safe_mono) (use 1 same_rx_trans in auto)
  qed
qed

text \<open>The loops over the sectors are one loop over the audience.\<close>

lemma broadcast_eq:
  assumes w: "work H l L js c r b s" and I: "lobby_inv l" and l: "l = (sm, am, sec, pp)"
    and b: "sx < 50" "sy < 50" and r: "\<forall>j. r j < 98" and p: "0 < c p"
    and lim: "refs (packets s) p + length (audience sec sx sy) < 2 ^ 31"
  shows "broadcast ce p sx sy s = for_each (send_to ce p) (audience sec sx sy) s"
proof -
  have st: "store_inv player_ok pp" and P: "players_inv sm am sec (live pp) {}" using I l lobby_invD by blast+
  let ?cell = "\<lambda>(y, x) s. and_then (sector_at y x s) (\<lambda>sector. for_each (send_to ce p) sector s)"
  have "for_each ?cell zs s = for_each (send_to ce p) (concat (map (\<lambda>(y, x). sec y x) zs)) s"
    if "set zs \<subseteq> set (cells_around sx sy)" "work H l L js c r b s"
      "refs (packets s) p + length (concat (map (\<lambda>(y, x). sec y x) zs)) < 2 ^ 31" for zs s
    using that
  proof (induction zs arbitrary: s)
    case (Cons z zs)
    obtain y x where z: "z = (y, x)" by (cases z)
    have lo: "lobby_of (app s) = (sm, am, sec, pp)" using work_lobby_of[OF Cons.prems(2)] l by simp
    have "y < 50 \<and> x < 50" using cells_bounds[OF b] Cons.prems(1) z by auto
    then have cell: "?cell z s = for_each (send_to ce p) (sec y x) s" using sector_at_ok[OF lo] z by simp
    have tl: "\<forall>t\<in>set (sec y x). \<exists>v. live pp t = Some v"
      using Cons.prems(1) z audience_live[OF players_invD(4)[OF P], of _ sx sy] by (force simp: audience_def)
    have "refs (packets s) p + length (sec y x) < 2 ^ 31" using Cons.prems(3) z by simp
    note S = send_each[OF Cons.prems(2) l st tl r p this]
    have "for_each ?cell zs s' = for_each (send_to ce p) (concat (map (\<lambda>(y, x). sec y x) zs)) s'"
      if "for_each (send_to ce p) (sec y x) s = Inr s'" for s'
    proof -
      have "work H l L js c r b s' \<and> refs (packets s') p \<le> refs (packets s) p + length (sec y x)"
        using safe_InrD[OF S that] by blast
      then show ?thesis using Cons.prems z by (intro Cons.IH) auto
    qed
    then show ?case unfolding for_each.simps cell
      by (cases "for_each (send_to ce p) (sec y x) s") (simp_all add: z for_each_append)
  qed simp
  from this[of "cells_around sx sy" s] w lim show ?thesis
    by (simp add: broadcast_def for_each_product cells_around_def audience_def)
qed

lemma message_work:
  assumes w: "work H l L js c r b s" and I: "lobby_inv l" and l: "l = (sm, am, sec, pp)" and x: "live pp pl = Some x"
    and r: "\<forall>j. r j < 98" and p: "0 < c p" and k: "live (packets s) p = Some k"
  shows "safe (lobby_gives H L js c r b s (message_step (sessionId x) (member_of x) (packet_data k) (room_of l)))
    (PacketProcMessage ce pl p s)"
proof -
  let ?d = "packet_data k"
  have st: "store_inv player_ok pp" and P: "players_inv sm am sec (live pp) {}" using I l lobby_invD by blast+
  have lo: "lobby_of (app s) = (sm, am, sec, pp)" using work_lobby_of[OF w] l by simp
  note g = get_player_ok[OF lo st x] and sz = data_size_ok[OF w k]
  show ?thesis
  proof (cases "\<not> isLogin x \<or> sectorX x = INVALID_SECTOR \<or> length ?d < 10")
    case True
    then have "message_step (sessionId x) (member_of x) ?d (room_of l) = Some (kick (sessionId x) (room_of l))"
      by (auto simp: message_step_def member_of_def)
    then show ?thesis using True g sz kick_work[OF w I l x r] by (auto simp: PacketProcMessage_def)
  next
    case False
    define acc :: u64 where "acc = le_decode (take 8 ?d)"
    define n :: u16 where "n = le_decode (take 2 (drop 8 ?d))"
    have n0: "8 \<le> length ?d" using False by simp
    obtain k1 y1 where 1: "read_packet p (\<lambda>k. Packet_get64 k 0) s = Inr (s\<lparr>packets := k1\<rparr>, acc)"
      "work H l L js c r b (s\<lparr>packets := k1\<rparr>)" "live (packets (s\<lparr>packets := k1\<rparr>)) p = Some y1" "packet_data y1 = drop 8 ?d"
      using read_field[OF w k n0, of "0 :: u64"] unfolding Packet_get64_def acc_def by blast
    have n1: "2 \<le> length (packet_data y1)" using 1(4) False by auto
    obtain k2 y2 where 2: "read_packet p (\<lambda>k. Packet_get16 k 0) (s\<lparr>packets := k1\<rparr>) = Inr (s\<lparr>packets := k2\<rparr>, n)"
      "work H l L js c r b (s\<lparr>packets := k2\<rparr>)" "live (packets (s\<lparr>packets := k2\<rparr>)) p = Some y2" "packet_data y2 = drop 2 (drop 8 ?d)"
      using read_field[OF 1(2,3) n1, of "0 :: u16"] unfolding 1(4) Packet_get16_def n_def record_twice by blast
    let ?s = "s\<lparr>packets := k2\<rparr>"
    have sz2: "data_size p ?s = Inr (int (length ?d - 10))" using data_size_ok[OF 2(2,3)] 2(4) by simp
    have step: "message_step (sessionId x) (member_of x) ?d (room_of l) = (if acc \<noteq> accountNo x then None
        else if 1024 < unat n \<or> unat n \<noteq> length ?d - 10 then Some (kick (sessionId x) (room_of l)) else Some (room_of l))"
      using False unfolding message_step_def acc_def n_def Let_def by (simp add: member_of_def)
    let ?tail = "\<lambda>(s, message). and_then (AllocPacket (chat_net ce) s) (\<lambda>(s, resPacket).
       and_then (on_pool (on_packet resPacket
         (mpResMessage (accountNo x) (player_id x) (nickname x) n message)) s) (\<lambda>s.
       and_then (broadcast ce resPacket (unat (sectorX x)) (unat (sectorY x)) s) (\<lambda>s.
       FreePacket (chat_net ce) resPacket s)))"
    have go: "(\<not> isLogin x \<or> sectorX x = INVALID_SECTOR \<or> int (length ?d) < 8 + 2) = False" using False by auto
    have code: "PacketProcMessage ce pl p s = (if acc \<noteq> accountNo x then Inl DebugBreak
       else if 1024 < unat n \<or> unat n \<noteq> length ?d - 10 then DisconnectPlayer ce pl ?s
       else and_then (read_packet p (get_bytes (replicate 1024 0) (int (unat n))) ?s) ?tail)"
      by (simp only: PacketProcMessage_def g sz 1(1) 2(1) sz2 and_then_Inr prod.case go if_False of_nat_eq_iff)
    consider "acc \<noteq> accountNo x" | "acc = accountNo x" "1024 < unat n \<or> unat n \<noteq> length ?d - 10"
      | "acc = accountNo x" "unat n \<le> 1024" "unat n = length ?d - 10" by linarith
    then show ?thesis
    proof cases
      case 2
      have "safe (lobby_gives H L js c r b s (Some (kick (sessionId x) (room_of l)))) (DisconnectPlayer ce pl ?s)"
        by (rule safe_gives_trans[OF kick_work[OF \<open>work H l L js c r b ?s\<close> I l x r]]) simp
      then show ?thesis using 2 unfolding code step by auto
    next
      case 3
      have n3: "unat n \<le> length (replicate 1024 (0 :: u8))" using 3(2) by simp
      let ?v = "splice (replicate 1024 0) 0 (take (unat n) (packet_data y2))"
      obtain k3 where R: "read_packet p (get_bytes (replicate 1024 0) (int (unat n))) ?s = Inr (s\<lparr>packets := k3\<rparr>, ?v)"
        "work H l L js c r b (s\<lparr>packets := k3\<rparr>)"
        using read_bytes_at[OF 2(2,3) n3] by auto
      have lv: "unat n \<le> length ?v" using 3(2) by simp
      note f = response_message[OF store_get(2)[OF st x] 3(2) lv]
      have sec: "unat (sectorX x) < 50" "unat (sectorY x) < 50"
        using placed_in(3,4)[OF players_invD(4)[OF P] x] False by simp_all
      have "safe (lobby_gives H L js c r b s (Some (room_of l))) (?tail (s\<lparr>packets := k3\<rparr>, ?v))"
        unfolding prod.case
      proof (rule safe_and_then[OF alloc_work[OF R(2)]])
        fix v assume "(\<lambda>(s', q). \<exists>pool y. s' = s\<lparr>packets := k3\<rparr>\<lparr>packets := pool\<rparr> \<and> live (packets (s\<lparr>packets := k3\<rparr>)) q = None \<and>
          live pool = (live (packets (s\<lparr>packets := k3\<rparr>)))(q \<mapsto> y) \<and> filled [] y \<and> c q = 0 \<and> work H l L js (c(q := 1)) r b s') v"
        then obtain q pool y where v: "v = (s\<lparr>packets := pool\<rparr>, q)" "live (packets (s\<lparr>packets := pool\<rparr>)) q = Some y"
          "filled [] y" "c q = 0" "work H l L js (c(q := 1)) r b (s\<lparr>packets := pool\<rparr>)" by (cases v) auto
        obtain k5 z where 5: "on_pool (on_packet q (mpResMessage (accountNo x) (player_id x) (nickname x) n ?v)) (s\<lparr>packets := pool\<rparr>) =
            Inr (s\<lparr>packets := k5\<rparr>)" "work H l L js (c(q := 1)) r b (s\<lparr>packets := k5\<rparr>)" "live k5 q = Some z"
            "filled (res_message x (take (unat n) ?v)) z"
          using fill_work[OF v(5,2,3) f] by fastforce
        let ?s5 = "s\<lparr>packets := k5\<rparr>"
        let ?ts = "audience sec (unat (sectorX x)) (unat (sectorY x))"
        have one: "refs (packets ?s5) q = 1" using 5(3,4) by (simp add: refs_def filled_def)
        have lim: "refs (packets ?s5) q + length ?ts < 2 ^ 31"
          unfolding one using audience_length[OF P, of "unat (sectorX x)" "unat (sectorY x)"] players_invD(2)[OF P] by simp
        have q: "0 < (c(q := 1)) q" by simp
        note eq = broadcast_eq[OF 5(2) I l sec r q lim]
        have tl: "\<forall>t\<in>set ?ts. \<exists>z. live pp t = Some z" using audience_live[OF players_invD(4)[OF P]] by blast
        have "safe (lobby_gives H L js c r b s (Some (room_of l)))
          (and_then (for_each (send_to ce q) ?ts ?s5) (FreePacket (chat_net ce) q))"
        proof (rule safe_and_then[OF send_each[OF 5(2) l st tl r q lim]])
          fix s6 assume 6: "work H l L js (c(q := 1)) r b s6 \<and> same_rx ?s5 s6 \<and> refs (packets s6) q \<le> refs (packets ?s5) q + length ?ts"
          obtain k7 where 7: "FreePacket (chat_net ce) q s6 = Inr (s6\<lparr>packets := k7\<rparr>)"
            "work H l L js ((c(q := 1))(q := (c(q := 1)) q - 1)) r b (s6\<lparr>packets := k7\<rparr>)"
            using free_work[of H l L js "c(q := 1)" r b s6 q] 6 by auto
          have "(c(q := 1))(q := (c(q := 1)) q - 1) = c" using v(4) by (simp add: fun_upd_idem)
          then show "safe (lobby_gives H L js c r b s (Some (room_of l))) (FreePacket (chat_net ce) q s6)"
            using 6 7 I by (auto intro: lobby_givesI)
        qed
        then show "safe (lobby_gives H L js c r b s (Some (room_of l))) (case v of (s, resPacket) \<Rightarrow>
          and_then (on_pool (on_packet resPacket (mpResMessage (accountNo x) (player_id x) (nickname x) n ?v)) s) (\<lambda>s.
          and_then (broadcast ce resPacket (unat (sectorX x)) (unat (sectorY x)) s) (\<lambda>s.
          FreePacket (chat_net ce) resPacket s)))"
          using v(1) 5(1) eq by simp
      qed
      then show ?thesis using 3 R(1) unfolding code step by simp
    qed (simp add: code step)
  qed
qed

end

end
