(* ===== verification/ChatContents.thy ===== *)
theory ChatContents
  imports ChatHandlers
begin

text \<open>
  The contents thread: every job that it takes from the queue keeps the invariants of the net server
  and of the lobby and has the effect that \<open>room_step\<close> computes; a message is sent to exactly the
  players around; the timeout kicks exactly the players that have been silent.
\<close>

section \<open>Dispatch\<close>

context chat_server begin

lemma packet_work:
  assumes w: "work H l L js c r b s" and I: "lobby_inv l" and r: "\<forall>j. r j < 98" and p: "0 < c p"
    and k: "live (packets s) p = Some k"
  shows "safe (lobby_gives H L js c r b s (recv_step (ce_stack ce) sid (packet_data k) (room_of l))) (PacketProc ce sid p s)"
proof -
  obtain sm am sec pp where l: "l = (sm, am, sec, pp)" by (cases l)
  have st: "store_inv player_ok pp" and P: "players_inv sm am sec (live pp) {}" using I l lobby_invD by blast+
  have lo: "lobby_of (app s) = (sm, am, sec, pp)" using work_lobby_of[OF w] l by simp
  have fp: "FindPlayer sid s = sm sid" using lobby_ofD[OF lo] by (simp add: FindPlayer_def)
  show ?thesis
  proof (cases "sm sid")
    case None
    then have "fst (room_of l) sid = None" by (simp add: l room_of_def through_def)
    then show ?thesis using fp None w I by (auto simp: PacketProc_def recv_step_def intro: lobby_givesI)
  next
    case (Some pl)
    from players_session[OF P this] obtain x where x: "live pp pl = Some x" "sessionId x = sid" by blast
    have M: "fst (room_of l) sid = Some (member_of x)" using room_member[OF P x(1)] x(2) l by simp
    note g = get_player_ok[OF lo st x(1)]
    show ?thesis
    proof (cases "isDisconnecting x")
      case True
      then have "leaving (member_of x)" by (simp add: member_of_def)
      then show ?thesis using True fp Some g M w I by (auto simp: PacketProc_def recv_step_def intro: lobby_givesI)
    next
      case False
      let ?f = "\<lambda>y :: player. y\<lparr>lastRecvTime := ce_now ce (trace s)\<rparr>"
      have mf: "member_of (?f x) = member_of x" by (simp add: member_of_def)
      have "player_ok (?f x)" using store_get(2)[OF st x(1)] by simp
      then obtain pp1 where 1: "upd_player pl ?f s = Inr (in_lobby (sm, am, sec, pp1) s)" "lobby_inv (sm, am, sec, pp1)"
        "work H (sm, am, sec, pp1) L js c r b (in_lobby (sm, am, sec, pp1) s)" "live pp1 = (live pp)(pl \<mapsto> ?f x)"
        "room_of (sm, am, sec, pp1) = ((fst (room_of l))(sessionId x \<mapsto> member_of (?f x)), snd (room_of l))"
        using rewrite_player[where f = ?f, OF w I l x(1)] by auto
      have R1: "room_of (sm, am, sec, pp1) = room_of l" using 1(5) mf M x(2) by (simp add: fun_upd_idem)
      let ?s1 = "in_lobby (sm, am, sec, pp1) s"
      let ?l1 = "(sm, am, sec, pp1)"
      have x1: "live pp1 pl = Some (?f x)" using 1(4) by simp
      have k1: "live (packets ?s1) p = Some k" using k by simp
      define d where "d = (if length (packet_data k) < 2 then packet_data k else drop 2 (packet_data k))"
      define ty :: u16 where "ty = (if length (packet_data k) < 2 then ce_stack ce else le_decode (take 2 (packet_data k)))"
      obtain pool y where 2: "read_packet p (\<lambda>k. Packet_get16 k (ce_stack ce)) ?s1 = Inr (?s1\<lparr>packets := pool\<rparr>, ty)"
        "work H ?l1 L js c r b (?s1\<lparr>packets := pool\<rparr>)" "live (packets (?s1\<lparr>packets := pool\<rparr>)) p = Some y" "packet_data y = d"
      proof (cases "length (packet_data k) < 2")
        case True
        have kok: "packet_inv k" "packet_ok k"
          using get_packet(2)[OF net_invD(2)[OF work_net[OF 1(3)]] k1] by (simp_all add: packet_ok_def)
        have "Packet_get16 k (ce_stack ce) = Inr (k, ce_stack ce)"
          unfolding Packet_get16_def using get_short[OF kok(1) True, of "ce_stack ce"] by simp
        from read_packet_ok[where f = "\<lambda>k. Packet_get16 k (ce_stack ce)", OF 1(3) k1 this kok(1) refl refl] obtain pool where
          "read_packet p (\<lambda>k. Packet_get16 k (ce_stack ce)) ?s1 = Inr (?s1\<lparr>packets := pool\<rparr>, ce_stack ce)"
          "work H ?l1 L js c r b (?s1\<lparr>packets := pool\<rparr>)" "live pool = (live (packets ?s1))(p \<mapsto> k)" by blast
        then show thesis using True by (intro that[of pool k]) (simp_all add: ty_def d_def)
      next
        case False
        then have n: "2 \<le> length (packet_data k)" by simp
        from read_field[OF 1(3) k1 n, of "ce_stack ce"] obtain pool y where
          "read_packet p (\<lambda>k. Packet_get16 k (ce_stack ce)) ?s1 = Inr (?s1\<lparr>packets := pool\<rparr>, le_decode (take 2 (packet_data k)))"
          "work H ?l1 L js c r b (?s1\<lparr>packets := pool\<rparr>)" "live (packets (?s1\<lparr>packets := pool\<rparr>)) p = Some y"
          "packet_data y = drop 2 (packet_data k)" unfolding Packet_get16_def by blast
        then show thesis using False by (intro that[of pool y]) (simp_all add: ty_def d_def)
      qed
      let ?s2 = "?s1\<lparr>packets := pool\<rparr>"
      have code: "PacketProc ce sid p s =
        (if ty = en_PACKET_CS_CHAT_REQ_LOGIN then PacketProcLogin ce pl p ?s2
         else if ty = en_PACKET_CS_CHAT_REQ_SECTOR_MOVE then PacketProcSectorMove ce pl p ?s2
         else if ty = en_PACKET_CS_CHAT_REQ_MESSAGE then PacketProcMessage ce pl p ?s2
         else if ty = en_PACKET_CS_CHAT_REQ_HEARTBEAT then Inr ?s2 else DisconnectPlayer ce pl ?s2)"
        using fp Some g False 1(1) 2(1) by (simp add: PacketProc_def PacketProcHeartbeat_def)
      have step: "recv_step (ce_stack ce) sid (packet_data k) (room_of l) =
        (if ty = en_PACKET_CS_CHAT_REQ_LOGIN then login_step sid (member_of x) d (room_of l)
         else if ty = en_PACKET_CS_CHAT_REQ_SECTOR_MOVE then move_step sid (member_of x) d (room_of l)
         else if ty = en_PACKET_CS_CHAT_REQ_MESSAGE then message_step sid (member_of x) d (room_of l)
         else if ty = en_PACKET_CS_CHAT_REQ_HEARTBEAT then Some (room_of l) else Some (kick sid (room_of l)))"
        using M False by (simp add: recv_step_def ty_def d_def member_of_def Let_def)
      have sx: "sessionId (?f x) = sid" using x(2) by simp
      note login = login_work[OF 2(2) 1(2) refl x1 r p 2(3), unfolded 2(4) mf R1 sx]
        and move = move_work[OF 2(2) 1(2) refl x1 r p 2(3), unfolded 2(4) mf R1 sx]
        and message = message_work[OF 2(2) 1(2) refl x1 r p 2(3), unfolded 2(4) mf R1 sx]
        and kick = kick_work[OF 2(2) 1(2) refl x1 r, unfolded R1 sx]
      have stay: "lobby_gives H L js c r b ?s2 (Some (room_of l)) ?s2"
        using 2(2) 1(2) R1 by (intro lobby_givesI[of _ ?l1]) simp_all
      have "safe (lobby_gives H L js c r b ?s2 (recv_step (ce_stack ce) sid (packet_data k) (room_of l))) (PacketProc ce sid p s)"
        unfolding code step using login move message kick stay by simp
      then show ?thesis by (rule safe_gives_trans) simp
    qed
  qed
qed

end

section \<open>Accept and release\<close>

lemma set_session_eq:
  "lobby_of (app s) = (sm, am, sec, pp) \<Longrightarrow> s\<lparr>app := (app s)\<lparr>sessionMap := m\<rparr>\<rparr> = in_lobby (m, am, sec, pp) s"
  by (cases "app s") (simp add: in_lobby_def set_lobby_def lobby_of_def)

lemma set_pool_eq:
  "lobby_of (app s) = (sm, am, sec, pp) \<Longrightarrow> s\<lparr>app := (app s)\<lparr>playerPool := q\<rparr>\<rparr> = in_lobby (sm, am, sec, q) s"
  by (cases "app s") (simp add: in_lobby_def set_lobby_def lobby_of_def)

lemma Player_Init_simps [simp]: "sessionId (Player_Init sid now x) = sid" "isLogin (Player_Init sid now x) = False"
  "sectorX (Player_Init sid now x) = INVALID_SECTOR" "isDisconnecting (Player_Init sid now x) = False"
  "player_ok (Player_Init sid now x) = player_ok x"
  by (auto simp: Player_Init_def player_ok_def)

lemma players_new:
  assumes I: "players_inv sm am sec m {}" and n: "sm sid = None" "m p = None" "card (dom sm) + 1 < 2 ^ 31 - 2"
    and x: "sessionId x = sid" "sectorX x = INVALID_SECTOR"
  shows "players_inv (sm(sid \<mapsto> p)) am sec (m(p \<mapsto> x)) {}"
  unfolding players_inv_def
proof (intro conjI allI impI)
  show "finite (dom (sm(sid \<mapsto> p)))" using players_invD(1)[OF I] by simp
  show "card (dom (sm(sid \<mapsto> p))) < 2 ^ 31 - 2" using n players_invD(1)[OF I] by (simp add: card_insert_if domIff)
  show "placed sec (m(p \<mapsto> x)) {}" by (rule placed_new[OF players_invD(4)[OF I] n(2) x(2)])
  show "ran (sm(sid \<mapsto> p)) = dom (m(p \<mapsto> x))" using players_invD(3)[OF I] n(1) by (simp add: ran_map_upd)
next
  fix sid' q y assume q: "(sm(sid \<mapsto> p)) sid' = Some q" "(m(p \<mapsto> x)) q = Some y"
  show "sessionId y = sid'"
  proof (cases "sid' = sid")
    case True
    then show ?thesis using q x(1) by simp
  next
    case False
    then have "sm sid' = Some q" using q(1) by simp
    from players_session[OF I this] q(2) n(2) show ?thesis by (auto split: if_splits)
  qed
next
  fix acc q assume "am acc = Some q"
  from players_account[OF I this] show "\<exists>y. (m(p \<mapsto> x)) q = Some y \<and> isLogin y \<and> accountNo y = acc"
    using n(2) by (cases "q = p") auto
next
  fix q y assume "(m(p \<mapsto> x)) q = Some y" "sectorX y \<noteq> INVALID_SECTOR"
  then show "isLogin y" using players_place[OF I] x(2) by (auto split: if_splits)
qed

lemma players_gone:
  assumes I: "players_inv sm am sec m {p}" and s: "sm sid = Some p" and x: "m p = Some x"
    and am': "am' = (if isLogin x then am(accountNo x := None) else am)"
  shows "players_inv (sm(sid := None)) am' sec (m(p := None)) {}"
  unfolding players_inv_def
proof (intro conjI allI impI)
  show "finite (dom (sm(sid := None)))" using players_invD(1)[OF I] by simp
  show "card (dom (sm(sid := None))) < 2 ^ 31 - 2" using players_invD(1,2)[OF I]
    by (auto simp: card_Diff_singleton_if)
  show "placed sec (m(p := None)) {}" by (rule placed_gone[OF players_invD(4)[OF I]])
  have own: "sm sid' = Some p \<Longrightarrow> sid' = sid" for sid'
    using players_session[OF I s] players_session[OF I, of sid' p] by auto
  show "ran (sm(sid := None)) = dom (m(p := None))"
  proof (intro set_eqI iffI)
    fix q assume "q \<in> ran (sm(sid := None))"
    then obtain t where t: "t \<noteq> sid" "sm t = Some q" by (auto simp: ran_def split: if_splits)
    then have "q \<noteq> p" using own by auto
    moreover have "q \<in> dom m" using t players_invD(3)[OF I] by (auto simp: ran_def)
    ultimately show "q \<in> dom (m(p := None))" by simp
  next
    fix q assume "q \<in> dom (m(p := None))"
    then have q: "q \<noteq> p" "q \<in> ran sm" using players_invD(3)[OF I] by auto
    then obtain t where "sm t = Some q" by (auto simp: ran_def)
    then show "q \<in> ran (sm(sid := None))" using q(1) s by (auto simp: ran_def intro!: exI[of _ t])
  qed
next
  fix t q y assume "(sm(sid := None)) t = Some q" "(m(p := None)) q = Some y"
  then show "sessionId y = t" using players_session[OF I, of t q] by (auto split: if_splits)
next
  fix acc q assume "am' acc = Some q"
  then have q: "am acc = Some q" "isLogin x \<longrightarrow> acc \<noteq> accountNo x" using am' by (auto split: if_splits)
  obtain y where y: "m q = Some y" "isLogin y" "accountNo y = acc" using players_account[OF I q(1)] by blast
  then have "q \<noteq> p" using x q(2) by auto
  then show "\<exists>y. (m(p := None)) q = Some y \<and> isLogin y \<and> accountNo y = acc" using y by auto
next
  fix q y assume "(m(p := None)) q = Some y" "sectorX y \<noteq> INVALID_SECTOR"
  then show "isLogin y" using players_place[OF I] by (auto split: if_splits)
qed

context chat_server begin

lemma accept_work:
  assumes w: "work H l L js c r b s" and I: "lobby_inv l" and l: "l = (sm, am, sec, pp)"
    and n: "sm sid = None" "card (dom sm) + 1 < 2 ^ 31 - 2"
  shows "safe (lobby_gives H L js c r b s (accept_step sid (room_of l))) (ProcessAccept ce sid s)"
proof (cases "ready (ce_players ce) (ne_tid (ce_net ce)) pp")
  have lo: "lobby_of (app s) = (sm, am, sec, pp)" using work_lobby_of[OF w] l by simp
  note D = lobby_ofD[OF lo]
  {
    case False
    then have "TLS_Alloc (ce_players ce) (ne_tid (ce_net ce)) pp = Inl DebugBreak"
      by (intro Alloc_exhausted) (auto simp: ready_def can_grow_def)
    then show ?thesis using D by (simp add: ProcessAccept_def)
  next
    case True
    have st: "store_inv player_ok pp" and P: "players_inv sm am sec (live pp) {}" using I l lobby_invD by blast+
    have mal: "malloc_spec (ce_players ce)" and nw: "player_ok (env_new (ce_players ce))"
      using env_ok by (simp_all add: chat_env_ok_def)
    obtain p1 p x where 1: "TLS_Alloc (ce_players ce) (ne_tid (ce_net ce)) pp = Inr (p1, p)" "store_inv player_ok p1"
      "live pp p = None" "live p1 = (live pp)(p \<mapsto> x)" "player_ok x"
      using store_alloc[OF st mal nw True] by blast
    let ?now = "ce_now ce (trace s)"
    let ?y = "Player_Init sid ?now x"
    let ?s1 = "in_lobby (sm, am, sec, p1) s"
    have l1: "lobby_of (app ?s1) = (sm, am, sec, p1)" by simp
    have x1: "live p1 p = Some x" using 1(4) by simp
    have "player_ok ?y" using 1(5) by simp
    then obtain p2 where 2: "upd_player p (Player_Init sid ?now) ?s1 = Inr (in_lobby (sm, am, sec, p2) ?s1)"
      "store_inv player_ok p2" "live p2 = (live p1)(p \<mapsto> ?y)"
      using upd_player_ok[where f = "Player_Init sid ?now", OF l1 1(2) x1] by blast
    let ?l = "(sm(sid \<mapsto> p), am, sec, p2)"
    have lv: "live p2 = (live pp)(p \<mapsto> ?y)" using 2(3) 1(4) by simp
    have P2: "players_inv (sm(sid \<mapsto> p)) am sec (live p2) {}" unfolding lv
      by (rule players_new[OF P n(1) 1(3) n(2)]) simp_all
    have "ProcessAccept ce sid s = Inr (in_lobby ?l s)"
      using 1(1) 2(1) D set_pool_eq[OF lo, of p1] set_session_eq[of "in_lobby (sm, am, sec, p2) s"]
      by (simp add: ProcessAccept_def Let_def)
    moreover have "room_of ?l = ((fst (room_of l))(sid \<mapsto> member_of ?y), snd (room_of l))"
    proof -
      have "sm t \<noteq> Some p" for t using 1(3) players_session[OF P, of t p] by auto
      moreover have "am t \<noteq> Some p" for t using 1(3) players_account[OF P, of t p] by auto
      ultimately show ?thesis
        by (auto simp: l room_of_def fun_eq_iff through_def lv split: option.splits)
    qed
    moreover have "member_of ?y = \<lparr>account = None, place = None, leaving = False\<rparr>" by (simp add: member_of_def)
    ultimately show ?thesis using work_in_lobby[OF w, of ?l] lobby_invI[OF 2(2) P2]
      by (auto simp: accept_step_def intro!: lobby_givesI[of _ ?l])
  }
qed

lemma release_work:
  assumes w: "work H l L js c r b s" and I: "lobby_inv l"
  shows "safe (lobby_gives H L js c r b s (release_step sid (room_of l))) (ProcessRelease ce sid s)"
proof -
  obtain sm am sec pp where l: "l = (sm, am, sec, pp)" by (cases l)
  have st: "store_inv player_ok pp" and P: "players_inv sm am sec (live pp) {}" using I l lobby_invD by blast+
  have lo: "lobby_of (app s) = (sm, am, sec, pp)" using work_lobby_of[OF w] l by simp
  have fp: "FindPlayer sid s = sm sid" using lobby_ofD[OF lo] by (simp add: FindPlayer_def)
  show ?thesis
  proof (cases "sm sid")
    case None
    then have "fst (room_of l) sid = None" by (simp add: l room_of_def through_def)
    then show ?thesis using fp None w I by (auto simp: ProcessRelease_def release_step_def intro: lobby_givesI)
  next
    case (Some p)
    from players_session[OF P this] obtain x where x: "live pp p = Some x" "sessionId x = sid" by blast
    have M: "fst (room_of l) sid = Some (member_of x)" using room_member[OF P x(1)] x(2) l by simp
    obtain sec' p1 where 1: "(if sectorX x \<noteq> INVALID_SECTOR then sector_leave p s else Inr s) = Inr (in_lobby (sm, am, sec', p1) s)"
      "store_inv player_ok p1" "players_inv sm am sec' (live p1) {p}" "live p1 p = Some x"
      "room_of (sm, am, sec', p1) = room_of l"
      using leave_place[OF lo I[unfolded l] x(1)] l by auto
    define am' where "am' = (if isLogin x then am(accountNo x := None) else am)"
    have lv: "live p1 p \<noteq> None" using 1(4) by simp
    obtain p2 where 2: "TLS_Free (ne_tid (ce_net ce)) p p1 = Inr p2" "store_inv player_ok p2"
      "live p2 = (live p1)(p := None)" using store_free[OF 1(2) lv, of "ne_tid (ce_net ce)"] by blast
    let ?l = "(sm(sid := None), am', sec', p2)"
    have P2: "players_inv (sm(sid := None)) am' sec' (live p2) {}" unfolding 2(3)
      by (rule players_gone[OF 1(3) Some 1(4) am'_def])
    let ?s1 = "in_lobby (sm, am, sec', p1) s"
    let ?s2 = "in_lobby (sm, am', sec', p1) s"
    have "(if isLogin x then ?s1\<lparr>app := (app ?s1)\<lparr>accountMap := (accountMap (app ?s1))(accountNo x := None)\<rparr>\<rparr> else ?s1) = ?s2"
      using set_account_eq[of ?s1 sm am sec' p1] by (simp add: am'_def)
    moreover have "?s2\<lparr>app := (app ?s2)\<lparr>sessionMap := (sessionMap (app ?s2))(sid := None)\<rparr>\<rparr> =
        in_lobby (sm(sid := None), am', sec', p1) s"
      using set_session_eq[of ?s2 sm am' sec' p1] by simp
    moreover have "in_lobby (sm(sid := None), am', sec', p1) s
        \<lparr>app := (app (in_lobby (sm(sid := None), am', sec', p1) s))\<lparr>playerPool := p2\<rparr>\<rparr> = in_lobby ?l s"
      using set_pool_eq[of "in_lobby (sm(sid := None), am', sec', p1) s" "sm(sid := None)" am' sec' p1] by simp
    ultimately have code: "ProcessRelease ce sid s = Inr (in_lobby ?l s)"
      using fp Some get_player_ok[OF lo st x(1)] 1(1) 2(1)
      by (simp add: ProcessRelease_def Let_def) (simp (no_asm) add: in_lobby_def set_lobby_def)
    have own: "sm t = Some p \<Longrightarrow> t = sid" for t using players_session[OF P, of t p] x by auto
    have acc: "am t = Some p \<Longrightarrow> isLogin x \<and> t = accountNo x" for t using players_account[OF P, of t p] x by auto
    have "room_of ?l = ((fst (room_of l))(sid := None), if isLogin x then (snd (room_of l))(accountNo x := None) else snd (room_of l))"
      unfolding 1(5)[symmetric] using own acc
      by (auto simp: room_of_def fun_eq_iff through_def 2(3) am'_def split: option.splits)
    moreover have "account (member_of x) = (if isLogin x then Some (accountNo x) else None)" by (simp add: member_of_def)
    ultimately have "release_step sid (room_of l) = Some (room_of ?l)" using M by (simp add: release_step_def)
    then show ?thesis unfolding code using work_in_lobby[OF w, of ?l] lobby_invI[OF 2(2) P2]
      by (auto intro!: lobby_givesI[of _ ?l])
  qed
qed

end

section \<open>One job\<close>

text \<open>The effect of a job with the payload \<open>d\<close> of its packet.\<close>

definition room_step :: "u16 \<Rightarrow> job \<Rightarrow> bytes \<Rightarrow> room \<Rightarrow> room option" where
  "room_step stk x d R = (case job_type x of
       ACCEPT \<Rightarrow> accept_step (job_sessionID x) R
     | RELEASE \<Rightarrow> release_step (job_sessionID x) R
     | RECV_JOB \<Rightarrow> recv_step stk (job_sessionID x) d R)"

text \<open>Session ids are not reused, and the server does not run out of players.\<close>

definition can_accept :: "job \<Rightarrow> lobby \<Rightarrow> bool" where
  "can_accept x l \<longleftrightarrow> (job_type x = ACCEPT \<longrightarrow> fst l (job_sessionID x) = None \<and> card (dom (fst l)) + 1 < 2 ^ 31 - 2)"

definition Take_job :: "chat server \<Rightarrow> chat server" where
  "Take_job s = s\<lparr>app := (app s)\<lparr>jobQueue := tl (jobQueue (app s))\<rparr>\<rparr>"

definition job_refs :: "job \<Rightarrow> u64 \<Rightarrow> nat" where
  "job_refs x p = of_bool (job_type x = RECV_JOB \<and> p = job_packet x)"

lemma take_job:
  assumes s: "srv chat_ar (chat_J [] l L) c r b s" and q: "jobQueue (app s) = j # q" and x: "live (jobPool (app s)) j = Some x"
  shows "work [j] l L (map (\<lambda>j. the (live (jobPool (app s)) j)) q) (\<lambda>p. c p + job_refs x p) r b (Take_job s)"
proof -
  let ?a = "(app s)\<lparr>jobQueue := q\<rparr>"
  have J: "chat_J [] l L (app s)" using s by (simp add: srv_def)
  have jobs: "jobs_of (app s) = x # jobs_of ?a" using q x by (simp add: jobs_of_def)
  have "chat_J [j] l L ?a"
    using J q jobs by (auto simp: chat_J_def lobby_of_def recv_jobs_def intro: exI[of _ "_ @ [_]"])
  moreover have "waiting (map (\<lambda>j. the (live (jobPool (app s)) j)) q) ?a"
    by (simp add: waiting_def jobs_of_def)
  ultimately have "kept chat_ar (\<lambda>a. chat_J [j] l L a \<and> waiting (map (\<lambda>j. the (live (jobPool (app s)) j)) q) a)
      (\<lambda>p. c p + job_refs x p) r b s (s\<lparr>app := ?a\<rparr>)"
    by (intro srv_app[OF s]) (use jobs in \<open>auto simp: chat_ar_def recv_jobs_def job_refs_def\<close>)
  then show ?thesis using q by (simp add: kept_def work_def Take_job_def)
qed

lemma FreeJob_work:
  assumes w: "work [j] l L js c r b s"
  shows "\<exists>pool. FreeJob ce j s = Inr (s\<lparr>app := (app s)\<lparr>jobPool := pool\<rparr>\<rparr>) \<and>
    work [] l L js c r b (s\<lparr>app := (app s)\<lparr>jobPool := pool\<rparr>\<rparr>)"
proof -
  have J: "chat_J [j] l L (app s)" "waiting js (app s)" using w by (simp_all add: work_def srv_def)
  have st: "store_inv (\<lambda>_. True) (jobPool (app s))" and lv: "live (jobPool (app s)) j \<noteq> None"
    using J(1) by (auto simp: chat_J_def)
  obtain pool where 1: "TLS_Free (ne_tid (ce_net ce)) j (jobPool (app s)) = Inr pool" "store_inv (\<lambda>_. True) pool"
    "live pool = (live (jobPool (app s)))(j := None)" using store_free[OF st lv, of "ne_tid (ce_net ce)"] by blast
  let ?a = "(app s)\<lparr>jobPool := pool\<rparr>"
  have nj: "j \<notin> set (jobQueue (app s))" using J(1) by (simp add: chat_J_def)
  then have jobs: "jobs_of ?a = jobs_of (app s)" using 1(3) by (auto simp: jobs_of_def)
  have "chat_J [] l L ?a" using J(1) 1(2,3) jobs nj by (auto simp: chat_J_def lobby_of_def recv_jobs_def)
  moreover have "waiting js ?a" using J(2) jobs by (simp add: waiting_def)
  ultimately have "kept chat_ar (\<lambda>a. chat_J [] l L a \<and> waiting js a) c r b s (s\<lparr>app := ?a\<rparr>)"
    using jobs by (intro srv_app[OF w[unfolded work_def]]) (auto simp: chat_ar_def recv_jobs_def)
  then show ?thesis using 1(1) by (auto simp: FreeJob_def kept_def work_def)
qed

context chat_server begin

lemma HandleJob_work:
  assumes w: "work [j] l L js (\<lambda>p. c p + job_refs x p) r b s" and x: "live (jobPool (app s)) j = Some x"
    and I: "lobby_inv l" and r: "\<forall>j. r j < 98" and n: "can_accept x l"
    and d: "job_type x = RECV_JOB \<longrightarrow> map_option packet_data (live (packets s) (job_packet x)) = Some d"
  shows "safe (lobby_gives [j] L js c r b s (room_step (ce_stack ce) x d (room_of l))) (HandleJob ce j s)"
proof -
  have J: "chat_J [j] l L (app s)" using w by (simp add: work_def srv_def)
  then have st: "store_inv (\<lambda>_. True) (jobPool (app s))" by (simp add: chat_J_def)
  note g = store_get(1)[OF st x]
  let ?sid = "job_sessionID x"
  show ?thesis
  proof (cases "job_type x")
    case ACCEPT
    then have c: "(\<lambda>p. c p + job_refs x p) = c" by (simp add: job_refs_def)
    obtain sm am sec pp where l: "l = (sm, am, sec, pp)" by (cases l)
    have "safe (lobby_gives [j] L js c r b s (accept_step ?sid (room_of l))) (ProcessAccept ce ?sid s)"
      by (rule accept_work[OF w[unfolded c] I l]) (use n ACCEPT l in \<open>simp_all add: can_accept_def\<close>)
    then show ?thesis using ACCEPT g by (simp add: HandleJob_def room_step_def)
  next
    case RELEASE
    then have c: "(\<lambda>p. c p + job_refs x p) = c" by (simp add: job_refs_def)
    then show ?thesis using RELEASE g release_work[OF w[unfolded c] I] by (simp add: HandleJob_def room_step_def)
  next
    case RECV_JOB
    let ?p = "job_packet x"
    let ?c = "\<lambda>p. c p + job_refs x p"
    obtain k where k: "live (packets s) ?p = Some k" "packet_data k = d" using d RECV_JOB by auto
    have p: "0 < ?c ?p" using RECV_JOB by (simp add: job_refs_def)
    have c: "?c(?p := ?c ?p - 1) = c" using RECV_JOB by (auto simp: job_refs_def)
    have "safe (lobby_gives [j] L js c r b s (recv_step (ce_stack ce) ?sid d (room_of l)))
      (and_then (PacketProc ce ?sid ?p s) (\<lambda>s. FreePacket (chat_net ce) ?p s))"
    proof (rule safe_and_then[OF packet_work[OF w I r p k(1), of ?sid, unfolded k(2)]])
      fix s1 assume "lobby_gives [j] L js ?c r b s (recv_step (ce_stack ce) ?sid d (room_of l)) s1"
      then obtain l1 where 1: "work [j] l1 L js ?c r b s1" "same_rx s s1" "lobby_inv l1"
        "recv_step (ce_stack ce) ?sid d (room_of l) = Some (room_of l1)" by (auto simp: lobby_gives_def)
      obtain pool where "FreePacket (chat_net ce) ?p s1 = Inr (s1\<lparr>packets := pool\<rparr>)"
        "work [j] l1 L js c r b (s1\<lparr>packets := pool\<rparr>)" using free_work[OF 1(1) p] unfolding c by blast
      then show "safe (lobby_gives [j] L js c r b s (recv_step (ce_stack ce) ?sid d (room_of l))) (FreePacket (chat_net ce) ?p s1)"
        using 1 by (auto intro!: lobby_givesI[of _ l1])
    qed
    then show ?thesis using RECV_JOB g by (simp add: HandleJob_def room_step_def)
  qed
qed

end

section \<open>The timeout\<close>

definition silent :: "u64 \<Rightarrow> player \<Rightarrow> bool" where
  "silent now x \<longleftrightarrow> 40000 \<le> now - lastRecvTime x"

definition kicked :: "u64 \<Rightarrow> u64 set \<Rightarrow> (u64 \<rightharpoonup> player) \<Rightarrow> u64 \<rightharpoonup> player" where
  "kicked now ps m = (\<lambda>p. if p \<in> ps then map_option (\<lambda>x. if silent now x then x\<lparr>isDisconnecting := True\<rparr> else x) (m p) else m p)"

lemma silent_kicked: "silent now (x\<lparr>isDisconnecting := d\<rparr>) = silent now x"
  by (simp add: silent_def)

lemma kicked_insert:
  assumes "m p = Some x"
  shows "kicked now ps (if silent now x then m(p \<mapsto> x\<lparr>isDisconnecting := True\<rparr>) else m) = kicked now (insert p ps) m"
proof
  fix q
  have t: "x\<lparr>isDisconnecting := True\<rparr>\<lparr>isDisconnecting := True\<rparr> = x\<lparr>isDisconnecting := True\<rparr>" by simp
  show "kicked now ps (if silent now x then m(p \<mapsto> x\<lparr>isDisconnecting := True\<rparr>) else m) q = kicked now (insert p ps) m q"
    using assms by (cases "q = p") (simp_all add: kicked_def silent_kicked)
qed

text \<open>The calls of \<open>closesocket\<close> that a check of the timeout makes.\<close>

definition kick_due :: "u64 \<Rightarrow> 'a server \<Rightarrow> player option \<Rightarrow> bool" where
  "kick_due now s z = (case z of None \<Rightarrow> False
     | Some x \<Rightarrow> silent now x \<and> \<not> isDisconnecting x \<and> found s (sessionId x))"

definition closes :: "u64 \<Rightarrow> 'a server \<Rightarrow> (u64 \<rightharpoonup> player) \<Rightarrow> u64 list \<Rightarrow> event list" where
  "closes now s m ps = map (\<lambda>p. EvClose (sock_of s (sessionId (the (m p))))) (filter (\<lambda>p. kick_due now s (m p)) ps)"

lemma closes_simps: "closes now s m [] = []"
  "closes now s m (p # ps) = (if kick_due now s (m p) then [EvClose (sock_of s (sessionId (the (m p))))] else []) @ closes now s m ps"
  by (simp_all add: closes_def)

lemma closes_cong:
  assumes "m_sessions s' = m_sessions s" and "\<And>p. p \<in> set ps \<Longrightarrow> m' p = m p"
  shows "closes now s' m' ps = closes now s m ps"
proof -
  have "found s' sid = found s sid" for sid by (simp add: found_def assms(1))
  then have "filter (\<lambda>p. kick_due now s' (m' p)) ps = filter (\<lambda>p. kick_due now s (m p)) ps"
    by (intro filter_cong refl) (simp add: kick_due_def assms(2) split: option.split)
  then show ?thesis unfolding closes_def assms(1) by (simp add: assms(2))
qed

context chat_server begin

lemma kick_silent:
  assumes "work H (sm, am, sec, pp) L js c r b s" and "lobby_inv (sm, am, sec, pp)"
    and "\<forall>p\<in>set ps. live pp p \<noteq> None" and "distinct ps"
  shows "\<exists>pp'. for_each (\<lambda>p s. and_then (get_player p s) (\<lambda>x.
      if now - lastRecvTime x \<ge> 40000 then DisconnectPlayer ce p s else Inr s)) ps s =
      Inr (in_lobby (sm, am, sec, pp') (s\<lparr>trace := trace s @ closes now s (live pp) ps\<rparr>)) \<and>
    lobby_inv (sm, am, sec, pp') \<and> live pp' = kicked now (set ps) (live pp)"
  using assms
proof (induction ps arbitrary: pp s)
  case Nil
  then show ?case using in_lobby_same[OF work_lobby_of[OF Nil(1)]]
    by (intro exI[of _ pp]) (simp add: kicked_def closes_simps)
next
  case (Cons p ps)
  let ?f = "\<lambda>p s. and_then (get_player p s) (\<lambda>x. if now - lastRecvTime x \<ge> 40000 then DisconnectPlayer ce p s else Inr s)"
  obtain x where x: "live pp p = Some x" using Cons.prems(3) by auto
  have st: "store_inv player_ok pp" using lobby_invD[OF Cons.prems(2)] by blast
  have lo: "lobby_of (app s) = (sm, am, sec, pp)" using work_lobby_of[OF Cons.prems(1)] .
  note g = get_player_ok[OF lo st x]
  let ?es = "closes now s (live pp) [p]"
  obtain p1 where 1: "?f p s = Inr (in_lobby (sm, am, sec, p1) (s\<lparr>trace := trace s @ ?es\<rparr>))" "lobby_inv (sm, am, sec, p1)"
    "live p1 = (if silent now x then (live pp)(p \<mapsto> x\<lparr>isDisconnecting := True\<rparr>) else live pp)"
  proof (cases "silent now x")
    case True
    obtain p1 where "DisconnectPlayer ce p s = Inr (in_lobby (sm, am, sec, p1) (s\<lparr>trace := trace s @
        (if \<not> isDisconnecting x \<and> found s (sessionId x) then [EvClose (sock_of s (sessionId x))] else [])\<rparr>))"
      "lobby_inv (sm, am, sec, p1)" "live p1 = (live pp)(p \<mapsto> x\<lparr>isDisconnecting := True\<rparr>)"
      using kick_eq[OF Cons.prems(1,2) x] by blast
    then show ?thesis using that[of p1] True g x by (simp add: silent_def closes_simps kick_due_def)
  next
    case False
    then show ?thesis using that[of pp] g Cons.prems(2) in_lobby_same[OF lo] x
      by (simp add: silent_def closes_simps kick_due_def)
  qed
  let ?s1 = "in_lobby (sm, am, sec, p1) (s\<lparr>trace := trace s @ ?es\<rparr>)"
  have "work H (sm, am, sec, pp) L js c r b (s\<lparr>trace := trace s @ ?es\<rparr>)" using Cons.prems(1) by (simp add: work_def srv_def)
  then have w1: "work H (sm, am, sec, p1) L js c r b ?s1" by (rule work_in_lobby)
  have lv: "\<forall>q\<in>set ps. live p1 q \<noteq> None" using Cons.prems(3) 1(3) by auto
  obtain p2 where 2: "for_each ?f ps ?s1 = Inr (in_lobby (sm, am, sec, p2) (?s1\<lparr>trace := trace ?s1 @ closes now ?s1 (live p1) ps\<rparr>))"
    "lobby_inv (sm, am, sec, p2)" "live p2 = kicked now (set ps) (live p1)"
    using Cons.IH[OF w1 1(2) lv] Cons.prems(4) by auto
  have "closes now ?s1 (live p1) ps = closes now s (live pp) ps"
    using Cons.prems(4) by (intro closes_cong) (auto simp: 1(3))
  moreover have "kicked now (set ps) (live p1) = kicked now (set (p # ps)) (live pp)"
    using kicked_insert[of "live pp" p x now "set ps"] x 1(3) by simp
  ultimately show ?case using 1(1) 2 by (intro exI[of _ p2]) (simp add: in_lobby_def closes_simps)
qed

lemma timeout_work:
  assumes w: "work H (sm, am, sec, pp) L js c r b s" and I: "lobby_inv (sm, am, sec, pp)"
  defines "now \<equiv> ce_now ce (trace s)"
  shows "\<exists>pp'. CheckTimeout ce s = Inr (in_lobby (sm, am, sec, pp') (s\<lparr>trace := trace s @
      map (\<lambda>sid. EvClose (sock_of s sid)) (filter (\<lambda>sid. kick_due now s (live pp (the (sm sid)))) (ce_keys ce sm))\<rparr>)) \<and>
    lobby_inv (sm, am, sec, pp') \<and> live pp' = kicked now UNIV (live pp)"
proof -
  have P: "players_inv sm am sec (live pp) {}" using I lobby_invD by blast
  have lo: "lobby_of (app s) = (sm, am, sec, pp)" using work_lobby_of[OF w] by simp
  have fin: "finite (dom sm)" by (rule players_invD(1)[OF P])
  have keys: "set (ce_keys ce sm) = dom sm" "distinct (ce_keys ce sm)" using env_ok fin by (simp_all add: chat_env_ok_def)
  let ?at = "\<lambda>sid. the (sm sid)"
  let ?ps = "map ?at (ce_keys ce sm)"
  have at: "\<exists>x. live pp (?at sid) = Some x \<and> sessionId x = sid" if "sid \<in> set (ce_keys ce sm)" for sid
    using players_session[OF P] that keys(1) by fastforce
  have ps: "set ?ps = dom (live pp)" unfolding set_map keys(1) players_invD(3)[OF P, symmetric]
    by (force simp: ran_def dom_def image_def)
  have lv: "\<forall>p\<in>set ?ps. live pp p \<noteq> None" using ps by blast
  have "inj_on ?at (set (ce_keys ce sm))"
    by (rule inj_onI) (metis at option.inject)
  then have d: "distinct ?ps" using keys(2) by (simp add: distinct_map)
  have "sock_of s (sessionId (the (live pp (?at sid)))) = sock_of s sid" if "sid \<in> set (ce_keys ce sm)" for sid
    using at[OF that] by auto
  then have es: "closes now s (live pp) ?ps =
      map (\<lambda>sid. EvClose (sock_of s sid)) (filter (\<lambda>sid. kick_due now s (live pp (?at sid))) (ce_keys ce sm))"
    by (simp add: closes_def filter_map comp_def)
  have "kicked now (set ?ps) (live pp) = kicked now UNIV (live pp)"
    unfolding ps by (auto simp: kicked_def fun_eq_iff domIff)
  then show ?thesis using kick_silent[OF w I lv d, of now] lobby_ofD[OF lo] unfolding es
    by (simp add: CheckTimeout_def now_def)
qed

end

section \<open>Who hears a message\<close>

definition near :: "nat \<Rightarrow> nat \<Rightarrow> player \<Rightarrow> bool" where
  "near sx sy z \<longleftrightarrow> sectorX z \<noteq> INVALID_SECTOR \<and> unat (sectorX z) \<le> sx + 1 \<and> sx \<le> unat (sectorX z) + 1 \<and>
     unat (sectorY z) \<le> sy + 1 \<and> sy \<le> unat (sectorY z) + 1"

lemma audience_near:
  assumes P: "placed sec m {}" and b: "sx < 50" "sy < 50"
  shows "t \<in> set (audience sec sx sy) \<longleftrightarrow> (\<exists>z. m t = Some z \<and> near sx sy z)"
proof
  assume "t \<in> set (audience sec sx sy)"
  then obtain y x k where k: "(y, x) \<in> set (cells_around sx sy)" "k < length (sec y x)" "sec y x ! k = t"
    by (auto simp: audience_def in_set_conv_nth)
  note C = placedD[OF P k(2), unfolded k(3)]
  obtain z where z: "m t = Some z" using cell_ok_some[OF C] by blast
  have "x \<le> sx + 1 \<and> sx \<le> x + 1 \<and> y \<le> sy + 1 \<and> sy \<le> y + 1"
    using k(1) around_bounds[of sx SECTOR_MAX_X] around_bounds[of sy SECTOR_MAX_Y] b
    by (auto simp: cells_around_def SECTOR_MAX_X_def SECTOR_MAX_Y_def)
  moreover have "sectorX z \<noteq> INVALID_SECTOR" using cell_okD(1,5)[OF C z] by (auto simp: INVALID_SECTOR_def)
  ultimately show "\<exists>z. m t = Some z \<and> near sx sy z"
    using z cell_okD(1,2)[OF C z] by (auto simp: near_def)
next
  assume "\<exists>z. m t = Some z \<and> near sx sy z"
  then obtain z where z: "m t = Some z" "near sx sy z" by blast
  then have "sectorX z \<noteq> INVALID_SECTOR" by (simp add: near_def)
  from placed_in[OF P z(1) _ this] have C: "t \<in> set (sec (unat (sectorY z)) (unat (sectorX z)))"
    "unat (sectorY z) < 50" "unat (sectorX z) < 50" by (metis empty_iff nth_mem)+
  have "(unat (sectorY z), unat (sectorX z)) \<in> set (cells_around sx sy)"
    using z(2) C(2,3) around_bounds[of sx SECTOR_MAX_X] around_bounds[of sy SECTOR_MAX_Y] b
    by (auto simp: cells_around_def near_def SECTOR_MAX_X_def SECTOR_MAX_Y_def)
  then show "t \<in> set (audience sec sx sy)" using C(1) by (force simp: audience_def)
qed

end
