(* ===== verification/NetProperties.thy ===== *)
theory NetProperties
  imports ChatJobs
begin

text \<open>
  The properties of the net server. Each is stated for any environment and derived class that keep the
  contract of the locale it names; the witnesses take the chat server as the derived class.
\<close>

section \<open>Sessions\<close>

text \<open>
  C17. A first start of the server whose system calls succeed returns true and establishes the
  invariant: every session released and on the index stack once, no packet referenced.
\<close>
theorem net_start_ready:
  assumes "\<And>tr e. ne_wsa env tr e = 0" and "lsock \<noteq> INVALID_SOCKET"
    and "0 < unat n" "unat n \<le> 65536" and "\<forall>i. length (mem i) = 2002"
    and "m_indexStack s = []" "m_sessionCount s = 0" "pkt_inv (packets s)" "J (app s)"
    and "\<forall>p. c p + ar (app s) p = refs (packets s) p"
  shows "\<exists>s'. Start env lsock mem ipAddr portNum workers active nagle n s = (s', True) \<and>
    srv ar J c (\<lambda>_. 0) {} s' \<and> m_indexStack s' = map of_nat [0..<unat n] \<and>
    length (m_sessions s') = unat n \<and> m_isRunning s'"
proof -
  obtain s' where s': "Start env lsock mem ipAddr portNum workers active nagle n s = (s', True)"
    using Start_succeeds[OF assms(1-4)] by blast
  have "srv ar J c (\<lambda>_. 0) {} s'" by (rule Start_srv[where mem = mem and s = s, OF s']) (use assms in auto)
  with s' Start_state[OF s'] assms(6) show ?thesis by auto
qed

theorem net_start_ready_witness:
  "\<exists>s'. Start (chat_net sample_chat_env) 4 (\<lambda>_. replicate 2002 0) ''127.0.0.1'' 6000 2 2 True 2
      (server_default sample_packets sample_chat) = (s', True) \<and>
    srv chat_ar (chat_J [] sample_lobby []) no_refs (\<lambda>_. 0) {} s' \<and> length (m_sessions s') = 2"
proof -
  have w: "ne_wsa (chat_net sample_chat_env) tr e = 0" for tr e
    by (simp add: sample_chat_env_def sample_net_def)
  show ?thesis
    using net_start_ready[OF w, of 4 2 "\<lambda>_. replicate 2002 0" "server_default sample_packets sample_chat"
        "chat_J [] sample_lobby []" no_refs chat_ar]
    by (simp add: INVALID_SOCKET_def server_default_def sample_packets_inv sample_chat_J refs_def) blast
qed

text \<open>
  C18. \<open>AcquireSession\<close> is exact: it succeeds if and only if the session array has a live session
  with this very id, and then counts one reference on it; otherwise, for a released session, a
  reused index or an index out of range, the whole state is as before.
\<close>
theorem acquire_session_exact:
  assumes "srv ar J c r b s"
  shows "AcquireSession env sid s = Inr (if found s sid
    then (counted (unat (sid AND INDEX_MASK)) s, Some (unat (sid AND INDEX_MASK))) else (s, None))"
  using assms AcquireSession_eq[of ar c s r b env sid] by (simp add: srv_def)

theorem acquire_session_exact_witness:
  "AcquireSession (chat_net sample_chat_env) 0x10000 sample_live = Inr (counted 0 sample_live, Some 0) \<and>
   AcquireSession (chat_net sample_chat_env) 0x20000 sample_live = Inr (sample_live, None)"
  using acquire_session_exact[OF sample_live_srv, of "chat_net sample_chat_env" "0x10000"]
    acquire_session_exact[OF sample_live_srv, of "chat_net sample_chat_env" "0x20000"] sample_live_session
  by (simp add: INDEX_MASK_def) (simp add: found_def INDEX_MASK_def)

text \<open>
  C19. \<open>SendPacket\<close> to any id, of a packet the caller holds: it returns whether the session was
  found; all packet references and session counts stay accounted for, whatever the send returns;
  it returns normally if the network reports only success, pending or connection reset (\<open>B\<close> false),
  and otherwise can end in no fault but the debugger break.
\<close>
theorem send_packet_accounted:
  assumes "net_release env B ar J" and "srv ar J c r b s" and "\<forall>j. r j < 98" and "0 < c p"
    and "refs (packets s) p < 2 ^ 31 - 1"
  shows "safe_if B (\<lambda>(s', ok). kept ar J c r b s s' \<and> ok = found s sid) (SendPacket env sid p s)"
  by (rule net_release.SendPacket_safe[OF assms])

lemma sample_chat_net: "ne_pool (chat_net sample_chat_env) = sample_packet_env"
  by (simp add: sample_chat_env_def sample_net_def)

lemmas sample_chat_packet = sample_alloc_packet[where env = "chat_net sample_chat_env", OF _ _ sample_chat_net]

text \<open>A server whose calls all succeed and whose derived class ignores releases: no debugger break is possible.\<close>

definition calm_env :: "chat net_env" where
  "calm_env = (chat_net sample_chat_env)\<lparr>OnRelease := (\<lambda>_ s. Inr s)\<rparr>"

lemma calm_release: "net_release calm_env False chat_ar (chat_J [] sample_lobby [])"
  by unfold_locales (simp_all add: calm_env_def sample_chat_env_def sample_net_def sample_packet_env)

theorem send_packet_accounted_witness:
  "\<exists>s p s'. srv chat_ar (chat_J [] sample_lobby []) (no_refs(p := 1)) one_recv {} s \<and>
    SendPacket calm_env 0x10000 p s = Inr (s', True) \<and>
    kept chat_ar (chat_J [] sample_lobby []) (no_refs(p := 1)) one_recv {} s s'"
proof -
  obtain s p pool where s: "srv chat_ar (chat_J [] sample_lobby []) (no_refs(p := 1)) one_recv {} s" "refs (packets s) p = 1"
    "s = sample_live\<lparr>packets := pool\<rparr>"
    using sample_chat_packet[OF sample_live_srv sample_live_session(2)] by auto
  have f: "found s 0x10000" using sample_live_session(4) s(3) by (simp add: found_def)
  have "safe_if False (\<lambda>(s', ok). kept chat_ar (chat_J [] sample_lobby []) (no_refs(p := 1)) one_recv {} s s' \<and> ok = found s 0x10000)
      (SendPacket calm_env 0x10000 p s)"
    by (rule send_packet_accounted[OF calm_release s(1) one_recv(4)]) (simp_all add: s(2))
  then obtain s' where "SendPacket calm_env 0x10000 p s = Inr (s', True)"
    "kept chat_ar (chat_J [] sample_lobby []) (no_refs(p := 1)) one_recv {} s s'"
    using f unfolding safe_if_def by (cases "SendPacket calm_env 0x10000 p s") auto
  with s(1) show ?thesis by blast
qed

text \<open>
  C20. What goes out. On a live session with no send in flight, \<open>SendPacket\<close> makes one call of
  \<open>WSASend\<close>: the packets waiting in the session's queue, oldest first and at most 100, the new
  packet last with the header and cipher of \<open>SetNetHeader\<close>; the rest keeps waiting.
\<close>
theorem send_packet_posts:
  assumes "srv ar J c r b s" and "\<forall>j. r j < 98" and "0 < c p" and "refs (packets s) p < 2 ^ 31 - 1"
    and "found s sid" and "i = unat (sid AND INDEX_MASK)" and "\<not> isSending (m_sessions s ! i)"
    and "live (packets s) p = Some x" "Packet_SetNetHeader (ne_rand env (trace s)) x = Inr y"
    and "e = EvSend (sock (m_sessions s ! i)) (map (\<lambda>q. packet_wire (if q = p then y else the (live (packets s) q)))
      (take MAX_SEND_PACKET (sendQ (m_sessions s ! i) @ [p])))"
    and "ne_wsa env (trace s) e = 0 \<or> ne_wsa env (trace s) e = WSA_IO_PENDING"
  shows "\<exists>s'. SendPacket env sid p s = Inr (s', True) \<and> trace s' = trace s @ [e] \<and>
    sendQ (m_sessions s' ! i) = drop MAX_SEND_PACKET (sendQ (m_sessions s ! i) @ [p]) \<and> isSending (m_sessions s' ! i)"
  using SendPacket_posts(1)[OF assms(1-5) assms(7)[unfolded assms(6)] assms(8,9)] assms(10,11)
  unfolding assms(6) by blast

theorem send_packet_posts_witness:
  "\<exists>s p bs s'. found s 0x10000 \<and> SendPacket (chat_net sample_chat_env) 0x10000 p s = Inr (s', True) \<and>
    trace s' = trace s @ [EvSend (sock (m_sessions s ! 0)) bs]"
proof -
  obtain s p pool where s: "srv chat_ar (chat_J [] sample_lobby []) (no_refs(p := 1)) one_recv {} s"
    "refs (packets s) p = 1" "s = sample_live\<lparr>packets := pool\<rparr>"
    using sample_chat_packet[OF sample_live_srv sample_live_session(2)] by auto
  have f: "found s 0x10000" using sample_live_session(4) s(3) by (simp add: found_def)
  have idle: "\<not> isSending (m_sessions s ! 0)" using s(3) sample_live_session by simp
  have P: "pkt_inv (packets s)" using s(1) net_invD(2) by (auto simp: srv_def)
  obtain x where x: "live (packets s) p = Some x" using s(2) refs_live[of "packets s" p] by auto
  obtain y where y: "Packet_SetNetHeader (ne_rand (chat_net sample_chat_env) (trace s)) x = Inr y"
    using SetNetHeader_packet[OF get_packet(2)[OF P x]] by blast
  let ?e = "EvSend (sock (m_sessions s ! 0)) (map (\<lambda>q. packet_wire (if q = p then y else the (live (packets s) q)))
      (take MAX_SEND_PACKET (sendQ (m_sessions s ! 0) @ [p])))"
  have "ne_wsa (chat_net sample_chat_env) (trace s) ?e = 0" by (simp add: sample_chat_env_def sample_net_def)
  then have "\<exists>s'. SendPacket (chat_net sample_chat_env) 0x10000 p s = Inr (s', True) \<and> trace s' = trace s @ [?e]"
    using send_packet_posts[OF s(1) one_recv(4) _ _ f _ _ x y, of 0 ?e] idle s(2) by (auto simp: INDEX_MASK_def)
  then show ?thesis using f by blast
qed

text \<open>
  C21. When the call of \<open>WSASend\<close> that \<open>SendPacket\<close> makes on a live session with no send in flight returns
  any code but success, pending or connection reset, whatever code that is, the process stops in the
  debugger. This is so, for instance, on a socket that \<open>Disconnect\<close> has closed already (\<open>WSAENOTSOCK\<close>, 10038).
\<close>
theorem send_error_breaks:
  assumes "srv ar J c r b s" and "\<forall>j. r j < 98" and "0 < c p" and "refs (packets s) p < 2 ^ 31 - 1"
    and "found s sid" and "i = unat (sid AND INDEX_MASK)" and "\<not> isSending (m_sessions s ! i)"
    and "live (packets s) p = Some x" "Packet_SetNetHeader (ne_rand env (trace s)) x = Inr y"
    and "e = EvSend (sock (m_sessions s ! i)) (map (\<lambda>q. packet_wire (if q = p then y else the (live (packets s) q)))
      (take MAX_SEND_PACKET (sendQ (m_sessions s ! i) @ [p])))"
    and "ne_wsa env (trace s) e \<notin> {0, WSA_IO_PENDING, WSAECONNRESET}"
  shows "SendPacket env sid p s = Inl DebugBreak"
  using SendPacket_posts(2)[OF assms(1-5) assms(7)[unfolded assms(6)] assms(8,9)] assms(10,11)
  unfolding assms(6) by blast

definition broken_env :: chat_env where
  "broken_env = sample_chat_env\<lparr>ce_net := sample_net\<lparr>ne_wsa := (\<lambda>_ _. 10038)\<rparr>\<rparr>"

theorem send_error_breaks_witness:
  "\<exists>s p. srv chat_ar (chat_J [] sample_lobby []) (no_refs(p := 1)) one_recv {} s \<and>
    SendPacket (chat_net broken_env) 0x10000 p s = Inl DebugBreak"
proof -
  obtain s p pool where s: "srv chat_ar (chat_J [] sample_lobby []) (no_refs(p := 1)) one_recv {} s"
    "refs (packets s) p = 1" "s = sample_live\<lparr>packets := pool\<rparr>"
    using sample_chat_packet[OF sample_live_srv sample_live_session(2)] by auto
  have f: "found s 0x10000" using sample_live_session(4) s(3) by (simp add: found_def)
  have idle: "\<not> isSending (m_sessions s ! 0)" using s(3) sample_live_session by simp
  have P: "pkt_inv (packets s)" using s(1) net_invD(2) by (auto simp: srv_def)
  obtain x where x: "live (packets s) p = Some x" using s(2) refs_live[of "packets s" p] by auto
  obtain y where y: "Packet_SetNetHeader (ne_rand (chat_net broken_env) (trace s)) x = Inr y"
    using SetNetHeader_packet[OF get_packet(2)[OF P x]] by blast
  have w: "ne_wsa (chat_net broken_env) tr e \<notin> {0, WSA_IO_PENDING, WSAECONNRESET}" for tr e
    by (simp add: broken_env_def WSA_IO_PENDING_def WSAECONNRESET_def)
  have "SendPacket (chat_net broken_env) 0x10000 p s = Inl DebugBreak"
    by (rule send_error_breaks[where i = 0, OF s(1) one_recv(4) _ _ f _ idle x y refl w])
      (use s(2) in \<open>simp_all add: INDEX_MASK_def\<close>)
  then show ?thesis using s(1) by blast
qed

text \<open>
  \<open>Disconnect\<close> of any id: the socket of the session is closed if it is found, and every
  reference stays accounted for.
\<close>
theorem disconnect_accounted:
  assumes "net_release env B ar J" and "srv ar J c r b s" and "\<forall>j. r j < 98"
  shows "safe_if B (\<lambda>(s', ok). kept ar J c r b s s' \<and> ok = found s sid) (Disconnect env sid s)"
  by (rule net_release.Disconnect_safe[OF assms])

theorem disconnect_accounted_witness:
  "safe (\<lambda>(s', ok). srv chat_ar (chat_J [] sample_lobby []) no_refs one_recv {} s' \<and> ok)
    (Disconnect (chat_net sample_chat_env) 0x10000 sample_live)"
  by (rule safe_mono[OF disconnect_accounted[OF demo.cn.rel sample_live_srv one_recv(4), where sid = "0x10000"]])
    (auto simp: kept_def sample_live_session)

text \<open>
  C4. A completed receive. The bytes that arrived go behind those kept in the receive queue, and
  the derived class gets, in order, exactly the payloads that the stream holds; the incomplete rest
  stays in the queue. A wrong packet code or checksum ends the delivery and gives the reference
  of the receive back.
\<close>
theorem worker_receives_stream:
  assumes "net_app env ar J" and "srv ar (J L) c r b s" and "i < length (m_sessions s)" and "0 < r i" "\<forall>j. r j < 50"
    and "0 < length bs" "int (length bs) \<le> RingBuffer_GetFreeSize (recvQ (m_sessions s ! i))"
    and "net_parse (ring_contents (recvQ (m_sessions s ! i)) @ bs) = (pls, rest, e)" "e \<noteq> TooLong"
    and "c_overlapped k = Some (i, RECV)" "c_retval k" "c_transferred k = of_nat (length bs)"
  shows "safe (\<lambda>(s', more). more \<and> recv_post ar (J (L @ map (Pair (sessionID (m_sessions s ! i))) pls)) c r b i rest e s')
    (Worker_step env k (arrived i bs s))"
  by (rule safe_mono[OF net_app.Worker_received[OF assms]]) auto

definition sample_recv :: "nat \<Rightarrow> completion" where
  "sample_recv n = \<lparr>c_retval = True, c_transferred = of_nat n, c_key = 0x10000, c_overlapped = Some (0, RECV)\<rparr>"

theorem worker_receives_stream_witness:
  "safe (\<lambda>(s', more). more \<and> recv_post chat_ar (chat_J [] sample_lobby [(0x10000, [1, 2, 3])]) no_refs
      one_recv {} 0 [0x77, 3] More s')
    (Worker_step (chat_net sample_chat_env) (sample_recv 10) (arrived 0 (net_frame 7 [1, 2, 3] @ [0x77, 3]) sample_live))"
proof -
  have "net_parse (net_frame 7 [1, 2, 3] @ [0x77, 3]) = ([[1, 2, 3]], [0x77, 3], More)"
    by (subst net_parse_frame) (simp_all add: net_parse.simps)
  then show ?thesis
    using worker_receives_stream[OF demo.cn.net_app_axioms sample_live_srv, of 0 "net_frame 7 [1, 2, 3] @ [0x77, 3]"
        "[[1, 2, 3]]" "[0x77, 3]" More "sample_recv 10"]
    by (simp add: sample_live_session sample_recv_def one_recv)
qed

text \<open>
  The wire round trip of the server. When what has arrived so far is a sequence of frames as
  \<open>SetNetHeader\<close> builds them, for payloads of at most 1400 bytes, with any random keys, and the
  beginning of a next one, then exactly these payloads are delivered, however the stream was cut.
\<close>
theorem recv_delivers_frames:
  assumes "net_app env ar J" and "srv ar (J L) c r b s" and "i < length (m_sessions s)" and "0 < r i" "\<forall>j. r j < 50"
    and "0 < length bs" "int (length bs) \<le> RingBuffer_GetFreeSize (recvQ (m_sessions s ! i))"
    and fr: "ring_contents (recvQ (m_sessions s ! i)) @ bs = concat (map (\<lambda>(rk, pl). net_frame rk pl) fs) @ tail"
    and "\<forall>(rk, pl)\<in>set fs. length pl \<le> 1400" and tail: "length tail < 5 \<or> length tail < 5 + header_len tail"
  shows "safe (recv_post ar (J (L @ map (\<lambda>(rk, pl). (sessionID (m_sessions s ! i), pl)) fs)) c r b i tail More)
    (RecvProc env i (of_nat (length bs)) (arrived i bs s))"
proof -
  have "net_parse (ring_contents (recvQ (m_sessions s ! i)) @ bs) = (map snd fs, tail, More)"
    unfolding fr net_parse_frames[OF assms(9)] using tail by (subst net_parse.simps) simp
  from net_app.RecvProc_safe[OF assms(1-5,7) this] show ?thesis
    by (simp add: split_def comp_def)
qed

theorem recv_delivers_frames_witness:
  "safe (recv_post chat_ar (chat_J [] sample_lobby [(0x10000, [1, 2, 3]), (0x10000, [])]) no_refs
      one_recv {} 0 [] More)
    (RecvProc (chat_net sample_chat_env) 0 13 (arrived 0 (net_frame 7 [1, 2, 3] @ net_frame 9 []) sample_live))"
  using recv_delivers_frames[OF demo.cn.net_app_axioms sample_live_srv, of 0 "net_frame 7 [1, 2, 3] @ net_frame 9 []"
      "[(7, [1, 2, 3]), (9, [])]" "[]"]
  by (simp add: sample_live_session one_recv)

section \<open>Frames that do not fit\<close>

text \<open>
  C22. A frame whose announced payload has more than 1400 bytes, but fits into the receive queue of
  2001 bytes, is copied into the packet's block of 1405 bytes without a check: the copy runs
  past the end of the block.
\<close>
theorem oversized_frame_overflows:
  assumes "srv ar J c r b s" and "pkt_env (ne_pool env)" and "i < length (m_sessions s)"
    and bs: "bs = ring_contents (recvQ (m_sessions s ! i))" "5 + header_len bs \<le> length bs" "1400 < header_len bs"
      "bs ! 0 = PACKET_CODE"
    and al: "AllocPacket env s = Inr (s1, p)"
  shows "RecvProc_loop env (Suc fuel) i s = Inl OutOfBounds"
proof -
  let ?q = "recvQ (m_sessions s ! i)"
  have S: "net_inv ar c s" using assms(1) by (simp add: srv_def)
  have q: "ring_inv ?q" using net_invD(3)[OF S assms(3)] by (simp add: sess_ok_def)
  obtain pool x where 1: "s1 = s\<lparr>packets := pool\<rparr>" "live pool p = Some x" "srv ar J (c(p := 1)) r b s1"
    using safe_InrD[OF AllocPacket_srv[OF assms(1,2)] al] by auto
  have P: "pkt_inv pool" using 1 net_invD(2)[of ar "c(p := 1)" s1] by (simp add: srv_def)
  note G = get_packet[OF P 1(2)]
  have len: "length (m_chpBuffer x) = 1405" using G(2) by (auto simp: packet_ok_def packet_inv_def)
  have "int (5 + header_len bs) \<le> RingBuffer_GetUseSize ?q" using use_size_contents[OF q] bs(1,2) by simp
  from RingBuffer_Dequeue_overflow[OF q this, of "m_chpBuffer x" 0] len bs(3)
  have "RingBuffer_Dequeue ?q (Some (m_chpBuffer x, 0)) (5 + int (header_len bs)) = Inl OutOfBounds" by simp
  then have "take_frame env i (int (header_len bs)) s = Inl OutOfBounds"
    using al G(1) assms(3) 1(1)
    by (simp add: take_frame_def Dequeue_into_def Packet_GetBufferPtr_def sizeof_NetServerHeader_def)
  then show ?thesis
    unfolding RecvProc_pass[OF assms(3) q, folded bs(1)] using bs(2-4) by simp
qed

definition big_frame :: bytes where
  "big_frame = [0x77, 0x79, 0x05, 0] @ replicate 1402 0"

lemma big_frame: "length big_frame = 1406" "header_len big_frame = 1401" "big_frame ! 0 = PACKET_CODE"
proof -
  have "take 5 big_frame = [0x77, 0x79, 0x05, 0, 0]" by (simp add: big_frame_def)
  then show "header_len big_frame = 1401" by (simp add: header_len_def NetServerHeader_of_def)
qed (simp_all add: big_frame_def PACKET_CODE_def)

theorem oversized_frame_overflows_witness:
  "\<exists>s. srv chat_ar (chat_J [] sample_lobby []) no_refs one_recv {} s \<and>
    ring_contents (recvQ (m_sessions s ! 0)) = big_frame \<and>
    RecvProc_loop (chat_net sample_chat_env) 1 0 s = Inl OutOfBounds"
proof -
  let ?x = "m_sessions sample_live ! 0"
  have i: "0 < length (m_sessions sample_live)" by (simp add: sample_live_session)
  have "sess_ok ?x" using net_invD(3)[of chat_ar no_refs sample_live 0] sample_live_srv i by (auto simp: srv_def)
  then have q: "ring_inv (recvQ ?x)" "m_capacity (recvQ ?x) = 2002" by (auto simp: sess_ok_def)
  have fit: "int (length big_frame) \<le> RingBuffer_GetFreeSize (recvQ ?x)" by (simp add: big_frame sample_live_session)
  define q' where "q' = fst (RingBuffer_MoveRear ((recvQ ?x)\<lparr>m_pBuffer := fill_windows (m_pBuffer (recvQ ?x))
    (recv_windows (recvQ ?x)) big_frame\<rparr>) (int (length big_frame)))"
  note Q = MoveRear_arrived[OF q(1) fit, folded q'_def]
  let ?s = "sample_live\<lparr>m_sessions := (m_sessions sample_live)[0 := ?x\<lparr>recvQ := q'\<rparr>]\<rparr>"
  have s: "srv chat_ar (chat_J [] sample_lobby []) no_refs one_recv {} ?s"
    by (rule set_recvQ_srv[OF sample_live_srv i Q(1)]) (simp add: Q(3) q(2))
  have bs: "ring_contents (recvQ (m_sessions ?s ! 0)) = big_frame" using Q(2) i by (simp add: sample_live_session)
  obtain s1 p where al: "AllocPacket (chat_net sample_chat_env) ?s = Inr (s1, p)"
    using sample_chat_packet[OF s] by (auto simp: sample_live_session)
  have "pkt_env (ne_pool (chat_net sample_chat_env))" by (simp add: sample_chat_env_def sample_net_def sample_packet_env)
  from oversized_frame_overflows[OF s this, of 0, OF _ bs[symmetric] _ _ _ al, of 0] i s bs show ?thesis
    by (intro exI[of _ ?s]) (simp add: big_frame)
qed

section \<open>Completions of the worker\<close>

text \<open>
  C23. A completed send. The packets that were in flight lose the reference of the send; if the queue
  holds packets, they are sent at once by one call of \<open>WSASend\<close>, oldest first and at most 100, the rest
  keeps waiting and the flag stays set; if it holds none, the flag is cleared and nothing is sent. The
  reference of the completed send is dropped: when it was the last one and nothing is sent, the session
  is released and its index is free again. All references stay accounted for, whatever the calls return.
\<close>
theorem worker_completes_send:
  assumes "net_release env B ar J" and "srv ar J c r b s" and "send_pending r i s" and "r i < 98"
    and "c_overlapped k = Some (i, SEND)" "c_retval k" "c_transferred k \<noteq> 0"
    and x: "x = m_sessions s ! i" and waiting: "ps = take MAX_SEND_PACKET (sendQ x)"
    and e: "e = EvSend (sock x) (map (\<lambda>p. packet_wire (the (live (packets s) p))) ps)"
  shows "safe_if B (\<lambda>(s', more). kept ar J c r b s s' \<and> more \<and>
      (ps = [] \<and> r i = 0 \<longrightarrow> of_nat i \<in> set (m_indexStack s'))) (Worker_step env k s) \<and>
    ((if ps = [] then 0 < r i else ne_wsa env (trace s) e = 0 \<or> ne_wsa env (trace s) e = WSA_IO_PENDING) \<longrightarrow>
      (\<exists>s'. Worker_step env k s = Inr (s', True) \<and> trace s' = trace s @ (if ps = [] then [] else [e]) \<and>
        (isSending (m_sessions s' ! i) \<longleftrightarrow> ps \<noteq> []) \<and> sendQ (m_sessions s' ! i) = drop MAX_SEND_PACKET (sendQ x) \<and>
        sending (m_sessions s' ! i) = Inr ps \<and>
        (\<forall>p. refs (packets s') p = refs (packets s) p - count_list (take (nat (sendingCount x)) (sendingPackets x)) p)))"
proof -
  have n: "ps = [] \<longleftrightarrow> sendQ x = []" by (simp add: waiting MAX_SEND_PACKET_def)
  have w: "Worker_step env k s = and_then (SendProc env i s) (\<lambda>s. Inr (s, True))"
    using assms(5-7) by (simp add: Worker_step_def)
  show ?thesis
    using net_release.Worker_sent[OF assms(1,2,5-7,3,4)] SendProc_sends[OF assms(2-4), of env]
    unfolding n w unfolding waiting x e by fastforce
qed

text \<open>A session whose send completes while a packet waits.\<close>

lemma sample_sending:
  "\<exists>s p. srv chat_ar (chat_J [] sample_lobby []) no_refs one_recv {} s \<and> send_pending one_recv 0 s \<and>
    sendQ (m_sessions s ! 0) = [p] \<and> sock (m_sessions s ! 0) = 5"
proof -
  obtain s p pool where s: "srv chat_ar (chat_J [] sample_lobby []) (no_refs(p := 1)) one_recv {} s"
    "s = sample_live\<lparr>packets := pool\<rparr>"
    using sample_chat_packet[OF sample_live_srv sample_live_session(2)] by auto
  let ?x = "m_sessions s ! 0"
  let ?y = "?x\<lparr>isSending := True, ioCount := 2, sendQ := [p]\<rparr>"
  let ?s = "s\<lparr>m_sessions := (m_sessions s)[0 := ?y]\<rparr>"
  have S: "net_inv chat_ar (no_refs(p := 1)) s" "io_inv one_recv {} s"
    "chat_J [] sample_lobby [] (app s)" using s(1) by (auto simp: srv_def)
  have i: "0 < length (m_sessions s)" by (simp add: s(2) sample_live_session)
  have nr: "\<not> released ?y" "\<not> released ?x"
    by (simp_all add: released_def RELEASE_FLAG_def s(2) sample_live_session)
  have I: "io_sess one_recv {} (stacked s) 0 ?x" by (rule io_invD(1)[OF S(2) i])
  then have z: "sendingCount ?x = 0" "sendQ ?x = []" using s(2) by (simp_all add: io_sess_def sample_live_session)
  have "io_sess one_recv {} (stacked s) 0 ?y"
    using I nr by (simp add: io_sess_def one_recv_def)
  then have "io_inv one_recv {} ?s"
    by (rule io_inv_upd[OF S(2) i]) (use nr in \<open>simp_all add: one_recv_def\<close>)
  moreover have "net_inv chat_ar no_refs ?s"
    by (rule net_inv_upd[OF S(1) i]) (use net_invD(3)[OF S(1) i] z in \<open>auto simp: sess_ok_def queued_def\<close>)
  ultimately have "srv chat_ar (chat_J [] sample_lobby []) no_refs one_recv {} ?s" using S(3) by (simp add: srv_def)
  moreover have "send_pending one_recv 0 ?s" using i nr by (simp add: send_pending_def one_recv_def)
  ultimately show ?thesis using i s(2)
    by (intro exI[of _ ?s] exI[of _ p]) (simp add: sample_live_session)
qed

theorem worker_completes_send_witness:
  "\<exists>s p s' b. sendQ (m_sessions s ! 0) = [p] \<and>
    Worker_step (chat_net sample_chat_env)
      \<lparr>c_retval = True, c_transferred = 8, c_key = 0x10000, c_overlapped = Some (0, SEND)\<rparr> s = Inr (s', True) \<and>
    trace s' = trace s @ [EvSend 5 [b]] \<and> isSending (m_sessions s' ! 0) \<and> sendQ (m_sessions s' ! 0) = [] \<and>
    srv chat_ar (chat_J [] sample_lobby []) no_refs one_recv {} s'"
proof -
  obtain s p where s: "srv chat_ar (chat_J [] sample_lobby []) no_refs one_recv {} s" "send_pending one_recv 0 s"
    "sendQ (m_sessions s ! 0) = [p]" "sock (m_sessions s ! 0) = 5" using sample_sending by blast
  let ?k = "\<lparr>c_retval = True, c_transferred = 8, c_key = 0x10000, c_overlapped = Some (0, SEND)\<rparr>"
  have ps: "[p] = take MAX_SEND_PACKET (sendQ (m_sessions s ! 0))" by (simp add: s(3) MAX_SEND_PACKET_def)
  have k: "c_overlapped ?k = Some (0, SEND)" "c_retval ?k" "c_transferred ?k \<noteq> 0" "one_recv 0 < 98"
    by (simp_all add: one_recv_def)
  have "ne_wsa (chat_net sample_chat_env) tr ev = 0" for tr ev by (simp add: sample_chat_env_def sample_net_def)
  then show ?thesis
    using worker_completes_send[OF demo.cn.rel s(1,2) k(4,1-3) refl ps refl] s(3,4)
    by (auto simp: kept_def MAX_SEND_PACKET_def)
qed

text \<open>
  A failed or empty completion only drops the reference of the request: of the receive, which
  the worker knows, or of the send. The session is released when it was the last reference.
\<close>
theorem worker_drops_failed:
  assumes "net_release env B ar J" and "srv ar J c r b s"
    and "c_overlapped k = Some (i, type)" "\<not> c_retval k \<or> c_transferred k = 0"
    and "case type of RECV \<Rightarrow> i < length (m_sessions s) \<and> 0 < r i \<and> r' = r(i := r i - 1)
      | SEND \<Rightarrow> send_pending r i s \<and> r i < 98 \<and> r' = r"
  shows "safe_if B (\<lambda>(s', more). kept ar J c r' b s s' \<and> more) (Worker_step env k s)"
  by (rule net_release.Worker_failed[OF assms])

theorem worker_drops_failed_witness:
  "safe (\<lambda>(s', more). srv chat_ar (chat_J [] sample_lobby []) no_refs (one_recv(0 := 0)) {} s' \<and> more)
    (Worker_step (chat_net sample_chat_env) (sample_recv 0) sample_live)"
  by (rule safe_mono[OF worker_drops_failed[OF demo.cn.rel sample_live_srv, of "sample_recv 0" 0 RECV "one_recv(0 := 0)"]])
    (auto simp: sample_recv_def sample_live_session one_recv_def kept_def)

section \<open>Accepting\<close>

text \<open>
  C24. One client of the accept loop. With no free index its socket is closed and nothing else happens.
  Otherwise the index on top of the stack is taken and the derived class is asked. If it refuses, the
  socket is closed, the index goes back on the stack and every session is as before. If it allows the
  client, the session of this index, and no other, is initialised with the socket, the address and the
  id of the next generation, with one reference; the socket is associated with the completion port under
  this id, \<open>OnAccept\<close> is told, and one receive over the empty queue of 2001 bytes is posted, whose
  reference is then the only known one of the session. A receive that is reset gives it back, and any
  other error stops in the debugger.
\<close>
theorem accept_client_answers:
  assumes "net_app env ar J" and "srv ar (J L) c r b s" and "\<forall>j. r j < 48" and ev: "e = EvRecv sk [(0, 2001)]"
  shows "case m_indexStack s of
      [] \<Rightarrow> Accept_client env (sk, addr, pt) s = Inr (emit (EvClose sk) s)
    | index # rest \<Rightarrow> (case OnConnectionRequest env addr pt (s\<lparr>m_indexStack := rest\<rparr>) of
        Inl x \<Rightarrow> Accept_client env (sk, addr, pt) s = Inl x
      | Inr (s1, allow) \<Rightarrow> same_rx s s1 \<and> (if \<not> allow
          then \<exists>s'. Accept_client env (sk, addr, pt) s = Inr s' \<and> srv ar (J L) c r b s' \<and>
            m_sessions s' = m_sessions s1 \<and> m_indexStack s' = index # m_indexStack s1 \<and> trace s' = trace s1 @ [EvClose sk]
          else \<exists>s2. m_sessions s2 = (m_sessions s1)[unat index := (Session_Init sk
              (session_id (m_sessionIDGenerator s1 + 1) index) addr pt (m_sessions s1 ! unat index))\<lparr>ioCount := 1\<rparr>] \<and>
            m_sessionIDGenerator s2 = m_sessionIDGenerator s1 + 1 \<and>
            m_sessionCount s2 = m_sessionCount s1 + 1 \<and> m_indexStack s2 = m_indexStack s1 \<and>
            trace s2 = trace s1 @ replicate (if m_nagle s1 then 2 else 3) (EvSockopt sk) @
              [EvAssociate sk (session_id (m_sessionIDGenerator s1 + 1) index)] \<and>
            (case OnAccept env (session_id (m_sessionIDGenerator s1 + 1) index) s2 of
              Inl x \<Rightarrow> Accept_client env (sk, addr, pt) s = Inl x
            | Inr s3 \<Rightarrow> same_rx s2 s3 \<and>
              (if ne_wsa env (trace s3) e = 0 \<or> ne_wsa env (trace s3) e = WSA_IO_PENDING
               then Accept_client env (sk, addr, pt) s = Inr (emit e s3) \<and> srv ar (J L) c (r(unat index := 1)) b (emit e s3)
               else if ne_wsa env (trace s3) e \<noteq> WSAECONNRESET then Accept_client env (sk, addr, pt) s = Inl DebugBreak
               else safe (kept ar (J L) c r b s2) (Accept_client env (sk, addr, pt) s)))))"
  unfolding ev by (rule net_app.Accept_client_exact[OF assms(1-3)])

text \<open>A derived class that answers \<open>ok\<close> to every client and does nothing with it.\<close>

definition doorman :: "bool \<Rightarrow> chat net_env" where
  "doorman ok = (chat_net sample_chat_env)\<lparr>OnConnectionRequest := (\<lambda>_ _ s. Inr (s, ok)), OnAccept := (\<lambda>_ s. Inr s)\<rparr>"

lemma doorman_app: "net_app (doorman ok) chat_ar (chat_J [] sample_lobby)"
  using demo.cn.net_app_axioms[of "[]" sample_lobby] by (simp add: net_app_def net_release_def doorman_def)

theorem accept_client_answers_witness:
  "(\<exists>s'. Accept_client (doorman True) (6, ''10.0.0.2'', 4001) sample_live = Inr s' \<and> sock (m_sessions s' ! 1) = 6 \<and>
      sessionID (m_sessions s' ! 1) = session_id (m_sessionIDGenerator sample_live + 1) 1 \<and>
      srv chat_ar (chat_J [] sample_lobby []) no_refs (one_recv(1 := 1)) {} s') \<and>
   (\<exists>s'. Accept_client (doorman False) (6, ''10.0.0.2'', 4001) sample_live = Inr s' \<and>
      m_sessions s' = m_sessions sample_live \<and> m_indexStack s' = [1] \<and> trace s' = trace sample_live @ [EvClose 6])"
proof -
  have w: "ne_wsa (doorman ok) tr e = 0" for ok tr e by (simp add: doorman_def sample_chat_env_def sample_net_def)
  have o: "OnConnectionRequest (doorman ok) a q s = Inr (s, ok)" "OnAccept (doorman ok) sid s = Inr s" for ok a q sid s
    by (simp_all add: doorman_def)
  note A = accept_client_answers[OF doorman_app sample_live_srv one_recv(2) refl, of _ 6 "''10.0.0.2''" 4001]
  have "\<exists>s'. Accept_client (doorman True) (6, ''10.0.0.2'', 4001) sample_live = Inr s' \<and> sock (m_sessions s' ! 1) = 6 \<and>
      sessionID (m_sessions s' ! 1) = session_id (m_sessionIDGenerator sample_live + 1) 1 \<and>
      srv chat_ar (chat_J [] sample_lobby []) no_refs (one_recv(1 := 1)) {} s'"
    using A[of True] by (auto simp: sample_live_session w o Session_Init_def)
  moreover have "\<exists>s'. Accept_client (doorman False) (6, ''10.0.0.2'', 4001) sample_live = Inr s' \<and>
      m_sessions s' = m_sessions sample_live \<and> m_indexStack s' = [1] \<and> trace s' = trace sample_live @ [EvClose 6]"
    using A[of False] by (auto simp: sample_live_session w o)
  ultimately show ?thesis by blast
qed

text \<open>
  C25. Ids are not reused: an id built from another generation, below \<open>2 ^ 48\<close>, or another index is a
  different id; so an id kept from an earlier connection finds no session once its index has gone
  to a new connection, and a packet sent to it reaches nobody.
\<close>
theorem stale_id_not_found:
  assumes "srv ar J c r b s" and "unat index < length (m_sessions s)"
    and "sessionID (m_sessions s ! unat index) = session_id gen index"
    and "unat gen < 2 ^ 48" "unat old < 2 ^ 48" "old \<noteq> gen"
  shows "\<not> found s (session_id old index) \<and>
    SendPacket env (session_id old index) p s = Inr (s, False) \<and>
    Disconnect env (session_id old index) s = Inr (s, False)"
proof -
  have "length (m_sessions s) \<le> 65536" using assms(1) by (simp add: srv_def io_inv_def)
  then have ix: "unat index < 65536" using assms(2) by simp
  have "session_id old index \<noteq> session_id gen index"
    using session_id_inj(1)[OF ix ix assms(5,4)] assms(6) by blast
  moreover have "unat (session_id old index AND INDEX_MASK) = unat index"
    using ix unfolding session_id_index[OF ix] by (simp add: unat_of_nat take_bit_nat_eq_self unsigned_ucast_eq)
  ultimately have nf: "\<not> found s (session_id old index)" using assms(3) by (simp add: found_def)
  moreover have "AcquireSession env (session_id old index) s = Inr (s, None)"
    using AcquireSession_eq[of ar c s r b env "session_id old index"] assms(1) nf by (simp add: srv_def)
  ultimately show ?thesis by (simp add: SendPacket_def Disconnect_def)
qed

theorem stale_id_not_found_witness:
  "SendPacket (chat_net sample_chat_env) (session_id 9 0) 0 sample_live = Inr (sample_live, False)"
  using stale_id_not_found[OF sample_live_srv, of 0 1 9 "chat_net sample_chat_env" 0] sample_live_session
  by (simp add: session_id_def INDEX_BITS_def)

section \<open>Stop and restart\<close>

text \<open>
  C26. \<open>Stop\<close> from any consistent state ends the threads, closes and destroys every session, and gives
  back exactly the packet references of the sessions: what remains is held by the caller or the
  derived class.
\<close>
theorem stop_returns_packets:
  assumes "srv ar J c r b s"
  shows "\<exists>s'. Stop env s = Inr s' \<and> m_sessions s' = [] \<and> \<not> m_isRunning s' \<and> m_threads s' = 0 \<and>
    pkt_inv (packets s') \<and> (\<forall>p. refs (packets s') p = c p + ar (app s') p)"
  using Stop_ok[OF assms, of env] by auto

theorem stop_returns_packets_witness:
  "\<exists>s'. Stop (chat_net sample_chat_env) sample_live = Inr s' \<and> m_sessions s' = [] \<and> pkt_inv (packets s')"
  using stop_returns_packets[OF sample_live_srv, of "chat_net sample_chat_env"] by auto

text \<open>
  C30. Stopping leaves the stack of free indices and the session count as they are: after a stop
  with a free index, any later start that succeeds pushes that index a second time, so two clients
  can be given the same session.
\<close>
theorem restart_duplicates_index:
  assumes "srv ar J c r b s" and "index \<in> set (m_indexStack s)"
  shows "\<exists>s1. Stop env s = Inr s1 \<and>
    (\<forall>s2. Start env lsock mem ipAddr portNum workers active nagle (m_maxSessionCount s) s1 = (s2, True) \<longrightarrow>
      \<not> distinct (m_indexStack s2))"
proof -
  obtain s1 where s1: "Stop env s = Inr s1" "m_indexStack s1 = m_indexStack s" using Stop_ok[OF assms(1)] by blast
  have "unat index < unat (m_maxSessionCount s)"
    using assms net_invD(1)[of ar c s] by (auto simp: srv_def io_inv_def stacked_def)
  then show ?thesis using s1 assms(2) by (auto dest: not_distinct_restart)
qed

theorem restart_duplicates_index_witness:
  "\<exists>s1 s2. Stop (chat_net sample_chat_env) sample_live = Inr s1 \<and>
    Start (chat_net sample_chat_env) 4 (\<lambda>_. replicate 2002 0) ''127.0.0.1'' 6000 2 2 True 2 s1 = (s2, True) \<and>
    \<not> distinct (m_indexStack s2)"
proof -
  have n: "m_maxSessionCount sample_live = 2" by (simp add: sample_live_session)
  have st: "1 \<in> set (m_indexStack sample_live)" by (simp add: sample_live_session)
  obtain s1 where s1: "Stop (chat_net sample_chat_env) sample_live = Inr s1"
    "\<forall>s2. Start (chat_net sample_chat_env) 4 (\<lambda>_. replicate 2002 0) ''127.0.0.1'' 6000 2 2 True 2 s1 = (s2, True) \<longrightarrow>
      \<not> distinct (m_indexStack s2)"
    using restart_duplicates_index[OF sample_live_srv st, where env = "chat_net sample_chat_env" and lsock = 4
        and mem = "\<lambda>_. replicate 2002 0" and ipAddr = "''127.0.0.1''" and portNum = 6000 and workers = 2
        and active = 2 and nagle = True] unfolding n by blast
  have w: "ne_wsa (chat_net sample_chat_env) tr e = 0" for tr e
    by (simp add: sample_chat_env_def sample_net_def)
  have "\<exists>s2. Start (chat_net sample_chat_env) 4 (\<lambda>_. replicate 2002 0) ''127.0.0.1'' 6000 2 2 True 2 s1 = (s2, True)"
    by (rule Start_succeeds[OF w]) (simp_all add: INVALID_SOCKET_def)
  then show ?thesis using s1 by blast
qed

end
