(* ===== verification/ChatProperties.thy ===== *)
theory ChatProperties
  imports ChatContents NetProperties
begin

text \<open>The properties of the chat server, with a lobby of one player as their instance.\<close>

section \<open>An instance\<close>

lemma srv_work: "srv chat_ar (chat_J H l L) c r b s \<Longrightarrow> work H l L (jobs_of (app s)) c r b s"
  by (simp add: work_def srv_def waiting_def)

lemma work_srv: "work H l L js c r b s \<Longrightarrow> srv chat_ar (chat_J H l L) c r b s"
  by (simp add: work_def srv_def)

definition sample_member :: player where
  "sample_member = sample_player\<lparr>sessionId := 0x10000, accountNo := 7, sectorX := 3, sectorY := 4,
     isLogin := True\<rparr>"

definition sample_sector :: "u64 \<Rightarrow> nat \<Rightarrow> nat \<Rightarrow> u64 list" where
  "sample_sector p y x = (if y = 4 \<and> x = 3 then [p] else [])"

lemma sample_players:
  "players_inv [0x10000 \<mapsto> p] [7 \<mapsto> p] (sample_sector p) [p \<mapsto> sample_member] {}"
  unfolding players_inv_def
proof (intro conjI)
  show "placed (sample_sector p) [p \<mapsto> sample_member] {}"
  proof (rule placedI)
    fix y x k assume "k < length (sample_sector p y x)"
    then show "cell_ok [p \<mapsto> sample_member] {} y x k (sample_sector p y x ! k)"
      by (simp add: sample_sector_def cell_ok_def sample_member_def sample_player_def split: if_splits)
  next
    fix t pl assume "[p \<mapsto> sample_member] t = Some pl"
    then show "located (sample_sector p) t pl"
      by (auto simp: located_def sample_sector_def sample_member_def sample_player_def split: if_splits)
  qed
qed (auto simp: sample_member_def split: if_splits)

lemma sample_lobby_one:
  "\<exists>p pp. live pp = [p \<mapsto> sample_member] \<and> lobby_inv ([0x10000 \<mapsto> p], [7 \<mapsto> p], sample_sector p, pp)"
proof -
  have st: "store_inv player_ok (sample_pool_of sample_player)" by (rule sample_pool_of_inv(1))
  have nw: "player_ok (env_new (sample_pool_env sample_player))"
    by (simp add: sample_pool_env_def player_ok_def sample_player_def)
  obtain p1 p x where 1: "store_inv player_ok p1" "live p1 = (live (sample_pool_of sample_player))(p \<mapsto> x)"
    using store_alloc[OF st sample_pool_env_malloc nw sample_pool_of_inv(3)[where t = 0]] by blast
  have "live p1 p \<noteq> None" "player_ok sample_member" using 1(2) by (simp_all add: sample_member_def player_ok_def sample_player_def)
  from store_put[OF 1(1) this] obtain pp where 2: "store_inv player_ok pp" "live pp = (live p1)(p \<mapsto> sample_member)" by blast
  have lv: "live pp = [p \<mapsto> sample_member]" using 1(2) 2(2) by (simp add: sample_pool_of_inv(2))
  then have "lobby_inv ([0x10000 \<mapsto> p], [7 \<mapsto> p], sample_sector p, pp)"
    using sample_players[of p] by (intro lobby_invI[OF 2(1)]) simp
  with lv show ?thesis by blast
qed

lemma sample_in_lobby:
  "srv chat_ar (chat_J [] l []) no_refs one_recv {} (in_lobby l sample_live)"
  using work_srv[OF work_in_lobby[OF srv_work[OF sample_live_srv]]] .

text \<open>A release queued for the player.\<close>

lemma sample_push:
  assumes J: "chat_J H l L (app s)" and r: "ready (ce_jobs ce) (ne_tid (ce_net ce)) (jobPool (app s))"
    and mal: "malloc_spec (ce_jobs ce)"
  shows "\<exists>s'. PushJob ce type sid p s = Inr s'"
proof -
  have st: "store_inv (\<lambda>_. True) (jobPool (app s))" using J by (simp add: chat_J_def)
  obtain p1 j x where 1: "TLS_Alloc (ce_jobs ce) (ne_tid (ce_net ce)) (jobPool (app s)) = Inr (p1, j)"
    "store_inv (\<lambda>_. True) p1" "live p1 = (live (jobPool (app s)))(j \<mapsto> x)"
    using store_alloc[OF st mal _ r] by blast
  have "live p1 j \<noteq> None" using 1(3) by simp
  from store_put[OF 1(2) this] obtain p2 where
    "obj_put p1 j \<lparr>job_type = type, job_sessionID = sid, job_packet = p\<rparr> = Inr p2" by blast
  then show ?thesis using 1(1) by (simp add: PushJob_def)
qed

lemma sample_queue:
  "\<exists>s j. srv chat_ar (chat_J [] l []) no_refs one_recv {} s \<and> jobQueue (app s) = [j] \<and>
    live (jobPool (app s)) j = Some \<lparr>job_type = RELEASE, job_sessionID = 0x10000, job_packet = 0\<rparr>"
proof -
  let ?s = "in_lobby l sample_live"
  let ?x = "\<lparr>job_type = RELEASE, job_sessionID = 0x10000, job_packet = 0\<rparr>"
  have s: "srv chat_ar (chat_J [] l []) no_refs one_recv {} ?s" by (rule sample_in_lobby)
  have a: "jobPool (app ?s) = sample_pool_of sample_job" "jobs_of (app ?s) = []"
    by (simp_all add: sample_live_session) (simp_all add: sample_chat_def chat_default_def jobs_of_def)
  have J: "chat_J [] l [] (app ?s)" using s by (simp add: srv_def)
  have mal: "malloc_spec (ce_jobs sample_chat_env)" by (simp add: sample_chat_env_def sample_pool_env_malloc)
  have "ready (ce_jobs sample_chat_env) (ne_tid (ce_net sample_chat_env)) (jobPool (app ?s))"
    unfolding a by (simp add: sample_chat_env_def sample_pool_of_inv(3))
  from sample_push[OF J this mal] obtain s' where 1: "PushJob sample_chat_env RELEASE 0x10000 0 ?s = Inr s'" by blast
  obtain b where b: "s' = ?s\<lparr>app := b\<rparr>" "jobs_of b = [?x]"
    using safe_InrD[OF PushJob_safe[OF J mal] 1] a(2) by auto
  have k: "srv chat_ar (chat_J [] l []) no_refs one_recv {} s'"
    using safe_InrD[OF PushJob_control[OF s mal, of RELEASE] 1] by (simp add: kept_def)
  obtain j where j: "jobQueue b = [j]" "the (live (jobPool b) j) = ?x" using b(2) by (auto simp: jobs_of_def)
  have "dom (live (jobPool b)) = {j}" using k b(1) j(1) by (simp add: srv_def chat_J_def)
  then have "live (jobPool b) j = Some ?x" using j(2) by force
  then show ?thesis using k b(1) j(1) by (intro exI[of _ s'] exI[of _ j]) simp
qed

lemma demo_ok: "chat_env_ok sample_chat_env"
  by (rule sample_chat_env_ok)

section \<open>Properties\<close>

text \<open>
  C5. One turn of the contents thread refines the abstract server: on any consistent state, taking
  the job at the head of the queue, handling and freeing it ends normally or in the debugger break,
  and in no other fault; it keeps the invariants of the net server (sessions, reference counts, packet
  references) and of the lobby (maps, players, sectors); the new room, members by session id and
  sessions by account, is exactly the one that \<open>room_step\<close> computes from the job's bytes, and where
  \<open>room_step\<close> has none, the turn does not return; the other jobs stay in order, behind them at most
  releases.
\<close>
theorem chat_job_refines:
  assumes ce: "chat_env_ok ce" and s: "srv chat_ar (chat_J [] l L) c r b s" and I: "lobby_inv l"
    and q: "jobQueue (app s) = j # q" and x: "live (jobPool (app s)) j = Some x" and r: "\<forall>i. r i < 98"
    and n: "can_accept x l"
    and d: "job_type x = RECV_JOB \<longrightarrow> map_option packet_data (live (packets s) (job_packet x)) = Some d"
  shows "safe (\<lambda>s'. \<exists>l' new. srv chat_ar (chat_J [] l' L) c r b s' \<and> same_rx s s' \<and> lobby_inv l' \<and>
      room_step (ce_stack ce) x d (room_of l) = Some (room_of l') \<and>
      jobs_of (app s') = tl (jobs_of (app s)) @ new \<and> (\<forall>y\<in>set new. job_type y = RELEASE))
    (and_then (HandleJob ce j (Take_job s)) (FreeJob ce j))"
    (is "safe ?Q _")
proof -
  have cs: "chat_server ce" using ce by unfold_locales
  let ?js = "map (\<lambda>j. the (live (jobPool (app s)) j)) q"
  have tl: "tl (jobs_of (app s)) = ?js" using q by (simp add: jobs_of_def)
  have "live (jobPool (app (Take_job s))) j = Some x" "packets (Take_job s) = packets s"
    using x by (simp_all add: Take_job_def)
  then have "safe (lobby_gives [j] L ?js c r b (Take_job s) (room_step (ce_stack ce) x d (room_of l))) (HandleJob ce j (Take_job s))"
    using take_job[OF s q x] I r n d by (intro chat_server.HandleJob_work[OF cs]) auto
  then show ?thesis
  proof (rule safe_and_then)
    fix s1 assume "lobby_gives [j] L ?js c r b (Take_job s) (room_step (ce_stack ce) x d (room_of l)) s1"
    then obtain l' where 1: "work [j] l' L ?js c r b s1" "same_rx s s1" "lobby_inv l'"
      "room_step (ce_stack ce) x d (room_of l) = Some (room_of l')" by (auto simp: lobby_gives_def Take_job_def)
    obtain pool where 2: "FreeJob ce j s1 = Inr (s1\<lparr>app := (app s1)\<lparr>jobPool := pool\<rparr>\<rparr>)"
      "work [] l' L ?js c r b (s1\<lparr>app := (app s1)\<lparr>jobPool := pool\<rparr>\<rparr>)" using FreeJob_work[OF 1(1)] by blast
    obtain new where "jobs_of ((app s1)\<lparr>jobPool := pool\<rparr>) = ?js @ new" "\<forall>y\<in>set new. job_type y = RELEASE"
      using 2(2) by (auto simp: work_def srv_def waiting_def)
    then have "?Q (s1\<lparr>app := (app s1)\<lparr>jobPool := pool\<rparr>\<rparr>)"
      using 1(2-4) work_srv[OF 2(2)] unfolding tl by (intro exI[of _ l'] exI[of _ new]) simp
    then show "safe ?Q (FreeJob ce j s1)" using 2(1) by simp
  qed
qed

theorem chat_job_refines_witness:
  "\<exists>s l j L x d. jobQueue (app s) = [j] \<and> room_of l = ([0x10000 \<mapsto> member_of sample_member], [7 \<mapsto> 0x10000]) \<and>
    room_step 0 x d (room_of l) = Some (Map.empty, Map.empty) \<and>
    safe (\<lambda>s'. \<exists>l' new. srv chat_ar (chat_J [] l' L) no_refs one_recv {} s' \<and> same_rx s s' \<and> lobby_inv l' \<and>
      room_step 0 x d (room_of l) = Some (room_of l') \<and>
      jobs_of (app s') = tl (jobs_of (app s)) @ new \<and> (\<forall>y\<in>set new. job_type y = RELEASE))
    (and_then (HandleJob sample_chat_env j (Take_job s)) (FreeJob sample_chat_env j))"
proof -
  obtain p pp where l: "live pp = [p \<mapsto> sample_member]" "lobby_inv ([0x10000 \<mapsto> p], [7 \<mapsto> p], sample_sector p, pp)"
    using sample_lobby_one by blast
  let ?l = "([0x10000 \<mapsto> p], [7 \<mapsto> p], sample_sector p, pp)"
  let ?x = "\<lparr>job_type = RELEASE, job_sessionID = 0x10000, job_packet = 0\<rparr>"
  obtain s j where s: "srv chat_ar (chat_J [] ?l []) no_refs one_recv {} s" "jobQueue (app s) = [j]"
    "live (jobPool (app s)) j = Some ?x" using sample_queue[of ?l] by blast
  have R: "room_of ?l = ([0x10000 \<mapsto> member_of sample_member], [7 \<mapsto> 0x10000])"
    by (auto simp: room_of_def through_def fun_eq_iff l(1) sample_member_def)
  have "member_of sample_member = \<lparr>account = Some 7, place = Some (3, 4), leaving = False\<rparr>"
    by (simp add: member_of_def sample_member_def sample_player_def INVALID_SECTOR_def)
  then have st: "room_step 0 ?x [] (room_of ?l) = Some (Map.empty, Map.empty)"
    unfolding R by (simp add: room_step_def release_step_def)
  have k: "ce_stack sample_chat_env = 0" by (simp add: sample_chat_env_def)
  have "can_accept ?x ?l" by (simp add: can_accept_def)
  from chat_job_refines[OF demo_ok s(1) l(2) s(2,3) one_recv(4) this, of "[]", unfolded k] show ?thesis
    using s(2) R st by (intro exI[of _ s] exI[of _ ?l] exI[of _ j] exI[of _ "[]"] exI[of _ ?x]) simp
qed

text \<open>
  C27. A broadcast sends the packet once to each player whose sector is at most one away in both
  directions, the sender's own included, and to nobody else; the sectors at the edges are not
  passed over and none outside the map is read. The count of the packet cannot overflow.
\<close>
theorem message_reaches_neighbours:
  assumes ce: "chat_env_ok ce" and s: "srv chat_ar (chat_J H (sm, am, sec, pp) L) c r b s"
    and I: "lobby_inv (sm, am, sec, pp)" and b: "sx < 50" "sy < 50" and r: "\<forall>i. r i < 98"
    and p: "0 < c p" "refs (packets s) p = 1"
  shows "\<exists>ts. broadcast ce p sx sy s = for_each (send_to ce p) ts s \<and> distinct ts \<and>
    (\<forall>t. t \<in> set ts \<longleftrightarrow> (\<exists>z. live pp t = Some z \<and> near sx sy z)) \<and>
    safe (\<lambda>s'. srv chat_ar (chat_J H (sm, am, sec, pp) L) c r b s') (broadcast ce p sx sy s)"
proof -
  have cs: "chat_server ce" using ce by unfold_locales
  have st: "store_inv player_ok pp" and P: "players_inv sm am sec (live pp) {}" using lobby_invD[OF I] by blast+
  note pd = players_invD(4)[OF P]
  note w = srv_work[OF s]
  let ?ts = "audience sec sx sy"
  have lim: "refs (packets s) p + length ?ts < 2 ^ 31"
    using p(2) audience_length[OF P, of sx sy] players_invD(2)[OF P] by simp
  have eq: "broadcast ce p sx sy s = for_each (send_to ce p) ?ts s"
    by (rule chat_server.broadcast_eq[OF cs w I refl b r p(1) lim])
  have "\<forall>t\<in>set ?ts. \<exists>z. live pp t = Some z" using audience_live[OF pd] by blast
  from chat_server.send_each[OF cs w refl st this r p(1) lim] have
    "safe (\<lambda>s'. srv chat_ar (chat_J H (sm, am, sec, pp) L) c r b s') (broadcast ce p sx sy s)"
    unfolding eq by (rule safe_mono) (auto dest: work_srv)
  then show ?thesis using eq audience_distinct[OF pd] audience_near[OF pd b] by blast
qed

theorem message_reaches_neighbours_witness:
  "\<exists>s p t ts. broadcast sample_chat_env p 2 5 s = for_each (send_to sample_chat_env p) ts s \<and> set ts = {t} \<and> distinct ts"
proof -
  obtain t pp where l: "live pp = [t \<mapsto> sample_member]" "lobby_inv ([0x10000 \<mapsto> t], [7 \<mapsto> t], sample_sector t, pp)"
    using sample_lobby_one by blast
  let ?l = "([0x10000 \<mapsto> t], [7 \<mapsto> t], sample_sector t, pp)"
  have pk: "packets (in_lobby ?l sample_live) = sample_packets" by (simp add: sample_live_session(2))
  obtain s p where s: "srv chat_ar (chat_J [] ?l []) (no_refs(p := 1)) one_recv {} s" "refs (packets s) p = 1"
    using sample_chat_packet[OF sample_in_lobby pk] by auto
  have p: "0 < (no_refs(p := 1)) p" by simp
  have b: "(2 :: nat) < 50" "(5 :: nat) < 50" by simp_all
  have near: "near 2 5 sample_member"
    by (simp add: near_def sample_member_def sample_player_def INVALID_SECTOR_def)
  obtain ts where ts: "broadcast sample_chat_env p 2 5 s = for_each (send_to sample_chat_env p) ts s" "distinct ts"
    "\<forall>u. u \<in> set ts \<longleftrightarrow> (\<exists>z. live pp u = Some z \<and> near 2 5 z)"
    using message_reaches_neighbours[OF demo_ok s(1) l(2) b one_recv(4) p s(2)] by blast
  have "set ts = {t}" using ts(3) near l(1) by (auto split: if_splits)
  then show ?thesis using ts(1,2) by blast
qed

text \<open>
  C28. A check of the timeout always returns. It marks as leaving exactly the players from whom nothing
  has come for 40000 ms or more on the server's clock (in 64-bit arithmetic), and it closes, once each
  and in the order of the map's iteration, the sockets of exactly those of them that were not leaving
  already and whose session is still live; no other call is made, no session changes, and nothing else
  of any player, of the maps and of the sectors does.
\<close>
theorem timeout_kicks_silent:
  assumes ce: "chat_env_ok ce" and s: "srv chat_ar (chat_J H (sm, am, sec, pp) L) c r b s"
    and I: "lobby_inv (sm, am, sec, pp)" and now: "now = ce_now ce (trace s)"
    and due: "due = filter (\<lambda>sid. found s sid \<and> (\<exists>p x. sm sid = Some p \<and> live pp p = Some x \<and>
      40000 \<le> now - lastRecvTime x \<and> \<not> isDisconnecting x)) (ce_keys ce sm)"
  shows "\<exists>s' pp'. CheckTimeout ce s = Inr s' \<and>
    trace s' = trace s @ map (\<lambda>sid. EvClose (sock (m_sessions s ! unat (sid AND INDEX_MASK)))) due \<and>
    m_sessions s' = m_sessions s \<and> srv chat_ar (chat_J H (sm, am, sec, pp') L) c r b s' \<and> lobby_inv (sm, am, sec, pp') \<and>
    live pp' = (\<lambda>p. map_option (\<lambda>x. if 40000 \<le> now - lastRecvTime x then x\<lparr>isDisconnecting := True\<rparr> else x) (live pp p))"
proof -
  have cs: "chat_server ce" using ce by unfold_locales
  have P: "players_inv sm am sec (live pp) {}" using I lobby_invD by blast
  have "set (ce_keys ce sm) = dom sm" using ce players_invD(1)[OF P] by (simp add: chat_env_ok_def)
  then have *: "\<exists>p x. sm sid = Some p \<and> live pp p = Some x \<and> sessionId x = sid" if "sid \<in> set (ce_keys ce sm)" for sid
    using players_session[OF P, of sid] that by fastforce
  have "filter (\<lambda>sid. kick_due now s (live pp (the (sm sid)))) (ce_keys ce sm) = due" unfolding due
    by (rule filter_cong[OF refl]) (use * in \<open>fastforce simp: kick_due_def silent_def\<close>)
  moreover have "kicked now UNIV (live pp) =
      (\<lambda>p. map_option (\<lambda>x. if 40000 \<le> now - lastRecvTime x then x\<lparr>isDisconnecting := True\<rparr> else x) (live pp p))"
    by (simp add: kicked_def silent_def)
  ultimately obtain pp' where 1: "CheckTimeout ce s = Inr (in_lobby (sm, am, sec, pp') (s\<lparr>trace := trace s @
      map (\<lambda>sid. EvClose (sock_of s sid)) due\<rparr>))" "lobby_inv (sm, am, sec, pp')"
    "live pp' = (\<lambda>p. map_option (\<lambda>x. if 40000 \<le> now - lastRecvTime x then x\<lparr>isDisconnecting := True\<rparr> else x) (live pp p))"
    using chat_server.timeout_work[OF cs srv_work[OF s] I] unfolding now by auto
  let ?s1 = "s\<lparr>trace := trace s @ map (\<lambda>sid. EvClose (sock_of s sid)) due\<rparr>"
  have "srv chat_ar (chat_J H (sm, am, sec, pp) L) c r b ?s1" using s by (simp add: srv_def)
  then have "srv chat_ar (chat_J H (sm, am, sec, pp') L) c r b (in_lobby (sm, am, sec, pp') ?s1)"
    by (intro work_srv[OF work_in_lobby[OF srv_work]])
  then show ?thesis using 1 by (intro exI[of _ "in_lobby (sm, am, sec, pp') ?s1"] exI[of _ pp']) simp
qed

theorem timeout_kicks_silent_witness:
  "\<exists>s p pp s' pp'. live pp = [p \<mapsto> sample_member] \<and> lobby_of (app s) = ([0x10000 \<mapsto> p], [7 \<mapsto> p], sample_sector p, pp) \<and>
    CheckTimeout (sample_chat_env\<lparr>ce_now := (\<lambda>_. 40000)\<rparr>) s = Inr s' \<and> trace s' = trace s @ [EvClose 5] \<and>
    lobby_of (app s') = ([0x10000 \<mapsto> p], [7 \<mapsto> p], sample_sector p, pp') \<and>
    live pp' = [p \<mapsto> sample_member\<lparr>isDisconnecting := True\<rparr>]"
proof -
  obtain p pp where l: "live pp = [p \<mapsto> sample_member]" "lobby_inv ([0x10000 \<mapsto> p], [7 \<mapsto> p], sample_sector p, pp)"
    using sample_lobby_one by blast
  let ?l = "([0x10000 \<mapsto> p], [7 \<mapsto> p], sample_sector p, pp)"
  let ?s = "in_lobby ?l sample_live"
  let ?ce = "sample_chat_env\<lparr>ce_now := (\<lambda>_. 40000)\<rparr>"
  have ok: "chat_env_ok ?ce" using demo_ok by (simp add: chat_env_ok_def)
  have m: "lastRecvTime sample_member = 0" "\<not> isDisconnecting sample_member"
    by (simp_all add: sample_member_def sample_player_def)
  have "ce_keys ?ce [0x10000 \<mapsto> p] = [0x10000]" by (simp add: sample_chat_env_def)
  moreover have "found ?s 0x10000" using sample_live_session(4) by (simp add: found_def)
  ultimately have due: "[0x10000] = filter (\<lambda>sid. found ?s sid \<and> (\<exists>q x. [0x10000 \<mapsto> p] sid = Some q \<and> live pp q = Some x \<and>
      40000 \<le> 40000 - lastRecvTime x \<and> \<not> isDisconnecting x)) (ce_keys ?ce [0x10000 \<mapsto> p])"
    using l(1) m by simp
  have now: "40000 = ce_now ?ce (trace ?s)" by simp
  obtain s' pp' where 1: "CheckTimeout ?ce ?s = Inr s'"
    "trace s' = trace ?s @ map (\<lambda>sid. EvClose (sock (m_sessions ?s ! unat (sid AND INDEX_MASK)))) [0x10000]"
    "srv chat_ar (chat_J [] ([0x10000 \<mapsto> p], [7 \<mapsto> p], sample_sector p, pp') []) no_refs one_recv {} s'"
    "live pp' = (\<lambda>q. map_option (\<lambda>x. if 40000 \<le> 40000 - lastRecvTime x then x\<lparr>isDisconnecting := True\<rparr> else x) (live pp q))"
    using timeout_kicks_silent[OF ok sample_in_lobby l(2) now due] by blast
  have "trace s' = trace ?s @ [EvClose 5]" using 1(2) by (simp add: INDEX_MASK_def sample_live_session(8))
  moreover have "live pp' = [p \<mapsto> sample_member\<lparr>isDisconnecting := True\<rparr>]"
    unfolding 1(4) by (auto simp: fun_eq_iff l(1) m)
  moreover have "lobby_of (app s') = ([0x10000 \<mapsto> p], [7 \<mapsto> p], sample_sector p, pp')"
    using 1(3) by (simp add: srv_def chat_J_def)
  ultimately show ?thesis using l(1) 1(1) by (intro exI[of _ ?s] exI[of _ p] exI[of _ pp] exI[of _ s'] exI[of _ pp']) simp
qed

text \<open>
  A client that is logged in and sends a sector move or a message with another account's number
  stops the whole server in the debugger.
\<close>
theorem foreign_account_breaks:
  assumes ce: "chat_env_ok ce" and s: "srv chat_ar (chat_J H (sm, am, sec, pp) L) c r b s"
    and I: "lobby_inv (sm, am, sec, pp)" and r: "\<forall>i. r i < 98" and p: "0 < c p"
    and k: "live (packets s) p = Some k" and pl: "sm sid = Some pl" "live pp pl = Some x"
    and x: "isLogin x" "\<not> isDisconnecting x"
    and m: "packet_data k = le_encode 2 ty @ le_encode 8 acc @ rest" "acc \<noteq> accountNo x"
      "ty = en_PACKET_CS_CHAT_REQ_SECTOR_MOVE \<and> length rest = 4 \<or>
       ty = en_PACKET_CS_CHAT_REQ_MESSAGE \<and> sectorX x \<noteq> INVALID_SECTOR \<and> 2 \<le> length rest"
  shows "PacketProc ce sid p s = Inl DebugBreak"
proof -
  have cs: "chat_server ce" using ce by unfold_locales
  let ?l = "(sm, am, sec, pp)"
  have P: "players_inv sm am sec (live pp) {}" using lobby_invD[OF I] by blast
  have "sessionId x = sid" using players_session[OF P pl(1)] pl(2) by auto
  then have M: "fst (room_of ?l) sid = Some (member_of x)" using room_member[OF P pl(2)] by simp
  have d: "le_decode (le_encode 2 ty) = ty" "le_decode (le_encode 8 acc) = acc" by simp_all
  have "recv_step (ce_stack ce) sid (packet_data k) (room_of ?l) = None"
    using m(3)
  proof
    assume t: "ty = en_PACKET_CS_CHAT_REQ_SECTOR_MOVE \<and> length rest = 4"
    then have "ty \<noteq> en_PACKET_CS_CHAT_REQ_LOGIN"
      by (simp add: en_PACKET_CS_CHAT_REQ_SECTOR_MOVE_def en_PACKET_CS_CHAT_REQ_LOGIN_def)
    then show ?thesis using M m(1,2) x t d by (simp add: recv_step_def move_step_def member_of_def)
  next
    assume t: "ty = en_PACKET_CS_CHAT_REQ_MESSAGE \<and> sectorX x \<noteq> INVALID_SECTOR \<and> 2 \<le> length rest"
    then have "ty \<noteq> en_PACKET_CS_CHAT_REQ_LOGIN \<and> ty \<noteq> en_PACKET_CS_CHAT_REQ_SECTOR_MOVE"
      by (simp add: en_PACKET_CS_CHAT_REQ_SECTOR_MOVE_def en_PACKET_CS_CHAT_REQ_LOGIN_def en_PACKET_CS_CHAT_REQ_MESSAGE_def)
    then show ?thesis using M m(1,2) x t d by (simp add: recv_step_def message_step_def member_of_def)
  qed
  then have "safe (\<lambda>_. False) (PacketProc ce sid p s)"
    by (intro safe_mono[OF chat_server.packet_work[OF cs srv_work[OF s] I r p k, of sid]])
      (simp add: lobby_gives_def)
  then show ?thesis by (cases "PacketProc ce sid p s") simp_all
qed

lemma sample_message:
  assumes n: "length bs \<le> 1400"
  shows "\<exists>s p k. srv chat_ar (chat_J [] l []) (no_refs(p := 1)) one_recv {} s \<and> live (packets s) p = Some k \<and> packet_data k = bs"
proof -
  let ?s = "in_lobby l sample_live"
  have pk: "packets ?s = sample_packets" by (simp add: sample_live_session(2))
  obtain s1 p pool where 1: "AllocPacket (chat_net sample_chat_env) ?s = Inr (s1, p)"
    using sample_chat_packet[OF sample_in_lobby pk] by blast
  have "pkt_env (ne_pool (chat_net sample_chat_env))" using demo_ok by (simp add: chat_env_ok_def)
  from safe_InrD[OF AllocPacket_srv[OF sample_in_lobby this] 1] obtain x where
    2: "live (packets s1) p = Some x" "fresh_packet x" "srv chat_ar (chat_J [] l []) (no_refs(p := 1)) one_recv {} s1"
    by auto
  have x: "packet_inv x" "packet_data x = []" "length bs = min (length bs) (nat (packet_room x))"
    using 2(2) n by (auto simp: fresh_packet_def packet_ok_def packet_data_def packet_room_def)
  from PutData_ok[OF x(1,3) order_refl] obtain y where y: "packet_inv y" "packet_data y = bs" "m_refCount y = m_refCount x"
    "m_iBufferSize y = m_iBufferSize x" using x(2) by auto
  have "packet_ok y" using y 2(2) by (simp add: packet_ok_def fresh_packet_def)
  from put_packet_srv[OF 2(3,1) this y(3)] obtain pool where
    "srv chat_ar (chat_J [] l []) (no_refs(p := 1)) one_recv {} (s1\<lparr>packets := pool\<rparr>)"
    "live pool = (live (packets s1))(p \<mapsto> y)" by blast
  then show ?thesis using y(2) by (intro exI[of _ "s1\<lparr>packets := pool\<rparr>"] exI[of _ p] exI[of _ y]) simp
qed

theorem foreign_account_breaks_witness:
  "\<exists>s p. PacketProc sample_chat_env 0x10000 p s = Inl DebugBreak"
proof -
  obtain t pp where l: "live pp = [t \<mapsto> sample_member]" "lobby_inv ([0x10000 \<mapsto> t], [7 \<mapsto> t], sample_sector t, pp)"
    using sample_lobby_one by blast
  let ?bs = "le_encode 2 en_PACKET_CS_CHAT_REQ_SECTOR_MOVE @ le_encode 8 (9 :: u64) @ [1, 0, 1, 0]"
  have "length ?bs \<le> 1400" by simp
  from sample_message[OF this] obtain s p k where
    s: "srv chat_ar (chat_J [] ([0x10000 \<mapsto> t], [7 \<mapsto> t], sample_sector t, pp) []) (no_refs(p := 1)) one_recv {} s"
    "live (packets s) p = Some k" "packet_data k = ?bs" by blast
  have "PacketProc sample_chat_env 0x10000 p s = Inl DebugBreak"
    by (rule foreign_account_breaks[OF demo_ok s(1) l(2) one_recv(4) _ s(2) _ _ _ _ s(3), where x = sample_member])
      (simp_all add: l(1) sample_member_def sample_player_def)
  then show ?thesis by blast
qed

text \<open>
  C29. A second login with an account kicks the session that holds it, but when the release of that
  older session is handled, the account's entry is erased although it is the newer session's: that
  session stays, logged in, and a third login with the account finds nobody to kick.
\<close>
theorem release_forgets_newer_login:
  assumes ce: "chat_env_ok ce" and s: "srv chat_ar (chat_J H l L) c r b s" and I: "lobby_inv l"
    and old: "fst (room_of l) sid = Some m" "account m = Some acc"
    and new: "snd (room_of l) acc = Some sid2" "sid2 \<noteq> sid" "fst (room_of l) sid2 = Some m2" "account m2 = Some acc"
  shows "safe (\<lambda>s'. \<exists>l'. srv chat_ar (chat_J H l' L) c r b s' \<and> lobby_inv l' \<and>
      fst (room_of l') sid2 = Some m2 \<and> snd (room_of l') acc = None) (ProcessRelease ce sid s)"
proof -
  have cs: "chat_server ce" using ce by unfold_locales
  have e: "release_step sid (room_of l) = Some ((fst (room_of l))(sid := None), (snd (room_of l))(acc := None))"
    using old by (simp add: release_step_def)
  show ?thesis
  proof (rule safe_mono[OF chat_server.release_work[OF cs srv_work[OF s] I, of sid]])
    fix s' assume "lobby_gives H L (jobs_of (app s)) c r b s (release_step sid (room_of l)) s'"
    then obtain l' where "work H l' L (jobs_of (app s)) c r b s'" "lobby_inv l'"
      "room_of l' = ((fst (room_of l))(sid := None), (snd (room_of l))(acc := None))"
      by (auto simp: lobby_gives_def e)
    then show "\<exists>l'. srv chat_ar (chat_J H l' L) c r b s' \<and> lobby_inv l' \<and>
        fst (room_of l') sid2 = Some m2 \<and> snd (room_of l') acc = None"
      using new by (intro exI[of _ l']) (auto dest: work_srv)
  qed
qed

text \<open>Two sessions of one account: the older one is leaving, the newer one holds the entry.\<close>

definition sample_old :: player where
  "sample_old = sample_player\<lparr>sessionId := 0x10000, accountNo := 7, sectorX := 0xffff, isLogin := True, isDisconnecting := True\<rparr>"

definition sample_new :: player where
  "sample_new = sample_player\<lparr>sessionId := 0x20001, accountNo := 7, sectorX := 0xffff, isLogin := True\<rparr>"

lemma sample_lobby_two:
  "\<exists>l. lobby_inv l \<and> room_of l = ([0x10000 \<mapsto> member_of sample_old, 0x20001 \<mapsto> member_of sample_new], [7 \<mapsto> 0x20001])"
proof -
  have st: "store_inv player_ok (sample_pool_of sample_player)" by (rule sample_pool_of_inv(1))
  have nw: "player_ok (env_new (sample_pool_env sample_player))"
    by (simp add: sample_pool_env_def player_ok_def sample_player_def)
  have ok: "player_ok sample_old" "player_ok sample_new"
    by (simp_all add: sample_old_def sample_new_def player_ok_def sample_player_def)
  have nf: "\<not> has_free 0 (sample_pool_of sample_player)"
    by (simp add: has_free_def sample_pool_of_def empty_cache_def Pool_GetPointer_def)
  obtain p1 p x where 1: "store_inv player_ok p1" "live p1 = (live (sample_pool_of sample_player))(p \<mapsto> x)" "has_free 0 p1"
    using store_alloc[OF st sample_pool_env_malloc nw sample_pool_of_inv(3)[where t = 0]] nf by blast
  have "ready (sample_pool_env sample_player) 0 p1" using 1(3) by (simp add: ready_def)
  from store_alloc[OF 1(1) sample_pool_env_malloc nw this] obtain p2 q y where
    2: "store_inv player_ok p2" "live p1 q = None" "live p2 = (live p1)(q \<mapsto> y)" by blast
  have "live p2 p \<noteq> None" using 2(3) 1(2) by simp
  from store_put[OF 2(1) this ok(1)] obtain p3 where 3: "store_inv player_ok p3" "live p3 = (live p2)(p \<mapsto> sample_old)" by blast
  have "live p3 q \<noteq> None" using 3(2) 2(3) by simp
  from store_put[OF 3(1) this ok(2)] obtain pp where 4: "store_inv player_ok pp" "live pp = (live p3)(q \<mapsto> sample_new)" by blast
  have ne: "q \<noteq> p" using 2(2) 1(2) by auto
  have lv: "live pp = [p \<mapsto> sample_old, q \<mapsto> sample_new]"
    using ne 4(2) 3(2) 2(3) 1(2) by (auto simp: fun_eq_iff sample_pool_of_inv(2))
  let ?sm = "[0x10000 :: u64 \<mapsto> p, 0x20001 \<mapsto> q]"
  let ?l = "(?sm, [7 \<mapsto> q], \<lambda>_ _. [], pp)"
  have ids: "sessionId sample_old = 0x10000" "sessionId sample_new = 0x20001" "accountNo sample_new = 7" "isLogin sample_new"
    "sectorX sample_old = INVALID_SECTOR" "sectorX sample_new = INVALID_SECTOR" "isLogin sample_old"
    by (simp_all add: sample_old_def sample_new_def INVALID_SECTOR_def)
  have "players_inv ?sm [7 \<mapsto> q] (\<lambda>_ _. []) (live pp) {}"
    unfolding players_inv_def
  proof (intro conjI)
    show "placed (\<lambda>_ _. []) (live pp) {}" unfolding lv by (rule placedI) (auto simp: ids split: if_splits)
    show "ran ?sm = dom (live pp)" using ne by (auto simp: lv ran_def) (rule exI[of _ "0x20001"], simp)
  qed (use ne in \<open>auto simp: lv ids split: if_splits\<close>)
  then have "lobby_inv ?l" using 4(1) by (rule lobby_invI[rotated])
  moreover have "room_of ?l = ([0x10000 \<mapsto> member_of sample_old, 0x20001 \<mapsto> member_of sample_new], [7 \<mapsto> 0x20001])"
    using ne by (auto simp: room_of_def through_def fun_eq_iff lv ids)
  ultimately show ?thesis by blast
qed

theorem release_forgets_newer_login_witness:
  "\<exists>s l. srv chat_ar (chat_J [] l []) no_refs one_recv {} s \<and> snd (room_of l) 7 = Some 0x20001 \<and>
    safe (\<lambda>s'. \<exists>l'. srv chat_ar (chat_J [] l' []) no_refs one_recv {} s' \<and> lobby_inv l' \<and>
      fst (room_of l') 0x20001 = Some (member_of sample_new) \<and> snd (room_of l') 7 = None) (ProcessRelease sample_chat_env 0x10000 s)"
proof -
  obtain l where l: "lobby_inv l"
    "room_of l = ([0x10000 \<mapsto> member_of sample_old, 0x20001 \<mapsto> member_of sample_new], [7 \<mapsto> 0x20001])"
    using sample_lobby_two by blast
  have m: "account (member_of sample_old) = Some 7" "account (member_of sample_new) = Some 7"
    by (simp_all add: member_of_def sample_old_def sample_new_def)
  have "safe (\<lambda>s'. \<exists>l'. srv chat_ar (chat_J [] l' []) no_refs one_recv {} s' \<and> lobby_inv l' \<and>
      fst (room_of l') 0x20001 = Some (member_of sample_new) \<and> snd (room_of l') 7 = None)
      (ProcessRelease sample_chat_env 0x10000 (in_lobby l sample_live))"
    by (rule release_forgets_newer_login[OF demo_ok sample_in_lobby l(1), where m = "member_of sample_old"]) (simp_all add: l(2) m)
  then show ?thesis using sample_in_lobby[of l] l(2) by (intro exI[of _ "in_lobby l sample_live"] exI[of _ l]) simp
qed

text \<open>
  A player that leaves its sector is gone from the map and everybody else stays where they were,
  in the sector and at the index that their own fields say, though the last of the sector has moved.
\<close>
theorem sector_leave_exact:
  assumes "lobby_of (app s) = (sm, am, sec, pp)" and "store_inv player_ok pp" and "placed sec (live pp) {}"
    and "live pp p = Some a" "sectorX a \<noteq> INVALID_SECTOR"
  shows "\<exists>sec' pp'. sector_leave p s = Inr (in_lobby (sm, am, sec', pp') s) \<and> placed sec' (live pp') {p} \<and>
    (\<forall>y x. set (sec' y x) = set (sec y x) - {p})"
proof -
  obtain sec' pp' q b where 1: "sector_leave p s = Inr (in_lobby (sm, am, sec', pp') s)" "placed sec' (live pp') {p}"
    "live pp q = Some b" "live pp' = (live pp)(q \<mapsto> b\<lparr>sectorIndex := sectorIndex a\<rparr>)"
    using sector_leave_ok[OF assms] by blast
  have "t \<in> set (sec' y x) \<longleftrightarrow> t \<in> set (sec y x) \<and> t \<noteq> p" for t y x
    unfolding placed_set[OF 1(2)] placed_set[OF assms(3)] using 1(3,4) by (cases "t = q") auto
  then have "set (sec' y x) = set (sec y x) - {p}" for y x by blast
  then show ?thesis using 1(1,2) by blast
qed

theorem sector_leave_exact_witness:
  "\<exists>s p sm am pp sec' pp'. lobby_of (app s) = (sm, am, sample_sector p, pp) \<and> sector_leave p s = Inr (in_lobby (sm, am, sec', pp') s) \<and>
    set (sample_sector p 4 3) = {p} \<and> set (sec' 4 3) = {}"
proof -
  obtain p pp where l: "live pp = [p \<mapsto> sample_member]" "lobby_inv ([0x10000 \<mapsto> p], [7 \<mapsto> p], sample_sector p, pp)"
    using sample_lobby_one by blast
  let ?l = "([0x10000 \<mapsto> p], [7 \<mapsto> p], sample_sector p, pp)"
  have st: "store_inv player_ok pp" "placed (sample_sector p) (live pp) {}"
    using lobby_invD[OF l(2)] players_invD(4) by blast+
  have lo: "lobby_of (app (in_lobby ?l sample_live)) = ?l" by simp
  have x: "live pp p = Some sample_member" "sectorX sample_member \<noteq> INVALID_SECTOR"
    by (simp_all add: l(1) sample_member_def sample_player_def INVALID_SECTOR_def)
  have "set (sample_sector p 4 3) = {p}" by (simp add: sample_sector_def)
  with sector_leave_exact[OF lo st x] lo show ?thesis by (metis Diff_cancel)
qed

end
