(* ===== verification/LanServer.thy ===== *)
theory LanServer
  imports NetLoad NetService
begin

text \<open>
  \<open>NetworkLibrary/CLanServer\<close>: the server for the internal network. It has the same session array,
  reference counts, send path, accept loop and worker as \<open>CNetServer\<close>, in a source of its own, and
  the state types are shared here; what differs is the framing (a length of two bytes, no cipher and no
  checksum), the receive loop and where a receive is posted. Every operation is written out from
  \<open>CLanServer.cpp\<close>; the operations whose code coincides with that of the net server are proved equal
  to it, so its results hold for this server too.
\<close>

section \<open>Sessions\<close>

definition Lan_Session_default :: "bytes \<Rightarrow> session" where
  "Lan_Session_default mem =
     \<lparr>sock = INVALID_SOCKET, sessionID = 0, recvQ = RingBuffer_sized mem (RECV_BUFFER_SIZE + 1),
      sendQ = [], sendingPackets = replicate MAX_SEND_PACKET 0, sendingCount = 0,
      ip = '''', port = 0, ioCount = RELEASE_FLAG, isSending = False\<rparr>"

definition Lan_Session_Init :: "u64 \<Rightarrow> u64 \<Rightarrow> string \<Rightarrow> u16 \<Rightarrow> session \<Rightarrow> session" where
  "Lan_Session_Init sk sid ipAddr portNum x =
     x\<lparr>sock := sk, ip := take 15 ipAddr, port := portNum, recvQ := RingBuffer_ClearBuffer (recvQ x),
       sendingCount := 0, isSending := False, sessionID := sid\<rparr>"

definition Lan_ReleaseSession :: "'a net_env \<Rightarrow> nat \<Rightarrow> 'a server \<Rightarrow> 'a server result" where
  "Lan_ReleaseSession env i s =
     and_then (get_session i s) (\<lambda>x.
     if ioCount x \<noteq> 0 then Inr s
     else
     and_then (upd_session i (\<lambda>x. x\<lparr>ioCount := RELEASE_FLAG\<rparr>) s) (\<lambda>s.
     let s = emit (EvClose (sock x)) s in
     and_then (FreeSending env i s) (\<lambda>s.
     and_then (drain_sendQ env (length (sendQ x)) i s) (\<lambda>s.
     let s = s\<lparr>m_sessionCount := m_sessionCount s - 1\<rparr> in
     and_then (get_session i s) (\<lambda>x.
     and_then (OnRelease env (sessionID x) s) (\<lambda>s.
     Inr (s\<lparr>m_indexStack := of_nat i # m_indexStack s\<rparr>)))))))"

definition Lan_ReturnSession :: "'a net_env \<Rightarrow> nat \<Rightarrow> 'a server \<Rightarrow> 'a server result" where
  "Lan_ReturnSession env i s =
     and_then (add_io (- 1) i s) (\<lambda>(s, n). if n = 0 then Lan_ReleaseSession env i s else Inr s)"

definition Lan_AcquireSession :: "'a net_env \<Rightarrow> u64 \<Rightarrow> 'a server \<Rightarrow> ('a server \<times> nat option) result" where
  "Lan_AcquireSession env sid s =
     (let index = ucast (sid AND INDEX_MASK) :: u32; i = unat index in
      if index \<ge> m_maxSessionCount s then Inr (s, None)
      else and_then (add_io 1 i s) (\<lambda>(s, n).
      and_then (get_session i s) (\<lambda>x.
      if n AND RELEASE_FLAG \<noteq> 0 \<or> sessionID x \<noteq> sid
      then and_then (Lan_ReturnSession env i s) (\<lambda>s. Inr (s, None))
      else Inr (s, Some i))))"

section \<open>Sending\<close>

definition Lan_SendPost_send :: "'a net_env \<Rightarrow> nat \<Rightarrow> 'a server \<Rightarrow> 'a server result" where
  "Lan_SendPost_send env i s =
     and_then (get_session i s) (\<lambda>x.
     let (x, cnt) = SendPost_collect MAX_SEND_PACKET 0 x;
         x = x\<lparr>sendingCount := int cnt\<rparr> in
     and_then (upd_session i (\<lambda>_. x) s) (\<lambda>s.
     and_then (add_io 1 i s) (\<lambda>(s, _).
     and_then (wsabufs (packets s) (take cnt (sendingPackets x))) (\<lambda>bufs.
     let (s, err) = syscall env (EvSend (sock x) bufs) s in
     if err = 0 \<or> err = WSA_IO_PENDING then Inr s
     else if err \<noteq> WSAECONNRESET then Inl DebugBreak
     else and_then (add_io (- 1) i s) (\<lambda>(s, n). if n = 0 then Lan_ReleaseSession env i s else Inr s)))))"

definition Lan_SendPost :: "'a net_env \<Rightarrow> nat \<Rightarrow> 'a server \<Rightarrow> 'a server result" where
  "Lan_SendPost env i s =
     and_then (get_session i s) (\<lambda>x.
     if isSending x then Inr s
     else
     and_then (upd_session i (\<lambda>x. x\<lparr>isSending := True\<rparr>) s) (\<lambda>s.
     if length (sendQ x) > 0 then Lan_SendPost_send env i s
     else upd_session i (\<lambda>x. x\<lparr>isSending := False\<rparr>) s))"

definition Lan_SendProc :: "'a net_env \<Rightarrow> nat \<Rightarrow> 'a server \<Rightarrow> 'a server result" where
  "Lan_SendProc env i s =
     and_then (FreeSending env i s) (\<lambda>s.
     and_then (upd_session i (\<lambda>x. x\<lparr>isSending := False\<rparr>) s) (\<lambda>s.
     and_then (Lan_SendPost env i s) (\<lambda>s.
     and_then (add_io (- 1) i s) (\<lambda>(s, n). if n = 0 then Lan_ReleaseSession env i s else Inr s))))"

definition Lan_Disconnect :: "'a net_env \<Rightarrow> u64 \<Rightarrow> 'a server \<Rightarrow> ('a server \<times> bool) result" where
  "Lan_Disconnect env sid s =
     and_then (Lan_AcquireSession env sid s) (\<lambda>(s, r).
     case r of None \<Rightarrow> Inr (s, False)
     | Some i \<Rightarrow>
       and_then (get_session i s) (\<lambda>x.
       let s = emit (EvClose (sock x)) s in
       and_then (Lan_ReturnSession env i s) (\<lambda>s. Inr (s, True))))"

definition Lan_SendPacket :: "'a net_env \<Rightarrow> u64 \<Rightarrow> u64 \<Rightarrow> 'a server \<Rightarrow> ('a server \<times> bool) result" where
  "Lan_SendPacket env sid p s =
     and_then (Lan_AcquireSession env sid s) (\<lambda>(s, r).
     case r of None \<Rightarrow> Inr (s, False)
     | Some i \<Rightarrow>
       and_then (on_pool (on_packet p Packet_SetLanHeader) s) (\<lambda>s.
       and_then (on_pool (Packet_AddRef p) s) (\<lambda>s.
       and_then (upd_session i (\<lambda>x. x\<lparr>sendQ := sendQ x @ [p]\<rparr>) s) (\<lambda>s.
       and_then (Lan_SendPost env i s) (\<lambda>s.
       and_then (Lan_ReturnSession env i s) (\<lambda>s. Inr (s, True)))))))"

section \<open>Receiving\<close>

text \<open>The end of \<open>RecvProc\<close>: \<open>WSARecv\<close> into the free cells, in one window or in two. The third case
  of the sizes, a direct size above the free size, makes no call and keeps the result 0.\<close>

definition Lan_RecvRepost :: "'a net_env \<Rightarrow> nat \<Rightarrow> 'a server \<Rightarrow> 'a server result" where
  "Lan_RecvRepost env i s =
     and_then (get_session i s) (\<lambda>x.
     let recvQFreeSize = RingBuffer_GetFreeSize (recvQ x);
         recvQDirectSize = RingBuffer_DirectEnqueueSize (recvQ x);
         first = (RingBuffer_GetRearBufferPtr (recvQ x), recvQDirectSize);
         (s, err) =
           (if recvQFreeSize = recvQDirectSize then syscall env (EvRecv (sock x) [first]) s
            else if recvQFreeSize > recvQDirectSize
            then syscall env (EvRecv (sock x)
              [first, (RingBuffer_GetBufferPtr (recvQ x), recvQFreeSize - recvQDirectSize)]) s
            else (s, 0)) in
     if err = 0 \<or> err = WSA_IO_PENDING then Inr s
     else if err \<noteq> WSAECONNRESET then Inl DebugBreak
     else and_then (add_io (- 1) i s) (\<lambda>(s, n). if n = 0 then Lan_ReleaseSession env i s else Inr s))"

text \<open>\<open>recvPacket->GetWritePtr()\<close> is the place behind the room for the headers.\<close>

definition Lan_Dequeue_into :: "nat \<Rightarrow> u64 \<Rightarrow> int \<Rightarrow> 'a server \<Rightarrow> 'a server result" where
  "Lan_Dequeue_into i p n s =
     and_then (get_session i s) (\<lambda>x.
     and_then (obj_get (packets s) p) (\<lambda>pkt.
     and_then (RingBuffer_Dequeue (recvQ x) (Some (m_chpBuffer pkt, Packet_GetWritePtr pkt)) n)
       (\<lambda>(q, dst, _).
     and_then (upd_session i (\<lambda>x. x\<lparr>recvQ := q\<rparr>) s) (\<lambda>s.
     case dst of None \<Rightarrow> Inr s
     | Some (buf, _) \<Rightarrow> on_pool (\<lambda>pool. obj_put pool p (pkt\<lparr>m_chpBuffer := buf\<rparr>)) s))))"

text \<open>Every pass consumes at least a header, so the size of the queue is enough fuel.\<close>

fun Lan_RecvProc_loop :: "'a net_env \<Rightarrow> nat \<Rightarrow> nat \<Rightarrow> 'a server \<Rightarrow> 'a server result" where
  "Lan_RecvProc_loop env 0 i s = Inl OutOfFuel"
| "Lan_RecvProc_loop env (Suc fuel) i s =
     and_then (get_session i s) (\<lambda>x.
     let useSize = RingBuffer_GetUseSize (recvQ x) in
     if useSize < sizeof_LanServerHeader then Lan_RecvRepost env i s
     else
     and_then (RingBuffer_Peek (recvQ x) (Some (replicate 2 0, 0)) sizeof_LanServerHeader) (\<lambda>(dst, _).
     let header = LanServerHeader_of (case dst of None \<Rightarrow> [] | Some (b, _) \<Rightarrow> b);
         len = int (unat (lan_len header)) in
     if useSize < sizeof_LanServerHeader + len then Lan_RecvRepost env i s
     else
     and_then (upd_session i (\<lambda>x. x\<lparr>recvQ := fst (RingBuffer_MoveFront (recvQ x) sizeof_LanServerHeader)\<rparr>) s) (\<lambda>s.
     and_then (AllocPacket env s) (\<lambda>(s, p).
     and_then (Lan_Dequeue_into i p len s) (\<lambda>s.
     and_then (on_pool (on_packet p (\<lambda>pkt. Inr (fst (Packet_MoveWritePos pkt len)))) s) (\<lambda>s.
     and_then (get_session i s) (\<lambda>x.
     and_then (OnRecv env (sessionID x) p s) (\<lambda>s.
     and_then (FreePacket env p s) (\<lambda>s.
     Lan_RecvProc_loop env fuel i s)))))))))"

definition Lan_RecvProc :: "'a net_env \<Rightarrow> nat \<Rightarrow> u32 \<Rightarrow> 'a server \<Rightarrow> 'a server result" where
  "Lan_RecvProc env i cbTransferred s =
     and_then (upd_session i (\<lambda>x. x\<lparr>recvQ := fst (RingBuffer_MoveRear (recvQ x) (sint cbTransferred))\<rparr>) s)
       (\<lambda>s.
     and_then (get_session i s) (\<lambda>x.
     Lan_RecvProc_loop env (nat (RingBuffer_GetUseSize (recvQ x)) + 1) i s))"

section \<open>Accepting and the worker\<close>

text \<open>The first receive of a session: one window, and on a reset connection the count is taken back
  without a test, since the accept loop still holds a reference.\<close>

definition Lan_first_recv :: "'a net_env \<Rightarrow> nat \<Rightarrow> u64 \<Rightarrow> 'a server \<Rightarrow> 'a server result" where
  "Lan_first_recv env i client_sock s =
     and_then (get_session i s) (\<lambda>x.
     let (s, err) = syscall env (EvRecv client_sock
           [(RingBuffer_GetRearBufferPtr (recvQ x), RingBuffer_DirectEnqueueSize (recvQ x))]) s in
     if err = 0 \<or> err = WSA_IO_PENDING then Inr s
     else if err \<noteq> WSAECONNRESET then Inl DebugBreak
     else and_then (add_io (- 1) i s) (\<lambda>(s, _). Inr s))"

definition Lan_Accept_live :: "'a net_env \<Rightarrow> u32 \<Rightarrow> u64 \<times> string \<times> u16 \<Rightarrow> 'a server \<Rightarrow> 'a server result" where
  "Lan_Accept_live env index c s =
     (let (client_sock, ipStr, portNum) = c; i = unat index;
          s = emit (EvSockopt client_sock) (emit (EvSockopt client_sock) s);
          s = (if \<not> m_nagle s then emit (EvSockopt client_sock) s else s);
          s = s\<lparr>m_sessionIDGenerator := m_sessionIDGenerator s + 1\<rparr>;
          sid = session_id (m_sessionIDGenerator s) index in
      and_then (upd_session i (Lan_Session_Init client_sock sid ipStr portNum) s) (\<lambda>s.
      and_then (add_io 1 i s) (\<lambda>(s, _).
      and_then (upd_session i (\<lambda>x. x\<lparr>ioCount := ioCount x AND NOT RELEASE_FLAG\<rparr>) s) (\<lambda>s.
      let s = emit (EvAssociate client_sock sid) (s\<lparr>m_sessionCount := m_sessionCount s + 1\<rparr>) in
      and_then (OnAccept env sid s) (\<lambda>s.
      and_then (add_io 1 i s) (\<lambda>(s, _).
      and_then (Lan_first_recv env i client_sock s) (\<lambda>s.
      Lan_ReturnSession env i s)))))))"

definition Lan_Accept_client :: "'a net_env \<Rightarrow> u64 \<times> string \<times> u16 \<Rightarrow> 'a server \<Rightarrow> 'a server result" where
  "Lan_Accept_client env c s =
     (let (client_sock, ipStr, portNum) = c in
      case m_indexStack s of [] \<Rightarrow> Inr (emit (EvClose client_sock) s)
      | index # rest \<Rightarrow>
        and_then (OnConnectionRequest env ipStr portNum (s\<lparr>m_indexStack := rest\<rparr>)) (\<lambda>(s, allow).
        if \<not> allow then
          Inr (emit (EvClose client_sock) (s\<lparr>m_indexStack := index # m_indexStack s\<rparr>))
        else Lan_Accept_live env index c s))"

fun Lan_AcceptThreadMain :: "'a net_env \<Rightarrow> (u64 \<times> string \<times> u16) option list \<Rightarrow> 'a server \<Rightarrow> 'a server result" where
  "Lan_AcceptThreadMain env [] s = Inr s"
| "Lan_AcceptThreadMain env (r # rs) s =
     (if \<not> m_isRunning s then Inr s
      else case r of None \<Rightarrow> Inr s
      | Some c \<Rightarrow> and_then (Lan_Accept_client env c s) (\<lambda>s. Lan_AcceptThreadMain env rs s))"

definition Lan_Worker_step :: "'a net_env \<Rightarrow> completion \<Rightarrow> 'a server \<Rightarrow> ('a server \<times> bool) result" where
  "Lan_Worker_step env c s =
     (if c_transferred c = 0 \<and> c_key c = 0 \<and> c_overlapped c = None then Inr (s, False)
      else case c_overlapped c of None \<Rightarrow> Inl DebugBreak
      | Some (i, type) \<Rightarrow>
        if \<not> c_retval c \<or> c_transferred c = 0
        then and_then (add_io (- 1) i s) (\<lambda>(s, n).
          and_then (if n = 0 then Lan_ReleaseSession env i s else Inr s) (\<lambda>s. Inr (s, True)))
        else case type of
            RECV \<Rightarrow> and_then (Lan_RecvProc env i (c_transferred c) s) (\<lambda>s. Inr (s, True))
          | SEND \<Rightarrow> and_then (Lan_SendProc env i s) (\<lambda>s. Inr (s, True)))"

fun Lan_WorkerThreadMain :: "'a net_env \<Rightarrow> completion list \<Rightarrow> 'a server \<Rightarrow> 'a server result" where
  "Lan_WorkerThreadMain env [] s = Inr s"
| "Lan_WorkerThreadMain env (c # cs) s =
     and_then (Lan_Worker_step env c s) (\<lambda>(s, more). if more then Lan_WorkerThreadMain env cs s else Inr s)"

section \<open>Start and stop\<close>

definition CLanServer_default :: "packet_pool \<Rightarrow> 'a \<Rightarrow> 'a server" where
  "CLanServer_default pool a =
     \<lparr>m_hcp = False, m_listenSock = INVALID_SOCKET, m_isRunning = False, m_threads = 0, m_sessions = [],
      m_indexStack = [], m_sessionCount = 0, m_sessionIDGenerator = 0, m_maxSessionCount = 0,
      m_nagle = True, packets = pool, trace = [], app = a\<rparr>"

definition Lan_Start :: "'a net_env \<Rightarrow> u64 \<Rightarrow> (nat \<Rightarrow> bytes) \<Rightarrow> string \<Rightarrow> u16 \<Rightarrow> u32 \<Rightarrow> u32 \<Rightarrow> bool \<Rightarrow> u32 \<Rightarrow>
    'a server \<Rightarrow> 'a server \<times> bool" where
  "Lan_Start env lsock mem ipAddr portNum workerCount activeCount nagle maxSessionCount s =
     (if maxSessionCount = 0 \<or> uint maxSessionCount > uint INDEX_MASK + 1 then (s, False)
      else let (s, err) = syscall env EvStartup s in if err \<noteq> 0 then (s, False)
      else let s = s\<lparr>m_maxSessionCount := maxSessionCount, m_nagle := nagle\<rparr>;
               (s, err) = syscall env (EvCreatePort activeCount) s; s = s\<lparr>m_hcp := (err = 0)\<rparr> in
      if err \<noteq> 0 then (s, False)
      else let (s, err) = syscall env EvSocket s;
               s = s\<lparr>m_listenSock := (if err = 0 then lsock else INVALID_SOCKET)\<rparr> in
      if m_listenSock s = INVALID_SOCKET then (s, False)
      else let (s, err) = syscall env (EvBind ipAddr portNum) s in if err \<noteq> 0 then (s, False)
      else let (s, err) = syscall env EvListen s in if err \<noteq> 0 then (s, False)
      else let s = s\<lparr>m_sessions := map (\<lambda>i. Lan_Session_default (mem i)) [0..<unat maxSessionCount],
                      m_indexStack := push_indices (unat maxSessionCount) (m_indexStack s),
                      m_isRunning := True\<rparr>;
               (s, err) = syscall env EvThread s in
      if err \<noteq> 0 then (s, False)
      else start_workers env (unat workerCount) (s\<lparr>m_threads := m_threads s + 1\<rparr>))"

definition Lan_Stop :: "'a net_env \<Rightarrow> 'a server \<Rightarrow> 'a server result" where
  "Lan_Stop env s =
     (let s = s\<lparr>m_isRunning := False\<rparr>;
          s = (if m_listenSock s \<noteq> INVALID_SOCKET
               then (emit (EvClose (m_listenSock s)) s)\<lparr>m_listenSock := INVALID_SOCKET\<rparr> else s);
          s = s\<lparr>trace := trace s @ replicate (m_threads s) EvPostQuit\<rparr>;
          s = (emit (EvJoin (m_threads s)) s)\<lparr>m_threads := 0\<rparr> in
      and_then
        (if m_sessions s \<noteq> [] then
           and_then (for_each (stop_session env) [0..<unat (m_maxSessionCount s)] s) (\<lambda>s.
           Inr (s\<lparr>m_sessions := []\<rparr>))
         else Inr s) (\<lambda>s.
      let s = (if m_hcp s then (emit EvClosePort s)\<lparr>m_hcp := False\<rparr> else s) in
      Inr (emit EvCleanup s)))"

definition CLanServer_destruct :: "'a net_env \<Rightarrow> 'a server \<Rightarrow> 'a server result" where
  "CLanServer_destruct env s = (if m_isRunning s then Lan_Stop env s else Inr s)"

definition Lan_GetSessionCount :: "'a server \<Rightarrow> int" where
  "Lan_GetSessionCount s = sint (m_sessionCount s)"

definition Lan_getAcceptTPS :: "'a server \<Rightarrow> int" where "Lan_getAcceptTPS s = 0"
definition Lan_getRecvMessageTPS :: "'a server \<Rightarrow> int" where "Lan_getRecvMessageTPS s = 0"
definition Lan_getSendMessageTPS :: "'a server \<Rightarrow> int" where "Lan_getSendMessageTPS s = 0"

end
