(* ===== verification/LanReceive.thy ===== *)
theory LanReceive
  imports LanServer
begin

text \<open>
  The operations that the two servers share are equal; the receive path of the LAN server delivers
  exactly the payloads that \<open>lan_parse\<close>, the specification of its stream, finds.
\<close>

section \<open>The shared operations\<close>

lemma Lan_Session_default_eq: "Lan_Session_default = Session_default"
  by (simp add: fun_eq_iff Lan_Session_default_def Session_default_def)

lemma Lan_Session_Init_eq: "Lan_Session_Init = Session_Init"
  by (simp add: fun_eq_iff Lan_Session_Init_def Session_Init_def)

lemma Lan_ReleaseSession_eq: "Lan_ReleaseSession = ReleaseSession"
  unfolding Lan_ReleaseSession_def ReleaseSession_def ..

lemma Lan_ReturnSession_eq: "Lan_ReturnSession = ReturnSession"
  unfolding Lan_ReturnSession_def ReturnSession_def Lan_ReleaseSession_eq ..

lemma Lan_AcquireSession_eq: "Lan_AcquireSession = AcquireSession"
  unfolding Lan_AcquireSession_def AcquireSession_def Lan_ReturnSession_eq ..

lemma Lan_SendPost_send_eq: "Lan_SendPost_send = SendPost_send"
  unfolding Lan_SendPost_send_def SendPost_send_def Lan_ReleaseSession_eq ..

lemma Lan_SendPost_eq: "Lan_SendPost = SendPost"
  unfolding Lan_SendPost_def SendPost_def Lan_SendPost_send_eq ..

lemma Lan_SendProc_eq: "Lan_SendProc = SendProc"
  unfolding Lan_SendProc_def SendProc_def Lan_SendPost_eq Lan_ReleaseSession_eq ..

lemma Lan_Disconnect_eq: "Lan_Disconnect = Disconnect"
  unfolding Lan_Disconnect_def Disconnect_def Lan_AcquireSession_eq Lan_ReturnSession_eq ..

lemma CLanServer_default_eq: "CLanServer_default = server_default"
  unfolding CLanServer_default_def server_default_def ..

lemma Lan_Start_eq: "Lan_Start = Start"
  unfolding Lan_Start_def Start_def Lan_Session_default_eq ..

lemma Lan_Stop_eq: "Lan_Stop = Stop"
  unfolding Lan_Stop_def Stop_def ..

lemma CLanServer_destruct_eq: "CLanServer_destruct = server_destruct"
  unfolding CLanServer_destruct_def server_destruct_def Lan_Stop_eq ..

lemmas lan_net_eqs = Lan_Session_default_eq Lan_Session_Init_eq Lan_ReleaseSession_eq Lan_ReturnSession_eq
  Lan_AcquireSession_eq Lan_SendPost_send_eq Lan_SendPost_eq Lan_SendProc_eq Lan_Disconnect_eq
  CLanServer_default_eq Lan_Start_eq Lan_Stop_eq CLanServer_destruct_eq

section \<open>Sending\<close>

abbreviation lan_header :: "'a server \<Rightarrow> packet \<Rightarrow> packet result" where
  "lan_header s \<equiv> Packet_SetLanHeader"

lemma Lan_SendPacket_framed: "Lan_SendPacket env = send_framed lan_header env"
  unfolding fun_eq_iff Lan_SendPacket_def send_framed_def Lan_AcquireSession_eq Lan_SendPost_eq
    Lan_ReturnSession_eq by simp

lemma SetLanHeader_packet:
  assumes "packet_ok x"
  shows "\<exists>y. Packet_SetLanHeader x = Inr y \<and> packet_ok y \<and> m_refCount y = m_refCount x \<and>
    packet_wire y = lan_frame (packet_payload x) \<and> packet_payload y = packet_payload x"
proof -
  obtain y where y: "Packet_SetLanHeader x = Inr y" "packet_inv y" "m_refCount y = m_refCount x"
    "packet_wire y = lan_frame (packet_payload x)" "packet_payload y = packet_payload x"
    using SetLanHeader_ok[of x] assms by (auto simp: packet_ok_def)
  have "m_iBufferSize y = m_iBufferSize x"
    using y(1) by (auto simp: Packet_SetLanHeader_def Let_def elim!: and_then_InrE)
  with y assms show ?thesis by (auto simp: packet_ok_def)
qed

interpretation lh: framing lan_header
  by unfold_locales (use SetLanHeader_packet in blast)

sublocale net_release \<subseteq> lr: framed_release lan_header env B ar J
  by unfold_locales

section \<open>The stream of frames\<close>

definition lan_length :: "bytes \<Rightarrow> nat" where
  "lan_length bs = unat (lan_len (LanServerHeader_of (take 2 bs)))"

function lan_parse :: "bytes \<Rightarrow> bytes list \<times> bytes \<times> recv_end" where
  "lan_parse bs =
     (if length bs < 2 \<or> length bs < 2 + lan_length bs then ([], bs, More)
      else if 1400 < lan_length bs then ([], bs, TooLong)
      else let (pls, rest, e) = lan_parse (drop (2 + lan_length bs) bs) in
        (take (lan_length bs) (drop 2 bs) # pls, rest, e))"
  by pat_completeness auto
termination by (relation "measure length") auto

declare lan_parse.simps [simp del]

lemma lan_length_frame:
  assumes "length pl < 65536"
  shows "lan_length (lan_frame pl @ bs) = length pl"
proof -
  have "take 2 (lan_frame pl @ bs) = le_encode 2 (of_nat (length pl) :: u16)" by (simp add: lan_frame_def)
  moreover have "le_decode (le_encode 2 (of_nat (length pl) :: u16)) = (of_nat (length pl) :: u16)" by simp
  ultimately show ?thesis
    using assms by (simp add: lan_length_def LanServerHeader_of_def unat_len16)
qed

lemma lan_parse_frame:
  assumes "length pl \<le> 1400"
  shows "lan_parse (lan_frame pl @ bs) = (case lan_parse bs of (pls, rest, e) \<Rightarrow> (pl # pls, rest, e))"
proof -
  have l: "lan_length (lan_frame pl @ bs) = length pl" using assms by (intro lan_length_frame) simp
  have "drop 2 (lan_frame pl @ bs) = pl @ bs" by (simp add: lan_frame_def)
  moreover have "drop (2 + length pl) (lan_frame pl @ bs) = bs" by simp
  ultimately show ?thesis using assms
    by (subst lan_parse.simps) (simp add: l del: drop_append drop_append)
qed

lemma lan_parse_frames:
  assumes "\<forall>pl\<in>set pls. length pl \<le> 1400"
  shows "lan_parse (concat (map lan_frame pls) @ bs) = (case lan_parse bs of (pls', rest, e) \<Rightarrow> (pls @ pls', rest, e))"
  using assms by (induction pls) (auto simp: lan_parse_frame split: prod.splits)


lemma lan_length_word: "lan_length bs = unat (le_decode (take 2 bs) :: u16)"
  by (simp add: lan_length_def LanServerHeader_of_def)

section \<open>Receiving is safe and exact\<close>

text \<open>Posting the next receive does what the net server does: one window or two, since the direct size
  is at most the free size.\<close>

lemma Lan_RecvRepost_eq:
  assumes i: "i < length (m_sessions s)" and q: "ring_inv (recvQ (m_sessions s ! i))"
  shows "Lan_RecvRepost env i s = RecvPost env i s"
proof -
  have "RingBuffer_DirectEnqueueSize (recvQ (m_sessions s ! i)) \<le> RingBuffer_GetFreeSize (recvQ (m_sessions s ! i))"
    using q by (auto simp: DirectEnqueueSize_eq ring_inv_def RingBuffer_GetFreeSize_def RingBuffer_GetUseSize_def Let_def
        split: if_splits)
  then show ?thesis using i
    by (auto simp: Lan_RecvRepost_def RecvPost_def recv_windows_def Let_def ReturnSession_def lan_net_eqs
        syscall_def not_less)
qed

text \<open>The steps of one pass of the loop, up to the filled packet.\<close>

definition lan_take :: "'a net_env \<Rightarrow> nat \<Rightarrow> int \<Rightarrow> 'a server \<Rightarrow> ('a server \<times> u64) result" where
  "lan_take env i len s =
     and_then (upd_session i (\<lambda>x. x\<lparr>recvQ := fst (RingBuffer_MoveFront (recvQ x) sizeof_LanServerHeader)\<rparr>) s) (\<lambda>s.
     and_then (AllocPacket env s) (\<lambda>(s, p).
     and_then (Lan_Dequeue_into i p len s) (\<lambda>s.
     and_then (on_pool (on_packet p (\<lambda>pkt. Inr (fst (Packet_MoveWritePos pkt len)))) s) (\<lambda>s.
     Inr (s, p)))))"

lemma Lan_Dequeue_into_ok:
  assumes s: "srv ar J c r b s" and i: "i < length (m_sessions s)" and x: "live (packets s) p = Some x"
    and n: "n \<le> length (ring_contents (recvQ (m_sessions s ! i)))" "n \<le> 1400" and w: "m_iWritePos x = 5"
  shows "\<exists>q pool y. Lan_Dequeue_into i p (int n) s = Inr (s\<lparr>m_sessions := (m_sessions s)[i := (m_sessions s ! i)\<lparr>recvQ := q\<rparr>],
      packets := pool\<rparr>) \<and> ring_contents q = drop n (ring_contents (recvQ (m_sessions s ! i))) \<and>
    srv ar J c r b (s\<lparr>m_sessions := (m_sessions s)[i := (m_sessions s ! i)\<lparr>recvQ := q\<rparr>], packets := pool\<rparr>) \<and>
    live pool = (live (packets s))(p \<mapsto> y) \<and> packet_ok y \<and>
    y = x\<lparr>m_chpBuffer := splice (m_chpBuffer x) 5 (take n (ring_contents (recvQ (m_sessions s ! i))))\<rparr>"
proof -
  let ?x = "m_sessions s ! i"
  let ?cs = "ring_contents (recvQ ?x)"
  have S: "net_inv ar c s" using s by (auto simp: srv_def)
  have ok: "ring_inv (recvQ ?x)" "m_capacity (recvQ ?x) = 2002"
    using net_invD(3)[OF S i] by (auto simp: sess_ok_def)
  note G = get_packet[OF net_invD(2)[OF S] x]
  have len: "length (m_chpBuffer x) = 1405" using G(2) by (auto simp: packet_ok_def packet_inv_def)
  let ?buf = "splice (m_chpBuffer x) 5 (take n ?cs)"
  have q: "\<exists>q. RingBuffer_Dequeue (recvQ ?x) (Some (m_chpBuffer x, int 5)) (int n) = Inr (q, Some (?buf, int 5), int n) \<and>
    ring_inv q \<and> ring_contents q = drop n ?cs \<and> m_capacity q = 2002"
  proof (cases "n = 0")
    case True
    then show ?thesis using ok by (simp add: RingBuffer_Dequeue_none)
  next
    case False
    then show ?thesis using Dequeue_drops[OF ok(1) _ n(1), of 5 "m_chpBuffer x"] len n(2) ok(2) by auto
  qed
  then obtain q where q: "RingBuffer_Dequeue (recvQ ?x) (Some (m_chpBuffer x, int 5)) (int n) = Inr (q, Some (?buf, int 5), int n)"
    "ring_inv q" "ring_contents q = drop n ?cs" "m_capacity q = 2002" by blast
  let ?y = "x\<lparr>m_chpBuffer := ?buf\<rparr>"
  let ?s1 = "s\<lparr>m_sessions := (m_sessions s)[i := ?x\<lparr>recvQ := q\<rparr>]\<rparr>"
  have "length ?buf = 1405" using len n by simp
  then have y: "packet_ok ?y" using G(2) len by (auto simp: packet_ok_def packet_inv_def)
  have s1: "srv ar J c r b ?s1" by (rule set_recvQ_srv[OF s i q(2,4)])
  have x1: "live (packets ?s1) p = Some x" using x by simp
  obtain pool where pool: "obj_put (packets ?s1) p ?y = Inr pool" "srv ar J c r b (?s1\<lparr>packets := pool\<rparr>)"
    "live pool = (live (packets ?s1))(p \<mapsto> ?y)"
    using put_packet_srv[OF s1 x1 y] by auto
  have "Packet_GetWritePtr x = int 5" using w by (simp add: Packet_GetWritePtr_def)
  then have "Lan_Dequeue_into i p (int n) s = Inr (?s1\<lparr>packets := pool\<rparr>)"
    using i G(1) q(1) pool(1) by (simp add: Lan_Dequeue_into_def on_pool_def)
  then show ?thesis using pool(2,3) q(3) y by (intro exI[of _ q] exI[of _ pool] exI[of _ ?y]) simp
qed

lemma lan_take_safe:
  assumes s: "srv ar J c r b s" and e: "pkt_env (ne_pool env)" and i: "i < length (m_sessions s)"
    and bs: "bs = ring_contents (recvQ (m_sessions s ! i))" "2 + n \<le> length bs" "n \<le> 1400"
  shows "safe (\<lambda>(s', p). \<exists>q pool y.
      s' = s\<lparr>m_sessions := (m_sessions s)[i := (m_sessions s ! i)\<lparr>recvQ := q\<rparr>], packets := pool\<rparr> \<and>
      ring_contents q = drop (2 + n) bs \<and> c p = 0 \<and> srv ar J (c(p := 1)) r b s' \<and>
      live pool p = Some y \<and> refs pool p = 1 \<and> packet_data y = take n (drop 2 bs))
    (lan_take env i (int n) s)"
proof -
  let ?x = "m_sessions s ! i"
  have S: "net_inv ar c s" using s by (auto simp: srv_def)
  have ok: "ring_inv (recvQ ?x)" "m_capacity (recvQ ?x) = 2002"
    using net_invD(3)[OF S i] by (auto simp: sess_ok_def)
  define q0 where "q0 = fst (RingBuffer_MoveFront (recvQ ?x) sizeof_LanServerHeader)"
  have q0: "ring_inv q0" "ring_contents q0 = drop 2 bs" "m_capacity q0 = 2002"
    using MoveFront_drop[OF ok(1), of 2] ok(2) bs(1) by (simp_all add: q0_def sizeof_LanServerHeader_def)
  let ?s0 = "s\<lparr>m_sessions := (m_sessions s)[i := ?x\<lparr>recvQ := q0\<rparr>]\<rparr>"
  have s0: "srv ar J c r b ?s0" by (rule set_recvQ_srv[OF s i q0(1,3)])
  have up: "upd_session i (\<lambda>x. x\<lparr>recvQ := fst (RingBuffer_MoveFront (recvQ x) sizeof_LanServerHeader)\<rparr>) s = Inr ?s0"
    using i by (simp add: q0_def)
  show ?thesis unfolding lan_take_def up and_then_Inr
  proof (rule safe_and_then[OF AllocPacket_srv[OF s0 e]])
    fix v assume "(\<lambda>(s', p). \<exists>pool x. s' = ?s0\<lparr>packets := pool\<rparr> \<and> live (packets ?s0) p = None \<and>
      live pool = (live (packets ?s0))(p \<mapsto> x) \<and> fresh_packet x \<and> c p = 0 \<and> srv ar J (c(p := 1)) r b s') v"
    then obtain pool p x where v: "v = (?s0\<lparr>packets := pool\<rparr>, p)" "live pool p = Some x" "fresh_packet x" "c p = 0"
      "srv ar J (c(p := 1)) r b (?s0\<lparr>packets := pool\<rparr>)" by auto
    let ?s1 = "?s0\<lparr>packets := pool\<rparr>"
    have i1: "i < length (m_sessions ?s1)" using i by simp
    have q1: "ring_contents (recvQ (m_sessions ?s1 ! i)) = drop 2 bs" using i q0(2) by simp
    have l1: "live (packets ?s1) p = Some x" using v(2) by simp
    have n1: "n \<le> length (ring_contents (recvQ (m_sessions ?s1 ! i)))" using bs(2) unfolding q1 by simp
    have wp: "m_iWritePos x = 5" using v(3) by (simp add: fresh_packet_def)
    obtain q pool2 y where 2: "Lan_Dequeue_into i p (int n) ?s1 =
        Inr (s\<lparr>m_sessions := (m_sessions s)[i := ?x\<lparr>recvQ := q\<rparr>], packets := pool2\<rparr>)"
      "ring_contents q = drop n (drop 2 bs)"
      "srv ar J (c(p := 1)) r b (s\<lparr>m_sessions := (m_sessions s)[i := ?x\<lparr>recvQ := q\<rparr>], packets := pool2\<rparr>)"
      "live pool2 p = Some y" "packet_ok y" "y = x\<lparr>m_chpBuffer := splice (m_chpBuffer x) 5 (take n (drop 2 bs))\<rparr>"
      using Lan_Dequeue_into_ok[OF v(5) i1 l1 n1 bs(3) wp] unfolding q1 using i by auto
    let ?s2 = "s\<lparr>m_sessions := (m_sessions s)[i := ?x\<lparr>recvQ := q\<rparr>], packets := pool2\<rparr>"
    have l2: "live (packets ?s2) p = Some y" using 2(4) by simp
    have bsz: "m_iBufferSize y = 1405" "m_iWritePos y = 5" "m_iReadPos y = 5" "m_refCount y = 1"
      using 2(5,6) v(3) by (auto simp: packet_ok_def fresh_packet_def)
    let ?z = "y\<lparr>m_iWritePos := 5 + int n\<rparr>"
    have mv: "fst (Packet_MoveWritePos y (int n)) = ?z"
    proof -
      have "y\<lparr>m_iWritePos := 5\<rparr> = y" using bsz(2) by (cases y) simp
      then show ?thesis using bsz bs(3) by (cases "n = 0") (simp_all add: Packet_MoveWritePos_def Let_def)
    qed
    have z: "packet_ok ?z" using 2(5) bsz bs(3) by (auto simp: packet_ok_def packet_inv_def)
    obtain pool3 where 3: "obj_put (packets ?s2) p ?z = Inr pool3" "srv ar J (c(p := 1)) r b (?s2\<lparr>packets := pool3\<rparr>)"
      "live pool3 = (live (packets ?s2))(p \<mapsto> ?z)"
      using put_packet_srv[OF 2(3) l2 z] by auto
    have g2: "obj_get (packets ?s2) p = Inr y"
      using get_packet(1)[OF net_invD(2) l2] 2(3) by (auto simp: srv_def)
    have l3: "live pool3 p = Some ?z" using 3(3) by simp
    then have r3: "refs pool3 p = 1" using bsz by (simp add: refs_def)
    have lx: "length (m_chpBuffer x) = 1405" using v(3) by (auto simp: fresh_packet_def packet_ok_def packet_inv_def)
    have ln: "length (take n (drop 2 bs)) = n" using bs(2) by simp
    have "packet_data ?z = take n (drop 5 (splice (m_chpBuffer x) 5 (take n (drop 2 bs))))"
      using bsz 2(6) by (simp add: packet_data_def)
    also have "\<dots> = take n (drop 2 bs)" using lx ln bs(3) by (simp add: splice_def)
    finally have pd: "packet_data ?z = take n (drop 2 bs)" .
    have "and_then (Lan_Dequeue_into i p (int n) ?s1) (\<lambda>s.
       and_then (on_pool (on_packet p (\<lambda>pkt. Inr (fst (Packet_MoveWritePos pkt (int n))))) s) (\<lambda>s. Inr (s, p))) =
      Inr (?s2\<lparr>packets := pool3\<rparr>, p)"
      using 2(1) 3(1) g2 mv by (simp add: on_pool_def on_packet_def)
    then show "safe (\<lambda>(s', p). \<exists>q pool y.
        s' = s\<lparr>m_sessions := (m_sessions s)[i := ?x\<lparr>recvQ := q\<rparr>], packets := pool\<rparr> \<and>
        ring_contents q = drop (2 + n) bs \<and> c p = 0 \<and> srv ar J (c(p := 1)) r b s' \<and>
        live pool p = Some y \<and> refs pool p = 1 \<and> packet_data y = take n (drop 2 bs))
      (case v of (s, p) \<Rightarrow> and_then (Lan_Dequeue_into i p (int n) s) (\<lambda>s.
       and_then (on_pool (on_packet p (\<lambda>pkt. Inr (fst (Packet_MoveWritePos pkt (int n))))) s) (\<lambda>s. Inr (s, p))))"
      unfolding v(1) prod.case
      using 2(2) 3(2) v(4) pd l3 r3 by (auto simp: add.commute)
  qed
qed


lemma lan_take_then:
  "and_then (lan_take env i len s) f =
     and_then (upd_session i (\<lambda>x. x\<lparr>recvQ := fst (RingBuffer_MoveFront (recvQ x) sizeof_LanServerHeader)\<rparr>) s) (\<lambda>s.
     and_then (AllocPacket env s) (\<lambda>(s, p).
     and_then (Lan_Dequeue_into i p len s) (\<lambda>s.
     and_then (on_pool (on_packet p (\<lambda>pkt. Inr (fst (Packet_MoveWritePos pkt len)))) s) (\<lambda>s.
     f (s, p)))))"
  unfolding lan_take_def by (simp add: and_then_def split: sum.split prod.split)

text \<open>One pass of the loop, in terms of the bytes in the receive queue.\<close>

lemma Lan_RecvProc_pass:
  assumes i: "i < length (m_sessions s)" and ok: "ring_inv (recvQ (m_sessions s ! i))"
  defines "bs \<equiv> ring_contents (recvQ (m_sessions s ! i))"
  shows "Lan_RecvProc_loop env (Suc fuel) i s =
    (if length bs < 2 \<or> length bs < 2 + lan_length bs then RecvPost env i s
     else and_then (lan_take env i (int (lan_length bs)) s) (\<lambda>(s, p).
       and_then (get_session i s) (\<lambda>x.
       and_then (OnRecv env (sessionID x) p s) (\<lambda>s.
       and_then (FreePacket env p s) (\<lambda>s. Lan_RecvProc_loop env fuel i s)))))"
proof -
  let ?q = "recvQ (m_sessions s ! i)"
  have use: "RingBuffer_GetUseSize ?q = int (length bs)" unfolding bs_def by (rule use_size_contents[OF ok])
  note post = Lan_RecvRepost_eq[OF i ok, of env]
  show ?thesis
  proof (cases "length bs < 2")
    case True
    then show ?thesis using i use post by (simp add: sizeof_LanServerHeader_def)
  next
    case False
    have "int 2 \<le> RingBuffer_GetUseSize ?q" unfolding use using False by simp
    moreover have "splice (replicate 2 0) 0 (take 2 bs) = take 2 bs" using False by (simp add: splice_def)
    ultimately have pk: "RingBuffer_Peek ?q (Some (replicate 2 0, 0)) sizeof_LanServerHeader = Inr (Some (take 2 bs, int 0), int 2)"
      using RingBuffer_Peek_eq[OF ok, of 2 0 "replicate 2 0"] unfolding bs_def[symmetric] by (simp add: sizeof_LanServerHeader_def)
    have hl: "unat (lan_len (LanServerHeader_of (take 2 bs))) = lan_length bs" by (simp add: lan_length_def)
    have sz: "int (length bs) < sizeof_LanServerHeader \<longleftrightarrow> length bs < 2"
      "int (length bs) < sizeof_LanServerHeader + int (lan_length bs) \<longleftrightarrow> length bs < 2 + lan_length bs"
      by (auto simp: sizeof_LanServerHeader_def)
    show ?thesis
      unfolding Lan_RecvProc_loop.simps get_session_eq[OF i] and_then_Inr Let_def use pk prod.case option.case
        hl lan_take_then sz post
      using False by (simp only: if_False simp_thms)
  qed
qed

context net_app begin

lemma Lan_RecvProc_loop_safe:
  assumes "srv ar (J L) c r b s" and "i < length (m_sessions s)" and "0 < r i" and "\<forall>j. r j < 50"
    and "sessionID (m_sessions s ! i) = sid" and "bs = ring_contents (recvQ (m_sessions s ! i))"
    and "lan_parse bs = (pls, rest, e)" and "e \<noteq> TooLong" and "length bs < fuel"
  shows "safe (recv_post ar (J (L @ map (Pair sid) pls)) c r b i rest More) (Lan_RecvProc_loop env fuel i s)"
  using assms
proof (induction fuel arbitrary: L s bs pls)
  case (Suc fuel)
  let ?x = "m_sessions s ! i"
  note s = Suc.prems(1) and i = Suc.prems(2)
  have ok: "ring_inv (recvQ ?x)" using net_invD(3)[of ar c s i] s i by (auto simp: srv_def sess_ok_def)
  note pass = Lan_RecvProc_pass[OF i ok, of env fuel, folded Suc.prems(6)]
  note parse = Suc.prems(7)[unfolded lan_parse.simps[of bs]]
  show ?case
  proof (cases "length bs < 2 \<or> length bs < 2 + lan_length bs")
    case True
    then have p: "pls = []" "rest = bs" using parse by auto
    have "safe (\<lambda>s'. kept ar (J L) c r b s s' \<or> kept ar (J L) c (r(i := r i - 1)) b s s') (RecvPost env i s)"
      by (rule nr.RecvPost_safe[OF s i Suc.prems(3)])
    then have "safe (recv_post ar (J L) c r b i rest More) (RecvPost env i s)"
      by (rule safe_mono) (use p i Suc.prems(6) in \<open>auto intro: recv_post_kept\<close>)
    then show ?thesis using True p pass by simp
  next
    case len: False
    have fit: "lan_length bs \<le> 1400" using parse len Suc.prems(8) by (auto split: if_splits)
    have pe: "pkt_env (ne_pool env)" by (rule nr.pool_law)
    have le: "2 + lan_length bs \<le> length bs" using len by simp
    obtain pls' where p: "pls = take (lan_length bs) (drop 2 bs) # pls'" "lan_parse (drop (2 + lan_length bs) bs) = (pls', rest, e)"
      using parse len fit by (auto split: prod.splits)
    let ?pl = "take (lan_length bs) (drop 2 bs)"
    note tf = lan_take_safe[OF s pe i Suc.prems(6) le fit]
    show ?thesis unfolding pass using len
    proof (simp only: simp_thms if_False, intro safe_and_then[OF tf])
      fix v assume "(\<lambda>(s', p). \<exists>q pool y.
        s' = s\<lparr>m_sessions := (m_sessions s)[i := ?x\<lparr>recvQ := q\<rparr>], packets := pool\<rparr> \<and>
        ring_contents q = drop (2 + lan_length bs) bs \<and> c p = 0 \<and> srv ar (J L) (c(p := 1)) r b s' \<and>
        live pool p = Some y \<and> refs pool p = 1 \<and> packet_data y = ?pl) v"
      then obtain s1 p q pool y where v: "v = (s1, p)"
        "s1 = s\<lparr>m_sessions := (m_sessions s)[i := ?x\<lparr>recvQ := q\<rparr>], packets := pool\<rparr>"
        "ring_contents q = drop (2 + lan_length bs) bs" "c p = 0" "srv ar (J L) (c(p := 1)) r b s1"
        "live pool p = Some y" "refs pool p = 1" "packet_data y = ?pl" by blast
      have i1: "i < length (m_sessions s1)" using v(2) i by simp
      have q1: "recvQ (m_sessions s1 ! i) = q" "sessionID (m_sessions s1 ! i) = sid"
        using v(2) i Suc.prems(5) by simp_all
      have cp: "(c(p := 1))(p := (c(p := 1)) p - 1) = c" using v(4) by auto
      have l1: "live (packets s1) p = Some y" "refs (packets s1) p = 1" using v(2,6,7) by simp_all
      have "safe (kept ar (J (L @ [(sid, ?pl)])) (c(p := 1)) r b s1) (OnRecv env sid p s1)"
        unfolding v(8)[symmetric]
        by (rule OnRecv_law[OF v(5) l1(1) _ _ Suc.prems(4)]) (simp_all add: l1(2))
      then have "safe (recv_post ar (J (L @ map (Pair sid) pls)) c r b i rest More)
        (and_then (OnRecv env sid p s1) (\<lambda>s. and_then (FreePacket env p s) (\<lambda>s. Lan_RecvProc_loop env fuel i s)))"
      proof (rule safe_and_then)
        fix s2 assume k: "kept ar (J (L @ [(sid, ?pl)])) (c(p := 1)) r b s1 s2"
        then obtain pool2 where f: "FreePacket env p s2 = Inr (s2\<lparr>packets := pool2\<rparr>)"
          "srv ar (J (L @ [(sid, ?pl)])) ((c(p := 1))(p := (c(p := 1)) p - 1)) r b (s2\<lparr>packets := pool2\<rparr>)"
          using FreePacket_srv[of ar "J (L @ [(sid, ?pl)])" "c(p := 1)" r b s2 p env] by (auto simp: kept_def)
        let ?s3 = "s2\<lparr>packets := pool2\<rparr>"
        have sr: "same_rx s1 s2" using k by (simp add: kept_def)
        have i3: "i < length (m_sessions ?s3)" using i1 same_rx_length[OF sr] by simp
        have q3: "recvQ (m_sessions ?s3 ! i) = q" "sessionID (m_sessions ?s3 ! i) = sid"
          using rx_recvQ[OF same_rx_nth[OF sr i1]] rx_id[OF same_rx_nth[OF sr i1]] q1 by simp_all
        have lq: "length (ring_contents q) < fuel" using Suc.prems(9) v(3) le by simp
        have pq: "lan_parse (ring_contents q) = (pls', rest, e)" using p(2) v(3) by simp
        from Suc.IH[OF f(2)[unfolded cp] i3 Suc.prems(3,4) q3(2) _ pq Suc.prems(8) lq]
        have "safe (recv_post ar (J ((L @ [(sid, ?pl)]) @ map (Pair sid) pls')) c r b i rest More)
          (Lan_RecvProc_loop env fuel i ?s3)" using q3(1) by simp
        then show "safe (recv_post ar (J (L @ map (Pair sid) pls)) c r b i rest More)
          (and_then (FreePacket env p s2) (\<lambda>s. Lan_RecvProc_loop env fuel i s))" using f(1) p(1) by simp
      qed
      then show "safe (recv_post ar (J (L @ map (Pair sid) pls)) c r b i rest More)
        (case v of (s, p) \<Rightarrow> and_then (get_session i s) (\<lambda>x.
           and_then (OnRecv env (sessionID x) p s) (\<lambda>s.
           and_then (FreePacket env p s) (\<lambda>s. Lan_RecvProc_loop env fuel i s))))"
        using v(1) i1 q1(2) by simp
    qed
  qed
qed simp

lemma Lan_RecvProc_safe:
  assumes s: "srv ar (J L) c r b s" and i: "i < length (m_sessions s)" and r: "0 < r i" "\<forall>j. r j < 50"
    and n: "int (length bs) \<le> RingBuffer_GetFreeSize (recvQ (m_sessions s ! i))"
    and p: "lan_parse (ring_contents (recvQ (m_sessions s ! i)) @ bs) = (pls, rest, e)" "e \<noteq> TooLong"
  shows "safe (recv_post ar (J (L @ map (Pair (sessionID (m_sessions s ! i))) pls)) c r b i rest More)
    (Lan_RecvProc env i (of_nat (length bs)) (arrived i bs s))"
proof -
  obtain q where q: "srv ar (J L) c r b (s\<lparr>m_sessions := (m_sessions s)[i := (m_sessions s ! i)\<lparr>recvQ := q\<rparr>]\<rparr>)"
    "ring_contents q = ring_contents (recvQ (m_sessions s ! i)) @ bs"
    "ring_inv q"
    "upd_session i (\<lambda>x. x\<lparr>recvQ := fst (RingBuffer_MoveRear (recvQ x) (sint (of_nat (length bs) :: u32)))\<rparr>) (arrived i bs s) =
       Inr (s\<lparr>m_sessions := (m_sessions s)[i := (m_sessions s ! i)\<lparr>recvQ := q\<rparr>]\<rparr>)"
    using arrived_moved[OF s i n] by blast
  let ?s1 = "s\<lparr>m_sessions := (m_sessions s)[i := (m_sessions s ! i)\<lparr>recvQ := q\<rparr>]\<rparr>"
  have i1: "i < length (m_sessions ?s1)" using i by simp
  have x1: "m_sessions ?s1 ! i = (m_sessions s ! i)\<lparr>recvQ := q\<rparr>" using i by simp
  have use: "nat (RingBuffer_GetUseSize q) = length (ring_contents q)" using use_size_contents[OF q(3)] by linarith
  have "Lan_RecvProc env i (of_nat (length bs)) (arrived i bs s) = Lan_RecvProc_loop env (length (ring_contents q) + 1) i ?s1"
    unfolding Lan_RecvProc_def q(4) using i1 x1 use by (simp del: Lan_RecvProc_loop.simps)
  moreover have "safe (recv_post ar (J (L @ map (Pair (sessionID (m_sessions s ! i))) pls)) c r b i rest More)
      (Lan_RecvProc_loop env (length (ring_contents q) + 1) i ?s1)"
    by (rule Lan_RecvProc_loop_safe[OF q(1) i1 r _ _ _ p(2), where bs = "ring_contents q"])
      (use x1 q(2) p(1) in simp_all)
  ultimately show ?thesis by simp
qed

end

end
