(* ===== verification/LanService.thy ===== *)
theory LanService
  imports LanReceive
begin

text \<open>
  Accepting clients and dispatching completions on the LAN server, with its own way of posting the
  first receive.
\<close>

section \<open>Accepting\<close>

lemma Lan_Accept_live_eq: "Lan_Accept_live env = go_live (Lan_first_recv env) env"
  unfolding fun_eq_iff Lan_Accept_live_def go_live_def Lan_Session_Init_eq Lan_ReturnSession_eq by simp

lemma Lan_Accept_client_eq: "Lan_Accept_client env = accept_with (go_live (Lan_first_recv env) env) env"
  unfolding fun_eq_iff Lan_Accept_client_def accept_with_def Lan_Accept_live_eq by simp

text \<open>The receive buffer of a fresh session is one window; \<open>Lan_first_recv\<close> passes that window only.\<close>

lemma Lan_first_recv_exact:
  assumes "i < length (m_sessions s)" and "recv_windows (recvQ (m_sessions s ! i)) = [w]"
  shows "Lan_first_recv env i sk s = (let err = ne_wsa env (trace s) (EvRecv sk [w]) in
    if err = 0 \<or> err = WSA_IO_PENDING then Inr (emit (EvRecv sk [w]) s)
    else if err \<noteq> WSAECONNRESET then Inl DebugBreak
    else and_then (add_io (- 1) i (emit (EvRecv sk [w]) s)) (\<lambda>(s, _). Inr s))"
proof -
  have "w = (RingBuffer_GetRearBufferPtr (recvQ (m_sessions s ! i)), RingBuffer_DirectEnqueueSize (recvQ (m_sessions s ! i)))"
    using assms(2) by (simp add: recv_windows_def Let_def split: if_splits)
  then show ?thesis using assms(1) by (simp add: Lan_first_recv_def syscall_def emit_def Let_def del: add_io_eq)
qed

context net_release begin

text \<open>A reference dropped without the test for zero, which is sound while another one is known.\<close>

lemma drop_one_safe:
  assumes "srv ar J c r b s" and "i < length (m_sessions s)" and "1 < r i"
  shows "safe_if B (kept ar J c (r(i := r i - 1)) b s) (and_then (add_io (- 1) i s) (\<lambda>(s, _). Inr s))"
  using ReturnSession_safe[OF assms(1,2)] assms(3) unfolding Return_other[OF assms] by simp

lemma Lan_first_recv_safe:
  assumes s: "srv ar J c r b s" and i: "i < length (m_sessions s)" and r: "1 < r i"
  shows "safe_if B (\<lambda>s'. kept ar J c r b s s' \<or> kept ar J c (r(i := r i - 1)) b s s') (Lan_first_recv env i sk s)"
proof -
  let ?x = "m_sessions s ! i"
  let ?e = "EvRecv sk [(RingBuffer_GetRearBufferPtr (recvQ ?x), RingBuffer_DirectEnqueueSize (recvQ ?x))]"
  let ?s1 = "emit ?e s"
  have "safe_if B (kept ar J c (r(i := r i - 1)) b ?s1) (and_then (add_io (- 1) i ?s1) (\<lambda>(s, _). Inr s))"
    by (rule drop_one_safe) (use s i r in \<open>simp_all add: srv_def\<close>)
  then have "safe_if B (kept ar J c (r(i := r i - 1)) b s) (and_then (add_io (- 1) i ?s1) (\<lambda>(s, _). Inr s))"
    by (rule safe_kept_trans[rotated]) simp
  then have "safe_if B (\<lambda>s'. kept ar J c r b s s' \<or> kept ar J c (r(i := r i - 1)) b s s')
      (and_then (add_io (- 1) i ?s1) (\<lambda>(s, _). Inr s))"
    by (rule safe_mono) simp
  moreover have "kept ar J c r b s ?s1" using s by (simp add: kept_def srv_def)
  ultimately show ?thesis using i wsa_law[of "trace s" ?e]
    by (auto simp: Lan_first_recv_def syscall_def emit_def Let_def simp del: add_io_eq)
qed

end

sublocale net_app \<subseteq> la: accepting env ar J "Lan_first_recv env"
  by unfold_locales (rule nr.Lan_first_recv_safe, simp, simp, simp, rule Lan_first_recv_exact)

context net_app begin

lemma Lan_Accept_client_safe:
  assumes "srv ar (J L) c r b s" and "\<forall>j. r j < 48"
  shows "safe (\<lambda>s'. srv ar (J L) c r b s' \<or>
      (\<exists>index rest. m_indexStack s = index # rest \<and> srv ar (J L) c (r(unat index := 1)) b s'))
    (Lan_Accept_client env (sk, addr, pt) s)"
  unfolding Lan_Accept_client_eq by (rule la.accept_safe[OF assms])

lemmas Lan_Accept_client_exact = la.accept_exact[folded Lan_Accept_client_eq]

end

section \<open>The worker\<close>

text \<open>Everything but a completed receive is dispatched as by the net server.\<close>

lemma Lan_Worker_step_eq:
  assumes "\<And>i. c_overlapped k = Some (i, RECV) \<Longrightarrow> \<not> c_retval k \<or> c_transferred k = 0"
  shows "Lan_Worker_step env k s = Worker_step env k s"
proof -
  have "and_then (add_io (- 1) i s) (\<lambda>(s, n). and_then (if n = 0 then ReleaseSession env i s else Inr s) (\<lambda>s. Inr (s, True))) =
      and_then (ReturnSession env i s) (\<lambda>s. Inr (s, True))" for i
    by (cases "add_io (- 1) i s") (simp_all add: ReturnSession_def split: prod.split)
  then show ?thesis using assms
    unfolding Lan_Worker_step_def Worker_step_def Lan_ReleaseSession_eq Lan_SendProc_eq
    by (auto split: option.split IOType.split)
qed

context net_app begin

lemma Lan_Worker_received:
  assumes s: "srv ar (J L) c r b s" and i: "i < length (m_sessions s)" and r: "0 < r i" "\<forall>j. r j < 50"
    and n: "0 < length bs" "int (length bs) \<le> RingBuffer_GetFreeSize (recvQ (m_sessions s ! i))"
    and p: "lan_parse (ring_contents (recvQ (m_sessions s ! i)) @ bs) = (pls, rest, e)" "e \<noteq> TooLong"
    and k: "c_overlapped k = Some (i, RECV)" "c_retval k" "c_transferred k = of_nat (length bs)"
  shows "safe (\<lambda>(s', more). recv_post ar (J (L @ map (Pair (sessionID (m_sessions s ! i))) pls)) c r b i rest More s' \<and> more)
    (Lan_Worker_step env k (arrived i bs s))"
proof -
  have "sess_ok (m_sessions s ! i)" using net_invD(3)[of ar c s i] s i by (auto simp: srv_def)
  then have "length bs < 2 ^ 32" using free_small n(2) by fastforce
  then have "(of_nat (length bs) :: u32) \<noteq> of_nat 0" using n(1) by (subst of_nat_u32_inj) auto
  then have "c_transferred k \<noteq> 0" using k(3) by simp
  moreover have "safe (\<lambda>(s', more). recv_post ar (J (L @ map (Pair (sessionID (m_sessions s ! i))) pls)) c r b i rest More s' \<and> more)
    (and_then (Lan_RecvProc env i (of_nat (length bs)) (arrived i bs s)) (\<lambda>s. Inr (s, True)))"
    by (rule safe_and_then[OF Lan_RecvProc_safe[OF s i r n(2) p]]) simp
  ultimately show ?thesis using k by (simp add: Lan_Worker_step_def)
qed

end

end
