(* ===== verification/EchoServer.thy ===== *)
theory EchoServer
  imports LanService NetSample
begin

text \<open>
  \<open>NetworkLibrary/CLanServer/EchoServer\<close>: the class derived from the LAN server. It reads a number of
  64 bits from each message and sends it back. It has no state; \<open>printf\<close> is left out. The number is a
  local variable without an initial value: what it holds is the parameter \<open>junk\<close>.
\<close>

section \<open>The callbacks\<close>

definition Echo_OnConnectionRequest :: "string \<Rightarrow> u16 \<Rightarrow> unit server \<Rightarrow> (unit server \<times> bool) result" where
  "Echo_OnConnectionRequest addr pt s = Inr (s, True)"

definition Echo_OnAccept :: "u64 \<Rightarrow> unit server \<Rightarrow> unit server result" where
  "Echo_OnAccept sid s = Inr s"

definition Echo_OnRelease :: "u64 \<Rightarrow> unit server \<Rightarrow> unit server result" where
  "Echo_OnRelease sid s = Inr s"

definition Echo_OnRecv :: "unit net_env \<Rightarrow> u64 \<Rightarrow> u64 \<Rightarrow> u64 \<Rightarrow> unit server \<Rightarrow> unit server result" where
  "Echo_OnRecv env junk sid p s =
     and_then (read_packet p (\<lambda>k. Packet_get64 k junk) s) (\<lambda>(s, data).
     and_then (AllocPacket env s) (\<lambda>(s, sendPacket).
     and_then (on_pool (on_packet sendPacket (\<lambda>k. Packet_put64 k data)) s) (\<lambda>s.
     and_then (Lan_SendPacket env sid sendPacket s) (\<lambda>(s, _).
     FreePacket env sendPacket s))))"

text \<open>The virtual functions of the server; sending calls back only to \<open>OnRelease\<close>.\<close>

definition echo_base :: "unit net_env \<Rightarrow> unit net_env" where
  "echo_base env = env\<lparr>OnConnectionRequest := Echo_OnConnectionRequest, OnAccept := Echo_OnAccept,
     OnRelease := Echo_OnRelease\<rparr>"

definition echo_net :: "unit net_env \<Rightarrow> u64 \<Rightarrow> unit net_env" where
  "echo_net env junk = (echo_base env)\<lparr>OnRecv := Echo_OnRecv (echo_base env) junk\<rparr>"

lemma echo_net_simps [simp]: "ne_pool (echo_net env junk) = ne_pool env" "ne_wsa (echo_net env junk) = ne_wsa env"
  "ne_tid (echo_net env junk) = ne_tid env" "OnRelease (echo_net env junk) = Echo_OnRelease"
  "OnAccept (echo_net env junk) = Echo_OnAccept" "OnConnectionRequest (echo_net env junk) = Echo_OnConnectionRequest"
  "OnRecv (echo_net env junk) = Echo_OnRecv (echo_base env) junk"
  by (simp_all add: echo_net_def echo_base_def)

lemma echo_base_simps [simp]: "ne_pool (echo_base env) = ne_pool env" "ne_wsa (echo_base env) = ne_wsa env"
  "ne_tid (echo_base env) = ne_tid env" "OnRelease (echo_base env) = Echo_OnRelease"
  by (simp_all add: echo_base_def)

section \<open>Reading and filling a packet\<close>

text \<open>What is echoed for a message: its first eight bytes, or the uninitialised variable.\<close>

definition echo_payload :: "u64 \<Rightarrow> bytes \<Rightarrow> bytes" where
  "echo_payload junk bs = (if 8 \<le> length bs then take 8 bs else le_encode 8 junk)"

lemma get64_packet:
  assumes "packet_ok x"
  shows "\<exists>y data. Packet_get64 x junk = Inr (y, data) \<and> packet_ok y \<and> m_refCount y = m_refCount x \<and>
    le_encode 8 data = echo_payload junk (packet_data x)"
proof (cases "8 \<le> length (packet_data x)")
  case True
  have "le_encode 8 (le_decode (take 8 (packet_data x)) :: u64) = take 8 (packet_data x)"
    using True le_encode_decode[of "take 8 (packet_data x)", where ?'a = 64] by simp
  then show ?thesis using get_ok[of x 8 junk] True assms
    by (auto simp: packet_ok_def Packet_get64_def echo_payload_def)
next
  case False
  then show ?thesis using get_short[of x 8 junk] assms
    by (auto simp: packet_ok_def Packet_get64_def echo_payload_def)
qed

lemma put64_fresh:
  assumes "fresh_packet x"
  shows "\<exists>y. Packet_put64 x data = Inr y \<and> packet_ok y \<and> m_refCount y = 1 \<and> packet_payload y = le_encode 8 data"
proof -
  have "packet_room x = 1400" "packet_inv x" "packet_payload x = []"
    using assms by (auto simp: fresh_packet_def packet_room_def packet_ok_def packet_payload_def)
  then show ?thesis using put_ok[of x 8 data] assms
    by (auto simp: fresh_packet_def packet_ok_def Packet_put64_def)
qed

section \<open>The echo\<close>

abbreviation echo_ar :: "unit \<Rightarrow> u64 \<Rightarrow> nat" where "echo_ar \<equiv> (\<lambda>_ _. 0)"
abbreviation echo_J :: "unit \<Rightarrow> bool" where "echo_J \<equiv> (\<lambda>_. True)"

text \<open>Up to the send, the packet with the number is the caller's.\<close>

lemma Echo_setup:
  assumes s: "srv echo_ar echo_J c r b s" and e: "pkt_env (ne_pool env)" and x: "live (packets s) p = Some x"
  shows "Echo_OnRecv env junk sid p s = Inl DebugBreak \<or> (\<exists>s1 q y pool.
    s1 = s\<lparr>packets := pool\<rparr> \<and> c q = 0 \<and> srv echo_ar echo_J (c(q := 1)) r b s1 \<and> live (packets s1) q = Some y \<and>
    m_refCount y = 1 \<and> packet_ok y \<and> packet_payload y = echo_payload junk (packet_data x) \<and>
    Echo_OnRecv env junk sid p s = and_then (Lan_SendPacket env sid q s1) (\<lambda>(s, _). FreePacket env q s))"
proof -
  have S: "net_inv echo_ar c s" using s by (simp add: srv_def)
  note G = get_packet[OF net_invD(2)[OF S] x]
  obtain x1 data where 1: "Packet_get64 x junk = Inr (x1, data)" "packet_ok x1" "m_refCount x1 = m_refCount x"
    "le_encode 8 data = echo_payload junk (packet_data x)" using get64_packet[OF G(2)] by blast
  obtain pool1 where 2: "obj_put (packets s) p x1 = Inr pool1" "srv echo_ar echo_J c r b (s\<lparr>packets := pool1\<rparr>)"
    using put_packet_srv[OF s x 1(2,3)] by blast
  let ?s1 = "s\<lparr>packets := pool1\<rparr>"
  have rd: "read_packet p (\<lambda>k. Packet_get64 k junk) s = Inr (?s1, data)" using G(1) 1(1) 2(1) by (simp add: read_packet_def)
  show ?thesis
  proof (cases "AllocPacket env ?s1")
    case (Inl f)
    then have "f = DebugBreak" using AllocPacket_srv[OF 2(2) e] by simp
    then show ?thesis using Inl rd by (simp add: Echo_OnRecv_def)
  next
    case (Inr v)
    obtain s2 q where v: "v = (s2, q)" by (cases v)
    obtain pool2 z where 3: "s2 = s\<lparr>packets := pool2\<rparr>" "live pool2 q = Some z" "fresh_packet z" "c q = 0"
      "srv echo_ar echo_J (c(q := 1)) r b s2" using safe_InrD[OF AllocPacket_srv[OF 2(2) e] Inr] unfolding v by auto
    have S2: "net_inv echo_ar (c(q := 1)) s2" using 3(5) by (simp add: srv_def)
    have l2: "live (packets s2) q = Some z" using 3(1,2) by simp
    note G2 = get_packet[OF net_invD(2)[OF S2] l2]
    obtain y where 4: "Packet_put64 z data = Inr y" "packet_ok y" "m_refCount y = 1" "packet_payload y = le_encode 8 data"
      using put64_fresh[OF 3(3)] by blast
    have rz: "m_refCount y = m_refCount z" using 3(3) 4(3) by (simp add: fresh_packet_def)
    obtain pool3 where 5: "obj_put (packets s2) q y = Inr pool3" "srv echo_ar echo_J (c(q := 1)) r b (s2\<lparr>packets := pool3\<rparr>)"
      "live pool3 = (live (packets s2))(q \<mapsto> y)" using put_packet_srv[OF 3(5) l2 4(2) rz] by blast
    let ?s3 = "s2\<lparr>packets := pool3\<rparr>"
    have "on_pool (on_packet q (\<lambda>k. Packet_put64 k data)) s2 = Inr ?s3"
      using G2(1) 4(1) 5(1) by (simp add: on_pool_def on_packet_def)
    then have "Echo_OnRecv env junk sid p s = and_then (Lan_SendPacket env sid q ?s3) (\<lambda>(s, _). FreePacket env q s)"
      using rd Inr v by (simp add: Echo_OnRecv_def)
    moreover have "?s3 = s\<lparr>packets := pool3\<rparr>" using 3(1) by simp
    moreover have "live (packets ?s3) q = Some y" using 5(3) by simp
    ultimately show ?thesis using 3(4) 5(2) 4 1(4) by (intro disjI2 exI[of _ ?s3] exI[of _ q] exI[of _ y] exI[of _ pool3]) simp
  qed
qed

locale echo_server =
  fixes env :: "unit net_env" and junk :: u64
  assumes pool_env: "pkt_env (ne_pool env)"

sublocale echo_server \<subseteq> eb: net_release "echo_base env" True echo_ar echo_J
  by unfold_locales (simp_all add: pool_env Echo_OnRelease_def)

context echo_server begin

lemma Echo_OnRecv_safe:
  assumes s: "srv echo_ar echo_J c r b s" and x: "live (packets s) p = Some x" and r: "\<forall>j. r j < 50"
  shows "safe (kept echo_ar echo_J c r b s) (Echo_OnRecv (echo_base env) junk sid p s)"
proof (cases "Echo_OnRecv (echo_base env) junk sid p s = Inl DebugBreak")
  case True
  then show ?thesis by simp
next
  case False
  have pe: "pkt_env (ne_pool (echo_base env))" by (simp add: pool_env)
  obtain s1 q y pool where 1: "s1 = s\<lparr>packets := pool\<rparr>" "c q = 0" "srv echo_ar echo_J (c(q := 1)) r b s1"
    "live (packets s1) q = Some y" "m_refCount y = 1"
    and eq: "Echo_OnRecv (echo_base env) junk sid p s =
      and_then (Lan_SendPacket (echo_base env) sid q s1) (\<lambda>(s, _). FreePacket (echo_base env) q s)"
    using Echo_setup[OF s pe x, of junk sid] False by auto
  have r98: "\<forall>j. r j < 98" using r by (auto intro: less_trans)
  have lim: "refs (packets s1) q < 2 ^ 31 - 1" using 1(4,5) by (simp add: refs_def)
  have "safe (\<lambda>(s', ok). kept echo_ar echo_J (c(q := 1)) r b s1 s' \<and> ok = found s1 sid) (Lan_SendPacket (echo_base env) sid q s1)"
    unfolding Lan_SendPacket_framed by (rule eb.lr.send_framed_safe[OF 1(3) r98 _ lim]) simp
  then show ?thesis unfolding eq
  proof (rule safe_and_then)
    fix v assume "(\<lambda>(s', ok). kept echo_ar echo_J (c(q := 1)) r b s1 s' \<and> ok = found s1 sid) v"
    then obtain s2 ok where v: "v = (s2, ok)" "srv echo_ar echo_J (c(q := 1)) r b s2" "same_rx s1 s2"
      by (cases v) (auto simp: kept_def)
    obtain pool2 where f: "FreePacket (echo_base env) q s2 = Inr (s2\<lparr>packets := pool2\<rparr>)"
      "srv echo_ar echo_J ((c(q := 1))(q := (c(q := 1)) q - 1)) r b (s2\<lparr>packets := pool2\<rparr>)"
      using FreePacket_srv[OF v(2), of q "echo_base env"] by auto
    have "(c(q := 1))(q := (c(q := 1)) q - 1) = c" using 1(2) by auto
    moreover have "same_rx s (s2\<lparr>packets := pool2\<rparr>)" using v(3) 1(1) by (simp add: same_rx_def)
    ultimately have "kept echo_ar echo_J c r b s (s2\<lparr>packets := pool2\<rparr>)" using f(2) by (simp add: kept_def)
    then show "safe (kept echo_ar echo_J c r b s) (case v of (s, _) \<Rightarrow> FreePacket (echo_base env) q s)" using v(1) f(1) by simp
  qed
qed

end

sublocale echo_server \<subseteq> en: net_app "echo_net env junk" echo_ar "\<lambda>_. echo_J"
proof (unfold_locales, goal_cases)
  case 1
  show ?case by (simp add: pool_env)
next
  case (2 tr e L)
  then show ?case by simp
next
  case (3 L c r b s sid)
  then show ?case by (simp add: Echo_OnRelease_def)
next
  case (4 L c r b s p x sid)
  then show ?case using Echo_OnRecv_safe[OF 4(1,2,5)] by simp
next
  case (5 L c r b s sid)
  then show ?case by (simp add: Echo_OnAccept_def)
next
  case (6 L c r b s addr pt)
  then show ?case by (simp add: Echo_OnConnectionRequest_def)
qed

end
