(* ===== verification/LanProperties.thy ===== *)
theory LanProperties
  imports EchoServer ChatJobs
begin

text \<open>
  The properties of the LAN server and of the echo server on it, with the echo server as the derived
  class in the witnesses.
\<close>

section \<open>An instance\<close>

definition sample_echo_env :: "unit net_env" where
  "sample_echo_env = \<lparr>ne_tid = 0, ne_pool = sample_packet_env, ne_rand = (\<lambda>_. 7), ne_wsa = (\<lambda>_ _. 0),
     OnConnectionRequest = (\<lambda>_ _ s. Inr (s, True)), OnAccept = (\<lambda>_ s. Inr s), OnRelease = (\<lambda>_ s. Inr s),
     OnRecv = (\<lambda>_ _ s. Inr s)\<rparr>"

interpretation echo: echo_server sample_echo_env "0x5A"
  by unfold_locales (simp add: sample_echo_env_def sample_packet_env)

abbreviation sample_echo_net :: "unit net_env" where
  "sample_echo_net \<equiv> echo_net sample_echo_env 0x5A"

abbreviation sample_echo :: "unit server" where
  "sample_echo \<equiv> live_server sample_echo_net ()"

lemma sample_echo_calls: "all_calls_succeed sample_echo_net"
  by (simp add: all_calls_succeed_def sample_echo_env_def)

lemmas sample_echo_session = live_server_session[OF sample_echo_calls, of "()"]

lemma sample_echo_srv: "srv echo_ar echo_J no_refs one_recv {} sample_echo"
  by (rule live_server_srv[OF sample_echo_calls]) simp_all

section \<open>The LAN server\<close>

text \<open>
  The LAN server is the net server in everything but framing and receiving: construction, start and
  stop, finding, counting and releasing sessions, posting and completing sends are the same functions.
\<close>
lemma lan_shares_session_core:
  "Lan_Start = Start \<and> Lan_Stop = Stop \<and> Lan_AcquireSession = AcquireSession \<and> Lan_ReturnSession = ReturnSession \<and>
   Lan_ReleaseSession = ReleaseSession \<and> Lan_SendPost = SendPost \<and> Lan_SendProc = SendProc \<and>
   Lan_Disconnect = Disconnect \<and> CLanServer_default = server_default \<and> CLanServer_destruct = server_destruct"
  by (simp add: lan_net_eqs)

text \<open>
  C32. A completed receive on the LAN server. The derived class gets, in order, exactly the payloads that
  the stream of length-prefixed frames holds so far, and the incomplete rest stays in the queue.
\<close>
theorem lan_worker_receives_stream:
  assumes "net_app env ar J" and "srv ar (J L) c r b s" and "i < length (m_sessions s)" and "0 < r i" "\<forall>j. r j < 50"
    and "0 < length bs" "int (length bs) \<le> RingBuffer_GetFreeSize (recvQ (m_sessions s ! i))"
    and "lan_parse (ring_contents (recvQ (m_sessions s ! i)) @ bs) = (pls, rest, e)" "e \<noteq> TooLong"
    and "c_overlapped k = Some (i, RECV)" "c_retval k" "c_transferred k = of_nat (length bs)"
  shows "safe (\<lambda>(s', more). more \<and> recv_post ar (J (L @ map (Pair (sessionID (m_sessions s ! i))) pls)) c r b i rest More s')
    (Lan_Worker_step env k (arrived i bs s))"
  by (rule safe_mono[OF net_app.Lan_Worker_received[OF assms]]) auto

definition sample_echo_recv :: "nat \<Rightarrow> completion" where
  "sample_echo_recv n = \<lparr>c_retval = True, c_transferred = of_nat n, c_key = 0x10000, c_overlapped = Some (0, RECV)\<rparr>"

lemma lan_parse_short: "length bs < 2 \<Longrightarrow> lan_parse bs = ([], bs, More)"
  by (simp add: lan_parse.simps[of bs])

text \<open>With the chat server's callbacks, whose job queue records what it is given.\<close>

theorem lan_worker_receives_stream_witness:
  "safe (\<lambda>(s', more). more \<and> recv_post chat_ar (chat_J [] sample_lobby [(0x10000, [1, 2, 3])]) no_refs one_recv {} 0 [9] More s')
    (Lan_Worker_step (chat_net sample_chat_env) (sample_echo_recv 6) (arrived 0 (lan_frame [1, 2, 3] @ [9]) sample_live))"
proof -
  have "lan_parse (lan_frame [1, 2, 3] @ [9]) = ([[1, 2, 3]], [9], More)"
    by (subst lan_parse_frame) (simp_all add: lan_parse_short)
  then show ?thesis
    using lan_worker_receives_stream[OF demo.cn.net_app_axioms sample_live_srv, of 0 "lan_frame [1, 2, 3] @ [9]"
        "[[1, 2, 3]]" "[9]" More "sample_echo_recv 6"]
    by (simp add: sample_live_session sample_echo_recv_def one_recv)
qed

text \<open>
  Frames as \<open>SetLanHeader\<close> builds them, for payloads of at most 1400 bytes, are delivered as these
  payloads, however the stream is cut: what has arrived is some frames and the beginning of a next.
\<close>
theorem lan_recv_delivers_frames:
  assumes "net_app env ar J" and "srv ar (J L) c r b s" and "i < length (m_sessions s)" and "0 < r i" "\<forall>j. r j < 50"
    and "0 < length bs" "int (length bs) \<le> RingBuffer_GetFreeSize (recvQ (m_sessions s ! i))"
    and fr: "ring_contents (recvQ (m_sessions s ! i)) @ bs = concat (map lan_frame pls) @ tail"
    and "\<forall>pl\<in>set pls. length pl \<le> 1400" and tail: "length tail < 2 \<or> length tail < 2 + lan_length tail"
  shows "safe (recv_post ar (J (L @ map (Pair (sessionID (m_sessions s ! i))) pls)) c r b i tail More)
    (Lan_RecvProc env i (of_nat (length bs)) (arrived i bs s))"
proof -
  have "lan_parse (ring_contents (recvQ (m_sessions s ! i)) @ bs) = (pls, tail, More)"
    unfolding fr lan_parse_frames[OF assms(9)] using tail by (subst lan_parse.simps) simp
  from net_app.Lan_RecvProc_safe[OF assms(1-5,7) this] show ?thesis by simp
qed

theorem lan_recv_delivers_frames_witness:
  "safe (recv_post echo_ar echo_J no_refs one_recv {} 0 [7] More)
    (Lan_RecvProc sample_echo_net 0 8 (arrived 0 (lan_frame [1, 2, 3] @ lan_frame [] @ [7]) sample_echo))"
  using lan_recv_delivers_frames[OF echo.en.net_app_axioms sample_echo_srv, of 0 "lan_frame [1, 2, 3] @ lan_frame [] @ [7]"
      "[[1, 2, 3], []]" "[7]"]
  by (simp add: sample_echo_session one_recv)

text \<open>
  C31. One client of the accept loop of the LAN server, which posts and counts the first receive in its own
  code. A client that finds no free index, or is refused by the derived class, has its socket closed, and the
  index and all sessions stay as they were. An allowed client gets the session of the popped index, with its
  socket and the id of the next generation; \<open>OnAccept\<close> is told, and one receive over the empty queue of
  2001 bytes is posted, whose reference is then the only known one. A receive that is reset gives it back.
\<close>
theorem lan_accept_client_answers:
  assumes "net_app env ar J" and "srv ar (J L) c r b s" and "\<forall>j. r j < 48" and ev: "e = EvRecv sk [(0, 2001)]"
  shows "case m_indexStack s of
      [] \<Rightarrow> Lan_Accept_client env (sk, addr, pt) s = Inr (emit (EvClose sk) s)
    | index # rest \<Rightarrow> (case OnConnectionRequest env addr pt (s\<lparr>m_indexStack := rest\<rparr>) of
        Inl x \<Rightarrow> Lan_Accept_client env (sk, addr, pt) s = Inl x
      | Inr (s1, allow) \<Rightarrow> same_rx s s1 \<and> (if \<not> allow
          then \<exists>s'. Lan_Accept_client env (sk, addr, pt) s = Inr s' \<and> srv ar (J L) c r b s' \<and>
            m_sessions s' = m_sessions s1 \<and> m_indexStack s' = index # m_indexStack s1 \<and> trace s' = trace s1 @ [EvClose sk]
          else \<exists>s2. m_sessions s2 = (m_sessions s1)[unat index := (Session_Init sk
              (session_id (m_sessionIDGenerator s1 + 1) index) addr pt (m_sessions s1 ! unat index))\<lparr>ioCount := 1\<rparr>] \<and>
            m_sessionIDGenerator s2 = m_sessionIDGenerator s1 + 1 \<and>
            m_sessionCount s2 = m_sessionCount s1 + 1 \<and> m_indexStack s2 = m_indexStack s1 \<and>
            trace s2 = trace s1 @ replicate (if m_nagle s1 then 2 else 3) (EvSockopt sk) @
              [EvAssociate sk (session_id (m_sessionIDGenerator s1 + 1) index)] \<and>
            (case OnAccept env (session_id (m_sessionIDGenerator s1 + 1) index) s2 of
              Inl x \<Rightarrow> Lan_Accept_client env (sk, addr, pt) s = Inl x
            | Inr s3 \<Rightarrow> same_rx s2 s3 \<and>
              (if ne_wsa env (trace s3) e = 0 \<or> ne_wsa env (trace s3) e = WSA_IO_PENDING
               then Lan_Accept_client env (sk, addr, pt) s = Inr (emit e s3) \<and> srv ar (J L) c (r(unat index := 1)) b (emit e s3)
               else if ne_wsa env (trace s3) e \<noteq> WSAECONNRESET then Lan_Accept_client env (sk, addr, pt) s = Inl DebugBreak
               else safe (kept ar (J L) c r b s2) (Lan_Accept_client env (sk, addr, pt) s)))))"
  unfolding ev by (rule net_app.Lan_Accept_client_exact[OF assms(1-3)])

text \<open>A derived class that answers \<open>ok\<close> to every client.\<close>

definition lan_doorman :: "bool \<Rightarrow> unit net_env" where
  "lan_doorman ok = sample_echo_net\<lparr>OnConnectionRequest := (\<lambda>_ _ s. Inr (s, ok))\<rparr>"

lemma lan_doorman_app: "net_app (lan_doorman ok) echo_ar (\<lambda>_. echo_J)"
  using echo.en.net_app_axioms by (simp add: net_app_def net_release_def lan_doorman_def)

theorem lan_accept_client_answers_witness:
  "(\<exists>s'. Lan_Accept_client (lan_doorman True) (6, ''10.0.0.2'', 4001) sample_echo = Inr s' \<and> sock (m_sessions s' ! 1) = 6 \<and>
      sessionID (m_sessions s' ! 1) = session_id (m_sessionIDGenerator sample_echo + 1) 1 \<and>
      srv echo_ar echo_J no_refs (one_recv(1 := 1)) {} s') \<and>
   (\<exists>s'. Lan_Accept_client (lan_doorman False) (6, ''10.0.0.2'', 4001) sample_echo = Inr s' \<and>
      m_sessions s' = m_sessions sample_echo \<and> m_indexStack s' = [1] \<and> trace s' = trace sample_echo @ [EvClose 6])"
proof -
  have w: "ne_wsa (lan_doorman ok) tr e = 0" for ok tr e by (simp add: lan_doorman_def sample_echo_env_def)
  have o: "OnConnectionRequest (lan_doorman ok) a q s = Inr (s, ok)" "OnAccept (lan_doorman ok) sid s = Inr s" for ok a q sid s
    by (simp_all add: lan_doorman_def Echo_OnAccept_def)
  note A = lan_accept_client_answers[OF lan_doorman_app sample_echo_srv one_recv(2) refl, of _ 6 "''10.0.0.2''" 4001]
  have "\<exists>s'. Lan_Accept_client (lan_doorman True) (6, ''10.0.0.2'', 4001) sample_echo = Inr s' \<and> sock (m_sessions s' ! 1) = 6 \<and>
      sessionID (m_sessions s' ! 1) = session_id (m_sessionIDGenerator sample_echo + 1) 1 \<and>
      srv echo_ar echo_J no_refs (one_recv(1 := 1)) {} s'"
    using A[of True] by (auto simp: sample_echo_session w o Session_Init_def)
  moreover have "\<exists>s'. Lan_Accept_client (lan_doorman False) (6, ''10.0.0.2'', 4001) sample_echo = Inr s' \<and>
      m_sessions s' = m_sessions sample_echo \<and> m_indexStack s' = [1] \<and> trace s' = trace sample_echo @ [EvClose 6]"
    using A[of False] by (auto simp: sample_echo_session w o)
  ultimately show ?thesis by blast
qed

section \<open>The echo\<close>

lemma safe_both: "safe_if B P x \<Longrightarrow> safe_if B Q x \<Longrightarrow> safe_if B (\<lambda>v. P v \<and> Q v) x"
  by (auto simp: safe_if_def split: sum.splits)

text \<open>What is sent back on an idle session.\<close>

context echo_server begin

lemma Echo_reply:
  assumes s: "srv echo_ar echo_J c r b s" and x: "live (packets s) p = Some x" and r: "\<forall>j. r j < 50"
    and f: "found s sid" and i: "i = unat (sid AND INDEX_MASK)"
    and idle: "\<not> isSending (m_sessions s ! i)" "sendQ (m_sessions s ! i) = []"
    and net: "\<And>tr e. ne_wsa env tr e = 0 \<or> ne_wsa env tr e = WSA_IO_PENDING"
  shows "safe (\<lambda>s'. trace s' = trace s @ [EvSend (sock (m_sessions s ! i)) [lan_frame (echo_payload junk (packet_data x))]])
    (Echo_OnRecv (echo_base env) junk sid p s)"
proof (cases "Echo_OnRecv (echo_base env) junk sid p s = Inl DebugBreak")
  case True
  then show ?thesis by simp
next
  case False
  have pe: "pkt_env (ne_pool (echo_base env))" by (simp add: pool_env)
  obtain s1 q y pool where 1: "s1 = s\<lparr>packets := pool\<rparr>" "c q = 0" "srv echo_ar echo_J (c(q := 1)) r b s1"
    "live (packets s1) q = Some y" "m_refCount y = 1" "packet_ok y" "packet_payload y = echo_payload junk (packet_data x)"
    and eq: "Echo_OnRecv (echo_base env) junk sid p s =
      and_then (Lan_SendPacket (echo_base env) sid q s1) (\<lambda>(s, _). FreePacket (echo_base env) q s)"
    using Echo_setup[OF s pe x, of junk sid] False by auto
  have r98: "\<forall>j. r j < 98" using r by (auto intro: less_trans)
  have lim: "refs (packets s1) q < 2 ^ 31 - 1" using 1(4,5) by (simp add: refs_def)
  have f1: "found s1 sid" using f 1(1) by (simp add: found_def)
  have i1: "\<not> isSending (m_sessions s1 ! unat (sid AND INDEX_MASK))" "sendQ (m_sessions s1 ! unat (sid AND INDEX_MASK)) = []"
    using idle 1(1) i by simp_all
  obtain z where z: "Packet_SetLanHeader y = Inr z" "packet_wire z = lan_frame (packet_payload y)"
    using SetLanHeader_packet[OF 1(6)] by blast
  have cq: "0 < (c(q := 1)) q" by simp
  note P = lh.send_posts(1)[OF 1(3) r98 cq lim f1 i1(1) 1(4) z(1), where env = "echo_base env"]
  obtain s2 where 2: "Lan_SendPacket (echo_base env) sid q s1 = Inr (s2, True)"
    "trace s2 = trace s1 @ [EvSend (sock (m_sessions s1 ! unat (sid AND INDEX_MASK))) [packet_wire z]]"
    using P net unfolding i1(2) Lan_SendPacket_framed by (auto simp: MAX_SEND_PACKET_def)
  have fr: "trace s3 = trace s2" if "FreePacket (echo_base env) q s2 = Inr s3" for s3
    using that by (auto simp: FreePacket_eq elim!: and_then_InrE)
  have fk: "safe (kept echo_ar echo_J c r b s) (FreePacket (echo_base env) q s2)"
    using Echo_OnRecv_safe[OF s x r, of sid] unfolding eq 2(1) by simp
  show ?thesis unfolding eq 2(1) and_then_Inr prod.case
    by (rule safe_strengthen[OF fk]) (use fr 2(2) z(2) 1(1,7) i in simp)
qed

text \<open>A whole frame arrives on an idle session with an empty queue.\<close>

lemma Echo_receives:
  assumes s: "srv echo_ar echo_J c r b s" and i: "i < length (m_sessions s)" and r: "0 < r i" "\<forall>j. r j < 50"
    and idle: "\<not> isSending (m_sessions s ! i)" "sendQ (m_sessions s ! i) = []"
    and q: "ring_contents (recvQ (m_sessions s ! i)) = lan_frame pl" and pl: "length pl \<le> 1400" "Suc 0 < fuel"
    and net: "\<And>tr e. ne_wsa env tr e = 0 \<or> ne_wsa env tr e = WSA_IO_PENDING"
  shows "safe (\<lambda>s'. \<exists>ws. trace s' = trace s @ [EvSend (sock (m_sessions s ! i)) [lan_frame (echo_payload junk pl)],
      EvRecv (sock (m_sessions s ! i)) ws]) (Lan_RecvProc_loop (echo_net env junk) fuel i s)"
proof -
  let ?x = "m_sessions s ! i"
  let ?bs = "ring_contents (recvQ ?x)"
  obtain fuel' where fuel: "fuel = Suc (Suc fuel')" using pl(2) by (cases fuel; cases "fuel - 1") auto
  have ok: "ring_inv (recvQ ?x)" using net_invD(3)[of echo_ar c s i] s i by (auto simp: srv_def sess_ok_def)
  have len: "lan_length ?bs = length pl" "length ?bs = 2 + length pl"
    using lan_length_frame[of pl "[]"] pl(1) by (simp_all add: q)
  have pd: "take (lan_length ?bs) (drop 2 ?bs) = pl" unfolding len(1) by (simp add: q lan_frame_def)
  have S: "io_inv r b s" using s by (simp add: srv_def)
  have lv: "\<not> released ?x" using io_live(1)[OF S i] r(1) by blast
  have sid: "sessionID ?x AND INDEX_MASK = of_nat i" using io_invD(1)[OF S i] lv by (simp add: io_sess_def)
  have "i < 65536" using S i by (simp add: io_inv_def)
  then have ui: "unat (sessionID ?x AND INDEX_MASK) = i" unfolding sid by (simp add: unat_of_nat take_bit_nat_eq_self)
  have pe: "pkt_env (ne_pool (echo_net env junk))" by (simp add: pool_env)
  have "2 + lan_length ?bs \<le> length ?bs" "lan_length ?bs \<le> 1400" using len pl(1) by simp_all
  note tf = lan_take_safe[OF s pe i refl this]
  have nm: "\<not> (length ?bs < 2 \<or> length ?bs < 2 + lan_length ?bs)" using len by simp
  show ?thesis unfolding fuel Lan_RecvProc_pass[OF i ok] if_not_P[OF nm]
  proof (rule safe_and_then[OF tf])
    fix v assume "(\<lambda>(s', p). \<exists>q pool y.
        s' = s\<lparr>m_sessions := (m_sessions s)[i := ?x\<lparr>recvQ := q\<rparr>], packets := pool\<rparr> \<and>
        ring_contents q = drop (2 + lan_length ?bs) ?bs \<and> c p = 0 \<and> srv echo_ar echo_J (c(p := 1)) r b s' \<and>
        live pool p = Some y \<and> refs pool p = 1 \<and> packet_data y = take (lan_length ?bs) (drop 2 ?bs)) v"
    then obtain s1 p q1 pool y where v: "v = (s1, p)"
      "s1 = s\<lparr>m_sessions := (m_sessions s)[i := ?x\<lparr>recvQ := q1\<rparr>], packets := pool\<rparr>"
      "ring_contents q1 = drop (2 + lan_length ?bs) ?bs" "srv echo_ar echo_J (c(p := 1)) r b s1"
      "live pool p = Some y" "packet_data y = take (lan_length ?bs) (drop 2 ?bs)" by blast
    have i1: "i < length (m_sessions s1)" and x1: "m_sessions s1 ! i = ?x\<lparr>recvQ := q1\<rparr>" using v(2) i by simp_all
    have e1: "ring_contents q1 = []" using v(3) len by simp
    have l1: "live (packets s1) p = Some y" "packet_data y = pl" "trace s1 = trace s" using v(2,5,6) pd by simp_all
    have f1: "found s1 (sessionID ?x)" unfolding found_def Let_def ui using i1 x1 lv by (simp add: released_def)
    have id1: "\<not> isSending (m_sessions s1 ! i)" "sendQ (m_sessions s1 ! i) = []" using idle x1 by simp_all
    let ?e = "EvSend (sock ?x) [lan_frame (echo_payload junk pl)]"
    have a: "safe (kept echo_ar echo_J (c(p := 1)) r b s1) (Echo_OnRecv (echo_base env) junk (sessionID ?x) p s1)"
      by (rule Echo_OnRecv_safe[OF v(4) l1(1) r(2)])
    have t: "safe (\<lambda>s'. trace s' = trace s @ [?e]) (Echo_OnRecv (echo_base env) junk (sessionID ?x) p s1)"
      using Echo_reply[OF v(4) l1(1) r(2) f1 ui[symmetric] id1 net] x1 l1 by simp
    have "safe (\<lambda>s'. \<exists>ws. trace s' = trace s @ [?e, EvRecv (sock ?x) ws])
      (and_then (Echo_OnRecv (echo_base env) junk (sessionID ?x) p s1) (\<lambda>s.
       and_then (FreePacket (echo_net env junk) p s) (\<lambda>s. Lan_RecvProc_loop (echo_net env junk) (Suc fuel') i s)))"
    proof (rule safe_and_then[OF safe_both[OF a t]])
      fix s2 assume 2: "kept echo_ar echo_J (c(p := 1)) r b s1 s2 \<and> trace s2 = trace s @ [?e]"
      then obtain pool2 where f: "FreePacket (echo_net env junk) p s2 = Inr (s2\<lparr>packets := pool2\<rparr>)"
        using FreePacket_srv[of echo_ar echo_J "c(p := 1)" r b s2 p "echo_net env junk"] by (auto simp: kept_def)
      let ?s3 = "s2\<lparr>packets := pool2\<rparr>"
      have sr: "same_rx s1 s2" using 2 by (simp add: kept_def)
      have i3: "i < length (m_sessions ?s3)" using i1 same_rx_length[OF sr] by simp
      have rx: "rx (m_sessions s2 ! i) = rx (m_sessions s1 ! i)" by (rule same_rx_nth[OF sr i1])
      have q3: "recvQ (m_sessions ?s3 ! i) = q1" "sock (m_sessions ?s3 ! i) = sock ?x"
        using rx x1 by (simp_all add: rx_def)
      have "sess_ok (m_sessions s1 ! i)" using net_invD(3)[of echo_ar "c(p := 1)" s1 i] v(4) i1 by (auto simp: srv_def)
      then have rq: "ring_inv (recvQ (m_sessions ?s3 ! i))" unfolding q3 x1 by (simp add: sess_ok_def)
      let ?ev = "EvRecv (sock ?x) (recv_windows q1)"
      have "RecvPost (echo_net env junk) i ?s3 = Inr (emit ?ev ?s3)"
        using i3 q3 net[of "trace s2" ?ev] by (auto simp: RecvPost_def syscall_def emit_def Let_def)
      then have "Lan_RecvProc_loop (echo_net env junk) (Suc fuel') i ?s3 = Inr (emit ?ev ?s3)"
        unfolding Lan_RecvProc_pass[OF i3 rq] q3(1) e1 by simp
      then show "safe (\<lambda>s'. \<exists>ws. trace s' = trace s @ [?e, EvRecv (sock ?x) ws])
        (and_then (FreePacket (echo_net env junk) p s2) (\<lambda>s. Lan_RecvProc_loop (echo_net env junk) (Suc fuel') i s))"
        using f 2 by (simp add: emit_def del: Lan_RecvProc_loop.simps)
    qed
    then show "safe (\<lambda>s'. \<exists>ws. trace s' = trace s @ [?e, EvRecv (sock ?x) ws])
      (case v of (s, p) \<Rightarrow> and_then (get_session i s) (\<lambda>x.
       and_then (OnRecv (echo_net env junk) (sessionID x) p s) (\<lambda>s.
       and_then (FreePacket (echo_net env junk) p s) (\<lambda>s. Lan_RecvProc_loop (echo_net env junk) (Suc fuel') i s))))"
      using v(1) i1 x1 by (simp del: Lan_RecvProc_loop.simps)
  qed
qed

end

text \<open>
  C33. The echo, from the bytes that arrive to the bytes that leave: when a whole frame arrives on an idle
  session, the server sends exactly one frame, whose payload is the first eight bytes of the message, and
  posts the next receive. For a message of fewer than eight bytes it sends its uninitialised variable.
\<close>
theorem echo_answers_frame:
  assumes "pkt_env (ne_pool env)" and net: "\<And>tr e. ne_wsa env tr e = 0 \<or> ne_wsa env tr e = WSA_IO_PENDING"
    and s: "srv echo_ar echo_J c r b s" and i: "i < length (m_sessions s)" and r: "0 < r i" "\<forall>j. r j < 50"
    and idle: "\<not> isSending (m_sessions s ! i)" "sendQ (m_sessions s ! i) = []" "ring_contents (recvQ (m_sessions s ! i)) = []"
    and pl: "length pl \<le> 1400" "int (length (lan_frame pl)) \<le> RingBuffer_GetFreeSize (recvQ (m_sessions s ! i))"
    and k: "c_overlapped k = Some (i, RECV)" "c_retval k" "c_transferred k = of_nat (length (lan_frame pl))"
  shows "safe (\<lambda>(s', more). more \<and> (\<exists>ws. trace s' = trace s @
      [EvSend (sock (m_sessions s ! i)) [lan_frame (echo_payload junk pl)], EvRecv (sock (m_sessions s ! i)) ws]))
    (Lan_Worker_step (echo_net env junk) k (arrived i (lan_frame pl) s))"
proof -
  have es: "echo_server env" using assms(1) by unfold_locales
  let ?bs = "lan_frame pl"
  obtain q where q: "srv echo_ar echo_J c r b (s\<lparr>m_sessions := (m_sessions s)[i := (m_sessions s ! i)\<lparr>recvQ := q\<rparr>]\<rparr>)"
    "ring_contents q = ?bs" "ring_inv q"
    "upd_session i (\<lambda>x. x\<lparr>recvQ := fst (RingBuffer_MoveRear (recvQ x) (sint (of_nat (length ?bs) :: u32)))\<rparr>) (arrived i ?bs s) =
       Inr (s\<lparr>m_sessions := (m_sessions s)[i := (m_sessions s ! i)\<lparr>recvQ := q\<rparr>]\<rparr>)"
    using arrived_moved[OF s i pl(2)] idle(3) by auto
  let ?s1 = "s\<lparr>m_sessions := (m_sessions s)[i := (m_sessions s ! i)\<lparr>recvQ := q\<rparr>]\<rparr>"
  have i1: "i < length (m_sessions ?s1)" and x1: "m_sessions ?s1 ! i = (m_sessions s ! i)\<lparr>recvQ := q\<rparr>" using i by simp_all
  have use: "nat (RingBuffer_GetUseSize q) = length ?bs" using use_size_contents[OF q(3)] q(2) by simp
  have len: "(of_nat (length ?bs) :: u32) \<noteq> 0"
    using of_nat_u32_inj[of "length ?bs" 0] pl(1) by simp
  have run: "Lan_RecvProc (echo_net env junk) i (of_nat (length ?bs)) (arrived i ?bs s) =
      Lan_RecvProc_loop (echo_net env junk) (length ?bs + 1) i ?s1"
    unfolding Lan_RecvProc_def q(4) using i1 x1 use by (simp del: Lan_RecvProc_loop.simps)
  have "safe (\<lambda>s'. \<exists>ws. trace s' = trace ?s1 @ [EvSend (sock (m_sessions ?s1 ! i)) [lan_frame (echo_payload junk pl)],
      EvRecv (sock (m_sessions ?s1 ! i)) ws]) (Lan_RecvProc_loop (echo_net env junk) (length ?bs + 1) i ?s1)"
    by (rule echo_server.Echo_receives[OF es q(1) i1 r _ _ _ pl(1) _ net]) (use x1 idle q(2) in simp_all)
  then have "safe (\<lambda>(s', more). more \<and> (\<exists>ws. trace s' = trace s @
      [EvSend (sock (m_sessions s ! i)) [lan_frame (echo_payload junk pl)], EvRecv (sock (m_sessions s ! i)) ws]))
    (and_then (Lan_RecvProc (echo_net env junk) i (of_nat (length ?bs)) (arrived i ?bs s)) (\<lambda>s. Inr (s, True)))"
    unfolding run by (rule safe_and_then) (use x1 in simp)
  then show ?thesis using k len by (simp add: Lan_Worker_step_def)
qed

theorem echo_answers_frame_witness:
  "safe (\<lambda>(s', more). more \<and> (\<exists>ws. trace s' = trace sample_echo @
      [EvSend 5 [lan_frame [1, 2, 3, 4, 5, 6, 7, 8]], EvRecv 5 ws]))
    (Lan_Worker_step sample_echo_net (sample_echo_recv 10) (arrived 0 (lan_frame [1, 2, 3, 4, 5, 6, 7, 8]) sample_echo))"
  using echo_answers_frame[of sample_echo_env, OF _ _ sample_echo_srv, of 0 "[1, 2, 3, 4, 5, 6, 7, 8]" "sample_echo_recv 10" "0x5A"]
  by (simp add: sample_echo_session one_recv sample_echo_recv_def echo_payload_def echo.pool_env)
    (simp add: sample_echo_env_def)

text \<open>
  A frame of the LAN protocol whose announced payload has more than 1400 bytes is copied past the end
  of the packet's block.
\<close>
theorem lan_oversized_frame_overflows:
  assumes "srv ar J c r b s" and "pkt_env (ne_pool env)" and i: "i < length (m_sessions s)"
    and bs: "bs = ring_contents (recvQ (m_sessions s ! i))" "2 + lan_length bs \<le> length bs" "1400 < lan_length bs"
    and al: "AllocPacket env (s\<lparr>m_sessions := (m_sessions s)[i := (m_sessions s ! i)\<lparr>recvQ :=
        fst (RingBuffer_MoveFront (recvQ (m_sessions s ! i)) 2)\<rparr>]\<rparr>) = Inr (s1, p)"
  shows "Lan_RecvProc_loop env (Suc fuel) i s = Inl OutOfBounds"
proof -
  let ?x = "m_sessions s ! i"
  let ?q = "fst (RingBuffer_MoveFront (recvQ ?x) 2)"
  let ?s0 = "s\<lparr>m_sessions := (m_sessions s)[i := ?x\<lparr>recvQ := ?q\<rparr>]\<rparr>"
  have S: "net_inv ar c s" using assms(1) by (simp add: srv_def)
  have ok: "ring_inv (recvQ ?x)" "m_capacity (recvQ ?x) = 2002" using net_invD(3)[OF S i] by (auto simp: sess_ok_def)
  have mq: "ring_contents ?q = drop 2 bs" "ring_inv ?q" "m_capacity ?q = 2002"
    using MoveFront_drop[OF ok(1), of 2] ok(2) bs(1) by simp_all
  have s0: "srv ar J c r b ?s0" by (rule set_recvQ_srv[OF assms(1) i mq(2,3)])
  obtain pool x where 1: "s1 = ?s0\<lparr>packets := pool\<rparr>" "live pool p = Some x" "fresh_packet x" "srv ar J (c(p := 1)) r b s1"
    using safe_InrD[OF AllocPacket_srv[OF s0 assms(2)] al] by auto
  have P: "pkt_inv pool" using 1 net_invD(2)[of ar "c(p := 1)" s1] by (simp add: srv_def)
  note G = get_packet[OF P 1(2)]
  have len: "length (m_chpBuffer x) = 1405" using G(2) by (auto simp: packet_ok_def packet_inv_def)
  have "int (lan_length bs) \<le> RingBuffer_GetUseSize ?q" using use_size_contents[OF mq(2)] mq(1) bs(2) by simp
  from RingBuffer_Dequeue_overflow[OF mq(2) this, of "m_chpBuffer x" 5] len bs(3)
  have "RingBuffer_Dequeue ?q (Some (m_chpBuffer x, 5)) (int (lan_length bs)) = Inl OutOfBounds" by simp
  moreover have "Packet_GetWritePtr x = 5" using 1(3) by (simp add: fresh_packet_def Packet_GetWritePtr_def)
  ultimately have "Lan_Dequeue_into i p (int (lan_length bs)) s1 = Inl OutOfBounds"
    using G(1) i 1(1) by (simp add: Lan_Dequeue_into_def)
  then have "lan_take env i (int (lan_length bs)) s = Inl OutOfBounds"
    using al i by (simp add: lan_take_def sizeof_LanServerHeader_def)
  then show ?thesis
    unfolding Lan_RecvProc_pass[OF i ok(1), folded bs(1)] using bs(2,3) by simp
qed

definition big_lan_frame :: bytes where
  "big_lan_frame = lan_frame (replicate 1401 0)"

lemma big_lan_frame: "length big_lan_frame = 1403" "lan_length big_lan_frame = 1401"
  using lan_length_frame[of "replicate 1401 0" "[]"] by (simp_all add: big_lan_frame_def)

theorem lan_oversized_frame_overflows_witness:
  "\<exists>s. srv echo_ar echo_J no_refs one_recv {} s \<and> ring_contents (recvQ (m_sessions s ! 0)) = big_lan_frame \<and>
    Lan_RecvProc_loop sample_echo_net 1 0 s = Inl OutOfBounds"
proof -
  let ?x = "m_sessions sample_echo ! 0"
  have i: "0 < length (m_sessions sample_echo)" by (simp add: sample_echo_session)
  have "int (length big_lan_frame) \<le> RingBuffer_GetFreeSize (recvQ ?x)" by (simp add: big_lan_frame sample_echo_session)
  from arrived_moved[OF sample_echo_srv i this] obtain q where
    q: "srv echo_ar echo_J no_refs one_recv {} (sample_echo\<lparr>m_sessions := (m_sessions sample_echo)[0 := ?x\<lparr>recvQ := q\<rparr>]\<rparr>)"
      "ring_contents q = big_lan_frame" "ring_inv q"
    by (auto simp: sample_echo_session)
  let ?s = "sample_echo\<lparr>m_sessions := (m_sessions sample_echo)[0 := ?x\<lparr>recvQ := q\<rparr>]\<rparr>"
  have i1: "0 < length (m_sessions ?s)" and x1: "recvQ (m_sessions ?s ! 0) = q" using i by simp_all
  let ?t = "?s\<lparr>m_sessions := (m_sessions ?s)[0 := (m_sessions ?s ! 0)\<lparr>recvQ :=
        fst (RingBuffer_MoveFront (recvQ (m_sessions ?s ! 0)) 2)\<rparr>]\<rparr>"
  have "sess_ok (m_sessions ?s ! 0)" using net_invD(3)[of echo_ar no_refs ?s 0] q(1) i1 by (auto simp: srv_def)
  then have "srv echo_ar echo_J no_refs one_recv {} ?t"
    by (intro set_recvQ_srv[OF q(1) i1] MoveFront_drop(2)) (auto simp: sess_ok_def MoveFront_drop(5))
  moreover have "packets ?t = sample_packets" by (simp add: sample_echo_session)
  moreover have "ne_pool sample_echo_net = sample_packet_env" by (simp add: sample_echo_env_def)
  ultimately obtain s1 p where "AllocPacket sample_echo_net ?t = Inr (s1, p)"
    using sample_alloc_packet[of echo_ar echo_J one_recv "{}" ?t sample_echo_net] by blast
  moreover have "pkt_env (ne_pool sample_echo_net)" by (simp add: sample_echo_env_def sample_packet_env)
  ultimately have "Lan_RecvProc_loop sample_echo_net (Suc 0) 0 ?s = Inl OutOfBounds"
    using lan_oversized_frame_overflows[OF q(1) _ i1, of sample_echo_net big_lan_frame s1 p 0] x1 q(2) by (simp add: big_lan_frame)
  then show ?thesis using q(1,2) x1 by (intro exI[of _ ?s]) simp
qed

end
