(* ===== verification/TaggedPointer.thy ===== *)
theory TaggedPointer
  imports MemoryPool
begin

text \<open>
  Words that carry an address of 47 bits and a tag of 17 bits, as the lock-free stack and queue use them
  against the ABA problem. The locale is what their algorithms rely on: every successful exchange counts
  the tag up, so within \<open>2 ^ 17\<close> exchanges an equal word means that nothing has been exchanged.
\<close>

definition tag_bits :: nat where "tag_bits = 17"

definition tag_period :: nat where "tag_period = 2 ^ tag_bits"

locale tagged_words =
  fixes ptr :: "u64 \<Rightarrow> u64" and tag :: "u64 \<Rightarrow> u64" and mk :: "u64 \<Rightarrow> u64 \<Rightarrow> u64"
  assumes ptr_mk: "user_ptr p \<Longrightarrow> ptr (mk t p) = p"
    and tag_mk: "tag (mk t p) = take_bit tag_bits t"
    and word_eqI: "ptr a = ptr b \<Longrightarrow> tag a = tag b \<Longrightarrow> a = b"
    and ptr_user: "user_ptr (ptr a)"
begin

definition counts :: "nat \<Rightarrow> u64 \<Rightarrow> bool" where
  "counts n w \<longleftrightarrow> tag w = of_nat (n mod tag_period)"

lemma counts_mk: "counts n w \<Longrightarrow> counts (Suc n) (mk (tag w + 1) p)"
proof -
  have "n mod tag_period < tag_period" by (simp add: tag_period_def)
  then have "unat (of_nat (n mod tag_period) + 1 :: u64) = n mod tag_period + 1"
    unfolding tag_period_def tag_bits_def
    by (subst unat_word_ariths) (simp add: unat_of_nat take_bit_nat_eq_self)
  then have "unat (take_bit tag_bits (of_nat (n mod tag_period) + 1 :: u64)) = Suc n mod tag_period"
    unfolding unsigned_take_bit_eq by (simp add: take_bit_eq_mod tag_period_def mod_Suc_eq)
  moreover have "unat (of_nat (Suc n mod tag_period) :: u64) = Suc n mod tag_period"
    using mod_less_divisor[of tag_period "Suc n"]
    by (simp add: unat_of_nat take_bit_nat_eq_self tag_period_def tag_bits_def)
  ultimately have "take_bit tag_bits (of_nat (n mod tag_period) + 1 :: u64) = of_nat (Suc n mod tag_period)"
    by (simp only: word_unat_eq_iff)
  then show "counts n w \<Longrightarrow> counts (Suc n) (mk (tag w + 1) p)"
    unfolding counts_def tag_mk by (simp only:)
qed

lemma counts_same:
  assumes "counts m w" and "counts n w" and "m \<le> n" and "n - m < tag_period"
  shows "m = n"
proof -
  have lt: "k mod tag_period < 2 ^ 64" for k
    using mod_less_divisor[of tag_period k] by (simp add: tag_period_def tag_bits_def)
  have "(of_nat (m mod tag_period) :: u64) = of_nat (n mod tag_period)" using assms(1,2) by (simp add: counts_def)
  then have "m mod tag_period = n mod tag_period"
    using lt[of m] lt[of n] by (simp add: word_unat_eq_iff unat_of_nat take_bit_nat_eq_self)
  then have "tag_period dvd (n - m)" using assms(3) by (metis mod_eq_dvd_iff_nat)
  then show ?thesis using assms(3,4) by (auto dest: nat_dvd_not_less)
qed

end

text \<open>The two bit operations of both classes, which shift without sign.\<close>

definition pack_tag :: "u64 \<Rightarrow> u64 \<Rightarrow> u64" where
  "pack_tag t p = push_bit 47 (t AND 0x1FFFF) OR (p AND 0x00007FFFFFFFFFFF)"

definition unpack_ptr :: "u64 \<Rightarrow> u64" where "unpack_ptr w = w AND 0x00007FFFFFFFFFFF"
definition unpack_tag :: "u64 \<Rightarrow> u64" where "unpack_tag w = drop_bit 47 w AND 0x1FFFF"

lemma tagged_words_pack: "tagged_words unpack_ptr unpack_tag pack_tag"
proof
  show "unpack_ptr (pack_tag t p) = p" if "user_ptr p" for t p
    using that unfolding unpack_ptr_def pack_tag_def ptr_mask_eq tag_mask_eq user_ptr_def
    by (simp add: take_bit_or take_bit_push_bit)
  show "unpack_tag (pack_tag t p) = take_bit tag_bits t" for t p
    unfolding unpack_tag_def pack_tag_def ptr_mask_eq tag_mask_eq tag_bits_def
    by (rule bit_word_eqI) (auto simp: bit_take_bit_iff bit_drop_bit_eq bit_or_iff bit_push_bit_iff)
  show "a = b" if "unpack_ptr a = unpack_ptr b" "unpack_tag a = unpack_tag b" for a b
  proof (rule bit_word_eqI)
    fix n assume n: "n < LENGTH(64)"
    have "bit (take_bit 47 a) n = bit (take_bit 47 b) n" "bit (take_bit 17 (drop_bit 47 a)) (n - 47) = bit (take_bit 17 (drop_bit 47 b)) (n - 47)"
      using that unfolding unpack_ptr_def unpack_tag_def ptr_mask_eq tag_mask_eq by simp_all
    then show "bit a n = bit b n" using n by (cases "n < 47") (auto simp: bit_take_bit_iff bit_drop_bit_eq)
  qed
  show "user_ptr (unpack_ptr a)" for a
    unfolding user_ptr_def unpack_ptr_def ptr_mask_eq by simp
qed

end
