(* ===== verification/Threads.thy ===== *)
theory Threads
  imports MemoryPool
begin

text \<open>
  What the concurrent algorithms share: who holds the nodes of a shared structure, how many threads stand
  at a place, and linked lists through a function from a node to the next.
\<close>

section \<open>Holding nodes\<close>

text \<open>\<open>U\<close> are the nodes in use, \<open>X\<close> those of the structure and \<open>W t\<close> those that thread \<open>t\<close> has for itself:
  every node in use is at exactly one of these places.\<close>

definition held :: "'p set \<Rightarrow> 'p set \<Rightarrow> (nat \<Rightarrow> 'p set) \<Rightarrow> bool" where
  "held U X W \<longleftrightarrow> (\<forall>p. p \<in> X \<longrightarrow> p \<in> U) \<and> (\<forall>p t. p \<in> W t \<longrightarrow> p \<in> U \<and> p \<notin> X) \<and>
     (\<forall>p t u. p \<in> W t \<longrightarrow> p \<in> W u \<longrightarrow> t = u) \<and> (\<forall>p. p \<in> U \<longrightarrow> p \<notin> X \<longrightarrow> (\<exists>t. p \<in> W t))"

lemma heldI:
  assumes "\<And>p. p \<in> X \<Longrightarrow> p \<in> U" and "\<And>p t. p \<in> W t \<Longrightarrow> p \<in> U \<and> p \<notin> X"
    and "\<And>p t u. p \<in> W t \<Longrightarrow> p \<in> W u \<Longrightarrow> t = u" and "\<And>p. p \<in> U \<Longrightarrow> p \<notin> X \<Longrightarrow> \<exists>t. p \<in> W t"
  shows "held U X W"
  unfolding held_def using assms by blast

lemma heldD:
  assumes "held U X W"
  shows "p \<in> X \<Longrightarrow> p \<in> U" "p \<in> W t \<Longrightarrow> p \<in> U" "p \<in> W t \<Longrightarrow> p \<notin> X" "p \<in> W t \<Longrightarrow> p \<in> W u \<Longrightarrow> t = u"
    "p \<in> U \<Longrightarrow> p \<notin> X \<Longrightarrow> \<exists>t. p \<in> W t"
  using assms unfolding held_def by blast+

lemma held_same: "held U X W \<Longrightarrow> W t = N \<Longrightarrow> held U X (W(t := N))"
  by (metis fun_upd_triv)

text \<open>A change at one thread; what it held besides \<open>p\<close>, it still holds.\<close>

lemma held_change:
  assumes "held U X W" and "W t \<subseteq> {p}" and "N \<subseteq> {p}" and "\<And>q. q \<noteq> p \<Longrightarrow> q \<in> U' \<longleftrightarrow> q \<in> U" "\<And>q. q \<noteq> p \<Longrightarrow> q \<in> X' \<longleftrightarrow> q \<in> X"
    and "\<And>u. u \<noteq> t \<Longrightarrow> p \<notin> W u" and "p \<in> X' \<Longrightarrow> p \<in> U'" "p \<in> N \<Longrightarrow> p \<in> U' \<and> p \<notin> X'" "p \<in> U' \<Longrightarrow> p \<notin> X' \<Longrightarrow> p \<in> N"
  shows "held U' X' (W(t := N))"
proof (rule heldI)
  fix q
  have w: "q \<in> (W(t := N)) u \<longleftrightarrow> q \<in> W u" if "q \<noteq> p" for u
    using assms(2,3) that by auto
  have v: "p \<in> (W(t := N)) u \<longleftrightarrow> u = t \<and> p \<in> N" for u using assms(6) by auto
  show "q \<in> U'" if "q \<in> X'" using that assms(1,4,5,7) by (cases "q = p") (auto dest: heldD)
  show "q \<in> U' \<and> q \<notin> X'" if "q \<in> (W(t := N)) u" for u
  proof (cases "q = p")
    case False
    then show ?thesis using that w[of u] heldD(2,3)[OF assms(1), of q u] assms(4,5) by simp
  qed (use that v assms(8) in auto)
  show "u = u'" if "q \<in> (W(t := N)) u" "q \<in> (W(t := N)) u'" for u u'
  proof (cases "q = p")
    case False
    then show ?thesis using that w heldD(4)[OF assms(1)] by blast
  qed (use that v in auto)
  show "\<exists>u. q \<in> (W(t := N)) u" if "q \<in> U'" "q \<notin> X'"
  proof (cases "q = p")
    case False
    then show ?thesis using that w heldD(5)[OF assms(1), of q] assms(4,5) by blast
  next
    case True
    then show ?thesis using that v assms(9) by blast
  qed
qed

lemma held_alloc: "held U X W \<Longrightarrow> W t = {} \<Longrightarrow> p \<notin> U \<Longrightarrow> held (insert p U) X (W(t := {p}))"
  by (rule held_change) (auto dest: heldD)

lemma held_free: "held U X W \<Longrightarrow> W t = {p} \<Longrightarrow> held (U - {p}) X (W(t := {}))"
  by (rule held_change) (auto dest: heldD)

lemma held_give: "held U X W \<Longrightarrow> W t = {p} \<Longrightarrow> held U (insert p X) (W(t := {}))"
  by (rule held_change) (auto dest: heldD)

lemma held_take: "held U X W \<Longrightarrow> W t = {} \<Longrightarrow> p \<in> X \<Longrightarrow> held U (X - {p}) (W(t := {p}))"
  by (rule held_change) (auto dest: heldD)

section \<open>Counting threads\<close>

definition number :: "('pc \<Rightarrow> bool) \<Rightarrow> (nat \<Rightarrow> 'pc) \<Rightarrow> nat" where
  "number P L = card {t. P (L t)}"

lemma number_move:
  assumes "finite {t. P (L t)}"
  shows "int (number P (L(t := pc))) = int (number P L) - of_bool (P (L t)) + of_bool (P pc)"
proof -
  let ?A = "{u. u \<noteq> t \<and> P (L u)}"
  have f: "finite ?A" using assms by (rule rev_finite_subset) auto
  have a: "{u. P (L u)} = (if P (L t) then insert t ?A else ?A)" by auto
  have b: "{u. P ((L(t := pc)) u)} = (if P pc then insert t ?A else ?A)" by auto
  show ?thesis unfolding number_def a b using f by auto
qed

lemma finite_move: "finite {t. P (L t)} \<Longrightarrow> finite {u. P ((L(t := pc)) u)}"
  by (rule rev_finite_subset[of "insert t {t. P (L t)}"]) auto

lemma finite_imp: "finite {t. P (L t)} \<Longrightarrow> (\<And>pc. Q pc \<Longrightarrow> P pc) \<Longrightarrow> finite {t. Q (L t)}"
  by (rule rev_finite_subset) auto

lemma number_le: "finite {t. P (L t)} \<Longrightarrow> (\<And>pc. Q pc \<Longrightarrow> P pc) \<Longrightarrow> \<not> Q (L u) \<Longrightarrow> number Q L \<le> card ({t. P (L t)} - {u})"
  unfolding number_def by (rule card_mono) auto

lemma number_none: "(\<And>t. \<not> P (L t)) \<Longrightarrow> number P L = 0"
  by (simp add: number_def)

section \<open>Adding up over the threads\<close>

text \<open>The sum of a weight over all threads; only finitely many threads have one.\<close>

definition weighted :: "('pc \<Rightarrow> nat) \<Rightarrow> (nat \<Rightarrow> 'pc) \<Rightarrow> bool" where
  "weighted f L \<longleftrightarrow> finite {t. f (L t) \<noteq> 0}"

definition tally :: "('pc \<Rightarrow> nat) \<Rightarrow> (nat \<Rightarrow> 'pc) \<Rightarrow> nat" where
  "tally f L = (\<Sum>t | f (L t) \<noteq> 0. f (L t))"

lemma tally_split:
  assumes "weighted f L"
  shows "tally f L = f (L t) + (\<Sum>u | u \<noteq> t \<and> f (L u) \<noteq> 0. f (L u))"
proof -
  let ?A = "{u. u \<noteq> t \<and> f (L u) \<noteq> 0}"
  have f: "finite ?A" using assms unfolding weighted_def by (rule rev_finite_subset) auto
  have "{u. f (L u) \<noteq> 0} = (if f (L t) \<noteq> 0 then insert t ?A else ?A)" by auto
  then show ?thesis unfolding tally_def using f by auto
qed

lemma weighted_move: "weighted f L \<Longrightarrow> weighted f (L(t := pc))"
  unfolding weighted_def by (rule rev_finite_subset[of "insert t {t. f (L t) \<noteq> 0}"]) auto

lemma tally_move:
  assumes "weighted f L"
  shows "int (tally f (L(t := pc))) = int (tally f L) - int (f (L t)) + int (f pc)"
proof -
  have "{u. u \<noteq> t \<and> f ((L(t := pc)) u) \<noteq> 0} = {u. u \<noteq> t \<and> f (L u) \<noteq> 0}" by auto
  moreover have "(\<Sum>u | u \<noteq> t \<and> f (L u) \<noteq> 0. f ((L(t := pc)) u)) = (\<Sum>u | u \<noteq> t \<and> f (L u) \<noteq> 0. f (L u))"
    by (rule sum.cong) auto
  ultimately show ?thesis
    using tally_split[OF weighted_move[OF assms], of t pc t] tally_split[OF assms, of t] by simp
qed

lemma tally_ge: "weighted f L \<Longrightarrow> f (L t) \<le> tally f L"
  using tally_split[of f L t] by simp

lemma tally_ge2: "weighted f L \<Longrightarrow> t \<noteq> u \<Longrightarrow> f (L t) + f (L u) \<le> tally f L"
proof -
  assume a: "weighted f L" "t \<noteq> u"
  let ?A = "{v. v \<noteq> t \<and> f (L v) \<noteq> 0}"
  have "finite ?A" using a(1) unfolding weighted_def by (rule rev_finite_subset) auto
  then have "f (L u) \<le> (\<Sum>v\<in>?A. f (L v))" using a(2) by (cases "f (L u) = 0") (auto intro: member_le_sum)
  then show ?thesis using tally_split[OF a(1), of t] by simp
qed

lemma tally_mono:
  assumes "weighted g L" and "\<And>pc. f pc \<le> g pc"
  shows "tally f L \<le> tally g L"
proof -
  have fin: "finite {t. g (L t) \<noteq> 0}" using assms(1) by (simp add: weighted_def)
  have "f (L t) \<noteq> 0 \<Longrightarrow> g (L t) \<noteq> 0" for t using assms(2)[of "L t"] by linarith
  then have sub: "{t. f (L t) \<noteq> 0} \<subseteq> {t. g (L t) \<noteq> 0}" by blast
  then have "tally f L = (\<Sum>t | g (L t) \<noteq> 0. f (L t))"
    unfolding tally_def using fin by (intro sum.mono_neutral_left) auto
  also have "\<dots> \<le> tally g L" unfolding tally_def using assms(2) by (intro sum_mono)
  finally show ?thesis .
qed

lemma tally_add:
  assumes "weighted f L" "weighted g L"
  shows "tally (\<lambda>pc. f pc + g pc) L = tally f L + tally g L"
proof -
  let ?A = "{t. f (L t) \<noteq> 0} \<union> {t. g (L t) \<noteq> 0}"
  have fin: "finite ?A" using assms by (simp add: weighted_def)
  have eq: "tally h L = (\<Sum>t\<in>?A. h (L t))" if "\<And>t. t \<notin> ?A \<Longrightarrow> h (L t) = 0" "h \<in> {f, g, \<lambda>pc. f pc + g pc}" for h
    unfolding tally_def using that fin by (intro sum.mono_neutral_left) auto
  have "tally (\<lambda>pc. f pc + g pc) L = (\<Sum>t\<in>?A. f (L t) + g (L t))" by (rule eq) auto
  moreover have "tally f L = (\<Sum>t\<in>?A. f (L t))" "tally g L = (\<Sum>t\<in>?A. g (L t))" by (rule eq; auto)+
  ultimately show ?thesis by (simp add: sum.distrib)
qed

text \<open>When one thread has all the weight of \<open>g\<close>, it has all that of \<open>f\<close>.\<close>

lemma tally_unique:
  assumes "weighted g L" and "tally g L \<le> g (L t)" and "\<And>pc. g pc = 0 \<Longrightarrow> f pc = 0"
  shows "tally f L = f (L t)"
proof -
  have "f (L u) = 0" if "u \<noteq> t" for u using tally_ge2[OF assms(1), of t u] that assms(2,3) by simp
  then have e: "f (L u) \<noteq> 0 \<longleftrightarrow> u = t \<and> f (L t) \<noteq> 0" for u by (cases "u = t") auto
  have "{u. f (L u) \<noteq> 0} = (if f (L t) = 0 then {} else {t})"
  proof (rule set_eqI)
    fix u
    show "u \<in> {u. f (L u) \<noteq> 0} \<longleftrightarrow> u \<in> (if f (L t) = 0 then {} else {t})"
      unfolding mem_Collect_eq e[of u] by simp
  qed
  then show ?thesis by (simp add: tally_def)
qed

lemma tally_none: "(\<And>t. f (L t) = 0) \<Longrightarrow> tally f L = 0"
  by (simp add: tally_def)

section \<open>Linked lists\<close>

text \<open>A non-empty list of nodes, each of which leads to the next; null ends it.\<close>

fun linked_from :: "(u64 \<Rightarrow> u64) \<Rightarrow> u64 list \<Rightarrow> bool" where
  "linked_from nx [] \<longleftrightarrow> False"
| "linked_from nx [x] \<longleftrightarrow> nx x = 0"
| "linked_from nx (x # y # ys) \<longleftrightarrow> nx x = y \<and> y \<noteq> 0 \<and> linked_from nx (y # ys)"

lemma linked_from_ne: "linked_from nx xs \<Longrightarrow> xs \<noteq> []"
  by auto

lemma linked_from_cong: "(\<And>p. p \<in> set xs \<Longrightarrow> nx p = nx' p) \<Longrightarrow> linked_from nx xs = linked_from nx' xs"
  by (induction nx xs rule: linked_from.induct) auto

lemma linked_from_last: "linked_from nx xs \<Longrightarrow> nx (last xs) = 0"
  by (induction nx xs rule: linked_from.induct) auto

lemma linked_from_end: "linked_from nx xs \<Longrightarrow> x \<in> set xs \<Longrightarrow> nx x = 0 \<Longrightarrow> x = last xs"
  by (induction nx xs rule: linked_from.induct) auto

lemma linked_from_succ: "linked_from nx xs \<Longrightarrow> x \<in> set xs \<Longrightarrow> nx x \<noteq> 0 \<Longrightarrow> nx x \<in> set (tl xs)"
  by (induction nx xs rule: linked_from.induct) (auto split: if_splits)

lemma linked_from_hd: "linked_from nx xs \<Longrightarrow> tl xs \<noteq> [] \<Longrightarrow> nx (hd xs) = hd (tl xs) \<and> hd (tl xs) \<noteq> 0 \<and> linked_from nx (tl xs)"
  by (cases "(nx, xs)" rule: linked_from.cases) auto

lemma linked_from_hd0: "linked_from nx xs \<Longrightarrow> nx (hd xs) \<noteq> 0 \<longleftrightarrow> tl xs \<noteq> []"
  by (cases "(nx, xs)" rule: linked_from.cases) auto

lemma linked_from_append:
  "linked_from nx xs \<Longrightarrow> distinct xs \<Longrightarrow> p \<notin> set xs \<Longrightarrow> p \<noteq> 0 \<Longrightarrow> nx p = 0 \<Longrightarrow> linked_from (nx(last xs := p)) (xs @ [p])"
proof (induction nx xs rule: linked_from.induct)
  case (3 nx x y ys)
  let ?nx = "nx(last (y # ys) := p)"
  have ne: "x \<noteq> last (y # ys)" using 3(3) by (metis distinct.simps(2) last_in_set list.distinct(1))
  then have "?nx x = y" using 3(2) by simp
  moreover have "linked_from ?nx ((y # ys) @ [p])" by (rule 3(1)) (use 3(2-6) in simp_all)
  moreover have "y \<noteq> 0" using 3(2) by simp
  ultimately have "linked_from ?nx (x # y # ys @ [p])" by (simp only: linked_from.simps append_Cons not_False_eq_True simp_thms)
  moreover have "last (x # y # ys) = last (y # ys)" by simp
  ultimately show ?case by (simp only: append_Cons)
qed auto

section \<open>Runs of several threads\<close>

text \<open>A step names its thread and an event; \<open>G\<close> says which thread may step where.\<close>

inductive thread_run :: "('c \<Rightarrow> nat \<times> 'e \<Rightarrow> 'c \<Rightarrow> bool) \<Rightarrow> ('c \<Rightarrow> nat \<Rightarrow> bool) \<Rightarrow> 'c \<Rightarrow> (nat \<times> 'e) list \<Rightarrow> 'c \<Rightarrow> bool"
  for R G where
  none: "thread_run R G c [] c"
| more: "thread_run R G c es c' \<Longrightarrow> G c' t \<Longrightarrow> R c' (t, e) c'' \<Longrightarrow> thread_run R G c (es @ [(t, e)]) c''"

lemma thread_run_trans:
  assumes "thread_run R G b fs c" and "thread_run R G a es b"
  shows "thread_run R G a (es @ fs) c"
  using assms
proof (induction rule: thread_run.induct)
  case (more c es' c' t e c'')
  from more(2,3) thread_run.more[OF more(4)[OF more(5)]] show ?case by simp
qed simp

lemma thread_run_one: "G c t \<Longrightarrow> R c (t, e) c' \<Longrightarrow> thread_run R G c [(t, e)] c'"
  using thread_run.more[OF thread_run.none, of G c t R e c'] by simp

lemma thread_run_reach: "\<exists>es. thread_run R G a es b \<Longrightarrow> \<exists>es. thread_run R G b es c \<Longrightarrow> \<exists>es. thread_run R G a es c"
  by (elim exE) (rule exI, rule thread_run_trans)

text \<open>The events of a run, one after the other, on an abstract state.\<close>

fun act_all :: "('e \<Rightarrow> 'a \<Rightarrow> 'a option) \<Rightarrow> 'e list \<Rightarrow> 'a \<Rightarrow> 'a option" where
  "act_all f [] a = Some a"
| "act_all f (e # es) a = (case f e a of None \<Rightarrow> None | Some a' \<Rightarrow> act_all f es a')"

lemma act_all_append: "act_all f (es @ fs) a = (case act_all f es a of None \<Rightarrow> None | Some a' \<Rightarrow> act_all f fs a')"
  by (induction es arbitrary: a) (auto split: option.splits)

text \<open>When every step from a state with a view is a step of the abstract state, so is every run.\<close>

locale thread_simulation =
  fixes step :: "'c \<Rightarrow> nat \<times> 'e \<Rightarrow> 'c \<Rightarrow> bool" and guard :: "'c \<Rightarrow> nat \<Rightarrow> bool" and view :: "'v \<Rightarrow> 'c \<Rightarrow> bool"
    and absf :: "'v \<Rightarrow> 'c \<Rightarrow> 'a" and act :: "nat \<times> 'e \<Rightarrow> 'a \<Rightarrow> 'a option"
  assumes step_simulates: "view v c \<Longrightarrow> step c (t, e) c' \<Longrightarrow> guard c t \<Longrightarrow>
    \<exists>w. view w c' \<and> act (t, e) (absf v c) = Some (absf w c')"
begin

lemma run_simulates:
  "thread_run step guard c es c' \<Longrightarrow> view v c \<Longrightarrow> \<exists>w. view w c' \<and> act_all act es (absf v c) = Some (absf w c')"
proof (induction rule: thread_run.induct)
  case (more c es c' t e c'')
  then obtain w where w: "view w c'" "act_all act es (absf v c) = Some (absf w c')" by blast
  from step_simulates[OF w(1) more(3,2)] w(2) show ?case by (auto simp: act_all_append)
qed auto

end

end
