(* ===== verification/LockFreeStack.thy ===== *)
theory LockFreeStack
  imports TaggedPointer Threads
begin

text \<open>
  \<open>LockFreeStack\<close>, the stack of free session indices, under any interleaving of threads: each atomic
  access to shared memory is a step, and a thread's local variables are its program counter. The
  nodes come from \<open>s_nodePool\<close>, which never unmaps a block and hands out only blocks that are not in
  use; so a stale read of a freed node is harmless, and its result is dropped by the exchange.
\<close>

section \<open>State\<close>

record 'a snode =
  sn_Data :: 'a
  sn_Next :: u64

text \<open>\<open>s_node\<close> are the contents of the pool's blocks, \<open>s_used\<close> the blocks it has handed out. \<open>s_updates\<close> is
  a history variable: it counts the successful exchanges of \<open>_Top\<close>.\<close>

record 'a lf_stack =
  s_Top :: u64
  s_node :: "u64 \<Rightarrow> 'a snode"
  s_used :: "u64 set"
  s_updates :: nat

definition Stack_GetPointer :: "u64 \<Rightarrow> u64" where
  "Stack_GetPointer taggedPtr = taggedPtr AND 0x00007fffffffffff"

definition Stack_GetTag :: "u64 \<Rightarrow> u64" where
  "Stack_GetTag taggedPtr = drop_bit 47 taggedPtr AND 0x1ffff"

definition Stack_MakeTagged :: "u64 \<Rightarrow> u64 \<Rightarrow> u64" where
  "Stack_MakeTagged tag ptr = push_bit 47 (tag AND 0x1ffff) OR (ptr AND 0x00007fffffffffff)"

interpretation sw: tagged_words Stack_GetPointer Stack_GetTag Stack_MakeTagged
proof -
  have "Stack_GetPointer = unpack_ptr" "Stack_GetTag = unpack_tag" "Stack_MakeTagged = pack_tag"
    by (simp_all add: fun_eq_iff Stack_GetPointer_def Stack_GetTag_def Stack_MakeTagged_def unpack_ptr_def
        unpack_tag_def pack_tag_def)
  then show "tagged_words Stack_GetPointer Stack_GetTag Stack_MakeTagged" using tagged_words_pack by simp
qed

text \<open>Where a thread stands: \<open>PushLoad\<close> is before line 66, \<open>PushLink\<close> before line 68, \<open>PushSwap\<close> before the
  exchange of line 72; \<open>PopLoad\<close>, \<open>PopNext\<close>, \<open>PopSwap\<close>, \<open>PopData\<close>, \<open>PopFree\<close> are before lines 85, 90, 93, 95
  and 96. The words are \<open>newNode\<close>, \<open>currentTopTagged\<close>, \<open>oldTopTagged\<close> and \<open>nextTopPtr\<close>; the number next to
  a copy of \<open>_Top\<close> is the history variable at the time it was read.\<close>

datatype 'a stack_pc = Idle
  | PushLoad u64 | PushLink u64 u64 nat | PushSwap u64 u64 nat
  | PopLoad | PopNext u64 nat | PopSwap u64 u64 nat | PopData u64 | PopFree u64 'a

datatype 'a stack_event = Silent | Pushed 'a | Popped 'a | WasEmpty | Returned 'a

text \<open>A call by an idle thread; the second argument of a push is the block that the pool returns.\<close>

datatype 'a stack_call = CallPush 'a u64 | CallPop

definition stack_init :: "(u64 \<Rightarrow> 'a snode) \<Rightarrow> 'a lf_stack" where
  "stack_init m = \<lparr>s_Top = 0, s_node = m, s_used = {}, s_updates = 0\<rparr>"

definition exchange_Top :: "u64 \<Rightarrow> 'a lf_stack \<Rightarrow> 'a lf_stack" where
  "exchange_Top w s = s\<lparr>s_Top := w, s_updates := Suc (s_updates s)\<rparr>"

section \<open>Steps\<close>

fun stack_start :: "'a stack_call \<Rightarrow> 'a lf_stack \<Rightarrow> ('a stack_pc \<times> 'a lf_stack) option" where
  "stack_start (CallPush d p) s =
     (if p \<noteq> 0 \<and> user_ptr p \<and> p \<notin> s_used s
      then Some (PushLoad p, s\<lparr>s_used := insert p (s_used s), s_node := (s_node s)(p := (s_node s p)\<lparr>sn_Data := d\<rparr>)\<rparr>)
      else None)"
| "stack_start CallPop s = Some (PopLoad, s)"

fun Push_step :: "'a stack_pc \<Rightarrow> 'a lf_stack \<Rightarrow> ('a stack_pc \<times> 'a lf_stack \<times> 'a stack_event) option" where
  "Push_step (PushLoad p) s = Some (PushLink p (s_Top s) (s_updates s), s, Silent)"
| "Push_step (PushLink p ctop n) s =
     Some (PushSwap p ctop n, s\<lparr>s_node := (s_node s)(p := (s_node s p)\<lparr>sn_Next := Stack_GetPointer ctop\<rparr>)\<rparr>, Silent)"
| "Push_step (PushSwap p ctop n) s =
     (if s_Top s = ctop
      then Some (Idle, exchange_Top (Stack_MakeTagged (Stack_GetTag ctop + 1) p) s, Pushed (sn_Data (s_node s p)))
      else Some (PushLoad p, s, Silent))"
| "Push_step _ s = None"

fun Pop_step :: "'a stack_pc \<Rightarrow> 'a lf_stack \<Rightarrow> ('a stack_pc \<times> 'a lf_stack \<times> 'a stack_event) option" where
  "Pop_step PopLoad s =
     (if Stack_GetPointer (s_Top s) = 0 then Some (Idle, s, WasEmpty)
      else Some (PopNext (s_Top s) (s_updates s), s, Silent))"
| "Pop_step (PopNext old n) s = Some (PopSwap old (sn_Next (s_node s (Stack_GetPointer old))) n, s, Silent)"
| "Pop_step (PopSwap old nxt n) s =
     (if s_Top s = old
      then Some (PopData (Stack_GetPointer old), exchange_Top (Stack_MakeTagged (Stack_GetTag old + 1) nxt) s,
        Popped (sn_Data (s_node s (Stack_GetPointer old))))
      else Some (PopLoad, s, Silent))"
| "Pop_step (PopData p) s = Some (PopFree p (sn_Data (s_node s p)), s, Silent)"
| "Pop_step (PopFree p d) s = Some (Idle, s\<lparr>s_used := s_used s - {p}\<rparr>, Returned d)"
| "Pop_step _ s = None"

text \<open>A step of one thread: a call when it is idle, else its next access. The pool is shared by every stack
  of the same element type, so the blocks that this stack does not use change at any time.\<close>

type_synonym 'a stack_conf = "'a lf_stack \<times> (nat \<Rightarrow> 'a stack_pc)"

inductive stack_step :: "'a stack_conf \<Rightarrow> nat \<times> 'a stack_event \<Rightarrow> 'a stack_conf \<Rightarrow> bool" where
  call: "L t = Idle \<Longrightarrow> stack_start c s = Some (pc, s') \<Longrightarrow> stack_step (s, L) (t, Silent) (s', L(t := pc))"
| push: "Push_step (L t) s = Some (pc, s', e) \<Longrightarrow> stack_step (s, L) (t, e) (s', L(t := pc))"
| pop: "Pop_step (L t) s = Some (pc, s', e) \<Longrightarrow> stack_step (s, L) (t, e) (s', L(t := pc))"
| other: "(\<And>p. p \<in> s_used s \<Longrightarrow> m p = s_node s p) \<Longrightarrow> stack_step (s, L) (t, Silent) (s\<lparr>s_node := m\<rparr>, L)"

inductive_cases stack_stepE: "stack_step (s, L) (t, e) c'"

abbreviation "stack_run \<equiv> thread_run stack_step"

text \<open>\<open>~LockFreeStack\<close>, when no thread uses the stack any more: the nodes in the order they are freed;
  the fuel bounds their number.\<close>

fun Stack_destruct :: "nat \<Rightarrow> u64 \<Rightarrow> 'a lf_stack \<Rightarrow> 'a lf_stack" where
  "Stack_destruct 0 current s = s"
| "Stack_destruct (Suc n) current s =
     (if current = 0 then s
      else Stack_destruct n (sn_Next (s_node s current)) (s\<lparr>s_used := s_used s - {current}\<rparr>))"

section \<open>The abstract stack\<close>

text \<open>A list, and for each thread the value it has popped and not returned yet.\<close>

type_synonym 'a stack_spec = "'a list \<times> (nat \<Rightarrow> 'a option)"

fun spec_do :: "nat \<times> 'a stack_event \<Rightarrow> 'a stack_spec \<Rightarrow> 'a stack_spec option" where
  "spec_do (t, Silent) (xs, P) = Some (xs, P)"
| "spec_do (t, Pushed d) (xs, P) = Some (d # xs, P)"
| "spec_do (t, Popped d) (xs, P) =
     (case xs of x # ys \<Rightarrow> if x = d \<and> P t = None then Some (ys, P(t := Some d)) else None | [] \<Rightarrow> None)"
| "spec_do (t, WasEmpty) (xs, P) = (if xs = [] then Some (xs, P) else None)"
| "spec_do (t, Returned d) (xs, P) = (if P t = Some d then Some (xs, P(t := None)) else None)"

abbreviation "spec_run \<equiv> act_all spec_do"

lemma spec_Silent [simp]: "spec_do (t, Silent) a = Some a"
  by (cases a) simp

section \<open>The invariant\<close>

fun linked :: "(u64 \<Rightarrow> 'a snode) \<Rightarrow> u64 \<Rightarrow> u64 list \<Rightarrow> bool" where
  "linked h p [] \<longleftrightarrow> p = 0"
| "linked h p (x # xs) \<longleftrightarrow> p = x \<and> x \<noteq> 0 \<and> linked h (sn_Next (h x)) xs"

fun owned :: "'a stack_pc \<Rightarrow> u64 set" where
  "owned (PushLoad p) = {p}"
| "owned (PushLink p ctop n) = {p}"
| "owned (PushSwap p ctop n) = {p}"
| "owned (PopData p) = {p}"
| "owned (PopFree p d) = {p}"
| "owned _ = {}"

definition snap_ok :: "'a lf_stack \<Rightarrow> u64 \<Rightarrow> nat \<Rightarrow> bool" where
  "snap_ok s w n \<longleftrightarrow> n \<le> s_updates s \<and> sw.counts n w \<and> (n = s_updates s \<longrightarrow> w = s_Top s)"

fun pc_ok :: "'a lf_stack \<Rightarrow> 'a stack_pc \<Rightarrow> bool" where
  "pc_ok s (PushLink p ctop n) \<longleftrightarrow> snap_ok s ctop n"
| "pc_ok s (PushSwap p ctop n) \<longleftrightarrow> snap_ok s ctop n \<and> sn_Next (s_node s p) = Stack_GetPointer ctop"
| "pc_ok s (PopNext old n) \<longleftrightarrow> snap_ok s old n \<and> Stack_GetPointer old \<noteq> 0"
| "pc_ok s (PopSwap old nxt n) \<longleftrightarrow> snap_ok s old n \<and> Stack_GetPointer old \<noteq> 0 \<and>
     (n = s_updates s \<longrightarrow> nxt = sn_Next (s_node s (Stack_GetPointer old)))"
| "pc_ok s _ \<longleftrightarrow> True"

fun pending :: "'a lf_stack \<Rightarrow> 'a stack_pc \<Rightarrow> 'a option" where
  "pending s (PopData p) = Some (sn_Data (s_node s p))"
| "pending s (PopFree p d) = Some d"
| "pending s _ = None"

definition stack_view :: "u64 list \<Rightarrow> 'a stack_conf \<Rightarrow> bool" where
  "stack_view xs c \<longleftrightarrow> (case c of (s, L) \<Rightarrow>
     0 \<notin> s_used s \<and> (\<forall>p\<in>s_used s. user_ptr p) \<and> sw.counts (s_updates s) (s_Top s) \<and>
     linked (s_node s) (Stack_GetPointer (s_Top s)) xs \<and> distinct xs \<and> set xs \<subseteq> s_used s \<and>
     (\<forall>t. owned (L t) \<subseteq> s_used s - set xs) \<and> (\<forall>t u. t \<noteq> u \<longrightarrow> owned (L t) \<inter> owned (L u) = {}) \<and>
     (\<forall>t. pc_ok s (L t)) \<and> (\<forall>p. p \<in> s_used s \<longrightarrow> p \<in> set xs \<or> (\<exists>t. p \<in> owned (L t))))"

definition stack_abs :: "u64 list \<Rightarrow> 'a stack_conf \<Rightarrow> 'a stack_spec" where
  "stack_abs xs c = (case c of (s, L) \<Rightarrow> (map (\<lambda>p. sn_Data (s_node s p)) xs, \<lambda>t. pending s (L t)))"

text \<open>The guard under which the tag protects the exchange of a pop: fewer than \<open>2 ^ 17\<close> updates since the
  copy. The exchange of a push needs no protection.\<close>

fun exchange_fresh :: "'a stack_conf \<Rightarrow> nat \<Rightarrow> bool" where
  "exchange_fresh (s, L) t \<longleftrightarrow> (case L t of PopSwap old nxt n \<Rightarrow> s_updates s - n < tag_period | _ \<Rightarrow> True)"

section \<open>Every step keeps the invariant and does what the abstract stack does\<close>

lemma stack_viewD:
  assumes "stack_view xs (s, L)"
  shows "0 \<notin> s_used s" "p \<in> s_used s \<Longrightarrow> user_ptr p" "sw.counts (s_updates s) (s_Top s)"
    "linked (s_node s) (Stack_GetPointer (s_Top s)) xs" "distinct xs" "set xs \<subseteq> s_used s"
    "p \<in> owned (L t) \<Longrightarrow> p \<in> s_used s \<and> p \<notin> set xs" "t \<noteq> u \<Longrightarrow> p \<in> owned (L t) \<Longrightarrow> p \<notin> owned (L u)"
    "pc_ok s (L t)" "p \<in> s_used s \<Longrightarrow> p \<in> set xs \<or> (\<exists>t. p \<in> owned (L t))"
proof -
  show "0 \<notin> s_used s" "p \<in> s_used s \<Longrightarrow> user_ptr p" "sw.counts (s_updates s) (s_Top s)"
    "linked (s_node s) (Stack_GetPointer (s_Top s)) xs" "distinct xs" "set xs \<subseteq> s_used s"
    "p \<in> owned (L t) \<Longrightarrow> p \<in> s_used s \<and> p \<notin> set xs" "pc_ok s (L t)"
    "p \<in> s_used s \<Longrightarrow> p \<in> set xs \<or> (\<exists>t. p \<in> owned (L t))"
    using assms by (auto simp: stack_view_def)
  have "t \<noteq> u \<Longrightarrow> owned (L t) \<inter> owned (L u) = {}" using assms by (simp add: stack_view_def)
  then show "t \<noteq> u \<Longrightarrow> p \<in> owned (L t) \<Longrightarrow> p \<notin> owned (L u)" by blast
qed

lemma linked_update: "p \<notin> set xs \<Longrightarrow> linked (h(p := v)) q xs = linked h q xs"
  by (induction xs arbitrary: q) auto

lemma linked_head: "linked h p xs \<Longrightarrow> p \<noteq> 0 \<Longrightarrow> \<exists>ys. xs = p # ys \<and> linked h (sn_Next (h p)) ys"
  by (cases xs) auto

lemma snap_ok_now: "stack_view xs (s, L) \<Longrightarrow> snap_ok s (s_Top s) (s_updates s)"
  by (simp add: snap_ok_def stack_viewD(3))

lemma held_moved:
  assumes "stack_view xs (s, L)" and "q \<in> s_used s" and "owned (L t) \<subseteq> {p}" and "set xs \<subseteq> insert p (set ys)"
    and "q = p \<Longrightarrow> p \<in> set ys \<or> p \<in> owned pc"
  shows "q \<in> set ys \<or> (\<exists>u. q \<in> owned ((L(t := pc)) u))"
proof (cases "q = p")
  case True
  then show ?thesis using assms(5) by (metis fun_upd_same)
next
  case False
  consider "q \<in> set xs" | u where "q \<in> owned (L u)" using stack_viewD(10)[OF assms(1,2)] by blast
  then show ?thesis
  proof cases
    case 1
    then show ?thesis using assms(4) False by auto
  next
    case (2 u)
    then have "u \<noteq> t" using assms(3) False by auto
    then show ?thesis using 2 by (metis fun_upd_other)
  qed
qed

text \<open>A step that only moves the program counter.\<close>

lemma view_move:
  assumes v: "stack_view xs (s, L)" and o: "owned pc = owned (L t)" and k: "pc_ok s pc" and p: "pending s pc = pending s (L t)"
  shows "stack_view xs (s, L(t := pc)) \<and> stack_abs xs (s, L(t := pc)) = stack_abs xs (s, L)"
proof -
  have ow: "owned ((L(t := pc)) u) = owned (L u)" for u using o by simp
  have "stack_view xs (s, L(t := pc))" using v k unfolding stack_view_def prod.case ow by auto
  moreover have "(\<lambda>u. pending s ((L(t := pc)) u)) = (\<lambda>u. pending s (L u))" using p by auto
  ultimately show ?thesis by (simp only: stack_abs_def prod.case)
qed

text \<open>A write to a node that the thread owns does not concern the others.\<close>

lemma write_others:
  assumes v: "stack_view xs (s, L)" and p: "p \<in> owned (L t)" and u: "u \<noteq> t"
  shows "pc_ok (s\<lparr>s_node := (s_node s)(p := v)\<rparr>) (L u)"
    and "pending (s\<lparr>s_node := (s_node s)(p := v)\<rparr>) (L u) = pending s (L u)"
proof -
  have nu: "p \<notin> owned (L u)" using stack_viewD(8)[OF v, of t u p] p u by simp
  have np: "p \<notin> set xs" using stack_viewD(7)[OF v p] by simp
  have hd: "Stack_GetPointer (s_Top s) \<noteq> p" if "Stack_GetPointer (s_Top s) \<noteq> 0"
    using linked_head[OF stack_viewD(4)[OF v] that] np by auto
  show "pc_ok (s\<lparr>s_node := (s_node s)(p := v)\<rparr>) (L u)"
    using stack_viewD(9)[OF v, of u] nu hd by (cases "L u") (auto simp: snap_ok_def)
  show "pending (s\<lparr>s_node := (s_node s)(p := v)\<rparr>) (L u) = pending s (L u)"
    using nu by (cases "L u") auto
qed

lemma view_write:
  assumes v: "stack_view xs (s, L)" and p: "p \<in> owned (L t)" and o: "owned pc = owned (L t)"
    and k: "pc_ok (s\<lparr>s_node := (s_node s)(p := w)\<rparr>) pc" and q: "pending (s\<lparr>s_node := (s_node s)(p := w)\<rparr>) pc = pending s (L t)"
  shows "stack_view xs (s\<lparr>s_node := (s_node s)(p := w)\<rparr>, L(t := pc)) \<and>
    stack_abs xs (s\<lparr>s_node := (s_node s)(p := w)\<rparr>, L(t := pc)) = stack_abs xs (s, L)"
proof -
  let ?s = "s\<lparr>s_node := (s_node s)(p := w)\<rparr>"
  note W = write_others[OF v p, where v = w]
  have np: "p \<notin> set xs" using stack_viewD(7)[OF v p] by simp
  have ow: "owned ((L(t := pc)) u) = owned (L u)" for u using o by simp
  have pk: "pc_ok ?s ((L(t := pc)) u)" for u using k W(1)[of u] by (cases "u = t") auto
  have "stack_view xs (?s, L(t := pc))"
    using v pk np unfolding stack_view_def prod.case ow by (simp add: linked_update)
  moreover have "(\<lambda>u. pending ?s ((L(t := pc)) u)) = (\<lambda>u. pending s (L u))" using q W(2) by auto
  moreover have "map (\<lambda>x. sn_Data (s_node ?s x)) xs = map (\<lambda>x. sn_Data (s_node s x)) xs" using np by auto
  ultimately show ?thesis by (simp only: stack_abs_def prod.case)
qed

text \<open>Nor do the blocks that the stack does not use.\<close>

lemma linked_cong: "(\<And>p. p \<in> set xs \<Longrightarrow> g p = h p) \<Longrightarrow> linked g q xs = linked h q xs"
  by (induction xs arbitrary: q) auto

lemma view_other:
  assumes v: "stack_view xs (s, L)" and m: "\<And>p. p \<in> s_used s \<Longrightarrow> m p = s_node s p"
  shows "stack_view xs (s\<lparr>s_node := m\<rparr>, L) \<and> stack_abs xs (s\<lparr>s_node := m\<rparr>, L) = stack_abs xs (s, L)"
proof -
  have o: "m p = s_node s p" if "p \<in> owned (L t)" for p t using m stack_viewD(7)[OF v that] by simp
  have x: "m p = s_node s p" if "p \<in> set xs" for p using m stack_viewD(6)[OF v] that by auto
  have hd: "m (Stack_GetPointer (s_Top s)) = s_node s (Stack_GetPointer (s_Top s))" if "Stack_GetPointer (s_Top s) \<noteq> 0"
    using linked_head[OF stack_viewD(4)[OF v] that] x by auto
  have pk: "pc_ok (s\<lparr>s_node := m\<rparr>) (L u)" for u
    using stack_viewD(9)[OF v, of u] o[of _ u] hd by (cases "L u") (auto simp: snap_ok_def)
  have "linked m q xs = linked (s_node s) q xs" for q using x by (rule linked_cong)
  then have "stack_view xs (s\<lparr>s_node := m\<rparr>, L)" using v pk unfolding stack_view_def by simp
  moreover have "pending (s\<lparr>s_node := m\<rparr>) (L u) = pending s (L u)" for u using o[of _ u] by (cases "L u") auto
  moreover have "map (\<lambda>p. sn_Data (m p)) xs = map (\<lambda>p. sn_Data (s_node s p)) xs" using x by simp
  ultimately show ?thesis by (simp add: stack_abs_def)
qed

text \<open>An exchange makes every copy of the top an old one.\<close>

lemma pc_ok_exchange: "pc_ok s pc \<Longrightarrow> pc_ok (exchange_Top w s) pc"
  by (cases pc) (auto simp: exchange_Top_def snap_ok_def)

lemma pending_exchange [simp]: "pending (exchange_Top w s) pc = pending s pc"
  by (cases pc) (auto simp: exchange_Top_def)

lemma exchange_simps [simp]: "s_node (exchange_Top w s) = s_node s" "s_used (exchange_Top w s) = s_used s"
  "s_Top (exchange_Top w s) = w" "s_updates (exchange_Top w s) = Suc (s_updates s)"
  by (simp_all add: exchange_Top_def)

lemma copy_current:
  assumes v: "stack_view xs (s, L)" and k: "snap_ok s w n" and e: "s_Top s = w" and f: "s_updates s - n < tag_period"
  shows "n = s_updates s"
  using sw.counts_same[of n w "s_updates s"] k e f stack_viewD(3)[OF v] by (simp add: snap_ok_def)

lemma push_exchange:
  assumes v: "stack_view xs (s, L)" and pc: "L t = PushSwap p ctop n" and e: "s_Top s = ctop"
  defines "s' \<equiv> exchange_Top (Stack_MakeTagged (Stack_GetTag ctop + 1) p) s"
  shows "stack_view (p # xs) (s', L(t := Idle))"
    and "spec_do (t, Pushed (sn_Data (s_node s p))) (stack_abs xs (s, L)) = Some (stack_abs (p # xs) (s', L(t := Idle)))"
proof -
  have p: "p \<in> s_used s" "p \<notin> set xs" using stack_viewD(7)[OF v, of p t] pc by simp_all
  have nx: "sn_Next (s_node s p) = Stack_GetPointer (s_Top s)" using stack_viewD(9)[OF v, of t] pc e by simp
  have p0: "p \<noteq> 0" using p(1) stack_viewD(1)[OF v] by metis
  have tp: "Stack_GetPointer (s_Top s') = p" using stack_viewD(2)[OF v p(1)] by (simp add: s'_def sw.ptr_mk)
  have ct: "sw.counts (Suc (s_updates s)) (s_Top s')"
    using sw.counts_mk[OF stack_viewD(3)[OF v]] e by (simp add: s'_def)
  have ow: "owned ((L(t := Idle)) u) \<subseteq> s_used s - set (p # xs)" for u
    using stack_viewD(7)[OF v, of _ u] stack_viewD(8)[OF v, of t u p] pc by auto
  have oo: "u \<noteq> u' \<Longrightarrow> owned ((L(t := Idle)) u) \<inter> owned ((L(t := Idle)) u') = {}" for u u'
    using stack_viewD(8)[OF v, of u u'] by auto
  have pk: "pc_ok s' ((L(t := Idle)) u)" for u using pc_ok_exchange[OF stack_viewD(9)[OF v, of u]] by (simp add: s'_def)
  have nl: "q \<in> s_used s \<Longrightarrow> q \<in> set (p # xs) \<or> (\<exists>u. q \<in> owned ((L(t := Idle)) u))" for q
    by (rule held_moved[OF v]) (use pc in auto)
  have ch: "linked (s_node s) p (p # xs)" using p0 nx stack_viewD(4)[OF v] by simp
  show "stack_view (p # xs) (s', L(t := Idle))"
    unfolding stack_view_def prod.case tp
    by (intro conjI allI impI) (use v p ct ow oo pk ch nl in \<open>simp_all add: stack_view_def s'_def\<close>)
  have "(\<lambda>u. pending s' ((L(t := Idle)) u)) = (\<lambda>u. pending s (L u))" using pc by (auto simp: s'_def)
  then show "spec_do (t, Pushed (sn_Data (s_node s p))) (stack_abs xs (s, L)) = Some (stack_abs (p # xs) (s', L(t := Idle)))"
    by (simp add: stack_abs_def s'_def)
qed

lemma pop_exchange:
  assumes v: "stack_view xs (s, L)" and pc: "L t = PopSwap old nxt n" and e: "s_Top s = old" and f: "s_updates s - n < tag_period"
  defines "p \<equiv> Stack_GetPointer old"
  defines "s' \<equiv> exchange_Top (Stack_MakeTagged (Stack_GetTag old + 1) nxt) s"
  shows "\<exists>ys. stack_view ys (s', L(t := PopData p)) \<and>
    spec_do (t, Popped (sn_Data (s_node s p))) (stack_abs xs (s, L)) = Some (stack_abs ys (s', L(t := PopData p)))"
proof -
  have k: "snap_ok s old n" "p \<noteq> 0" "n = s_updates s \<longrightarrow> nxt = sn_Next (s_node s p)"
    using stack_viewD(9)[OF v, of t] pc by (simp_all add: p_def)
  have nx: "nxt = sn_Next (s_node s p)" using copy_current[OF v k(1) e f] k(3) by simp
  obtain ys where ys: "xs = p # ys" "linked (s_node s) nxt ys"
    using linked_head[OF stack_viewD(4)[OF v]] k(2) e nx by (auto simp: p_def)
  have un: "user_ptr nxt" using ys stack_viewD(2)[OF v, of nxt] stack_viewD(6)[OF v] by (cases ys) auto
  have pu: "p \<in> s_used s" "p \<notin> set ys" using stack_viewD(5,6)[OF v] ys(1) by auto
  have ct: "sw.counts (Suc (s_updates s)) (s_Top s')"
    using sw.counts_mk[OF stack_viewD(3)[OF v]] e by (simp add: s'_def)
  have ow: "owned ((L(t := PopData p)) u) \<subseteq> s_used s - set ys" for u
    using stack_viewD(7)[OF v, of _ u] ys(1) pu by auto
  have px: "p \<notin> owned (L u)" for u using stack_viewD(7)[OF v, of p u] ys(1) by auto
  have oo: "u \<noteq> u' \<Longrightarrow> owned ((L(t := PopData p)) u) \<inter> owned ((L(t := PopData p)) u') = {}" for u u'
    using stack_viewD(8)[OF v, of u u'] px by auto
  have pk: "pc_ok s' ((L(t := PopData p)) u)" for u using pc_ok_exchange[OF stack_viewD(9)[OF v, of u]] by (simp add: s'_def)
  have nl: "q \<in> s_used s \<Longrightarrow> q \<in> set ys \<or> (\<exists>u. q \<in> owned ((L(t := PopData p)) u))" for q
    by (rule held_moved[OF v]) (use pc ys(1) in auto)
  have "stack_view ys (s', L(t := PopData p))"
    unfolding stack_view_def prod.case
    by (intro conjI allI impI) (use v ys ct ow oo pk un nl in \<open>simp_all add: stack_view_def s'_def sw.ptr_mk\<close>)
  moreover have "(\<lambda>u. pending s' ((L(t := PopData p)) u)) = (\<lambda>u. pending s (L u))(t := Some (sn_Data (s_node s p)))"
    by (auto simp: s'_def)
  ultimately show ?thesis using pc ys(1) by (intro exI[of _ ys]) (simp add: stack_abs_def s'_def)
qed

lemma pop_free:
  assumes v: "stack_view xs (s, L)" and pc: "L t = PopFree p d"
  defines "s' \<equiv> s\<lparr>s_used := s_used s - {p}\<rparr>"
  shows "stack_view xs (s', L(t := Idle))"
    and "spec_do (t, Returned d) (stack_abs xs (s, L)) = Some (stack_abs xs (s', L(t := Idle)))"
proof -
  have p: "p \<notin> set xs" "\<And>u. u \<noteq> t \<Longrightarrow> p \<notin> owned (L u)"
    using stack_viewD(7)[OF v, of p t] stack_viewD(8)[OF v, of t _ p] pc by auto
  have ow: "owned ((L(t := Idle)) u) \<subseteq> s_used s' - set xs" for u
    using stack_viewD(7)[OF v, of _ u] p(2)[of u] by (auto simp: s'_def)
  have oo: "u \<noteq> u' \<Longrightarrow> owned ((L(t := Idle)) u) \<inter> owned ((L(t := Idle)) u') = {}" for u u'
    using stack_viewD(8)[OF v, of u u'] by auto
  have pk: "pc_ok s' pc'" if "pc_ok s pc'" for pc' using that by (cases pc') (auto simp: s'_def snap_ok_def)
  have pk2: "pc_ok s' ((L(t := Idle)) u)" for u using pk[OF stack_viewD(9)[OF v, of u]] by simp
  have nl: "q \<in> s_used s' \<Longrightarrow> q \<in> set xs \<or> (\<exists>u. q \<in> owned ((L(t := Idle)) u))" for q
    by (rule held_moved[OF v, where p = p]) (use pc in \<open>auto simp: s'_def\<close>)
  have st: "s_node s' = s_node s" "s_Top s' = s_Top s" "s_updates s' = s_updates s" "s_used s' = s_used s - {p}"
    by (simp_all add: s'_def)
  show "stack_view xs (s', L(t := Idle))"
    unfolding stack_view_def prod.case st(1-3)
    by (intro conjI allI impI) (use v ow oo pk2 p(1) nl in \<open>auto simp: stack_view_def st(4)\<close>)
  have "pending s' pc' = pending s pc'" for pc' by (cases pc') (auto simp: s'_def)
  then have "(\<lambda>u. pending s' ((L(t := Idle)) u)) = (\<lambda>u. pending s (L u))(t := None)" by auto
  then show "spec_do (t, Returned d) (stack_abs xs (s, L)) = Some (stack_abs xs (s', L(t := Idle)))"
    using pc by (simp add: stack_abs_def st(1))
qed

lemma start_push:
  fixes s :: "'a lf_stack" and d :: 'a
  assumes v: "stack_view xs (s, L)" and pc: "L t = Idle" and p: "p \<noteq> 0" "user_ptr p" "p \<notin> s_used s"
  defines "s' \<equiv> s\<lparr>s_used := insert p (s_used s), s_node := (s_node s)(p := (s_node s p)\<lparr>sn_Data := d\<rparr>)\<rparr>"
  shows "stack_view xs (s', L(t := PushLoad p)) \<and> stack_abs xs (s', L(t := PushLoad p)) = stack_abs xs (s, L)"
proof -
  have np: "p \<notin> set xs" "\<And>u. p \<notin> owned (L u)" using stack_viewD(6,7)[OF v] p(3) by auto
  have ow: "owned ((L(t := PushLoad p)) u) \<subseteq> s_used s' - set xs" for u
    using stack_viewD(7)[OF v, of _ u] np by (auto simp: s'_def)
  have oo: "u \<noteq> u' \<Longrightarrow> owned ((L(t := PushLoad p)) u) \<inter> owned ((L(t := PushLoad p)) u') = {}" for u u'
    using stack_viewD(8)[OF v, of u u'] np(2) by auto
  have pk: "pc_ok s' pc'" if "pc_ok s pc'" for pc' using that by (cases pc') (auto simp: s'_def snap_ok_def)
  have pk2: "pc_ok s' ((L(t := PushLoad p)) u)" for u using pk[OF stack_viewD(9)[OF v, of u]] by simp
  have "q \<in> set xs \<or> (\<exists>u. q \<in> owned ((L(t := PushLoad p)) u))" if "q \<in> s_used s" for q
    by (rule held_moved[OF v that, where p = p]) (use pc in auto)
  then have nl: "q \<in> s_used s' \<Longrightarrow> q \<in> set xs \<or> (\<exists>u. q \<in> owned ((L(t := PushLoad p)) u))" for q
    by (cases "q = p") (auto simp: s'_def intro: exI[of _ t])
  have ch: "linked (s_node s') q xs = linked (s_node s) q xs" for q using np(1) by (simp add: s'_def linked_update)
  have "stack_view xs (s', L(t := PushLoad p))"
    unfolding stack_view_def prod.case ch
    by (intro conjI allI impI) (use v ow oo pk2 p nl in \<open>auto simp: stack_view_def s'_def\<close>)
  moreover have "pending s' (L u) = pending s (L u)" for u using np(2)[of u] by (cases "L u") (auto simp: s'_def)
  then have "(\<lambda>u. pending s' ((L(t := PushLoad p)) u)) = (\<lambda>u. pending s (L u))" using pc by auto
  moreover have "map (\<lambda>x. sn_Data (s_node s' x)) xs = map (\<lambda>x. sn_Data (s_node s x)) xs" using np(1) by (auto simp: s'_def)
  ultimately show ?thesis by (simp only: stack_abs_def prod.case)
qed

lemma Push_step_view:
  assumes v: "stack_view xs (s, L)" and st: "Push_step (L t) s = Some (pc, s', e)"
  shows "\<exists>ys. stack_view ys (s', L(t := pc)) \<and> spec_do (t, e) (stack_abs xs (s, L)) = Some (stack_abs ys (s', L(t := pc)))"
proof (cases "L t")
  case (PushLoad p)
  then have e: "pc = PushLink p (s_Top s) (s_updates s)" "s' = s" "e = Silent" using st by auto
  have "stack_view xs (s, L(t := pc)) \<and> stack_abs xs (s, L(t := pc)) = stack_abs xs (s, L)"
    by (rule view_move[OF v]) (use PushLoad e snap_ok_now[OF v] in simp_all)
  then show ?thesis using e by (intro exI[of _ xs]) (simp add: stack_abs_def)
next
  case (PushLink p ctop n)
  then have e: "pc = PushSwap p ctop n" "s' = s\<lparr>s_node := (s_node s)(p := (s_node s p)\<lparr>sn_Next := Stack_GetPointer ctop\<rparr>)\<rparr>"
    "e = Silent" using st by auto
  have "stack_view xs (s', L(t := pc)) \<and> stack_abs xs (s', L(t := pc)) = stack_abs xs (s, L)"
    unfolding e(2) by (rule view_write[OF v]) (use PushLink e(1) stack_viewD(9)[OF v, of t] in \<open>simp_all add: snap_ok_def\<close>)
  then show ?thesis using e(3) by (intro exI[of _ xs]) (simp add: stack_abs_def)
next
  case (PushSwap p ctop n)
  show ?thesis
  proof (cases "s_Top s = ctop")
    case True
    with PushSwap st have e: "pc = Idle" "s' = exchange_Top (Stack_MakeTagged (Stack_GetTag ctop + 1) p) s"
      "e = Pushed (sn_Data (s_node s p))" by simp_all
    show ?thesis using push_exchange[OF v PushSwap True] unfolding e by blast
  next
    case False
    with PushSwap st have e: "pc = PushLoad p" "s' = s" "e = Silent" by auto
    have "stack_view xs (s, L(t := pc)) \<and> stack_abs xs (s, L(t := pc)) = stack_abs xs (s, L)"
      by (rule view_move[OF v]) (use PushSwap e in simp_all)
    then show ?thesis using e by (intro exI[of _ xs]) (simp add: stack_abs_def)
  qed
qed (use st in simp_all)

lemma Pop_step_view:
  assumes v: "stack_view xs (s, L)" and st: "Pop_step (L t) s = Some (pc, s', e)" and f: "exchange_fresh (s, L) t"
  shows "\<exists>ys. stack_view ys (s', L(t := pc)) \<and> spec_do (t, e) (stack_abs xs (s, L)) = Some (stack_abs ys (s', L(t := pc)))"
proof (cases "L t")
  case PopLoad
  show ?thesis
  proof (cases "Stack_GetPointer (s_Top s) = 0")
    case True
    with PopLoad st have e: "pc = Idle" "s' = s" "e = WasEmpty" by simp_all
    have x: "xs = []" using True stack_viewD(4)[OF v] by (cases xs) auto
    have "stack_view xs (s, L(t := pc)) \<and> stack_abs xs (s, L(t := pc)) = stack_abs xs (s, L)"
      by (rule view_move[OF v]) (use PopLoad e in simp_all)
    then show ?thesis using e x by (intro exI[of _ xs]) (simp add: stack_abs_def)
  next
    case False
    with PopLoad st have e: "pc = PopNext (s_Top s) (s_updates s)" "s' = s" "e = Silent" by auto
    have "stack_view xs (s, L(t := pc)) \<and> stack_abs xs (s, L(t := pc)) = stack_abs xs (s, L)"
      by (rule view_move[OF v]) (use PopLoad e snap_ok_now[OF v] False in simp_all)
    then show ?thesis using e by (intro exI[of _ xs]) (simp add: stack_abs_def)
  qed
next
  case (PopNext old n)
  then have e: "pc = PopSwap old (sn_Next (s_node s (Stack_GetPointer old))) n" "s' = s" "e = Silent" using st by auto
  have "stack_view xs (s, L(t := pc)) \<and> stack_abs xs (s, L(t := pc)) = stack_abs xs (s, L)"
    by (rule view_move[OF v]) (use PopNext e stack_viewD(9)[OF v, of t] in simp_all)
  then show ?thesis using e by (intro exI[of _ xs]) (simp add: stack_abs_def)
next
  case (PopSwap old nxt n)
  show ?thesis
  proof (cases "s_Top s = old")
    case True
    with PopSwap st have e: "pc = PopData (Stack_GetPointer old)" "s' = exchange_Top (Stack_MakeTagged (Stack_GetTag old + 1) nxt) s"
      "e = Popped (sn_Data (s_node s (Stack_GetPointer old)))" by simp_all
    have "s_updates s - n < tag_period" using f PopSwap by simp
    from pop_exchange[OF v PopSwap True this] show ?thesis unfolding e .
  next
    case False
    with PopSwap st have e: "pc = PopLoad" "s' = s" "e = Silent" by auto
    have "stack_view xs (s, L(t := pc)) \<and> stack_abs xs (s, L(t := pc)) = stack_abs xs (s, L)"
      by (rule view_move[OF v]) (use PopSwap e in simp_all)
    then show ?thesis using e by (intro exI[of _ xs]) (simp add: stack_abs_def)
  qed
next
  case (PopData p)
  then have e: "pc = PopFree p (sn_Data (s_node s p))" "s' = s" "e = Silent" using st by auto
  have "stack_view xs (s, L(t := pc)) \<and> stack_abs xs (s, L(t := pc)) = stack_abs xs (s, L)"
    by (rule view_move[OF v]) (use PopData e in simp_all)
  then show ?thesis using e by (intro exI[of _ xs]) (simp add: stack_abs_def)
next
  case (PopFree p d)
  then have e: "pc = Idle" "s' = s\<lparr>s_used := s_used s - {p}\<rparr>" "e = Returned d" using st by simp_all
  show ?thesis using pop_free[OF v PopFree] unfolding e by blast
qed (use st in simp_all)

lemma stack_step_view:
  assumes "stack_view xs c" and "stack_step c (t, e) c'" and "exchange_fresh c t"
  shows "\<exists>ys. stack_view ys c' \<and> spec_do (t, e) (stack_abs xs c) = Some (stack_abs ys c')"
proof -
  obtain s L where c: "c = (s, L)" by (cases c)
  from assms(2)[unfolded c] show ?thesis
  proof (cases rule: stack_step.cases)
    case (call k pc s')
    note v = assms(1)[unfolded c]
    have eq: "e = Silent" "c' = (s', L(t := pc))" "L t = Idle" "stack_start k s = Some (pc, s')"
      using call by simp_all
    show ?thesis
    proof (cases k)
      case (CallPush d p)
      with eq(4) have p: "p \<noteq> 0" "user_ptr p" "p \<notin> s_used s"
        and e: "pc = PushLoad p" "s' = s\<lparr>s_used := insert p (s_used s), s_node := (s_node s)(p := (s_node s p)\<lparr>sn_Data := d\<rparr>)\<rparr>"
        by (auto split: if_splits)
      from start_push[OF v eq(3) p, of d] show ?thesis using eq(1,2) e c
        by (intro exI[of _ xs]) simp
    next
      case CallPop
      with eq(4) have e: "pc = PopLoad" "s' = s" by auto
      have "stack_view xs (s, L(t := pc)) \<and> stack_abs xs (s, L(t := pc)) = stack_abs xs (s, L)"
        by (rule view_move[OF v]) (use eq(3) e in simp_all)
      then show ?thesis using eq(1,2) e c by (intro exI[of _ xs]) simp
    qed
  next
    case (push pc s')
    then show ?thesis using Push_step_view[OF assms(1)[unfolded c], of t] c by auto
  next
    case (pop pc s')
    then show ?thesis using Pop_step_view[OF assms(1)[unfolded c], of t] assms(3)[unfolded c] c by auto
  next
    case (other m)
    then show ?thesis using view_other[OF assms(1)[unfolded c], of m] c by (intro exI[of _ xs]) simp
  qed
qed

interpretation st: thread_simulation stack_step exchange_fresh stack_view stack_abs spec_do
  using stack_step_view by unfold_locales

lemma stack_init_view: "stack_view [] (stack_init m, \<lambda>_. Idle)"
proof -
  have "sw.counts 0 0" by (simp add: sw.counts_def Stack_GetTag_def)
  then show ?thesis by (simp add: stack_view_def stack_init_def Stack_GetPointer_def)
qed

end
