(* ===== verification/StackProperties.thy ===== *)
theory StackProperties
  imports LockFreeStack
begin

text \<open>
  The properties of the lock-free stack: it is linearizable while the tags protect its exchanges, a
  thread on its own finishes, and the protection ends exactly when \<open>2 ^ 17\<close> updates pass within one pop.
\<close>

section \<open>Linearizability\<close>

text \<open>
  C3. Under any interleaving of any number of threads, pushes and pops behave as on one list, taking effect
  at their successful exchange (a pop of the empty stack when it reads the top), and a pop returns the
  value it took, provided that no pop tries its exchange with a copy of the top that is \<open>2 ^ 17\<close> or more
  updates old; other stacks may use the same pool. The list is the linked list of the nodes at the top, without repetition, and every node
  on it, and every node a thread is about to free, is in use; no node in use is lost.
\<close>
theorem stack_linearizable:
  assumes "stack_run exchange_fresh (stack_init m, \<lambda>_. Idle) es (s, L)"
  shows "\<exists>nodes. spec_run es ([], \<lambda>_. None) = Some (map (\<lambda>p. sn_Data (s_node s p)) nodes, \<lambda>t. pending s (L t)) \<and>
    linked (s_node s) (Stack_GetPointer (s_Top s)) nodes \<and> distinct nodes \<and> set nodes \<subseteq> s_used s \<and>
    (\<forall>t p d. L t = PopFree p d \<longrightarrow> p \<in> s_used s \<and> p \<notin> set nodes \<and> (\<forall>u. u \<noteq> t \<longrightarrow> p \<notin> owned (L u))) \<and>
    (\<forall>p. p \<in> s_used s \<longrightarrow> p \<in> set nodes \<or> (\<exists>t. p \<in> owned (L t)))"
proof -
  have a: "stack_abs [] (stack_init m, \<lambda>_. Idle) = ([], \<lambda>_. None)" by (simp add: stack_abs_def)
  obtain ys where ys: "stack_view ys (s, L)" "spec_run es ([], \<lambda>_. None) = Some (stack_abs ys (s, L))"
    using st.run_simulates[OF assms stack_init_view] unfolding a by blast
  have "p \<in> s_used s \<and> p \<notin> set ys \<and> (\<forall>u. u \<noteq> t \<longrightarrow> p \<notin> owned (L u))" if "L t = PopFree p d" for t p d
    using stack_viewD(7)[OF ys(1), of p t] stack_viewD(8)[OF ys(1), of t _ p] that by auto
  then show ?thesis using ys(2) stack_viewD(4-6,10)[OF ys(1)] by (intro exI[of _ ys]) (simp add: stack_abs_def)
qed

text \<open>The destructor.\<close>

lemma Stack_destruct_linked:
  assumes "linked (s_node s) p xs" and "length xs \<le> n"
  shows "s_used (Stack_destruct n p s) = s_used s - set xs"
  using assms
proof (induction n p s arbitrary: xs rule: Stack_destruct.induct)
  case (2 n p s)
  show ?case
  proof (cases xs)
    case (Cons x ys)
    then show ?thesis using 2(2,3) 2(1)[of ys] by auto
  qed (use 2(2) in simp)
qed simp

text \<open>
  When every push and pop has ended, the destructor gives every node back to the pool: none leaks.
\<close>
theorem stack_destruct_frees_all:
  assumes "stack_run exchange_fresh (stack_init m, \<lambda>_. Idle) es (s, \<lambda>_. Idle)" and "card (s_used s) \<le> n"
  shows "s_used (Stack_destruct n (Stack_GetPointer (s_Top s)) s) = {}"
proof -
  obtain ys where ys: "stack_view ys (s, \<lambda>_. Idle)" using st.run_simulates[OF assms(1) stack_init_view] by blast
  have "s_used s = set ys" using stack_viewD(6,10)[OF ys] by auto
  moreover have "length ys = card (set ys)" using stack_viewD(5)[OF ys] distinct_card by force
  ultimately show ?thesis using Stack_destruct_linked[OF stack_viewD(4)[OF ys], of n] assms(2) by simp
qed

text \<open>A whole push, and a whole pop, by one thread while no other takes a step.\<close>

definition pushed :: "u64 \<Rightarrow> 'a \<Rightarrow> 'a lf_stack \<Rightarrow> 'a lf_stack" where
  "pushed p d s = s\<lparr>s_used := insert p (s_used s),
     s_node := (s_node s)(p := (s_node s p)\<lparr>sn_Data := d, sn_Next := Stack_GetPointer (s_Top s)\<rparr>),
     s_Top := Stack_MakeTagged (Stack_GetTag (s_Top s) + 1) p, s_updates := Suc (s_updates s)\<rparr>"

definition popped :: "'a lf_stack \<Rightarrow> 'a lf_stack" where
  "popped s = (let p = Stack_GetPointer (s_Top s) in s\<lparr>s_used := s_used s - {p},
     s_Top := Stack_MakeTagged (Stack_GetTag (s_Top s) + 1) (sn_Next (s_node s p)), s_updates := Suc (s_updates s)\<rparr>)"

lemma whole_push:
  assumes "L t = Idle" and "p \<noteq> 0" "user_ptr p" "p \<notin> s_used s" and "\<And>c. exchange_fresh c t \<Longrightarrow> G c t"
  shows "stack_run G (s, L) [(t, Silent), (t, Silent), (t, Silent), (t, Pushed d)] (pushed p d s, L)"
proof -
  let ?s1 = "s\<lparr>s_used := insert p (s_used s), s_node := (s_node s)(p := (s_node s p)\<lparr>sn_Data := d\<rparr>)\<rparr>"
  let ?s2 = "?s1\<lparr>s_node := (s_node ?s1)(p := (s_node ?s1 p)\<lparr>sn_Next := Stack_GetPointer (s_Top s)\<rparr>)\<rparr>"
  let ?L1 = "L(t := PushLoad p)" and ?L2 = "L(t := PushLink p (s_Top s) (s_updates s))"
  let ?L3 = "L(t := PushSwap p (s_Top s) (s_updates s))"
  have g: "G (s, L) t" "G (?s1, ?L1) t" "G (?s1, ?L2) t" "G (?s2, ?L3) t"
    by (rule assms(5), simp add: tag_period_def assms(1))+
  have 1: "stack_step (s, L) (t, Silent) (?s1, ?L1)"
    by (rule stack_step.call[where c = "CallPush d p"]) (use assms in simp_all)
  have 2: "stack_step (?s1, ?L1) (t, Silent) (?s1, ?L2)"
    using stack_step.push[of ?L1 t ?s1 "PushLink p (s_Top s) (s_updates s)" ?s1 Silent] by simp
  have 3: "stack_step (?s1, ?L2) (t, Silent) (?s2, ?L3)"
    using stack_step.push[of ?L2 t ?s1 "PushSwap p (s_Top s) (s_updates s)" ?s2 Silent] by simp
  have 4: "stack_step (?s2, ?L3) (t, Pushed d) (pushed p d s, L(t := Idle))"
    using stack_step.push[of ?L3 t ?s2 Idle "pushed p d s" "Pushed d"] by (simp add: pushed_def exchange_Top_def)
  have "L(t := Idle) = L" using assms(1) by auto
  with thread_run_trans[OF thread_run_one[where R = stack_step and G = G, OF g(4) 4] thread_run_trans[OF thread_run_one[where R = stack_step and G = G, OF g(3) 3]
      thread_run_trans[OF thread_run_one[where R = stack_step and G = G, OF g(2) 2] thread_run_one[where R = stack_step and G = G, OF g(1) 1]]]]
  show ?thesis by simp
qed

lemma whole_pop:
  assumes "L t = Idle" and "Stack_GetPointer (s_Top s) \<noteq> 0" and "\<And>c. exchange_fresh c t \<Longrightarrow> G c t"
  defines "d \<equiv> sn_Data (s_node s (Stack_GetPointer (s_Top s)))"
  shows "stack_run G (s, L) [(t, Silent), (t, Silent), (t, Silent), (t, Popped d), (t, Silent), (t, Returned d)] (popped s, L)"
proof -
  let ?p = "Stack_GetPointer (s_Top s)" and ?n = "sn_Next (s_node s (Stack_GetPointer (s_Top s)))"
  let ?s1 = "exchange_Top (Stack_MakeTagged (Stack_GetTag (s_Top s) + 1) ?n) s"
  let ?L1 = "L(t := PopLoad)" and ?L2 = "L(t := PopNext (s_Top s) (s_updates s))"
  let ?L3 = "L(t := PopSwap (s_Top s) ?n (s_updates s))" and ?L4 = "L(t := PopData ?p)" and ?L5 = "L(t := PopFree ?p d)"
  have g: "G (s, L) t" "G (s, ?L1) t" "G (s, ?L2) t" "G (s, ?L3) t" "G (?s1, ?L4) t" "G (?s1, ?L5) t"
    by (rule assms(3), simp add: tag_period_def assms(1))+
  have 1: "stack_step (s, L) (t, Silent) (s, ?L1)"
    by (rule stack_step.call[where c = CallPop]) (use assms in simp_all)
  have 2: "stack_step (s, ?L1) (t, Silent) (s, ?L2)"
    using stack_step.pop[of ?L1 t s "PopNext (s_Top s) (s_updates s)" s Silent] assms(2) by simp
  have 3: "stack_step (s, ?L2) (t, Silent) (s, ?L3)"
    using stack_step.pop[of ?L2 t s "PopSwap (s_Top s) ?n (s_updates s)" s Silent] by simp
  have 4: "stack_step (s, ?L3) (t, Popped d) (?s1, ?L4)"
    using stack_step.pop[of ?L3 t s "PopData ?p" ?s1 "Popped d"] by (simp add: d_def)
  have 5: "stack_step (?s1, ?L4) (t, Silent) (?s1, ?L5)"
    using stack_step.pop[of ?L4 t ?s1 "PopFree ?p d" ?s1 Silent] by (simp add: d_def)
  have 6: "stack_step (?s1, ?L5) (t, Returned d) (popped s, L(t := Idle))"
    using stack_step.pop[of ?L5 t ?s1 Idle "popped s" "Returned d"] by (simp add: popped_def exchange_Top_def Let_def)
  have "L(t := Idle) = L" using assms(1) by auto
  with thread_run_trans[OF thread_run_one[where R = stack_step and G = G, OF g(6) 6] thread_run_trans[OF thread_run_one[where R = stack_step and G = G, OF g(5) 5]
      thread_run_trans[OF thread_run_one[where R = stack_step and G = G, OF g(4) 4] thread_run_trans[OF thread_run_one[where R = stack_step and G = G, OF g(3) 3]
      thread_run_trans[OF thread_run_one[where R = stack_step and G = G, OF g(2) 2] thread_run_one[where R = stack_step and G = G, OF g(1) 1]]]]]]
  show ?thesis by simp
qed

lemma two_pushes:
  defines "s1 \<equiv> pushed 0x10 7 (stack_init (\<lambda>_. \<lparr>sn_Data = 0 :: nat, sn_Next = 0\<rparr>))"
  shows "stack_run exchange_fresh (stack_init (\<lambda>_. \<lparr>sn_Data = 0, sn_Next = 0\<rparr>), \<lambda>_. Idle) [(0, Silent), (0, Silent), (0, Silent), (0, Pushed 7),
      (1, Silent), (1, Silent), (1, Silent), (1, Pushed 5)] (pushed 0x20 5 s1, \<lambda>_. Idle)"
proof -
  have u: "user_ptr 0x10" "user_ptr 0x20" by (simp_all add: user_ptr_def)
  have r1: "stack_run exchange_fresh (stack_init (\<lambda>_. \<lparr>sn_Data = 0, sn_Next = 0\<rparr>), \<lambda>_. Idle)
      [(0, Silent), (0, Silent), (0, Silent), (0, Pushed 7)] (s1, \<lambda>_. Idle)"
    unfolding s1_def by (rule whole_push) (simp_all add: u stack_init_def)
  have "stack_run exchange_fresh (s1, \<lambda>_. Idle) [(1, Silent), (1, Silent), (1, Silent), (1, Pushed 5)] (pushed 0x20 5 s1, \<lambda>_. Idle)"
    by (rule whole_push) (simp_all add: u stack_init_def pushed_def s1_def)
  from thread_run_trans[OF this r1] show ?thesis by simp
qed

theorem stack_linearizable_witness:
  "\<exists>es s L. stack_run exchange_fresh (stack_init (\<lambda>_. \<lparr>sn_Data = 0, sn_Next = 0\<rparr>), \<lambda>_. Idle) es (s, L) \<and>
    (\<exists>nodes. spec_run es ([], \<lambda>_. None) = Some (map (\<lambda>p. sn_Data (s_node s p)) nodes, \<lambda>t. pending s (L t)) \<and>
      map (\<lambda>p. sn_Data (s_node s p)) nodes = [5, 7 :: nat] \<and> set nodes \<subseteq> s_used s)"
proof -
  let ?s = "pushed 0x20 5 (pushed 0x10 7 (stack_init (\<lambda>_. \<lparr>sn_Data = 0 :: nat, sn_Next = 0\<rparr>)))"
  obtain nodes where n: "spec_run [(0, Silent), (0, Silent), (0, Silent), (0, Pushed 7),
      (1, Silent), (1, Silent), (1, Silent), (1, Pushed 5)] ([], \<lambda>_. None) =
      Some (map (\<lambda>p. sn_Data (s_node ?s p)) nodes, \<lambda>t. pending ?s ((\<lambda>_ :: nat. Idle) t))" "set nodes \<subseteq> s_used ?s"
    using stack_linearizable[OF two_pushes] by blast
  then have d: "map (\<lambda>p. sn_Data (s_node ?s p)) nodes = [5, 7]" by simp
  show ?thesis by (intro exI conjI) (rule two_pushes n d)+
qed

theorem stack_destruct_frees_all_witness:
  "s_used (Stack_destruct 2 0x20 (pushed 0x20 5 (pushed 0x10 7 (stack_init (\<lambda>_. \<lparr>sn_Data = 0 :: nat, sn_Next = 0\<rparr>))))) = {}"
proof -
  let ?s = "pushed 0x20 5 (pushed 0x10 7 (stack_init (\<lambda>_. \<lparr>sn_Data = 0 :: nat, sn_Next = 0\<rparr>)))"
  have "s_used ?s = {0x20, 0x10}" by (simp add: pushed_def stack_init_def)
  then have "card (s_used ?s) \<le> 2" by simp
  moreover have "Stack_GetPointer (s_Top ?s) = 0x20" by (simp add: pushed_def sw.ptr_mk user_ptr_def)
  ultimately show ?thesis using stack_destruct_frees_all[OF two_pushes, of 2] by simp
qed

section \<open>Progress\<close>

text \<open>The next access of a thread, and a thread running alone.\<close>

definition next_access :: "'a stack_pc \<Rightarrow> 'a lf_stack \<Rightarrow> ('a stack_pc \<times> 'a lf_stack \<times> 'a stack_event) option" where
  "next_access pc s = (case Push_step pc s of None \<Rightarrow> Pop_step pc s | Some r \<Rightarrow> Some r)"

fun run_alone :: "nat \<Rightarrow> 'a stack_pc \<Rightarrow> 'a lf_stack \<Rightarrow> 'a stack_pc \<times> 'a lf_stack" where
  "run_alone 0 pc s = (pc, s)"
| "run_alone (Suc n) pc s = (case next_access pc s of None \<Rightarrow> (pc, s) | Some (pc', s', e) \<Rightarrow> run_alone n pc' s')"

text \<open>
  C34. The loops of the stack end without help: from any state, however stale its copy of the top, a thread
  that runs alone finishes its push or pop within seven accesses.
\<close>
theorem stack_alone_terminates: "fst (run_alone 7 pc s) = Idle"
  by (cases pc) (simp_all add: numeral_eq_Suc next_access_def)

text \<open>An exchange fails only because another thread's has succeeded since the copy was made.\<close>

lemma failed_exchange_progress:
  assumes "stack_view xs (s, L)" and "L t = PushSwap p w n \<or> L t = PopSwap w nxt n" and "s_Top s \<noteq> w"
  shows "n < s_updates s"
  using stack_viewD(9)[OF assms(1), of t] assms(2,3) by (auto simp: snap_ok_def order.not_eq_order_implies_strict)

section \<open>The limit of the tags\<close>

lemma pushed_simps [simp]: "s_used (pushed p d s) = insert p (s_used s)" "s_updates (pushed p d s) = Suc (s_updates s)"
  "sn_Next (s_node (pushed p d s) p) = Stack_GetPointer (s_Top s)"
  "q \<noteq> p \<Longrightarrow> s_node (pushed p d s) q = s_node s q"
  "user_ptr p \<Longrightarrow> Stack_GetPointer (s_Top (pushed p d s)) = p"
  by (simp_all add: pushed_def sw.ptr_mk)

lemma popped_simps [simp]: "s_used (popped s) = s_used s - {Stack_GetPointer (s_Top s)}"
  "s_updates (popped s) = Suc (s_updates s)" "s_node (popped s) = s_node s"
  "user_ptr (sn_Next (s_node s (Stack_GetPointer (s_Top s)))) \<Longrightarrow>
    Stack_GetPointer (s_Top (popped s)) = sn_Next (s_node s (Stack_GetPointer (s_Top s)))"
  by (simp_all add: popped_def Let_def sw.ptr_mk)

lemma counts_whole: "sw.counts (s_updates s) (s_Top s) \<Longrightarrow> sw.counts (Suc (s_updates s)) (s_Top (pushed p d s))"
  "sw.counts (s_updates s) (s_Top s) \<Longrightarrow> sw.counts (Suc (s_updates s)) (s_Top (popped s))"
  using sw.counts_mk[of "s_updates s" "s_Top s"] by (simp_all add: pushed_def popped_def Let_def)

text \<open>Runs in which only one thread takes steps, each of them with a fresh copy.\<close>

definition solo_run :: "nat \<Rightarrow> 'a stack_conf \<Rightarrow> 'a stack_conf \<Rightarrow> bool" where
  "solo_run t c c' \<longleftrightarrow> (\<exists>es. stack_run exchange_fresh c es c' \<and> fst ` set es \<subseteq> {t})"

lemma solo_runI: "stack_run exchange_fresh c es c' \<Longrightarrow> fst ` set es \<subseteq> {t} \<Longrightarrow> solo_run t c c'"
  unfolding solo_run_def by blast

lemma solo_trans: "solo_run t a b \<Longrightarrow> solo_run t b c \<Longrightarrow> solo_run t a c"
  unfolding solo_run_def by (elim exE conjE, rule exI, rule conjI, erule (1) thread_run_trans) auto

lemma solo_one: "stack_step c (t, e) c' \<Longrightarrow> exchange_fresh c t \<Longrightarrow> solo_run t c c'"
  by (rule solo_runI[OF thread_run_one]) simp_all

lemma solo_push: "L t = Idle \<Longrightarrow> p \<noteq> 0 \<Longrightarrow> user_ptr p \<Longrightarrow> p \<notin> s_used s \<Longrightarrow> solo_run t (s, L) (pushed p d s, L)"
  by (rule solo_runI, rule whole_push) simp_all

lemma solo_pop: "L t = Idle \<Longrightarrow> Stack_GetPointer (s_Top s) \<noteq> 0 \<Longrightarrow> solo_run t (s, L) (popped s, L)"
  by (rule solo_runI, rule whole_pop) simp_all

lemma solo_reach: "solo_run t a b \<Longrightarrow> \<exists>es. stack_run exchange_fresh a es b"
  unfolding solo_run_def by blast

text \<open>\<open>k\<close> times a push and a pop of one thread: only the tag has changed.\<close>

lemma push_pop_rounds:
  assumes "L t = Idle" and "x \<noteq> 0" "user_ptr x" "x \<notin> s_used s" and "sw.counts (s_updates s) (s_Top s)"
  shows "\<exists>s'. solo_run t (s, L) (s', L) \<and> s_used s' = s_used s \<and> s_updates s' = s_updates s + 2 * k \<and>
    Stack_GetPointer (s_Top s') = Stack_GetPointer (s_Top s) \<and> sw.counts (s_updates s') (s_Top s')"
proof (induction k)
  case 0
  have "solo_run t (s, L) (s, L)" by (rule solo_runI[OF thread_run.none]) simp
  then show ?case using assms(5) by auto
next
  case (Suc k)
  then obtain s1 where 1: "solo_run t (s, L) (s1, L)" "s_used s1 = s_used s" "s_updates s1 = s_updates s + 2 * k"
    "Stack_GetPointer (s_Top s1) = Stack_GetPointer (s_Top s)" "sw.counts (s_updates s1) (s_Top s1)" by blast
  let ?s2 = "pushed x (sn_Data (s_node s1 x)) s1"
  let ?s3 = "popped ?s2"
  have p: "Stack_GetPointer (s_Top ?s2) = x" using assms(3) by simp
  have nx: "sn_Next (s_node ?s2 x) = Stack_GetPointer (s_Top s1)" by simp
  have x1: "x \<notin> s_used s1" using assms(4) 1(2) by simp
  have x2: "Stack_GetPointer (s_Top ?s2) \<noteq> 0" unfolding p by (rule assms(2))
  have "solo_run t (s, L) (?s3, L)"
    by (rule solo_trans[OF 1(1) solo_trans[OF solo_push[where L = L and t = t, OF assms(1-3) x1]
        solo_pop[where L = L and t = t, OF assms(1) x2]]])
  moreover have "s_used ?s3 = s_used s" using p 1(2) x1 by auto
  moreover have "s_updates ?s3 = s_updates s + 2 * Suc k" using 1(3) by simp
  moreover have "Stack_GetPointer (s_Top ?s3) = Stack_GetPointer (s_Top s)"
    using popped_simps(4)[of ?s2] sw.ptr_user unfolding p nx 1(4) by simp
  moreover have "sw.counts (s_updates ?s3) (s_Top ?s3)"
    using counts_whole(2)[of ?s2] counts_whole(1)[OF 1(5)] by simp
  ultimately show ?case by blast
qed

text \<open>The updates of a run are its completed pushes and the takings of its pops; each moves the tag by one,
  with or without the guard.\<close>

fun is_update :: "'a stack_event \<Rightarrow> bool" where
  "is_update (Pushed d) \<longleftrightarrow> True"
| "is_update (Popped d) \<longleftrightarrow> True"
| "is_update _ \<longleftrightarrow> False"

definition updates :: "(nat \<times> 'a stack_event) list \<Rightarrow> nat" where
  "updates es = length (filter (\<lambda>(t, e). is_update e) es)"

abbreviation unguarded :: "'a stack_conf \<Rightarrow> nat \<Rightarrow> bool" where "unguarded \<equiv> \<lambda>_ _. True"

lemma step_Top:
  assumes "stack_step c (t, e) c'"
  shows "if is_update e then s_updates (fst c') = Suc (s_updates (fst c)) \<and>
      (\<exists>p. s_Top (fst c') = Stack_MakeTagged (Stack_GetTag (s_Top (fst c)) + 1) p)
    else s_updates (fst c') = s_updates (fst c) \<and> s_Top (fst c') = s_Top (fst c)"
  using assms
proof (cases rule: stack_step.cases)
  case (call L k s pc s')
  then show ?thesis by (cases k) (auto split: if_splits)
next
  case (push L s pc s')
  then show ?thesis by (cases "L t") (auto simp: exchange_Top_def split: if_splits)
next
  case (pop L s pc s')
  then show ?thesis by (cases "L t") (auto simp: exchange_Top_def split: if_splits)
qed auto

lemma run_counts:
  assumes "stack_run G c es c'"
  shows "s_updates (fst c') = s_updates (fst c) + updates es \<and>
    (sw.counts (s_updates (fst c)) (s_Top (fst c)) \<longrightarrow> sw.counts (s_updates (fst c')) (s_Top (fst c')))"
  using assms
proof (induction rule: thread_run.induct)
  case (more c es c' t e c'')
  show ?case
  proof (cases "is_update e")
    case True
    then obtain p where "s_updates (fst c'') = Suc (s_updates (fst c'))"
      "s_Top (fst c'') = Stack_MakeTagged (Stack_GetTag (s_Top (fst c')) + 1) p"
      using step_Top[OF more(3)] by auto
    then show ?thesis using more(4) True sw.counts_mk[of "s_updates (fst c')" "s_Top (fst c')" p]
      by (auto simp: updates_def)
  next
    case False
    then show ?thesis using more(4) step_Top[OF more(3)] by (auto simp: updates_def)
  qed
qed (simp add: updates_def)

lemma solo_updates: "solo_run t (s, L) (s', L') \<Longrightarrow>
    \<exists>es. stack_run exchange_fresh (s, L) es (s', L') \<and> fst ` set es \<subseteq> {t} \<and> updates es = s_updates s' - s_updates s"
  unfolding solo_run_def using run_counts by fastforce

lemma init_counts: "sw.counts (s_updates (stack_init m)) (s_Top (stack_init m))"
  by (simp add: stack_init_def sw.counts_def Stack_GetTag_def)

text \<open>A copy of the top is told from every later value that is fewer than \<open>2 ^ 17\<close> updates away.\<close>

lemma Top_changes:
  assumes "stack_run G (stack_init m, L0) es (s, L)" and "stack_run G' (s, L) es' (s', L')"
    and "0 < updates es'" "updates es' < 2 ^ 17"
  shows "s_Top s' \<noteq> s_Top s"
proof
  assume "s_Top s' = s_Top s"
  moreover have c: "sw.counts (s_updates s) (s_Top s)" 
    using run_counts[OF assms(1)] init_counts[of m] unfolding fst_conv by blast
  moreover have "sw.counts (s_updates s') (s_Top s')" "s_updates s' = s_updates s + updates es'"
    using run_counts[OF assms(2)] c unfolding fst_conv by blast+
  ultimately have "s_updates s = s_updates s + updates es'"
    using sw.counts_same[of "s_updates s" "s_Top s" "s_updates s + updates es'"] assms(4)
    by (simp add: tag_period_def tag_bits_def)
  then show False using assms(3) by simp
qed

lemma slow_pop:
  "\<exists>es s L nxt n es' s' e s''. stack_run exchange_fresh (stack_init m, \<lambda>_. Idle) es (s, L) \<and>
      L 0 = PopSwap (s_Top s) nxt n \<and>
      stack_run exchange_fresh (s, L) es' (s', L) \<and> fst ` set es' \<subseteq> {1} \<and> updates es' = 2 ^ 17 \<and>
      stack_step (s', L) (0, e) (s'', L(0 := PopData (Stack_GetPointer (s_Top s)))) \<and>
      Stack_GetPointer (s_Top s'') \<noteq> 0 \<and> Stack_GetPointer (s_Top s'') \<notin> s_used s''"
proof -
  have u: "user_ptr 0x10" "user_ptr 0x20" "user_ptr 0x30" "user_ptr 0x40" by (simp_all add: user_ptr_def)
  let ?I = "\<lambda>_ :: nat. Idle"
  let ?s0 = "stack_init m"
  define s1 where "s1 = pushed 0x10 (sn_Data (m 0)) ?s0"
  define s2 where "s2 = pushed 0x20 (sn_Data (m 0)) s1"
  have 1: "s_used s1 = {0x10}" "Stack_GetPointer (s_Top s1) = 0x10" "s_updates s1 = 1" "sw.counts (s_updates s1) (s_Top s1)"
    "sn_Next (s_node s1 0x10) = 0"
    using counts_whole(1)[OF init_counts] u by (simp_all add: s1_def) (simp_all add: stack_init_def Stack_GetPointer_def)
  have 2: "s_used s2 = {0x20, 0x10}" "Stack_GetPointer (s_Top s2) = 0x20" "s_updates s2 = 2" "sw.counts (s_updates s2) (s_Top s2)"
    "sn_Next (s_node s2 0x20) = 0x10" "sn_Next (s_node s2 0x10) = 0"
    using counts_whole(1)[of s1 "0x20"] 1 u by (simp_all add: s2_def)
  text \<open>The slow thread copies the top and reads the next node.\<close>
  let ?L = "?I(0 := PopSwap (s_Top s2) 0x10 2)"
  have r1: "solo_run 0 (?s0, ?I) (s1, ?I)" unfolding s1_def by (rule solo_push) (use u in \<open>simp_all add: stack_init_def\<close>)
  have r2: "solo_run 0 (s1, ?I) (s2, ?I)" unfolding s2_def by (rule solo_push) (use u 1 in simp_all)
  have a1: "stack_step (s2, ?I) (0, Silent) (s2, ?I(0 := PopLoad))"
    by (rule stack_step.call[where c = CallPop]) simp_all
  have a2: "stack_step (s2, ?I(0 := PopLoad)) (0, Silent) (s2, ?I(0 := PopNext (s_Top s2) 2))"
    using stack_step.pop[of "?I(0 := PopLoad)" 0 s2 "PopNext (s_Top s2) 2" s2 Silent] 2 by simp
  have a3: "stack_step (s2, ?I(0 := PopNext (s_Top s2) 2)) (0, Silent) (s2, ?L)"
    using stack_step.pop[of "?I(0 := PopNext (s_Top s2) 2)" 0 s2 "PopSwap (s_Top s2) 0x10 2" s2 Silent] 2 by simp
  have "solo_run 0 (?s0, ?I) (s2, ?L)"
    by (rule solo_trans[OF r1 solo_trans[OF r2 solo_trans[OF solo_one[OF a1] solo_trans[OF solo_one[OF a2] solo_one[OF a3]]]]]) simp_all
  then obtain es where before: "stack_run exchange_fresh (?s0, ?I) es (s2, ?L)" using solo_reach by blast
  text \<open>The other thread pops both nodes and pushes two.\<close>
  define s3 where "s3 = popped s2"
  define s4 where "s4 = popped s3"
  define s5 where "s5 = pushed 0x30 (sn_Data (m 0)) s4"
  define s6 where "s6 = pushed 0x20 (sn_Data (m 0)) s5"
  have 3: "s_used s3 = {0x10}" "Stack_GetPointer (s_Top s3) = 0x10" "s_updates s3 = 3" "sw.counts (s_updates s3) (s_Top s3)"
    "sn_Next (s_node s3 0x10) = 0"
    using counts_whole(2)[of s2] 2 u by (simp_all add: s3_def)
  have 4: "s_used s4 = {}" "Stack_GetPointer (s_Top s4) = 0" "s_updates s4 = 4" "sw.counts (s_updates s4) (s_Top s4)"
    using counts_whole(2)[of s3] 3 by (simp_all add: s4_def)
  have 5: "s_used s5 = {0x30}" "Stack_GetPointer (s_Top s5) = 0x30" "s_updates s5 = 5" "sw.counts (s_updates s5) (s_Top s5)"
    using counts_whole(1)[of s4 "0x30"] 4 u by (simp_all add: s5_def)
  have 6: "s_used s6 = {0x20, 0x30}" "Stack_GetPointer (s_Top s6) = 0x20" "s_updates s6 = 6" "sw.counts (s_updates s6) (s_Top s6)"
    using counts_whole(1)[of s5 "0x20"] 5 u by (simp_all add: s6_def)
  have r3: "solo_run 1 (s2, ?L) (s3, ?L)" "solo_run 1 (s3, ?L) (s4, ?L)"
    unfolding s3_def s4_def by (rule solo_pop, use 2 3[unfolded s3_def] in simp_all)+
  have r5: "solo_run 1 (s4, ?L) (s5, ?L)" "solo_run 1 (s5, ?L) (s6, ?L)"
    unfolding s6_def using 4 5 u by (simp_all add: s5_def solo_push)
  obtain s7 where 7: "solo_run 1 (s6, ?L) (s7, ?L)" "s_used s7 = {0x20, 0x30}"
    "s_updates s7 = 6 + 2 * 65534" "Stack_GetPointer (s_Top s7) = 0x20" "sw.counts (s_updates s7) (s_Top s7)"
    using push_pop_rounds[of ?L 1 "0x40" s6 65534] u 6 by auto
  have "solo_run 1 (s2, ?L) (s7, ?L)"
    by (rule solo_trans[OF r3(1) solo_trans[OF r3(2) solo_trans[OF r5(1) solo_trans[OF r5(2) 7(1)]]]])
  then obtain es' where during: "stack_run exchange_fresh (s2, ?L) es' (s7, ?L)" "fst ` set es' \<subseteq> {1}" "updates es' = 2 ^ 17"
    using solo_updates[of 1 s2 ?L s7 ?L] 2(3) 7(3) by auto
  text \<open>The word is the same again.\<close>
  have "s_updates s7 mod tag_period = 2 mod tag_period" by (simp add: 7(3) tag_period_def tag_bits_def)
  then have "Stack_GetTag (s_Top s7) = Stack_GetTag (s_Top s2)" using 7(5) 2(3,4) by (simp add: sw.counts_def)
  then have same: "s_Top s7 = s_Top s2" using sw.word_eqI 7(4) 2(2) by simp
  let ?s8 = "exchange_Top (Stack_MakeTagged (Stack_GetTag (s_Top s2) + 1) 0x10) s7"
  have r8: "stack_step (s7, ?L) (0, Popped (sn_Data (s_node s7 0x20))) (?s8, ?L(0 := PopData (Stack_GetPointer (s_Top s2))))"
    using stack_step.pop[of ?L 0 s7 "PopData 0x20" ?s8 "Popped (sn_Data (s_node s7 0x20))"] same 2(2) by simp
  have top: "Stack_GetPointer (s_Top ?s8) = 0x10" using u by (simp add: sw.ptr_mk)
  have "Stack_GetPointer (s_Top ?s8) \<noteq> 0" "Stack_GetPointer (s_Top ?s8) \<notin> s_used ?s8"
    unfolding top using 7(2) by simp_all
  then show ?thesis
    by (intro exI conjI) (rule before, rule fun_upd_same, rule during, rule during, rule during, rule r8)
qed

text \<open>
  C35. The protection of the tags holds for \<open>2 ^ 17 - 1\<close> updates and not for one more. From any reachable state,
  after at least one and fewer than \<open>2 ^ 17\<close> successful exchanges, by any threads in any order, the word at the
  top differs from the copy made there, so a pop that holds the copy exchanges nothing. But there is a run in
  which a pop, stopped just before its exchange with a copy of the current top, exchanges it after exactly
  \<open>2 ^ 17\<close> updates of another thread, all of them made with fresh copies: it succeeds, and the top of the
  stack is then a node that has been given back to the pool.
\<close>
theorem stack_breaks_after_wrap:
  "(\<forall>es s L es' s' L'. stack_run unguarded (stack_init m, \<lambda>_. Idle) es (s, L) \<and> stack_run unguarded (s, L) es' (s', L') \<and>
      0 < updates es' \<and> updates es' < 2 ^ 17 \<longrightarrow> s_Top s' \<noteq> s_Top s) \<and>
   (\<exists>es s L nxt n es' s' e s''. stack_run exchange_fresh (stack_init m, \<lambda>_. Idle) es (s, L) \<and>
      L 0 = PopSwap (s_Top s) nxt n \<and>
      stack_run exchange_fresh (s, L) es' (s', L) \<and> fst ` set es' \<subseteq> {1} \<and> updates es' = 2 ^ 17 \<and>
      stack_step (s', L) (0, e) (s'', L(0 := PopData (Stack_GetPointer (s_Top s)))) \<and>
      Stack_GetPointer (s_Top s'') \<noteq> 0 \<and> Stack_GetPointer (s_Top s'') \<notin> s_used s'')"
proof (rule conjI, intro allI impI)
  fix es s L es' s' L'
  assume "stack_run unguarded (stack_init m, \<lambda>_. Idle) es (s, L) \<and> stack_run unguarded (s, L) es' (s', L') \<and>
      0 < updates es' \<and> updates es' < 2 ^ 17"
  then show "s_Top s' \<noteq> s_Top s" by (elim conjE) (rule Top_changes)
qed (rule slow_pop)

theorem stack_breaks_after_wrap_witness:
  "s_Top (pushed 0x20 (5 :: nat) (pushed 0x10 7 (stack_init (\<lambda>_. \<lparr>sn_Data = 0, sn_Next = 0\<rparr>)))) \<noteq>
    s_Top (stack_init (\<lambda>_. \<lparr>sn_Data = 0 :: nat, sn_Next = 0\<rparr>))"
proof -
  let ?m = "\<lambda>_ :: u64. \<lparr>sn_Data = 0 :: nat, sn_Next = 0\<rparr>"
  have u: "user_ptr 0x10" "user_ptr 0x20" by (simp_all add: user_ptr_def)
  let ?s1 = "pushed 0x10 7 (stack_init ?m)" and ?s2 = "pushed 0x20 5 (pushed 0x10 7 (stack_init ?m))"
  have r: "stack_run unguarded (stack_init ?m, \<lambda>_. Idle) [(0, Silent), (0, Silent), (0, Silent), (0, Pushed 7)] (?s1, \<lambda>_. Idle)"
    "stack_run unguarded (?s1, \<lambda>_. Idle) [(1, Silent), (1, Silent), (1, Silent), (1, Pushed 5)] (?s2, \<lambda>_. Idle)"
    by (rule whole_push, simp_all add: u stack_init_def)+
  have "stack_run unguarded (stack_init ?m, \<lambda>_. Idle) [(0, Silent), (0, Silent), (0, Silent), (0, Pushed 7),
      (1, Silent), (1, Silent), (1, Silent), (1, Pushed 5)] (?s2, \<lambda>_. Idle)"
    using thread_run_trans[OF r(2,1)] by simp
  then show ?thesis
    using stack_breaks_after_wrap[of ?m] thread_run.none[of stack_step unguarded "(stack_init ?m, \<lambda>_. Idle)"]
    by (fastforce simp: updates_def)
qed

end
