(* ===== verification/LockFreeQueue.thy ===== *)
theory LockFreeQueue
  imports TaggedPointer Threads
begin

text \<open>
  \<open>LockFreeQueue\<close>, the send queue of a session and the job queue of the chat server, under any
  interleaving of threads: each atomic access to shared memory is a step. The nodes come from a pool
  that all queues of the element type share; a freed node stays readable, and its \<open>next\<close> word keeps
  counting over its lives.
\<close>

section \<open>State\<close>

record 'a qnode =
  qn_data :: 'a
  qn_next :: u64

text \<open>\<open>q_node\<close> are the contents of the pool's blocks, \<open>q_used\<close> the blocks this queue has got from it. The last
  four fields are history variables: the successful exchanges of the head and of the tail, the changes of
  each block's \<open>next\<close>, and the value of \<open>_size\<close> as an integer.\<close>

record 'a lf_queue =
  q_size :: "32 word"
  q_head :: u64
  q_tail :: u64
  q_node :: "u64 \<Rightarrow> 'a qnode"
  q_used :: "u64 set"
  q_heads :: nat
  q_tails :: nat
  q_links :: "u64 \<Rightarrow> nat"
  q_count :: int

definition Queue_GetPointer :: "u64 \<Rightarrow> u64" where
  "Queue_GetPointer taggedPtr = taggedPtr AND 0x00007fffffffffff"

definition Queue_GetTag :: "u64 \<Rightarrow> u64" where
  "Queue_GetTag taggedPtr = drop_bit 47 taggedPtr AND 0x1ffff"

definition Queue_MakeTagged :: "u64 \<Rightarrow> u64 \<Rightarrow> u64" where
  "Queue_MakeTagged tag ptr = push_bit 47 (tag AND 0x1ffff) OR (ptr AND 0x00007fffffffffff)"

interpretation qw: tagged_words Queue_GetPointer Queue_GetTag Queue_MakeTagged
proof -
  have "Queue_GetPointer = unpack_ptr" "Queue_GetTag = unpack_tag" "Queue_MakeTagged = pack_tag"
    by (simp_all add: fun_eq_iff Queue_GetPointer_def Queue_GetTag_def Queue_MakeTagged_def unpack_ptr_def
        unpack_tag_def pack_tag_def)
  then show "tagged_words Queue_GetPointer Queue_GetTag Queue_MakeTagged" using tagged_words_pack by simp
qed

text \<open>Where a thread stands, before the access named. The words are \<open>node\<close>, \<open>tailTagged\<close>, \<open>nextTagged\<close>,
  \<open>headTagged\<close> and \<open>data\<close>; the number after a copied word is its history variable at that time.
  \<open>EnqInit\<close> writes \<open>node->next\<close>, \<open>EnqTail\<close> reads \<open>_tail\<close>, \<open>EnqNext\<close> reads \<open>tail->next\<close>, \<open>EnqCheck\<close> reads \<open>_tail\<close>
  again, \<open>EnqLink\<close>, \<open>EnqSwing\<close> and \<open>EnqHelp\<close> are the exchanges, \<open>EnqCount\<close> adds to \<open>_size\<close>. \<open>DeqDec\<close> and
  \<open>DeqRestore\<close> change \<open>_size\<close>, \<open>DeqHead\<close>, \<open>DeqTail\<close>, \<open>DeqNext\<close> and \<open>DeqData\<close> read, \<open>DeqHelp\<close> and \<open>DeqSwap\<close> are the
  exchanges, \<open>DeqFree\<close> frees.\<close>

datatype 'a queue_pc = QIdle
  | EnqInit u64 | EnqTail u64 | EnqNext u64 u64 nat | EnqCheck u64 u64 nat u64 nat
  | EnqLink u64 u64 nat u64 nat | EnqHelp u64 u64 nat u64 | EnqSwing u64 u64 nat | EnqCount
  | DeqDec | DeqRestore | DeqHead | DeqTail u64 nat | DeqNext u64 nat u64 nat | DeqHelp u64 nat u64
  | DeqData u64 nat u64 | DeqSwap u64 nat u64 'a | DeqFree u64 'a

datatype 'a queue_event = QSilent | QCalled | QEnqueued 'a | QDequeued 'a | QRefused | QReturned 'a | QFinished

datatype 'a queue_call = CallEnqueue 'a u64 | CallDequeue

definition set_next :: "u64 \<Rightarrow> u64 \<Rightarrow> 'a lf_queue \<Rightarrow> 'a lf_queue" where
  "set_next p w s = s\<lparr>q_node := (q_node s)(p := (q_node s p)\<lparr>qn_next := w\<rparr>),
     q_links := (q_links s)(p := Suc (q_links s p))\<rparr>"

text \<open>The exchanges of the tail, which nobody checks, and of the head.\<close>

definition swing_tail :: "u64 \<Rightarrow> u64 \<Rightarrow> 'a lf_queue \<Rightarrow> 'a lf_queue" where
  "swing_tail tailTagged p s =
     (if q_tail s = tailTagged
      then s\<lparr>q_tail := Queue_MakeTagged (Queue_GetTag tailTagged + 1) p, q_tails := Suc (q_tails s)\<rparr> else s)"

definition move_head :: "u64 \<Rightarrow> u64 \<Rightarrow> 'a lf_queue \<Rightarrow> 'a lf_queue" where
  "move_head headTagged p s = s\<lparr>q_head := Queue_MakeTagged (Queue_GetTag headTagged + 1) p, q_heads := Suc (q_heads s)\<rparr>"

definition add_size :: "int \<Rightarrow> 'a lf_queue \<Rightarrow> 'a lf_queue" where
  "add_size k s = s\<lparr>q_size := q_size s + of_int k, q_count := q_count s + k\<rparr>"

definition Queue_GetSize :: "'a lf_queue \<Rightarrow> 32 word" where
  "Queue_GetSize s = q_size s"

section \<open>Steps\<close>

text \<open>The constructor takes a block \<open>p\<close> from the pool, whose memory is \<open>m\<close>.\<close>

definition queue_init :: "u64 \<Rightarrow> (u64 \<Rightarrow> 'a qnode) \<Rightarrow> 'a lf_queue" where
  "queue_init p m = set_next p (Queue_MakeTagged (Queue_GetTag (qn_next (m p)) + 1) 0)
     \<lparr>q_size = 0, q_head = Queue_MakeTagged 0 p, q_tail = Queue_MakeTagged 0 p, q_node = m, q_used = {p},
      q_heads = 0, q_tails = 0, q_links = \<lambda>q. unat (Queue_GetTag (qn_next (m q))), q_count = 0\<rparr>"

fun queue_start :: "'a queue_call \<Rightarrow> 'a lf_queue \<Rightarrow> ('a queue_pc \<times> 'a lf_queue) option" where
  "queue_start (CallEnqueue t p) s =
     (if p \<noteq> 0 \<and> user_ptr p \<and> p \<notin> q_used s
      then Some (EnqInit p, s\<lparr>q_used := insert p (q_used s), q_node := (q_node s)(p := (q_node s p)\<lparr>qn_data := t\<rparr>)\<rparr>)
      else None)"
| "queue_start CallDequeue s = Some (DeqDec, s)"

fun Enqueue_step :: "'a queue_pc \<Rightarrow> 'a lf_queue \<Rightarrow> ('a queue_pc \<times> 'a lf_queue \<times> 'a queue_event) option" where
  "Enqueue_step (EnqInit p) s =
     Some (EnqTail p, set_next p (Queue_MakeTagged (Queue_GetTag (qn_next (q_node s p)) + 1) 0) s, QSilent)"
| "Enqueue_step (EnqTail p) s = Some (EnqNext p (q_tail s) (q_tails s), s, QSilent)"
| "Enqueue_step (EnqNext p tw n) s =
     Some (EnqCheck p tw n (qn_next (q_node s (Queue_GetPointer tw))) (q_links s (Queue_GetPointer tw)), s, QSilent)"
| "Enqueue_step (EnqCheck p tw n nw k) s =
     Some (if tw \<noteq> q_tail s then EnqTail p
           else if Queue_GetPointer nw = 0 then EnqLink p tw n nw k else EnqHelp p tw n nw, s, QSilent)"
| "Enqueue_step (EnqLink p tw n nw k) s =
     (if qn_next (q_node s (Queue_GetPointer tw)) = nw
      then Some (EnqSwing p tw n, set_next (Queue_GetPointer tw) (Queue_MakeTagged (Queue_GetTag nw + 1) p) s,
        QEnqueued (qn_data (q_node s p)))
      else Some (EnqTail p, s, QSilent))"
| "Enqueue_step (EnqHelp p tw n nw) s = Some (EnqTail p, swing_tail tw (Queue_GetPointer nw) s, QSilent)"
| "Enqueue_step (EnqSwing p tw n) s = Some (EnqCount, swing_tail tw p s, QSilent)"
| "Enqueue_step EnqCount s = Some (QIdle, add_size 1 s, QFinished)"
| "Enqueue_step _ s = None"

fun Dequeue_step :: "'a queue_pc \<Rightarrow> 'a lf_queue \<Rightarrow> ('a queue_pc \<times> 'a lf_queue \<times> 'a queue_event) option" where
  "Dequeue_step DeqDec s =
     (if sint (q_size (add_size (- 1) s)) < 0 then Some (DeqRestore, add_size (- 1) s, QRefused)
      else Some (DeqHead, add_size (- 1) s, QSilent))"
| "Dequeue_step DeqRestore s = Some (QIdle, add_size 1 s, QFinished)"
| "Dequeue_step DeqHead s = Some (DeqTail (q_head s) (q_heads s), s, QSilent)"
| "Dequeue_step (DeqTail hw h) s = Some (DeqNext hw h (q_tail s) (q_tails s), s, QSilent)"
| "Dequeue_step (DeqNext hw h tw n) s =
     (let nw = qn_next (q_node s (Queue_GetPointer hw)) in
      Some (if Queue_GetPointer nw = 0 then DeqHead
            else if Queue_GetPointer hw = Queue_GetPointer tw then DeqHelp tw n nw else DeqData hw h nw, s, QSilent))"
| "Dequeue_step (DeqHelp tw n nw) s = Some (DeqHead, swing_tail tw (Queue_GetPointer nw) s, QSilent)"
| "Dequeue_step (DeqData hw h nw) s = Some (DeqSwap hw h nw (qn_data (q_node s (Queue_GetPointer nw))), s, QSilent)"
| "Dequeue_step (DeqSwap hw h nw d) s =
     (if q_head s = hw then Some (DeqFree (Queue_GetPointer hw) d, move_head hw (Queue_GetPointer nw) s, QDequeued d)
      else Some (DeqHead, s, QSilent))"
| "Dequeue_step (DeqFree p d) s = Some (QIdle, s\<lparr>q_used := q_used s - {p}\<rparr>, QReturned d)"
| "Dequeue_step _ s = None"

type_synonym 'a queue_conf = "'a lf_queue \<times> (nat \<Rightarrow> 'a queue_pc)"

text \<open>The other queues of the pool may write the blocks that this one does not use; they count every change of
  a \<open>next\<close> up as well.\<close>

definition others_write :: "'a lf_queue \<Rightarrow> (u64 \<Rightarrow> 'a qnode) \<Rightarrow> (u64 \<Rightarrow> nat) \<Rightarrow> bool" where
  "others_write s m ks \<longleftrightarrow> (\<forall>p. q_links s p \<le> ks p \<and> qw.counts (ks p) (qn_next (m p)) \<and>
     (ks p = q_links s p \<longrightarrow> qn_next (m p) = qn_next (q_node s p)) \<and>
     (p \<in> q_used s \<longrightarrow> m p = q_node s p \<and> ks p = q_links s p))"

inductive queue_step :: "'a queue_conf \<Rightarrow> nat \<times> 'a queue_event \<Rightarrow> 'a queue_conf \<Rightarrow> bool" where
  call: "L t = QIdle \<Longrightarrow> queue_start c s = Some (pc, s') \<Longrightarrow> queue_step (s, L) (t, QCalled) (s', L(t := pc))"
| enqueue: "Enqueue_step (L t) s = Some (pc, s', e) \<Longrightarrow> queue_step (s, L) (t, e) (s', L(t := pc))"
| dequeue: "Dequeue_step (L t) s = Some (pc, s', e) \<Longrightarrow> queue_step (s, L) (t, e) (s', L(t := pc))"
| other: "others_write s m ks \<Longrightarrow> queue_step (s, L) (t, QSilent) (s\<lparr>q_node := m, q_links := ks\<rparr>, L)"

inductive_cases queue_stepE: "queue_step (s, L) (t, e) c'"

abbreviation "queue_run \<equiv> thread_run queue_step"

text \<open>\<open>~LockFreeQueue\<close>, when no thread uses the queue any more; the fuel bounds the number of nodes.\<close>

fun Queue_destruct :: "nat \<Rightarrow> u64 \<Rightarrow> 'a lf_queue \<Rightarrow> 'a lf_queue" where
  "Queue_destruct 0 node s = s"
| "Queue_destruct (Suc n) node s =
     (if node = 0 then s
      else Queue_destruct n (Queue_GetPointer (qn_next (q_node s node))) (s\<lparr>q_used := q_used s - {node}\<rparr>))"

section \<open>The abstract queue\<close>

text \<open>A list; for each thread, the value it has taken and not returned yet; and the threads that are inside
  an operation. A dequeue may be refused as long as there are no more values than other operations in
  progress.\<close>

type_synonym 'a queue_spec = "'a list \<times> (nat \<Rightarrow> 'a option) \<times> nat set"

fun queue_do :: "nat \<times> 'a queue_event \<Rightarrow> 'a queue_spec \<Rightarrow> 'a queue_spec option" where
  "queue_do (t, QSilent) (xs, P, A) = Some (xs, P, A)"
| "queue_do (t, QCalled) (xs, P, A) = (if t \<in> A then None else Some (xs, P, insert t A))"
| "queue_do (t, QEnqueued d) (xs, P, A) = (if t \<in> A then Some (xs @ [d], P, A) else None)"
| "queue_do (t, QDequeued d) (xs, P, A) =
     (case xs of x # ys \<Rightarrow> if t \<in> A \<and> x = d \<and> P t = None then Some (ys, P(t := Some d), A) else None | [] \<Rightarrow> None)"
| "queue_do (t, QRefused) (xs, P, A) = (if t \<in> A \<and> length xs \<le> card (A - {t}) then Some (xs, P, A) else None)"
| "queue_do (t, QReturned d) (xs, P, A) = (if t \<in> A \<and> P t = Some d then Some (xs, P(t := None), A - {t}) else None)"
| "queue_do (t, QFinished) (xs, P, A) = (if t \<in> A \<and> P t = None then Some (xs, P, A - {t}) else None)"

abbreviation "queue_spec_run \<equiv> act_all queue_do"

lemma queue_do_silent [simp]: "queue_do (t, QSilent) a = Some a"
  by (cases a) simp

section \<open>The invariant\<close>

abbreviation next_ptr :: "'a lf_queue \<Rightarrow> u64 \<Rightarrow> u64" where
  "next_ptr s p \<equiv> Queue_GetPointer (qn_next (q_node s p))"

abbreviation tail_ptr :: "'a lf_queue \<Rightarrow> u64" where "tail_ptr s \<equiv> Queue_GetPointer (q_tail s)"
abbreviation head_ptr :: "'a lf_queue \<Rightarrow> u64" where "head_ptr s \<equiv> Queue_GetPointer (q_head s)"

fun q_owned :: "'a queue_pc \<Rightarrow> u64 set" where
  "q_owned (EnqInit p) = {p}"
| "q_owned (EnqTail p) = {p}"
| "q_owned (EnqNext p tw n) = {p}"
| "q_owned (EnqCheck p tw n nw k) = {p}"
| "q_owned (EnqLink p tw n nw k) = {p}"
| "q_owned (EnqHelp p tw n nw) = {p}"
| "q_owned (DeqFree p d) = {p}"
| "q_owned _ = {}"

text \<open>Threads that have decremented \<open>_size\<close> for a value they have not taken yet, and all whose part in \<open>_size\<close>
  differs from their part in the list.\<close>

fun reserved :: "'a queue_pc \<Rightarrow> bool" where
  "reserved DeqHead \<longleftrightarrow> True"
| "reserved (DeqTail hw h) \<longleftrightarrow> True"
| "reserved (DeqNext hw h tw n) \<longleftrightarrow> True"
| "reserved (DeqHelp tw n nw) \<longleftrightarrow> True"
| "reserved (DeqData hw h nw) \<longleftrightarrow> True"
| "reserved (DeqSwap hw h nw d) \<longleftrightarrow> True"
| "reserved _ \<longleftrightarrow> False"

fun in_debt :: "'a queue_pc \<Rightarrow> bool" where
  "in_debt (EnqSwing p tw n) \<longleftrightarrow> True"
| "in_debt EnqCount \<longleftrightarrow> True"
| "in_debt DeqRestore \<longleftrightarrow> True"
| "in_debt pc \<longleftrightarrow> reserved pc"

definition snap_head :: "'a lf_queue \<Rightarrow> u64 \<Rightarrow> nat \<Rightarrow> bool" where
  "snap_head s w h \<longleftrightarrow> h \<le> q_heads s \<and> qw.counts h w \<and> (h = q_heads s \<longrightarrow> w = q_head s)"

definition snap_tail :: "'a lf_queue \<Rightarrow> u64 \<Rightarrow> nat \<Rightarrow> bool" where
  "snap_tail s w n \<longleftrightarrow> n \<le> q_tails s \<and> qw.counts n w \<and> (n = q_tails s \<longrightarrow> w = q_tail s)"

definition snap_next :: "'a lf_queue \<Rightarrow> u64 \<Rightarrow> u64 \<Rightarrow> nat \<Rightarrow> bool" where
  "snap_next s p w k \<longleftrightarrow> k \<le> q_links s p \<and> qw.counts k w \<and> (k = q_links s p \<longrightarrow> w = qn_next (q_node s p))"

text \<open>What a thread's copies mean while they are up to date.\<close>

fun qpc_ok :: "'a lf_queue \<Rightarrow> 'a queue_pc \<Rightarrow> bool" where
  "qpc_ok s (EnqTail p) \<longleftrightarrow> next_ptr s p = 0"
| "qpc_ok s (EnqNext p tw n) \<longleftrightarrow> next_ptr s p = 0 \<and> snap_tail s tw n"
| "qpc_ok s (EnqCheck p tw n nw k) \<longleftrightarrow> next_ptr s p = 0 \<and> snap_tail s tw n \<and> snap_next s (Queue_GetPointer tw) nw k \<and>
     (n = q_tails s \<longrightarrow> Queue_GetPointer nw \<noteq> 0 \<longrightarrow> next_ptr s (Queue_GetPointer tw) = Queue_GetPointer nw)"
| "qpc_ok s (EnqLink p tw n nw k) \<longleftrightarrow> next_ptr s p = 0 \<and> snap_tail s tw n \<and> snap_next s (Queue_GetPointer tw) nw k \<and>
     Queue_GetPointer nw = 0 \<and> (k = q_links s (Queue_GetPointer tw) \<longrightarrow> n = q_tails s)"
| "qpc_ok s (EnqHelp p tw n nw) \<longleftrightarrow> next_ptr s p = 0 \<and> snap_tail s tw n \<and> Queue_GetPointer nw \<noteq> 0 \<and>
     (n = q_tails s \<longrightarrow> next_ptr s (Queue_GetPointer tw) = Queue_GetPointer nw)"
| "qpc_ok s (EnqSwing p tw n) \<longleftrightarrow> snap_tail s tw n \<and> p \<noteq> 0 \<and> (n = q_tails s \<longrightarrow> next_ptr s (Queue_GetPointer tw) = p)"
| "qpc_ok s (DeqTail hw h) \<longleftrightarrow> snap_head s hw h"
| "qpc_ok s (DeqNext hw h tw n) \<longleftrightarrow> snap_head s hw h \<and> snap_tail s tw n \<and>
     (h = q_heads s \<longrightarrow> Queue_GetPointer tw \<noteq> Queue_GetPointer hw \<longrightarrow> tail_ptr s \<noteq> Queue_GetPointer hw)"
| "qpc_ok s (DeqHelp tw n nw) \<longleftrightarrow> snap_tail s tw n \<and> Queue_GetPointer nw \<noteq> 0 \<and>
     (n = q_tails s \<longrightarrow> next_ptr s (Queue_GetPointer tw) = Queue_GetPointer nw)"
| "qpc_ok s (DeqData hw h nw) \<longleftrightarrow> snap_head s hw h \<and> Queue_GetPointer nw \<noteq> 0 \<and>
     (h = q_heads s \<longrightarrow> next_ptr s (Queue_GetPointer hw) = Queue_GetPointer nw \<and> tail_ptr s \<noteq> Queue_GetPointer hw)"
| "qpc_ok s (DeqSwap hw h nw d) \<longleftrightarrow> snap_head s hw h \<and> Queue_GetPointer nw \<noteq> 0 \<and>
     (h = q_heads s \<longrightarrow> next_ptr s (Queue_GetPointer hw) = Queue_GetPointer nw \<and> tail_ptr s \<noteq> Queue_GetPointer hw \<and>
        d = qn_data (q_node s (Queue_GetPointer nw)))"
| "qpc_ok s _ \<longleftrightarrow> True"

text \<open>The shared state: \<open>xs\<close> are the nodes from the head, the first of which carries no value any more; the tail
  is the last of them or the last but one.\<close>

definition queue_shape :: "u64 list \<Rightarrow> 'a lf_queue \<Rightarrow> bool" where
  "queue_shape xs s \<longleftrightarrow> linked_from (next_ptr s) xs \<and> distinct xs \<and> hd xs = head_ptr s \<and> tail_ptr s \<in> set xs \<and>
     (next_ptr s (tail_ptr s) \<noteq> 0 \<longrightarrow> next_ptr s (next_ptr s (tail_ptr s)) = 0) \<and>
     (\<forall>p\<in>q_used s. user_ptr p \<and> p \<noteq> 0) \<and> qw.counts (q_heads s) (q_head s) \<and> qw.counts (q_tails s) (q_tail s) \<and>
     (\<forall>p. qw.counts (q_links s p) (qn_next (q_node s p))) \<and> q_size s = of_int (q_count s)"

definition queue_counted :: "u64 list \<Rightarrow> 'a queue_conf \<Rightarrow> bool" where
  "queue_counted xs c \<longleftrightarrow> (case c of (s, L) \<Rightarrow> finite {t. L t \<noteq> QIdle} \<and>
     q_count s = int (length (tl xs)) - int (number in_debt L) \<and> number reserved L \<le> length (tl xs))"

definition queue_view :: "u64 list \<Rightarrow> 'a queue_conf \<Rightarrow> bool" where
  "queue_view xs c \<longleftrightarrow> (case c of (s, L) \<Rightarrow> queue_shape xs s \<and> held (q_used s) (set xs) (\<lambda>t. q_owned (L t)) \<and>
     (\<forall>t. qpc_ok s (L t)) \<and> queue_counted xs c)"

fun q_pending :: "'a queue_pc \<Rightarrow> 'a option" where
  "q_pending (DeqFree p d) = Some d"
| "q_pending _ = None"

definition queue_abs :: "u64 list \<Rightarrow> 'a queue_conf \<Rightarrow> 'a queue_spec" where
  "queue_abs xs c = (case c of (s, L) \<Rightarrow> (map (\<lambda>p. qn_data (q_node s p)) (tl xs), \<lambda>t. q_pending (L t), {t. L t \<noteq> QIdle}))"

text \<open>The guard of a step: every copy the thread has is fewer than \<open>2 ^ 17\<close> exchanges old, and \<open>_size\<close> does
  not overflow.\<close>

fun copies_young :: "'a lf_queue \<Rightarrow> 'a queue_pc \<Rightarrow> bool" where
  "copies_young s (EnqNext p tw n) \<longleftrightarrow> q_tails s - n < tag_period"
| "copies_young s (EnqCheck p tw n nw k) \<longleftrightarrow> q_tails s - n < tag_period \<and> q_links s (Queue_GetPointer tw) - k < tag_period"
| "copies_young s (EnqLink p tw n nw k) \<longleftrightarrow> q_tails s - n < tag_period \<and> q_links s (Queue_GetPointer tw) - k < tag_period"
| "copies_young s (EnqHelp p tw n nw) \<longleftrightarrow> q_tails s - n < tag_period"
| "copies_young s (EnqSwing p tw n) \<longleftrightarrow> q_tails s - n < tag_period"
| "copies_young s (DeqTail hw h) \<longleftrightarrow> q_heads s - h < tag_period"
| "copies_young s (DeqNext hw h tw n) \<longleftrightarrow> q_heads s - h < tag_period \<and> q_tails s - n < tag_period"
| "copies_young s (DeqHelp tw n nw) \<longleftrightarrow> q_tails s - n < tag_period"
| "copies_young s (DeqData hw h nw) \<longleftrightarrow> q_heads s - h < tag_period"
| "copies_young s (DeqSwap hw h nw d) \<longleftrightarrow> q_heads s - h < tag_period"
| "copies_young s DeqDec \<longleftrightarrow> - (2 ^ 31) < q_count s \<and> q_count s \<le> 2 ^ 31"
| "copies_young s _ \<longleftrightarrow> True"

fun queue_young :: "'a queue_conf \<Rightarrow> nat \<Rightarrow> bool" where
  "queue_young (s, L) t \<longleftrightarrow> copies_young s (L t)"

end
