(* ===== verification/QueueSteps.thy ===== *)
theory QueueSteps
  imports LockFreeQueue
begin

text \<open>
  Every access of the lock-free queue keeps the invariant and does what the abstract queue does. The
  changes of the shared state are few: a write to a node that is not in the list, the link of a node at
  the end, a move of the tail and a move of the head; each has one lemma on the shape of the queue and
  one on the copies of the threads.
\<close>

section \<open>The fields after each change\<close>

lemma set_next_simps [simp]:
  "qn_next (q_node (set_next p w s) q) = (if q = p then w else qn_next (q_node s q))"
  "qn_data (q_node (set_next p w s) q) = qn_data (q_node s q)"
  "q_links (set_next p w s) q = (if q = p then Suc (q_links s p) else q_links s q)"
  "q_tail (set_next p w s) = q_tail s" "q_head (set_next p w s) = q_head s" "q_tails (set_next p w s) = q_tails s"
  "q_heads (set_next p w s) = q_heads s" "q_used (set_next p w s) = q_used s" "q_size (set_next p w s) = q_size s"
  "q_count (set_next p w s) = q_count s"
  by (simp_all add: set_next_def)

lemma swing_tail_same [simp]: "q_head (swing_tail w p s) = q_head s" "q_heads (swing_tail w p s) = q_heads s"
  "q_node (swing_tail w p s) = q_node s" "q_links (swing_tail w p s) = q_links s" "q_used (swing_tail w p s) = q_used s"
  "q_size (swing_tail w p s) = q_size s" "q_count (swing_tail w p s) = q_count s"
  by (simp_all add: swing_tail_def)

lemma swing_tail_hit: "q_tail (swing_tail (q_tail s) p s) = Queue_MakeTagged (Queue_GetTag (q_tail s) + 1) p"
  "q_tails (swing_tail (q_tail s) p s) = Suc (q_tails s)"
  by (simp_all add: swing_tail_def)

lemma swing_tail_miss: "q_tail s \<noteq> w \<Longrightarrow> swing_tail w p s = s"
  by (simp add: swing_tail_def)

lemma move_head_simps [simp]: "q_head (move_head w p s) = Queue_MakeTagged (Queue_GetTag w + 1) p"
  "q_heads (move_head w p s) = Suc (q_heads s)" "q_tail (move_head w p s) = q_tail s" "q_tails (move_head w p s) = q_tails s"
  "q_node (move_head w p s) = q_node s" "q_links (move_head w p s) = q_links s" "q_used (move_head w p s) = q_used s"
  "q_size (move_head w p s) = q_size s" "q_count (move_head w p s) = q_count s"
  by (simp_all add: move_head_def)

lemma add_size_simps [simp]: "q_head (add_size k s) = q_head s" "q_heads (add_size k s) = q_heads s"
  "q_tail (add_size k s) = q_tail s" "q_tails (add_size k s) = q_tails s" "q_node (add_size k s) = q_node s"
  "q_links (add_size k s) = q_links s" "q_used (add_size k s) = q_used s"
  "q_size (add_size k s) = q_size s + of_int k" "q_count (add_size k s) = q_count s + k"
  by (simp_all add: add_size_def)

section \<open>The copies of the other threads\<close>

lemma snap_same [simp]:
  "snap_head (set_next p w s) = snap_head s" "snap_tail (set_next p w s) = snap_tail s"
  "snap_head (add_size i s) = snap_head s" "snap_tail (add_size i s) = snap_tail s" "snap_next (add_size i s) = snap_next s"
  "snap_head (s\<lparr>q_used := U\<rparr>) = snap_head s" "snap_tail (s\<lparr>q_used := U\<rparr>) = snap_tail s"
  "snap_next (s\<lparr>q_used := U\<rparr>) = snap_next s"
  "snap_head (s\<lparr>q_node := m\<rparr>) = snap_head s" "snap_tail (s\<lparr>q_node := m\<rparr>) = snap_tail s"
  "snap_head (s\<lparr>q_node := m, q_links := ks\<rparr>) = snap_head s" "snap_tail (s\<lparr>q_node := m, q_links := ks\<rparr>) = snap_tail s"
  "snap_head (swing_tail w p s) = snap_head s" "snap_next (swing_tail w p s) = snap_next s"
  "snap_tail (move_head w p s) = snap_tail s" "snap_next (move_head w p s) = snap_next s"
  by (simp_all add: snap_head_def snap_tail_def snap_next_def fun_eq_iff)

lemma snap_next_set_next: "snap_next s q v k \<Longrightarrow> snap_next (set_next p w s) q v k"
  by (auto simp: snap_next_def)

lemma snap_next_data: "snap_next (s\<lparr>q_node := (q_node s)(p := (q_node s p)\<lparr>qn_data := d\<rparr>)\<rparr>) = snap_next s"
  by (auto simp: snap_next_def fun_eq_iff)

lemma snap_next_other: "others_write s m ks \<Longrightarrow> snap_next s p w k \<Longrightarrow> snap_next (s\<lparr>q_node := m, q_links := ks\<rparr>) p w k"
  unfolding others_write_def snap_next_def by (simp, metis le_trans le_antisym)

lemma snap_swing_tail: "snap_tail s v n \<Longrightarrow> snap_tail (swing_tail (q_tail s) p s) v n"
  by (auto simp: snap_tail_def swing_tail_hit)

lemma snap_move_head: "snap_head s v h \<Longrightarrow> snap_head (move_head w p s) v h"
  by (auto simp: snap_head_def)

lemma snap_now:
  "snap_tail s w n \<Longrightarrow> n = q_tails s \<Longrightarrow> w = q_tail s" "snap_tail s w n \<Longrightarrow> n \<le> q_tails s"
  "snap_head s w h \<Longrightarrow> h = q_heads s \<Longrightarrow> w = q_head s" "snap_head s w h \<Longrightarrow> h \<le> q_heads s"
  "snap_next s p w k \<Longrightarrow> k = q_links s p \<Longrightarrow> w = qn_next (q_node s p)" "snap_next s p w k \<Longrightarrow> k \<le> q_links s p"
  by (simp_all add: snap_head_def snap_tail_def snap_next_def)

lemma qpc_set_next:
  assumes k: "qpc_ok s pc" and o: "p \<notin> q_owned pc" and z: "p = tail_ptr s \<or> p = head_ptr s \<Longrightarrow> next_ptr s p = 0"
  shows "qpc_ok (set_next p w s) pc"
proof -
  have t: "Queue_GetPointer tw \<noteq> p" if "snap_tail s tw n" "n = q_tails s" "next_ptr s (Queue_GetPointer tw) \<noteq> 0" for tw n
    using z snap_now(1)[OF that(1,2)] that(3) by auto
  have h: "Queue_GetPointer hw \<noteq> p" if "snap_head s hw h" "h = q_heads s" "next_ptr s (Queue_GetPointer hw) \<noteq> 0" for hw h
    using z snap_now(3)[OF that(1,2)] that(3) by auto
  show ?thesis
  proof (cases pc)
    case (EnqCheck p' tw n nw i)
    then show ?thesis using k o t[of tw n] snap_next_set_next[of s "Queue_GetPointer tw" nw i]
      by (cases "n = q_tails s") simp_all
  next
    case (EnqLink p' tw n nw i)
    have "i \<noteq> Suc (q_links s (Queue_GetPointer tw))" using k EnqLink snap_now(6)[of s "Queue_GetPointer tw" nw i] by auto
    then show ?thesis using k o EnqLink snap_next_set_next[of s "Queue_GetPointer tw" nw i]
      by (cases "Queue_GetPointer tw = p") auto
  next
    case (EnqHelp p' tw n nw)
    then show ?thesis using k o t[of tw n] by (cases "n = q_tails s") simp_all
  next
    case (EnqSwing p' tw n)
    then show ?thesis using k t[of tw n] by (cases "n = q_tails s") simp_all
  next
    case (DeqHelp tw n nw)
    then show ?thesis using k t[of tw n] by (cases "n = q_tails s") simp_all
  next
    case (DeqData hw i nw)
    then show ?thesis using k h[of hw i] by (cases "i = q_heads s") simp_all
  next
    case (DeqSwap hw i nw d)
    then show ?thesis using k h[of hw i] by (cases "i = q_heads s") simp_all
  qed (use k o in simp_all)
qed

lemma qpc_swing_tail:
  assumes k: "qpc_ok s pc" and p: "next_ptr s (tail_ptr s) = p" "p \<noteq> 0" "p \<noteq> head_ptr s" "user_ptr p"
  shows "qpc_ok (swing_tail (q_tail s) p s) pc"
proof -
  let ?s = "swing_tail (q_tail s) p s"
  have ts: "q_tails ?s = Suc (q_tails s)" "tail_ptr ?s = p" using p(4) by (simp_all add: swing_tail_hit qw.ptr_mk)
  have old: "n \<noteq> Suc (q_tails s)" if "snap_tail s tw n" for tw n using snap_now(2)[OF that] by simp
  show ?thesis
  proof (cases pc)
    case (EnqLink p' tw n nw i)
    have "n \<noteq> q_tails s" if "i = q_links s (Queue_GetPointer tw)"
    proof
      assume "n = q_tails s"
      then have "nw = qn_next (q_node s (tail_ptr s))"
        using k EnqLink snap_now(1)[of s tw n] snap_now(5)[of s "Queue_GetPointer tw" nw i] that by simp
      then show False using p k EnqLink by simp
    qed
    then show ?thesis using k EnqLink snap_swing_tail[of s tw n] by auto
  next
    case (DeqNext hw h tw n)
    then show ?thesis using k p snap_swing_tail[of s tw n] snap_now(3)[of s hw h] ts(2) by auto
  next
    case (EnqNext p' tw n)
    then show ?thesis using k snap_swing_tail[of s tw n] by simp
  next
    case (EnqCheck p' tw n nw i)
    then show ?thesis using k snap_swing_tail[of s tw n] old[of tw n] ts by simp
  next
    case (EnqHelp p' tw n nw)
    then show ?thesis using k snap_swing_tail[of s tw n] old[of tw n] ts by simp
  next
    case (EnqSwing p' tw n)
    then show ?thesis using k snap_swing_tail[of s tw n] old[of tw n] ts by simp
  next
    case (DeqHelp tw n nw)
    then show ?thesis using k snap_swing_tail[of s tw n] old[of tw n] ts by simp
  next
    case (DeqData hw h nw)
    then show ?thesis using k p snap_now(3)[of s hw h] ts(2) by auto
  next
    case (DeqSwap hw h nw d)
    then show ?thesis using k p snap_now(3)[of s hw h] ts(2) by auto
  qed (use k in simp_all)
qed

lemma qpc_move_head:
  assumes k: "qpc_ok s pc"
  shows "qpc_ok (move_head w p s) pc"
proof -
  have old: "snap_head (move_head w p s) hw h" "h \<noteq> Suc (q_heads s)" if "snap_head s hw h" for hw h
    using snap_now(4)[OF that] snap_move_head[OF that] by simp_all
  show ?thesis
  proof (cases pc)
    case (DeqTail hw h)
    then show ?thesis using k old[of hw h] by simp
  next
    case (DeqNext hw h tw n)
    then show ?thesis using k old[of hw h] by simp
  next
    case (DeqData hw h nw)
    then show ?thesis using k old[of hw h] by simp
  next
    case (DeqSwap hw h nw d)
    then show ?thesis using k old[of hw h] by simp
  qed (use k in simp_all)
qed

lemma qpc_add_size: "qpc_ok (add_size i s) pc = qpc_ok s pc"
  by (cases pc) simp_all

lemma qpc_used: "qpc_ok (s\<lparr>q_used := U\<rparr>) pc = qpc_ok s pc"
  by (cases pc) simp_all

lemma qpc_data:
  assumes k: "qpc_ok s pc" and p: "p \<noteq> next_ptr s (head_ptr s)"
  shows "qpc_ok (s\<lparr>q_node := (q_node s)(p := (q_node s p)\<lparr>qn_data := d\<rparr>)\<rparr>) pc"
proof -
  have nx: "qn_next (((q_node s)(p := (q_node s p)\<lparr>qn_data := d\<rparr>)) q) = qn_next (q_node s q)" for q by simp
  show ?thesis
  proof (cases pc)
    case (DeqSwap hw h nw e)
    have "Queue_GetPointer nw \<noteq> p" if "h = q_heads s"
      using k p DeqSwap snap_now(3)[of s hw h] that by simp
    then show ?thesis using k DeqSwap by (simp add: nx del: fun_upd_apply) (simp add: fun_upd_def)
  qed (use k in \<open>simp_all add: nx snap_next_data del: fun_upd_apply\<close>)
qed

lemma qpc_other:
  assumes k: "qpc_ok s pc" and o: "others_write s m ks" and u: "tail_ptr s \<in> q_used s" "head_ptr s \<in> q_used s" "q_owned pc \<subseteq> q_used s"
    and hn: "next_ptr s (head_ptr s) \<noteq> 0 \<Longrightarrow> next_ptr s (head_ptr s) \<in> q_used s"
  shows "qpc_ok (s\<lparr>q_node := m, q_links := ks\<rparr>) pc"
proof -
  have m: "m p = q_node s p" if "p \<in> q_used s" for p using o that by (simp add: others_write_def)
  note sn = snap_next_other[OF o]
  have t: "m (Queue_GetPointer tw) = q_node s (Queue_GetPointer tw)" if "snap_tail s tw n" "n = q_tails s" for tw n
    using m[OF u(1)] snap_now(1)[OF that] by simp
  have h: "m (Queue_GetPointer hw) = q_node s (Queue_GetPointer hw)" if "snap_head s hw i" "i = q_heads s" for hw i
    using m[OF u(2)] snap_now(3)[OF that] by simp
  show ?thesis
  proof (cases pc)
    case (EnqTail p)
    then show ?thesis using k m[of p] u(3) by simp
  next
    case (EnqNext p tw n)
    then show ?thesis using k m[of p] u(3) by simp
  next
    case (EnqCheck p tw n nw i)
    then show ?thesis using k m[of p] u(3) t[of tw n] sn[of "Queue_GetPointer tw" nw i]
      by (cases "n = q_tails s") simp_all
  next
    case (EnqLink p tw n nw i)
    have "q_links s (Queue_GetPointer tw) \<le> ks (Queue_GetPointer tw)" using o by (simp add: others_write_def)
    then have "i = ks (Queue_GetPointer tw) \<Longrightarrow> i = q_links s (Queue_GetPointer tw)"
      using k EnqLink snap_now(6)[of s "Queue_GetPointer tw" nw i] by simp
    then show ?thesis using k EnqLink m[of p] u(3) sn[of "Queue_GetPointer tw" nw i] by simp
  next
    case (EnqHelp p tw n nw)
    then show ?thesis using k m[of p] u(3) t[of tw n] by (cases "n = q_tails s") simp_all
  next
    case (EnqSwing p tw n)
    then show ?thesis using k t[of tw n] by (cases "n = q_tails s") simp_all
  next
    case (DeqHelp tw n nw)
    then show ?thesis using k t[of tw n] by (cases "n = q_tails s") simp_all
  next
    case (DeqData hw i nw)
    then show ?thesis using k h[of hw i] by (cases "i = q_heads s") simp_all
  next
    case (DeqSwap hw i nw d)
    have "m (Queue_GetPointer nw) = q_node s (Queue_GetPointer nw)" if "i = q_heads s"
      using k DeqSwap m hn snap_now(3)[of s hw i] that by simp
    then show ?thesis using k DeqSwap h[of hw i] by (cases "i = q_heads s") simp_all
  qed (use k in simp_all)
qed

section \<open>The shape of the queue\<close>

lemma queue_shapeD:
  assumes "queue_shape xs s"
  shows "linked_from (next_ptr s) xs" "distinct xs" "hd xs = head_ptr s" "tail_ptr s \<in> set xs"
    "next_ptr s (tail_ptr s) \<noteq> 0 \<Longrightarrow> next_ptr s (next_ptr s (tail_ptr s)) = 0"
    "p \<in> q_used s \<Longrightarrow> user_ptr p" "0 \<notin> q_used s" "qw.counts (q_heads s) (q_head s)" "qw.counts (q_tails s) (q_tail s)"
    "qw.counts (q_links s p) (qn_next (q_node s p))" "q_size s = of_int (q_count s)" "head_ptr s \<in> set xs"
    "next_ptr s (tail_ptr s) \<noteq> 0 \<Longrightarrow> next_ptr s (tail_ptr s) \<in> set (tl xs)"
    "next_ptr s (head_ptr s) \<noteq> 0 \<Longrightarrow> next_ptr s (head_ptr s) \<in> set (tl xs)"
    "next_ptr s (head_ptr s) \<noteq> 0 \<longleftrightarrow> tl xs \<noteq> []" "head_ptr s \<notin> set (tl xs)" "set xs = insert (head_ptr s) (set (tl xs))"
proof -
  show 1: "linked_from (next_ptr s) xs" "distinct xs" "hd xs = head_ptr s" "tail_ptr s \<in> set xs"
    "next_ptr s (tail_ptr s) \<noteq> 0 \<Longrightarrow> next_ptr s (next_ptr s (tail_ptr s)) = 0"
    "p \<in> q_used s \<Longrightarrow> user_ptr p" "0 \<notin> q_used s" "qw.counts (q_heads s) (q_head s)" "qw.counts (q_tails s) (q_tail s)"
    "qw.counts (q_links s p) (qn_next (q_node s p))" "q_size s = of_int (q_count s)"
    using assms unfolding queue_shape_def by auto
  have ne: "xs \<noteq> []" using 1(1) by auto
  then show 2: "head_ptr s \<in> set xs" using 1(3) hd_in_set by metis
  show "next_ptr s (tail_ptr s) \<noteq> 0 \<Longrightarrow> next_ptr s (tail_ptr s) \<in> set (tl xs)"
    "next_ptr s (head_ptr s) \<noteq> 0 \<Longrightarrow> next_ptr s (head_ptr s) \<in> set (tl xs)"
    using linked_from_succ[OF 1(1)] 1(4) 2 by blast+
  show "next_ptr s (head_ptr s) \<noteq> 0 \<longleftrightarrow> tl xs \<noteq> []" using linked_from_hd0[OF 1(1)] 1(3) by simp
  show "head_ptr s \<notin> set (tl xs)" "set xs = insert (head_ptr s) (set (tl xs))"
    using 1(2,3) ne by (cases xs; auto)+
qed

lemma shape_set_next:
  assumes q: "queue_shape xs s" and p: "p \<notin> set xs"
  shows "queue_shape xs (set_next p (Queue_MakeTagged (Queue_GetTag (qn_next (q_node s p)) + 1) r) s)" (is "queue_shape xs ?s")
proof -
  note D = queue_shapeD[OF q]
  have "next_ptr ?s x = next_ptr s x" if "x \<in> set xs" for x using that p by auto
  then have "linked_from (next_ptr ?s) xs" using D(1) linked_from_cong[of xs "next_ptr ?s" "next_ptr s"] by blast
  moreover have "tail_ptr s \<noteq> p" "next_ptr s (tail_ptr s) \<noteq> 0 \<Longrightarrow> next_ptr s (tail_ptr s) \<noteq> p"
    using D(4,13,17) p by auto
  ultimately show ?thesis using q qw.counts_mk[OF D(10)] unfolding queue_shape_def by auto
qed

lemma shape_link:
  assumes q: "queue_shape xs s" and t: "next_ptr s (tail_ptr s) = 0" and p: "p \<notin> set xs" "p \<noteq> 0" "user_ptr p" "next_ptr s p = 0"
  shows "queue_shape (xs @ [p]) (set_next (tail_ptr s) (Queue_MakeTagged (Queue_GetTag (qn_next (q_node s (tail_ptr s))) + 1) p) s)"
    (is "queue_shape _ ?s")
proof -
  note D = queue_shapeD[OF q]
  have l: "tail_ptr s = last xs" using linked_from_end[OF D(1,4) t] .
  have e: "next_ptr ?s = (next_ptr s)(last xs := p)" using p(3) by (auto simp: fun_eq_iff l qw.ptr_mk)
  have "linked_from (next_ptr ?s) (xs @ [p])" unfolding e by (rule linked_from_append[OF D(1,2) p(1,2,4)])
  moreover have "hd (xs @ [p]) = hd xs" using linked_from_ne[OF D(1)] by simp
  moreover have "p \<noteq> tail_ptr s" using D(4) p(1) by auto
  ultimately show ?thesis using q p qw.counts_mk[OF D(10)] unfolding queue_shape_def by (auto simp: qw.ptr_mk)
qed

lemma shape_swing_tail:
  assumes q: "queue_shape xs s" and t: "next_ptr s (tail_ptr s) = p" "p \<noteq> 0"
  shows "queue_shape xs (swing_tail (q_tail s) p s)"
proof -
  note D = queue_shapeD[OF q]
  have "user_ptr p" using t qw.ptr_user by metis
  then show ?thesis using q t D(5,13,17) qw.counts_mk[OF D(9)]
    unfolding queue_shape_def by (auto simp: swing_tail_hit qw.ptr_mk)
qed

lemma shape_move_head:
  assumes q: "queue_shape xs s" and t: "next_ptr s (head_ptr s) = p" "p \<noteq> 0" "tail_ptr s \<noteq> head_ptr s"
  shows "queue_shape (tl xs) (move_head (q_head s) p s)" "hd (tl xs) = p"
proof -
  note D = queue_shapeD[OF q]
  have ne: "tl xs \<noteq> []" using D(15) t by simp
  have l: "linked_from (next_ptr s) (tl xs)" "hd (tl xs) = p" using linked_from_hd[OF D(1) ne] D(3) t(1) by simp_all
  have "user_ptr p" using t qw.ptr_user by metis
  moreover have "tail_ptr s \<in> set (tl xs)" using D(4,17) t(3) by simp
  ultimately show "queue_shape (tl xs) (move_head (q_head s) p s)" using q l distinct_tl[of xs] qw.counts_mk[OF D(8)]
    unfolding queue_shape_def by (auto simp: qw.ptr_mk)
  show "hd (tl xs) = p" by (rule l)
qed

lemma shape_add_size: "queue_shape xs s \<Longrightarrow> queue_shape xs (add_size k s)"
  unfolding queue_shape_def by simp

lemma shape_give_back: "queue_shape xs s \<Longrightarrow> queue_shape xs (s\<lparr>q_used := q_used s - U\<rparr>)"
  unfolding queue_shape_def by simp

lemma shape_alloc:
  assumes "queue_shape xs s" and "p \<noteq> 0" "user_ptr p"
  shows "queue_shape xs (s\<lparr>q_used := insert p (q_used s), q_node := (q_node s)(p := (q_node s p)\<lparr>qn_data := d\<rparr>)\<rparr>)"
proof -
  have "qn_next (((q_node s)(p := (q_node s p)\<lparr>qn_data := d\<rparr>)) q) = qn_next (q_node s q)" for q by simp
  then show ?thesis using assms unfolding queue_shape_def by (auto simp del: fun_upd_apply)
qed

lemma shape_other:
  assumes q: "queue_shape xs s" and o: "others_write s m ks" and u: "set xs \<subseteq> q_used s"
  shows "queue_shape xs (s\<lparr>q_node := m, q_links := ks\<rparr>)"
proof -
  note D = queue_shapeD[OF q]
  have m: "m p = q_node s p" if "p \<in> set xs" for p using o u that by (auto simp: others_write_def)
  have c: "qw.counts (ks p) (qn_next (m p))" for p using o by (simp add: others_write_def)
  have "linked_from (\<lambda>p. Queue_GetPointer (qn_next (m p))) xs"
    using D(1) linked_from_cong[of xs "\<lambda>p. Queue_GetPointer (qn_next (m p))" "next_ptr s"] m by simp
  moreover have "next_ptr s (tail_ptr s) \<noteq> 0 \<Longrightarrow> m (next_ptr s (tail_ptr s)) = q_node s (next_ptr s (tail_ptr s))"
    using D(13,17) m by auto
  ultimately show ?thesis using q m[OF D(4)] c unfolding queue_shape_def by simp
qed

section \<open>The invariant after a step\<close>

lemma queue_viewD:
  assumes "queue_view xs (s, L)"
  shows "queue_shape xs s" "held (q_used s) (set xs) (\<lambda>t. q_owned (L t))" "qpc_ok s (L t)" "queue_counted xs (s, L)"
    "p \<in> set xs \<Longrightarrow> p \<in> q_used s" "p \<in> q_owned (L t) \<Longrightarrow> p \<in> q_used s \<and> p \<notin> set xs" "tail_ptr s \<in> q_used s"
    "head_ptr s \<in> q_used s" "next_ptr s (head_ptr s) \<noteq> 0 \<Longrightarrow> next_ptr s (head_ptr s) \<in> set xs"
    "p \<in> q_owned (L t) \<Longrightarrow> u \<noteq> t \<Longrightarrow> p \<notin> q_owned (L u)"
proof -
  show 1: "queue_shape xs s" "held (q_used s) (set xs) (\<lambda>t. q_owned (L t))" "qpc_ok s (L t)" "queue_counted xs (s, L)"
    using assms by (simp_all add: queue_view_def)
  note D = queue_shapeD[OF 1(1)] and H = heldD[OF 1(2)]
  show "p \<in> set xs \<Longrightarrow> p \<in> q_used s" by (rule H(1))
  show "p \<in> q_owned (L t) \<Longrightarrow> p \<in> q_used s \<and> p \<notin> set xs" using H(2,3)[of p t] by simp
  show "tail_ptr s \<in> q_used s" by (rule H(1)) (rule D)
  show "head_ptr s \<in> q_used s" by (rule H(1)) (rule D)
  show "next_ptr s (head_ptr s) \<noteq> 0 \<Longrightarrow> next_ptr s (head_ptr s) \<in> set xs" using D(14,17) by simp
  show "p \<in> q_owned (L t) \<Longrightarrow> u \<noteq> t \<Longrightarrow> p \<notin> q_owned (L u)" using H(4)[of p t u] by auto
qed

lemma owned_move: "(\<lambda>u. q_owned ((L(t := pc)) u)) = (\<lambda>u. q_owned (L u))(t := q_owned pc)"
  by (rule ext) simp

lemma queue_viewI:
  assumes "queue_shape ys s'" and "held (q_used s') (set ys) ((\<lambda>u. q_owned (L u))(t := q_owned pc))"
    and "\<And>u. u \<noteq> t \<Longrightarrow> qpc_ok s' (L u)" and "qpc_ok s' pc" and "queue_counted ys (s', L(t := pc))"
  shows "queue_view ys (s', L(t := pc))"
  unfolding queue_view_def prod.case owned_move using assms by simp

lemma queue_counted_move:
  assumes "queue_counted xs (s, L)"
    and "q_count s' - q_count s = int (length (tl ys)) - int (length (tl xs)) + of_bool (in_debt (L t)) - of_bool (in_debt pc)"
    and "0 \<le> q_count s' \<or> int (length (tl ys)) - int (length (tl xs)) \<ge> of_bool (reserved pc) - of_bool (reserved (L t))"
  shows "queue_counted ys (s', L(t := pc))"
proof -
  let ?N = "\<lambda>pc :: 'a queue_pc. pc \<noteq> QIdle"
  have f: "finite {u. ?N (L u)}" using assms(1) by (simp add: queue_counted_def)
  have d: "\<And>pc :: 'a queue_pc. in_debt pc \<Longrightarrow> ?N pc" "\<And>pc :: 'a queue_pc. reserved pc \<Longrightarrow> ?N pc"
    "\<And>pc :: 'a queue_pc. reserved pc \<Longrightarrow> in_debt pc" by auto (case_tac pc; simp)
  have f': "finite {u. ?N ((L(t := pc)) u)}" by (rule finite_move[where P = ?N, OF f])
  have n: "int (number in_debt (L(t := pc))) = int (number in_debt L) - of_bool (in_debt (L t)) + of_bool (in_debt pc)"
    "int (number reserved (L(t := pc))) = int (number reserved L) - of_bool (reserved (L t)) + of_bool (reserved pc)"
    by (rule number_move, rule finite_imp[where P = ?N, OF f], erule d)+
  have "number reserved (L(t := pc)) \<le> number in_debt (L(t := pc))"
    unfolding number_def by (rule card_mono[OF finite_imp[where P = ?N, OF f' d(1)]]) (use d(3) in auto)
  then show ?thesis using assms f' n unfolding queue_counted_def prod.case by linarith
qed

lemma queue_abs_move: "queue_abs ys (s', L(t := pc)) = (map (\<lambda>p. qn_data (q_node s' p)) (tl ys), (\<lambda>u. q_pending (L u))(t := q_pending pc),
    if pc = QIdle then {u. L u \<noteq> QIdle} - {t} else insert t {u. L u \<noteq> QIdle})"
  by (auto simp: queue_abs_def)

definition simulates :: "u64 list \<Rightarrow> 'a queue_conf \<Rightarrow> nat \<times> 'a queue_event \<Rightarrow> 'a queue_conf \<Rightarrow> bool" where
  "simulates xs c e c' \<longleftrightarrow> (\<exists>ys. queue_view ys c' \<and> queue_do e (queue_abs xs c) = Some (queue_abs ys c'))"

text \<open>A step that changes neither the list nor its values: it moves a thread, and perhaps the shared state.\<close>

lemma quiet_step:
  assumes v: "queue_view xs (s, L)" and sh: "queue_shape xs s'" "q_used s' = q_used s" "q_count s' = q_count s"
    and d: "\<And>p. p \<in> set xs \<Longrightarrow> qn_data (q_node s' p) = qn_data (q_node s p)"
    and k: "\<And>u. u \<noteq> t \<Longrightarrow> qpc_ok s' (L u)" "qpc_ok s' pc"
    and p: "q_owned pc = q_owned (L t)" "in_debt pc = in_debt (L t)" "reserved pc = reserved (L t)" "q_pending pc = q_pending (L t)"
      "pc = QIdle \<longleftrightarrow> L t = QIdle"
  shows "simulates xs (s, L) (t, QSilent) (s', L(t := pc))"
proof -
  have h: "held (q_used s') (set xs) ((\<lambda>u. q_owned (L u))(t := q_owned pc))"
    unfolding sh(2) by (rule held_same[OF queue_viewD(2)[OF v]]) (simp add: p(1))
  have "queue_view xs (s', L(t := pc))"
    by (rule queue_viewI[OF sh(1) h k]) (simp_all add: queue_counted_move[OF queue_viewD(4)[OF v]] sh(3) p(2,3))
  moreover have "map (\<lambda>p. qn_data (q_node s' p)) (tl xs) = map (\<lambda>p. qn_data (q_node s p)) (tl xs)"
    using d by (auto dest: list.set_sel(2)[rotated] intro: map_cong) (metis list.sel(2) list.set_sel(2))
  then have "queue_abs xs (s', L(t := pc)) = queue_abs xs (s, L)"
    unfolding queue_abs_move using p(4,5) by (auto simp: queue_abs_def)
  ultimately show ?thesis unfolding simulates_def by (intro exI[of _ xs]) simp
qed

lemma pc_step:
  assumes v: "queue_view xs (s, L)" and k: "qpc_ok s pc"
    and p: "q_owned pc = q_owned (L t)" "in_debt pc = in_debt (L t)" "reserved pc = reserved (L t)" "q_pending pc = q_pending (L t)"
      "pc = QIdle \<longleftrightarrow> L t = QIdle"
  shows "simulates xs (s, L) (t, QSilent) (s, L(t := pc))"
  by (rule quiet_step[OF v queue_viewD(1)[OF v]]) (use k p queue_viewD(3)[OF v] in simp_all)

lemma tail_current:
  assumes "queue_shape xs s" and "snap_tail s tw n" and "q_tail s = tw" and "q_tails s - n < tag_period"
  shows "n = q_tails s"
  using qw.counts_same[of n tw "q_tails s"] assms(2-4) queue_shapeD(9)[OF assms(1)] by (simp add: snap_tail_def)

lemma head_current:
  assumes "queue_shape xs s" and "snap_head s hw h" and "q_head s = hw" and "q_heads s - h < tag_period"
  shows "h = q_heads s"
  using qw.counts_same[of h hw "q_heads s"] assms(2-4) queue_shapeD(8)[OF assms(1)] by (simp add: snap_head_def)

lemma next_current:
  assumes "queue_shape xs s" and "snap_next s p w k" and "qn_next (q_node s p) = w" and "q_links s p - k < tag_period"
  shows "k = q_links s p"
  using qw.counts_same[of k w "q_links s p"] assms(2-4) queue_shapeD(10)[OF assms(1), of p] by (simp add: snap_next_def)

lemma swing_effect:
  assumes q: "queue_shape xs s" and k: "snap_tail s tw n" "n = q_tails s \<longrightarrow> next_ptr s (Queue_GetPointer tw) = p" "p \<noteq> 0"
    and y: "q_tails s - n < tag_period"
  shows "queue_shape xs (swing_tail tw p s)" and "qpc_ok s pc \<Longrightarrow> qpc_ok (swing_tail tw p s) pc"
proof -
  have "queue_shape xs (swing_tail tw p s) \<and> (qpc_ok s pc \<longrightarrow> qpc_ok (swing_tail tw p s) pc)"
  proof (cases "q_tail s = tw")
    case True
    have n: "n = q_tails s" by (rule tail_current[OF q k(1) True y])
    have p: "next_ptr s (tail_ptr s) = p" using k(2) n True by simp
    have "p \<noteq> head_ptr s" "user_ptr p" using queue_shapeD(13,16)[OF q] p k(3) qw.ptr_user by metis+
    then show ?thesis using shape_swing_tail[OF q p k(3)] qpc_swing_tail[OF _ p k(3)] True by simp
  qed (use q in \<open>simp add: swing_tail_miss\<close>)
  then show "queue_shape xs (swing_tail tw p s)" "qpc_ok s pc \<Longrightarrow> qpc_ok (swing_tail tw p s) pc" by simp_all
qed

lemma swing_step:
  assumes v: "queue_view xs (s, L)" and k: "snap_tail s tw n" "n = q_tails s \<longrightarrow> next_ptr s (Queue_GetPointer tw) = p" "p \<noteq> 0"
    and y: "q_tails s - n < tag_period" and pk: "qpc_ok s pc"
    and p: "q_owned pc = q_owned (L t)" "in_debt pc = in_debt (L t)" "reserved pc = reserved (L t)" "q_pending pc = q_pending (L t)"
      "pc = QIdle \<longleftrightarrow> L t = QIdle"
  shows "simulates xs (s, L) (t, QSilent) (swing_tail tw p s, L(t := pc))"
  using quiet_step[OF v swing_effect(1)[OF queue_viewD(1)[OF v] k y] _ _ _ _ _ p]
    swing_effect(2)[OF queue_viewD(1)[OF v] k y] queue_viewD(3)[OF v] pk by simp

end
