(* ===== verification/QueueRuns.thy ===== *)
theory QueueRuns
  imports QueueSteps
begin

text \<open>
  The steps that change the list, and then every step and every run: the lock-free queue simulates the
  abstract queue.
\<close>

section \<open>Taking a node from the pool and giving it back\<close>

lemma simulatesI:
  "queue_view ys (s', L(t := pc)) \<Longrightarrow> queue_do e (queue_abs xs c) = Some (queue_abs ys (s', L(t := pc))) \<Longrightarrow>
    simulates xs c e (s', L(t := pc))"
  unfolding simulates_def by blast

lemma pending_none: "q_pending (L t) = None \<Longrightarrow> (\<lambda>u. q_pending (L u))(t := None) = (\<lambda>u. q_pending (L u))"
  by (rule ext) simp

lemma start_enqueue:
  assumes v: "queue_view xs (s, L)" and i: "L t = QIdle" and p: "p \<noteq> 0" "user_ptr p" "p \<notin> q_used s"
  shows "simulates xs (s, L) (t, QCalled)
    (s\<lparr>q_used := insert p (q_used s), q_node := (q_node s)(p := (q_node s p)\<lparr>qn_data := d\<rparr>)\<rparr>, L(t := EnqInit p))"
    (is "simulates _ _ _ (?s, _)")
proof (rule simulatesI[where ys = xs])
  have px: "p \<notin> set xs" using queue_viewD(5)[OF v] p(3) by blast
  have ph: "p \<noteq> next_ptr s (head_ptr s)" using queue_viewD(9)[OF v] px p(1) by metis
  have s: "?s = (s\<lparr>q_node := (q_node s)(p := (q_node s p)\<lparr>qn_data := d\<rparr>)\<rparr>)\<lparr>q_used := insert p (q_used s)\<rparr>" by simp
  show "queue_view xs (?s, L(t := EnqInit p))"
  proof (rule queue_viewI)
    show "held (q_used ?s) (set xs) ((\<lambda>u. q_owned (L u))(t := q_owned (EnqInit p)))"
      using held_alloc[OF queue_viewD(2)[OF v], of t p] i p(3) by simp
    show "qpc_ok ?s (L u)" for u unfolding s qpc_used by (rule qpc_data[OF queue_viewD(3)[OF v] ph])
    show "queue_counted xs (?s, L(t := EnqInit p))" by (rule queue_counted_move[OF queue_viewD(4)[OF v]]) (simp_all add: i)
  qed (use shape_alloc[OF queue_viewD(1)[OF v] p(1,2)] in simp_all)
  have "x \<noteq> p" if "x \<in> set (tl xs)" for x using px that queue_shapeD(17)[OF queue_viewD(1)[OF v]] by auto
  then show "queue_do (t, QCalled) (queue_abs xs (s, L)) = Some (queue_abs xs (?s, L(t := EnqInit p)))"
    unfolding queue_abs_move by (simp add: queue_abs_def i pending_none)
qed

lemma start_dequeue:
  assumes v: "queue_view xs (s, L)" and i: "L t = QIdle"
  shows "simulates xs (s, L) (t, QCalled) (s, L(t := DeqDec))"
proof (rule simulatesI[where ys = xs])
  show "queue_view xs (s, L(t := DeqDec))"
  proof (rule queue_viewI[OF queue_viewD(1)[OF v]])
    show "held (q_used s) (set xs) ((\<lambda>u. q_owned (L u))(t := q_owned DeqDec))"
      by (rule held_same[OF queue_viewD(2)[OF v]]) (simp add: i)
    show "queue_counted xs (s, L(t := DeqDec))" by (rule queue_counted_move[OF queue_viewD(4)[OF v]]) (simp_all add: i)
  qed (simp_all add: queue_viewD(3)[OF v])
  show "queue_do (t, QCalled) (queue_abs xs (s, L)) = Some (queue_abs xs (s, L(t := DeqDec)))"
    unfolding queue_abs_move by (simp add: queue_abs_def i pending_none)
qed

lemma free_step:
  assumes v: "queue_view xs (s, L)" and i: "L t = DeqFree p d"
  shows "simulates xs (s, L) (t, QReturned d) (s\<lparr>q_used := q_used s - {p}\<rparr>, L(t := QIdle))"
proof (rule simulatesI[where ys = xs])
  show "queue_view xs (s\<lparr>q_used := q_used s - {p}\<rparr>, L(t := QIdle))"
  proof (rule queue_viewI[OF shape_give_back[OF queue_viewD(1)[OF v]]])
    show "held (q_used (s\<lparr>q_used := q_used s - {p}\<rparr>)) (set xs) ((\<lambda>u. q_owned (L u))(t := q_owned QIdle))"
      using held_free[OF queue_viewD(2)[OF v], of t p] i by simp
    show "queue_counted xs (s\<lparr>q_used := q_used s - {p}\<rparr>, L(t := QIdle))"
      by (rule queue_counted_move[OF queue_viewD(4)[OF v]]) (simp_all add: i)
  qed (simp_all add: queue_viewD(3)[OF v] qpc_used)
  show "queue_do (t, QReturned d) (queue_abs xs (s, L)) = Some (queue_abs xs (s\<lparr>q_used := q_used s - {p}\<rparr>, L(t := QIdle)))"
    unfolding queue_abs_move by (simp add: queue_abs_def i)
qed

section \<open>Counting\<close>

lemma sint_count:
  assumes "queue_shape xs s" and "- (2 ^ 31) < q_count s" "q_count s \<le> 2 ^ 31"
  shows "sint (q_size (add_size (- 1) s)) = q_count s - 1"
proof -
  have "q_size (add_size (- 1) s) = word_of_int (q_count s - 1)" using queue_shapeD(11)[OF assms(1)] by simp
  then show ?thesis using assms(2,3) by (simp only: sint_sbintrunc') (simp add: signed_take_bit_int_eq_self)
qed

lemma size_step:
  assumes v: "queue_view xs (s, L)" and p: "q_owned pc = {}" "q_owned (L t) = {}" "qpc_ok s pc"
    and c: "queue_counted xs (add_size k s, L(t := pc))"
    and e: "queue_do e (queue_abs xs (s, L)) = Some (queue_abs xs (s, L(t := pc)))"
  shows "simulates xs (s, L) e (add_size k s, L(t := pc))"
proof (rule simulatesI[where ys = xs])
  show "queue_view xs (add_size k s, L(t := pc))"
  proof (rule queue_viewI[OF shape_add_size[OF queue_viewD(1)[OF v]] _ _ _ c])
    show "held (q_used (add_size k s)) (set xs) ((\<lambda>u. q_owned (L u))(t := q_owned pc))"
      using held_same[OF queue_viewD(2)[OF v], of t "{}"] p by simp
  qed (simp_all add: qpc_add_size p queue_viewD(3)[OF v])
  show "queue_do e (queue_abs xs (s, L)) = Some (queue_abs xs (add_size k s, L(t := pc)))"
    unfolding e by (simp add: queue_abs_def)
qed

lemma dec_step:
  assumes v: "queue_view xs (s, L)" and i: "L t = DeqDec" and y: "copies_young s DeqDec"
    and st: "Dequeue_step DeqDec s = Some (pc, s', e)"
  shows "simulates xs (s, L) (t, e) (s', L(t := pc))"
proof -
  have c: "sint (q_size (add_size (- 1) s)) = q_count s - 1"
    using sint_count[OF queue_viewD(1)[OF v]] y by simp
  note cm = queue_counted_move[OF queue_viewD(4)[OF v], of "add_size (- 1) s" xs t]
  show ?thesis
  proof (cases "q_count s < 1")
    case True
    then have e: "pc = DeqRestore" "s' = add_size (- 1) s" "e = QRefused" using st c by auto
    have f: "finite {u. L u \<noteq> QIdle}" and n: "q_count s = int (length (tl xs)) - int (number in_debt L)"
      using queue_viewD(4)[OF v] by (simp_all add: queue_counted_def)
    have "number in_debt L \<le> card ({u. L u \<noteq> QIdle} - {t})"
      by (rule number_le[where P = "\<lambda>pc. pc \<noteq> QIdle", OF f]) (auto simp: i)
    then have "length (tl xs) \<le> card ({u. L u \<noteq> QIdle} - {t})" using True n by linarith
    then have do: "queue_do (t, QRefused) (queue_abs xs (s, L)) = Some (queue_abs xs (s, L(t := DeqRestore)))"
      unfolding queue_abs_move by (auto simp: queue_abs_def i fun_eq_iff)
    have "queue_counted xs (add_size (- 1) s, L(t := DeqRestore))" by (rule cm) (simp_all add: i)
    then show ?thesis unfolding e by (intro size_step[OF v _ _ _ _ do]) (simp_all add: i)
  next
    case False
    then have e: "pc = DeqHead" "s' = add_size (- 1) s" "e = QSilent" using st c by auto
    have do: "queue_do (t, QSilent) (queue_abs xs (s, L)) = Some (queue_abs xs (s, L(t := DeqHead)))"
      unfolding queue_abs_move by (auto simp: queue_abs_def i fun_eq_iff)
    have "queue_counted xs (add_size (- 1) s, L(t := DeqHead))" by (rule cm) (use False in \<open>simp_all add: i\<close>)
    then show ?thesis unfolding e by (intro size_step[OF v _ _ _ _ do]) (simp_all add: i)
  qed
qed

lemma finish_step:
  assumes v: "queue_view xs (s, L)" and i: "L t = EnqCount \<or> L t = DeqRestore"
  shows "simulates xs (s, L) (t, QFinished) (add_size 1 s, L(t := QIdle))"
proof (rule size_step[OF v])
  show "queue_counted xs (add_size 1 s, L(t := QIdle))"
    by (rule queue_counted_move[OF queue_viewD(4)[OF v]]) (use i in auto)
  show "queue_do (t, QFinished) (queue_abs xs (s, L)) = Some (queue_abs xs (s, L(t := QIdle)))"
    unfolding queue_abs_move using i by (auto simp: queue_abs_def fun_eq_iff)
qed (use i in auto)

section \<open>The two exchanges that take effect\<close>

lemma link_step:
  assumes v: "queue_view xs (s, L)" and i: "L t = EnqLink p tw n nw k" and y: "copies_young s (EnqLink p tw n nw k)"
    and hit: "qn_next (q_node s (Queue_GetPointer tw)) = nw"
  shows "simulates xs (s, L) (t, QEnqueued (qn_data (q_node s p)))
    (set_next (Queue_GetPointer tw) (Queue_MakeTagged (Queue_GetTag nw + 1) p) s, L(t := EnqSwing p tw n))"
    (is "simulates _ _ _ (?s, _)")
proof (rule simulatesI[where ys = "xs @ [p]"])
  note q = queue_viewD(1)[OF v]
  have K: "next_ptr s p = 0" "snap_tail s tw n" "snap_next s (Queue_GetPointer tw) nw k" "Queue_GetPointer nw = 0"
    "k = q_links s (Queue_GetPointer tw) \<Longrightarrow> n = q_tails s"
    using queue_viewD(3)[OF v, of t] i by simp_all
  have n: "n = q_tails s" using K(5) next_current[OF q K(3) hit] y by simp
  have tw: "tw = q_tail s" by (rule snap_now(1)[OF K(2) n])
  have p: "p \<in> q_used s" "p \<notin> set xs" using queue_viewD(6)[OF v, of p t] i by simp_all
  have pu: "p \<noteq> 0" "user_ptr p" using queue_shapeD(6,7)[OF q] p(1) by metis+
  have tn: "next_ptr s (tail_ptr s) = 0" using hit K(4) tw by simp
  have pt: "p \<noteq> tail_ptr s" using queue_shapeD(4)[OF q] p(2) by auto
  have ne: "xs \<noteq> []" using linked_from_ne[OF queue_shapeD(1)[OF q]] .
  have len: "length (tl (xs @ [p])) = Suc (length (tl xs))" using ne by (cases xs) simp_all
  show "queue_view (xs @ [p]) (?s, L(t := EnqSwing p tw n))"
  proof (rule queue_viewI)
    show "queue_shape (xs @ [p]) ?s" using shape_link[OF q tn p(2) pu K(1)] hit tw by simp
    show "held (q_used ?s) (set (xs @ [p])) ((\<lambda>u. q_owned (L u))(t := q_owned (EnqSwing p tw n)))"
      using held_give[OF queue_viewD(2)[OF v], of t p] i by simp
    show "qpc_ok ?s (L u)" if "u \<noteq> t" for u
    proof (rule qpc_set_next[OF queue_viewD(3)[OF v]])
      show "Queue_GetPointer tw \<notin> q_owned (L u)" using queue_viewD(6)[OF v, of _ u] queue_shapeD(4)[OF q] tw by auto
      show "next_ptr s (Queue_GetPointer tw) = 0" using tn tw by simp
    qed
    show "qpc_ok ?s (EnqSwing p tw n)" using K(2) pu by (simp add: qw.ptr_mk)
    show "queue_counted (xs @ [p]) (?s, L(t := EnqSwing p tw n))"
      by (rule queue_counted_move[OF queue_viewD(4)[OF v]]) (simp_all add: i len del: length_tl)
  qed
  show "queue_do (t, QEnqueued (qn_data (q_node s p))) (queue_abs xs (s, L)) =
      Some (queue_abs (xs @ [p]) (?s, L(t := EnqSwing p tw n)))"
    unfolding queue_abs_move using i ne by (auto simp: queue_abs_def fun_eq_iff)
qed

lemma take_step:
  assumes v: "queue_view xs (s, L)" and i: "L t = DeqSwap hw h nw d" and y: "copies_young s (DeqSwap hw h nw d)"
    and hit: "q_head s = hw"
  shows "simulates xs (s, L) (t, QDequeued d)
    (move_head hw (Queue_GetPointer nw) s, L(t := DeqFree (Queue_GetPointer hw) d))"
    (is "simulates _ _ _ (?s, _)")
proof (rule simulatesI[where ys = "tl xs"])
  note q = queue_viewD(1)[OF v]
  have K: "snap_head s hw h" "Queue_GetPointer nw \<noteq> 0"
    "h = q_heads s \<Longrightarrow> next_ptr s (Queue_GetPointer hw) = Queue_GetPointer nw \<and> tail_ptr s \<noteq> Queue_GetPointer hw \<and>
      d = qn_data (q_node s (Queue_GetPointer nw))"
    using queue_viewD(3)[OF v, of t] i by simp_all
  have h: "h = q_heads s" using head_current[OF q K(1) hit] y by simp
  have N: "next_ptr s (head_ptr s) = Queue_GetPointer nw" "tail_ptr s \<noteq> head_ptr s" "d = qn_data (q_node s (Queue_GetPointer nw))"
    using K(3)[OF h] hit by simp_all
  note M = shape_move_head[OF q N(1) K(2) N(2)]
  have ne: "tl xs \<noteq> []" using queue_shapeD(15)[OF q] N(1) K(2) by simp
  have hx: "head_ptr s \<in> set xs" "set (tl xs) = set xs - {head_ptr s}" using queue_shapeD(12,16,17)[OF q] by auto
  have len: "int (length (tl (tl xs))) = int (length (tl xs)) - 1" using ne by (cases "tl xs") auto
  show "queue_view (tl xs) (?s, L(t := DeqFree (Queue_GetPointer hw) d))"
  proof (rule queue_viewI)
    show "queue_shape (tl xs) ?s" using M(1) hit by simp
    show "held (q_used ?s) (set (tl xs)) ((\<lambda>u. q_owned (L u))(t := q_owned (DeqFree (Queue_GetPointer hw) d)))"
      using held_take[OF queue_viewD(2)[OF v], of t "head_ptr s"] i hx hit by simp
    show "qpc_ok ?s (L u)" for u by (rule qpc_move_head[OF queue_viewD(3)[OF v]])
    show "queue_counted (tl xs) (?s, L(t := DeqFree (Queue_GetPointer hw) d))"
      by (rule queue_counted_move[OF queue_viewD(4)[OF v]]) (simp_all add: i len del: length_tl)
  qed simp
  obtain zs where "tl xs = Queue_GetPointer nw # zs" using M(2) ne by (cases "tl xs") auto
  then have "map (\<lambda>p. qn_data (q_node s p)) (tl xs) = d # map (\<lambda>p. qn_data (q_node s p)) (tl (tl xs))"
    using N(3) by simp
  moreover have "insert t {u. L u \<noteq> QIdle} = {u. L u \<noteq> QIdle}" using i by auto
  ultimately show "queue_do (t, QDequeued d) (queue_abs xs (s, L)) =
      Some (queue_abs (tl xs) (?s, L(t := DeqFree (Queue_GetPointer hw) d)))"
    unfolding queue_abs_move by (simp add: queue_abs_def i)
qed

section \<open>Every step and every run\<close>

lemma Enqueue_step_simulates:
  assumes v: "queue_view xs (s, L)" and st: "Enqueue_step (L t) s = Some (pc, s', e)" and y: "copies_young s (L t)"
  shows "simulates xs (s, L) (t, e) (s', L(t := pc))"
proof -
  note q = queue_viewD(1)[OF v] and k = queue_viewD(3)[OF v, of t]
  show ?thesis
  proof (cases "L t")
    case (EnqInit p)
    then have e: "pc = EnqTail p" "s' = set_next p (Queue_MakeTagged (Queue_GetTag (qn_next (q_node s p)) + 1) 0) s" "e = QSilent"
      using st by simp_all
    have p: "p \<notin> set xs" "\<And>u. u \<noteq> t \<Longrightarrow> p \<notin> q_owned (L u)"
      using queue_viewD(6,10)[OF v, of p t] EnqInit by simp_all
    have z: "p = tail_ptr s \<or> p = head_ptr s \<Longrightarrow> next_ptr s p = 0" using p(1) queue_shapeD(4,12)[OF q] by auto
    show ?thesis unfolding e
    proof (rule quiet_step[OF v shape_set_next[OF q p(1)]])
      show "qpc_ok (set_next p (Queue_MakeTagged (Queue_GetTag (qn_next (q_node s p)) + 1) 0) s) (L u)" if "u \<noteq> t" for u
        by (rule qpc_set_next[OF queue_viewD(3)[OF v] p(2)[OF that] z])
    qed (simp_all add: EnqInit qw.ptr_mk user_ptr_def)
  next
    case (EnqTail p)
    then have e: "pc = EnqNext p (q_tail s) (q_tails s)" "s' = s" "e = QSilent" using st by auto
    have "snap_tail s (q_tail s) (q_tails s)" using queue_shapeD(9)[OF q] by (simp add: snap_tail_def)
    then show ?thesis unfolding e by (intro pc_step[OF v]) (use k EnqTail in simp_all)
  next
    case (EnqNext p tw n)
    then have e: "pc = EnqCheck p tw n (qn_next (q_node s (Queue_GetPointer tw))) (q_links s (Queue_GetPointer tw))" "s' = s" "e = QSilent"
      using st by auto
    have "snap_next s (Queue_GetPointer tw) (qn_next (q_node s (Queue_GetPointer tw))) (q_links s (Queue_GetPointer tw))"
      using queue_shapeD(10)[OF q] by (simp add: snap_next_def)
    then show ?thesis unfolding e by (intro pc_step[OF v]) (use k EnqNext in simp_all)
  next
    case (EnqCheck p tw n nw i)
    have e: "s' = s" "e = QSilent" using st EnqCheck by auto
    show ?thesis
    proof (cases "tw = q_tail s")
      case False
      then have "pc = EnqTail p" using st EnqCheck by auto
      then show ?thesis unfolding e by (intro pc_step[OF v]) (use k EnqCheck in simp_all)
    next
      case True
      have n: "n = q_tails s"
        by (rule tail_current[OF q _ True[symmetric]]) (use k y in \<open>simp_all add: EnqCheck\<close>)
      have kk: "next_ptr s p = 0" "snap_tail s tw n" "snap_next s (Queue_GetPointer tw) nw i"
        "Queue_GetPointer nw \<noteq> 0 \<Longrightarrow> next_ptr s (Queue_GetPointer tw) = Queue_GetPointer nw"
        using k n unfolding EnqCheck qpc_ok.simps by blast+
      show ?thesis
      proof (cases "Queue_GetPointer nw = 0")
        case z: True
        then have "pc = EnqLink p tw n nw i" using st EnqCheck True by auto
        then show ?thesis unfolding e by (intro pc_step[OF v]) (use kk n z EnqCheck in simp_all)
      next
        case z: False
        then have "pc = EnqHelp p tw n nw" using st EnqCheck True by auto
        then show ?thesis unfolding e by (intro pc_step[OF v]) (use kk z EnqCheck in simp_all)
      qed
    qed
  next
    case (EnqLink p tw n nw i)
    show ?thesis
    proof (cases "qn_next (q_node s (Queue_GetPointer tw)) = nw")
      case True
      then have e: "pc = EnqSwing p tw n" "s' = set_next (Queue_GetPointer tw) (Queue_MakeTagged (Queue_GetTag nw + 1) p) s"
        "e = QEnqueued (qn_data (q_node s p))" using st EnqLink by simp_all
      show ?thesis unfolding e by (rule link_step[OF v EnqLink _ True]) (use y EnqLink in simp)
    next
      case False
      then have e: "pc = EnqTail p" "s' = s" "e = QSilent" using st EnqLink by auto
      show ?thesis unfolding e by (rule pc_step[OF v]) (use k in \<open>simp_all add: EnqLink\<close>)
    qed
  next
    case (EnqHelp p tw n nw)
    then have e: "pc = EnqTail p" "s' = swing_tail tw (Queue_GetPointer nw) s" "e = QSilent" using st by simp_all
    show ?thesis unfolding e by (rule swing_step[OF v, where n = n]) (use k y in \<open>simp_all add: EnqHelp\<close>)
  next
    case (EnqSwing p tw n)
    then have e: "pc = EnqCount" "s' = swing_tail tw p s" "e = QSilent" using st by simp_all
    show ?thesis unfolding e by (rule swing_step[OF v, where n = n]) (use k y in \<open>simp_all add: EnqSwing\<close>)
  next
    case EnqCount
    then have e: "pc = QIdle" "s' = add_size 1 s" "e = QFinished" using st by simp_all
    show ?thesis unfolding e by (rule finish_step[OF v]) (simp add: EnqCount)
  qed (use st in simp_all)
qed

lemma Dequeue_step_simulates:
  assumes v: "queue_view xs (s, L)" and st: "Dequeue_step (L t) s = Some (pc, s', e)" and y: "copies_young s (L t)"
  shows "simulates xs (s, L) (t, e) (s', L(t := pc))"
proof -
  note q = queue_viewD(1)[OF v] and k = queue_viewD(3)[OF v, of t]
  show ?thesis
  proof (cases "L t")
    case DeqDec
    show ?thesis by (rule dec_step[OF v DeqDec]) (use y st DeqDec in simp_all)
  next
    case DeqRestore
    then have e: "pc = QIdle" "s' = add_size 1 s" "e = QFinished" using st by simp_all
    show ?thesis unfolding e by (rule finish_step[OF v]) (simp add: DeqRestore)
  next
    case DeqHead
    then have e: "pc = DeqTail (q_head s) (q_heads s)" "s' = s" "e = QSilent" using st by auto
    have "snap_head s (q_head s) (q_heads s)" using queue_shapeD(8)[OF q] by (simp add: snap_head_def)
    then show ?thesis unfolding e by (intro pc_step[OF v]) (simp_all add: DeqHead)
  next
    case (DeqTail hw h)
    then have e: "pc = DeqNext hw h (q_tail s) (q_tails s)" "s' = s" "e = QSilent" using st by auto
    have "snap_tail s (q_tail s) (q_tails s)" using queue_shapeD(9)[OF q] by (simp add: snap_tail_def)
    then show ?thesis unfolding e by (intro pc_step[OF v]) (use k in \<open>simp_all add: DeqTail\<close>)
  next
    case (DeqNext hw h tw n)
    let ?nw = "qn_next (q_node s (Queue_GetPointer hw))"
    note e' = st[unfolded DeqNext Dequeue_step.simps Let_def option.inject prod.inject]
    note e = conjunct1[OF e'] conjunct1[OF conjunct2[OF e']] conjunct2[OF conjunct2[OF e']]
    show ?thesis unfolding e[symmetric] by (rule pc_step[OF v]) (use k in \<open>simp_all add: DeqNext\<close>)
  next
    case (DeqHelp tw n nw)
    then have e: "pc = DeqHead" "s' = swing_tail tw (Queue_GetPointer nw) s" "e = QSilent" using st by simp_all
    show ?thesis unfolding e by (rule swing_step[OF v, where n = n]) (use k y in \<open>simp_all add: DeqHelp\<close>)
  next
    case (DeqData hw h nw)
    then have e: "pc = DeqSwap hw h nw (qn_data (q_node s (Queue_GetPointer nw)))" "s' = s" "e = QSilent" using st by auto
    show ?thesis unfolding e by (rule pc_step[OF v]) (use k in \<open>simp_all add: DeqData\<close>)
  next
    case (DeqSwap hw h nw d)
    show ?thesis
    proof (cases "q_head s = hw")
      case True
      then have e: "pc = DeqFree (Queue_GetPointer hw) d" "s' = move_head hw (Queue_GetPointer nw) s" "e = QDequeued d"
        using st DeqSwap by simp_all
      show ?thesis unfolding e by (rule take_step[OF v DeqSwap _ True]) (use y DeqSwap in simp)
    next
      case False
      then have e: "pc = DeqHead" "s' = s" "e = QSilent" using st DeqSwap by auto
      show ?thesis unfolding e by (rule pc_step[OF v]) (simp_all add: DeqSwap)
    qed
  next
    case (DeqFree p d)
    then have e: "pc = QIdle" "s' = s\<lparr>q_used := q_used s - {p}\<rparr>" "e = QReturned d" using st by simp_all
    show ?thesis unfolding e by (rule free_step[OF v DeqFree])
  qed (use st in simp_all)
qed

lemma other_simulates:
  assumes v: "queue_view xs (s, L)" and o: "others_write s m ks"
  shows "simulates xs (s, L) (t, QSilent) (s\<lparr>q_node := m, q_links := ks\<rparr>, L)"
proof -
  note q = queue_viewD(1)[OF v]
  have u: "set xs \<subseteq> q_used s" using queue_viewD(5)[OF v] by blast
  have m: "m p = q_node s p" if "p \<in> q_used s" for p using o that by (simp add: others_write_def)
  have k: "qpc_ok (s\<lparr>q_node := m, q_links := ks\<rparr>) (L u)" for u
    by (rule qpc_other[OF queue_viewD(3)[OF v] o queue_viewD(7)[OF v] queue_viewD(8)[OF v]])
      (use queue_viewD(5,6,9)[OF v] in blast)+
  have "simulates xs (s, L) (t, QSilent) (s\<lparr>q_node := m, q_links := ks\<rparr>, L(t := L t))"
    by (rule quiet_step[OF v shape_other[OF q o u]]) (use m u k in auto)
  then show ?thesis by simp
qed

lemma queue_step_simulates:
  assumes v: "queue_view xs c" and st: "queue_step c (t, e) c'" and y: "queue_young c t"
  shows "simulates xs c (t, e) c'"
proof -
  obtain s L where c: "c = (s, L)" by (cases c)
  from st[unfolded c] show ?thesis
  proof (cases rule: queue_step.cases)
    case (call k pc s')
    have eq: "e = QCalled" "c' = (s', L(t := pc))" "L t = QIdle" "queue_start k s = Some (pc, s')" using call by simp_all
    show ?thesis
    proof (cases k)
      case (CallEnqueue d p)
      then show ?thesis using start_enqueue[OF v[unfolded c] eq(3), of p d] eq c by (auto split: if_splits)
    next
      case CallDequeue
      then show ?thesis using start_dequeue[OF v[unfolded c] eq(3)] eq c by auto
    qed
  next
    case (enqueue pc s')
    then show ?thesis using Enqueue_step_simulates[OF v[unfolded c], of t] y c by simp
  next
    case (dequeue pc s')
    then show ?thesis using Dequeue_step_simulates[OF v[unfolded c], of t] y c by simp
  next
    case (other m ks)
    then show ?thesis using other_simulates[OF v[unfolded c]] c by simp
  qed
qed

interpretation qs: thread_simulation queue_step queue_young queue_view queue_abs queue_do
  using queue_step_simulates by unfold_locales (simp add: simulates_def)

end
