(* ===== verification/QueueProperties.thy ===== *)
theory QueueProperties
  imports QueueRuns
begin

text \<open>
  The properties of the lock-free queue: it behaves as one queue, first in, first out; a thread on its own
  finishes, because a dequeue that has counted a value down finds one; the destructor frees every node;
  and a dequeue may be refused although the queue is not empty.
\<close>

section \<open>One queue, first in, first out\<close>

lemma Queue_counts_own: "qw.counts (unat (Queue_GetTag w)) w"
proof -
  have "unat (take_bit 17 (drop_bit 47 w)) < 2 ^ 17"
    unfolding unsigned_take_bit_eq by (simp add: take_bit_eq_mod)
  then have "unat (Queue_GetTag w) < tag_period"
    unfolding Queue_GetTag_def tag_mask_eq tag_period_def tag_bits_def by simp
  then show ?thesis by (simp add: qw.counts_def)
qed

lemma queue_init_view:
  assumes "p \<noteq> 0" and "user_ptr p"
  shows "queue_view [p] (queue_init p m, \<lambda>_. QIdle)"
proof -
  have c: "qw.counts 0 (Queue_MakeTagged 0 p)" by (simp add: qw.counts_def qw.tag_mk)
  have n: "qw.counts (Suc (unat (Queue_GetTag w))) (Queue_MakeTagged (Queue_GetTag w + 1) 0)" for w
    by (rule qw.counts_mk[OF Queue_counts_own])
  have h: "held {p} {p} (\<lambda>t :: nat. {})" by (rule heldI) auto
  have z: "Queue_GetPointer (Queue_MakeTagged t 0) = 0" for t by (rule qw.ptr_mk) (simp add: user_ptr_def)
  show ?thesis using assms c n h Queue_counts_own
    by (simp add: queue_view_def queue_shape_def queue_counted_def queue_init_def qw.ptr_mk z number_none)
qed

lemma queue_init_abs: "queue_abs [p] (queue_init p m, \<lambda>_. QIdle) = ([], \<lambda>_. None, {})"
  by (simp add: queue_abs_def)

text \<open>
  C2. Under any interleaving of any number of threads, enqueues and dequeues behave as on one list: a value
  is appended when its node is linked, and a dequeue takes the first value and returns it. The list is
  that of the nodes after the head's; no node in use is lost, and a node that is about to be freed is
  in no thread's hands and not in the list. This holds as long as the copies that threads work with
  are fewer than \<open>2 ^ 17\<close> exchanges old.
\<close>
theorem queue_linearizable:
  assumes "queue_run queue_young (queue_init h m, \<lambda>_. QIdle) es (s, L)" and "h \<noteq> 0" "user_ptr h"
  shows "\<exists>nodes. queue_spec_run es ([], \<lambda>_. None, {}) =
      Some (map (\<lambda>p. qn_data (q_node s p)) (tl nodes), \<lambda>t. q_pending (L t), {t. L t \<noteq> QIdle}) \<and>
    linked_from (next_ptr s) nodes \<and> hd nodes = head_ptr s \<and> tail_ptr s \<in> set nodes \<and> set nodes \<subseteq> q_used s \<and>
    (\<forall>p. p \<in> q_used s \<longrightarrow> p \<in> set nodes \<or> (\<exists>t. p \<in> q_owned (L t))) \<and>
    (\<forall>t p d. L t = DeqFree p d \<longrightarrow> p \<in> q_used s \<and> p \<notin> set nodes \<and> (\<forall>u. u \<noteq> t \<longrightarrow> p \<notin> q_owned (L u)))"
proof -
  obtain ys where v: "queue_view ys (s, L)" and r: "queue_spec_run es ([], \<lambda>_. None, {}) = Some (queue_abs ys (s, L))"
    using qs.run_simulates[OF assms(1) queue_init_view[OF assms(2,3)]] unfolding queue_init_abs by blast
  note D = queue_shapeD[OF queue_viewD(1)[OF v]]
  have "p \<in> q_used s \<and> p \<notin> set ys \<and> (\<forall>u. u \<noteq> t \<longrightarrow> p \<notin> q_owned (L u))" if "L t = DeqFree p d" for t p d
    using queue_viewD(6)[OF v, of p t] queue_viewD(10)[OF v, of p t] that by auto
  moreover have "p \<in> set ys \<or> (\<exists>t. p \<in> q_owned (L t))" if "p \<in> q_used s" for p
    using heldD(5)[OF queue_viewD(2)[OF v] that] by blast
  ultimately show ?thesis using r D(1,3,4) queue_viewD(5)[OF v]
    by (intro exI[of _ ys]) (auto simp: queue_abs_def)
qed

section \<open>The destructor\<close>

lemma Queue_destruct_linked:
  assumes "linked_from (next_ptr s) xs" and "length xs \<le> n" and "0 \<notin> set xs"
  shows "q_used (Queue_destruct n (hd xs) s) = q_used s - set xs"
  using assms
proof (induction n "hd xs" s arbitrary: xs rule: Queue_destruct.induct)
  case (1 s)
  then show ?case by auto
next
  case (2 n s)
  obtain x ys where x: "xs = x # ys" using 2(2) by (cases xs) auto
  let ?s = "s\<lparr>q_used := q_used s - {x}\<rparr>"
  have x0: "x \<noteq> 0" using 2(4) x by simp
  show ?case
  proof (cases ys)
    case Nil
    then have "next_ptr s x = 0" using 2(2) x by simp
    then have "Queue_destruct n (next_ptr s x) ?s = ?s" by (cases n) simp_all
    then show ?thesis using x x0 Nil by simp
  next
    case (Cons y zs)
    have "q_used (Queue_destruct n (hd ys) ?s) = q_used ?s - set ys"
    proof (rule 2(1)[of ys, unfolded x list.sel])
      show "x \<noteq> 0" by (rule x0)
      show "next_ptr s x = hd ys" using 2(2) x Cons by simp
      show "linked_from (next_ptr ?s) ys" using 2(2) x Cons by simp
    qed (use 2(3,4) x in simp_all)
    moreover have "next_ptr s x = hd ys" using 2(2) x Cons by simp
    ultimately show ?thesis using x x0 by auto
  qed
qed

text \<open>
  When every operation has ended, the destructor gives every node back to the pool, the first one included.
\<close>
theorem queue_destruct_frees_all:
  assumes "queue_run queue_young (queue_init h m, \<lambda>_. QIdle) es (s, \<lambda>_. QIdle)" and "h \<noteq> 0" "user_ptr h"
    and "card (q_used s) \<le> n"
  shows "q_used (Queue_destruct n (head_ptr s) s) = {}"
proof -
  obtain ys where v: "queue_view ys (s, \<lambda>_. QIdle)"
    using qs.run_simulates[OF assms(1) queue_init_view[OF assms(2,3)]] by blast
  note D = queue_shapeD[OF queue_viewD(1)[OF v]]
  have u: "q_used s = set ys" using heldD(1,5)[OF queue_viewD(2)[OF v]] by auto
  then have "length ys = card (q_used s)" using D(2) distinct_card by force
  then show ?thesis using Queue_destruct_linked[OF D(1), of n] assms(4) D(3,7) u by simp
qed

section \<open>Progress\<close>

definition next_queue_access :: "'a queue_pc \<Rightarrow> 'a lf_queue \<Rightarrow> ('a queue_pc \<times> 'a lf_queue \<times> 'a queue_event) option" where
  "next_queue_access pc s = (case Enqueue_step pc s of None \<Rightarrow> Dequeue_step pc s | Some r \<Rightarrow> Some r)"

fun queue_alone :: "nat \<Rightarrow> 'a queue_pc \<Rightarrow> 'a lf_queue \<Rightarrow> 'a queue_pc \<times> 'a lf_queue" where
  "queue_alone 0 pc s = (pc, s)"
| "queue_alone (Suc n) pc s = (case next_queue_access pc s of None \<Rightarrow> (pc, s) | Some (pc', s', e) \<Rightarrow> queue_alone n pc' s')"

definition ends_in :: "nat \<Rightarrow> 'a queue_pc \<Rightarrow> 'a lf_queue \<Rightarrow> bool" where
  "ends_in n pc s \<longleftrightarrow> fst (queue_alone n pc s) = QIdle"

lemma ends_in_idle [simp]: "ends_in n QIdle s"
  by (cases n) (simp_all add: ends_in_def next_queue_access_def)

lemma ends_in_step: "next_queue_access pc s = Some (pc', s', e) \<Longrightarrow> ends_in n pc' s' \<Longrightarrow> ends_in (Suc n) pc s"
  by (simp add: ends_in_def)

lemma ends_in_more: "ends_in n pc s \<Longrightarrow> n \<le> k \<Longrightarrow> ends_in k pc s"
proof (induction n arbitrary: pc s k)
  case 0
  then have "pc = QIdle" by (simp add: ends_in_def)
  then show ?case by simp
next
  case (Suc n)
  then obtain k' where k: "k = Suc k'" "n \<le> k'" by (cases k) auto
  show ?case
  proof (cases "next_queue_access pc s")
    case None
    then show ?thesis using Suc(2) k by (simp add: ends_in_def)
  next
    case (Some r)
    obtain pc' s' e where r: "r = (pc', s', e)" by (cases r)
    have "ends_in n pc' s'" using Suc(2) Some r by (simp add: ends_in_def)
    from ends_in_step[OF Some[unfolded r] Suc(1)[OF this k(2)]] show ?thesis using k by simp
  qed
qed

lemmas alone_simps = next_queue_access_def Let_def

lemma enq_tail_settled: "next_ptr s (tail_ptr s) = 0 \<Longrightarrow> ends_in 6 (EnqTail p) s"
  by (simp add: ends_in_def alone_simps eval_nat_numeral)

lemma deq_head_apart: "next_ptr s (head_ptr s) \<noteq> 0 \<Longrightarrow> tail_ptr s \<noteq> head_ptr s \<Longrightarrow> ends_in 6 DeqHead s"
  by (simp add: ends_in_def alone_simps eval_nat_numeral)

lemma enq_tail_helps: "next_ptr s (tail_ptr s) \<noteq> 0 \<Longrightarrow>
    ends_in n (EnqTail p) (swing_tail (q_tail s) (next_ptr s (tail_ptr s)) s) \<Longrightarrow> ends_in (n + 4) (EnqTail p) s"
  by (simp add: ends_in_def alone_simps eval_nat_numeral)

lemma deq_head_helps: "next_ptr s (head_ptr s) \<noteq> 0 \<Longrightarrow> tail_ptr s = head_ptr s \<Longrightarrow>
    ends_in n DeqHead (swing_tail (q_tail s) (next_ptr s (head_ptr s)) s) \<Longrightarrow> ends_in (n + 4) DeqHead s"
  by (simp add: ends_in_def alone_simps eval_nat_numeral)

lemma swung_tail: "tail_ptr (swing_tail (q_tail s) (Queue_GetPointer w) s) = Queue_GetPointer w"
  by (simp add: swing_tail_hit qw.ptr_mk qw.ptr_user)

lemma enq_tail_ends:
  assumes "queue_shape xs s"
  shows "ends_in 10 (EnqTail p) s"
proof (cases "next_ptr s (tail_ptr s) = 0")
  case True
  then show ?thesis by (rule ends_in_more[OF enq_tail_settled]) simp
next
  case False
  have "next_ptr s (next_ptr s (tail_ptr s)) = 0" by (rule queue_shapeD(5)[OF assms False])
  then have "ends_in 6 (EnqTail p) (swing_tail (q_tail s) (next_ptr s (tail_ptr s)) s)"
    by (intro enq_tail_settled) (simp add: swung_tail)
  from enq_tail_helps[OF False this] show ?thesis by simp
qed

lemma deq_head_ends:
  assumes "queue_shape xs s" and "tl xs \<noteq> []"
  shows "ends_in 10 DeqHead s"
proof -
  have n: "next_ptr s (head_ptr s) \<noteq> 0" using queue_shapeD(15)[OF assms(1)] assms(2) by simp
  have h: "next_ptr s (head_ptr s) \<noteq> head_ptr s" using queue_shapeD(14,16)[OF assms(1)] n by auto
  show ?thesis
  proof (cases "tail_ptr s = head_ptr s")
    case True
    have "ends_in 6 DeqHead (swing_tail (q_tail s) (next_ptr s (head_ptr s)) s)"
      by (rule deq_head_apart) (use n h in \<open>simp_all add: swung_tail\<close>)
    from deq_head_helps[OF n True this] show ?thesis by simp
  qed (use ends_in_more[OF deq_head_apart[OF n]] in simp)
qed

lemma access_view:
  assumes "queue_view xs (s, L)" and "next_queue_access (L t) s = Some (pc, s', e)" and "copies_young s (L t)"
  shows "\<exists>ys. queue_view ys (s', L(t := pc))"
proof (cases "Enqueue_step (L t) s")
  case None
  then have "Dequeue_step (L t) s = Some (pc, s', e)" using assms(2) by (simp add: next_queue_access_def)
  from Dequeue_step_simulates[OF assms(1) this assms(3)] show ?thesis by (auto simp: simulates_def)
next
  case (Some r)
  then have "Enqueue_step (L t) s = Some (pc, s', e)" using assms(2) by (simp add: next_queue_access_def)
  from Enqueue_step_simulates[OF assms(1) this assms(3)] show ?thesis by (auto simp: simulates_def)
qed

lemma reserved_value:
  assumes "queue_view xs (s, L)" and "reserved (L t)"
  shows "tl xs \<noteq> []"
proof -
  have f: "finite {u. L u \<noteq> QIdle}" and n: "number reserved L \<le> length (tl xs)"
    using queue_viewD(4)[OF assms(1)] by (simp_all add: queue_counted_def)
  have "finite {u. reserved (L u)}" by (rule finite_imp[where P = "\<lambda>pc. pc \<noteq> QIdle", OF f]) auto
  then have "0 < number reserved L" using assms(2) unfolding number_def by (subst card_gt_0_iff) auto
  then show ?thesis using n by (auto simp del: length_tl)
qed

lemma enqueue_ends:
  assumes "queue_view xs (s, L)" and "copies_young s (L t)"
  shows "L t = EnqTail p \<Longrightarrow> ends_in 10 (EnqTail p) s"
    and "L t = EnqInit p \<Longrightarrow> ends_in 11 (EnqInit p) s"
    and "L t = EnqHelp p tw n nw \<Longrightarrow> ends_in 11 (EnqHelp p tw n nw) s"
    and "L t = EnqLink p tw n nw k \<Longrightarrow> ends_in 11 (EnqLink p tw n nw k) s"
proof -
  have go: "ends_in 11 (L t) s" if st: "next_queue_access (L t) s = Some (EnqTail p, s', e)" for s' e
  proof -
    obtain ys where "queue_view ys (s', L(t := EnqTail p))" using access_view[OF assms(1) st assms(2)] by blast
    from enq_tail_ends[OF queue_viewD(1)[OF this], of p] show ?thesis using ends_in_step[OF st] by (simp add: eval_nat_numeral)
  qed
  show "L t = EnqTail p \<Longrightarrow> ends_in 10 (EnqTail p) s" by (rule enq_tail_ends[OF queue_viewD(1)[OF assms(1)]])
  show "L t = EnqInit p \<Longrightarrow> ends_in 11 (EnqInit p) s" using go by (simp add: next_queue_access_def)
  show "L t = EnqHelp p tw n nw \<Longrightarrow> ends_in 11 (EnqHelp p tw n nw) s" using go by (simp add: next_queue_access_def)
  show "ends_in 11 (EnqLink p tw n nw k) s" if i: "L t = EnqLink p tw n nw k"
  proof (cases "qn_next (q_node s (Queue_GetPointer tw)) = nw")
    case True
    then have "ends_in 3 (EnqLink p tw n nw k) s" by (simp add: ends_in_def alone_simps eval_nat_numeral)
    then show ?thesis by (rule ends_in_more) simp
  next
    case False
    then show ?thesis using go i by (simp add: next_queue_access_def)
  qed
qed

lemma enqueue_check_ends:
  assumes v: "queue_view xs (s, L)" and y: "copies_young s (L t)" and i: "L t = EnqCheck p tw n nw k"
  shows "ends_in 12 (EnqCheck p tw n nw k) s"
proof -
  let ?pc = "if tw \<noteq> q_tail s then EnqTail p else if Queue_GetPointer nw = 0 then EnqLink p tw n nw k else EnqHelp p tw n nw"
  have st: "next_queue_access (L t) s = Some (?pc, s, QSilent)" by (simp add: i next_queue_access_def)
  obtain ys where "queue_view ys (s, L(t := ?pc))" using access_view[OF v st y] by blast
  note E = enqueue_ends[OF this, of t]
  have "copies_young s ((L(t := ?pc)) t)" using y[unfolded i] by auto
  note E = E[OF this]
  have "ends_in 11 ?pc s"
  proof (cases "tw = q_tail s")
    case False
    then have "ends_in 10 (EnqTail p) s" using E(1)[of p] by simp
    then show ?thesis using False ends_in_more[of 10 "EnqTail p" s 11] by simp
  next
    case True
    then show ?thesis using E(3)[of p tw n nw] E(4)[of p tw n nw k] by (cases "Queue_GetPointer nw = 0") simp_all
  qed
  from ends_in_step[OF st this] show ?thesis by (simp add: i eval_nat_numeral)
qed

lemma dequeue_ends:
  assumes v: "queue_view xs (s, L)" and y: "copies_young s (L t)"
  shows "L t = DeqHead \<Longrightarrow> ends_in 10 DeqHead s"
    and "L t = DeqHelp tw n nw \<Longrightarrow> ends_in 11 (DeqHelp tw n nw) s"
    and "L t = DeqSwap hw h nw d \<Longrightarrow> ends_in 11 (DeqSwap hw h nw d) s"
    and "L t = DeqData hw h nw \<Longrightarrow> ends_in 12 (DeqData hw h nw) s"
    and "L t = DeqDec \<Longrightarrow> ends_in 11 DeqDec s"
proof -
  have head: "ends_in 10 DeqHead s'" if "queue_view ys (s', M)" "M t = DeqHead" for ys s' and M :: "nat \<Rightarrow> 'a queue_pc"
    by (rule deq_head_ends[OF queue_viewD(1)[OF that(1)] reserved_value[OF that(1), of t]]) (simp add: that(2))
  have go: "ends_in 11 (L t) s" if st: "next_queue_access (L t) s = Some (DeqHead, s', e)" for s' e
  proof -
    obtain ys where "queue_view ys (s', L(t := DeqHead))" using access_view[OF v st y] by blast
    from head[OF this] show ?thesis using ends_in_step[OF st, of 10] by (simp add: eval_nat_numeral)
  qed
  have swap: "ends_in 11 (DeqSwap hw h nw d) s" if "q_head s \<noteq> hw \<Longrightarrow> ends_in 10 DeqHead s" for d
  proof (cases "q_head s = hw")
    case True
    then have "ends_in 2 (DeqSwap hw h nw d) s" by (simp add: ends_in_def alone_simps eval_nat_numeral)
    then show ?thesis by (rule ends_in_more) simp
  next
    case False
    have "next_queue_access (DeqSwap hw h nw d) s = Some (DeqHead, s, QSilent)" using False by (simp add: next_queue_access_def)
    from ends_in_step[OF this that[OF False]] show ?thesis by (simp add: eval_nat_numeral)
  qed
  have here: "ends_in 10 DeqHead s" if "reserved (L t)"
    by (rule deq_head_ends[OF queue_viewD(1)[OF v] reserved_value[OF v that]])
  show "L t = DeqHead \<Longrightarrow> ends_in 10 DeqHead s" using here by simp
  show "L t = DeqHelp tw n nw \<Longrightarrow> ends_in 11 (DeqHelp tw n nw) s" using go by (simp add: next_queue_access_def)
  show "L t = DeqSwap hw h nw d \<Longrightarrow> ends_in 11 (DeqSwap hw h nw d) s" using swap here by simp
  show "ends_in 12 (DeqData hw h nw) s" if i: "L t = DeqData hw h nw"
  proof -
    have st: "next_queue_access (DeqData hw h nw) s = Some (DeqSwap hw h nw (qn_data (q_node s (Queue_GetPointer nw))), s, QSilent)"
      by (simp add: next_queue_access_def)
    from ends_in_step[OF st swap] here i show ?thesis by (simp add: eval_nat_numeral)
  qed
  show "ends_in 11 DeqDec s" if i: "L t = DeqDec"
  proof (cases "sint (q_size (add_size (- 1) s)) < 0")
    case True
    then have "ends_in 2 DeqDec s" by (simp add: ends_in_def alone_simps eval_nat_numeral del: add_size_simps)
    then show ?thesis by (rule ends_in_more) simp
  next
    case False
    then show ?thesis using go i by (simp add: next_queue_access_def del: add_size_simps)
  qed
qed

lemma dequeue_next_ends:
  assumes v: "queue_view xs (s, L)" and y: "copies_young s (L t)" and i: "L t = DeqNext hw h tw n"
  shows "ends_in 13 (DeqNext hw h tw n) s"
proof -
  let ?nw = "qn_next (q_node s (Queue_GetPointer hw))"
  let ?pc = "if Queue_GetPointer ?nw = 0 then DeqHead
    else if Queue_GetPointer hw = Queue_GetPointer tw then DeqHelp tw n ?nw else DeqData hw h ?nw"
  have st: "next_queue_access (L t) s = Some (?pc, s, QSilent)" by (simp add: i alone_simps)
  obtain ys where "queue_view ys (s, L(t := ?pc))" using access_view[OF v st y] by blast
  note E = dequeue_ends[OF this, of t]
  have "copies_young s ((L(t := ?pc)) t)" using y[unfolded i] by auto
  note E = E[OF this]
  have "ends_in 12 ?pc s"
  proof (cases "Queue_GetPointer ?nw = 0")
    case True
    then have "ends_in 10 DeqHead s" using E(1) by simp
    then show ?thesis using True ends_in_more[of 10 DeqHead s 12] by simp
  next
    case nz: False
    show ?thesis
    proof (cases "Queue_GetPointer hw = Queue_GetPointer tw")
      case True
      then have "ends_in 11 (DeqHelp tw n ?nw) s" using nz E(2)[of tw n ?nw] by simp
      then show ?thesis using True nz ends_in_more[of 11 "DeqHelp tw n ?nw" s 12] by simp
    qed (use nz E(4)[of hw h ?nw] in simp)
  qed
  from ends_in_step[OF st this] show ?thesis by (simp add: i eval_nat_numeral)
qed

text \<open>
  C36. The loops of the queue end without help, as long as the tags protect its copies. In a state reached by
  steps of threads whose copies were all fewer than \<open>2 ^ 17\<close> exchanges old, a thread that is stopped anywhere
  in an operation, with copies that may be outdated but are fewer than \<open>2 ^ 17\<close> exchanges old themselves,
  finishes within fourteen accesses once it runs alone. A dequeue never spins on a missing next node, because
  the size it has counted down belongs to a node that is linked. (Nothing is claimed for older copies.)
\<close>
theorem queue_alone_terminates:
  assumes "queue_run queue_young (queue_init h m, \<lambda>_. QIdle) es (s, L)" and "h \<noteq> 0" "user_ptr h"
    and "queue_young (s, L) t"
  shows "fst (queue_alone 14 (L t) s) = QIdle"
proof -
  obtain xs where v: "queue_view xs (s, L)"
    using qs.run_simulates[OF assms(1) queue_init_view[OF assms(2,3)]] by blast
  have y: "copies_young s (L t)" using assms(4) by simp
  note E = enqueue_ends[OF v y] dequeue_ends[OF v y] enqueue_check_ends[OF v y] dequeue_next_ends[OF v y]
  have "ends_in 14 (L t) s"
  proof (cases "L t")
    case (EnqNext p tw n)
    let ?pc = "EnqCheck p tw n (qn_next (q_node s (Queue_GetPointer tw))) (q_links s (Queue_GetPointer tw))"
    have st: "next_queue_access (L t) s = Some (?pc, s, QSilent)" by (simp add: EnqNext next_queue_access_def)
    obtain ys where "queue_view ys (s, L(t := ?pc))" using access_view[OF v st y] by blast
    from enqueue_check_ends[OF this, of t] have "ends_in 12 ?pc s" using y EnqNext by (simp add: tag_period_def)
    from ends_in_step[OF st this] show ?thesis by (rule ends_in_more) simp
  next
    case (DeqTail hw i)
    let ?pc = "DeqNext hw i (q_tail s) (q_tails s)"
    have st: "next_queue_access (L t) s = Some (?pc, s, QSilent)" by (simp add: DeqTail next_queue_access_def)
    obtain ys where "queue_view ys (s, L(t := ?pc))" using access_view[OF v st y] by blast
    from dequeue_next_ends[OF this, of t] have "ends_in 13 ?pc s" using y DeqTail by (simp add: tag_period_def)
    from ends_in_step[OF st this] show ?thesis by (simp add: eval_nat_numeral)
  next
    case (EnqSwing p tw n)
    have "ends_in 2 (EnqSwing p tw n) s" by (simp add: ends_in_def alone_simps eval_nat_numeral)
    then show ?thesis unfolding EnqSwing by (rule ends_in_more) simp
  next
    case EnqCount
    have "ends_in 1 EnqCount s" by (simp add: ends_in_def alone_simps)
    then show ?thesis unfolding EnqCount by (rule ends_in_more) simp
  next
    case DeqRestore
    have "ends_in 1 DeqRestore s" by (simp add: ends_in_def alone_simps)
    then show ?thesis unfolding DeqRestore by (rule ends_in_more) simp
  next
    case (DeqFree p d)
    have "ends_in 1 (DeqFree p d) s" by (simp add: ends_in_def alone_simps)
    then show ?thesis unfolding DeqFree by (rule ends_in_more) simp
  qed (use E in \<open>auto intro: ends_in_more\<close>)
  then show ?thesis by (simp only: ends_in_def)
qed

section \<open>Schedules\<close>

text \<open>A schedule names, step by step, the thread and the call it makes if it is idle; it is run by evaluation.\<close>

fun queue_schedule :: "(nat \<times> 'a queue_call option) list \<Rightarrow> 'a queue_conf \<Rightarrow> ((nat \<times> 'a queue_event) list \<times> 'a queue_conf) option" where
  "queue_schedule [] c = Some ([], c)"
| "queue_schedule ((t, k) # ks) (s, L) =
     (if \<not> copies_young s (L t) then None
      else case (case k of Some c \<Rightarrow> if L t = QIdle then map_option (\<lambda>(pc, s'). (pc, s', QCalled)) (queue_start c s) else None
          | None \<Rightarrow> next_queue_access (L t) s) of
        None \<Rightarrow> None
      | Some (pc, s', e) \<Rightarrow> map_option (\<lambda>(es, c). ((t, e) # es, c)) (queue_schedule ks (s', L(t := pc))))"

lemma next_queue_access_step: "next_queue_access (L t) s = Some (pc, s', e) \<Longrightarrow> queue_step (s, L) (t, e) (s', L(t := pc))"
  unfolding next_queue_access_def by (auto split: option.splits intro: queue_step.intros)

lemma queue_schedule_run: "queue_schedule ks c = Some (es, c') \<Longrightarrow> queue_run queue_young c es c'"
proof (induction ks arbitrary: c es)
  case Nil
  then show ?case by (simp add: thread_run.none)
next
  case (Cons a ks)
  obtain t k s L where a: "a = (t, k)" "c = (s, L)" by (cases a, cases c)
  obtain pc s' e es' where y: "copies_young s (L t)"
    and st: "queue_step (s, L) (t, e) (s', L(t := pc))" and r: "queue_schedule ks (s', L(t := pc)) = Some (es', c')" "es = (t, e) # es'"
  proof (cases k)
    case None
    then show ?thesis using Cons(2) that next_queue_access_step[of L t s] unfolding a
      by (auto split: if_splits option.splits prod.splits)
  next
    case (Some call)
    then show ?thesis using Cons(2) that queue_step.call[of L t call s] unfolding a
      by (auto split: if_splits option.splits prod.splits)
  qed
  have "queue_run queue_young (s, L) [(t, e)] (s', L(t := pc))" by (rule thread_run_one) (use y st in simp_all)
  from thread_run_trans[OF Cons(1)[OF r(1)] this] show ?case unfolding a r(2) by simp
qed

lemma schedule_append: "queue_schedule ks c = Some (es, c') \<Longrightarrow>
    queue_schedule (ks @ js) c = map_option (\<lambda>(fs, d). (es @ fs, d)) (queue_schedule js c')"
proof (induction ks c arbitrary: es rule: queue_schedule.induct)
  case (2 t k ks s L)
  then show ?case by (auto split: if_splits option.splits prod.splits simp: option.map_comp comp_def case_prod_unfold)
qed (simp add: case_prod_unfold option.map_ident)

text \<open>A whole enqueue by one thread while no other takes a step.\<close>

definition enqueued :: "u64 \<Rightarrow> 'a \<Rightarrow> 'a lf_queue \<Rightarrow> 'a lf_queue" where
  "enqueued p d s =
     (let s = s\<lparr>q_used := insert p (q_used s), q_node := (q_node s)(p := (q_node s p)\<lparr>qn_data := d\<rparr>)\<rparr>;
          s = set_next p (Queue_MakeTagged (Queue_GetTag (qn_next (q_node s p)) + 1) 0) s;
          s = set_next (tail_ptr s) (Queue_MakeTagged (Queue_GetTag (qn_next (q_node s (tail_ptr s))) + 1) p) s
      in add_size 1 (swing_tail (q_tail s) p s))"

abbreviation enqueue_calls :: "nat \<Rightarrow> 'a \<Rightarrow> u64 \<Rightarrow> (nat \<times> 'a queue_call option) list" where
  "enqueue_calls t d p \<equiv> [(t, Some (CallEnqueue d p)), (t, None), (t, None), (t, None), (t, None), (t, None), (t, None), (t, None)]"

abbreviation enqueue_events :: "nat \<Rightarrow> 'a \<Rightarrow> (nat \<times> 'a queue_event) list" where
  "enqueue_events t d \<equiv> [(t, QCalled), (t, QSilent), (t, QSilent), (t, QSilent), (t, QSilent), (t, QEnqueued d), (t, QSilent), (t, QFinished)]"

lemma whole_enqueue:
  assumes "L t = QIdle" and "p \<noteq> 0" "user_ptr p" "p \<notin> q_used s" and "next_ptr s (tail_ptr s) = 0" and "p \<noteq> tail_ptr s"
  shows "queue_schedule (enqueue_calls t d p) (s, L) = Some (enqueue_events t d, enqueued p d s, L)"
  using assms by (simp add: next_queue_access_def tag_period_def enqueued_def Let_def fun_upd_idem_iff)

lemma enqueued_simps:
  assumes "user_ptr p" and "p \<noteq> tail_ptr s"
  shows "tail_ptr (enqueued p d s) = p" "next_ptr (enqueued p d s) p = 0" "q_used (enqueued p d s) = insert p (q_used s)"
    "q_count (enqueued p d s) = q_count s + 1" "q_size (enqueued p d s) = q_size s + 1" "q_head (enqueued p d s) = q_head s"
    "q \<noteq> p \<Longrightarrow> q \<noteq> tail_ptr s \<Longrightarrow> q_node (enqueued p d s) q = q_node s q"
    "next_ptr (enqueued p d s) (tail_ptr s) = p" "qn_data (q_node (enqueued p d s) p) = d"
  using assms by (simp_all add: enqueued_def Let_def swing_tail_def qw.ptr_mk user_ptr_def set_next_def)

definition sample_mem :: "u64 \<Rightarrow> nat qnode" where "sample_mem = (\<lambda>_. \<lparr>qn_data = 0, qn_next = 0\<rparr>)"

lemma init_simps:
  assumes "user_ptr p"
  shows "tail_ptr (queue_init p m) = p" "head_ptr (queue_init p m) = p" "next_ptr (queue_init p m) p = 0"
    "q_used (queue_init p m) = {p}" "q_size (queue_init p m) = 0" "q_count (queue_init p m) = 0"
  using assms by (simp_all add: queue_init_def qw.ptr_mk user_ptr_def)

definition sample_queue :: "nat lf_queue" where
  "sample_queue = enqueued 0x30 5 (enqueued 0x20 7 (queue_init 0x10 sample_mem))"

lemma user_ptr_samples: "user_ptr 0x10" "user_ptr 0x20" "user_ptr 0x30"
  by (simp_all add: user_ptr_def)

lemma two_enqueues: "queue_run queue_young (queue_init 0x10 sample_mem, \<lambda>_. QIdle)
    (enqueue_events 0 7 @ enqueue_events 1 5) (sample_queue, \<lambda>_. QIdle)"
proof -
  let ?s = "queue_init 0x10 sample_mem"
  let ?s' = "enqueued 0x20 7 ?s"
  note u = user_ptr_samples
  have 1: "queue_schedule (enqueue_calls 0 7 0x20) (?s, \<lambda>_. QIdle) = Some (enqueue_events 0 7, ?s', \<lambda>_. QIdle)"
    by (rule whole_enqueue) (simp_all add: u init_simps)
  have n: "(0x20 :: u64) \<noteq> tail_ptr ?s" by (simp add: u init_simps)
  have 2: "queue_schedule (enqueue_calls 1 5 0x30) (?s', \<lambda>_. QIdle) = Some (enqueue_events 1 5, sample_queue, \<lambda>_. QIdle)"
    unfolding sample_queue_def by (rule whole_enqueue) (simp_all add: u init_simps enqueued_simps[OF u(2) n])
  show ?thesis using queue_schedule_run[OF 2] queue_schedule_run[OF 1] by (rule thread_run_trans)
qed

theorem queue_linearizable_witness:
  "\<exists>nodes. [7, 5] = map (\<lambda>p. qn_data (q_node sample_queue p)) (tl nodes) \<and> hd nodes = 0x10 \<and> set nodes \<subseteq> q_used sample_queue"
proof -
  note u = user_ptr_samples
  have n: "(0x20 :: u64) \<noteq> tail_ptr (queue_init 0x10 sample_mem)" by (simp add: u init_simps)
  have n': "(0x30 :: u64) \<noteq> tail_ptr (enqueued 0x20 7 (queue_init 0x10 sample_mem))" by (simp add: enqueued_simps[OF u(2) n])
  have h: "head_ptr sample_queue = 0x10"
    unfolding sample_queue_def by (simp add: enqueued_simps[OF u(3) n'] enqueued_simps[OF u(2) n] init_simps u)
  have z: "(0x10 :: u64) \<noteq> 0" by simp
  obtain nodes where *: "queue_spec_run (enqueue_events 0 7 @ enqueue_events 1 5) ([], \<lambda>_. None, {}) =
      Some (map (\<lambda>p. qn_data (q_node sample_queue p)) (tl nodes), \<lambda>t. q_pending QIdle, {t. (QIdle :: nat queue_pc) \<noteq> QIdle})"
    "hd nodes = head_ptr sample_queue" "set nodes \<subseteq> q_used sample_queue"
    using queue_linearizable[OF two_enqueues z u(1)] by blast
  then show ?thesis using h by (intro exI[of _ nodes]) simp
qed

theorem queue_destruct_frees_all_witness: "q_used (Queue_destruct 3 0x10 sample_queue) = {}"
proof -
  note u = user_ptr_samples
  have n: "(0x20 :: u64) \<noteq> tail_ptr (queue_init 0x10 sample_mem)" by (simp add: u init_simps)
  have n': "(0x30 :: u64) \<noteq> tail_ptr (enqueued 0x20 7 (queue_init 0x10 sample_mem))" by (simp add: enqueued_simps[OF u(2) n])
  have h: "head_ptr sample_queue = 0x10" "q_used sample_queue = {0x30, 0x20, 0x10}"
    unfolding sample_queue_def by (simp_all add: enqueued_simps[OF u(3) n'] enqueued_simps[OF u(2) n] init_simps u)
  then have "card (q_used sample_queue) \<le> 3" by simp
  then show ?thesis using queue_destruct_frees_all[OF two_enqueues, of 3] u h by simp
qed

theorem queue_alone_terminates_witness: "fst (queue_alone 14 DeqDec sample_queue) = QIdle"
proof -
  note u = user_ptr_samples
  have n: "(0x20 :: u64) \<noteq> tail_ptr (queue_init 0x10 sample_mem)" by (simp add: u init_simps)
  have n': "(0x30 :: u64) \<noteq> tail_ptr (enqueued 0x20 7 (queue_init 0x10 sample_mem))" by (simp add: enqueued_simps[OF u(2) n])
  have c: "q_count sample_queue = 2"
    unfolding sample_queue_def by (simp add: enqueued_simps[OF u(3) n'] enqueued_simps[OF u(2) n] init_simps u)
  have "queue_schedule [(2, Some CallDequeue)] (sample_queue, \<lambda>_. QIdle) = Some ([(2, QCalled)], sample_queue, (\<lambda>_. QIdle)(2 := DeqDec))"
    by simp
  from thread_run_trans[OF queue_schedule_run[OF this] two_enqueues] queue_alone_terminates[of "0x10" sample_mem _ sample_queue "(\<lambda>_. QIdle)(2 := DeqDec)" 2]
  show ?thesis using u c by simp
qed

section \<open>A refused dequeue\<close>

text \<open>
  C37. A dequeue may be refused although a value has been enqueued completely before and nobody takes it: another
  dequeue, refused when the queue was empty, has not yet taken its decrement back. (The abstract queue allows it;
  with a single consumer, as the library uses its queues, it cannot happen.)
\<close>
theorem queue_refuses_nonempty:
  "\<exists>s L. queue_run queue_young (queue_init 0x10 m, \<lambda>_. QIdle)
    ([(0, QCalled), (0, QRefused)] @ enqueue_events 1 d @ [(1, QCalled), (1, QRefused)]) (s, L) \<and>
    next_ptr s (head_ptr s) = 0x20 \<and> qn_data (q_node s 0x20) = d \<and> (\<forall>t. \<not> reserved (L t))"
proof -
  note u = user_ptr_samples
  let ?s = "queue_init 0x10 m"
  let ?s1 = "add_size (- 1) ?s" and ?L = "(\<lambda>_. QIdle)(0 := DeqRestore)"
  let ?s2 = "enqueued 0x20 d ?s1"
  have 1: "queue_schedule [(0, Some CallDequeue), (0, None)] (?s, \<lambda>_. QIdle) = Some ([(0, QCalled), (0, QRefused)], ?s1, ?L)"
    by (simp add: next_queue_access_def init_simps u)
  have i1: "tail_ptr ?s1 = 0x10" "next_ptr ?s1 0x10 = 0" "q_used ?s1 = {0x10}" "q_count ?s1 = -1" "q_size ?s1 = -1" "head_ptr ?s1 = 0x10"
    by (simp_all add: init_simps u)
  have n: "(0x20 :: u64) \<noteq> tail_ptr ?s1" unfolding i1(1) by simp
  have 2: "queue_schedule (enqueue_calls 1 d 0x20) (?s1, ?L) = Some (enqueue_events 1 d, ?s2, ?L)"
    by (rule whole_enqueue) (use u i1 n in simp_all)
  have c2: "q_count ?s2 = 0" "q_size ?s2 = 0" unfolding enqueued_simps[OF u(2) n] i1 by simp_all
  have 3: "queue_schedule [(1, Some CallDequeue), (1, None)] (?s2, ?L) = Some ([(1, QCalled), (1, QRefused)], add_size (- 1) ?s2, ?L(1 := DeqRestore))"
    by (simp add: next_queue_access_def c2)
  have R: "queue_run queue_young (?s, \<lambda>_. QIdle) ([(0, QCalled), (0, QRefused)] @ enqueue_events 1 d @ [(1, QCalled), (1, QRefused)])
      (add_size (- 1) ?s2, ?L(1 := DeqRestore))"
    by (rule thread_run_trans[OF thread_run_trans[OF queue_schedule_run[OF 3] queue_schedule_run[OF 2]] queue_schedule_run[OF 1]])
  have "head_ptr (add_size (- 1) ?s2) = 0x10" using enqueued_simps(6)[OF u(2) n] i1(6) by simp
  moreover have "next_ptr (add_size (- 1) ?s2) 0x10 = 0x20" using enqueued_simps(8)[OF u(2) n] i1(1) by simp
  moreover have "qn_data (q_node (add_size (- 1) ?s2) 0x20) = d" using enqueued_simps(9)[OF u(2) n] by simp
  ultimately show ?thesis using R by (intro exI[of _ "add_size (- 1) ?s2"] exI[of _ "?L(1 := DeqRestore)"]) simp
qed

end
