(* ===== verification/IocpEcho.thy ===== *)
theory IocpEcho
  imports EchoServer
begin

text \<open>
  \<open>Echo/EchoServer/IOCPEchoServer.cpp\<close>: the echo server in one file that precedes the network library.
  Its sessions are objects on the heap, found through a map from ids; each has a receive and a send ring
  buffer, a count of pending operations and a critical section. The operations run without
  interference, as one thread runs them; the critical section is the number of times that thread has
  entered it, and a lock that nobody will give back is a \<open>Deadlock\<close>. System calls are events whose results
  are parameters, \<open>printf\<close> is left out.
\<close>

section \<open>State\<close>

definition SERVERPORT :: u16 where "SERVERPORT = 6000"
definition Iocp_BUFSIZE :: int where "Iocp_BUFSIZE = 2000"
definition THREADNUM :: nat where "THREADNUM = 21"

record echo_session =
  es_sock :: u64
  es_sessionID :: u64
  es_recvQ :: ring
  es_sendQ :: ring
  es_ip :: string
  es_port :: u16
  es_ioCount :: u32
  es_isSending :: bool
  es_cs :: nat

datatype srw_lock = SrwFree | SrwShared | SrwExclusive

record iocp =
  io_heap :: "u64 \<Rightarrow> echo_session option"
  io_sessionMap :: "u64 \<Rightarrow> u64 option"
  io_lock :: srw_lock
  io_trace :: "event list"

text \<open>\<open>ie_new\<close> is the address that \<open>new Session\<close> returns, \<open>ie_mem n\<close> a block of \<open>n\<close> bytes from \<open>new\<close>,
  \<open>ie_junk\<close> what the uninitialised \<open>echo\<close> of \<open>OnRecv\<close> holds.\<close>

record iocp_env =
  ie_wsa :: "event list \<Rightarrow> event \<Rightarrow> u32"
  ie_new :: "(u64 \<Rightarrow> echo_session option) \<Rightarrow> u64"
  ie_mem :: "int \<Rightarrow> bytes"
  ie_junk :: u64

definition Iocp_Session :: "iocp_env \<Rightarrow> u64 \<Rightarrow> u64 \<Rightarrow> string \<Rightarrow> u16 \<Rightarrow> echo_session" where
  "Iocp_Session env s sid ipAddr portNum =
     \<lparr>es_sock = s, es_sessionID = sid,
      es_recvQ = RingBuffer_sized (ie_mem env (Iocp_BUFSIZE + 2)) (Iocp_BUFSIZE + 1),
      es_sendQ = RingBuffer_sized (ie_mem env (Iocp_BUFSIZE + 2)) (Iocp_BUFSIZE + 1),
      es_ip = take 15 ipAddr, es_port = portNum, es_ioCount = 0, es_isSending = False, es_cs = 0\<rparr>"

section \<open>Memory, locks and system calls\<close>

definition Iocp_deref :: "u64 \<Rightarrow> iocp \<Rightarrow> echo_session result" where
  "Iocp_deref p s = (case io_heap s p of Some x \<Rightarrow> Inr x | None \<Rightarrow> Inl (if p = 0 then NullDeref else BadPointer))"

definition Iocp_upd :: "u64 \<Rightarrow> (echo_session \<Rightarrow> echo_session) \<Rightarrow> iocp \<Rightarrow> iocp result" where
  "Iocp_upd p f s = and_then (Iocp_deref p s) (\<lambda>x. Inr (s\<lparr>io_heap := (io_heap s)(p \<mapsto> f x)\<rparr>))"

definition Iocp_add_io :: "u32 \<Rightarrow> u64 \<Rightarrow> iocp \<Rightarrow> (iocp \<times> u32) result" where
  "Iocp_add_io d p s =
     and_then (Iocp_deref p s) (\<lambda>x. let n = es_ioCount x + d in
     Inr (s\<lparr>io_heap := (io_heap s)(p \<mapsto> x\<lparr>es_ioCount := n\<rparr>)\<rparr>, n))"

definition Iocp_Enter :: "u64 \<Rightarrow> iocp \<Rightarrow> iocp result" where
  "Iocp_Enter p = Iocp_upd p (\<lambda>x. x\<lparr>es_cs := Suc (es_cs x)\<rparr>)"

definition Iocp_Leave :: "u64 \<Rightarrow> iocp \<Rightarrow> iocp result" where
  "Iocp_Leave p s =
     and_then (Iocp_deref p s) (\<lambda>x.
     if es_cs x = 0 then Inl LockMisuse else Iocp_upd p (\<lambda>x. x\<lparr>es_cs := es_cs x - 1\<rparr>) s)"

definition Acquire_exclusive :: "iocp \<Rightarrow> iocp result" where
  "Acquire_exclusive s = (if io_lock s = SrwFree then Inr (s\<lparr>io_lock := SrwExclusive\<rparr>) else Inl Deadlock)"

definition Release_exclusive :: "iocp \<Rightarrow> iocp result" where
  "Release_exclusive s = (if io_lock s = SrwExclusive then Inr (s\<lparr>io_lock := SrwFree\<rparr>) else Inl LockMisuse)"

definition Acquire_shared :: "iocp \<Rightarrow> iocp result" where
  "Acquire_shared s = (if io_lock s = SrwFree then Inr (s\<lparr>io_lock := SrwShared\<rparr>) else Inl Deadlock)"

definition Release_shared :: "iocp \<Rightarrow> iocp result" where
  "Release_shared s = (if io_lock s = SrwShared then Inr (s\<lparr>io_lock := SrwFree\<rparr>) else Inl LockMisuse)"

definition Iocp_syscall :: "iocp_env \<Rightarrow> event \<Rightarrow> iocp \<Rightarrow> iocp \<times> u32" where
  "Iocp_syscall env e s = (s\<lparr>io_trace := io_trace s @ [e]\<rparr>, ie_wsa env (io_trace s) e)"

definition Iocp_emit :: "event \<Rightarrow> iocp \<Rightarrow> iocp" where
  "Iocp_emit e s = s\<lparr>io_trace := io_trace s @ [e]\<rparr>"

section \<open>Finding and releasing sessions\<close>

definition Iocp_FindSession :: "u64 \<Rightarrow> iocp \<Rightarrow> u64" where
  "Iocp_FindSession sid s = (case io_sessionMap s sid of None \<Rightarrow> 0 | Some p \<Rightarrow> p)"

definition Iocp_ReleaseSession :: "u64 \<Rightarrow> iocp \<Rightarrow> iocp result" where
  "Iocp_ReleaseSession sid s =
     and_then (Acquire_exclusive s) (\<lambda>s.
     let p = Iocp_FindSession sid s in
     if p = 0 then Inr s
     else
     let s = s\<lparr>io_sessionMap := (io_sessionMap s)(sid := None)\<rparr> in
     and_then (Release_exclusive s) (\<lambda>s.
     and_then (Iocp_Enter p s) (\<lambda>s.
     and_then (Iocp_Leave p s) (\<lambda>s.
     and_then (Iocp_deref p s) (\<lambda>x.
     let s = Iocp_emit (EvClose (es_sock x)) s in
     Inr (s\<lparr>io_heap := (io_heap s)(p := None)\<rparr>))))))"

section \<open>Sending\<close>

text \<open>The buffers of a send: the stored bytes, in one piece or in two.\<close>

definition Iocp_send_bufs :: "ring \<Rightarrow> bytes list result" where
  "Iocp_send_bufs r =
     (let sendQUseSize = RingBuffer_GetUseSize r; sendQDirectSize = RingBuffer_DirectDequeueSize r in
      and_then (mem_read (m_pBuffer r) (RingBuffer_GetFrontBufferPtr r) sendQDirectSize) (\<lambda>b.
      if sendQUseSize > sendQDirectSize
      then and_then (mem_read (m_pBuffer r) (RingBuffer_GetBufferPtr r) (sendQUseSize - sendQDirectSize)) (\<lambda>b2. Inr [b, b2])
      else Inr [b]))"

text \<open>Posting a send, which \<open>SendProc\<close> and \<open>SendPacket\<close> write out in the same words; the flag says that the
  session has been released and the caller returns at once.\<close>

definition Iocp_post_send :: "iocp_env \<Rightarrow> u64 \<Rightarrow> iocp \<Rightarrow> (iocp \<times> bool) result" where
  "Iocp_post_send env p s =
     and_then (Iocp_deref p s) (\<lambda>x.
     and_then (Iocp_send_bufs (es_sendQ x)) (\<lambda>bufs.
     and_then (Iocp_add_io 1 p s) (\<lambda>(s, _).
     let (s, errCode) = Iocp_syscall env (EvSend (es_sock x) bufs) s in
     if errCode = 0 \<or> errCode = WSA_IO_PENDING then Inr (s, False)
     else if errCode \<noteq> WSAECONNRESET then Inl DebugBreak
     else
     and_then (Iocp_add_io (- 1) p s) (\<lambda>(s, n).
     if n = 0 then
       and_then (Iocp_Leave p s) (\<lambda>s.
       and_then (Iocp_deref p s) (\<lambda>x.
       and_then (Iocp_ReleaseSession (es_sessionID x) s) (\<lambda>s. Inr (s, True))))
     else Inr (s, False)))))"

definition Iocp_SendProc :: "iocp_env \<Rightarrow> u64 \<Rightarrow> u32 \<Rightarrow> iocp \<Rightarrow> iocp result" where
  "Iocp_SendProc env p cbTransferred s =
     and_then (Iocp_Enter p s) (\<lambda>s.
     and_then (Iocp_upd p (\<lambda>x. x\<lparr>es_sendQ := fst (RingBuffer_MoveFront (es_sendQ x) (sint cbTransferred))\<rparr>) s) (\<lambda>s.
     and_then (Iocp_upd p (\<lambda>x. x\<lparr>es_isSending := False\<rparr>) s) (\<lambda>s.
     and_then (Iocp_deref p s) (\<lambda>x.
     and_then
       (if RingBuffer_GetUseSize (es_sendQ x) > 0 then
          and_then (Iocp_upd p (\<lambda>x. x\<lparr>es_isSending := True\<rparr>) s) (Iocp_post_send env p)
        else Inr (s, False)) (\<lambda>(s, released).
     if released then Inr s
     else
     and_then (Iocp_add_io (- 1) p s) (\<lambda>(s, n).
     if n = 0 then
       and_then (Iocp_Leave p s) (\<lambda>s.
       and_then (Iocp_deref p s) (\<lambda>x. Iocp_ReleaseSession (es_sessionID x) s))
     else Iocp_Leave p s))))))"

text \<open>The two bytes of \<open>Header\<close> and then the payload go into the send queue, as far as they fit.\<close>

definition Iocp_SendPacket :: "iocp_env \<Rightarrow> u64 \<Rightarrow> packet \<Rightarrow> iocp \<Rightarrow> (iocp \<times> packet) result" where
  "Iocp_SendPacket env sid pkt s =
     and_then (Acquire_exclusive s) (\<lambda>s.
     let p = Iocp_FindSession sid s in
     and_then (Iocp_Enter p s) (\<lambda>s.
     and_then (Release_exclusive s) (\<lambda>s.
     let len = word_of_int (Packet_GetDataSize pkt) :: u16 in
     and_then (Iocp_deref p s) (\<lambda>x.
     and_then (RingBuffer_Enqueue (es_sendQ x) (Some (le_encode 2 len, 0)) 2) (\<lambda>(q, _).
     and_then (RingBuffer_Enqueue q (Some (m_chpBuffer pkt, Packet_GetReadPtr pkt)) (int (unat len))) (\<lambda>(q, _).
     and_then (Iocp_upd p (\<lambda>x. x\<lparr>es_sendQ := q\<rparr>) s) (\<lambda>s.
     let pkt = fst (Packet_MoveReadPos pkt (int (unat len))) in
     and_then
       (if \<not> es_isSending x then
          and_then (Iocp_upd p (\<lambda>x. x\<lparr>es_isSending := True\<rparr>) s) (Iocp_post_send env p)
        else Inr (s, False)) (\<lambda>(s, released).
     if released then Inr (s, pkt)
     else and_then (Iocp_Leave p s) (\<lambda>s. Inr (s, pkt))))))))))"

section \<open>Receiving\<close>

definition Iocp_OnRecv :: "iocp_env \<Rightarrow> u64 \<Rightarrow> packet \<Rightarrow> iocp \<Rightarrow> iocp result" where
  "Iocp_OnRecv env sid pkt s =
     and_then (Packet_get64 pkt (ie_junk env)) (\<lambda>(pkt, echo).
     and_then (Acquire_shared s) (\<lambda>s.
     let p = Iocp_FindSession sid s in
     and_then (Release_shared s) (\<lambda>s.
     and_then (Iocp_deref p s) (\<lambda>_.
     and_then (Packet_put64 (Packet_sized (ie_mem env (Iocp_BUFSIZE + 6)) (Iocp_BUFSIZE + 1)) echo) (\<lambda>sendPacket.
     and_then (Iocp_SendPacket env sid sendPacket s) (\<lambda>(s, _). Inr s))))))"

text \<open>The loop over the complete frames; every pass consumes a header, so the size of the queue is enough
  fuel. A frame goes into a local packet.\<close>

fun Iocp_frames :: "iocp_env \<Rightarrow> nat \<Rightarrow> u64 \<Rightarrow> iocp \<Rightarrow> iocp result" where
  "Iocp_frames env 0 p s = Inl OutOfFuel"
| "Iocp_frames env (Suc fuel) p s =
     and_then (Iocp_deref p s) (\<lambda>x.
     let useSize = RingBuffer_GetUseSize (es_recvQ x) in
     if useSize < 2 then Inr s
     else
     and_then (RingBuffer_Peek (es_recvQ x) (Some (replicate 2 0, 0)) 2) (\<lambda>(dst, _).
     let len = unat (le_decode (case dst of None \<Rightarrow> [] | Some (b, _) \<Rightarrow> b) :: u16) in
     if useSize < 2 + int len then Inr s
     else
     let q = fst (RingBuffer_MoveFront (es_recvQ x) 2);
         recvPacket = Packet_default (ie_mem env 1405) in
     and_then (RingBuffer_Dequeue q (Some (m_chpBuffer recvPacket, Packet_GetWritePtr recvPacket)) (int len)) (\<lambda>(q, dst, _).
     and_then (Iocp_upd p (\<lambda>x. x\<lparr>es_recvQ := q\<rparr>) s) (\<lambda>s.
     let recvPacket = (case dst of None \<Rightarrow> recvPacket | Some (b, _) \<Rightarrow> recvPacket\<lparr>m_chpBuffer := b\<rparr>);
         recvPacket = fst (Packet_MoveWritePos recvPacket (int len)) in
     and_then (Iocp_OnRecv env (es_sessionID x) recvPacket s) (\<lambda>s.
     Iocp_frames env fuel p s)))))"

definition Iocp_post_recv :: "iocp_env \<Rightarrow> u64 \<Rightarrow> iocp \<Rightarrow> iocp result" where
  "Iocp_post_recv env p s =
     and_then (Iocp_deref p s) (\<lambda>x.
     let (s, errCode) = Iocp_syscall env (EvRecv (es_sock x) (recv_windows (es_recvQ x))) s in
     if errCode = 0 \<or> errCode = WSA_IO_PENDING then Iocp_Leave p s
     else if errCode \<noteq> WSAECONNRESET then Inl DebugBreak
     else
     and_then (Iocp_add_io (- 1) p s) (\<lambda>(s, n).
     if n = 0 then
       and_then (Iocp_Leave p s) (\<lambda>s.
       and_then (Iocp_deref p s) (\<lambda>x. Iocp_ReleaseSession (es_sessionID x) s))
     else Iocp_Leave p s))"

definition Iocp_RecvProc :: "iocp_env \<Rightarrow> u64 \<Rightarrow> u32 \<Rightarrow> iocp \<Rightarrow> iocp result" where
  "Iocp_RecvProc env p cbTransferred s =
     and_then (Iocp_Enter p s) (\<lambda>s.
     and_then (Iocp_upd p (\<lambda>x. x\<lparr>es_recvQ := fst (RingBuffer_MoveRear (es_recvQ x) (sint cbTransferred))\<rparr>) s) (\<lambda>s.
     and_then (Iocp_deref p s) (\<lambda>x.
     and_then (Iocp_frames env (nat (RingBuffer_GetUseSize (es_recvQ x)) + 1) p s) (\<lambda>s.
     Iocp_post_recv env p s))))"

section \<open>The threads\<close>

text \<open>What \<open>GetQueuedCompletionStatus\<close> returns; the \<open>OVERLAPPED\<close> is the session it is embedded in and its type.\<close>

record iocp_completion =
  ic_retval :: bool
  ic_transferred :: u32
  ic_key :: u64
  ic_overlapped :: "(u64 \<times> IOType) option"

definition Iocp_Worker_step :: "iocp_env \<Rightarrow> iocp_completion \<Rightarrow> iocp \<Rightarrow> (iocp \<times> bool) result" where
  "Iocp_Worker_step env c s =
     (if ic_transferred c = 0 \<and> ic_key c = 0 \<and> ic_overlapped c = None then Inr (s, False)
      else case ic_overlapped c of None \<Rightarrow> Inl DebugBreak
      | Some (p, type) \<Rightarrow>
        and_then (Iocp_Enter p s) (\<lambda>s.
        if \<not> ic_retval c \<or> ic_transferred c = 0 then
          and_then (Iocp_Leave p s) (\<lambda>s.
          and_then (Iocp_add_io (- 1) p s) (\<lambda>(s, n).
          and_then
            (if n = 0 then and_then (Iocp_deref p s) (\<lambda>x. Iocp_ReleaseSession (es_sessionID x) s) else Inr s) (\<lambda>s.
          Inr (s, True))))
        else
        and_then (case type of RECV \<Rightarrow> Iocp_RecvProc env p (ic_transferred c) s
                  | SEND \<Rightarrow> Iocp_SendProc env p (ic_transferred c) s) (\<lambda>s.
        and_then (Iocp_Leave p s) (\<lambda>s. Inr (s, True)))))"

fun Iocp_WorkerThread :: "iocp_env \<Rightarrow> iocp_completion list \<Rightarrow> iocp \<Rightarrow> iocp result" where
  "Iocp_WorkerThread env [] s = Inr s"
| "Iocp_WorkerThread env (c # cs) s =
     and_then (Iocp_Worker_step env c s) (\<lambda>(s, more). if more then Iocp_WorkerThread env cs s else Inr s)"

text \<open>One client: \<open>accept\<close> has returned the socket and the address; \<open>n\<close> is \<open>sessionIDCount\<close>.\<close>

definition Iocp_Accept_client :: "iocp_env \<Rightarrow> u64 \<Rightarrow> u64 \<times> string \<times> u16 \<Rightarrow> iocp \<Rightarrow> iocp result" where
  "Iocp_Accept_client env n c s =
     (let (client_sock, ipAddr, portNum) = c;
          (s, err) = Iocp_syscall env (EvSockopt client_sock) s in
      if err \<noteq> 0 then Inl DebugBreak
      else let (s, err) = Iocp_syscall env (EvSockopt client_sock) s in
      if err \<noteq> 0 then Inl DebugBreak
      else let p = ie_new env (io_heap s);
               s = s\<lparr>io_heap := (io_heap s)(p \<mapsto> Iocp_Session env client_sock n ipAddr portNum)\<rparr> in
      and_then (Acquire_shared s) (\<lambda>s.
      and_then (Iocp_deref p s) (\<lambda>x.
      let s = s\<lparr>io_sessionMap := (io_sessionMap s)(es_sessionID x \<mapsto> p)\<rparr> in
      and_then (Release_shared s) (\<lambda>s.
      let s = Iocp_emit (EvAssociate client_sock (es_sessionID x)) s in
      and_then (Iocp_add_io 1 p s) (\<lambda>(s, _).
      let (s, err) = Iocp_syscall env (EvRecv client_sock
            [(RingBuffer_GetRearBufferPtr (es_recvQ x), RingBuffer_DirectEnqueueSize (es_recvQ x))]) s in
      if err = 0 \<or> err = WSA_IO_PENDING then Inr s
      else
      and_then (Iocp_add_io (- 1) p s) (\<lambda>(s, n).
      and_then (if n = 0 then Iocp_ReleaseSession (es_sessionID x) s else Inr s) (\<lambda>s. Inl DebugBreak)))))))"

text \<open>The loop, over the results of \<open>accept\<close>: a client, or the error code.\<close>

definition WSAEINTR :: u32 where "WSAEINTR = 10004"

fun Iocp_accept_loop :: "iocp_env \<Rightarrow> u64 \<Rightarrow> (u32 + u64 \<times> string \<times> u16) list \<Rightarrow> iocp \<Rightarrow> iocp result" where
  "Iocp_accept_loop env n [] s = Inr s"
| "Iocp_accept_loop env n (Inl errCode # rs) s = (if errCode = WSAEINTR then Inr s else Inl DebugBreak)"
| "Iocp_accept_loop env n (Inr c # rs) s =
     and_then (Iocp_Accept_client env n c s) (\<lambda>s. Iocp_accept_loop env (n + 1) rs s)"

definition Iocp_AcceptThread :: "iocp_env \<Rightarrow> (u32 + u64 \<times> string \<times> u16) list \<Rightarrow> iocp \<Rightarrow> iocp result" where
  "Iocp_AcceptThread env rs s =
     (let (s, err) = Iocp_syscall env EvSocket s in if err \<noteq> 0 then Inr s
      else let (s, err) = Iocp_syscall env (EvBind ''127.0.0.1'' SERVERPORT) s in if err \<noteq> 0 then Inr s
      else let (s, err) = Iocp_syscall env EvListen s in if err \<noteq> 0 then Inr s
      else Iocp_accept_loop env 0 rs s)"

text \<open>\<open>main\<close>: up to the loop that waits for a key, and from the key to the end; \<open>listen_sock\<close> is the socket
  that the accept thread has opened. The test of a thread's handle compares the array and never fails.\<close>

definition Iocp_main_start :: "iocp_env \<Rightarrow> iocp \<Rightarrow> iocp \<times> bool" where
  "Iocp_main_start env s =
     (let (s, err) = Iocp_syscall env EvStartup s in if err \<noteq> 0 then (s, False)
      else let (s, err) = Iocp_syscall env (EvCreatePort 10) s in if err \<noteq> 0 then (s, False)
      else (s\<lparr>io_lock := SrwFree, io_trace := io_trace s @ replicate THREADNUM EvThread\<rparr>, True))"

definition Iocp_main_stop :: "u64 \<Rightarrow> iocp \<Rightarrow> iocp" where
  "Iocp_main_stop listen_sock s =
     (let s = Iocp_emit (EvClose listen_sock) s;
          s = s\<lparr>io_trace := io_trace s @ replicate THREADNUM EvPostQuit\<rparr>
      in Iocp_emit EvCleanup (Iocp_emit EvClosePort (Iocp_emit (EvJoin THREADNUM) s)))"

end
