(* ===== verification/IocpSafety.thy ===== *)
theory IocpSafety
  imports IocpEcho LanReceive
begin

text \<open>
  The single-file echo server: evaluation of its operations on a well-formed state, and the
  invariant that ties the map, the heap and the counts of pending operations together.
\<close>

section \<open>Evaluation\<close>

text \<open>Writing a session, and the laws by which a run of writes collapses.\<close>

definition Iocp_put :: "u64 \<Rightarrow> echo_session \<Rightarrow> iocp \<Rightarrow> iocp" where
  "Iocp_put p x s = s\<lparr>io_heap := (io_heap s)(p \<mapsto> x)\<rparr>"

lemma Iocp_put_simps [simp]:
  "io_heap (Iocp_put p x s) = (io_heap s)(p \<mapsto> x)"
  "io_sessionMap (Iocp_put p x s) = io_sessionMap s"
  "io_lock (Iocp_put p x s) = io_lock s"
  "io_trace (Iocp_put p x s) = io_trace s"
  "Iocp_put p y (Iocp_put p x s) = Iocp_put p y s"
  "(Iocp_put p x s)\<lparr>io_lock := l\<rparr> = Iocp_put p x (s\<lparr>io_lock := l\<rparr>)"
  "(Iocp_put p x s)\<lparr>io_trace := tr\<rparr> = Iocp_put p x (s\<lparr>io_trace := tr\<rparr>)"
  by (simp_all add: Iocp_put_def)

lemma Iocp_put_collapse:
  "Iocp_put p y ((Iocp_put p x s)\<lparr>io_trace := tr\<rparr>) = Iocp_put p y (s\<lparr>io_trace := tr\<rparr>)"
  "io_trace (Iocp_put p x s) = io_trace s"
  by simp_all

lemma Iocp_put_same: "io_heap s p = Some x \<Longrightarrow> Iocp_put p x s = s"
  by (simp add: Iocp_put_def fun_upd_idem)

lemma lock_same: "io_lock s = l \<Longrightarrow> s\<lparr>io_lock := l\<rparr> = s"
  by auto

lemma sending_same: "es_isSending x \<Longrightarrow> x\<lparr>es_sendQ := q, es_isSending := True\<rparr> = x\<lparr>es_sendQ := q\<rparr>"
  by (cases x) simp

lemma cs_same: "es_cs x = k \<Longrightarrow> x\<lparr>es_cs := k\<rparr> = x"
  by auto

lemma Iocp_deref_ok [fault_simps]: "io_heap s p = Some x \<Longrightarrow> Iocp_deref p s = Inr x"
  by (simp add: Iocp_deref_def)

lemma Iocp_deref_bad [fault_simps]: "io_heap s p = None \<Longrightarrow> p \<noteq> 0 \<Longrightarrow> Iocp_deref p s = Inl BadPointer"
  by (simp add: Iocp_deref_def)

lemma Iocp_upd_ok [fault_simps]: "io_heap s p = Some x \<Longrightarrow> Iocp_upd p f s = Inr (Iocp_put p (f x) s)"
  by (simp add: Iocp_upd_def Iocp_deref_def Iocp_put_def)

lemma Iocp_add_io_ok [fault_simps]:
  "io_heap s p = Some x \<Longrightarrow> Iocp_add_io d p s = Inr (Iocp_put p (x\<lparr>es_ioCount := es_ioCount x + d\<rparr>) s, es_ioCount x + d)"
  by (simp add: Iocp_add_io_def Iocp_deref_def Iocp_put_def Let_def)

lemma Iocp_Enter_ok [fault_simps]:
  "io_heap s p = Some x \<Longrightarrow> Iocp_Enter p s = Inr (Iocp_put p (x\<lparr>es_cs := Suc (es_cs x)\<rparr>) s)"
  by (simp add: Iocp_Enter_def Iocp_upd_ok)

lemma Iocp_Leave_ok [fault_simps]:
  "io_heap s p = Some x \<Longrightarrow> 0 < es_cs x \<Longrightarrow> Iocp_Leave p s = Inr (Iocp_put p (x\<lparr>es_cs := es_cs x - 1\<rparr>) s)"
  by (simp add: Iocp_Leave_def Iocp_upd_ok Iocp_deref_ok)

lemma locks_ok [fault_simps]:
  "io_lock s = SrwFree \<Longrightarrow> Acquire_exclusive s = Inr (s\<lparr>io_lock := SrwExclusive\<rparr>)"
  "io_lock s = SrwExclusive \<Longrightarrow> Release_exclusive s = Inr (s\<lparr>io_lock := SrwFree\<rparr>)"
  "io_lock s = SrwFree \<Longrightarrow> Acquire_shared s = Inr (s\<lparr>io_lock := SrwShared\<rparr>)"
  "io_lock s = SrwShared \<Longrightarrow> Release_shared s = Inr (s\<lparr>io_lock := SrwFree\<rparr>)"
  by (simp_all add: Acquire_exclusive_def Release_exclusive_def Acquire_shared_def Release_shared_def)

lemma FindSession_ok: "io_sessionMap s sid = Some p \<Longrightarrow> Iocp_FindSession sid s = p"
  by (simp add: Iocp_FindSession_def)

lemma FindSession_simps [simp]:
  "Iocp_FindSession sid (s\<lparr>io_lock := l\<rparr>) = Iocp_FindSession sid s"
  "Iocp_FindSession sid (Iocp_put p x s) = Iocp_FindSession sid s"
  by (simp_all add: Iocp_FindSession_def)

text \<open>The state without a session.\<close>

definition Iocp_gone :: "u64 \<Rightarrow> echo_session \<Rightarrow> iocp \<Rightarrow> iocp" where
  "Iocp_gone p x s = s\<lparr>io_sessionMap := (io_sessionMap s)(es_sessionID x := None),
     io_heap := (io_heap s)(p := None), io_trace := io_trace s @ [EvClose (es_sock x)]\<rparr>"

lemma ReleaseSession_ok:
  assumes "io_lock s = SrwFree" and "io_sessionMap s (es_sessionID x) = Some p" and "p \<noteq> 0"
    and "io_heap s p = Some x"
  shows "Iocp_ReleaseSession (es_sessionID x) s = Inr (Iocp_gone p x s)"
  using assms
  by (simp add: Iocp_ReleaseSession_def fault_simps Let_def FindSession_ok Iocp_gone_def Iocp_emit_def Iocp_put_def)

section \<open>Well-formed states\<close>

definition echo_ok :: "echo_session \<Rightarrow> bool" where
  "echo_ok x \<longleftrightarrow> ring_inv (es_recvQ x) \<and> m_capacity (es_recvQ x) = 2002 \<and>
     ring_inv (es_sendQ x) \<and> m_capacity (es_sendQ x) = 2002"

text \<open>Every session is found under its own id, and the map holds nothing else.\<close>

definition iocp_wf :: "iocp \<Rightarrow> bool" where
  "iocp_wf s \<longleftrightarrow> io_lock s = SrwFree \<and> io_heap s 0 = None \<and>
     (\<forall>sid p. io_sessionMap s sid = Some p \<longleftrightarrow> (\<exists>x. io_heap s p = Some x \<and> es_sessionID x = sid)) \<and>
     (\<forall>p x. io_heap s p = Some x \<longrightarrow> echo_ok x)"

lemma iocp_wfD:
  assumes "iocp_wf s" and "io_heap s p = Some x"
  shows "io_lock s = SrwFree" "io_sessionMap s (es_sessionID x) = Some p" "p \<noteq> 0" "echo_ok x"
proof -
  show "p \<noteq> 0" using assms by (cases "p = 0") (auto simp: iocp_wf_def)
qed (use assms in \<open>auto simp: iocp_wf_def\<close>)

lemma iocp_wf_put:
  assumes "iocp_wf s" and "io_heap s p = Some x" and "echo_ok y" and "es_sessionID y = es_sessionID x"
  shows "iocp_wf (Iocp_put p y s)"
  using assms iocp_wfD(3)[OF assms(1,2)] by (auto simp: iocp_wf_def)

lemma iocp_wf_trace [simp]: "iocp_wf (s\<lparr>io_trace := tr\<rparr>) = iocp_wf s"
  by (simp add: iocp_wf_def)

lemma iocp_wf_gone:
  assumes "iocp_wf s" and "io_heap s p = Some x"
  shows "iocp_wf (Iocp_gone p x s)"
proof -
  have M: "io_sessionMap s sid = Some q \<longleftrightarrow> (\<exists>x. io_heap s q = Some x \<and> es_sessionID x = sid)" for sid q
    using assms(1) by (simp add: iocp_wf_def)
  have U: "q = p" if "io_heap s q = Some y" "es_sessionID y = es_sessionID x" for q y
    using iocp_wfD(2)[OF assms] iocp_wfD(2)[OF assms(1) that(1)] that(2) by simp
  have "io_sessionMap (Iocp_gone p x s) sid = Some q \<longleftrightarrow>
      (\<exists>y. io_heap (Iocp_gone p x s) q = Some y \<and> es_sessionID y = sid)" for sid q
  proof (cases "sid = es_sessionID x")
    case True
    then show ?thesis using U[of q] by (auto simp: Iocp_gone_def)
  next
    case False
    then show ?thesis using M[of sid q] assms(2) by (auto simp: Iocp_gone_def)
  qed
  then show ?thesis using assms(1) by (simp add: iocp_wf_def) (simp add: Iocp_gone_def)
qed

text \<open>
  \<open>R\<close> are the sessions with a receive that has not completed, \<open>S\<close> those with such a send. Their number is
  the count of the session, which lives as long as one is pending.
\<close>

definition iocp_inv :: "u64 set \<Rightarrow> u64 set \<Rightarrow> iocp \<Rightarrow> bool" where
  "iocp_inv R S s \<longleftrightarrow> iocp_wf s \<and> (\<forall>p. p \<in> R \<union> S \<longleftrightarrow> io_heap s p \<noteq> None) \<and>
     (\<forall>p x. io_heap s p = Some x \<longrightarrow> es_cs x = 0 \<and> es_ioCount x = of_bool (p \<in> R) + of_bool (p \<in> S) \<and>
        (p \<in> S \<longrightarrow> es_isSending x))"

lemma iocp_invD:
  assumes "iocp_inv R S s" and "io_heap s p = Some x"
  shows "iocp_wf s" "es_cs x = 0" "es_ioCount x = of_bool (p \<in> R) + of_bool (p \<in> S)"
    "p \<in> S \<Longrightarrow> es_isSending x" "p \<in> R \<or> p \<in> S"
  using assms by (auto simp: iocp_inv_def)

lemma iocp_count:
  assumes "iocp_inv R S s" and "io_heap s p = Some x"
  shows "es_ioCount x \<noteq> 0" "es_ioCount x = 1 \<longleftrightarrow> \<not> (p \<in> R \<and> p \<in> S)"
    "p \<in> S \<longleftrightarrow> es_ioCount x \<noteq> of_bool (p \<in> R)"
  using iocp_invD(3,5)[OF assms] by auto

lemma iocp_inv_put:
  assumes "iocp_inv R S s" and "io_heap s p = Some x" and "echo_ok y" and "es_sessionID y = es_sessionID x"
    and "es_cs y = 0" and "es_ioCount y = of_bool (p \<in> R') + of_bool (p \<in> S')" and "p \<in> S' \<Longrightarrow> es_isSending y"
    and "p \<in> R' \<or> p \<in> S'" and "R' - {p} = R - {p}" and "S' - {p} = S - {p}"
  shows "iocp_inv R' S' (Iocp_put p y s)"
proof -
  have other: "q \<in> R' \<longleftrightarrow> q \<in> R" "q \<in> S' \<longleftrightarrow> q \<in> S" if "q \<noteq> p" for q using assms(9,10) that by blast+
  have "iocp_wf (Iocp_put p y s)" using iocp_wf_put[OF _ assms(2-4)] assms(1) by (simp add: iocp_inv_def)
  moreover have "q \<in> R' \<union> S' \<longleftrightarrow> io_heap (Iocp_put p y s) q \<noteq> None" for q
    using assms(1,8) other[of q] by (cases "q = p") (auto simp: iocp_inv_def)
  moreover have "es_cs z = 0 \<and> es_ioCount z = of_bool (q \<in> R') + of_bool (q \<in> S') \<and> (q \<in> S' \<longrightarrow> es_isSending z)"
    if "io_heap (Iocp_put p y s) q = Some z" for q z
    using assms(1,5-7) other[of q] that by (cases "q = p") (auto simp: iocp_inv_def)
  ultimately show ?thesis by (simp add: iocp_inv_def)
qed

lemma iocp_inv_trace [simp]: "iocp_inv R S (s\<lparr>io_trace := tr\<rparr>) = iocp_inv R S s"
  by (simp add: iocp_inv_def)

lemma iocp_inv_gone:
  assumes "iocp_inv R S s" and "io_heap s p = Some x"
  shows "iocp_inv (R - {p}) (S - {p}) (Iocp_gone p x s)"
proof -
  have "iocp_wf (Iocp_gone p x s)" using iocp_wf_gone[OF _ assms(2)] assms(1) by (simp add: iocp_inv_def)
  moreover have "q \<in> (R - {p}) \<union> (S - {p}) \<longleftrightarrow> io_heap (Iocp_gone p x s) q \<noteq> None" for q
    using assms(1) by (cases "q = p") (auto simp: iocp_inv_def Iocp_gone_def)
  ultimately show ?thesis using assms(1) by (auto simp: iocp_inv_def Iocp_gone_def)
qed

section \<open>Sending\<close>

text \<open>The environment: \<open>new char[n]\<close> returns \<open>n\<close> bytes. System calls return any code: a call that succeeds or stays
  pending is posted, a reset connection is handled, and any other code stops in the debugger.\<close>

definition iocp_mem :: "iocp_env \<Rightarrow> bool" where
  "iocp_mem env \<longleftrightarrow> (\<forall>n. length (ie_mem env n) = nat n)"

definition iocp_posted :: "u32 \<Rightarrow> bool" where
  "iocp_posted c \<longleftrightarrow> c = 0 \<or> c = WSA_IO_PENDING"

definition iocp_fatal :: "u32 \<Rightarrow> bool" where
  "iocp_fatal c \<longleftrightarrow> \<not> iocp_posted c \<and> c \<noteq> WSAECONNRESET"

lemma iocp_codes: "\<not> iocp_posted c \<Longrightarrow> \<not> iocp_fatal c \<longleftrightarrow> c = WSAECONNRESET" "iocp_posted c \<Longrightarrow> \<not> iocp_fatal c"
  "\<not> iocp_posted WSAECONNRESET"
  by (simp_all add: iocp_fatal_def iocp_posted_def WSAECONNRESET_def WSA_IO_PENDING_def)

text \<open>Of the calls \<open>es\<close> made after the trace \<open>tr\<close>: one in \<open>P\<close> is posted, and one is fatal.\<close>

fun iocp_posts :: "iocp_env \<Rightarrow> (event \<Rightarrow> bool) \<Rightarrow> event list \<Rightarrow> event list \<Rightarrow> bool" where
  "iocp_posts env P tr [] \<longleftrightarrow> False"
| "iocp_posts env P tr (e # es) \<longleftrightarrow> P e \<and> iocp_posted (ie_wsa env tr e) \<or> iocp_posts env P (tr @ [e]) es"

fun iocp_breaks :: "iocp_env \<Rightarrow> event list \<Rightarrow> event list \<Rightarrow> bool" where
  "iocp_breaks env tr [] \<longleftrightarrow> False"
| "iocp_breaks env tr (e # es) \<longleftrightarrow> iocp_fatal (ie_wsa env tr e) \<or> iocp_breaks env (tr @ [e]) es"

fun is_EvSend :: "event \<Rightarrow> bool" where
  "is_EvSend (EvSend _ _) = True" | "is_EvSend _ = False"

fun is_EvRecv :: "event \<Rightarrow> bool" where
  "is_EvRecv (EvRecv _ _) = True" | "is_EvRecv _ = False"

lemma iocp_posts_append: "iocp_posts env P tr (es @ fs) \<longleftrightarrow> iocp_posts env P tr es \<or> iocp_posts env P (tr @ es) fs"
  by (induction es arbitrary: tr) auto

lemma iocp_breaks_append: "iocp_breaks env tr (es @ fs) \<longleftrightarrow> iocp_breaks env tr es \<or> iocp_breaks env (tr @ es) fs"
  by (induction es arbitrary: tr) auto

lemma Iocp_send_bufs_ok:
  assumes "ring_inv r"
  shows "\<exists>bufs. Iocp_send_bufs r = Inr bufs \<and> concat bufs = ring_contents r"
proof -
  let ?u = "RingBuffer_GetUseSize r" and ?d = "RingBuffer_DirectDequeueSize r"
  let ?f = "nat (m_front r)" and ?m = "m_pBuffer r"
  have c: "int (length ?m) = m_capacity r" "0 \<le> m_front r" "m_front r < m_capacity r" using assms by (auto simp: ring_inv_def)
  have d: "?d = min (m_capacity r - m_front r) ?u" by (rule DirectDequeueSize_eq[OF assms])
  have u: "0 \<le> ?u" "?u < m_capacity r" using use_size_bounds[OF assms] by auto
  show ?thesis
  proof (cases "?u > ?d")
    case True
    then have "?d = m_capacity r - m_front r" using d by linarith
    then have n: "nat ?d = length ?m - ?f" "nat (?u - ?d) = ?f + nat ?u - length ?m" using c u by linarith+
    have "ring_contents r = drop ?f ?m @ take (?f + nat ?u - length ?m) ?m"
      unfolding ring_contents_def by (rule circ_get_wrapped) (use True d c u in linarith)+
    then show ?thesis using True c u d n
      by (simp add: Iocp_send_bufs_def Let_def RingBuffer_GetFrontBufferPtr_def RingBuffer_GetBufferPtr_def mem_read_def)
  next
    case False
    then have "?u = ?d" using d by linarith
    moreover have "ring_contents r = take (nat ?u) (drop ?f ?m)"
      unfolding ring_contents_def by (rule circ_get_straight) (use False d c u in linarith)
    ultimately show ?thesis using c u d
      by (simp add: Iocp_send_bufs_def Let_def RingBuffer_GetFrontBufferPtr_def mem_read_def)
  qed
qed

text \<open>A send that fails with a reset gives its reference back; the caller holds another one.\<close>

lemma Iocp_post_send_ok:
  assumes x: "io_heap s p = Some x" and q: "ring_inv (es_sendQ x)" and n: "es_ioCount x \<noteq> 0"
  shows "\<exists>bufs. concat bufs = ring_contents (es_sendQ x) \<and> Iocp_post_send env p s =
      (if iocp_fatal (ie_wsa env (io_trace s) (EvSend (es_sock x) bufs)) then Inl DebugBreak
       else Inr (Iocp_put p (x\<lparr>es_ioCount := es_ioCount x + of_bool (iocp_posted (ie_wsa env (io_trace s) (EvSend (es_sock x) bufs)))\<rparr>)
         (s\<lparr>io_trace := io_trace s @ [EvSend (es_sock x) bufs]\<rparr>), False))"
proof -
  obtain bufs where b: "Iocp_send_bufs (es_sendQ x) = Inr bufs" "concat bufs = ring_contents (es_sendQ x)"
    using Iocp_send_bufs_ok[OF q] by blast
  let ?c = "ie_wsa env (io_trace s) (EvSend (es_sock x) bufs)"
  consider "?c = WSAECONNRESET" | "iocp_posted ?c" | "iocp_fatal ?c" using iocp_codes(1) by blast
  then show ?thesis
  proof cases
    case 1
    then show ?thesis using x b(1) n iocp_codes(1,3)
      by (intro exI[of _ bufs] conjI b(2))
        (simp add: Iocp_post_send_def fault_simps Iocp_syscall_def Let_def iocp_posted_def)
  next
    case 2
    then show ?thesis using x b(1) iocp_codes(2)[OF 2]
      by (intro exI[of _ bufs] conjI b(2))
        (simp add: Iocp_post_send_def fault_simps Iocp_syscall_def Let_def iocp_posted_def)
  next
    case 3
    then show ?thesis using x b(1)
      by (intro exI[of _ bufs] conjI b(2))
        (simp add: Iocp_post_send_def fault_simps Iocp_syscall_def Let_def iocp_posted_def iocp_fatal_def)
  qed
qed

lemma take_append_take: "take f (a @ b) = take f a @ take (f - min (length a) f) b"
  by (simp add: min_def)

lemma Enqueue_frame:
  assumes q: "ring_inv q" and src: "length hdr = 2" "off + n \<le> length src"
  shows "\<exists>q1 q2 k1 k2. RingBuffer_Enqueue q (Some (hdr, 0)) 2 = Inr (q1, k1) \<and>
    RingBuffer_Enqueue q1 (Some (src, int off)) (int n) = Inr (q2, k2) \<and> ring_inv q2 \<and> m_capacity q2 = m_capacity q \<and>
    ring_contents q2 = ring_contents q @ take (nat (RingBuffer_GetFreeSize q)) (hdr @ take n (drop off src))"
proof -
  let ?f = "nat (RingBuffer_GetFreeSize q)"
  define k where "k = min 2 ?f"
  obtain q1 where 1: "RingBuffer_Enqueue q (Some (hdr, 0)) 2 = Inr (q1, int k)" "ring_inv q1"
    "ring_contents q1 = ring_contents q @ take k hdr" "RingBuffer_GetFreeSize q1 = RingBuffer_GetFreeSize q - int k"
    "m_capacity q1 = m_capacity q"
    using Enqueue_appends[OF q k_def, of 0 hdr] src(1) by (auto simp: k_def)
  define m where "m = min n (nat (RingBuffer_GetFreeSize q1))"
  have le: "off + m \<le> length src" using src(2) by (simp add: m_def)
  obtain q2 where 2: "RingBuffer_Enqueue q1 (Some (src, int off)) (int n) = Inr (q2, int m)" "ring_inv q2"
    "ring_contents q2 = ring_contents q1 @ take m (drop off src)" "m_capacity q2 = m_capacity q1"
    using Enqueue_appends[OF 1(2) m_def le] by blast
  have "m = min n (?f - k)" using 1(4) free_size_nonneg[OF q] by (simp add: m_def nat_diff_distrib k_def)
  then have "take m (drop off src) = take (?f - k) (take n (drop off src))" by (simp add: min.commute)
  moreover have "take k hdr = take ?f hdr" using src(1) by (simp add: k_def min_def)
  ultimately have "ring_contents q2 = ring_contents q @ take ?f (hdr @ take n (drop off src))"
    unfolding 2(3) 1(3) take_append_take using src(1) by (simp add: k_def)
  then show ?thesis using 1(1,5) 2(1,2,4) by auto
qed

text \<open>A session after \<open>SendPacket\<close>, and the calls that it makes.\<close>

definition echo_sent :: "bool \<Rightarrow> ring \<Rightarrow> echo_session \<Rightarrow> echo_session" where
  "echo_sent posted q x = x\<lparr>es_sendQ := q, es_isSending := True, es_ioCount := es_ioCount x + of_bool posted\<rparr>"

definition echo_sends :: "bytes list \<Rightarrow> echo_session \<Rightarrow> event list" where
  "echo_sends bufs x = (if es_isSending x then [] else [EvSend (es_sock x) bufs])"

lemma echo_sent_simps [simp]:
  "es_sendQ (echo_sent b q x) = q" "es_isSending (echo_sent b q x)" "es_recvQ (echo_sent b q x) = es_recvQ x"
  "es_sessionID (echo_sent b q x) = es_sessionID x" "es_cs (echo_sent b q x) = es_cs x" "es_sock (echo_sent b q x) = es_sock x"
  "es_ioCount (echo_sent b q x) = es_ioCount x + of_bool b"
  by (simp_all add: echo_sent_def)

lemma Iocp_SendPacket_ok:
  assumes wf: "iocp_wf s" and x: "io_heap s p = Some x" and count: "es_ioCount x \<noteq> 0" and pkt: "packet_inv pkt"
    and len: "length (packet_data pkt) < 65536"
  shows "\<exists>q bufs pkt'. Iocp_SendPacket env (es_sessionID x) pkt s =
      (if iocp_breaks env (io_trace s) (echo_sends bufs x) then Inl DebugBreak
       else Inr (Iocp_put p (echo_sent (iocp_posts env is_EvSend (io_trace s) (echo_sends bufs x)) q x)
         (s\<lparr>io_trace := io_trace s @ echo_sends bufs x\<rparr>), pkt')) \<and>
    ring_inv q \<and> m_capacity q = m_capacity (es_sendQ x) \<and> concat bufs = ring_contents q \<and>
    ring_contents q = ring_contents (es_sendQ x) @
      take (nat (RingBuffer_GetFreeSize (es_sendQ x))) (lan_frame (packet_data pkt))"
proof -
  note W = iocp_wfD[OF wf x]
  define n where "n = length (packet_data pkt)"
  have P: "0 \<le> m_iReadPos pkt" "nat (m_iReadPos pkt) + n \<le> length (m_chpBuffer pkt)" "Packet_GetDataSize pkt = int n"
    "packet_data pkt = take n (drop (nat (m_iReadPos pkt)) (m_chpBuffer pkt))"
    using pkt by (auto simp: packet_inv_def packet_data_def Packet_GetDataSize_def n_def)
  have len16: "unat (word_of_int (Packet_GetDataSize pkt) :: u16) = n"
    unfolding P(3) using len by (simp add: n_def unat_len16)
  then have uint16: "uint (word_of_int (Packet_GetDataSize pkt) :: u16) = int n" by (metis int_nat_eq uint_nat)
  define hdr where "hdr = le_encode 2 (word_of_int (Packet_GetDataSize pkt) :: u16)"
  have frame: "lan_frame (packet_data pkt) = hdr @ packet_data pkt"
    by (simp add: lan_frame_def hdr_def P(3) flip: n_def)
  have "ring_inv (es_sendQ x)" using W(4) by (simp add: echo_ok_def)
  from Enqueue_frame[OF this, of hdr "nat (m_iReadPos pkt)" n "m_chpBuffer pkt"] P(2)
  obtain q1 q k1 k2 where q: "RingBuffer_Enqueue (es_sendQ x) (Some (hdr, 0)) 2 = Inr (q1, k1)"
    "RingBuffer_Enqueue q1 (Some (m_chpBuffer pkt, m_iReadPos pkt)) (int n) = Inr (q, k2)" "ring_inv q"
    "m_capacity q = m_capacity (es_sendQ x)"
    "ring_contents q = ring_contents (es_sendQ x) @
      take (nat (RingBuffer_GetFreeSize (es_sendQ x))) (lan_frame (packet_data pkt))"
    unfolding frame using P(1,4) by (auto simp: hdr_def)
  let ?x = "x\<lparr>es_cs := Suc (es_cs x), es_sendQ := q\<rparr>"
  let ?s = "Iocp_put p (?x\<lparr>es_isSending := True\<rparr>) s"
  obtain bufs where b: "concat bufs = ring_contents q" "Iocp_post_send env p ?s =
      (if iocp_fatal (ie_wsa env (io_trace s) (EvSend (es_sock x) bufs)) then Inl DebugBreak
       else Inr (Iocp_put p (?x\<lparr>es_isSending := True, es_ioCount := es_ioCount x +
            of_bool (iocp_posted (ie_wsa env (io_trace s) (EvSend (es_sock x) bufs)))\<rparr>)
          (s\<lparr>io_trace := io_trace s @ [EvSend (es_sock x) bufs]\<rparr>), False))"
    using Iocp_post_send_ok[of ?s p "?x\<lparr>es_isSending := True\<rparr>" env] q(3) count by auto
  let ?pkt = "fst (Packet_MoveReadPos pkt (int n))"
  have "Iocp_SendPacket env (es_sessionID x) pkt s =
      (if iocp_breaks env (io_trace s) (echo_sends bufs x) then Inl DebugBreak
       else Inr (Iocp_put p (echo_sent (iocp_posts env is_EvSend (io_trace s) (echo_sends bufs x)) q x)
         (s\<lparr>io_trace := io_trace s @ echo_sends bufs x\<rparr>), ?pkt))"
    using x W(1) q(1,2) b(2)
    by (cases "es_isSending x")
      (simp_all add: sending_same lock_same[OF W(1)] Iocp_SendPacket_def fault_simps FindSession_ok[OF W(2)] Let_def hdr_def[symmetric] uint16
        Packet_GetReadPtr_def echo_sent_def echo_sends_def)
  then show ?thesis using q b(1) by blast
qed

section \<open>Receiving\<close>

text \<open>What answering the messages \<open>pls\<close> does to a session: as much of the replies as fits is queued, and the
  first of them is sent when nothing was on its way.\<close>

definition iocp_replies :: "iocp_env \<Rightarrow> bytes list \<Rightarrow> bytes" where
  "iocp_replies env pls = concat (map (\<lambda>pl. lan_frame (echo_payload (ie_junk env) pl)) pls)"

definition echo_events :: "iocp_env \<Rightarrow> bytes list \<Rightarrow> echo_session \<Rightarrow> event list \<Rightarrow> bool" where
  "echo_events env pls x evs \<longleftrightarrow>
     (if es_isSending x \<or> pls = [] then evs = []
      else \<exists>bufs. evs = [EvSend (es_sock x) bufs] \<and> concat bufs = ring_contents (es_sendQ x) @
        take (nat (RingBuffer_GetFreeSize (es_sendQ x))) (iocp_replies env [hd pls]))"

definition echoed :: "iocp_env \<Rightarrow> event list \<Rightarrow> bytes list \<Rightarrow> echo_session \<Rightarrow> echo_session \<Rightarrow> event list \<Rightarrow> bool" where
  "echoed env tr pls x y evs \<longleftrightarrow>
     echo_ok y \<and> es_sessionID y = es_sessionID x \<and> es_sock y = es_sock x \<and> es_cs y = es_cs x \<and>
     es_isSending y = (es_isSending x \<or> pls \<noteq> []) \<and>
     es_ioCount y = es_ioCount x + of_bool (iocp_posts env is_EvSend tr evs) \<and>
     ring_contents (es_sendQ y) = ring_contents (es_sendQ x) @
       take (nat (RingBuffer_GetFreeSize (es_sendQ x))) (iocp_replies env pls) \<and>
     echo_events env pls x evs"

lemma free_2002:
  assumes "ring_inv q" "m_capacity q = 2002"
  shows "nat (RingBuffer_GetFreeSize q) = 2001 - length (ring_contents q)"
  using use_size_contents[OF assms(1)] assms(2) unfolding RingBuffer_GetFreeSize_def by linarith

lemma iocp_replies_simps [simp]:
  "iocp_replies env [] = []"
  "iocp_replies env (pl # pls) = lan_frame (echo_payload (ie_junk env) pl) @ iocp_replies env pls"
  by (simp_all add: iocp_replies_def)

lemma echo_events_simps [simp]:
  "echo_events env pls (x\<lparr>es_cs := k\<rparr>) evs = echo_events env pls x evs"
  "echo_events env pls (x\<lparr>es_recvQ := q\<rparr>) evs = echo_events env pls x evs"
  by (simp_all add: echo_events_def)

lemma echoed_nothing: "echo_ok x \<Longrightarrow> echoed env tr [] x x []"
  by (simp add: echoed_def echo_events_def)

lemma echoed_recvQ [simp]: "echoed env tr pls (x\<lparr>es_recvQ := q\<rparr>) y evs = echoed env tr pls x y evs"
  by (simp add: echoed_def echo_events_def)

lemma echoed_Cons:
  assumes x: "echo_ok x" and xy: "echoed env tr [pl] x y evs" and yz: "echoed env (tr @ evs) pls y z evs'"
  shows "echoed env tr (pl # pls) x z (evs @ evs')"
proof -
  let ?n = "length (ring_contents (es_sendQ x))" and ?f = "lan_frame (echo_payload (ie_junk env) pl)"
  have "nat (RingBuffer_GetFreeSize (es_sendQ x)) = 2001 - ?n"
    "nat (RingBuffer_GetFreeSize (es_sendQ y)) = 2001 - length (ring_contents (es_sendQ y))"
    using x xy by (simp_all add: free_2002 echo_ok_def echoed_def)
  moreover have "ring_contents (es_sendQ y) = ring_contents (es_sendQ x) @ take (2001 - ?n) ?f"
    using xy calculation(1) by (simp add: echoed_def)
  ultimately have free: "nat (RingBuffer_GetFreeSize (es_sendQ y)) =
      nat (RingBuffer_GetFreeSize (es_sendQ x)) - length ?f"
    by (simp only: length_append length_take) linarith
  have "ring_contents (es_sendQ z) = ring_contents (es_sendQ x) @
      take (nat (RingBuffer_GetFreeSize (es_sendQ x))) (iocp_replies env (pl # pls))"
    using xy yz free by (simp add: echoed_def)
  moreover have "echo_events env (pl # pls) x (evs @ evs')"
    using xy yz by (cases "es_isSending x") (simp_all add: echoed_def echo_events_def)
  moreover have "evs' = []" using xy yz by (simp add: echoed_def echo_events_def)
  ultimately show ?thesis using xy yz by (simp add: echoed_def)
qed

lemma echoed_sent:
  assumes "echo_ok x" and "ring_inv q" "m_capacity q = m_capacity (es_sendQ x)" "concat bufs = ring_contents q"
    "ring_contents q = ring_contents (es_sendQ x) @
      take (nat (RingBuffer_GetFreeSize (es_sendQ x))) (lan_frame (echo_payload (ie_junk env) pl))"
  shows "echoed env tr [pl] x (echo_sent (iocp_posts env is_EvSend tr (echo_sends bufs x)) q x) (echo_sends bufs x)"
  using assms by (simp add: echoed_def echo_events_def echo_sends_def echo_ok_def)

lemma Iocp_OnRecv_ok:
  assumes mem: "iocp_mem env" and wf: "iocp_wf s" and x: "io_heap s p = Some x" and count: "es_ioCount x \<noteq> 0" and pkt: "packet_ok pkt"
  shows "\<exists>y evs. Iocp_OnRecv env (es_sessionID x) pkt s =
      (if iocp_breaks env (io_trace s) evs then Inl DebugBreak else Inr (Iocp_put p y (s\<lparr>io_trace := io_trace s @ evs\<rparr>))) \<and>
    echoed env (io_trace s) [packet_data pkt] x y evs \<and> es_recvQ y = es_recvQ x"
proof -
  note W = iocp_wfD[OF wf x]
  obtain pkt1 data where 1: "Packet_get64 pkt (ie_junk env) = Inr (pkt1, data)"
    "le_encode 8 data = echo_payload (ie_junk env) (packet_data pkt)" using get64_packet[OF pkt] by blast
  let ?e = "Packet_sized (ie_mem env (Iocp_BUFSIZE + 6)) (Iocp_BUFSIZE + 1)"
  have e: "packet_inv ?e"
    by (rule Packet_sized_inv) (use mem in \<open>simp add: iocp_mem_def Iocp_BUFSIZE_def\<close>)
  have e2: "packet_data ?e = []" "packet_room ?e = 2001"
    by (simp_all add: Packet_sized_def Packet_Clear_def packet_data_def packet_room_def Iocp_BUFSIZE_def Let_def)
  obtain pkt2 where 2: "Packet_put64 ?e data = Inr pkt2" "packet_inv pkt2" "packet_data pkt2 = le_encode 8 data"
    using put_ok[OF e, of 8 data] e2 by (auto simp: Packet_put64_def)
  obtain q bufs pkt' where 3: "Iocp_SendPacket env (es_sessionID x) pkt2 s =
      (if iocp_breaks env (io_trace s) (echo_sends bufs x) then Inl DebugBreak
       else Inr (Iocp_put p (echo_sent (iocp_posts env is_EvSend (io_trace s) (echo_sends bufs x)) q x)
         (s\<lparr>io_trace := io_trace s @ echo_sends bufs x\<rparr>), pkt'))"
    "ring_inv q" "m_capacity q = m_capacity (es_sendQ x)" "concat bufs = ring_contents q"
    "ring_contents q = ring_contents (es_sendQ x) @
      take (nat (RingBuffer_GetFreeSize (es_sendQ x))) (lan_frame (packet_data pkt2))"
    using Iocp_SendPacket_ok[OF wf x count 2(2)] 2(3) by fastforce
  let ?y = "echo_sent (iocp_posts env is_EvSend (io_trace s) (echo_sends bufs x)) q x"
  have "Iocp_OnRecv env (es_sessionID x) pkt s =
      (if iocp_breaks env (io_trace s) (echo_sends bufs x) then Inl DebugBreak
       else Inr (Iocp_put p ?y (s\<lparr>io_trace := io_trace s @ echo_sends bufs x\<rparr>)))"
    using 1(1) 2(1) 3(1) x W(1)
    by (simp add: Iocp_OnRecv_def fault_simps FindSession_ok[OF W(2)] lock_same[OF W(1)])
  moreover have "echoed env (io_trace s) [packet_data pkt] x ?y (echo_sends bufs x)"
    using echoed_sent[OF W(4) 3(2-4)] 3(5) 2(3) 1(2) by simp
  ultimately show ?thesis by (intro exI[of _ ?y] exI[of _ "echo_sends bufs x"]) simp
qed

text \<open>One pass of the loop takes a frame into a local packet.\<close>

lemma local_packet:
  assumes "iocp_mem env"
  shows "packet_ok (Packet_default (ie_mem env 1405))" "m_iReadPos (Packet_default (ie_mem env 1405)) = 5"
    "m_iWritePos (Packet_default (ie_mem env 1405)) = 5" "length (m_chpBuffer (Packet_default (ie_mem env 1405))) = 1405"
  using assms Packet_default_inv[of "ie_mem env 1405"]
  by (simp_all add: iocp_mem_def packet_ok_def Packet_default_def Packet_Clear_def eBUFFER_DEFAULT_def)

lemma Dequeue_frame:
  assumes q: "ring_inv q" and bs: "ring_contents q = hdr @ pl @ rest" "length hdr = 2" "length pl \<le> 1400"
    and mem: "iocp_mem env"
  defines "pkt \<equiv> Packet_default (ie_mem env 1405)"
  shows "\<exists>q' buf. RingBuffer_Dequeue (fst (RingBuffer_MoveFront q 2)) (Some (m_chpBuffer pkt, Packet_GetWritePtr pkt)) (int (length pl)) =
      Inr (q', Some (buf, 5), int (length pl)) \<and> ring_inv q' \<and> m_capacity q' = m_capacity q \<and> ring_contents q' = rest \<and>
    packet_ok (fst (Packet_MoveWritePos (pkt\<lparr>m_chpBuffer := buf\<rparr>) (int (length pl)))) \<and>
    packet_data (fst (Packet_MoveWritePos (pkt\<lparr>m_chpBuffer := buf\<rparr>) (int (length pl)))) = pl"
proof -
  note P = local_packet[OF mem, folded pkt_def]
  let ?q = "fst (RingBuffer_MoveFront q 2)"
  let ?buf = "splice (m_chpBuffer pkt) 5 pl"
  have M: "ring_inv ?q" "ring_contents ?q = pl @ rest" "m_capacity ?q = m_capacity q"
    using MoveFront_drop[OF q, of 2] bs(1,2) by simp_all
  have deq: "\<exists>q'. RingBuffer_Dequeue ?q (Some (m_chpBuffer pkt, int 5)) (int (length pl)) = Inr (q', Some (?buf, int 5), int (length pl)) \<and>
    ring_inv q' \<and> ring_contents q' = rest \<and> m_capacity q' = m_capacity q"
  proof (cases "pl = []")
    case True
    then show ?thesis using M by (simp add: RingBuffer_Dequeue_none)
  next
    case False
    then show ?thesis using Dequeue_drops[OF M(1), of "length pl" 5 "m_chpBuffer pkt"] M(2,3) P(4) bs(3) by auto
  qed
  have len: "length ?buf = 1405" using P(4) bs(3) by simp
  have "packet_ok (fst (Packet_MoveWritePos (pkt\<lparr>m_chpBuffer := ?buf\<rparr>) (int (length pl)))) \<and>
    packet_data (fst (Packet_MoveWritePos (pkt\<lparr>m_chpBuffer := ?buf\<rparr>) (int (length pl)))) = pl"
    using P len bs(3) read_splice_same[of 5 pl "m_chpBuffer pkt"]
    by (cases pl) (auto simp: packet_ok_def packet_inv_def packet_data_def Packet_MoveWritePos_def Let_def nat_add_distrib)
  with deq P(3) show ?thesis by (auto simp: Packet_GetWritePtr_def)
qed

text \<open>The three cases of a pass: no complete frame, a frame longer than the packet, a frame that is answered.\<close>

lemma Iocp_frames_pass:
  fixes env :: iocp_env
  assumes wf: "iocp_wf s" and x: "io_heap s p = Some x" and bs: "ring_contents (es_recvQ x) = bs"
  defines "pkt \<equiv> Packet_default (ie_mem env 1405)"
  shows "length bs < 2 \<or> length bs < 2 + lan_length bs \<Longrightarrow> Iocp_frames env (Suc fuel) p s = Inr s"
    and "2 \<le> length bs \<Longrightarrow> 2 + lan_length bs \<le> length bs \<Longrightarrow> Iocp_frames env (Suc fuel) p s =
      and_then (RingBuffer_Dequeue (fst (RingBuffer_MoveFront (es_recvQ x) 2)) (Some (m_chpBuffer pkt, Packet_GetWritePtr pkt))
        (int (lan_length bs))) (\<lambda>(q, dst, _).
      and_then (Iocp_upd p (\<lambda>x. x\<lparr>es_recvQ := q\<rparr>) s) (\<lambda>s.
      let pkt = (case dst of None \<Rightarrow> pkt | Some (b, _) \<Rightarrow> pkt\<lparr>m_chpBuffer := b\<rparr>);
          pkt = fst (Packet_MoveWritePos pkt (int (lan_length bs))) in
      and_then (Iocp_OnRecv env (es_sessionID x) pkt s) (\<lambda>s. Iocp_frames env fuel p s)))"
proof -
  have q: "ring_inv (es_recvQ x)" using iocp_wfD(4)[OF wf x] by (simp add: echo_ok_def)
  have use: "RingBuffer_GetUseSize (es_recvQ x) = int (length bs)" using use_size_contents[OF q] bs by simp
  have peek: "RingBuffer_Peek (es_recvQ x) (Some (replicate 2 0, 0)) 2 = Inr (Some (take 2 bs, 0), 2)" if "2 \<le> length bs"
    using rb.peek_header[OF q, of 2 "replicate 2 0"] that bs by simp
  show "Iocp_frames env (Suc fuel) p s = Inr s" if "length bs < 2 \<or> length bs < 2 + lan_length bs"
    using that x peek use by (auto simp: fault_simps Let_def lan_length_word[symmetric] simp del: of_nat_unat)
qed (unfold pkt_def, use x bs in \<open>simp add: fault_simps Let_def lan_length_word[symmetric]
    use_size_contents[of "es_recvQ x"] rb.peek_header[of "es_recvQ x" 2 "replicate 2 0", simplified]
    iocp_wfD(4)[OF wf x, unfolded echo_ok_def] del: of_nat_unat\<close>)

lemma Iocp_frames_long:
  assumes wf: "iocp_wf s" and x: "io_heap s p = Some x" and bs: "ring_contents (es_recvQ x) = bs" and mem: "iocp_mem env"
    and long: "2 + lan_length bs \<le> length bs" "1400 < lan_length bs"
  shows "Iocp_frames env (Suc fuel) p s = Inl OutOfBounds"
proof -
  let ?pkt = "Packet_default (ie_mem env 1405)" and ?q = "fst (RingBuffer_MoveFront (es_recvQ x) 2)"
  have q: "ring_inv (es_recvQ x)" using iocp_wfD(4)[OF wf x] by (simp add: echo_ok_def)
  have "int (lan_length bs) \<le> RingBuffer_GetUseSize ?q"
    using MoveFront_drop(4)[OF q, of 2] use_size_contents[OF q] bs long(1) by simp
  from RingBuffer_Dequeue_overflow[OF MoveFront_drop(2)[OF q] this, of "m_chpBuffer ?pkt" 5]
  have "RingBuffer_Dequeue ?q (Some (m_chpBuffer ?pkt, 5)) (int (lan_length bs)) = Inl OutOfBounds"
    using long(2) local_packet(4)[OF mem] by simp
  then show ?thesis using long local_packet(3)[OF mem]
    by (subst Iocp_frames_pass(2)[OF wf x bs]) (simp_all add: Packet_GetWritePtr_def)
qed

lemma Iocp_frames_next:
  assumes mem: "iocp_mem env" and wf: "iocp_wf s" and x: "io_heap s p = Some x" and count: "es_ioCount x \<noteq> 0"
    and bs: "ring_contents (es_recvQ x) = bs" "2 \<le> length bs" "2 + lan_length bs \<le> length bs" "lan_length bs \<le> 1400"
  shows "\<exists>y evs. Iocp_frames env (Suc fuel) p s = (if iocp_breaks env (io_trace s) evs then Inl DebugBreak
      else Iocp_frames env fuel p (Iocp_put p y (s\<lparr>io_trace := io_trace s @ evs\<rparr>))) \<and>
    echoed env (io_trace s) [take (lan_length bs) (drop 2 bs)] x y evs \<and> ring_contents (es_recvQ y) = drop (2 + lan_length bs) bs \<and>
    iocp_wf (Iocp_put p y (s\<lparr>io_trace := io_trace s @ evs\<rparr>))"
proof -
  let ?l = "lan_length bs" and ?pkt = "Packet_default (ie_mem env 1405)"
  let ?pl = "take ?l (drop 2 bs)" and ?bs = "drop (2 + ?l) bs"
  have W: "echo_ok x" by (rule iocp_wfD(4)[OF wf x])
  have q: "ring_inv (es_recvQ x)" using W by (simp add: echo_ok_def)
  have split: "bs = take 2 bs @ ?pl @ ?bs" by (metis append_take_drop_id drop_drop add.commute)
  have len: "length ?pl = ?l" "length (take 2 bs) = 2" using bs(2,3) by (simp_all add: min_absorb2)
  obtain q' buf where d: "RingBuffer_Dequeue (fst (RingBuffer_MoveFront (es_recvQ x) 2)) (Some (m_chpBuffer ?pkt, Packet_GetWritePtr ?pkt)) (int ?l) =
      Inr (q', Some (buf, 5), int ?l)" "ring_inv q'" "m_capacity q' = m_capacity (es_recvQ x)" "ring_contents q' = ?bs"
    "packet_ok (fst (Packet_MoveWritePos (?pkt\<lparr>m_chpBuffer := buf\<rparr>) (int ?l)))"
    "packet_data (fst (Packet_MoveWritePos (?pkt\<lparr>m_chpBuffer := buf\<rparr>) (int ?l))) = ?pl"
    using Dequeue_frame[OF q _ len(2) _ mem, of ?pl ?bs] len(1) bs(1,4) split by auto
  let ?x1 = "x\<lparr>es_recvQ := q'\<rparr>"
  have ok1: "echo_ok ?x1" using W d(2,3) by (simp add: echo_ok_def)
  have wf1: "iocp_wf (Iocp_put p ?x1 s)" by (rule iocp_wf_put[OF wf x ok1]) simp
  obtain y evs where r: "Iocp_OnRecv env (es_sessionID x) (fst (Packet_MoveWritePos (?pkt\<lparr>m_chpBuffer := buf\<rparr>) (int ?l))) (Iocp_put p ?x1 s) =
      (if iocp_breaks env (io_trace s) evs then Inl DebugBreak else Inr (Iocp_put p y (s\<lparr>io_trace := io_trace s @ evs\<rparr>)))"
    "echoed env (io_trace s) [?pl] x y evs" "es_recvQ y = q'"
    using Iocp_OnRecv_ok[OF mem wf1 _ _ d(5), of p ?x1, unfolded Iocp_put_collapse] d(6) count by auto
  have "iocp_wf (Iocp_put p y (s\<lparr>io_trace := io_trace s @ evs\<rparr>))"
    by (rule iocp_wf_put[where x = x]) (use wf x r(2) in \<open>simp_all add: echoed_def\<close>)
  moreover have "Iocp_frames env (Suc fuel) p s = (if iocp_breaks env (io_trace s) evs then Inl DebugBreak
      else Iocp_frames env fuel p (Iocp_put p y (s\<lparr>io_trace := io_trace s @ evs\<rparr>)))"
    using Iocp_frames_pass(2)[OF wf x bs(1-3), of env fuel] d(1) r(1) x by (simp add: fault_simps Let_def del: Iocp_frames.simps)
  ultimately show ?thesis using r(2,3) d(4) by blast
qed

lemma echoed_count:
  assumes "echoed env tr pls x y evs" and "es_ioCount x = 1 \<or> es_ioCount x = 2 \<and> es_isSending x"
  shows "es_ioCount y = 1 \<or> es_ioCount y = 2 \<and> es_isSending y"
  using assms by (auto simp: echoed_def echo_events_def split: if_splits)

text \<open>The loop handles the messages of \<open>lan_parse\<close>; at a frame that does not fit the packet it writes past the
  packet's block.\<close>

lemma Iocp_frames_ok:
  assumes mem: "iocp_mem env" and wf: "iocp_wf s" and x: "io_heap s p = Some x"
    and count: "es_ioCount x = 1 \<or> es_ioCount x = 2 \<and> es_isSending x"
    and bs: "ring_contents (es_recvQ x) = bs" and parse: "lan_parse bs = (pls, rest, e)" and fuel: "length bs < fuel"
  shows "\<exists>y evs. echoed env (io_trace s) pls x y evs \<and> (e \<noteq> TooLong \<longrightarrow> ring_contents (es_recvQ y) = rest) \<and>
    Iocp_frames env fuel p s =
      (if iocp_breaks env (io_trace s) evs then Inl DebugBreak else if e = TooLong then Inl OutOfBounds
       else Inr (Iocp_put p y (s\<lparr>io_trace := io_trace s @ evs\<rparr>)))"
  using wf x count bs parse fuel
proof (induction bs arbitrary: s x pls fuel rule: lan_parse.induct)
  case (1 bs)
  have ok: "echo_ok x" by (rule iocp_wfD(4)[OF "1.prems"(1,2)])
  obtain fuel' where fuel: "fuel = Suc fuel'" "length bs \<le> fuel'" using "1.prems"(6) by (cases fuel) auto
  consider (short) "length bs < 2 \<or> length bs < 2 + lan_length bs"
    | (long) "2 \<le> length bs" "2 + lan_length bs \<le> length bs" "1400 < lan_length bs"
    | (frame) "2 \<le> length bs" "2 + lan_length bs \<le> length bs" "lan_length bs \<le> 1400" by linarith
  then show ?case
  proof cases
    case short
    then have "pls = []" "rest = bs" "e = More" using "1.prems"(5) by (subst (asm) lan_parse.simps; simp)+
    then show ?thesis using Iocp_frames_pass(1)[OF "1.prems"(1,2,4) short] "1.prems"(2,4) echoed_nothing[OF ok]
      by (intro exI[of _ x] exI[of _ "[]"]) (simp add: fuel(1) Iocp_put_same del: Iocp_frames.simps)
  next
    case long
    then have "pls = []" "e = TooLong" using "1.prems"(5) by (subst (asm) lan_parse.simps; simp)+
    then show ?thesis using Iocp_frames_long[OF "1.prems"(1,2,4) mem long(2,3)] echoed_nothing[OF ok]
      by (intro exI[of _ x] exI[of _ "[]"]) (simp add: fuel(1) del: Iocp_frames.simps)
  next
    case frame
    let ?pl = "take (lan_length bs) (drop 2 bs)" and ?bs = "drop (2 + lan_length bs) bs"
    obtain pls' where parse: "lan_parse ?bs = (pls', rest, e)" "pls = ?pl # pls'"
      using frame "1.prems"(5) by (subst (asm) (2) lan_parse.simps) (auto split: prod.splits)
    have "es_ioCount x \<noteq> 0" using "1.prems"(3) by auto
    from Iocp_frames_next[OF mem "1.prems"(1,2) this "1.prems"(4) frame, of fuel']
    obtain y evs where y: "Iocp_frames env fuel p s = (if iocp_breaks env (io_trace s) evs then Inl DebugBreak
        else Iocp_frames env fuel' p (Iocp_put p y (s\<lparr>io_trace := io_trace s @ evs\<rparr>)))"
      "echoed env (io_trace s) [?pl] x y evs" "ring_contents (es_recvQ y) = ?bs" "iocp_wf (Iocp_put p y (s\<lparr>io_trace := io_trace s @ evs\<rparr>))"
      unfolding fuel(1) by blast
    let ?s2 = "Iocp_put p y (s\<lparr>io_trace := io_trace s @ evs\<rparr>)"
    have "length ?bs < fuel'" using fuel(2) frame by simp
    from "1.IH"[OF _ _ y(4) _ echoed_count[OF y(2) "1.prems"(3)] y(3) parse(1) this] frame
    obtain z evs' where z: "echoed env (io_trace s @ evs) pls' y z evs'" "e \<noteq> TooLong \<Longrightarrow> ring_contents (es_recvQ z) = rest"
      "Iocp_frames env fuel' p ?s2 =
        (if iocp_breaks env (io_trace s @ evs) evs' then Inl DebugBreak else if e = TooLong then Inl OutOfBounds
         else Inr (Iocp_put p z (?s2\<lparr>io_trace := io_trace ?s2 @ evs'\<rparr>)))" by auto
    have "echoed env (io_trace s) pls x z (evs @ evs')" unfolding parse(2) by (rule echoed_Cons[OF ok y(2) z(1)])
    then show ?thesis using z(2)
      by (intro exI[of _ z] exI[of _ "evs @ evs'"]) (simp add: y(1) z(3) iocp_breaks_append)
  qed
qed

section \<open>Completions\<close>

lemma Iocp_gone_simps [simp]:
  "Iocp_gone p y (Iocp_put p z s) = Iocp_gone p y s"
  "Iocp_gone p (x\<lparr>es_ioCount := n\<rparr>) s = Iocp_gone p x s"
  "Iocp_gone p (x\<lparr>es_cs := k\<rparr>) s = Iocp_gone p x s"
  "Iocp_gone p (x\<lparr>es_sendQ := q\<rparr>) s = Iocp_gone p x s"
  "Iocp_gone p (x\<lparr>es_isSending := b\<rparr>) s = Iocp_gone p x s"
  by (simp_all add: Iocp_gone_def Iocp_put_def)

lemma ReleaseSession_put:
  assumes "iocp_wf s" and "io_heap s p = Some x" and "es_sessionID y = es_sessionID x"
  shows "Iocp_ReleaseSession (es_sessionID x) (Iocp_put p y s) = Inr (Iocp_gone p y s)"
  using ReleaseSession_ok[of "Iocp_put p y s" y p] iocp_wfD(1-3)[OF assms(1,2)] assms(3) by simp

text \<open>
  Posting the next receive. When the client has reset the connection the reference is given back; the last one
  deletes the session while the worker is still in its critical section.
\<close>

lemma Iocp_post_recv_ok:
  fixes env :: iocp_env
  assumes wf: "iocp_wf s" and x: "io_heap s p = Some x" and cs: "es_cs x = Suc (Suc 0)"
  defines "e \<equiv> EvRecv (es_sock x) (recv_windows (es_recvQ x))"
  defines "c \<equiv> ie_wsa env (io_trace s) e"
  shows "and_then (Iocp_post_recv env p s) (\<lambda>s. and_then (Iocp_Leave p s) (\<lambda>s. Inr (s, True))) =
    (if iocp_fatal c then Inl DebugBreak
     else if iocp_posted c then Inr (Iocp_put p (x\<lparr>es_cs := 0\<rparr>) (s\<lparr>io_trace := io_trace s @ [e]\<rparr>), True)
     else if es_ioCount x = 1 then Inl BadPointer
     else Inr (Iocp_put p (x\<lparr>es_cs := 0, es_ioCount := es_ioCount x - 1\<rparr>) (s\<lparr>io_trace := io_trace s @ [e]\<rparr>), True))"
proof -
  let ?s = "s\<lparr>io_trace := io_trace s @ [e]\<rparr>"
  have wf1: "iocp_wf ?s" and x1: "io_heap ?s p = Some x" using wf x by simp_all
  note rel = ReleaseSession_put[OF wf1 x1, of "x\<lparr>es_ioCount := 0, es_cs := Suc 0\<rparr>"]
  have swap: "x\<lparr>es_ioCount := k, es_cs := j\<rparr> = x\<lparr>es_cs := j, es_ioCount := k\<rparr>" for k j by simp
  consider "c = WSAECONNRESET" | "iocp_posted c" | "iocp_fatal c" using iocp_codes(1) by blast
  then show ?thesis
  proof cases
    case 1
    have z: "es_ioCount x - 1 = 0 \<longleftrightarrow> es_ioCount x = 1" by simp
    have "\<not> iocp_fatal WSAECONNRESET" by (simp add: iocp_fatal_def)
    then show ?thesis using x cs 1 iocp_codes(3) rel iocp_wfD(3)[OF wf x] z
      by (simp add: Iocp_post_recv_def fault_simps Iocp_syscall_def Let_def e_def[symmetric] c_def[symmetric] iocp_posted_def
          Iocp_gone_def Iocp_Leave_def) (simp add: swap)
  next
    case 2
    then show ?thesis using x cs iocp_codes(2)[OF 2]
      by (simp add: Iocp_post_recv_def fault_simps Iocp_syscall_def Let_def e_def[symmetric] c_def[symmetric] iocp_posted_def)
  next
    case 3
    then show ?thesis using x cs
      by (simp add: Iocp_post_recv_def fault_simps Iocp_syscall_def Let_def e_def[symmetric] c_def[symmetric] iocp_posted_def iocp_fatal_def)
  qed
qed

text \<open>The data of a receive arrive in the windows that were posted.\<close>

definition iocp_arrived :: "u64 \<Rightarrow> bytes \<Rightarrow> iocp \<Rightarrow> iocp" where
  "iocp_arrived p bs s = (case io_heap s p of None \<Rightarrow> s | Some x \<Rightarrow> Iocp_put p (x\<lparr>es_recvQ := (es_recvQ x)\<lparr>m_pBuffer :=
     fill_windows (m_pBuffer (es_recvQ x)) (recv_windows (es_recvQ x)) bs\<rparr>\<rparr>) s)"

definition iocp_done :: "u64 \<Rightarrow> IOType \<Rightarrow> nat \<Rightarrow> iocp_completion" where
  "iocp_done p type n = \<lparr>ic_retval = True, ic_transferred = of_nat n, ic_key = 0, ic_overlapped = Some (p, type)\<rparr>"

lemma Iocp_RecvProc_frames:
  assumes inv: "iocp_inv R S s" and x: "io_heap s p = Some x" and bs: "bs \<noteq> []" "int (length bs) \<le> RingBuffer_GetFreeSize (es_recvQ x)"
  shows "\<exists>q fuel. ring_inv q \<and> m_capacity q = 2002 \<and> ring_contents q = ring_contents (es_recvQ x) @ bs \<and>
    length (ring_contents q) < fuel \<and>
    Iocp_Worker_step env (iocp_done p RECV (length bs)) (iocp_arrived p bs s) =
      and_then (Iocp_frames env fuel p (Iocp_put p (x\<lparr>es_cs := Suc (Suc 0), es_recvQ := q\<rparr>) s)) (\<lambda>s.
      and_then (Iocp_post_recv env p s) (\<lambda>s. and_then (Iocp_Leave p s) (\<lambda>s. Inr (s, True))))"
proof -
  have ok: "ring_inv (es_recvQ x)" "m_capacity (es_recvQ x) = 2002" "es_cs x = 0"
    using iocp_wfD(4)[OF iocp_invD(1)[OF inv x] x] iocp_invD(2)[OF inv x] by (simp_all add: echo_ok_def)
  let ?q0 = "(es_recvQ x)\<lparr>m_pBuffer := fill_windows (m_pBuffer (es_recvQ x)) (recv_windows (es_recvQ x)) bs\<rparr>"
  let ?q = "fst (RingBuffer_MoveRear ?q0 (int (length bs)))"
  note Q = MoveRear_arrived[OF ok(1) bs(2)]
  have len: "length bs \<le> 2001" using bs(2) use_size_bounds(1)[OF ok(1)] ok(2) by (simp add: RingBuffer_GetFreeSize_def)
  then have n: "sint (of_nat (length bs) :: u32) = int (length bs)" "(of_nat (length bs) :: u32) \<noteq> 0"
    using of_nat_u32_inj[of "length bs" 0] bs(1) by (simp_all add: sint_length)
  have "Iocp_Worker_step env (iocp_done p RECV (length bs)) (iocp_arrived p bs s) =
      and_then (Iocp_frames env (nat (RingBuffer_GetUseSize ?q) + 1) p (Iocp_put p (x\<lparr>es_cs := Suc (Suc 0), es_recvQ := ?q\<rparr>) s)) (\<lambda>s.
      and_then (Iocp_post_recv env p s) (\<lambda>s. and_then (Iocp_Leave p s) (\<lambda>s. Inr (s, True))))"
    using n x ok(3)
    by (simp add: Iocp_Worker_step_def iocp_done_def Iocp_RecvProc_def iocp_arrived_def fault_simps and_then_assoc
        del: Iocp_frames.simps)
  moreover have "length (ring_contents ?q) < nat (RingBuffer_GetUseSize ?q) + 1" by simp
  ultimately show ?thesis using Q(1,2) Q(3)[unfolded ok(2)] by blast
qed

lemma echoed_sends:
  assumes "echoed env tr pls x y evs"
  shows "iocp_posts env is_EvSend tr evs \<Longrightarrow> es_isSending y" "iocp_posts env is_EvSend tr evs \<Longrightarrow> \<not> es_isSending x"
    "\<not> iocp_posts env is_EvRecv tr evs"
  using assms by (auto simp: echoed_def echo_events_def split: if_splits)

text \<open>The count and the flag after answering; \<open>again\<close> says that the next receive has been posted.\<close>

lemma iocp_inv_echoed:
  assumes inv: "iocp_inv R S s" and x: "io_heap s p = Some x" and p: "p \<in> R" and y: "echoed env t pls x y evs"
    and S': "S' = (if iocp_posts env is_EvSend t evs then insert p S else S)" and again: "again \<or> p \<in> S'"
    and z: "z = (if again then y else y\<lparr>es_ioCount := es_ioCount y - 1\<rparr>)"
  shows "iocp_inv (if again then R else R - {p}) S' (Iocp_put p z (s\<lparr>io_trace := tr\<rparr>))"
proof (rule iocp_inv_put[where x = x and R = R and S = S])
  show "iocp_inv R S (s\<lparr>io_trace := tr\<rparr>)" using inv by simp
  have s: "p \<in> S \<Longrightarrow> es_isSending x" by (rule iocp_invD(4)[OF inv x])
  show "es_ioCount z = of_bool (p \<in> (if again then R else R - {p})) + of_bool (p \<in> S')" "p \<in> S' \<Longrightarrow> es_isSending z"
    using y s p iocp_invD(3)[OF inv x] echoed_sends[OF y] by (auto simp: z S' echoed_def split: if_splits)
qed (use x p y again iocp_invD(2)[OF inv x] in \<open>auto simp: z S' echoed_def echo_ok_def\<close>)

text \<open>
  All outcomes of a completed receive: the call of \<open>WSASend\<close> that answers may be fatal, then a frame may be too long for
  the packet, then the next \<open>WSARecv\<close> is fatal, is posted or finds a reset connection.
\<close>

definition iocp_recv_result :: "iocp_env \<Rightarrow> recv_end \<Rightarrow> u64 \<Rightarrow> echo_session \<Rightarrow> event list \<Rightarrow> iocp \<Rightarrow> (iocp \<times> bool) result" where
  "iocp_recv_result env e p y evs s =
     (let tr = io_trace s @ evs; ev = EvRecv (es_sock y) (recv_windows (es_recvQ y)); c = ie_wsa env tr ev in
      if iocp_breaks env (io_trace s) evs then Inl DebugBreak
      else if e = TooLong then Inl OutOfBounds
      else if iocp_fatal c then Inl DebugBreak
      else if iocp_posted c then Inr (Iocp_put p y (s\<lparr>io_trace := tr @ [ev]\<rparr>), True)
      else if es_ioCount y = 1 then Inl BadPointer
      else Inr (Iocp_put p (y\<lparr>es_ioCount := es_ioCount y - 1\<rparr>) (s\<lparr>io_trace := tr @ [ev]\<rparr>), True))"

lemma Iocp_Worker_recv_ok:
  assumes mem: "iocp_mem env" and inv: "iocp_inv R S s" and p: "p \<in> R" and x: "io_heap s p = Some x"
    and bs: "bs \<noteq> []" "int (length bs) \<le> RingBuffer_GetFreeSize (es_recvQ x)"
    and parse: "lan_parse (ring_contents (es_recvQ x) @ bs) = (pls, rest, e)"
  shows "\<exists>y evs. echoed env (io_trace s) pls x y evs \<and> (e \<noteq> TooLong \<longrightarrow> ring_contents (es_recvQ y) = rest) \<and>
    Iocp_Worker_step env (iocp_done p RECV (length bs)) (iocp_arrived p bs s) = iocp_recv_result env e p y evs s"
proof -
  note W = iocp_invD[OF inv x]
  obtain q fuel where q: "ring_inv q" "m_capacity q = 2002" "ring_contents q = ring_contents (es_recvQ x) @ bs"
    "Iocp_Worker_step env (iocp_done p RECV (length bs)) (iocp_arrived p bs s) =
      and_then (Iocp_frames env fuel p (Iocp_put p (x\<lparr>es_cs := Suc (Suc 0), es_recvQ := q\<rparr>) s)) (\<lambda>s.
      and_then (Iocp_post_recv env p s) (\<lambda>s. and_then (Iocp_Leave p s) (\<lambda>s. Inr (s, True))))"
    "length (ring_contents q) < fuel"
    using Iocp_RecvProc_frames[OF inv x bs] by blast
  let ?x = "x\<lparr>es_cs := Suc (Suc 0), es_recvQ := q\<rparr>" and ?s = "Iocp_put p (x\<lparr>es_cs := Suc (Suc 0), es_recvQ := q\<rparr>) s"
  have ok: "echo_ok ?x" using iocp_wfD(4)[OF W(1) x] q(1,2) by (simp add: echo_ok_def)
  have wf: "iocp_wf ?s" by (rule iocp_wf_put[OF W(1) x ok]) simp
  have "es_ioCount x = 1 \<or> es_ioCount x = 2 \<and> es_isSending x" using W(3,4) p by (cases "p \<in> S") simp_all
  then have count: "es_ioCount ?x = 1 \<or> es_ioCount ?x = 2 \<and> es_isSending ?x" by simp
  have x2: "io_heap ?s p = Some ?x" and bs2: "ring_contents (es_recvQ ?x) = ring_contents (es_recvQ x) @ bs" using q(3) by simp_all
  have F: "\<exists>y evs. echoed env (io_trace s) pls ?x y evs \<and> (e \<noteq> TooLong \<longrightarrow> ring_contents (es_recvQ y) = rest) \<and>
    Iocp_frames env fuel p ?s = (if iocp_breaks env (io_trace s) evs then Inl DebugBreak else if e = TooLong then Inl OutOfBounds
       else Inr (Iocp_put p y (s\<lparr>io_trace := io_trace s @ evs\<rparr>)))"
    using Iocp_frames_ok[OF mem wf x2 count bs2 parse q(5)[unfolded q(3)]] unfolding Iocp_put_collapse .
  obtain y evs where y: "echoed env (io_trace s) pls ?x y evs" "e \<noteq> TooLong \<longrightarrow> ring_contents (es_recvQ y) = rest"
    "Iocp_frames env fuel p ?s = (if iocp_breaks env (io_trace s) evs then Inl DebugBreak else if e = TooLong then Inl OutOfBounds
       else Inr (Iocp_put p y (s\<lparr>io_trace := io_trace s @ evs\<rparr>)))"
    using F by blast
  have cs: "es_cs y = Suc (Suc 0)" "es_sock y = es_sock x" using y(1) by (simp_all add: echoed_def)
  have y0: "echoed env (io_trace s) pls x (y\<lparr>es_cs := 0\<rparr>) evs" using y(1) W(2) by (simp add: echoed_def echo_ok_def)
  have wf1: "iocp_wf (Iocp_put p y (s\<lparr>io_trace := io_trace s @ evs\<rparr>))"
    by (rule iocp_wf_put[where x = x]) (use W(1) x y(1) in \<open>simp_all add: echoed_def\<close>)
  have "Iocp_Worker_step env (iocp_done p RECV (length bs)) (iocp_arrived p bs s) = iocp_recv_result env e p (y\<lparr>es_cs := 0\<rparr>) evs s"
    unfolding q(4) y(3) iocp_recv_result_def
    using Iocp_post_recv_ok[OF wf1 _ cs(1), of p env] by (simp add: Let_def)
  then show ?thesis using y0 y(2) by (intro exI[of _ "y\<lparr>es_cs := 0\<rparr>"] exI[of _ evs]) simp
qed

text \<open>A failed completion drops its count; the last one deletes the session.\<close>

lemma Iocp_Worker_failed_ok:
  assumes inv: "iocp_inv R S s" and x: "io_heap s p = Some x"
    and k: "ic_overlapped k = Some (p, type)" "\<not> ic_retval k \<or> ic_transferred k = 0"
  shows "Iocp_Worker_step env k s =
    Inr (if es_ioCount x = 1 then Iocp_gone p x s else Iocp_put p (x\<lparr>es_ioCount := es_ioCount x - 1\<rparr>) s, True)"
proof -
  note W = iocp_invD(1,2)[OF inv x]
  have 0: "es_ioCount x - 1 = 0 \<longleftrightarrow> es_ioCount x = 1" by simp
  show ?thesis
    using k x ReleaseSession_put[OF W(1) x, of "x\<lparr>es_cs := 0, es_ioCount := es_ioCount x - 1\<rparr>"] W(2)
    by (auto simp: Iocp_Worker_step_def fault_simps cs_same[OF W(2)])
qed

text \<open>
  A completed send removes what was sent. What has been queued meanwhile is sent next; when there is nothing, or the
  connection turns out to be reset, the count is dropped. When that was the last one the session is deleted, and the
  worker leaves a critical section that is gone.
\<close>

definition iocp_send_result :: "iocp_env \<Rightarrow> u64 \<Rightarrow> echo_session \<Rightarrow> ring \<Rightarrow> bytes list \<Rightarrow> iocp \<Rightarrow> (iocp \<times> bool) result" where
  "iocp_send_result env p x q bufs s =
     (let ev = EvSend (es_sock x) bufs; c = ie_wsa env (io_trace s) ev; more = ring_contents q \<noteq> [];
          s = (if more then s\<lparr>io_trace := io_trace s @ [ev]\<rparr> else s); x = x\<lparr>es_sendQ := q, es_isSending := more\<rparr> in
      if more \<and> iocp_fatal c then Inl DebugBreak
      else if more \<and> iocp_posted c then Inr (Iocp_put p x s, True)
      else if es_ioCount x = 1 then Inl BadPointer
      else Inr (Iocp_put p (x\<lparr>es_ioCount := es_ioCount x - 1\<rparr>) s, True))"

lemma Iocp_Worker_send_ok:
  assumes inv: "iocp_inv R S s" and x: "io_heap s p = Some x" and n: "0 < n" "n < 2 ^ 31"
  defines "q \<equiv> fst (RingBuffer_MoveFront (es_sendQ x) (int n))"
  shows "\<exists>bufs. concat bufs = ring_contents q \<and> Iocp_Worker_step env (iocp_done p SEND n) s = iocp_send_result env p x q bufs s"
proof -
  note W = iocp_invD(1,2)[OF inv x]
  have q: "ring_inv q" using iocp_wfD(4)[OF W(1) x] MoveFront_drop(2)[of "es_sendQ x" "int n"] by (simp add: q_def echo_ok_def)
  have t: "(of_nat n :: u32) \<noteq> 0" "sint (of_nat n :: u32) = int n"
    using of_nat_u32_inj[of n 0] n by (simp_all add: sint_length)
  have use: "0 < RingBuffer_GetUseSize q \<longleftrightarrow> ring_contents q \<noteq> []" using use_size_contents[OF q] by (metis length_greater_0_conv of_nat_0_less_iff)
  let ?x = "x\<lparr>es_cs := Suc (Suc 0), es_sendQ := q, es_isSending := False\<rparr>"
  let ?drop = "\<lambda>s. and_then
     (and_then (Iocp_add_io (- 1) p s) (\<lambda>(s, n).
     if n = 0 then
       and_then (Iocp_Leave p s) (\<lambda>s.
       and_then (Iocp_deref p s) (\<lambda>x. Iocp_ReleaseSession (es_sessionID x) s))
     else Iocp_Leave p s)) (\<lambda>s. and_then (Iocp_Leave p s) (\<lambda>s. Inr (s, True)))"
  have step: "Iocp_Worker_step env (iocp_done p SEND n) s =
    and_then
     (and_then
       (if ring_contents q \<noteq> [] then
          and_then (Iocp_upd p (\<lambda>x. x\<lparr>es_isSending := True\<rparr>) (Iocp_put p ?x s)) (Iocp_post_send env p)
        else Inr (Iocp_put p ?x s, False)) (\<lambda>(s, released).
     if released then Inr s
     else
     and_then (Iocp_add_io (- 1) p s) (\<lambda>(s, n).
     if n = 0 then
       and_then (Iocp_Leave p s) (\<lambda>s.
       and_then (Iocp_deref p s) (\<lambda>x. Iocp_ReleaseSession (es_sessionID x) s))
     else Iocp_Leave p s))) (\<lambda>s. and_then (Iocp_Leave p s) (\<lambda>s. Inr (s, True)))"
    using t x W(2) by (simp add: Iocp_Worker_step_def iocp_done_def Iocp_SendProc_def fault_simps q_def[symmetric] use)
  have drop: "?drop (Iocp_put p (x\<lparr>es_cs := Suc (Suc 0), es_sendQ := q, es_isSending := b, es_ioCount := k\<rparr>) (s\<lparr>io_trace := tr\<rparr>)) =
      (if k = 1 then Inl BadPointer
       else Inr (Iocp_put p (x\<lparr>es_sendQ := q, es_isSending := b, es_ioCount := k - 1\<rparr>) (s\<lparr>io_trace := tr\<rparr>), True))" for b k tr
  proof -
    have wf1: "iocp_wf (s\<lparr>io_trace := tr\<rparr>)" and x1: "io_heap (s\<lparr>io_trace := tr\<rparr>) p = Some x" using W(1) x by simp_all
    have "x\<lparr>es_sendQ := q, es_isSending := b, es_ioCount := k - 1, es_cs := 0\<rparr> =
        x\<lparr>es_sendQ := q, es_isSending := b, es_ioCount := k - 1\<rparr>" using W(2) by (cases x) simp
    then show ?thesis
      using ReleaseSession_put[OF wf1 x1, of "x\<lparr>es_sendQ := q, es_isSending := b, es_ioCount := 0, es_cs := Suc 0\<rparr>"]
        iocp_wfD(3)[OF W(1) x]
      by (simp add: fault_simps Iocp_gone_def Iocp_Leave_def)
  qed
  show ?thesis
  proof (cases "ring_contents q = []")
    case True
    have "Iocp_Worker_step env (iocp_done p SEND n) s = iocp_send_result env p x q [] s"
      using True drop[where b = False and k = "es_ioCount x" and tr = "io_trace s"] by (simp add: step iocp_send_result_def)
    then show ?thesis using True by (intro exI[of _ "[]"]) simp
  next
    case False
    let ?y = "?x\<lparr>es_isSending := True\<rparr>"
    obtain bufs where b: "concat bufs = ring_contents q" "Iocp_post_send env p (Iocp_put p ?y s) =
        (if iocp_fatal (ie_wsa env (io_trace s) (EvSend (es_sock x) bufs)) then Inl DebugBreak
         else Inr (Iocp_put p (?y\<lparr>es_ioCount := es_ioCount x + of_bool (iocp_posted (ie_wsa env (io_trace s) (EvSend (es_sock x) bufs)))\<rparr>)
           (s\<lparr>io_trace := io_trace s @ [EvSend (es_sock x) bufs]\<rparr>), False))"
      using Iocp_post_send_ok[of "Iocp_put p ?y s" p ?y env] q iocp_count(1)[OF inv x] by auto
    have "Iocp_Worker_step env (iocp_done p SEND n) s = iocp_send_result env p x q bufs s"
      using False b(2) drop[where b = True and tr = "io_trace s @ [EvSend (es_sock x) bufs]"] iocp_count(1)[OF inv x]
      by (simp add: step iocp_send_result_def Let_def fault_simps)
    then show ?thesis using b(1) by blast
  qed
qed

section \<open>Accepting\<close>

lemma Iocp_Session_ok:
  assumes "iocp_mem env"
  shows "echo_ok (Iocp_Session env sk sid a pn)"
proof -
  have "int (length (ie_mem env 2002)) = 2001 + 1" using assms by (simp add: iocp_mem_def)
  from sized_empty(1)[OF _ this] show ?thesis
    by (simp add: echo_ok_def Iocp_Session_def Iocp_BUFSIZE_def) (simp add: RingBuffer_sized_def)
qed

lemma Iocp_Session_simps [simp]:
  "es_sessionID (Iocp_Session env sk sid a pn) = sid" "es_cs (Iocp_Session env sk sid a pn) = 0"
  "es_ioCount (Iocp_Session env sk sid a pn) = 0" "es_isSending (Iocp_Session env sk sid a pn) = False"
  by (simp_all add: Iocp_Session_def)

lemma Iocp_Accept_eq:
  assumes L: "io_lock s = SrwFree" and run: "Iocp_Accept_client env n (sk, a, pn) s = Inr s'" and q: "ie_new env (io_heap s) = q"
  shows "io_heap s' = (io_heap s)(q \<mapsto> (Iocp_Session env sk n a pn)\<lparr>es_ioCount := 1\<rparr>)"
    "io_sessionMap s' = (io_sessionMap s)(n \<mapsto> q)" "io_lock s' = SrwFree"
    "\<exists>ws. io_trace s' = io_trace s @ [EvSockopt sk, EvSockopt sk, EvAssociate sk n, EvRecv sk ws] \<and>
      iocp_posted (ie_wsa env (io_trace s @ [EvSockopt sk, EvSockopt sk, EvAssociate sk n]) (EvRecv sk ws))"
  using assms
  by (auto simp: Iocp_Accept_client_def Iocp_syscall_def Iocp_emit_def Let_def fault_simps Iocp_deref_def Iocp_add_io_def
      Acquire_shared_def Release_shared_def iocp_posted_def elim!: and_then_InrE split: if_splits)

lemma Iocp_Accept_runs:
  assumes "io_lock s = SrwFree" and "\<And>tr e. \<not> is_EvSend e \<Longrightarrow> ie_wsa env tr e = 0"
  shows "\<exists>s'. Iocp_Accept_client env n c s = Inr s'"
  using assms
  by (cases c) (simp add: Iocp_Accept_client_def Iocp_syscall_def Iocp_emit_def Let_def fault_simps Iocp_deref_def Iocp_add_io_def)

lemma Iocp_Accept_ok:
  assumes mem: "iocp_mem env" and inv: "iocp_inv R S s" and n: "io_sessionMap s n = None"
    and q: "ie_new env (io_heap s) = q" "q \<noteq> 0" "io_heap s q = None" and run: "Iocp_Accept_client env n c s = Inr s'"
  shows "iocp_inv (insert q R) S s'"
proof -
  obtain sk a pn where c: "c = (sk, a, pn)" by (cases c)
  let ?x = "(Iocp_Session env sk n a pn)\<lparr>es_ioCount := 1\<rparr>"
  have L: "io_lock s = SrwFree" using inv by (simp add: iocp_inv_def iocp_wf_def)
  note s' = Iocp_Accept_eq(1-3)[OF L run[unfolded c] q(1)]
  have M: "io_sessionMap s sid = Some p \<longleftrightarrow> (\<exists>x. io_heap s p = Some x \<and> es_sessionID x = sid)" for sid p
    using inv by (simp add: iocp_inv_def iocp_wf_def)
  have "io_sessionMap s' sid = Some p \<longleftrightarrow> (\<exists>x. io_heap s' p = Some x \<and> es_sessionID x = sid)" for sid p
    using M[of sid p] n q(3) by (auto simp: s')
  then have wf: "iocp_wf s'"
    using inv q(2) Iocp_Session_ok[OF mem, of sk n a pn] by (simp add: iocp_wf_def iocp_inv_def) (simp add: s' echo_ok_def)
  have "q \<in> R \<union> S \<longleftrightarrow> io_heap s q \<noteq> None" using inv unfolding iocp_inv_def by blast
  then have "q \<notin> R" "q \<notin> S" using q(3) by simp_all
  then show ?thesis using wf inv by (auto simp: iocp_inv_def s')
qed

end
