(* ===== verification/IocpProperties.thy ===== *)
theory IocpProperties
  imports IocpSafety
begin

text \<open>
  The properties of the single-file echo server over the states it can reach: what a receive does, what
  the counts of the sessions mean, and how the last completion of a session uses it after it is deleted. System
  calls may return any code.
\<close>

section \<open>Reachable states\<close>

text \<open>
  From the start of \<open>main\<close> clients are accepted and posted operations complete, in any order, and a call may fail
  in any way. \<open>R\<close> and \<open>S\<close> are the sessions with a posted \<open>WSARecv\<close> and with a posted \<open>WSASend\<close> that has not completed: a
  completion takes the session out, and a call of the step that succeeds or stays pending puts it in.
\<close>

definition iocp_posts_send :: "iocp_env \<Rightarrow> iocp \<Rightarrow> iocp \<Rightarrow> bool" where
  "iocp_posts_send env s s' \<longleftrightarrow> iocp_posts env is_EvSend (io_trace s) (drop (length (io_trace s)) (io_trace s'))"

definition iocp_posts_recv :: "iocp_env \<Rightarrow> iocp \<Rightarrow> iocp \<Rightarrow> bool" where
  "iocp_posts_recv env s s' \<longleftrightarrow> iocp_posts env is_EvRecv (io_trace s) (drop (length (io_trace s)) (io_trace s'))"

definition with_if :: "bool \<Rightarrow> u64 \<Rightarrow> u64 set \<Rightarrow> u64 set" where
  "with_if b p A = (if b then insert p A else A)"

definition iocp_empty :: iocp where
  "iocp_empty = \<lparr>io_heap = (\<lambda>_. None), io_sessionMap = (\<lambda>_. None), io_lock = SrwFree, io_trace = []\<rparr>"

inductive iocp_reach :: "iocp_env \<Rightarrow> u64 set \<Rightarrow> u64 set \<Rightarrow> iocp \<Rightarrow> bool" for env where
  Started: "Iocp_main_start env iocp_empty = (s, True) \<Longrightarrow> iocp_reach env {} {} s"
| Accepted: "iocp_reach env R S s \<Longrightarrow> io_sessionMap s n = None \<Longrightarrow> ie_new env (io_heap s) = q \<Longrightarrow> q \<noteq> 0 \<Longrightarrow> io_heap s q = None \<Longrightarrow>
    Iocp_Accept_client env n c s = Inr s' \<Longrightarrow> iocp_reach env (with_if (iocp_posts_recv env s s') q R) S s'"
| Received: "iocp_reach env R S s \<Longrightarrow> p \<in> R \<Longrightarrow> io_heap s p = Some x \<Longrightarrow> bs \<noteq> [] \<Longrightarrow>
    int (length bs) \<le> RingBuffer_GetFreeSize (es_recvQ x) \<Longrightarrow>
    Iocp_Worker_step env (iocp_done p RECV (length bs)) (iocp_arrived p bs s) = Inr (s', go) \<Longrightarrow>
    iocp_reach env (with_if (iocp_posts_recv env s s') p (R - {p})) (with_if (iocp_posts_send env s s') p S) s'"
| Sent: "iocp_reach env R S s \<Longrightarrow> p \<in> S \<Longrightarrow> 0 < n \<Longrightarrow> n < 2 ^ 31 \<Longrightarrow>
    Iocp_Worker_step env (iocp_done p SEND n) s = Inr (s', go) \<Longrightarrow>
    iocp_reach env (with_if (iocp_posts_recv env s s') p R) (with_if (iocp_posts_send env s s') p (S - {p})) s'"
| Closed: "iocp_reach env R S s \<Longrightarrow> p \<in> R \<Longrightarrow> ic_overlapped k = Some (p, RECV) \<Longrightarrow> \<not> ic_retval k \<or> ic_transferred k = 0 \<Longrightarrow>
    Iocp_Worker_step env k s = Inr (s', go) \<Longrightarrow>
    iocp_reach env (with_if (iocp_posts_recv env s s') p (R - {p})) (with_if (iocp_posts_send env s s') p S) s'"
| SendFailed: "iocp_reach env R S s \<Longrightarrow> p \<in> S \<Longrightarrow> ic_overlapped k = Some (p, SEND) \<Longrightarrow> \<not> ic_retval k \<or> ic_transferred k = 0 \<Longrightarrow>
    Iocp_Worker_step env k s = Inr (s', go) \<Longrightarrow>
    iocp_reach env (with_if (iocp_posts_recv env s s') p R) (with_if (iocp_posts_send env s s') p (S - {p})) s'"

lemma iocp_posts_simps:
  "io_trace s' = io_trace s @ evs \<Longrightarrow> iocp_posts_send env s s' \<longleftrightarrow> iocp_posts env is_EvSend (io_trace s) evs"
  "io_trace s' = io_trace s @ evs \<Longrightarrow> iocp_posts_recv env s s' \<longleftrightarrow> iocp_posts env is_EvRecv (io_trace s) evs"
  by (simp_all add: iocp_posts_send_def iocp_posts_recv_def)

text \<open>Every kind of step keeps the invariant.\<close>

lemma iocp_inv_start: "Iocp_main_start env iocp_empty = (s, True) \<Longrightarrow> iocp_inv {} {} s"
  by (auto simp: iocp_empty_def Iocp_main_start_def Iocp_syscall_def Let_def iocp_inv_def iocp_wf_def split: if_splits)

lemma iocp_inv_failed:
  assumes inv: "iocp_inv R S s" and k: "ic_overlapped k = Some (p, type)" "\<not> ic_retval k \<or> ic_transferred k = 0"
    and run: "Iocp_Worker_step env k s = Inr (s', go)" and op: "p \<in> (case type of RECV \<Rightarrow> R | SEND \<Rightarrow> S)"
  shows "iocp_inv (if type = RECV then R - {p} else R) (if type = SEND then S - {p} else S) s'"
    "\<not> iocp_posts_recv env s s'" "\<not> iocp_posts_send env s s'"
proof -
  have "p \<in> R \<union> S" using op by (cases type) auto
  then obtain x where x: "io_heap s p = Some x" using inv unfolding iocp_inv_def by blast
  have s': "s' = (if es_ioCount x = 1 then Iocp_gone p x s else Iocp_put p (x\<lparr>es_ioCount := es_ioCount x - 1\<rparr>) s)"
    using run Iocp_Worker_failed_ok[OF inv x k] by simp
  show "\<not> iocp_posts_recv env s s'" "\<not> iocp_posts_send env s s'"
    by (auto simp: s' iocp_posts_recv_def iocp_posts_send_def Iocp_gone_def)
  show "iocp_inv (if type = RECV then R - {p} else R) (if type = SEND then S - {p} else S) s'"
  proof (cases "es_ioCount x = 1")
    case True
    then have "\<not> (p \<in> R \<and> p \<in> S)" using iocp_count(2)[OF inv x] by simp
    then have "R - {p} = (if type = RECV then R - {p} else R)" "S - {p} = (if type = SEND then S - {p} else S)"
      using op by (cases type; auto)+
    then show ?thesis using iocp_inv_gone[OF inv x] s' True by simp
  next
    case False
    then have both: "p \<in> R" "p \<in> S" using iocp_count(2)[OF inv x] by blast+
    show ?thesis unfolding s' using False
      by (cases type)
        (simp_all, (rule iocp_inv_put[OF inv x]; use both iocp_invD[OF inv x] iocp_wfD(4)[OF _ x] in \<open>auto simp: echo_ok_def\<close>)+)
  qed
qed

lemma iocp_inv_sent:
  assumes inv: "iocp_inv R S s" and p: "p \<in> S" and n: "0 < n" "n < 2 ^ 31"
    and run: "Iocp_Worker_step env (iocp_done p SEND n) s = Inr (s', go)"
  shows "iocp_inv R (with_if (iocp_posts_send env s s') p (S - {p})) s'" "\<not> iocp_posts_recv env s s'"
proof -
  obtain x where x: "io_heap s p = Some x" using inv p unfolding iocp_inv_def by blast
  note W = iocp_invD[OF inv x]
  define q where "q = fst (RingBuffer_MoveFront (es_sendQ x) (int n))"
  have ok: "echo_ok (x\<lparr>es_sendQ := q\<rparr>)"
    using iocp_wfD(4)[OF W(1) x] MoveFront_drop(2,5)[of "es_sendQ x" "int n"] by (simp add: q_def echo_ok_def)
  obtain bufs where E: "Iocp_Worker_step env (iocp_done p SEND n) s = iocp_send_result env p x q bufs s"
    using Iocp_Worker_send_ok[OF inv x n, folded q_def] by blast
  let ?more = "ring_contents q \<noteq> []" and ?ev = "EvSend (es_sock x) bufs"
  let ?c = "ie_wsa env (io_trace s) ?ev" and ?evs = "if ring_contents q \<noteq> [] then [EvSend (es_sock x) bufs] else []"
  let ?y = "x\<lparr>es_sendQ := q, es_isSending := ?more\<rparr>" and ?s = "s\<lparr>io_trace := io_trace s @ ?evs\<rparr>"
  let ?again = "?more \<and> iocp_posted ?c"
  have s': "s' = Iocp_put p (if ?again then ?y else ?y\<lparr>es_ioCount := es_ioCount x - 1\<rparr>) ?s" and c: "?again \<or> es_ioCount x \<noteq> 1"
    using run unfolding E by (auto simp: iocp_send_result_def Let_def split: if_splits)
  have again: "iocp_posts_send env s s' \<longleftrightarrow> ?again" "\<not> iocp_posts_recv env s s'"
    by (subst iocp_posts_simps[where evs = ?evs]; simp add: s')+
  have "p \<in> R" if "\<not> ?again" using c that iocp_count(2)[OF inv x] by blast
  then have "iocp_inv R (with_if ?again p (S - {p})) (Iocp_put p (if ?again then ?y else ?y\<lparr>es_ioCount := es_ioCount x - 1\<rparr>) ?s)"
    using p W ok inv x by (intro iocp_inv_put[where x = x and R = R and S = S]) (auto simp: echo_ok_def with_if_def)
  then have "iocp_inv R (with_if ?again p (S - {p})) s'" unfolding s'[symmetric] .
  then show "iocp_inv R (with_if (iocp_posts_send env s s') p (S - {p})) s'" unfolding again(1) .
  show "\<not> iocp_posts_recv env s s'" by (rule again(2))
qed

lemma iocp_inv_received:
  assumes mem: "iocp_mem env" and inv: "iocp_inv R S s" and p: "p \<in> R" and x: "io_heap s p = Some x"
    and bs: "bs \<noteq> []" "int (length bs) \<le> RingBuffer_GetFreeSize (es_recvQ x)"
    and run: "Iocp_Worker_step env (iocp_done p RECV (length bs)) (iocp_arrived p bs s) = Inr (s', go)"
  shows "iocp_inv (with_if (iocp_posts_recv env s s') p (R - {p})) (with_if (iocp_posts_send env s s') p S) s'"
proof -
  obtain pls rest e where parse: "lan_parse (ring_contents (es_recvQ x) @ bs) = (pls, rest, e)"
    by (cases "lan_parse (ring_contents (es_recvQ x) @ bs)")
  from Iocp_Worker_recv_ok[OF mem inv p x bs parse]
  obtain y evs where y: "echoed env (io_trace s) pls x y evs"
    "Iocp_Worker_step env (iocp_done p RECV (length bs)) (iocp_arrived p bs s) = iocp_recv_result env e p y evs s" by blast
  let ?ev = "EvRecv (es_sock y) (recv_windows (es_recvQ y))"
  let ?again = "iocp_posted (ie_wsa env (io_trace s @ evs) ?ev)" and ?sends = "iocp_posts env is_EvSend (io_trace s) evs"
  let ?S = "if ?sends then insert p S else S"
  have s': "s' = Iocp_put p (if ?again then y else y\<lparr>es_ioCount := es_ioCount y - 1\<rparr>) (s\<lparr>io_trace := io_trace s @ evs @ [?ev]\<rparr>)"
    and c: "?again \<or> es_ioCount y \<noteq> 1"
    using run unfolding y(2) by (auto simp: iocp_recv_result_def Let_def split: if_splits)
  have again: "iocp_posts_recv env s s' \<longleftrightarrow> ?again" "iocp_posts_send env s s' \<longleftrightarrow> ?sends"
    using echoed_sends(3)[OF y(1)] by (subst iocp_posts_simps[where evs = "evs @ [?ev]"]; simp add: s' iocp_posts_append)+
  have "es_ioCount y = of_bool (p \<in> R) + of_bool (p \<in> ?S)"
    using y(1) echoed_sends(2)[OF y(1)] iocp_invD(3,4)[OF inv x] by (auto simp: echoed_def)
  then have "?again \<or> p \<in> ?S" using c p by (auto split: if_splits)
  from iocp_inv_echoed[OF inv x p y(1) refl this refl, of "io_trace s @ evs @ [?ev]"]
  have "iocp_inv (if ?again then R else R - {p}) ?S s'" unfolding s' .
  moreover have "with_if ?again p (R - {p}) = (if ?again then R else R - {p})" "with_if ?sends p S = ?S"
    using p by (auto simp: with_if_def)
  ultimately show ?thesis unfolding again by simp
qed

lemma iocp_inv_accepted:
  assumes "iocp_mem env" "iocp_inv R S s" "io_sessionMap s n = None" "ie_new env (io_heap s) = q" "q \<noteq> 0" "io_heap s q = None"
    and run: "Iocp_Accept_client env n c s = Inr s'"
  shows "iocp_inv (with_if (iocp_posts_recv env s s') q R) S s'"
proof -
  obtain sk a pn where c: "c = (sk, a, pn)" by (cases c)
  have "io_lock s = SrwFree" using assms(2) by (simp add: iocp_inv_def iocp_wf_def)
  then obtain ws where tr: "io_trace s' = io_trace s @ [EvSockopt sk, EvSockopt sk, EvAssociate sk n, EvRecv sk ws]"
    "iocp_posted (ie_wsa env (io_trace s @ [EvSockopt sk, EvSockopt sk, EvAssociate sk n]) (EvRecv sk ws))"
    using Iocp_Accept_eq(4)[OF _ run[unfolded c] assms(4)] by blast
  have "iocp_posts_recv env s s'" using tr(2) by (simp add: iocp_posts_simps[OF tr(1)])
  then show ?thesis using Iocp_Accept_ok[OF assms] by (simp add: with_if_def)
qed

lemma iocp_reach_inv:
  assumes "iocp_mem env" and "iocp_reach env R S s"
  shows "iocp_inv R S s"
  using assms(2)
proof induction
  case (Started s)
  then show ?case by (rule iocp_inv_start)
next
  case (Accepted R S s n q c s')
  then show ?case using iocp_inv_accepted[OF assms(1)] by blast
next
  case (Received R S s p x bs s' go)
  then show ?case using iocp_inv_received[OF assms(1)] by blast
next
  case (Sent R S s p n s' go)
  then show ?case using iocp_inv_sent by (simp add: with_if_def)
next
  case (Closed R S s p k s' go)
  then show ?case using iocp_inv_failed[of R S s k p RECV env s' go] by (simp add: with_if_def)
next
  case (SendFailed R S s p k s' go)
  then show ?case using iocp_inv_failed[of R S s k p SEND env s' go] by (simp add: with_if_def)
qed

section \<open>A run\<close>

text \<open>Every call succeeds, but for a second \<open>WSASend\<close>, which returns \<open>c\<close>.\<close>

definition sample_iocp_env :: "u32 \<Rightarrow> iocp_env" where
  "sample_iocp_env c = \<lparr>ie_wsa = (\<lambda>tr e. if is_EvSend e \<and> list_ex is_EvSend tr then c else 0), ie_new = (\<lambda>_. 0x1000),
     ie_mem = (\<lambda>n. replicate (nat n) 0), ie_junk = 0x5A\<rparr>"

lemma sample_iocp_mem: "iocp_mem (sample_iocp_env c)"
  by (simp add: sample_iocp_env_def iocp_mem_def)

text \<open>One client has been accepted.\<close>

lemma sample_accepted:
  "\<exists>s. iocp_reach (sample_iocp_env c) {0x1000} {} s \<and> \<not> list_ex is_EvSend (io_trace s) \<and>
    io_heap s 0x1000 = Some ((Iocp_Session (sample_iocp_env c) 5 0 ''127.0.0.1'' 7000)\<lparr>es_ioCount := 1\<rparr>)"
proof -
  let ?env = "sample_iocp_env c"
  let ?s0 = "fst (Iocp_main_start ?env iocp_empty)"
  have s0: "Iocp_main_start ?env iocp_empty = (?s0, True)" "io_heap ?s0 = (\<lambda>_. None)" "io_sessionMap ?s0 = (\<lambda>_. None)"
    "io_lock ?s0 = SrwFree" "io_trace ?s0 = [EvStartup, EvCreatePort 10] @ replicate THREADNUM EvThread"
    by (simp_all add: Iocp_main_start_def Iocp_syscall_def sample_iocp_env_def iocp_empty_def)
  have t0: "\<not> list_ex is_EvSend (io_trace ?s0)" unfolding s0(5) by (simp add: THREADNUM_def list_ex_iff)
  have wsa: "ie_wsa ?env tr e = 0" if "\<not> is_EvSend e" for tr e using that by (simp add: sample_iocp_env_def)
  obtain s where s: "Iocp_Accept_client ?env 0 (5, ''127.0.0.1'', 7000) ?s0 = Inr s"
    using Iocp_Accept_runs[OF s0(4) wsa] by blast
  have q: "ie_new ?env h = 0x1000" for h by (simp add: sample_iocp_env_def)
  have "iocp_reach ?env (with_if (iocp_posts_recv ?env ?s0 s) 0x1000 {}) {} s"
    by (rule Accepted[OF Started[OF s0(1)] _ q _ _ s]) (simp_all add: s0(2-4))
  moreover obtain ws where tr: "io_trace s = io_trace ?s0 @ [EvSockopt 5, EvSockopt 5, EvAssociate 5 0, EvRecv 5 ws]"
    "iocp_posted (ie_wsa ?env (io_trace ?s0 @ [EvSockopt 5, EvSockopt 5, EvAssociate 5 0]) (EvRecv 5 ws))"
    using Iocp_Accept_eq(4)[OF s0(4) s q] by blast
  then have "iocp_posts_recv ?env ?s0 s" by (simp add: iocp_posts_simps[OF tr(1)])
  ultimately show ?thesis using Iocp_Accept_eq(1)[OF s0(4) s q] t0 by (intro exI[of _ s]) (simp add: with_if_def tr(1))
qed

lemma sample_session:
  fixes c :: u32
  defines "x \<equiv> (Iocp_Session (sample_iocp_env c) 5 0 ''127.0.0.1'' 7000)\<lparr>es_ioCount := 1\<rparr>"
  shows "es_sock x = 5" "\<not> es_isSending x" "ring_contents (es_recvQ x) = []" "ring_contents (es_sendQ x) = []"
    "RingBuffer_GetFreeSize (es_recvQ x) = 2001" "RingBuffer_GetFreeSize (es_sendQ x) = 2001" "es_ioCount x = 1"
proof -
  have "int (length (ie_mem (sample_iocp_env c) 2002)) = 2001 + 1" by (simp add: sample_iocp_env_def)
  note S = sized_empty[OF _ this]
  show "es_sock x = 5" "\<not> es_isSending x" "ring_contents (es_recvQ x) = []" "ring_contents (es_sendQ x) = []"
    "RingBuffer_GetFreeSize (es_recvQ x) = 2001" "RingBuffer_GetFreeSize (es_sendQ x) = 2001" "es_ioCount x = 1"
    using S by (simp_all add: x_def Iocp_Session_def Iocp_BUFSIZE_def)
qed

definition sample_stream :: bytes where
  "sample_stream = lan_frame [1, 2, 3, 4, 5, 6, 7, 8] @ [9]"

lemma sample_stream: "length sample_stream = 11" "lan_parse sample_stream = ([[1, 2, 3, 4, 5, 6, 7, 8]], [9], More)" "sample_stream \<noteq> []"
proof -
  have "lan_parse [9] = ([], [9], More)" by (subst lan_parse.simps) simp
  then show "lan_parse sample_stream = ([[1, 2, 3, 4, 5, 6, 7, 8]], [9], More)"
    by (simp add: sample_stream_def lan_parse_frame)
qed (simp_all add: sample_stream_def lan_frame_def)

text \<open>The bytes fit into the empty queue, and the answer to them is the first send.\<close>

lemma sample_fits:
  fixes c :: u32
  defines "x \<equiv> (Iocp_Session (sample_iocp_env c) 5 0 ''127.0.0.1'' 7000)\<lparr>es_ioCount := 1\<rparr>"
  shows "int (length sample_stream) \<le> RingBuffer_GetFreeSize (es_recvQ x)"
    "lan_parse (ring_contents (es_recvQ x) @ sample_stream) = ([[1, 2, 3, 4, 5, 6, 7, 8]], [9], More)"
  unfolding x_def sample_session(3,5) using sample_stream by simp_all

lemma sample_answer:
  fixes c :: u32
  defines "x \<equiv> (Iocp_Session (sample_iocp_env c) 5 0 ''127.0.0.1'' 7000)\<lparr>es_ioCount := 1\<rparr>"
  assumes "echoed (sample_iocp_env c) (io_trace s) [[1, 2, 3, 4, 5, 6, 7, 8]] x y evs" and "\<not> list_ex is_EvSend (io_trace s)"
  shows "\<exists>bufs. evs = [EvSend 5 bufs] \<and> concat bufs = lan_frame [1, 2, 3, 4, 5, 6, 7, 8]"
    "iocp_posts (sample_iocp_env c) is_EvSend (io_trace s) evs" "\<not> iocp_breaks (sample_iocp_env c) (io_trace s) evs"
    "ring_contents (es_sendQ y) = lan_frame [1, 2, 3, 4, 5, 6, 7, 8]" "es_sock y = 5"
    "ie_wsa (sample_iocp_env c) tr (EvRecv a b) = 0"
proof -
  note X = sample_session[of c, folded x_def]
  show 1: "\<exists>bufs. evs = [EvSend 5 bufs] \<and> concat bufs = lan_frame [1, 2, 3, 4, 5, 6, 7, 8]"
    using assms(2) X by (auto simp: echoed_def echo_events_def echo_payload_def)
  then show "iocp_posts (sample_iocp_env c) is_EvSend (io_trace s) evs" "\<not> iocp_breaks (sample_iocp_env c) (io_trace s) evs"
    using assms(3) by (auto simp: sample_iocp_env_def iocp_posted_def iocp_fatal_def)
  show "ring_contents (es_sendQ y) = lan_frame [1, 2, 3, 4, 5, 6, 7, 8]" "es_sock y = 5"
    using assms(2) X by (simp_all add: echoed_def echo_payload_def)
qed (simp add: sample_iocp_env_def)

text \<open>A message has arrived, so that a send is pending; then the client has gone.\<close>

lemma sample_received:
  "\<exists>s y. iocp_reach (sample_iocp_env c) {0x1000} {0x1000} s \<and> io_heap s 0x1000 = Some y \<and>
    ring_contents (es_sendQ y) = lan_frame [1, 2, 3, 4, 5, 6, 7, 8] \<and> list_ex is_EvSend (io_trace s)"
proof -
  let ?env = "sample_iocp_env c"
  let ?x = "(Iocp_Session ?env 5 0 ''127.0.0.1'' 7000)\<lparr>es_ioCount := 1\<rparr>"
  obtain s where s: "iocp_reach ?env {0x1000} {} s" "io_heap s 0x1000 = Some ?x" "\<not> list_ex is_EvSend (io_trace s)"
    using sample_accepted by blast
  have in_R: "(0x1000 :: u64) \<in> {0x1000}" by simp
  obtain y evs where y: "echoed ?env (io_trace s) [[1, 2, 3, 4, 5, 6, 7, 8]] ?x y evs"
    "Iocp_Worker_step ?env (iocp_done 0x1000 RECV (length sample_stream)) (iocp_arrived 0x1000 sample_stream s) =
      iocp_recv_result ?env More 0x1000 y evs s"
    using Iocp_Worker_recv_ok[OF sample_iocp_mem iocp_reach_inv[OF sample_iocp_mem s(1)] in_R s(2) sample_stream(3) sample_fits] by blast
  note A = sample_answer[OF y(1) s(3)]
  let ?ev = "EvRecv 5 (recv_windows (es_recvQ y))"
  let ?s = "Iocp_put 0x1000 y (s\<lparr>io_trace := io_trace s @ evs @ [?ev]\<rparr>)"
  have run: "Iocp_Worker_step ?env (iocp_done 0x1000 RECV (length sample_stream)) (iocp_arrived 0x1000 sample_stream s) = Inr (?s, True)"
    unfolding y(2) using A(3,5,6) by (simp add: iocp_recv_result_def iocp_posted_def iocp_fatal_def)
  have tr: "io_trace ?s = io_trace s @ (evs @ [?ev])" by simp
  have "iocp_posts_send ?env s ?s" "iocp_posts_recv ?env s ?s"
    unfolding iocp_posts_simps[OF tr] using A(2,6) by (simp_all add: iocp_posts_append iocp_posted_def)
  then have "iocp_reach ?env {0x1000} {0x1000} ?s"
    using Received[OF s(1) in_R s(2) sample_stream(3) sample_fits(1) run] by (simp add: with_if_def)
  moreover have "list_ex is_EvSend (io_trace ?s)" using A(1) by auto
  ultimately show ?thesis using A(4) by (intro exI[of _ ?s] exI[of _ y]) simp
qed

lemma sample_closed:
  "\<exists>s y. iocp_reach (sample_iocp_env c) {} {0x1000} s \<and> io_heap s 0x1000 = Some y \<and>
    ring_contents (es_sendQ y) = lan_frame [1, 2, 3, 4, 5, 6, 7, 8] \<and> list_ex is_EvSend (io_trace s)"
proof -
  let ?env = "sample_iocp_env c"
  obtain s y where s: "iocp_reach ?env {0x1000} {0x1000} s" "io_heap s 0x1000 = Some y"
    "ring_contents (es_sendQ y) = lan_frame [1, 2, 3, 4, 5, 6, 7, 8]" "list_ex is_EvSend (io_trace s)" using sample_received by blast
  note inv = iocp_reach_inv[OF sample_iocp_mem s(1)]
  let ?k = "\<lparr>ic_retval = False, ic_transferred = 0, ic_key = 0, ic_overlapped = Some (0x1000, RECV)\<rparr>"
  let ?s = "Iocp_put 0x1000 (y\<lparr>es_ioCount := es_ioCount y - 1\<rparr>) s"
  have "es_ioCount y \<noteq> 1" using iocp_count(2)[OF inv s(2)] by simp
  then have run: "Iocp_Worker_step ?env ?k s = Inr (?s, True)"
    using Iocp_Worker_failed_ok[OF inv s(2), of ?k RECV] by simp
  have "\<not> iocp_posts_send ?env s ?s" "\<not> iocp_posts_recv ?env s ?s" by (simp_all add: iocp_posts_simps[of _ _ "[]"])
  then have "iocp_reach ?env {} {0x1000} ?s" using Closed[OF s(1) _ _ _ run] by (simp add: with_if_def)
  then show ?thesis using s(3,4) by (intro exI[of _ ?s]) simp
qed

text \<open>The send completes with half of the message, and the next one finds the connection reset.\<close>

lemma sample_reset:
  "\<exists>s. iocp_reach (sample_iocp_env WSAECONNRESET) {0x1000} {} s"
proof -
  let ?env = "sample_iocp_env WSAECONNRESET"
  obtain s y where s: "iocp_reach ?env {0x1000} {0x1000} s" "io_heap s 0x1000 = Some y"
    "ring_contents (es_sendQ y) = lan_frame [1, 2, 3, 4, 5, 6, 7, 8]" "list_ex is_EvSend (io_trace s)" using sample_received by blast
  note inv = iocp_reach_inv[OF sample_iocp_mem s(1)]
  have q: "ring_inv (es_sendQ y)" using iocp_wfD(4)[OF iocp_invD(1)[OF inv s(2)] s(2)] by (simp add: echo_ok_def)
  let ?q = "fst (RingBuffer_MoveFront (es_sendQ y) (int 4))"
  have more: "ring_contents ?q \<noteq> []" using MoveFront_drop(1)[OF q, of 4] s(3) by (simp add: lan_frame_def)
  obtain bufs where run: "Iocp_Worker_step ?env (iocp_done 0x1000 SEND 4) s = iocp_send_result ?env 0x1000 y ?q bufs s"
    using Iocp_Worker_send_ok[OF inv s(2), of 4 ?env] by auto
  have reset: "ie_wsa ?env (io_trace s) (EvSend (es_sock y) bufs) = WSAECONNRESET"
    using s(4) by (simp add: sample_iocp_env_def)
  have c: "es_ioCount y \<noteq> 1" using iocp_count(2)[OF inv s(2)] by simp
  obtain s' where s': "Iocp_Worker_step ?env (iocp_done 0x1000 SEND 4) s = Inr (s', True)"
    "io_trace s' = io_trace s @ [EvSend (es_sock y) bufs]"
    using more reset c iocp_codes(3) unfolding run by (simp add: iocp_send_result_def iocp_fatal_def)
  have "\<not> iocp_posts_send ?env s s'" "\<not> iocp_posts_recv ?env s s'"
    unfolding iocp_posts_simps[OF s'(2)] using reset iocp_codes(3) by simp_all
  then show ?thesis using Sent[OF s(1) _ _ _ s'(1)] by (auto simp: with_if_def)
qed

section \<open>Properties\<close>

text \<open>
  C38. In every reachable state of the single-file echo server, whatever the system calls return, a worker that
  handles a completed receive consumes the complete frames of the stream, queues the reply to each, in order,
  as far as they fit into the send queue (a frame that does not fit is cut), starts one send of the first reply if
  none is under way, and posts the next receive. It stops in the debugger when one of these two calls fails with an
  error other than a reset; a frame of more than 1400 bytes is written past the end of a packet; and when the posting
  of the receive finds the connection reset, the worker uses the deleted session if it has no send pending, and
  only gives the reference of the receive back if it has one.
\<close>
theorem iocp_receives_stream:
  assumes mem: "iocp_mem env" and s: "iocp_reach env R S s" "p \<in> R" "io_heap s p = Some x"
    and bs: "bs \<noteq> []" "int (length bs) \<le> RingBuffer_GetFreeSize (es_recvQ x)"
    and parse: "lan_parse (ring_contents (es_recvQ x) @ bs) = (pls, rest, e)"
  shows "\<exists>y evs. echoed env (io_trace s) pls x y evs \<and> (e \<noteq> TooLong \<longrightarrow> ring_contents (es_recvQ y) = rest) \<and>
    (let ev = EvRecv (es_sock x) (recv_windows (es_recvQ y)); c = ie_wsa env (io_trace s @ evs) ev;
         pending = p \<in> S \<or> iocp_posts env is_EvSend (io_trace s) evs in
     Iocp_Worker_step env (iocp_done p RECV (length bs)) (iocp_arrived p bs s) =
       (if iocp_breaks env (io_trace s) evs then Inl DebugBreak
        else if e = TooLong then Inl OutOfBounds
        else if iocp_fatal c then Inl DebugBreak
        else if iocp_posted c then Inr (Iocp_put p y (s\<lparr>io_trace := io_trace s @ evs @ [ev]\<rparr>), True)
        else if \<not> pending then Inl BadPointer
        else Inr (Iocp_put p (y\<lparr>es_ioCount := es_ioCount y - 1\<rparr>) (s\<lparr>io_trace := io_trace s @ evs @ [ev]\<rparr>), True)))"
proof -
  note inv = iocp_reach_inv[OF mem s(1)]
  obtain y evs where y: "echoed env (io_trace s) pls x y evs" "e \<noteq> TooLong \<longrightarrow> ring_contents (es_recvQ y) = rest"
    "Iocp_Worker_step env (iocp_done p RECV (length bs)) (iocp_arrived p bs s) = iocp_recv_result env e p y evs s"
    using Iocp_Worker_recv_ok[OF mem inv s(2,3) bs parse] by blast
  have sock: "es_sock y = es_sock x" using y(1) by (simp add: echoed_def)
  have "es_ioCount y = 1 \<longleftrightarrow> \<not> (p \<in> S \<or> iocp_posts env is_EvSend (io_trace s) evs)"
    using y(1) echoed_sends(2)[OF y(1)] iocp_invD(3,4)[OF inv s(3)] s(2) by (auto simp: echoed_def)
  then show ?thesis using y(1,2) unfolding y(3) iocp_recv_result_def sock
    by (intro exI[of _ y] exI[of _ evs]) (simp add: Let_def)
qed

theorem iocp_receives_stream_witness:
  "\<exists>s y bufs. iocp_reach (sample_iocp_env 0) {0x1000} {} s \<and> ring_contents (es_recvQ y) = [9] \<and>
    concat bufs = lan_frame [1, 2, 3, 4, 5, 6, 7, 8] \<and>
    Iocp_Worker_step (sample_iocp_env 0) (iocp_done 0x1000 RECV 11) (iocp_arrived 0x1000 sample_stream s) =
      Inr (Iocp_put 0x1000 y (s\<lparr>io_trace := io_trace s @ [EvSend 5 bufs, EvRecv 5 (recv_windows (es_recvQ y))]\<rparr>), True)"
proof -
  let ?env = "sample_iocp_env 0"
  let ?x = "(Iocp_Session ?env 5 0 ''127.0.0.1'' 7000)\<lparr>es_ioCount := 1\<rparr>"
  obtain s where s: "iocp_reach ?env {0x1000} {} s" "io_heap s 0x1000 = Some ?x" "\<not> list_ex is_EvSend (io_trace s)"
    using sample_accepted by blast
  have in_R: "(0x1000 :: u64) \<in> {0x1000}" by simp
  from iocp_receives_stream[OF sample_iocp_mem s(1) in_R s(2) sample_stream(3) sample_fits]
  obtain y evs where y: "echoed ?env (io_trace s) [[1, 2, 3, 4, 5, 6, 7, 8]] ?x y evs" "ring_contents (es_recvQ y) = [9]"
    and run: "let ev = EvRecv (es_sock ?x) (recv_windows (es_recvQ y)); c = ie_wsa ?env (io_trace s @ evs) ev;
         pending = (0x1000 :: u64) \<in> {} \<or> iocp_posts ?env is_EvSend (io_trace s) evs in
     Iocp_Worker_step ?env (iocp_done 0x1000 RECV (length sample_stream)) (iocp_arrived 0x1000 sample_stream s) =
       (if iocp_breaks ?env (io_trace s) evs then Inl DebugBreak
        else if More = TooLong then Inl OutOfBounds
        else if iocp_fatal c then Inl DebugBreak
        else if iocp_posted c then Inr (Iocp_put 0x1000 y (s\<lparr>io_trace := io_trace s @ evs @ [ev]\<rparr>), True)
        else if \<not> pending then Inl BadPointer
        else Inr (Iocp_put 0x1000 (y\<lparr>es_ioCount := es_ioCount y - 1\<rparr>) (s\<lparr>io_trace := io_trace s @ evs @ [ev]\<rparr>), True))"
    by blast
  note A = sample_answer[OF y(1) s(3)]
  have "Iocp_Worker_step ?env (iocp_done 0x1000 RECV 11) (iocp_arrived 0x1000 sample_stream s) =
      Inr (Iocp_put 0x1000 y (s\<lparr>io_trace := io_trace s @ evs @ [EvRecv 5 (recv_windows (es_recvQ y))]\<rparr>), True)"
    using run A(3,6) unfolding sample_stream(1) by (simp add: sample_session(1) Let_def iocp_posted_def iocp_fatal_def)
  moreover obtain bufs where "evs = [EvSend 5 bufs]" "concat bufs = lan_frame [1, 2, 3, 4, 5, 6, 7, 8]" using A(1) by blast
  ultimately show ?thesis using s(1) y(2) by (intro exI[of _ s] exI[of _ y] exI[of _ bufs]) simp
qed

text \<open>
  C39. In every reachable state of the single-file echo server, whatever the system calls return, no lock is held, the
  map finds exactly the live sessions under their ids, every posted operation belongs to a live session, and the count
  of a session is the number of its operations that have been posted and have not completed, which is not zero: a call
  that is refused because the connection has been reset gives its reference back.
\<close>
theorem iocp_counts_pending:
  assumes "iocp_mem env" and "iocp_reach env R S s"
  shows "io_lock s = SrwFree \<and>
    (\<forall>sid p. io_sessionMap s sid = Some p \<longleftrightarrow> (\<exists>x. io_heap s p = Some x \<and> es_sessionID x = sid)) \<and>
    R \<union> S = dom (io_heap s) \<and>
    (\<forall>p. pred_option (\<lambda>x. es_cs x = 0 \<and> es_ioCount x = of_bool (p \<in> R) + of_bool (p \<in> S) \<and> es_ioCount x \<noteq> 0) (io_heap s p))"
proof -
  have inv: "iocp_inv R S s" by (rule iocp_reach_inv[OF assms])
  have "p \<in> R \<union> S \<longleftrightarrow> io_heap s p \<noteq> None" for p using inv unfolding iocp_inv_def by blast
  then have "R \<union> S = dom (io_heap s)" by blast
  moreover have "pred_option (\<lambda>x. es_cs x = 0 \<and> es_ioCount x = of_bool (p \<in> R) + of_bool (p \<in> S) \<and> es_ioCount x \<noteq> 0) (io_heap s p)" for p
    using iocp_invD(2,3)[OF inv] iocp_count(1)[OF inv] by (cases "io_heap s p") auto
  ultimately show ?thesis using inv by (simp add: iocp_inv_def iocp_wf_def)
qed

theorem iocp_counts_pending_witness:
  "\<exists>s. iocp_reach (sample_iocp_env WSAECONNRESET) {0x1000} {} s \<and> dom (io_heap s) = {0x1000} \<and>
    pred_option (\<lambda>x. es_ioCount x = 1) (io_heap s 0x1000)"
proof -
  obtain s where s: "iocp_reach (sample_iocp_env WSAECONNRESET) {0x1000} {} s" using sample_reset by blast
  note P = iocp_counts_pending[OF sample_iocp_mem s]
  then have "pred_option (\<lambda>x. es_ioCount x = 1) (io_heap s 0x1000)"
    by (cases "io_heap s 0x1000") (auto dest: spec[of _ "0x1000"])
  with s P show ?thesis by auto
qed

text \<open>
  C40. In every reachable state, whatever the system calls return, a completed send of the single-file echo server removes
  what was sent and sends what has been queued meanwhile. When the receive of the session has ended (the client is gone)
  and there is nothing more to send, or the next \<open>WSASend\<close> finds the connection reset, \<open>SendProc\<close> deletes the session and
  the worker then leaves the critical section of the deleted session; an error of the \<open>WSASend\<close> other than a reset stops in
  the debugger; in every other case the completion is handled without a fault.
\<close>
theorem iocp_last_send_breaks:
  assumes mem: "iocp_mem env" and s: "iocp_reach env R S s" "p \<in> S" "io_heap s p = Some x" and n: "0 < n" "n < 2 ^ 31"
  shows "\<exists>bufs. concat bufs = drop n (ring_contents (es_sendQ x)) \<and>
    (let c = ie_wsa env (io_trace s) (EvSend (es_sock x) bufs); more = n < length (ring_contents (es_sendQ x)) in
     if more \<and> iocp_fatal c then Iocp_Worker_step env (iocp_done p SEND n) s = Inl DebugBreak
     else if p \<notin> R \<and> \<not> (more \<and> iocp_posted c) then Iocp_Worker_step env (iocp_done p SEND n) s = Inl BadPointer
     else \<exists>s' y. Iocp_Worker_step env (iocp_done p SEND n) s = Inr (s', True) \<and> io_heap s' = (io_heap s)(p \<mapsto> y) \<and>
       ring_contents (es_sendQ y) = drop n (ring_contents (es_sendQ x)) \<and>
       es_ioCount y = es_ioCount x - of_bool (\<not> (more \<and> iocp_posted c)) \<and>
       io_trace s' = io_trace s @ (if more then [EvSend (es_sock x) bufs] else []))"
proof -
  have inv: "iocp_inv R S s" by (rule iocp_reach_inv[OF mem s(1)])
  define q where "q = fst (RingBuffer_MoveFront (es_sendQ x) (int n))"
  have "ring_inv (es_sendQ x)" using iocp_wfD(4)[OF iocp_invD(1)[OF inv s(3)] s(3)] by (simp add: echo_ok_def)
  then have q: "ring_contents q = drop n (ring_contents (es_sendQ x))"
    using MoveFront_drop(1)[of "es_sendQ x" "int n"] by (simp add: q_def)
  then have more: "n < length (ring_contents (es_sendQ x)) \<longleftrightarrow> ring_contents q \<noteq> []"
    by (simp add: not_le del: length_ring_contents)
  have c: "p \<notin> R \<longleftrightarrow> es_ioCount x = 1" using iocp_count(2)[OF inv s(3)] s(2) by simp
  obtain bufs where E: "concat bufs = ring_contents q"
    "Iocp_Worker_step env (iocp_done p SEND n) s = iocp_send_result env p x q bufs s"
    using Iocp_Worker_send_ok[OF inv s(3) n, folded q_def] by blast
  show ?thesis unfolding more c q[symmetric] E(2)
    by (intro exI[of _ bufs] conjI E(1)) (auto simp: iocp_send_result_def Let_def)
qed

theorem iocp_last_send_breaks_witness:
  "\<exists>s. iocp_reach (sample_iocp_env 0) {} {0x1000} s \<and> Iocp_Worker_step (sample_iocp_env 0) (iocp_done 0x1000 SEND 10) s = Inl BadPointer"
proof -
  obtain s y where s: "iocp_reach (sample_iocp_env 0) {} {0x1000} s" "io_heap s 0x1000 = Some y"
    "ring_contents (es_sendQ y) = lan_frame [1, 2, 3, 4, 5, 6, 7, 8]" using sample_closed by blast
  have len: "length (ring_contents (es_sendQ y)) = 10" unfolding s(3) by (simp add: lan_frame_def)
  have in_S: "(0x1000 :: u64) \<in> {0x1000}" by simp
  from iocp_last_send_breaks[OF sample_iocp_mem s(1) in_S s(2), of 10] s(1) show ?thesis unfolding len by auto
qed

end
