(* ===== verification/SessionSteps.thy ===== *)
theory SessionSteps
  imports NetServer Threads
begin

text \<open>
  One slot of \<open>m_sessions\<close> under any interleaving of threads: \<open>SendPacket\<close>, \<open>Disconnect\<close>, the completions of
  \<open>WSARecv\<close> and \<open>WSASend\<close>, \<open>ReleaseSession\<close> and the accept thread, one access to shared memory per step. The
  send queue is what \<open>LockFreeQueue\<close> is shown to be: a list whose size is counted up after the value is linked and
  counted down before one is taken. A callback that sends while its caller works on the session is a thread
  of its own.
\<close>

section \<open>State\<close>

text \<open>
  \<open>sl_recv\<close> and \<open>sl_send\<close> are the numbers of \<open>WSARecv\<close> and \<open>WSASend\<close> calls that have not completed, \<open>sl_stacked\<close> how often
  the index is in \<open>m_indexStack\<close>. \<open>sl_dead\<close> is a history variable: how many sends of this connection have failed.
\<close>

record slot =
  sl_ioCount :: u32
  sl_sessionID :: u64
  sl_isSending :: bool
  sl_sendQ :: "u64 list"
  sl_size :: int
  sl_packets :: "nat \<Rightarrow> u64"
  sl_sendingCount :: nat
  sl_recv :: nat
  sl_send :: nat
  sl_stacked :: nat
  sl_dead :: nat

definition slot_init :: slot where
  "slot_init = \<lparr>sl_ioCount = RELEASE_FLAG, sl_sessionID = 0, sl_isSending = False, sl_sendQ = [], sl_size = 0,
     sl_packets = (\<lambda>_. 0), sl_sendingCount = 0, sl_recv = 0, sl_send = 0, sl_stacked = 1, sl_dead = 0\<rparr>"

definition slot_released :: "slot \<Rightarrow> bool" where
  "slot_released s \<longleftrightarrow> sl_ioCount s AND RELEASE_FLAG \<noteq> 0"

definition in_array :: "slot \<Rightarrow> nat \<Rightarrow> u64 list" where
  "in_array s n = map (sl_packets s) [0..<n]"

text \<open>
  Where a thread stands, before the access named. \<open>AcqInc\<close> and \<open>AcqId\<close> are in \<open>AcquireSession\<close>; \<open>DoClose\<close> is in
  \<open>Disconnect\<close>; \<open>EnqLink\<close> and \<open>EnqSize\<close> are in \<open>Enqueue\<close>; \<open>PostSet\<close> to \<open>PostCall\<close> are in \<open>SendPost\<close>, with \<open>TakeDec\<close>,
  \<open>TakeNode\<close> and \<open>TakeUndo\<close> in its \<open>Dequeue\<close>, the number being \<open>count\<close>. \<open>DropRef\<close> counts \<open>ioCount\<close> down, \<open>RelCas\<close> to \<open>RelPush\<close>
  are in \<open>ReleaseSession\<close>; the flag says that the caller holds and then drops another reference. \<open>RecvWork\<close> is in
  \<open>RecvProc\<close>, \<open>RecvCall\<close> in \<open>RecvPost\<close>, \<open>SentFree\<close> and \<open>SentClear\<close> in \<open>SendProc\<close>. \<open>AccAsk\<close> to \<open>AccCall\<close> are in the accept
  thread: before \<open>OnConnectionRequest\<close>, in \<open>Init\<close>, and at its three changes of \<open>ioCount\<close> and its \<open>WSARecv\<close>.
\<close>

datatype slot_user = Sends u64 | Closes

datatype slot_pc = Idle
  | AcqInc slot_user u64 | AcqId slot_user u64 | DoClose u64 | EnqLink u64 u64 | EnqSize u64
  | PostSet | PostSize | PostClear | PostRecheck | TakeDec nat | TakeNode nat | TakeUndo nat
  | PostCount nat | PostInc | PostCall
  | DropRef bool | RelCas bool | RelFree bool | RelDec bool | RelNode bool | RelUndo bool | RelEnd bool | RelPush bool
  | RecvWork | RecvCall | SentFree | SentClear
  | AccAsk u64 | AccInit u64 | AccId u64 | AccInc | AccAnd | AccAgain | AccCall

datatype slot_event = Silent | Opened u64 | Queued u64 u64 | Posted "u64 list" | Freed "u64 list" | Shut | Ended u64

text \<open>What an idle thread begins: a call, an operation that completes (the flag is its success), or an accepted
  client, to whom the accept thread gives the id.\<close>

datatype slot_call = CallSend u64 u64 | CallDisconnect u64 | CompleteRecv bool | CompleteSend bool | CallAccept u64

section \<open>Steps\<close>

fun slot_start :: "slot_call \<Rightarrow> slot \<Rightarrow> (slot_pc \<times> slot) option" where
  "slot_start (CallSend sid p) s = Some (AcqInc (Sends p) sid, s)"
| "slot_start (CallDisconnect sid) s = Some (AcqInc Closes sid, s)"
| "slot_start (CompleteRecv ok) s =
     (if 0 < sl_recv s then Some (if ok then RecvWork else DropRef False, s\<lparr>sl_recv := sl_recv s - 1\<rparr>) else None)"
| "slot_start (CompleteSend ok) s =
     (if 0 < sl_send s
      then Some (if ok then SentFree else DropRef False,
        s\<lparr>sl_send := sl_send s - 1, sl_dead := sl_dead s + (if ok then 0 else 1)\<rparr>) else None)"
| "slot_start (CallAccept sid) s = (if 0 < sl_stacked s then Some (AccAsk sid, s\<lparr>sl_stacked := sl_stacked s - 1\<rparr>) else None)"

fun Acquire_step :: "slot_pc \<Rightarrow> slot \<Rightarrow> (slot_pc \<times> slot \<times> slot_event) option" where
  "Acquire_step (AcqInc u sid) s =
     (let n = sl_ioCount s + 1 in
      Some (if n AND RELEASE_FLAG \<noteq> 0 then DropRef False else AcqId u sid, s\<lparr>sl_ioCount := n\<rparr>, Silent))"
| "Acquire_step (AcqId u sid) s =
     Some (if sl_sessionID s \<noteq> sid then DropRef False
           else case u of Sends p \<Rightarrow> EnqLink p sid | Closes \<Rightarrow> DoClose sid, s, Silent)"
| "Acquire_step _ s = None"

fun Client_step :: "slot_pc \<Rightarrow> slot \<Rightarrow> (slot_pc \<times> slot \<times> slot_event) option" where
  "Client_step (DoClose sid) s = Some (DropRef False, s, Silent)"
| "Client_step (EnqLink p sid) s = Some (EnqSize sid, s\<lparr>sl_sendQ := sl_sendQ s @ [p]\<rparr>, Queued sid p)"
| "Client_step (EnqSize sid) s = Some (PostSet, s\<lparr>sl_size := sl_size s + 1\<rparr>, Silent)"
| "Client_step _ s = None"

text \<open>The flag is the outcome of \<open>WSASend\<close>: it succeeds (or is pending), or the connection has been reset.\<close>

fun SendPost_step :: "bool \<Rightarrow> slot_pc \<Rightarrow> slot \<Rightarrow> (slot_pc \<times> slot \<times> slot_event) option" where
  "SendPost_step ok PostSet s = Some (if sl_isSending s then DropRef False else PostSize, s\<lparr>sl_isSending := True\<rparr>, Silent)"
| "SendPost_step ok PostSize s = Some (if sl_size s > 0 then TakeDec 0 else PostClear, s, Silent)"
| "SendPost_step ok PostClear s = Some (PostRecheck, s\<lparr>sl_isSending := False\<rparr>, Silent)"
| "SendPost_step ok PostRecheck s = Some (if sl_size s = 0 then DropRef False else PostSet, s, Silent)"
| "SendPost_step ok (TakeDec k) s =
     Some (if sl_size s - 1 < 0 then TakeUndo k else TakeNode k, s\<lparr>sl_size := sl_size s - 1\<rparr>, Silent)"
| "SendPost_step ok (TakeUndo k) s = Some (PostCount k, s\<lparr>sl_size := sl_size s + 1\<rparr>, Silent)"
| "SendPost_step ok (TakeNode k) s =
     (case sl_sendQ s of [] \<Rightarrow> None
      | p # ps \<Rightarrow> Some (if k + 1 < MAX_SEND_PACKET then TakeDec (k + 1) else PostCount (k + 1),
          s\<lparr>sl_sendQ := ps, sl_packets := (sl_packets s)(k := p)\<rparr>, Silent))"
| "SendPost_step ok (PostCount k) s = Some (PostInc, s\<lparr>sl_sendingCount := k\<rparr>, Silent)"
| "SendPost_step ok PostInc s = Some (PostCall, s\<lparr>sl_ioCount := sl_ioCount s + 1\<rparr>, Silent)"
| "SendPost_step ok PostCall s =
     Some (if ok then DropRef False else DropRef True,
       if ok then s\<lparr>sl_send := sl_send s + 1\<rparr> else s\<lparr>sl_dead := sl_dead s + 1\<rparr>, Posted (in_array s (sl_sendingCount s)))"
| "SendPost_step ok _ s = None"

fun Release_step :: "slot_pc \<Rightarrow> slot \<Rightarrow> (slot_pc \<times> slot \<times> slot_event) option" where
  "Release_step (DropRef b) s =
     (let n = sl_ioCount s - 1 in
      Some (if n = 0 then RelCas b else if b then DropRef False else Idle, s\<lparr>sl_ioCount := n\<rparr>, Silent))"
| "Release_step (RelCas b) s =
     (let z = sl_ioCount s = 0 in
      Some (if z then RelFree b else if b then DropRef False else Idle, if z then s\<lparr>sl_ioCount := RELEASE_FLAG\<rparr> else s,
        if z then Shut else Silent))"
| "Release_step (RelFree b) s = Some (RelDec b, s\<lparr>sl_sendingCount := 0\<rparr>, Freed (in_array s (sl_sendingCount s)))"
| "Release_step (RelDec b) s =
     Some (if sl_size s - 1 < 0 then RelUndo b else RelNode b, s\<lparr>sl_size := sl_size s - 1\<rparr>, Silent)"
| "Release_step (RelUndo b) s = Some (RelEnd b, s\<lparr>sl_size := sl_size s + 1\<rparr>, Silent)"
| "Release_step (RelNode b) s =
     (case sl_sendQ s of [] \<Rightarrow> None | p # ps \<Rightarrow> Some (RelDec b, s\<lparr>sl_sendQ := ps\<rparr>, Freed [p]))"
| "Release_step (RelEnd b) s = Some (RelPush b, s, Ended (sl_sessionID s))"
| "Release_step (RelPush b) s = Some (if b then DropRef False else Idle, s\<lparr>sl_stacked := sl_stacked s + 1\<rparr>, Silent)"
| "Release_step _ s = None"

text \<open>The flag says that the frames are good in \<open>RecvWork\<close>, and that \<open>WSARecv\<close> succeeds (or is pending).\<close>

fun Worker_slot_step :: "bool \<Rightarrow> slot_pc \<Rightarrow> slot \<Rightarrow> (slot_pc \<times> slot \<times> slot_event) option" where
  "Worker_slot_step ok RecvWork s = Some (if ok then RecvCall else DropRef False, s, Silent)"
| "Worker_slot_step ok RecvCall s = Some (if ok then Idle else DropRef False, if ok then s\<lparr>sl_recv := sl_recv s + 1\<rparr> else s, Silent)"
| "Worker_slot_step ok SentFree s = Some (SentClear, s\<lparr>sl_sendingCount := 0\<rparr>, Freed (in_array s (sl_sendingCount s)))"
| "Worker_slot_step ok SentClear s = Some (PostSet, s\<lparr>sl_isSending := False\<rparr>, Silent)"
| "Worker_slot_step ok _ s = None"

text \<open>The flag is the answer of \<open>OnConnectionRequest\<close>, or the outcome of the first \<open>WSARecv\<close>.\<close>

fun Accept_step :: "bool \<Rightarrow> slot_pc \<Rightarrow> slot \<Rightarrow> (slot_pc \<times> slot \<times> slot_event) option" where
  "Accept_step ok (AccAsk sid) s = Some (if ok then AccInit sid else Idle, if ok then s else s\<lparr>sl_stacked := sl_stacked s + 1\<rparr>, Silent)"
| "Accept_step ok (AccInit sid) s =
     Some (AccId sid, s\<lparr>sl_sendingCount := 0, sl_isSending := False, sl_dead := 0\<rparr>, Silent)"
| "Accept_step ok (AccId sid) s = Some (AccInc, s\<lparr>sl_sessionID := sid\<rparr>, Silent)"
| "Accept_step ok AccInc s = Some (AccAnd, s\<lparr>sl_ioCount := sl_ioCount s + 1\<rparr>, Silent)"
| "Accept_step ok AccAnd s =
     Some (AccAgain, s\<lparr>sl_ioCount := sl_ioCount s AND NOT RELEASE_FLAG\<rparr>, Opened (sl_sessionID s))"
| "Accept_step ok AccAgain s = Some (AccCall, s\<lparr>sl_ioCount := sl_ioCount s + 1\<rparr>, Silent)"
| "Accept_step ok AccCall s = Some (if ok then DropRef False else DropRef True, if ok then s\<lparr>sl_recv := sl_recv s + 1\<rparr> else s, Silent)"
| "Accept_step ok _ s = None"

type_synonym slot_conf = "slot \<times> (nat \<Rightarrow> slot_pc)"

inductive slot_step :: "slot_conf \<Rightarrow> nat \<times> slot_event \<Rightarrow> slot_conf \<Rightarrow> bool" where
  start: "L t = Idle \<Longrightarrow> slot_start c s = Some (pc, s') \<Longrightarrow> slot_step (s, L) (t, Silent) (s', L(t := pc))"
| acquire: "Acquire_step (L t) s = Some (pc, s', e) \<Longrightarrow> slot_step (s, L) (t, e) (s', L(t := pc))"
| client: "Client_step (L t) s = Some (pc, s', e) \<Longrightarrow> slot_step (s, L) (t, e) (s', L(t := pc))"
| post: "SendPost_step ok (L t) s = Some (pc, s', e) \<Longrightarrow> slot_step (s, L) (t, e) (s', L(t := pc))"
| release: "Release_step (L t) s = Some (pc, s', e) \<Longrightarrow> slot_step (s, L) (t, e) (s', L(t := pc))"
| worker: "Worker_slot_step ok (L t) s = Some (pc, s', e) \<Longrightarrow> slot_step (s, L) (t, e) (s', L(t := pc))"
| accept: "Accept_step ok (L t) s = Some (pc, s', e) \<Longrightarrow> slot_step (s, L) (t, e) (s', L(t := pc))"

section \<open>The abstract connection\<close>

text \<open>
  A slot carries one connection after the other. A connection has an id, the packets of a send that has been
  posted and those that wait, in order; a connection that is shut only frees what is left.
\<close>

datatype connection = NoConnection | Connected u64 "u64 list" "u64 list" | Closing u64 "u64 list"

fun connection_do :: "nat \<times> slot_event \<Rightarrow> connection \<Rightarrow> connection option" where
  "connection_do (t, Silent) c = Some c"
| "connection_do (t, Opened sid) c = (if c = NoConnection then Some (Connected sid [] []) else None)"
| "connection_do (t, Queued sid p) c =
     (case c of Connected sid' ps qs \<Rightarrow> if sid' = sid then Some (Connected sid ps (qs @ [p])) else None | _ \<Rightarrow> None)"
| "connection_do (t, Posted bs) c =
     (case c of Connected sid ps qs \<Rightarrow>
        if ps = [] \<and> bs \<noteq> [] \<and> length bs \<le> MAX_SEND_PACKET \<and> take (length bs) qs = bs
        then Some (Connected sid bs (drop (length bs) qs)) else None
      | _ \<Rightarrow> None)"
| "connection_do (t, Freed bs) c =
     (case c of Connected sid ps qs \<Rightarrow> if ps = bs then Some (Connected sid [] qs) else None
      | Closing sid ps \<Rightarrow> if take (length bs) ps = bs then Some (Closing sid (drop (length bs) ps)) else None
      | _ \<Rightarrow> None)"
| "connection_do (t, Shut) c = (case c of Connected sid ps qs \<Rightarrow> Some (Closing sid (ps @ qs)) | _ \<Rightarrow> None)"
| "connection_do (t, Ended sid) c = (if c = Closing sid [] then Some NoConnection else None)"

end
