(* ===== verification/SessionLife.thy ===== *)
theory SessionLife
  imports SessionSteps
begin

text \<open>
  The invariants of a session slot: what its count and its flags say about the threads that work on it.
\<close>

section \<open>The threads at work\<close>

text \<open>\<open>held_refs\<close> is the number of references in \<open>ioCount\<close> that a thread has to drop.\<close>

fun held_refs :: "slot_pc \<Rightarrow> nat" where
  "held_refs (DropRef b) = (if b then 2 else 1)"
| "held_refs (RelCas b) = of_bool b" | "held_refs (RelFree b) = of_bool b" | "held_refs (RelDec b) = of_bool b"
| "held_refs (RelNode b) = of_bool b" | "held_refs (RelUndo b) = of_bool b" | "held_refs (RelEnd b) = of_bool b"
| "held_refs (RelPush b) = of_bool b"
| "held_refs PostCall = 2" | "held_refs AccCall = 2"
| "held_refs Idle = 0" | "held_refs (AcqInc u sid) = 0" | "held_refs (AccAsk sid) = 0" | "held_refs (AccInit sid) = 0"
| "held_refs (AccId sid) = 0" | "held_refs AccInc = 0"
| "held_refs _ = 1"

text \<open>Threads that use the session, the thread that releases it, the thread that sets it up, and those that
  may touch its receive queue.\<close>

fun at_user :: "slot_pc \<Rightarrow> bool" where
  "at_user Idle = False" | "at_user (AcqInc u sid) = False" | "at_user (DropRef b) = b" | "at_user (RelCas b) = b"
| "at_user (RelFree b) = False" | "at_user (RelDec b) = False" | "at_user (RelNode b) = False"
| "at_user (RelUndo b) = False" | "at_user (RelEnd b) = False" | "at_user (RelPush b) = False"
| "at_user (AccAsk sid) = False" | "at_user (AccInit sid) = False" | "at_user (AccId sid) = False"
| "at_user AccInc = False" | "at_user AccAnd = False"
| "at_user _ = True"

fun at_release :: "slot_pc \<Rightarrow> bool" where
  "at_release (RelFree b) = True" | "at_release (RelDec b) = True" | "at_release (RelNode b) = True"
| "at_release (RelUndo b) = True" | "at_release (RelEnd b) = True" | "at_release (RelPush b) = True"
| "at_release _ = False"

fun at_setup :: "slot_pc \<Rightarrow> bool" where
  "at_setup (AccAsk sid) = True" | "at_setup (AccInit sid) = True" | "at_setup (AccId sid) = True"
| "at_setup AccInc = True" | "at_setup AccAnd = True" | "at_setup _ = False"

fun at_recvQ :: "slot_pc \<Rightarrow> bool" where
  "at_recvQ RecvWork = True" | "at_recvQ RecvCall = True" | "at_recvQ AccAgain = True" | "at_recvQ AccCall = True"
| "at_recvQ pc = at_setup pc"

abbreviation count_at :: "(slot_pc \<Rightarrow> bool) \<Rightarrow> (nat \<Rightarrow> slot_pc) \<Rightarrow> nat" where
  "count_at P L \<equiv> tally (\<lambda>pc. of_bool (P pc)) L"

definition busy :: "(nat \<Rightarrow> slot_pc) \<Rightarrow> nat set" where
  "busy L = {t. L t \<noteq> Idle}"

text \<open>Fewer than \<open>2 ^ 29\<close> threads are at work on the slot.\<close>

definition few_threads :: "slot_conf \<Rightarrow> nat \<Rightarrow> bool" where
  "few_threads c t \<longleftrightarrow> card (busy (snd c)) < 2 ^ 29"

lemma weighted_busy: "finite (busy L) \<Longrightarrow> f Idle = 0 \<Longrightarrow> weighted f L"
  unfolding weighted_def busy_def by (rule rev_finite_subset) auto

lemma busy_move: "finite (busy L) \<Longrightarrow> finite (busy (L(t := pc)))"
  unfolding busy_def by (rule rev_finite_subset[of "insert t {t. L t \<noteq> Idle}"]) auto

lemma held_refs_le: "held_refs pc \<le> 2"
  by (cases pc) auto

lemma tally_refs_bound:
  assumes "finite (busy L)"
  shows "tally held_refs L \<le> 2 * card (busy L)"
proof -
  have "tally held_refs L \<le> (\<Sum>t | held_refs (L t) \<noteq> 0. 2)"
    unfolding tally_def by (rule sum_mono) (rule held_refs_le)
  also have "\<dots> = 2 * card {t. held_refs (L t) \<noteq> 0}" by simp
  also have "card {t. held_refs (L t) \<noteq> 0} \<le> card (busy L)"
    using assms by (rule card_mono) (auto simp: busy_def)
  finally show ?thesis by simp
qed

fun at_sender :: "slot_pc \<Rightarrow> bool" where
  "at_sender PostSize = True" | "at_sender PostClear = True" | "at_sender (TakeDec k) = True" | "at_sender (TakeNode k) = True"
| "at_sender (TakeUndo k) = True" | "at_sender (PostCount k) = True" | "at_sender PostInc = True" | "at_sender PostCall = True"
| "at_sender SentFree = True" | "at_sender SentClear = True" | "at_sender _ = False"

section \<open>The count word\<close>

lemma flag_unat: "(w :: u32) AND RELEASE_FLAG \<noteq> 0 \<longleftrightarrow> 2 ^ 31 \<le> unat w"
proof -
  have "RELEASE_FLAG = 2 ^ 31" by (simp add: RELEASE_FLAG_def)
  then have "w AND RELEASE_FLAG \<noteq> 0 \<longleftrightarrow> bit w 31" using and_exp_eq_0_iff_not_bit[of w 31] by metis
  also have "\<dots> \<longleftrightarrow> bit (unat w) 31" by (simp add: bit_unsigned_iff)
  also have "\<dots> \<longleftrightarrow> odd (unat w div 2 ^ 31)" by (rule bit_iff_odd)
  also have "\<dots> \<longleftrightarrow> 2 ^ 31 \<le> unat w"
  proof -
    have lt: "unat w < 2 ^ 32" using unsigned_less[of w, where ?'a = nat] by simp
    show ?thesis
    proof (cases "2 ^ 31 \<le> unat w")
      case True
      then have "unat w div 2 ^ 31 = 1" using lt by (intro div_nat_eqI) simp_all
      with True show ?thesis by simp
    next
      case False
      then have "unat w div 2 ^ 31 = 0" by (intro div_less) simp
      with False show ?thesis by simp
    qed
  qed
  finally show ?thesis .
qed

lemma released_unat: "slot_released s \<longleftrightarrow> 2 ^ 31 \<le> unat (sl_ioCount s)"
  by (simp only: slot_released_def flag_unat)

lemma unat_inc32: "unat (w :: u32) < 2 ^ 32 - 1 \<Longrightarrow> unat (w + 1) = unat w + 1"
  by (simp add: unat_word_ariths)

lemma unat_dec32: "0 < unat (w :: u32) \<Longrightarrow> unat (w - 1) = unat w - 1"
  by (subst unat_sub) (auto simp: word_le_nat_alt)

lemma unat_clear32: "unat ((w :: u32) AND NOT RELEASE_FLAG) = unat w mod 2 ^ 31"
proof -
  have "(NOT RELEASE_FLAG :: u32) = mask 31" by (simp add: RELEASE_FLAG_def mask_eq_exp_minus_1)
  then have e: "w AND NOT RELEASE_FLAG = take_bit 31 w" by (simp add: take_bit_eq_mask)
  have "unat (take_bit 31 w) = take_bit 31 (unat w)" by (rule unsigned_take_bit_eq)
  then show ?thesis unfolding e by (simp only: take_bit_eq_mod[of 31 "unat w"])
qed

section \<open>The life of a connection\<close>

text \<open>
  \<open>H\<close> references are held by threads, \<open>U\<close> threads use the session, \<open>R\<close> release it, \<open>A\<close> set it up, \<open>Q\<close> have its receive
  queue and \<open>S\<close> own its sending flag. The flag in \<open>ioCount\<close> is set exactly when the slot is free, is being released
  or is being set up; then nobody uses it. The rest of \<open>ioCount\<close> is the number of references.
\<close>

definition life_ok :: "slot \<Rightarrow> nat \<Rightarrow> nat \<Rightarrow> nat \<Rightarrow> nat \<Rightarrow> nat \<Rightarrow> nat \<Rightarrow> bool" where
  "life_ok s H U R A Q S \<longleftrightarrow>
     unat (sl_ioCount s) = H + sl_recv s + sl_send s + (if slot_released s then 2 ^ 31 else 0) \<and>
     (slot_released s \<longrightarrow> U = 0 \<and> sl_recv s = 0 \<and> sl_send s = 0) \<and>
     sl_stacked s + (if slot_released s then 0 else 1) + R + A = 1 \<and>
     sl_recv s + Q \<le> 1 \<and>
     S + sl_send s + sl_dead s = of_bool (sl_isSending s)"

text \<open>What is known of the numbers when one thread stands at \<open>pc\<close>, and how they change when it moves on.\<close>

definition life_nums :: "nat \<Rightarrow> nat \<Rightarrow> nat \<Rightarrow> nat \<Rightarrow> nat \<Rightarrow> nat \<Rightarrow> slot_pc \<Rightarrow> bool" where
  "life_nums H U R A Q S pc \<longleftrightarrow> H < 2 ^ 30 \<and> U \<le> H \<and> Q \<le> U + A \<and> S \<le> U \<and> held_refs pc \<le> H \<and> of_bool (at_user pc) \<le> U \<and>
     of_bool (at_release pc) \<le> R \<and> of_bool (at_setup pc) \<le> A \<and> of_bool (at_recvQ pc) \<le> Q \<and> of_bool (at_sender pc) \<le> S"

definition life_moves :: "nat \<Rightarrow> nat \<Rightarrow> nat \<Rightarrow> nat \<Rightarrow> nat \<Rightarrow> nat \<Rightarrow> slot_pc \<Rightarrow> slot_pc \<Rightarrow> nat \<Rightarrow> nat \<Rightarrow> nat \<Rightarrow> nat \<Rightarrow> nat \<Rightarrow> nat \<Rightarrow> bool" where
  "life_moves H U R A Q S pc pc' H' U' R' A' Q' S' \<longleftrightarrow>
     H' + held_refs pc = H + held_refs pc' \<and> U' + of_bool (at_user pc) = U + of_bool (at_user pc') \<and>
     R' + of_bool (at_release pc) = R + of_bool (at_release pc') \<and> A' + of_bool (at_setup pc) = A + of_bool (at_setup pc') \<and>
     Q' + of_bool (at_recvQ pc) = Q + of_bool (at_recvQ pc') \<and> S' + of_bool (at_sender pc) = S + of_bool (at_sender pc')"

lemma life_free:
  assumes "life_ok s H U R A Q S" and "slot_released s"
  shows "U = 0" "sl_recv s = 0" "sl_send s = 0" "unat (sl_ioCount s) = H + 2 ^ 31" "Q \<le> 1"
    "sl_stacked s + R + A = 1" "S + sl_dead s = of_bool (sl_isSending s)"
  using assms by (simp_all add: life_ok_def)

lemma life_live:
  assumes "life_ok s H U R A Q S" and "\<not> slot_released s"
  shows "sl_stacked s = 0" "R = 0" "A = 0" "unat (sl_ioCount s) = H + sl_recv s + sl_send s"
    "sl_recv s + Q \<le> 1" "S + sl_send s + sl_dead s = of_bool (sl_isSending s)" "S + sl_send s + sl_dead s \<le> 1"
  using assms by (simp_all add: life_ok_def)

lemma life_freeI:
  assumes "unat (sl_ioCount s) = H + 2 ^ 31" "U = 0" "sl_recv s = 0" "sl_send s = 0" "Q \<le> 1"
    "sl_stacked s + R + A = 1" "S + sl_dead s = of_bool (sl_isSending s)"
  shows "life_ok s H U R A Q S"
  using assms by (simp add: life_ok_def released_unat)

lemma life_liveI:
  assumes "unat (sl_ioCount s) < 2 ^ 31" "sl_stacked s = 0" "R = 0" "A = 0" "unat (sl_ioCount s) = H + sl_recv s + sl_send s"
    "sl_recv s + Q \<le> 1" "S + sl_send s + sl_dead s = of_bool (sl_isSending s)"
  shows "life_ok s H U R A Q S"
  using assms by (simp add: life_ok_def released_unat)


lemma released_simps [simp]:
  "slot_released (s\<lparr>sl_sessionID := i\<rparr>) = slot_released s" "slot_released (s\<lparr>sl_isSending := b\<rparr>) = slot_released s"
  "slot_released (s\<lparr>sl_sendQ := q\<rparr>) = slot_released s" "slot_released (s\<lparr>sl_size := z\<rparr>) = slot_released s"
  "slot_released (s\<lparr>sl_packets := f\<rparr>) = slot_released s" "slot_released (s\<lparr>sl_sendingCount := n\<rparr>) = slot_released s"
  "slot_released (s\<lparr>sl_recv := n\<rparr>) = slot_released s" "slot_released (s\<lparr>sl_send := n\<rparr>) = slot_released s"
  "slot_released (s\<lparr>sl_stacked := n\<rparr>) = slot_released s" "slot_released (s\<lparr>sl_dead := n\<rparr>) = slot_released s"
  by (simp_all add: slot_released_def)

lemmas life_defs = life_nums_def life_moves_def

lemma life_inc:
  assumes "life_ok s H U R A Q S" "H < 2 ^ 30"
  shows "unat (sl_ioCount s + 1) = unat (sl_ioCount s) + 1"
proof (rule unat_inc32, cases "slot_released s")
  case True
  then show "unat (sl_ioCount s) < 2 ^ 32 - 1" using assms life_free(4)[OF assms(1)] by simp
next
  case False
  then have "sl_send s \<le> 1" using life_live(7)[OF assms(1)] by simp
  then show "unat (sl_ioCount s) < 2 ^ 32 - 1" using False assms life_live(4,5)[OF assms(1)] by simp
qed

lemma unat_dec_count: "0 < unat (sl_ioCount s) \<Longrightarrow> unat (sl_ioCount s - 1) = unat (sl_ioCount s) - 1"
  by (rule unat_dec32)

lemma free_pc: "life_ok s H U R A Q S \<Longrightarrow> life_nums H U R A Q S pc \<Longrightarrow> slot_released s \<Longrightarrow> \<not> at_user pc"
  using life_free(1)[of s H U R A Q S] by (simp add: life_nums_def)

lemma live_pc: "life_ok s H U R A Q S \<Longrightarrow> life_nums H U R A Q S pc \<Longrightarrow> \<not> slot_released s \<Longrightarrow> \<not> at_release pc \<and> \<not> at_setup pc"
  using life_live(2,3)[of s H U R A Q S] by (simp add: life_nums_def)

lemma flag_on: "unat (RELEASE_FLAG :: u32) = 2 ^ 31"
  by (simp add: RELEASE_FLAG_def)

lemma Acquire_life:
  assumes "life_ok s H U R A Q S" and "life_nums H U R A Q S pc" and "Acquire_step pc s = Some (pc', s', e)"
    and "life_moves H U R A Q S pc pc' H' U' R' A' Q' S'"
  shows "life_ok s' H' U' R' A' Q' S'"
proof (cases "slot_released s")
  case True
  show ?thesis
    by (cases "(pc, s)" rule: Acquire_step.cases; (use assms(3) free_pc[OF assms(1,2) True] in \<open>simp; fail\<close>)?;
        insert assms(2-4) life_free[OF assms(1) True] life_inc[OF assms(1)];
        simp split del: split_of_bool if_split add: life_defs Let_def flag_unat; clarify?; (simp split: if_splits slot_user.splits list.splits split del: split_of_bool add: life_ok_def released_unat)?; linarith?)
next
  case False
  show ?thesis
    by (cases "(pc, s)" rule: Acquire_step.cases; (use assms(3) live_pc[OF assms(1,2) False] in \<open>simp; fail\<close>)?;
        insert assms(2-4) life_live[OF assms(1) False] life_inc[OF assms(1)];
        simp split del: split_of_bool if_split add: life_defs Let_def flag_unat; clarify?; (simp split: if_splits slot_user.splits list.splits split del: split_of_bool add: life_ok_def released_unat)?; linarith?)
qed

lemma Client_life:
  assumes "life_ok s H U R A Q S" and "life_nums H U R A Q S pc" and "Client_step pc s = Some (pc', s', e)"
    and "life_moves H U R A Q S pc pc' H' U' R' A' Q' S'"
  shows "life_ok s' H' U' R' A' Q' S'"
proof (cases "slot_released s")
  case True
  show ?thesis
    by (cases "(pc, s)" rule: Client_step.cases; (use assms(3) free_pc[OF assms(1,2) True] in \<open>simp; fail\<close>)?;
        insert assms(2-4) life_free[OF assms(1) True] life_inc[OF assms(1)];
        simp split del: split_of_bool if_split add: life_defs Let_def flag_unat; clarify?; (simp split: if_splits slot_user.splits list.splits split del: split_of_bool add: life_ok_def released_unat)?; linarith?)
next
  case False
  show ?thesis
    by (cases "(pc, s)" rule: Client_step.cases; (use assms(3) live_pc[OF assms(1,2) False] in \<open>simp; fail\<close>)?;
        insert assms(2-4) life_live[OF assms(1) False] life_inc[OF assms(1)];
        simp split del: split_of_bool if_split add: life_defs Let_def flag_unat; clarify?; (simp split: if_splits slot_user.splits list.splits split del: split_of_bool add: life_ok_def released_unat)?; linarith?)
qed

lemma SendPost_life:
  assumes "life_ok s H U R A Q S" and "life_nums H U R A Q S pc" and "SendPost_step ok pc s = Some (pc', s', e)"
    and "life_moves H U R A Q S pc pc' H' U' R' A' Q' S'"
  shows "life_ok s' H' U' R' A' Q' S'"
proof (cases "slot_released s")
  case True
  show ?thesis
    by (cases "(ok, pc, s)" rule: SendPost_step.cases; (use assms(3) free_pc[OF assms(1,2) True] in \<open>simp; fail\<close>)?;
        insert assms(2-4) life_free[OF assms(1) True] life_inc[OF assms(1)];
        simp split del: split_of_bool if_split split: list.splits add: life_defs Let_def; clarify?; (simp split: if_splits slot_user.splits list.splits split del: split_of_bool add: life_ok_def released_unat)?; linarith?)
next
  case False
  show ?thesis
    by (cases "(ok, pc, s)" rule: SendPost_step.cases; (use assms(3) live_pc[OF assms(1,2) False] in \<open>simp; fail\<close>)?;
        insert assms(2-4) life_live[OF assms(1) False] life_inc[OF assms(1)];
        simp split del: split_of_bool if_split split: list.splits add: life_defs Let_def; clarify?; (simp split: if_splits slot_user.splits list.splits split del: split_of_bool add: life_ok_def released_unat)?; linarith?)
qed

lemma Worker_life:
  assumes "life_ok s H U R A Q S" and "life_nums H U R A Q S pc" and "Worker_slot_step ok pc s = Some (pc', s', e)"
    and "life_moves H U R A Q S pc pc' H' U' R' A' Q' S'"
  shows "life_ok s' H' U' R' A' Q' S'"
proof (cases "slot_released s")
  case True
  show ?thesis
    by (cases "(ok, pc, s)" rule: Worker_slot_step.cases; (use assms(3) free_pc[OF assms(1,2) True] in \<open>simp; fail\<close>)?;
        insert assms(2-4) life_free[OF assms(1) True];
        simp split del: split_of_bool if_split add: life_defs Let_def; clarify?; (simp split: if_splits list.splits split del: split_of_bool add: life_ok_def released_unat)?; linarith?)
next
  case False
  show ?thesis
    by (cases "(ok, pc, s)" rule: Worker_slot_step.cases; (use assms(3) live_pc[OF assms(1,2) False] in \<open>simp; fail\<close>)?;
        insert assms(2-4) life_live[OF assms(1) False];
        simp split del: split_of_bool if_split add: life_defs Let_def; clarify?; (simp split: if_splits list.splits split del: split_of_bool add: life_ok_def released_unat)?; linarith?)
qed

lemma Release_life:
  assumes "life_ok s H U R A Q S" and "life_nums H U R A Q S pc" and "Release_step pc s = Some (pc', s', e)"
    and "life_moves H U R A Q S pc pc' H' U' R' A' Q' S'"
  shows "life_ok s' H' U' R' A' Q' S'"
proof (cases "slot_released s")
  case True
  show ?thesis
    by (cases "(pc, s)" rule: Release_step.cases; (use assms(3) free_pc[OF assms(1,2) True] in \<open>simp; fail\<close>)?;
        insert assms(2-4) life_free[OF assms(1) True] unat_dec_count[of s];
        simp split del: split_of_bool if_split split: list.splits add: life_defs Let_def; clarify?; (simp split: if_splits split del: split_of_bool add: life_ok_def released_unat)?; linarith?)
next
  case False
  show ?thesis
    by (cases "(pc, s)" rule: Release_step.cases; (use assms(3) live_pc[OF assms(1,2) False] in \<open>simp; fail\<close>)?; cases "sl_ioCount s = 0"; 
        insert assms(2-4) life_live[OF assms(1) False] unat_dec_count[of s];
        simp split del: split_of_bool if_split split: list.splits add: life_defs Let_def; clarify?; (simp split: if_splits split del: split_of_bool add: life_ok_def released_unat flag_on unat_clear32)?; linarith?)
qed

lemma Accept_life:
  assumes "life_ok s H U R A Q S" and "life_nums H U R A Q S pc" and "Accept_step ok pc s = Some (pc', s', e)"
    and "life_moves H U R A Q S pc pc' H' U' R' A' Q' S'"
  shows "life_ok s' H' U' R' A' Q' S'"
proof (cases "slot_released s")
  case True
  show ?thesis
    by (cases "(ok, pc, s)" rule: Accept_step.cases; (use assms(3) free_pc[OF assms(1,2) True] in \<open>simp; fail\<close>)?;
        insert assms(2-4) life_free[OF assms(1) True] life_inc[OF assms(1)];
        simp split del: split_of_bool if_split add: life_defs Let_def unat_clear32; clarify?; (simp split: if_splits list.splits split del: split_of_bool add: life_ok_def released_unat flag_on unat_clear32)?; linarith?)
next
  case False
  show ?thesis
    by (cases "(ok, pc, s)" rule: Accept_step.cases; (use assms(3) live_pc[OF assms(1,2) False] in \<open>simp; fail\<close>)?;
        insert assms(2-4) life_live[OF assms(1) False] life_inc[OF assms(1)];
        simp split del: split_of_bool if_split add: life_defs Let_def unat_clear32; clarify?; (simp split: if_splits list.splits split del: split_of_bool add: life_ok_def released_unat)?; linarith?)
qed

lemma start_life:
  assumes "life_ok s H U R A Q S" and "life_nums H U R A Q S Idle" and "slot_start c s = Some (pc', s')"
    and "life_moves H U R A Q S Idle pc' H' U' R' A' Q' S'"
  shows "life_ok s' H' U' R' A' Q' S'"
proof (cases "slot_released s")
  case True
  show ?thesis
    by (cases "(c, s)" rule: slot_start.cases; 
        insert assms(2-4) life_free[OF assms(1) True];
        simp split del: split_of_bool split: if_splits add: life_defs; clarify?; (simp split del: split_of_bool add: life_ok_def released_unat)?; linarith?)
next
  case False
  show ?thesis
    by (cases "(c, s)" rule: slot_start.cases; 
        insert assms(2-4) life_live[OF assms(1) False];
        simp split del: split_of_bool split: if_splits add: life_defs; clarify?; (simp split del: split_of_bool add: life_ok_def released_unat)?; linarith?)
qed

end
