(* ===== verification/SessionQueue.thy ===== *)
theory SessionQueue
  imports SessionLife
begin

text \<open>
  The send queue and the array of a session slot: how many packets they hold and who may take them.
\<close>

section \<open>The size of the queue\<close>

fun at_count :: "slot_pc \<Rightarrow> bool" where
  "at_count (EnqSize sid) = True" | "at_count _ = False"

fun at_node :: "slot_pc \<Rightarrow> bool" where
  "at_node (TakeNode k) = True" | "at_node (RelNode b) = True" | "at_node _ = False"

fun at_undo :: "slot_pc \<Rightarrow> bool" where
  "at_undo (TakeUndo k) = True" | "at_undo (RelUndo b) = True" | "at_undo _ = False"

fun at_first :: "slot_pc \<Rightarrow> bool" where
  "at_first (TakeDec k) = (k = 0)" | "at_first _ = False"

fun at_drain :: "slot_pc \<Rightarrow> bool" where
  "at_drain (RelFree b) = True" | "at_drain (RelDec b) = True" | "at_drain (RelNode b) = True" | "at_drain _ = False"

fun at_wake :: "slot_pc \<Rightarrow> bool" where
  "at_wake PostSet = True" | "at_wake PostRecheck = True" | "at_wake _ = False"

text \<open>
  \<open>E\<close> values are linked and not counted, \<open>N\<close> counted off and not taken, and \<open>D\<close> attempts are to be undone; \<open>Z\<close> threads
  are about to take the first packet of a send, \<open>C\<close> drain the queue, and \<open>W\<close> will look at it again.
\<close>

definition size_ok :: "slot \<Rightarrow> nat \<Rightarrow> nat \<Rightarrow> nat \<Rightarrow> nat \<Rightarrow> nat \<Rightarrow> nat \<Rightarrow> bool" where
  "size_ok s E N D Z C W \<longleftrightarrow>
     int (length (sl_sendQ s)) = sl_size s + int E + int N + int D \<and>
     0 \<le> sl_size s + int D \<and>
     (0 < Z \<longrightarrow> 0 < sl_size s) \<and>
     (slot_released s \<longrightarrow> sl_size s + int N + int D \<le> 0 \<or> 0 < C) \<and>
     (\<not> slot_released s \<longrightarrow> sl_isSending s \<or> sl_size s \<le> 0 \<or> 0 < W)"

definition size_nums :: "nat \<Rightarrow> nat \<Rightarrow> nat \<Rightarrow> nat \<Rightarrow> nat \<Rightarrow> nat \<Rightarrow> nat \<Rightarrow> nat \<Rightarrow> slot_pc \<Rightarrow> bool" where
  "size_nums U R S E N D Z C pc \<longleftrightarrow> E \<le> U \<and> C + of_bool (at_release pc) \<le> R + of_bool (at_drain pc) \<and> Z + of_bool (at_sender pc) \<le> S + of_bool (at_first pc) \<and>
     N + D + of_bool (at_sender pc) + of_bool (at_release pc) \<le> S + R + of_bool (at_node pc) + of_bool (at_undo pc) \<and>
     of_bool (at_count pc) \<le> E \<and> of_bool (at_node pc) \<le> N \<and> of_bool (at_undo pc) \<le> D \<and> of_bool (at_first pc) \<le> Z \<and>
     of_bool (at_drain pc) \<le> C"

definition size_moves :: "nat \<Rightarrow> nat \<Rightarrow> nat \<Rightarrow> nat \<Rightarrow> nat \<Rightarrow> nat \<Rightarrow> slot_pc \<Rightarrow> slot_pc \<Rightarrow> nat \<Rightarrow> nat \<Rightarrow> nat \<Rightarrow> nat \<Rightarrow> nat \<Rightarrow> nat \<Rightarrow> bool" where
  "size_moves E N D Z C W pc pc' E' N' D' Z' C' W' \<longleftrightarrow>
     E' + of_bool (at_count pc) = E + of_bool (at_count pc') \<and> N' + of_bool (at_node pc) = N + of_bool (at_node pc') \<and>
     D' + of_bool (at_undo pc) = D + of_bool (at_undo pc') \<and> Z' + of_bool (at_first pc) = Z + of_bool (at_first pc') \<and>
     C' + of_bool (at_drain pc) = C + of_bool (at_drain pc') \<and> W' + of_bool (at_wake pc) = W + of_bool (at_wake pc')"

lemmas size_defs = life_nums_def size_nums_def size_moves_def

lemma Acquire_size:
  assumes "size_ok s E N D Z C W" and "life_ok s H U R A Q S" and "life_nums H U R A Q S pc" and "size_nums U R S E N D Z C pc"
    and "Acquire_step pc s = Some (pc', s', e)" and "size_moves E N D Z C W pc pc' E' N' D' Z' C' W'"
  shows "size_ok s' E' N' D' Z' C' W'"
proof (cases "slot_released s")
  case True
  show ?thesis
    by (cases "(pc, s)" rule: Acquire_step.cases; (use assms(5) free_pc[OF assms(2,3) True] in \<open>simp; fail\<close>)?;
        insert assms(1,3-6) True life_free[OF assms(2) True] life_inc[OF assms(2)];
        simp split del: split_of_bool if_split split: slot_user.splits list.splits add: size_defs size_ok_def Let_def flag_unat; clarify?;
        (simp split: if_splits split del: split_of_bool add: released_unat flag_on unat_clear32)?; (intro conjI impI)?; (linarith | force)?)
next
  case False
  show ?thesis
    by (cases "(pc, s)" rule: Acquire_step.cases; (use assms(5) live_pc[OF assms(2,3) False] in \<open>simp; fail\<close>)?;
        insert assms(1,3-6) False life_live[OF assms(2) False] life_inc[OF assms(2)];
        simp split del: split_of_bool if_split split: slot_user.splits list.splits add: size_defs size_ok_def Let_def flag_unat; clarify?;
        (simp split: if_splits split del: split_of_bool add: released_unat flag_on unat_clear32)?; (intro conjI impI)?; (linarith | force)?)
qed

lemma Client_size:
  assumes "size_ok s E N D Z C W" and "life_ok s H U R A Q S" and "life_nums H U R A Q S pc" and "size_nums U R S E N D Z C pc"
    and "Client_step pc s = Some (pc', s', e)" and "size_moves E N D Z C W pc pc' E' N' D' Z' C' W'"
  shows "size_ok s' E' N' D' Z' C' W'"
proof (cases "slot_released s")
  case True
  show ?thesis
    by (cases "(pc, s)" rule: Client_step.cases; (use assms(5) free_pc[OF assms(2,3) True] in \<open>simp; fail\<close>)?;
        insert assms(1,3-6) True life_free[OF assms(2) True] life_inc[OF assms(2)];
        simp split del: split_of_bool if_split split: slot_user.splits list.splits add: size_defs size_ok_def Let_def flag_unat; clarify?;
        (simp split: if_splits split del: split_of_bool add: released_unat flag_on unat_clear32)?; (intro conjI impI)?; (linarith | force)?)
next
  case False
  show ?thesis
    by (cases "(pc, s)" rule: Client_step.cases; (use assms(5) live_pc[OF assms(2,3) False] in \<open>simp; fail\<close>)?;
        insert assms(1,3-6) False life_live[OF assms(2) False] life_inc[OF assms(2)];
        simp split del: split_of_bool if_split split: slot_user.splits list.splits add: size_defs size_ok_def Let_def flag_unat; clarify?;
        (simp split: if_splits split del: split_of_bool add: released_unat flag_on unat_clear32)?; (intro conjI impI)?; (linarith | force)?)
qed

lemma SendPost_size:
  assumes "size_ok s E N D Z C W" and "life_ok s H U R A Q S" and "life_nums H U R A Q S pc" and "size_nums U R S E N D Z C pc"
    and "SendPost_step ok pc s = Some (pc', s', e)" and "size_moves E N D Z C W pc pc' E' N' D' Z' C' W'"
  shows "size_ok s' E' N' D' Z' C' W'"
proof (cases "slot_released s")
  case True
  show ?thesis
    by (cases "(ok, pc, s)" rule: SendPost_step.cases; (use assms(5) free_pc[OF assms(2,3) True] in \<open>simp; fail\<close>)?;
        insert assms(1,3-6) True life_free[OF assms(2) True] life_inc[OF assms(2)];
        simp split del: split_of_bool if_split split: slot_user.splits list.splits add: size_defs size_ok_def Let_def; clarify?;
        (simp split: if_splits split del: split_of_bool add: released_unat flag_on unat_clear32)?; (intro conjI impI)?; (linarith | force)?)
next
  case False
  show ?thesis
    by (cases "(ok, pc, s)" rule: SendPost_step.cases; (use assms(5) live_pc[OF assms(2,3) False] in \<open>simp; fail\<close>)?;
        insert assms(1,3-6) False life_live[OF assms(2) False] life_inc[OF assms(2)];
        simp split del: split_of_bool if_split split: slot_user.splits list.splits add: size_defs size_ok_def Let_def; clarify?;
        (simp split: if_splits split del: split_of_bool add: released_unat flag_on unat_clear32)?; (intro conjI impI)?; (linarith | force)?)
qed

lemma Release_size:
  assumes "size_ok s E N D Z C W" and "life_ok s H U R A Q S" and "life_nums H U R A Q S pc" and "size_nums U R S E N D Z C pc"
    and "Release_step pc s = Some (pc', s', e)" and "size_moves E N D Z C W pc pc' E' N' D' Z' C' W'"
  shows "size_ok s' E' N' D' Z' C' W'"
proof (cases "slot_released s")
  case True
  show ?thesis
    by (cases "(pc, s)" rule: Release_step.cases; (use assms(5) free_pc[OF assms(2,3) True] in \<open>simp; fail\<close>)?;
        insert assms(1,3-6) True life_free[OF assms(2) True] unat_dec_count[of s];
        simp split del: split_of_bool if_split split: slot_user.splits list.splits add: size_defs size_ok_def Let_def flag_on; clarify?;
        (simp split: if_splits split del: split_of_bool add: released_unat flag_on unat_clear32)?; (intro conjI impI)?; (linarith | force)?)
next
  case False
  show ?thesis
    by (cases "(pc, s)" rule: Release_step.cases; (use assms(5) live_pc[OF assms(2,3) False] in \<open>simp; fail\<close>)?; cases "sl_ioCount s = 0";
        insert assms(1,3-6) False life_live[OF assms(2) False] unat_dec_count[of s];
        simp split del: split_of_bool if_split split: slot_user.splits list.splits add: size_defs size_ok_def Let_def flag_on; clarify?;
        (simp split: if_splits split del: split_of_bool add: released_unat flag_on unat_clear32)?; (intro conjI impI)?; (linarith | force)?)
qed

lemma Worker_size:
  assumes "size_ok s E N D Z C W" and "life_ok s H U R A Q S" and "life_nums H U R A Q S pc" and "size_nums U R S E N D Z C pc"
    and "Worker_slot_step ok pc s = Some (pc', s', e)" and "size_moves E N D Z C W pc pc' E' N' D' Z' C' W'"
  shows "size_ok s' E' N' D' Z' C' W'"
proof (cases "slot_released s")
  case True
  show ?thesis
    by (cases "(ok, pc, s)" rule: Worker_slot_step.cases; (use assms(5) free_pc[OF assms(2,3) True] in \<open>simp; fail\<close>)?;
        insert assms(1,3-6) True life_free[OF assms(2) True];
        simp split del: split_of_bool if_split split: slot_user.splits list.splits add: size_defs size_ok_def Let_def; clarify?;
        (simp split: if_splits split del: split_of_bool add: released_unat flag_on unat_clear32)?; (intro conjI impI)?; (linarith | force)?)
next
  case False
  show ?thesis
    by (cases "(ok, pc, s)" rule: Worker_slot_step.cases; (use assms(5) live_pc[OF assms(2,3) False] in \<open>simp; fail\<close>)?;
        insert assms(1,3-6) False life_live[OF assms(2) False];
        simp split del: split_of_bool if_split split: slot_user.splits list.splits add: size_defs size_ok_def Let_def; clarify?;
        (simp split: if_splits split del: split_of_bool add: released_unat flag_on unat_clear32)?; (intro conjI impI)?; (linarith | force)?)
qed

lemma Accept_size:
  assumes "size_ok s E N D Z C W" and "life_ok s H U R A Q S" and "life_nums H U R A Q S pc" and "size_nums U R S E N D Z C pc"
    and "Accept_step ok pc s = Some (pc', s', e)" and "size_moves E N D Z C W pc pc' E' N' D' Z' C' W'"
  shows "size_ok s' E' N' D' Z' C' W'"
proof (cases "slot_released s")
  case True
  show ?thesis
    by (cases "(ok, pc, s)" rule: Accept_step.cases; (use assms(5) free_pc[OF assms(2,3) True] in \<open>simp; fail\<close>)?;
        insert assms(1,3-6) True life_free[OF assms(2) True] life_inc[OF assms(2)];
        simp split del: split_of_bool if_split split: slot_user.splits list.splits add: size_defs size_ok_def Let_def unat_clear32; clarify?;
        (simp split: if_splits split del: split_of_bool add: released_unat flag_on unat_clear32)?; (intro conjI impI)?; (linarith | force)?)
next
  case False
  show ?thesis
    by (cases "(ok, pc, s)" rule: Accept_step.cases; (use assms(5) live_pc[OF assms(2,3) False] in \<open>simp; fail\<close>)?;
        insert assms(1,3-6) False life_live[OF assms(2) False] life_inc[OF assms(2)];
        simp split del: split_of_bool if_split split: slot_user.splits list.splits add: size_defs size_ok_def Let_def unat_clear32; clarify?;
        (simp split: if_splits split del: split_of_bool add: released_unat flag_on unat_clear32)?; (intro conjI impI)?; (linarith | force)?)
qed

end
