(* ===== verification/SessionArray.thy ===== *)
theory SessionArray
  imports SessionQueue
begin

text \<open>
  The array of packets being sent, what a thread that works on a session knows of it, and the connection that the
  slot stands for at every step.
\<close>

section \<open>The array\<close>

fun at_free :: "slot_pc \<Rightarrow> bool" where
  "at_free (RelFree b) = True" | "at_free _ = False"

fun at_closing :: "slot_pc \<Rightarrow> bool" where
  "at_closing (RelPush b) = False" | "at_closing pc = at_release pc"

fun at_posting :: "slot_pc \<Rightarrow> bool" where
  "at_posting PostInc = True" | "at_posting PostCall = True" | "at_posting _ = False"

fun at_sent :: "slot_pc \<Rightarrow> bool" where
  "at_sent SentFree = True" | "at_sent _ = False"

fun at_ready :: "slot_pc \<Rightarrow> bool" where
  "at_ready (AccId sid) = True" | "at_ready AccInc = True" | "at_ready AccAnd = True" | "at_ready _ = False"

text \<open>How many packets a thread has taken that are not counted in \<open>sendingCount\<close>.\<close>

fun taken_at :: "slot_pc \<Rightarrow> nat" where
  "taken_at (TakeDec k) = k" | "taken_at (TakeNode k) = k" | "taken_at (TakeUndo k) = k" | "taken_at (PostCount k) = k"
| "taken_at _ = 0"

text \<open>What is known of a thread at \<open>pc\<close> while the session id is \<open>sid\<close>.\<close>

fun slot_pc_ok :: "u64 \<Rightarrow> slot_pc \<Rightarrow> bool" where
  "slot_pc_ok sid (EnqLink p i) \<longleftrightarrow> i = sid" | "slot_pc_ok sid (EnqSize i) \<longleftrightarrow> i = sid" | "slot_pc_ok sid (DoClose i) \<longleftrightarrow> i = sid"
| "slot_pc_ok sid (TakeDec k) \<longleftrightarrow> k < MAX_SEND_PACKET" | "slot_pc_ok sid (TakeNode k) \<longleftrightarrow> k < MAX_SEND_PACKET"
| "slot_pc_ok sid (TakeUndo k) \<longleftrightarrow> 0 < k \<and> k < MAX_SEND_PACKET" | "slot_pc_ok sid (PostCount k) \<longleftrightarrow> 0 < k \<and> k \<le> MAX_SEND_PACKET"
| "slot_pc_ok sid _ \<longleftrightarrow> True"

text \<open>\<open>G\<close> threads are to free the array in \<open>ReleaseSession\<close> and \<open>T\<close> in \<open>SendProc\<close>, \<open>P\<close> are to post it, \<open>B\<close> stand after \<open>Init\<close>.\<close>

definition array_ok :: "slot \<Rightarrow> nat \<Rightarrow> nat \<Rightarrow> nat \<Rightarrow> nat \<Rightarrow> bool" where
  "array_ok s G P T B \<longleftrightarrow>
     (0 < sl_sendingCount s \<longrightarrow> 0 < sl_send s + sl_dead s + T + P) \<and>
     (slot_released s \<longrightarrow> 0 < G \<or> sl_sendingCount s = 0) \<and>
     (0 < P \<longrightarrow> 0 < sl_sendingCount s \<and> sl_sendingCount s \<le> MAX_SEND_PACKET) \<and>
     (0 < B \<longrightarrow> sl_dead s = 0)"

definition array_nums :: "nat \<Rightarrow> nat \<Rightarrow> nat \<Rightarrow> nat \<Rightarrow> nat \<Rightarrow> nat \<Rightarrow> nat \<Rightarrow> nat \<Rightarrow> nat \<Rightarrow> slot_pc \<Rightarrow> bool" where
  "array_nums R A S G P T B F V pc \<longleftrightarrow>
     T + P + of_bool (at_sender pc) \<le> S + of_bool (at_sent pc) + of_bool (at_posting pc) \<and> B \<le> A \<and> V \<le> R \<and>
     G + of_bool (at_release pc) \<le> R + of_bool (at_free pc) \<and> of_bool (at_free pc) \<le> G \<and> of_bool (at_posting pc) \<le> P \<and>
     of_bool (at_sent pc) \<le> T \<and> of_bool (at_ready pc) \<le> B \<and> of_bool (at_closing pc) \<le> V \<and>
     (S = 0 \<longrightarrow> F = 0) \<and> (S = 1 \<longrightarrow> at_sender pc \<longrightarrow> F = taken_at pc)"

definition array_moves :: "nat \<Rightarrow> nat \<Rightarrow> nat \<Rightarrow> nat \<Rightarrow> nat \<Rightarrow> nat \<Rightarrow> slot_pc \<Rightarrow> slot_pc \<Rightarrow> nat \<Rightarrow> nat \<Rightarrow> nat \<Rightarrow> nat \<Rightarrow> nat \<Rightarrow> nat \<Rightarrow> bool" where
  "array_moves G P T B F V pc pc' G' P' T' B' F' V' \<longleftrightarrow>
     G' + of_bool (at_free pc) = G + of_bool (at_free pc') \<and> P' + of_bool (at_posting pc) = P + of_bool (at_posting pc') \<and>
     T' + of_bool (at_sent pc) = T + of_bool (at_sent pc') \<and> B' + of_bool (at_ready pc) = B + of_bool (at_ready pc') \<and>
     F' + taken_at pc = F + taken_at pc' \<and> V' + of_bool (at_closing pc) = V + of_bool (at_closing pc')"

lemmas array_defs = life_nums_def array_nums_def array_moves_def

lemma Acquire_array:
  assumes "array_ok s G P T B" and "life_ok s H U R A Q S" and "life_nums H U R A Q S pc" and "array_nums R A S G P T B F V pc"
    and "Acquire_step pc s = Some (pc', s', e)" and "array_moves G P T B F V pc pc' G' P' T' B' F' V'" and "slot_pc_ok (sl_sessionID s) pc"
  shows "array_ok s' G' P' T' B'"
proof (cases "slot_released s")
  case True
  show ?thesis
    by (cases "(pc, s)" rule: Acquire_step.cases; (use assms(5) free_pc[OF assms(2,3) True] in \<open>simp; fail\<close>)?;
        insert assms(1,3-7) True life_free[OF assms(2) True] life_inc[OF assms(2)];
        simp split del: split_of_bool if_split split: slot_user.splits list.splits add: array_defs array_ok_def Let_def flag_unat; clarify?;
        (simp split: if_splits split del: split_of_bool add: released_unat flag_on unat_clear32)?; (intro conjI impI)?; (linarith | force)?)
next
  case False
  show ?thesis
    by (cases "(pc, s)" rule: Acquire_step.cases; (use assms(5) live_pc[OF assms(2,3) False] in \<open>simp; fail\<close>)?;
        insert assms(1,3-7) False life_live[OF assms(2) False] life_inc[OF assms(2)];
        simp split del: split_of_bool if_split split: slot_user.splits list.splits add: array_defs array_ok_def Let_def flag_unat; clarify?;
        (simp split: if_splits split del: split_of_bool add: released_unat flag_on unat_clear32)?; (intro conjI impI)?; (linarith | force)?)
qed

lemma Client_array:
  assumes "array_ok s G P T B" and "life_ok s H U R A Q S" and "life_nums H U R A Q S pc" and "array_nums R A S G P T B F V pc"
    and "Client_step pc s = Some (pc', s', e)" and "array_moves G P T B F V pc pc' G' P' T' B' F' V'" and "slot_pc_ok (sl_sessionID s) pc"
  shows "array_ok s' G' P' T' B'"
proof (cases "slot_released s")
  case True
  show ?thesis
    by (cases "(pc, s)" rule: Client_step.cases; (use assms(5) free_pc[OF assms(2,3) True] in \<open>simp; fail\<close>)?;
        insert assms(1,3-7) True life_free[OF assms(2) True] life_inc[OF assms(2)];
        simp split del: split_of_bool if_split split: slot_user.splits list.splits add: array_defs array_ok_def Let_def flag_unat; clarify?;
        (simp split: if_splits split del: split_of_bool add: released_unat flag_on unat_clear32)?; (intro conjI impI)?; (linarith | force)?)
next
  case False
  show ?thesis
    by (cases "(pc, s)" rule: Client_step.cases; (use assms(5) live_pc[OF assms(2,3) False] in \<open>simp; fail\<close>)?;
        insert assms(1,3-7) False life_live[OF assms(2) False] life_inc[OF assms(2)];
        simp split del: split_of_bool if_split split: slot_user.splits list.splits add: array_defs array_ok_def Let_def flag_unat; clarify?;
        (simp split: if_splits split del: split_of_bool add: released_unat flag_on unat_clear32)?; (intro conjI impI)?; (linarith | force)?)
qed

lemma SendPost_array:
  assumes "array_ok s G P T B" and "life_ok s H U R A Q S" and "life_nums H U R A Q S pc" and "array_nums R A S G P T B F V pc"
    and "SendPost_step ok pc s = Some (pc', s', e)" and "array_moves G P T B F V pc pc' G' P' T' B' F' V'" and "slot_pc_ok (sl_sessionID s) pc"
  shows "array_ok s' G' P' T' B'"
proof (cases "slot_released s")
  case True
  show ?thesis
    by (cases "(ok, pc, s)" rule: SendPost_step.cases; (use assms(5) free_pc[OF assms(2,3) True] in \<open>simp; fail\<close>)?;
        insert assms(1,3-7) True life_free[OF assms(2) True] life_inc[OF assms(2)];
        simp split del: split_of_bool if_split split: slot_user.splits list.splits add: array_defs array_ok_def Let_def; clarify?;
        (simp split: if_splits split del: split_of_bool add: released_unat flag_on unat_clear32)?; (intro conjI impI)?; (linarith | force)?)
next
  case False
  show ?thesis
    by (cases "(ok, pc, s)" rule: SendPost_step.cases; (use assms(5) live_pc[OF assms(2,3) False] in \<open>simp; fail\<close>)?;
        insert assms(1,3-7) False life_live[OF assms(2) False] life_inc[OF assms(2)];
        simp split del: split_of_bool if_split split: slot_user.splits list.splits add: array_defs array_ok_def Let_def; clarify?;
        (simp split: if_splits split del: split_of_bool add: released_unat flag_on unat_clear32)?; (intro conjI impI)?; (linarith | force)?)
qed

lemma Release_array:
  assumes "array_ok s G P T B" and "life_ok s H U R A Q S" and "life_nums H U R A Q S pc" and "array_nums R A S G P T B F V pc"
    and "Release_step pc s = Some (pc', s', e)" and "array_moves G P T B F V pc pc' G' P' T' B' F' V'" and "slot_pc_ok (sl_sessionID s) pc"
  shows "array_ok s' G' P' T' B'"
proof (cases "slot_released s")
  case True
  show ?thesis
    by (cases "(pc, s)" rule: Release_step.cases; (use assms(5) free_pc[OF assms(2,3) True] in \<open>simp; fail\<close>)?;
        insert assms(1,3-7) True life_free[OF assms(2) True] unat_dec_count[of s];
        simp split del: split_of_bool if_split split: slot_user.splits list.splits add: array_defs array_ok_def Let_def flag_on; clarify?;
        (simp split: if_splits split del: split_of_bool add: released_unat flag_on unat_clear32)?; (intro conjI impI)?; (linarith | force)?)
next
  case False
  show ?thesis
    by (cases "(pc, s)" rule: Release_step.cases; (use assms(5) live_pc[OF assms(2,3) False] in \<open>simp; fail\<close>)?; cases "sl_ioCount s = 0";
        insert assms(1,3-7) False life_live[OF assms(2) False] unat_dec_count[of s];
        simp split del: split_of_bool if_split split: slot_user.splits list.splits add: array_defs array_ok_def Let_def flag_on; clarify?;
        (simp split: if_splits split del: split_of_bool add: released_unat flag_on unat_clear32)?; (intro conjI impI)?; (linarith | force)?)
qed

lemma Worker_array:
  assumes "array_ok s G P T B" and "life_ok s H U R A Q S" and "life_nums H U R A Q S pc" and "array_nums R A S G P T B F V pc"
    and "Worker_slot_step ok pc s = Some (pc', s', e)" and "array_moves G P T B F V pc pc' G' P' T' B' F' V'" and "slot_pc_ok (sl_sessionID s) pc"
  shows "array_ok s' G' P' T' B'"
proof (cases "slot_released s")
  case True
  show ?thesis
    by (cases "(ok, pc, s)" rule: Worker_slot_step.cases; (use assms(5) free_pc[OF assms(2,3) True] in \<open>simp; fail\<close>)?;
        insert assms(1,3-7) True life_free[OF assms(2) True];
        simp split del: split_of_bool if_split split: slot_user.splits list.splits add: array_defs array_ok_def Let_def; clarify?;
        (simp split: if_splits split del: split_of_bool add: released_unat flag_on unat_clear32)?; (intro conjI impI)?; (linarith | force)?)
next
  case False
  show ?thesis
    by (cases "(ok, pc, s)" rule: Worker_slot_step.cases; (use assms(5) live_pc[OF assms(2,3) False] in \<open>simp; fail\<close>)?;
        insert assms(1,3-7) False life_live[OF assms(2) False];
        simp split del: split_of_bool if_split split: slot_user.splits list.splits add: array_defs array_ok_def Let_def; clarify?;
        (simp split: if_splits split del: split_of_bool add: released_unat flag_on unat_clear32)?; (intro conjI impI)?; (linarith | force)?)
qed

lemma Accept_array:
  assumes "array_ok s G P T B" and "life_ok s H U R A Q S" and "life_nums H U R A Q S pc" and "array_nums R A S G P T B F V pc"
    and "Accept_step ok pc s = Some (pc', s', e)" and "array_moves G P T B F V pc pc' G' P' T' B' F' V'" and "slot_pc_ok (sl_sessionID s) pc"
  shows "array_ok s' G' P' T' B'"
proof (cases "slot_released s")
  case True
  show ?thesis
    by (cases "(ok, pc, s)" rule: Accept_step.cases; (use assms(5) free_pc[OF assms(2,3) True] in \<open>simp; fail\<close>)?;
        insert assms(1,3-7) True life_free[OF assms(2) True] life_inc[OF assms(2)];
        simp split del: split_of_bool if_split split: slot_user.splits list.splits add: array_defs array_ok_def Let_def unat_clear32; clarify?;
        (simp split: if_splits split del: split_of_bool add: released_unat flag_on unat_clear32)?; (intro conjI impI)?; (linarith | force)?)
next
  case False
  show ?thesis
    by (cases "(ok, pc, s)" rule: Accept_step.cases; (use assms(5) live_pc[OF assms(2,3) False] in \<open>simp; fail\<close>)?;
        insert assms(1,3-7) False life_live[OF assms(2) False] life_inc[OF assms(2)];
        simp split del: split_of_bool if_split split: slot_user.splits list.splits add: array_defs array_ok_def Let_def unat_clear32; clarify?;
        (simp split: if_splits split del: split_of_bool add: released_unat flag_on unat_clear32)?; (intro conjI impI)?; (linarith | force)?)
qed

end
