(* ===== verification/SessionView.thy ===== *)
theory SessionView
  imports SessionArray
begin

text \<open>
  Every step on a session slot is a step of the connection that the slot stands for.
\<close>

section \<open>What a thread knows\<close>

lemma slot_pc_any: "slot_pc_ok i pc \<Longrightarrow> \<not> at_user pc \<Longrightarrow> slot_pc_ok j pc"
  by (cases pc) auto

lemma Acquire_pc: "Acquire_step pc s = Some (pc', s', e) \<Longrightarrow> slot_pc_ok (sl_sessionID s) pc \<Longrightarrow>
    slot_pc_ok (sl_sessionID s') pc' \<and> sl_sessionID s' = sl_sessionID s"
  by (cases "(pc, s)" rule: Acquire_step.cases) (auto simp: Let_def split: if_splits slot_user.splits)

lemma Client_pc: "Client_step pc s = Some (pc', s', e) \<Longrightarrow> slot_pc_ok (sl_sessionID s) pc \<Longrightarrow>
    slot_pc_ok (sl_sessionID s') pc' \<and> sl_sessionID s' = sl_sessionID s"
  by (cases "(pc, s)" rule: Client_step.cases) (auto simp: Let_def split: if_splits slot_user.splits)

lemma SendPost_pc: "SendPost_step ok pc s = Some (pc', s', e) \<Longrightarrow> slot_pc_ok (sl_sessionID s) pc \<Longrightarrow> (at_first pc \<longrightarrow> 0 < sl_size s) \<Longrightarrow>
    slot_pc_ok (sl_sessionID s') pc' \<and> sl_sessionID s' = sl_sessionID s"
  by (cases "(ok, pc, s)" rule: SendPost_step.cases) (auto simp: MAX_SEND_PACKET_def split: if_splits list.splits)

lemma Release_pc: "Release_step pc s = Some (pc', s', e) \<Longrightarrow>
    slot_pc_ok (sl_sessionID s') pc' \<and> sl_sessionID s' = sl_sessionID s"
  by (cases "(pc, s)" rule: Release_step.cases) (auto simp: Let_def split: if_splits list.splits)

lemma Worker_pc: "Worker_slot_step ok pc s = Some (pc', s', e) \<Longrightarrow>
    slot_pc_ok (sl_sessionID s') pc' \<and> sl_sessionID s' = sl_sessionID s"
  by (cases "(ok, pc, s)" rule: Worker_slot_step.cases) (auto split: if_splits)

lemma Accept_pc: "Accept_step ok pc s = Some (pc', s', e) \<Longrightarrow>
    slot_pc_ok (sl_sessionID s') pc' \<and> (sl_sessionID s' = sl_sessionID s \<or> (\<exists>i. pc = AccId i))"
  by (cases "(ok, pc, s)" rule: Accept_step.cases) (auto split: if_splits)

section \<open>The connection of a slot\<close>

lemma in_array_0 [simp]: "in_array s 0 = []"
  by (simp add: in_array_def)

lemma length_in_array [simp]: "length (in_array s n) = n"
  by (simp add: in_array_def)

lemma in_array_simps [simp]:
  "in_array (s\<lparr>sl_ioCount := w\<rparr>) n = in_array s n" "in_array (s\<lparr>sl_sessionID := i\<rparr>) n = in_array s n"
  "in_array (s\<lparr>sl_isSending := b\<rparr>) n = in_array s n" "in_array (s\<lparr>sl_sendQ := q\<rparr>) n = in_array s n"
  "in_array (s\<lparr>sl_size := z\<rparr>) n = in_array s n" "in_array (s\<lparr>sl_sendingCount := m\<rparr>) n = in_array s n"
  "in_array (s\<lparr>sl_recv := m\<rparr>) n = in_array s n" "in_array (s\<lparr>sl_send := m\<rparr>) n = in_array s n"
  "in_array (s\<lparr>sl_stacked := m\<rparr>) n = in_array s n" "in_array (s\<lparr>sl_dead := m\<rparr>) n = in_array s n"
  by (simp_all add: in_array_def)

lemma in_array_Nil [simp]: "in_array s n = [] \<longleftrightarrow> n = 0"
  by (simp add: in_array_def)

lemma in_array_Suc [simp]:
  "in_array (s\<lparr>sl_sendQ := q, sl_packets := (sl_packets s)(k := p)\<rparr>) (Suc k) = in_array s k @ [p]"
  by (simp add: in_array_def)

text \<open>Free until the id is given away, then a connection with what is posted and what waits, in the array or in the queue.\<close>

definition slot_view :: "slot \<Rightarrow> nat \<Rightarrow> nat \<Rightarrow> nat \<Rightarrow> nat \<Rightarrow> connection" where
  "slot_view s F P T V =
     (if slot_released s
      then if V = 0 then NoConnection else Closing (sl_sessionID s) (in_array s (sl_sendingCount s) @ sl_sendQ s)
      else Connected (sl_sessionID s) (if sl_send s + sl_dead s + T = 0 then [] else in_array s (sl_sendingCount s))
        (in_array s (F + (if P = 0 then 0 else sl_sendingCount s)) @ sl_sendQ s))"

lemma drained:
  assumes "size_ok s E N D Z C W" and "life_ok s H U R A Q S" and "life_nums H U R A Q S pc" and "size_nums U R S E N D Z C pc"
    and "at_setup pc \<or> pc = RelEnd b"
  shows "sl_sendQ s = []"
proof -
  have rel: "slot_released s"
  proof (rule ccontr)
    assume "\<not> slot_released s"
    with life_live(2,3)[OF assms(2)] assms(3,5) show False by (auto simp: life_nums_def)
  qed
  note F = life_free[OF assms(2) rel]
  have "E + N + D + C = 0"
    using assms(3-5) F by (cases pc; simp split del: split_of_bool add: life_nums_def size_nums_def; linarith?)
  then have "int (length (sl_sendQ s)) \<le> 0" using assms(1) rel by (auto simp: size_ok_def)
  then show ?thesis by simp
qed

lemma Acquire_view:
  assumes "array_ok s G P T B" and "life_ok s H U R A Q S" and "life_nums H U R A Q S pc" and "array_nums R A S G P T B F V pc"
    and "Acquire_step pc s = Some (pc', s', e)" and "array_moves G P T B F V pc pc' G' P' T' B' F' V'" and "slot_pc_ok (sl_sessionID s) pc"
  shows "connection_do (t, e) (slot_view s F P T V) = Some (slot_view s' F' P' T' V')"
proof (cases "slot_released s")
  case True
  show ?thesis
    by (cases "(pc, s)" rule: Acquire_step.cases; (use assms(5) free_pc[OF assms(2,3) True] in \<open>simp; fail\<close>)?;
        insert assms(1,3-7) True life_free[OF assms(2) True] life_inc[OF assms(2)];
        simp split del: split_of_bool if_split split: slot_user.splits list.splits
          add: array_defs array_ok_def slot_view_def Let_def flag_unat; clarify?;
        (simp split: if_splits split del: split_of_bool add: released_unat flag_on unat_clear32)?; (intro conjI impI)?; (linarith | force)?)
next
  case False
  show ?thesis
    by (cases "(pc, s)" rule: Acquire_step.cases; (use assms(5) live_pc[OF assms(2,3) False] in \<open>simp; fail\<close>)?;
        insert assms(1,3-7) False life_live[OF assms(2) False] life_inc[OF assms(2)];
        simp split del: split_of_bool if_split split: slot_user.splits list.splits
          add: array_defs array_ok_def slot_view_def Let_def flag_unat; clarify?;
        (simp split: if_splits split del: split_of_bool add: released_unat flag_on unat_clear32)?; (intro conjI impI)?; (linarith | force)?)
qed

lemma Client_view:
  assumes "array_ok s G P T B" and "life_ok s H U R A Q S" and "life_nums H U R A Q S pc" and "array_nums R A S G P T B F V pc"
    and "Client_step pc s = Some (pc', s', e)" and "array_moves G P T B F V pc pc' G' P' T' B' F' V'" and "slot_pc_ok (sl_sessionID s) pc"
  shows "connection_do (t, e) (slot_view s F P T V) = Some (slot_view s' F' P' T' V')"
proof (cases "slot_released s")
  case True
  show ?thesis
    by (cases "(pc, s)" rule: Client_step.cases; (use assms(5) free_pc[OF assms(2,3) True] in \<open>simp; fail\<close>)?;
        insert assms(1,3-7) True life_free[OF assms(2) True] life_inc[OF assms(2)];
        simp split del: split_of_bool if_split split: slot_user.splits list.splits
          add: array_defs array_ok_def slot_view_def Let_def flag_unat; clarify?;
        (simp split: if_splits split del: split_of_bool add: released_unat flag_on unat_clear32)?; (intro conjI impI)?; (linarith | force)?)
next
  case False
  show ?thesis
    by (cases "(pc, s)" rule: Client_step.cases; (use assms(5) live_pc[OF assms(2,3) False] in \<open>simp; fail\<close>)?;
        insert assms(1,3-7) False life_live[OF assms(2) False] life_inc[OF assms(2)];
        simp split del: split_of_bool if_split split: slot_user.splits list.splits
          add: array_defs array_ok_def slot_view_def Let_def flag_unat; clarify?;
        (simp split: if_splits split del: split_of_bool add: released_unat flag_on unat_clear32)?; (intro conjI impI)?; (linarith | force)?)
qed

lemma SendPost_view:
  assumes "array_ok s G P T B" and "life_ok s H U R A Q S" and "life_nums H U R A Q S pc" and "array_nums R A S G P T B F V pc"
    and "SendPost_step ok pc s = Some (pc', s', e)" and "array_moves G P T B F V pc pc' G' P' T' B' F' V'" and "slot_pc_ok (sl_sessionID s) pc"
  shows "connection_do (t, e) (slot_view s F P T V) = Some (slot_view s' F' P' T' V')"
proof (cases "slot_released s")
  case True
  show ?thesis
    by (cases "(ok, pc, s)" rule: SendPost_step.cases; (use assms(5) free_pc[OF assms(2,3) True] in \<open>simp; fail\<close>)?;
        insert assms(1,3-7) True life_free[OF assms(2) True] life_inc[OF assms(2)];
        simp split del: split_of_bool if_split split: slot_user.splits list.splits
          add: array_defs array_ok_def slot_view_def Let_def; clarify?;
        (simp split: if_splits split del: split_of_bool add: released_unat flag_on unat_clear32)?; (intro conjI impI)?; (linarith | force)?)
next
  case False
  show ?thesis
    by (cases "(ok, pc, s)" rule: SendPost_step.cases; (use assms(5) live_pc[OF assms(2,3) False] in \<open>simp; fail\<close>)?;
        insert assms(1,3-7) False life_live[OF assms(2) False] life_inc[OF assms(2)];
        simp split del: split_of_bool if_split split: slot_user.splits list.splits
          add: array_defs array_ok_def slot_view_def Let_def; clarify?;
        (simp split: if_splits split del: split_of_bool add: released_unat flag_on unat_clear32)?; (intro conjI impI)?; (linarith | force)?)
qed

lemma Release_view:
  assumes "array_ok s G P T B" and "life_ok s H U R A Q S" and "life_nums H U R A Q S pc" and "array_nums R A S G P T B F V pc"
    and "Release_step pc s = Some (pc', s', e)" and "array_moves G P T B F V pc pc' G' P' T' B' F' V'" and "slot_pc_ok (sl_sessionID s) pc"
    and "at_setup pc \<or> (\<exists>b. pc = RelEnd b) \<Longrightarrow> sl_sendQ s = []"
  shows "connection_do (t, e) (slot_view s F P T V) = Some (slot_view s' F' P' T' V')"
proof (cases "slot_released s")
  case True
  show ?thesis
    by (cases "(pc, s)" rule: Release_step.cases; (use assms(5) free_pc[OF assms(2,3) True] in \<open>simp; fail\<close>)?;
        insert assms(1,3-8) True life_free[OF assms(2) True] unat_dec_count[of s];
        simp split del: split_of_bool if_split split: slot_user.splits list.splits
          add: array_defs array_ok_def slot_view_def Let_def flag_on; clarify?;
        (simp split: if_splits split del: split_of_bool add: released_unat flag_on unat_clear32)?; (intro conjI impI)?; (linarith | force)?)
next
  case False
  show ?thesis
    by (cases "(pc, s)" rule: Release_step.cases; (use assms(5) live_pc[OF assms(2,3) False] in \<open>simp; fail\<close>)?; cases "sl_ioCount s = 0";
        insert assms(1,3-8) False life_live[OF assms(2) False] unat_dec_count[of s];
        simp split del: split_of_bool if_split split: slot_user.splits list.splits
          add: array_defs array_ok_def slot_view_def Let_def flag_on; clarify?;
        (simp split: if_splits split del: split_of_bool add: released_unat flag_on unat_clear32)?; (intro conjI impI)?; (linarith | force)?)
qed

lemma Worker_view:
  assumes "array_ok s G P T B" and "life_ok s H U R A Q S" and "life_nums H U R A Q S pc" and "array_nums R A S G P T B F V pc"
    and "Worker_slot_step ok pc s = Some (pc', s', e)" and "array_moves G P T B F V pc pc' G' P' T' B' F' V'" and "slot_pc_ok (sl_sessionID s) pc"
  shows "connection_do (t, e) (slot_view s F P T V) = Some (slot_view s' F' P' T' V')"
proof (cases "slot_released s")
  case True
  show ?thesis
    by (cases "(ok, pc, s)" rule: Worker_slot_step.cases; (use assms(5) free_pc[OF assms(2,3) True] in \<open>simp; fail\<close>)?;
        insert assms(1,3-7) True life_free[OF assms(2) True];
        simp split del: split_of_bool if_split split: slot_user.splits list.splits
          add: array_defs array_ok_def slot_view_def Let_def; clarify?;
        (simp split: if_splits split del: split_of_bool add: released_unat flag_on unat_clear32)?; (intro conjI impI)?; (linarith | force)?)
next
  case False
  show ?thesis
    by (cases "(ok, pc, s)" rule: Worker_slot_step.cases; (use assms(5) live_pc[OF assms(2,3) False] in \<open>simp; fail\<close>)?;
        insert assms(1,3-7) False life_live[OF assms(2) False];
        simp split del: split_of_bool if_split split: slot_user.splits list.splits
          add: array_defs array_ok_def slot_view_def Let_def; clarify?;
        (simp split: if_splits split del: split_of_bool add: released_unat flag_on unat_clear32)?; (intro conjI impI)?; (linarith | force)?)
qed

lemma Accept_view:
  assumes "array_ok s G P T B" and "life_ok s H U R A Q S" and "life_nums H U R A Q S pc" and "array_nums R A S G P T B F V pc"
    and "Accept_step ok pc s = Some (pc', s', e)" and "array_moves G P T B F V pc pc' G' P' T' B' F' V'" and "slot_pc_ok (sl_sessionID s) pc"
    and "at_setup pc \<or> (\<exists>b. pc = RelEnd b) \<Longrightarrow> sl_sendQ s = []"
  shows "connection_do (t, e) (slot_view s F P T V) = Some (slot_view s' F' P' T' V')"
proof (cases "slot_released s")
  case True
  show ?thesis
    by (cases "(ok, pc, s)" rule: Accept_step.cases; (use assms(5) free_pc[OF assms(2,3) True] in \<open>simp; fail\<close>)?;
        insert assms(1,3-8) True life_free[OF assms(2) True] life_inc[OF assms(2)];
        simp split del: split_of_bool if_split split: slot_user.splits list.splits
          add: array_defs array_ok_def slot_view_def Let_def unat_clear32; clarify?;
        (simp split: if_splits split del: split_of_bool add: released_unat flag_on unat_clear32)?; (intro conjI impI)?; (linarith | force)?)
next
  case False
  show ?thesis
    by (cases "(ok, pc, s)" rule: Accept_step.cases; (use assms(5) live_pc[OF assms(2,3) False] in \<open>simp; fail\<close>)?;
        insert assms(1,3-8) False life_live[OF assms(2) False] life_inc[OF assms(2)];
        simp split del: split_of_bool if_split split: slot_user.splits list.splits
          add: array_defs array_ok_def slot_view_def Let_def unat_clear32; clarify?;
        (simp split: if_splits split del: split_of_bool add: released_unat flag_on unat_clear32)?; (intro conjI impI)?; (linarith | force)?)
qed

end
