(* ===== verification/SessionSlot.thy ===== *)
theory SessionSlot
  imports SessionView
begin

text \<open>
  The invariant of a session slot with all its threads, and the simulation of the abstract connection.
\<close>

section \<open>Calls\<close>

lemma start_size:
  assumes "size_ok s E N D Z C W" and "slot_start c s = Some (pc', s')" and "size_moves E N D Z C W Idle pc' E' N' D' Z' C' W'"
  shows "size_ok s' E' N' D' Z' C' W'"
  by (insert assms, cases "(c, s)" rule: slot_start.cases;
      simp split: if_splits split del: split_of_bool add: size_moves_def size_ok_def; clarify?; simp?)

lemma ready_sends:
  assumes "life_ok s H U R A Q S" and "array_nums R A S G P T B F V pc"
  shows "0 < B \<longrightarrow> sl_send s = 0"
proof
  assume "0 < B"
  then have "0 < A" using assms(2) by (simp add: array_nums_def)
  then have "slot_released s" using life_live(3)[OF assms(1)] by blast
  then show "sl_send s = 0" by (rule life_free(3)[OF assms(1)])
qed

lemma start_array:
  assumes "array_ok s G P T B" and "0 < B \<longrightarrow> sl_send s = 0" and "slot_start c s = Some (pc', s')"
    and "array_moves G P T B F V Idle pc' G' P' T' B' F' V'"
  shows "array_ok s' G' P' T' B'"
  by (insert assms, cases "(c, s)" rule: slot_start.cases;
      simp split: if_splits split del: split_of_bool add: array_moves_def array_ok_def; clarify?; simp?)

lemma start_view:
  assumes "slot_start c s = Some (pc', s')" and "array_moves G P T B F V Idle pc' G' P' T' B' F' V'"
  shows "slot_view s' F' P' T' V' = slot_view s F P T V"
  by (insert assms, cases "(c, s)" rule: slot_start.cases;
      simp split: if_splits split del: split_of_bool add: array_moves_def slot_view_def; clarify?; simp?)

lemma start_pc: "slot_start c s = Some (pc', s') \<Longrightarrow> slot_pc_ok (sl_sessionID s') pc' \<and> sl_sessionID s' = sl_sessionID s"
  by (cases "(c, s)" rule: slot_start.cases) (auto split: if_splits)

section \<open>The last reference\<close>

fun at_cas :: "slot_pc \<Rightarrow> bool" where
  "at_cas (RelCas b) = True" | "at_cas _ = False"

definition cas_ok :: "slot \<Rightarrow> nat \<Rightarrow> bool" where
  "cas_ok s K \<longleftrightarrow> (unat (sl_ioCount s) = 0 \<longrightarrow> 0 < K)"

lemma flag_ne_0: "(RELEASE_FLAG :: u32) \<noteq> 0"
  by (simp add: RELEASE_FLAG_def)

lemma Acquire_cas:
  assumes "cas_ok s K" and "life_ok s H U R A Q S" and "life_nums H U R A Q S pc" and "Acquire_step pc s = Some (pc', s', e)"
    and "K' + of_bool (at_cas pc) = K + of_bool (at_cas pc')"
  shows "cas_ok s' K'"
  using life_inc[OF assms(2)] assms(1,3-5)
  by (cases "(pc, s)" rule: Acquire_step.cases)
    (auto simp: cas_ok_def life_nums_def Let_def split: if_splits)

lemma Client_cas:
  assumes "cas_ok s K" and "life_ok s H U R A Q S" and "life_nums H U R A Q S pc" and "Client_step pc s = Some (pc', s', e)"
    and "K' + of_bool (at_cas pc) = K + of_bool (at_cas pc')"
  shows "cas_ok s' K'"
  using life_inc[OF assms(2)] assms(1,3-5)
  by (cases "(pc, s)" rule: Client_step.cases)
    (auto simp: cas_ok_def life_nums_def Let_def split: if_splits)

lemma SendPost_cas:
  assumes "cas_ok s K" and "life_ok s H U R A Q S" and "life_nums H U R A Q S pc" and "SendPost_step ok pc s = Some (pc', s', e)"
    and "K' + of_bool (at_cas pc) = K + of_bool (at_cas pc')"
  shows "cas_ok s' K'"
  using life_inc[OF assms(2)] assms(1,3-5)
  by (cases "(ok, pc, s)" rule: SendPost_step.cases)
    (auto simp: cas_ok_def life_nums_def split: if_splits list.splits)

lemma Release_cas:
  assumes "cas_ok s K" and "Release_step pc s = Some (pc', s', e)" and "K' + of_bool (at_cas pc) = K + of_bool (at_cas pc')"
  shows "cas_ok s' K'"
  using assms flag_ne_0
  by (cases "(pc, s)" rule: Release_step.cases)
    (auto simp: cas_ok_def Let_def unat_eq_zero split: if_splits list.splits)

lemma Worker_cas: "cas_ok s K \<Longrightarrow> Worker_slot_step ok pc s = Some (pc', s', e) \<Longrightarrow>
    K' + of_bool (at_cas pc) = K + of_bool (at_cas pc') \<Longrightarrow> cas_ok s' K'"
  by (cases "(ok, pc, s)" rule: Worker_slot_step.cases) (auto simp: cas_ok_def split: if_splits)

lemma Accept_cas:
  assumes "cas_ok s K" and "life_ok s' H' U' R' A' Q' S'" and "life_ok s H U R A Q S" and "life_nums H U R A Q S pc" and "held_refs pc' \<le> H'"
    and "Accept_step ok pc s = Some (pc', s', e)" and "K' + of_bool (at_cas pc) = K + of_bool (at_cas pc')"
  shows "cas_ok s' K'"
  using life_inc[OF assms(3)] assms(1,4-7) assms(2)[unfolded life_ok_def]
  by (cases "(ok, pc, s)" rule: Accept_step.cases)
    (auto simp: cas_ok_def life_nums_def split: if_splits)

lemma start_cas: "slot_start c s = Some (pc', s') \<Longrightarrow> cas_ok s K \<Longrightarrow> K' = K + of_bool (at_cas pc') \<Longrightarrow> cas_ok s' K'"
  by (cases "(c, s)" rule: slot_start.cases) (auto simp: cas_ok_def split: if_splits)

section \<open>Counting the threads\<close>

lemma tally_step:
  assumes "finite (busy L)" and "f Idle = 0"
  shows "tally f (L(t := pc)) + f (L t) = tally f L + f pc"
  using tally_move[OF weighted_busy[of L f, OF assms], of t pc] by linarith

lemma tally_gap:
  assumes "finite (busy L)" and "g Idle = 0" and le: "\<And>pc. f pc \<le> g pc"
  shows "tally f L + g (L t) \<le> tally g L + f (L t)"
proof -
  have "f Idle = 0" using assms(2) le[of Idle] by simp
  then have w: "weighted f L" "weighted (\<lambda>pc. g pc - f pc) L" using assms by (auto intro: weighted_busy)
  have "(\<lambda>pc. f pc + (g pc - f pc)) = g" using le by (simp add: fun_eq_iff)
  then have "tally g L = tally f L + tally (\<lambda>pc. g pc - f pc) L" using tally_add[OF w] by simp
  moreover have "g (L t) - f (L t) \<le> tally (\<lambda>pc. g pc - f pc) L" by (rule tally_ge[OF w(2)])
  ultimately show ?thesis using le[of "L t"] by linarith
qed

lemma tally_le: "finite (busy L) \<Longrightarrow> f Idle = 0 \<Longrightarrow> f (L t) \<le> tally f L"
  by (rule tally_ge) (rule weighted_busy)

lemma tally_sum: "finite (busy L) \<Longrightarrow> f Idle = 0 \<Longrightarrow> g Idle = 0 \<Longrightarrow> tally f L + tally g L = tally (\<lambda>pc. f pc + g pc) L"
  by (rule tally_add[symmetric]; rule weighted_busy)

lemma user_refs: "of_bool (at_user pc) \<le> held_refs pc"
  by (cases pc) auto

lemma recvQ_user: "of_bool (at_recvQ pc) \<le> of_bool (at_user pc) + (of_bool (at_setup pc) :: nat)"
  by (cases pc) auto

lemma sender_user: "of_bool (at_sender pc) \<le> (of_bool (at_user pc) :: nat)"
  by (cases pc) auto

lemma life_nums_of:
  assumes fin: "finite (busy L)" and few: "card (busy L) < 2 ^ 29"
  shows "life_nums (tally held_refs L) (count_at at_user L) (count_at at_release L) (count_at at_setup L)
    (count_at at_recvQ L) (count_at at_sender L) (L t)"
proof -
  note m = tally_gap[OF fin, of _ _ t]
  have 1: "tally held_refs L < 2 ^ 30" using tally_refs_bound[OF fin] few by simp
  have 2: "count_at at_user L \<le> tally held_refs L" by (rule tally_mono) (use fin user_refs in \<open>auto intro: weighted_busy\<close>)
  have "count_at at_recvQ L \<le> tally (\<lambda>pc. of_bool (at_user pc) + of_bool (at_setup pc)) L"
    by (rule tally_mono) (use fin recvQ_user in \<open>auto intro: weighted_busy\<close>)
  then have 3: "count_at at_recvQ L \<le> count_at at_user L + count_at at_setup L" using fin by (simp add: tally_sum)
  have 4: "count_at at_sender L \<le> count_at at_user L"
    by (rule tally_mono) (use fin sender_user in \<open>auto intro: weighted_busy\<close>)
  have le: "f (L t) \<le> tally f L" if "f Idle = 0" for f using tally_le[of L f t, OF fin that] .
  show ?thesis unfolding life_nums_def
    by (intro conjI 1 2 3 4) (rule le[where f = held_refs] le[where f = "\<lambda>pc. of_bool (_ pc)"]; simp)+
qed

lemma life_moves_of:
  assumes "finite (busy L)"
  shows "life_moves (tally held_refs L) (count_at at_user L) (count_at at_release L) (count_at at_setup L) (count_at at_recvQ L)
    (count_at at_sender L) (L t) pc (tally held_refs (L(t := pc))) (count_at at_user (L(t := pc))) (count_at at_release (L(t := pc)))
    (count_at at_setup (L(t := pc))) (count_at at_recvQ (L(t := pc))) (count_at at_sender (L(t := pc)))"
  unfolding life_moves_def
  by (intro conjI) (rule tally_step[OF assms]; simp)+

lemma node_free: "of_bool (at_node pc) + of_bool (at_undo pc) \<le> of_bool (at_sender pc) + (of_bool (at_release pc) :: nat)"
  by (cases pc) auto

lemma sent_sender: "of_bool (at_sent pc) + of_bool (at_posting pc) \<le> (of_bool (at_sender pc) :: nat)"
  by (cases pc) auto

lemma size_nums_of:
  assumes fin: "finite (busy L)"
  shows "size_nums (count_at at_user L) (count_at at_release L) (count_at at_sender L) (count_at at_count L) (count_at at_node L)
    (count_at at_undo L) (count_at at_first L) (count_at at_drain L) (L t)"
proof -
  have sub: "count_at f L + of_bool (g (L t)) \<le> count_at g L + of_bool (f (L t))"
    if "g Idle = False" "\<And>pc. f pc \<Longrightarrow> g pc" for f g
    by (rule tally_gap[OF fin]) (use that in auto)
  have 1: "count_at at_count L \<le> count_at at_user L"
    by (rule tally_mono) (use fin in \<open>auto intro: weighted_busy elim: at_count.elims\<close>)
  have 2: "count_at at_drain L + of_bool (at_release (L t)) \<le> count_at at_release L + of_bool (at_drain (L t))"
    by (rule sub) (auto elim: at_drain.elims)
  have 3: "count_at at_first L + of_bool (at_sender (L t)) \<le> count_at at_sender L + of_bool (at_first (L t))"
    by (rule sub) (auto elim: at_first.elims)
  have "tally (\<lambda>pc. of_bool (at_node pc) + of_bool (at_undo pc)) L + (of_bool (at_sender (L t)) + of_bool (at_release (L t))) \<le>
      tally (\<lambda>pc. of_bool (at_sender pc) + of_bool (at_release pc)) L + (of_bool (at_node (L t)) + of_bool (at_undo (L t)))"
    by (rule tally_gap[OF fin]) (simp, rule node_free)
  then have 4: "count_at at_node L + count_at at_undo L + of_bool (at_sender (L t)) + of_bool (at_release (L t)) \<le>
      count_at at_sender L + count_at at_release L + of_bool (at_node (L t)) + of_bool (at_undo (L t))"
    using fin by (simp add: tally_sum[symmetric])
  have le: "of_bool (f (L t)) \<le> count_at f L" if "f Idle = False" for f
    by (rule tally_le[OF fin]) (simp add: that)
  show ?thesis unfolding size_nums_def
    by (intro conjI 1 2 3 4) (rule le; simp)+
qed

lemma size_moves_of:
  assumes "finite (busy L)"
  shows "size_moves (count_at at_count L) (count_at at_node L) (count_at at_undo L) (count_at at_first L) (count_at at_drain L)
    (count_at at_wake L) (L t) pc (count_at at_count (L(t := pc))) (count_at at_node (L(t := pc))) (count_at at_undo (L(t := pc)))
    (count_at at_first (L(t := pc))) (count_at at_drain (L(t := pc))) (count_at at_wake (L(t := pc)))"
  unfolding size_moves_def
  by (intro conjI) (rule tally_step[OF assms]; simp)+

lemma taken_sender: "\<not> at_sender pc \<Longrightarrow> taken_at pc = 0"
  by (cases pc) auto

lemma taken_alone:
  assumes "finite (busy L)" and "count_at at_sender L \<le> of_bool (at_sender (L t))"
  shows "tally taken_at L = taken_at (L t)"
  by (rule tally_unique[of "\<lambda>pc. of_bool (at_sender pc)"])
    (use assms taken_sender in \<open>auto intro: weighted_busy\<close>)

lemma array_nums_of:
  assumes fin: "finite (busy L)"
  shows "array_nums (count_at at_release L) (count_at at_setup L) (count_at at_sender L) (count_at at_free L) (count_at at_posting L)
    (count_at at_sent L) (count_at at_ready L) (tally taken_at L) (count_at at_closing L) (L t)"
proof -
  have "tally (\<lambda>pc. of_bool (at_sent pc) + of_bool (at_posting pc)) L + of_bool (at_sender (L t)) \<le>
      count_at at_sender L + (of_bool (at_sent (L t)) + of_bool (at_posting (L t)))"
    by (rule tally_gap[OF fin]) (simp, rule sent_sender)
  then have 1: "count_at at_sent L + count_at at_posting L + of_bool (at_sender (L t)) \<le>
      count_at at_sender L + of_bool (at_sent (L t)) + of_bool (at_posting (L t))"
    using fin by (simp add: tally_sum[symmetric])
  have 2: "count_at at_ready L \<le> count_at at_setup L"
    by (rule tally_mono) (use fin in \<open>auto intro: weighted_busy elim: at_ready.elims\<close>)
  have 3: "count_at at_closing L \<le> count_at at_release L"
    by (rule tally_mono) (use fin in \<open>auto intro: weighted_busy elim: at_closing.elims\<close>)
  have 4: "count_at at_free L + of_bool (at_release (L t)) \<le> count_at at_release L + of_bool (at_free (L t))"
    by (rule tally_gap[OF fin]) (auto elim: at_free.elims)
  have 5: "count_at at_sender L = 0 \<longrightarrow> tally taken_at L = 0"
  proof
    assume z: "count_at at_sender L = 0"
    have "of_bool (at_sender (L t)) \<le> count_at at_sender L" by (rule tally_le[OF fin]) simp
    with z taken_alone[OF fin, of t] taken_sender[of "L t"] show "tally taken_at L = 0" by simp
  qed
  have 6: "count_at at_sender L = 1 \<longrightarrow> at_sender (L t) \<longrightarrow> tally taken_at L = taken_at (L t)"
    using taken_alone[OF fin, of t] by auto
  have le: "of_bool (f (L t)) \<le> count_at f L" if "f Idle = False" for f
    by (rule tally_le[OF fin]) (simp add: that)
  show ?thesis unfolding array_nums_def
    by (intro conjI 1 2 3 4 5 6) (rule le; simp)+
qed

lemma array_moves_of:
  assumes "finite (busy L)"
  shows "array_moves (count_at at_free L) (count_at at_posting L) (count_at at_sent L) (count_at at_ready L) (tally taken_at L)
    (count_at at_closing L) (L t) pc (count_at at_free (L(t := pc))) (count_at at_posting (L(t := pc))) (count_at at_sent (L(t := pc)))
    (count_at at_ready (L(t := pc))) (tally taken_at (L(t := pc))) (count_at at_closing (L(t := pc)))"
  unfolding array_moves_def
  by (intro conjI) (rule tally_step[OF assms]; simp)+

end
