(* ===== verification/SessionRuns.thy ===== *)
theory SessionRuns
  imports SessionSlot
begin

text \<open>
  A session slot from the start of the server on, under any interleaving: it serves one connection after the
  other, and nobody who has validated an id finds the slot released or given to another client.
\<close>

section \<open>The invariant\<close>

fun slot_life :: "slot_conf \<Rightarrow> bool" where
  "slot_life (s, L) \<longleftrightarrow> finite (busy L) \<and> life_ok s (tally held_refs L) (count_at at_user L) (count_at at_release L)
     (count_at at_setup L) (count_at at_recvQ L) (count_at at_sender L) \<and> cas_ok s (count_at at_cas L)"

fun slot_queue :: "slot_conf \<Rightarrow> bool" where
  "slot_queue (s, L) \<longleftrightarrow>
     size_ok s (count_at at_count L) (count_at at_node L) (count_at at_undo L) (count_at at_first L) (count_at at_drain L) (count_at at_wake L) \<and>
     array_ok s (count_at at_free L) (count_at at_posting L) (count_at at_sent L) (count_at at_ready L)"

fun slot_pcs :: "slot_conf \<Rightarrow> bool" where
  "slot_pcs (s, L) \<longleftrightarrow> (\<forall>t. slot_pc_ok (sl_sessionID s) (L t))"

definition slot_inv :: "slot_conf \<Rightarrow> bool" where
  "slot_inv c \<longleftrightarrow> slot_life c \<and> slot_queue c \<and> slot_pcs c"

fun conf_view :: "slot_conf \<Rightarrow> connection" where
  "conf_view (s, L) = slot_view s (tally taken_at L) (count_at at_posting L) (count_at at_sent L) (count_at at_closing L)"

definition slot_start_conf :: slot_conf where
  "slot_start_conf = (slot_init, \<lambda>_. Idle)"

lemma tally_idle: "f Idle = 0 \<Longrightarrow> tally f (\<lambda>_. Idle) = 0"
  by (rule tally_none) simp

lemma slot_inv_init: "slot_inv slot_start_conf"
proof -
  have "sl_ioCount slot_init = RELEASE_FLAG" by (simp add: slot_init_def)
  then have "slot_released slot_init" by (simp add: released_unat flag_on)
  then show ?thesis
    by (simp add: slot_inv_def slot_start_conf_def tally_idle life_ok_def cas_ok_def size_ok_def array_ok_def busy_def slot_init_def flag_on)
qed

lemma conf_view_init: "conf_view slot_start_conf = NoConnection"
proof -
  have "sl_ioCount slot_init = RELEASE_FLAG" by (simp add: slot_init_def)
  then have "slot_released slot_init" by (simp add: released_unat flag_on)
  then show ?thesis by (simp add: slot_start_conf_def slot_view_def tally_idle)
qed

section \<open>Steps\<close>

lemma users_locked:
  assumes "slot_life (s, L)"
  shows "\<not> slot_released s \<Longrightarrow> count_at at_release L = 0 \<and> count_at at_setup L = 0" "at_user (L u) \<Longrightarrow> \<not> slot_released s"
proof -
  have fin: "finite (busy L)" using assms(1) by simp
  have life: "life_ok s (tally held_refs L) (count_at at_user L) (count_at at_release L)
     (count_at at_setup L) (count_at at_recvQ L) (count_at at_sender L)" using assms(1) by simp
  show "count_at at_release L = 0 \<and> count_at at_setup L = 0" if "\<not> slot_released s" using life_live(2,3)[OF life that] by simp
  have "of_bool (at_user (L u)) \<le> count_at at_user L" by (rule tally_le[OF fin]) simp
  then show "\<not> slot_released s" if "at_user (L u)" using life_free(1)[OF life] that by auto
qed

text \<open>The id changes only while nobody uses the session.\<close>

lemma pcs_step:
  assumes "slot_life (s, L)" and "slot_pcs (s, L)" and "slot_pc_ok (sl_sessionID s') pc"
    and "sl_sessionID s' = sl_sessionID s \<or> at_setup (L t)"
  shows "slot_pcs (s', L(t := pc))"
proof -
  have "slot_pc_ok (sl_sessionID s') (L u)" if "sl_sessionID s' \<noteq> sl_sessionID s" for u
  proof (rule slot_pc_any[of "sl_sessionID s"])
    show "slot_pc_ok (sl_sessionID s) (L u)" using assms(2) by simp
    have "finite (busy L)" using assms(1) by simp
    then have "of_bool (at_setup (L t)) \<le> count_at at_setup L" by (rule tally_le) simp
    then have "slot_released s" using users_locked(1)[OF assms(1)] that assms(4) by auto
    then show "\<not> at_user (L u)" using users_locked(2)[OF assms(1)] by blast
  qed
  with assms(2,3) show ?thesis by (cases "sl_sessionID s' = sl_sessionID s") simp_all
qed

lemma slot_parts:
  assumes "slot_inv (s, L)" and "few_threads (s, L) t"
  shows "finite (busy L)" "card (busy L) < 2 ^ 29" "slot_pc_ok (sl_sessionID s) (L t)"
    "life_ok s (tally held_refs L) (count_at at_user L) (count_at at_release L) (count_at at_setup L) (count_at at_recvQ L) (count_at at_sender L)"
    "size_ok s (count_at at_count L) (count_at at_node L) (count_at at_undo L) (count_at at_first L) (count_at at_drain L) (count_at at_wake L)"
    "array_ok s (count_at at_free L) (count_at at_posting L) (count_at at_sent L) (count_at at_ready L)"
    "cas_ok s (count_at at_cas L)" "slot_life (s, L)" "slot_pcs (s, L)"
  using assms by (simp_all add: slot_inv_def few_threads_def)

lemma cas_moves: "finite (busy L) \<Longrightarrow> count_at at_cas (L(t := pc)) + of_bool (at_cas (L t)) = count_at at_cas L + of_bool (at_cas pc)"
  by (rule tally_step) simp_all

lemma acquire_ok:
  assumes "slot_inv (s, L)" and "few_threads (s, L) t" and "Acquire_step (L t) s = Some (pc, s', e)"
  shows "slot_inv (s', L(t := pc)) \<and> connection_do (t, e) (conf_view (s, L)) = Some (conf_view (s', L(t := pc)))"
proof -
  note p = slot_parts[OF assms(1,2)]
  note n = life_nums_of[OF p(1,2)] size_nums_of[OF p(1)] array_nums_of[OF p(1)]
  note m = life_moves_of[OF p(1)] size_moves_of[OF p(1)] array_moves_of[OF p(1)]
  note c = Acquire_pc[OF assms(3) p(3)]
  show ?thesis unfolding slot_inv_def conf_view.simps slot_life.simps slot_queue.simps
    by (intro conjI busy_move p(1) Acquire_life[OF p(4) n(1) assms(3) m(1)] Acquire_cas[OF p(7,4) n(1) assms(3) cas_moves[OF p(1)]]
        Acquire_size[OF p(5,4) n(1,2) assms(3) m(2)] Acquire_array[OF p(6,4) n(1,3) assms(3) m(3) p(3)]
        Acquire_view[OF p(6,4) n(1,3) assms(3) m(3) p(3)] pcs_step[OF p(8,9)])
      (rule conjunct1[OF c] disjI1[OF conjunct2[OF c]])+
qed

lemma client_ok:
  assumes "slot_inv (s, L)" and "few_threads (s, L) t" and "Client_step (L t) s = Some (pc, s', e)"
  shows "slot_inv (s', L(t := pc)) \<and> connection_do (t, e) (conf_view (s, L)) = Some (conf_view (s', L(t := pc)))"
proof -
  note p = slot_parts[OF assms(1,2)]
  note n = life_nums_of[OF p(1,2)] size_nums_of[OF p(1)] array_nums_of[OF p(1)]
  note m = life_moves_of[OF p(1)] size_moves_of[OF p(1)] array_moves_of[OF p(1)]
  note c = Client_pc[OF assms(3) p(3)]
  show ?thesis unfolding slot_inv_def conf_view.simps slot_life.simps slot_queue.simps
    by (intro conjI busy_move p(1) Client_life[OF p(4) n(1) assms(3) m(1)] Client_cas[OF p(7,4) n(1) assms(3) cas_moves[OF p(1)]]
        Client_size[OF p(5,4) n(1,2) assms(3) m(2)] Client_array[OF p(6,4) n(1,3) assms(3) m(3) p(3)]
        Client_view[OF p(6,4) n(1,3) assms(3) m(3) p(3)] pcs_step[OF p(8,9)])
      (rule conjunct1[OF c] disjI1[OF conjunct2[OF c]])+
qed

lemma send_post_ok:
  assumes "slot_inv (s, L)" and "few_threads (s, L) t" and "SendPost_step ok (L t) s = Some (pc, s', e)"
  shows "slot_inv (s', L(t := pc)) \<and> connection_do (t, e) (conf_view (s, L)) = Some (conf_view (s', L(t := pc)))"
proof -
  note p = slot_parts[OF assms(1,2)]
  note n = life_nums_of[OF p(1,2)] size_nums_of[OF p(1)] array_nums_of[OF p(1)]
  note m = life_moves_of[OF p(1)] size_moves_of[OF p(1)] array_moves_of[OF p(1)]
  have f: "at_first (L t) \<longrightarrow> 0 < sl_size s" using p(5) n(2) by (auto simp: size_ok_def size_nums_def)
  note c = SendPost_pc[OF assms(3) p(3) f]
  show ?thesis unfolding slot_inv_def conf_view.simps slot_life.simps slot_queue.simps
    by (intro conjI busy_move p(1) SendPost_life[OF p(4) n(1) assms(3) m(1)] SendPost_cas[OF p(7,4) n(1) assms(3) cas_moves[OF p(1)]]
        SendPost_size[OF p(5,4) n(1,2) assms(3) m(2)] SendPost_array[OF p(6,4) n(1,3) assms(3) m(3) p(3)]
        SendPost_view[OF p(6,4) n(1,3) assms(3) m(3) p(3)] pcs_step[OF p(8,9)])
      (rule conjunct1[OF c] disjI1[OF conjunct2[OF c]])+
qed

lemma release_ok:
  assumes "slot_inv (s, L)" and "few_threads (s, L) t" and "Release_step (L t) s = Some (pc, s', e)"
  shows "slot_inv (s', L(t := pc)) \<and> connection_do (t, e) (conf_view (s, L)) = Some (conf_view (s', L(t := pc)))"
proof -
  note p = slot_parts[OF assms(1,2)]
  note n = life_nums_of[OF p(1,2)] size_nums_of[OF p(1)] array_nums_of[OF p(1)]
  note m = life_moves_of[OF p(1)] size_moves_of[OF p(1)] array_moves_of[OF p(1)]
  have d: "sl_sendQ s = []" if "at_setup (L t) \<or> (\<exists>b. L t = RelEnd b)"
    using drained[OF p(5,4) n(1,2)] that by blast
  note c = Release_pc[OF assms(3)]
  show ?thesis unfolding slot_inv_def conf_view.simps slot_life.simps slot_queue.simps
    by (intro conjI busy_move p(1) Release_life[OF p(4) n(1) assms(3) m(1)] Release_cas[OF p(7) assms(3) cas_moves[OF p(1)]]
        Release_size[OF p(5,4) n(1,2) assms(3) m(2)] Release_array[OF p(6,4) n(1,3) assms(3) m(3) p(3)]
        Release_view[OF p(6,4) n(1,3) assms(3) m(3) p(3) d] pcs_step[OF p(8,9)])
      (rule conjunct1[OF c] disjI1[OF conjunct2[OF c]])+
qed

lemma worker_ok:
  assumes "slot_inv (s, L)" and "few_threads (s, L) t" and "Worker_slot_step ok (L t) s = Some (pc, s', e)"
  shows "slot_inv (s', L(t := pc)) \<and> connection_do (t, e) (conf_view (s, L)) = Some (conf_view (s', L(t := pc)))"
proof -
  note p = slot_parts[OF assms(1,2)]
  note n = life_nums_of[OF p(1,2)] size_nums_of[OF p(1)] array_nums_of[OF p(1)]
  note m = life_moves_of[OF p(1)] size_moves_of[OF p(1)] array_moves_of[OF p(1)]
  note c = Worker_pc[OF assms(3)]
  show ?thesis unfolding slot_inv_def conf_view.simps slot_life.simps slot_queue.simps
    by (intro conjI busy_move p(1) Worker_life[OF p(4) n(1) assms(3) m(1)] Worker_cas[OF p(7) assms(3) cas_moves[OF p(1)]]
        Worker_size[OF p(5,4) n(1,2) assms(3) m(2)] Worker_array[OF p(6,4) n(1,3) assms(3) m(3) p(3)]
        Worker_view[OF p(6,4) n(1,3) assms(3) m(3) p(3)] pcs_step[OF p(8,9)])
      (rule conjunct1[OF c] disjI1[OF conjunct2[OF c]])+
qed

lemma accept_ok:
  assumes "slot_inv (s, L)" and "few_threads (s, L) t" and "Accept_step ok (L t) s = Some (pc, s', e)"
  shows "slot_inv (s', L(t := pc)) \<and> connection_do (t, e) (conf_view (s, L)) = Some (conf_view (s', L(t := pc)))"
proof -
  note p = slot_parts[OF assms(1,2)]
  note n = life_nums_of[OF p(1,2)] size_nums_of[OF p(1)] array_nums_of[OF p(1)]
  note m = life_moves_of[OF p(1)] size_moves_of[OF p(1)] array_moves_of[OF p(1)]
  have d: "sl_sendQ s = []" if "at_setup (L t) \<or> (\<exists>b. L t = RelEnd b)"
    using drained[OF p(5,4) n(1,2)] that by blast
  note l = Accept_life[OF p(4) n(1) assms(3) m(1)]
  have h: "held_refs pc \<le> tally held_refs (L(t := pc))"
    using tally_le[OF busy_move[OF p(1)], of held_refs t pc t] by simp
  note c = Accept_pc[OF assms(3)]
  have c': "sl_sessionID s' = sl_sessionID s \<or> at_setup (L t)" using c by auto
  show ?thesis unfolding slot_inv_def conf_view.simps slot_life.simps slot_queue.simps
    by (intro conjI busy_move p(1) l Accept_cas[OF p(7) l p(4) n(1) h assms(3) cas_moves[OF p(1)]]
        Accept_size[OF p(5,4) n(1,2) assms(3) m(2)] Accept_array[OF p(6,4) n(1,3) assms(3) m(3) p(3)]
        Accept_view[OF p(6,4) n(1,3) assms(3) m(3) p(3) d] pcs_step[OF p(8,9)])
      (rule conjunct1[OF c] c')+
qed

lemma start_ok:
  assumes "slot_inv (s, L)" and "few_threads (s, L) t" and idle: "L t = Idle" and st: "slot_start k s = Some (pc, s')"
  shows "slot_inv (s', L(t := pc)) \<and> conf_view (s', L(t := pc)) = conf_view (s, L)"
proof -
  note p = slot_parts[OF assms(1,2)]
  note n = life_nums_of[OF p(1,2), of t, unfolded idle]
  note m = life_moves_of[OF p(1), of t, unfolded idle] size_moves_of[OF p(1), of t, unfolded idle] array_moves_of[OF p(1), of t, unfolded idle]
  have k: "count_at at_cas (L(t := pc)) = count_at at_cas L + of_bool (at_cas pc)"
    using cas_moves[OF p(1), of t pc] idle by simp
  note c = start_pc[OF st]
  show ?thesis unfolding slot_inv_def conf_view.simps slot_life.simps slot_queue.simps
    by (intro conjI busy_move p(1) start_life[OF p(4) n st m(1)] start_cas[OF st p(7) k]
        start_size[OF p(5) st m(2)] start_array[OF p(6) ready_sends[OF p(4) array_nums_of[OF p(1)]] st m(3)]
        start_view[OF st m(3)] pcs_step[OF p(8,9)])
      (rule conjunct1[OF c] disjI1[OF conjunct2[OF c]])+
qed

lemma slot_step_ok:
  assumes "slot_inv c" and "slot_step c (t, e) c'" and "few_threads c t"
  shows "slot_inv c' \<and> connection_do (t, e) (conf_view c) = Some (conf_view c')"
  using assms(2,1,3)
proof (cases rule: slot_step.cases)
  case (start L k s pc s')
  then show ?thesis using start_ok[of s L t k pc s'] assms(1,3) by simp
next
  case (acquire L s pc s')
  then show ?thesis using acquire_ok[of s L t pc s' e] assms(1,3) by simp
next
  case (client L s pc s')
  then show ?thesis using client_ok[of s L t pc s' e] assms(1,3) by simp
next
  case (post ok L s pc s')
  then show ?thesis using send_post_ok[of s L t ok pc s' e] assms(1,3) by simp
next
  case (release L s pc s')
  then show ?thesis using release_ok[of s L t pc s' e] assms(1,3) by simp
next
  case (worker ok L s pc s')
  then show ?thesis using worker_ok[of s L t ok pc s' e] assms(1,3) by simp
next
  case (accept ok L s pc s')
  then show ?thesis using accept_ok[of s L t ok pc s' e] assms(1,3) by simp
qed

interpretation session_slot: thread_simulation slot_step few_threads "\<lambda>_::unit. slot_inv" "\<lambda>_. conf_view" connection_do
  by unfold_locales (use slot_step_ok in blast)

end
