(* ===== verification/SessionProperties.thy ===== *)
theory SessionProperties
  imports SessionRuns
begin

text \<open>
  What holds of a session slot in every run: it serves one connection after the other, a thread that uses a session
  is safe from its release, no packet is forgotten, and the slot comes back.
\<close>

section \<open>Sample runs\<close>

text \<open>A schedule: which thread moves, the outcome of its access, and the call it begins when it is idle.\<close>

fun first_of :: "'a option list \<Rightarrow> 'a option" where
  "first_of [] = None"
| "first_of (None # xs) = first_of xs"
| "first_of (Some x # xs) = Some x"

fun slot_move :: "nat \<Rightarrow> bool \<Rightarrow> slot_call \<Rightarrow> slot_conf \<Rightarrow> (slot_event \<times> slot_conf) option" where
  "slot_move t ok k (s, L) =
     (if L t = Idle then map_option (\<lambda>(pc, s'). (Silent, s', L(t := pc))) (slot_start k s)
      else map_option (\<lambda>(pc, s', e). (e, s', L(t := pc)))
        (first_of [Acquire_step (L t) s, Client_step (L t) s, SendPost_step ok (L t) s, Release_step (L t) s, Worker_slot_step ok (L t) s, Accept_step ok (L t) s]))"

fun slot_exec :: "(nat \<times> bool \<times> slot_call) list \<Rightarrow> slot_conf \<Rightarrow> ((nat \<times> slot_event) list \<times> slot_conf) option" where
  "slot_exec [] c = Some ([], c)"
| "slot_exec ((t, ok, k) # ds) c =
     (case slot_move t ok k c of None \<Rightarrow> None
      | Some (e, c') \<Rightarrow> map_option (\<lambda>(es, c''). ((t, e) # es, c'')) (slot_exec ds c'))"

lemma first_of_in: "first_of xs = Some x \<Longrightarrow> Some x \<in> set xs"
  by (induction xs rule: first_of.induct) auto

lemma slot_move_step: "slot_move t ok k (s, L) = Some (e, c') \<Longrightarrow> slot_step (s, L) (t, e) c' \<and> (\<exists>pc. snd c' = L(t := pc))"
  by (fastforce split: if_splits dest!: first_of_in intro: slot_step.intros)

definition early :: "slot_conf \<Rightarrow> bool" where
  "early c \<longleftrightarrow> busy (snd c) \<subseteq> {..<4}"

lemma early_few: "early c \<Longrightarrow> few_threads c t"
proof -
  assume "early c"
  then have "card (busy (snd c)) \<le> card {..<4::nat}" by (intro card_mono) (simp_all add: early_def)
  then show ?thesis by (simp add: few_threads_def)
qed

lemma early_move: "early (s, L) \<Longrightarrow> t < 4 \<Longrightarrow> early (s', L(t := pc))"
  by (auto simp: early_def busy_def split: if_splits)

lemma slot_exec_run:
  "slot_exec ds c = Some (es, c') \<Longrightarrow> early c \<Longrightarrow> list_all (\<lambda>d. fst d < 4) ds \<Longrightarrow>
    thread_run slot_step few_threads c es c' \<and> early c'"
proof (induction ds c arbitrary: es rule: slot_exec.induct)
  case (1 c)
  then show ?case by (auto intro: thread_run.none)
next
  case (2 t ok k ds c)
  from 2(2) obtain e d fs where m: "slot_move t ok k c = Some (e, d)" "slot_exec ds d = Some (fs, c')" "es = (t, e) # fs"
    by (auto split: option.splits)
  obtain s L where c: "c = (s, L)" by (cases c)
  obtain pc where st: "slot_step c (t, e) d" "snd d = L(t := pc)" using slot_move_step[of t ok k s L e d] m(1) c by blast
  have "early d" using early_move[of s L t "fst d" pc] 2(3,4) c st(2) by (cases d) simp
  then have "thread_run slot_step few_threads d fs c' \<and> early c'" using 2(1)[OF m(1) _ m(2)] 2(4) by simp
  moreover have "thread_run slot_step few_threads c [(t, e)] d"
    using early_few[OF 2(3)] st(1) by (intro thread_run_one)
  ultimately show ?case using thread_run_trans m(3) by fastforce
qed

definition sample_accept :: "(nat \<times> bool \<times> slot_call) list" where
  "sample_accept = replicate 9 (0, True, CallAccept 65536)"

text \<open>A client is accepted; one thread sends a packet while another one tries an id of the past.\<close>

definition sample_send :: "(nat \<times> bool \<times> slot_call) list" where
  "sample_send = sample_accept @ replicate 4 (1, True, CallSend 65536 7) @ replicate 2 (2, True, CallSend 0 8)"

definition sample_posted :: "(nat \<times> bool \<times> slot_call) list" where
  "sample_posted = sample_send @ replicate 11 (1, True, CallSend 65536 7) @ replicate 2 (2, True, CallSend 0 8)"

text \<open>Another packet is sent, and waits for the send in flight.\<close>

definition sample_wait :: "(nat \<times> bool \<times> slot_call) list" where
  "sample_wait = sample_posted @ replicate 7 (2, True, CallSend 65536 8)"

text \<open>The client leaves: the completions fail, and the last one releases the session.\<close>

definition sample_end :: "(nat \<times> bool \<times> slot_call) list" where
  "sample_end = sample_posted @ replicate 2 (3, True, CompleteSend False) @ replicate 8 (1, True, CompleteRecv False)"

definition run_of :: "(nat \<times> bool \<times> slot_call) list \<Rightarrow> (nat \<times> slot_event) list \<times> slot_conf" where
  "run_of ds = the (slot_exec ds slot_start_conf)"

lemma sample_run:
  assumes "slot_exec ds slot_start_conf \<noteq> None" and "list_all (\<lambda>d. fst d < 4) ds"
  shows "thread_run slot_step few_threads slot_start_conf (fst (run_of ds)) (snd (run_of ds))" "early (snd (run_of ds))"
proof -
  obtain es c where e: "slot_exec ds slot_start_conf = Some (es, c)" using assms(1) by auto
  have "early slot_start_conf" by (simp add: early_def slot_start_conf_def busy_def)
  from slot_exec_run[OF e this assms(2)]
  show "thread_run slot_step few_threads slot_start_conf (fst (run_of ds)) (snd (run_of ds))" "early (snd (run_of ds))"
    by (simp_all add: run_of_def e)
qed

lemma early_idle: "early c \<Longrightarrow> list_all (\<lambda>t. snd c t = Idle) [0..<4] \<Longrightarrow> \<forall>t. snd c t = Idle"
  unfolding early_def busy_def list_all_iff by auto

section \<open>Properties\<close>

lemma slot_reached: "thread_run slot_step few_threads slot_start_conf es c \<Longrightarrow> slot_inv c"
  using session_slot.run_simulates[of slot_start_conf es c] slot_inv_init by blast

lemma reached_life: "thread_run slot_step few_threads slot_start_conf es (s, L) \<Longrightarrow> slot_life (s, L)"
  using slot_reached[of es "(s, L)"] by (simp add: slot_inv_def)

lemma count_at_zero: "finite (busy L) \<Longrightarrow> f Idle = False \<Longrightarrow> count_at f L = 0 \<Longrightarrow> \<not> f (L u)"
  using tally_le[of L "\<lambda>pc. of_bool (f pc)" u] by simp

text \<open>Two threads at places of which there is at most one are the same thread.\<close>

lemma count_at_one: "finite (busy L) \<Longrightarrow> f Idle = False \<Longrightarrow> count_at f L \<le> 1 \<Longrightarrow> f (L t) \<Longrightarrow> f (L u) \<Longrightarrow> u = t"
  using tally_ge2[of "\<lambda>pc. of_bool (f pc)" L t u] weighted_busy[of L "\<lambda>pc. of_bool (f pc)"] by (cases "t = u") simp_all

lemma all_idle: "(\<forall>t. L t = Idle) \<Longrightarrow> f Idle = 0 \<Longrightarrow> tally f L = 0"
  by (rule tally_none) simp


text \<open>
  C1. Under every interleaving of sends, disconnects, completions, releases and accepts on one session slot the slot
  behaves as one connection after the other: packets are queued on the connection whose id was given, posted in
  order in batches of one to a hundred with one send in flight, freed once, and all freed before the slot is used again.
\<close>

theorem slot_serves_connections:
  assumes "thread_run slot_step few_threads slot_start_conf es c"
  shows "act_all connection_do es NoConnection = Some (conf_view c)"
proof -
  from session_slot.run_simulates[OF assms slot_inv_init]
  show ?thesis by (simp add: conf_view_init)
qed

theorem slot_serves_connections_witness:
  "act_all connection_do (fst (run_of sample_end)) NoConnection = Some (conf_view (snd (run_of sample_end))) \<and>
   filter (\<lambda>e. snd e \<noteq> Silent) (fst (run_of sample_end)) =
     [(0, Opened 65536), (1, Queued 65536 7), (1, Posted [7]), (1, Shut), (1, Freed [7]), (1, Ended 65536)]"
proof -
  have "slot_exec sample_end slot_start_conf \<noteq> None" "list_all (\<lambda>d. fst d < 4) sample_end"
    by code_simp+
  from slot_serves_connections[OF sample_run(1)[OF this]]
  have "act_all connection_do (fst (run_of sample_end)) NoConnection = Some (conf_view (snd (run_of sample_end)))" .
  moreover have "filter (\<lambda>e. snd e \<noteq> Silent) (fst (run_of sample_end)) =
     [(0, Opened 65536), (1, Queued 65536 7), (1, Posted [7]), (1, Shut), (1, Freed [7]), (1, Ended 65536)]"
    by code_simp
  ultimately show ?thesis by (rule conjI)
qed

text \<open>
  C6. While a thread works with a session whose id it has validated (or that it has by an operation in flight), the
  session is neither released nor set up for another client, a packet is queued under the id that was asked for,
  and at most one thread is in the receive queue or owns the sending flag.
\<close>

theorem session_user_safe:
  assumes "thread_run slot_step few_threads slot_start_conf es (s, L)" and "at_user (L t)"
  shows "\<not> slot_released s \<and> (\<forall>u. \<not> at_release (L u) \<and> \<not> at_setup (L u)) \<and>
    (\<forall>p sid. L t = EnqLink p sid \<longrightarrow> sl_sessionID s = sid) \<and>
    (at_recvQ (L t) \<longrightarrow> sl_recv s = 0 \<and> (\<forall>u. at_recvQ (L u) \<longrightarrow> u = t)) \<and>
    (at_sender (L t) \<longrightarrow> sl_send s = 0 \<and> sl_isSending s \<and> (\<forall>u. at_sender (L u) \<longrightarrow> u = t))"
proof -
  note life = reached_life[OF assms(1)]
  then have fin: "finite (busy L)" and ok: "life_ok s (tally held_refs L) (count_at at_user L) (count_at at_release L)
     (count_at at_setup L) (count_at at_recvQ L) (count_at at_sender L)" by simp_all
  have live: "\<not> slot_released s" by (rule users_locked(2)[OF life assms(2)])
  note F = life_live[OF ok live]
  have q: "of_bool (at_recvQ (L t)) \<le> count_at at_recvQ L" "of_bool (at_sender (L t)) \<le> count_at at_sender L"
    by (rule tally_le[OF fin]; simp)+
  have one: "count_at at_recvQ L \<le> 1" "count_at at_sender L \<le> 1" using F(5,7) by linarith+
  have rel: "\<not> at_release (L u)" "\<not> at_setup (L u)" for u
    by (rule count_at_zero[OF fin]; simp add: F(2,3))+
  have sid: "sl_sessionID s = sid" if "L t = EnqLink p sid" for p sid
  proof -
    have "slot_pc_ok (sl_sessionID s) (L t)" using slot_reached[OF assms(1)] by (simp add: slot_inv_def)
    with that show ?thesis by simp
  qed
  have rcv: "sl_recv s = 0" "u = t" if "at_recvQ (L t)" "at_recvQ (L u)" for u
    using F(5) q(1) that(1) count_at_one[OF fin _ one(1) that] by simp_all
  have snd: "sl_send s = 0" "sl_isSending s" "u = t" if "at_sender (L t)" "at_sender (L u)" for u
    using F(6,7) q(2) that(1) count_at_one[OF fin _ one(2) that] by (simp_all, cases "sl_isSending s") simp_all
  show ?thesis
    by (intro conjI live allI impI rel) (erule sid | (rule rcv snd; assumption))+
qed

theorem session_user_safe_witness:
  "snd (snd (run_of sample_send)) 1 = EnqSize 65536 \<and> \<not> slot_released (fst (snd (run_of sample_send)))"
proof -
  have run: "slot_exec sample_send slot_start_conf \<noteq> None" "list_all (\<lambda>d. fst d < 4) sample_send"
    by code_simp+
  have pc: "snd (snd (run_of sample_send)) 1 = EnqSize 65536" by code_simp
  have "thread_run slot_step few_threads slot_start_conf (fst (run_of sample_send))
      (fst (snd (run_of sample_send)), snd (snd (run_of sample_send)))" using sample_run(1)[OF run] by simp
  from session_user_safe[OF this, of 1] pc show ?thesis by simp
qed

text \<open>
  C9. When no thread is at work on a session, no packet has been forgotten: packets that wait in the send queue
  wait for a send in flight, or the connection has already failed.
\<close>

theorem no_packet_forgotten:
  assumes "thread_run slot_step few_threads slot_start_conf es (s, L)" and "\<forall>t. L t = Idle"
    and "conf_view (s, L) = Connected sid posted waiting" and "waiting \<noteq> []"
  shows "sl_send s = 1 \<or> sl_dead s = 1"
proof -
  note z = all_idle[OF assms(2)]
  have inv: "slot_inv (s, L)" by (rule slot_reached[OF assms(1)])
  have live: "\<not> slot_released s" using assms(3) by (auto simp: slot_view_def split: if_splits)
  have "sl_sendQ s \<noteq> []" using assms(3,4) live by (auto simp: slot_view_def z split: if_splits)
  moreover have "int (length (sl_sendQ s)) = sl_size s" "sl_isSending s \<or> sl_size s \<le> 0"
    using inv live by (simp_all add: slot_inv_def size_ok_def z)
  ultimately have "sl_isSending s" using length_greater_0_conv[of "sl_sendQ s"] by linarith
  moreover have "sl_send s + sl_dead s = of_bool (sl_isSending s)"
    using inv live by (simp add: slot_inv_def life_ok_def z)
  ultimately show ?thesis by auto
qed

theorem no_packet_forgotten_witness:
  "conf_view (snd (run_of sample_wait)) = Connected 65536 [7] [8] \<and>
   (sl_send (fst (snd (run_of sample_wait))) = 1 \<or> sl_dead (fst (snd (run_of sample_wait))) = 1)"
proof -
  have run: "slot_exec sample_wait slot_start_conf \<noteq> None" "list_all (\<lambda>d. fst d < 4) sample_wait"
    by code_simp+
  have n: "list_all (\<lambda>t. snd (snd (run_of sample_wait)) t = Idle) [0..<4]"
    "slot_view (fst (snd (run_of sample_wait))) 0 0 0 0 = Connected 65536 [7] [8]" by code_simp+
  note idle = early_idle[OF sample_run(2)[OF run] n(1)]
  have v: "conf_view (fst (snd (run_of sample_wait)), snd (snd (run_of sample_wait))) = Connected 65536 [7] [8]"
    unfolding conf_view.simps using n(2) by (simp only: all_idle[OF idle] taken_at.simps at_posting.simps at_sent.simps at_closing.simps at_release.simps of_bool_eq)
  have "thread_run slot_step few_threads slot_start_conf (fst (run_of sample_wait))
      (fst (snd (run_of sample_wait)), snd (snd (run_of sample_wait)))" using sample_run(1)[OF run] by simp
  from no_packet_forgotten[OF this idle v] v show ?thesis by simp
qed

text \<open>
  C10. When no thread is at work on a session slot and no receive or send is in flight, the slot is free again: its index
  is on the stack exactly once, the count holds the flag alone, and no packet is left in the array or in the queue.
\<close>

theorem idle_slot_returned:
  assumes "thread_run slot_step few_threads slot_start_conf es (s, L)" and "\<forall>t. L t = Idle"
    and "sl_recv s = 0" and "sl_send s = 0"
  shows "conf_view (s, L) = NoConnection \<and> sl_stacked s = 1 \<and> sl_ioCount s = RELEASE_FLAG \<and> sl_sendQ s = [] \<and>
    sl_size s = 0 \<and> sl_sendingCount s = 0"
proof -
  note z = all_idle[OF assms(2)]
  have inv: "slot_inv (s, L)" by (rule slot_reached[OF assms(1)])
  have n: "unat (sl_ioCount s) = (if slot_released s then 2 ^ 31 else 0)" "unat (sl_ioCount s) \<noteq> 0"
    using inv assms(3,4) by (simp_all add: slot_inv_def life_ok_def cas_ok_def z)
  then have rel: "slot_released s" by (simp split: if_splits)
  have "unat (sl_ioCount s) = unat (RELEASE_FLAG :: u32)" using n(1) rel by (simp add: flag_on)
  then have "sl_ioCount s = RELEASE_FLAG" by (simp only: word_unat_eq_iff)
  moreover have "sl_stacked s = 1" using inv rel by (simp add: slot_inv_def life_ok_def z)
  moreover have q: "int (length (sl_sendQ s)) = sl_size s" "0 \<le> sl_size s" "sl_size s \<le> 0" "sl_sendingCount s = 0"
    using inv rel by (simp_all add: slot_inv_def size_ok_def array_ok_def z)
  moreover from q have "length (sl_sendQ s) = 0" by linarith
  moreover have "conf_view (s, L) = NoConnection" using rel by (simp add: slot_view_def z)
  ultimately show ?thesis by simp
qed

theorem idle_slot_returned_witness:
  "conf_view (snd (run_of sample_end)) = NoConnection \<and> sl_stacked (fst (snd (run_of sample_end))) = 1"
proof -
  have run: "slot_exec sample_end slot_start_conf \<noteq> None" "list_all (\<lambda>d. fst d < 4) sample_end"
    by code_simp+
  have n: "sl_recv (fst (snd (run_of sample_end))) = 0" "sl_send (fst (snd (run_of sample_end))) = 0"
    "list_all (\<lambda>t. snd (snd (run_of sample_end)) t = Idle) [0..<4]" by code_simp+
  have "thread_run slot_step few_threads slot_start_conf (fst (run_of sample_end))
      (fst (snd (run_of sample_end)), snd (snd (run_of sample_end)))" using sample_run(1)[OF run] by simp
  from idle_slot_returned[OF this early_idle[OF sample_run(2)[OF run] n(3)] n(1,2)] show ?thesis by simp
qed

end
