(* ===== verification/Spec2Isabelle.thy ===== *)
theory Spec2Isabelle
  imports RingBuffer PacketBuffer MemoryPool PacketPool NetServer NetSafety NetReceive NetService
    ChatServer ChatJobs ChatSectors NetLoad ChatPlayers ChatLobby ChatHandlers ChatContents
    NetProperties ChatProperties NetSample LanServer LanReceive LanService EchoServer LanProperties
    TaggedPointer Threads LockFreeStack StackProperties LockFreeQueue QueueSteps QueueRuns QueueProperties IocpEcho IocpSafety IocpProperties
    SessionSteps SessionLife SessionQueue SessionArray SessionView SessionSlot SessionRuns SessionProperties
begin

text \<open>
  A verification library for a C++ game-server library on I/O completion ports: lock-free containers and
  pools, a serialisation buffer, two server classes, and the chat and echo servers built on them.

  The program. \<open>MyLibrary\<close> holds \<open>RingBuffer\<close> (a byte queue), \<open>Packet\<close> (\<open>PacketBuffer\<close>: a message with
  reference count, framing and cipher), \<open>LockFreeStack\<close>, \<open>LockFreeQueue\<close>, and \<open>LockFreeMemoryPool\<close> with a cache per
  thread (\<open>LockFreeMemoryPoolTLS\<close>). \<open>CNetServer\<close> (clients) and \<open>CLanServer\<close> (other servers) keep an array of sessions:
  one accept thread takes a free index from a lock-free stack and sets the session up, worker threads take
  completions from the port, cut the bytes of the session's ring buffer into frames, hand the payload to the
  virtual \<open>OnRecv\<close>, and send what \<open>SendPacket\<close> has put into the session's lock-free queue. A session lives as long as
  its \<open>ioCount\<close> is positive. \<open>ChatServer\<close> derives from \<open>CNetServer\<close>: its callbacks queue jobs, and one contents thread
  runs them on players, maps and a grid of sectors. \<open>EchoServer\<close> derives from \<open>CLanServer\<close>. \<open>IOCPEchoServer.cpp\<close> is
  an older echo server in one file, with sessions on the heap behind a map and locks.

  The theories, in the order they build on each other.

  \<open>Prelude\<close>: words and bytes; \<open>fault\<close> and \<open>'a result\<close>, so that every out-of-bounds access, bad pointer and
  \<open>__debugbreak\<close> of the source is a value; memory copies with checked bounds; circular buffers; the predicate
  \<open>safe\<close> (a normal result satisfies a postcondition, and the only fault is \<open>DebugBreak\<close>).

  \<open>RingBuffer\<close> (\<open>MyLibrary/RingBuffer.cpp\<close>): every operation on the fields of the class; it behaves as a bounded list of
  bytes and never leaves its block. The locale \<open>byte_fifo\<close> is what receiving relies on.

  \<open>PacketBuffer\<close> (\<open>MyLibrary/PacketBuffer.h\<close>, \<open>.cpp\<close>): one packet, the operators, both headers, \<open>Encode\<close> and \<open>Decode\<close>; the
  round trips of fields and frames, and the rejection of changed frames. \<open>PacketPool\<close>: \<open>Alloc\<close>, \<open>AddRef\<close> and \<open>Free\<close> on the pool
  of packets; the locale \<open>refcounted\<close> is the contract the servers use.

  \<open>MemoryPool\<close> (\<open>LockFreeMemoryPool.h\<close>, \<open>LockFreeMemoryPoolTLS.h\<close>): blocks on a heap, chunks, the shared stack of chunks
  and the cache of each thread; a block is never handed out twice, double frees are caught, nothing is lost.

  \<open>TaggedPointer\<close>, \<open>Threads\<close>: addresses with a tag of 17 bits (locale \<open>tagged_words\<close>); the nodes that threads hold,
  sums over the threads at work, linked lists, runs of interleaved steps and their simulation (locale \<open>thread_simulation\<close>).
  \<open>LockFreeStack\<close>, \<open>StackProperties\<close> (\<open>LockFreeStack.h\<close>) and \<open>LockFreeQueue\<close>, \<open>QueueSteps\<close>, \<open>QueueRuns\<close>, \<open>QueueProperties\<close>
  (\<open>LockFreeQueue.h\<close>): each access to shared memory is a step of one of any number of threads. Both are linearizable
  as long as no exchange uses a copy that is \<open>2 ^ 17\<close> or more updates old; for the stack the bound is shown to be sharp.

  \<open>NetServer\<close> (\<open>CNetServer.h\<close>, \<open>CNetServer.cpp\<close>, \<open>Session.h\<close>): the record \<open>server\<close> with its sessions, and one definition per
  method, each as one thread runs it without interference. \<open>ne_wsa\<close> gives the error code of a system call from the calls
  so far, the trace holds the calls; the virtual functions are parameters. \<open>NetSafety\<close>: the invariants \<open>net_inv\<close> (shape),
  \<open>io_inv\<close> (reference counts of sessions) and the counting of packet references (\<open>srv\<close> joins them), and that finding,
  sending, releasing and disconnecting keep them (locales \<open>net_release\<close> and \<open>framing\<close>). \<open>NetReceive\<close>: \<open>net_parse\<close>
  is the specification of the stream, and receiving delivers exactly what it finds (locale \<open>net_app\<close>). \<open>NetService\<close>: accepting
  (locale \<open>accepting\<close>, shared by both servers: the exact result for a client that is refused or allowed), the worker,
  with the exact result of a completed send, start and stop. \<open>NetLoad\<close>: how far a broadcast can raise a packet's count. \<open>NetSample\<close>: concrete servers
  for the witnesses. \<open>NetProperties\<close>: the properties.

  \<open>LanServer\<close>, \<open>LanReceive\<close>, \<open>LanService\<close> (\<open>NetworkLibrary/CLanServer\<close>): every method written out again and, where its
  code is the same, proved equal to that of the net server; \<open>lan_parse\<close> specifies its stream. \<open>EchoServer\<close>,
  \<open>LanProperties\<close>: the echo server on it and the properties of both.

  \<open>ChatServer\<close> (\<open>ChatServer.cpp\<close>, \<open>ChatServer.h\<close>, \<open>Player.h\<close>, \<open>CommonProtocol.h\<close>): players, maps, sectors, jobs and all handlers.
  \<open>ChatJobs\<close>: the callbacks keep the contract of \<open>net_app\<close>. \<open>ChatSectors\<close>, \<open>ChatPlayers\<close>, \<open>ChatLobby\<close>, \<open>ChatHandlers\<close>,
  \<open>ChatContents\<close>: the invariants of the grid and of the maps, and the refinement of an abstract server \<open>room_step\<close> on members
  and accounts by the handlers, job by job. \<open>ChatProperties\<close>: the properties.

  \<open>IocpEcho\<close>, \<open>IocpSafety\<close>, \<open>IocpProperties\<close> (\<open>IOCPEchoServer.cpp\<close>): the heap of sessions, the map and its lock, all
  handlers and \<open>main\<close>; over the states reachable from the start, whatever code each system call returns, the counts
  are exact, a receive answers exactly the messages that \<open>lan_parse\<close> finds, and the cases are given in which a worker
  uses a session it has deleted.
  \<open>SessionSteps\<close> to \<open>SessionProperties\<close> (again \<open>CNetServer.cpp\<close>): one slot of \<open>m_sessions\<close> under any interleaving of
  threads. Every access to \<open>ioCount\<close>, \<open>sessionID\<close>, \<open>isSending\<close>, the size and the nodes of the send queue is a step
  (\<open>slot_step\<close>): \<open>AcquireSession\<close> (\<open>Acquire_step\<close>), \<open>SendPacket\<close> and \<open>Disconnect\<close> (\<open>Client_step\<close>), \<open>SendPost\<close>, \<open>ReturnSession\<close>
  and \<open>ReleaseSession\<close> (\<open>Release_step\<close>), \<open>RecvProc\<close>, \<open>SendProc\<close> and \<open>RecvPost\<close> (\<open>Worker_slot_step\<close>), and what the accept
  thread does with a slot (\<open>Accept_step\<close>). The send queue is used through what \<open>QueueProperties\<close> shows of it, the array
  through its one owner. \<open>SessionLife\<close>, \<open>SessionQueue\<close> and \<open>SessionArray\<close> hold the invariants, as equations between the
  fields and the numbers of threads at each place; \<open>SessionView\<close> and \<open>SessionSlot\<close> show that every step is a step of the
  abstract \<open>connection\<close>, \<open>SessionRuns\<close> puts them together as an interpretation of \<open>thread_simulation\<close>. Results: a slot
  serves one connection after the other, whoever has validated an id is safe from the release, no wake-up of the
  sender is lost, and an idle slot comes back with nothing left in it. The bound is \<open>2 ^ 29\<close> threads, so that
  \<open>ioCount\<close> stays below its flag.

  Bounds and fuel. Loops whose number of passes depends on data take a number as fuel and the definition that calls
  them supplies it: the receive loops one more than the bytes in the queue (every pass takes a header), the loops over
  chunks and queues their length, \<open>SendPost\<close> a hundred packets. \<open>OutOfFuel\<close> is a fault of its own, and the
  theorems that exclude faults exclude it. Counters are machine words: the theorems that rely on them not to wrap
  say so (fewer than 50 references of a session by the caller, fewer than \<open>2 ^ 31\<close> of a packet).

  Not modelled. \<open>CrashDump\<close>: handlers of the debugger and files only. \<open>main.cpp\<close> of the LAN server: constants, keyboard and
  console. The headers of classes beyond their fields and constants. The statistics that \<open>LFMP_STATS\<close> 0 compiles out, the
  critical section of \<open>RingBuffer\<close> that nobody enters, \<open>printf\<close>. Sockets, threads, completion ports, the clock,
  \<open>rand\<close> and the order of an \<open>unordered_map\<close> are parameters. The operations of the memory pool and of the
  single-file server run without interference.
\<close>

end
